(* ===== verification/Genba_Prelude.thy ===== *)
theory Genba_Prelude
  imports Main "HOL-Library.Finite_Map" "HOL-Library.List_Lexorder" "HOL-Library.Char_ord"
    "HOL-Library.Multiset"
begin

text \<open>
  What every component of the development shares: the names of the model's types, the
  errors of the program as one datatype, Go's maps as finite maps with an explicit
  iteration order, and the handful of list functions of Go's \<open>slices\<close> and \<open>sort\<close>
  packages the program uses.

  Go strings are byte strings, so a string is an Isabelle \<^typ>\<open>string\<close> whose characters
  are the bytes; \<open>slices.Sort\<close> on strings is then the lexicographic order of the bytes,
  which is the \<^theory_text>\<open>linorder\<close> of \<open>List_Lexorder\<close> over \<open>Char_ord\<close>.
  An instant of \<open>time.Time\<close> is the number of nanoseconds since Go's zero time, so that
  \<open>IsZero\<close> is equality with 0; a duration is a number of nanoseconds.
\<close>

section \<open>Types and errors\<close>

type_synonym gtime = int
type_synonym duration = int
type_synonym rune = nat

definition IsZero :: "gtime \<Rightarrow> bool" where
  "IsZero t \<longleftrightarrow> t = 0"

definition Hour :: duration where
  "Hour = 3600 * 1000000000"

text \<open>
  The sentinel errors of the packages modelled, and the two errors a context can hold. An
  error wrapped with \<open>%w\<close> is modelled by the sentinel it wraps, which is what
  \<open>errors.Is\<close> sees; \<open>ErrDirectory\<close> is any other failure of an identity provider.
\<close>

datatype error =
    ErrNotFound | ErrNoPrincipal | ErrUnsupported | ErrClosed
  | Canceled | DeadlineExceeded
  | ErrNoID
  | ErrNoOwner | ErrNoCorrector
  | ErrNoVerifier | ErrNoExpiry
  | ErrNoReporter
  | ErrNoQuestion | ErrNoBody | ErrNoAuthor | ErrNoAnswerID
  | ErrNoFeedSource | ErrNoFeedKind
  | ErrNoSubject | ErrNoGroup | ErrDisabled | ErrTooManyGroups
  | ErrDirectory string
  | ErrConfig string

text \<open>What \<open>ctx.Err()\<close> returns at the moment an operation looks at it.\<close>

type_synonym ctx = "error option"

type_synonym 'a res = "error + 'a"

section \<open>Collections of facts\<close>

named_theorems acl_rules \<open>the permission rule, clause by clause\<close>
named_theorems view_rules \<open>what a principal's view of a store keeps\<close>
named_theorems store_defs \<open>operations of the memory store, unfolded\<close>

section \<open>Options and sums\<close>

definition is_ok :: "'a res \<Rightarrow> bool" where
  "is_ok r = (case r of Inl _ \<Rightarrow> False | Inr _ \<Rightarrow> True)"

lemma is_ok_simps [simp]: "is_ok (Inr x)" "\<not> is_ok (Inl e)"
  by (simp_all add: is_ok_def)

lemma is_ok_iff: "is_ok r \<longleftrightarrow> (\<exists>x. r = Inr x)"
  by (cases r) simp_all

section \<open>Lists\<close>

text \<open>
  Appending what is not there yet: the loop Go code writes as a \<open>slices.Contains\<close>
  check in front of an \<open>append\<close>.
\<close>

definition add_new :: "'a list \<Rightarrow> 'a \<Rightarrow> 'a list" where
  "add_new xs x = (if x \<in> set xs then xs else xs @ [x])"

lemma set_add_new [simp]: "set (add_new xs x) = insert x (set xs)"
  by (auto simp: add_new_def)

lemma distinct_add_new [simp]: "distinct (add_new xs x) \<longleftrightarrow> distinct xs"
  by (auto simp: add_new_def)

lemma set_foldl_add_new [simp]: "set (foldl add_new xs ys) = set xs \<union> set ys"
  by (induction ys arbitrary: xs) auto

lemma distinct_foldl_add_new [simp]: "distinct (foldl add_new xs ys) \<longleftrightarrow> distinct xs"
  by (induction ys arbitrary: xs) auto

lemma foldl_add_new_fresh:
  "distinct (xs @ ys) \<Longrightarrow> foldl add_new xs ys = xs @ ys"
  by (induction ys arbitrary: xs) (auto simp: add_new_def)

lemma sorted_strict_unique:
  assumes "set xs = set ys" and "distinct xs" "distinct ys" and "sorted xs" "sorted ys"
  shows "xs = ys"
  using assms by (simp add: sorted_distinct_set_unique)

lemma sort_mset_cong: "mset xs = mset ys \<Longrightarrow> sort xs = sort ys"
  by (metis mset_sort properties_for_sort sorted_sort)

lemma distinct_remdups_adj_sorted:
  fixes xs :: "'a::linorder list"
  shows "sorted xs \<Longrightarrow> distinct (remdups_adj xs)"
  by (induction xs rule: remdups_adj.induct) (auto simp: less_le)

lemma remdups_adj_sort_cong:
  fixes xs ys :: "'a::linorder list"
  assumes "set xs = set ys"
  shows "remdups_adj (sort xs) = remdups_adj (sort ys)"
proof (rule sorted_strict_unique)
  show "set (remdups_adj (sort xs)) = set (remdups_adj (sort ys))"
    using assms by simp
qed (simp_all add: distinct_remdups_adj_sorted)

text \<open>
  Go's iteration by callback: a loop that hands the elements to \<open>fn\<close> and stops as soon as it
  returns false. The callback's captured variables are the state \<open>'s\<close>; the first component
  of the result says whether the loop ran to its end.
\<close>

fun yield_all :: "('a \<Rightarrow> 's \<Rightarrow> bool \<times> 's) \<Rightarrow> 'a list \<Rightarrow> 's \<Rightarrow> bool \<times> 's" where
  "yield_all fn [] s = (True, s)"
| "yield_all fn (x # xs) s =
     (case fn x s of (True, s') \<Rightarrow> yield_all fn xs s' | (False, s') \<Rightarrow> (False, s'))"

lemma yield_all_append:
  "yield_all fn (xs @ ys) s =
     (case yield_all fn xs s of (True, s') \<Rightarrow> yield_all fn ys s' | (False, s') \<Rightarrow> (False, s'))"
  by (induction xs arbitrary: s) (simp_all split: prod.split bool.split)

lemma yield_all_collect: "yield_all (\<lambda>x s. (True, s @ [f x])) xs s = (True, s @ map f xs)"
  by (induction xs arbitrary: s) simp_all

lemma yield_all_find:
  "yield_all (\<lambda>x s. if P x then (False, Some x) else (True, s)) xs s =
     (case find P xs of None \<Rightarrow> (True, s) | Some x \<Rightarrow> (False, Some x))"
  by (induction xs arbitrary: s) simp_all

lemma yield_all_map: "yield_all fn (map f xs) s = yield_all (\<lambda>x. fn (f x)) xs s"
  by (induction xs arbitrary: s) (simp_all split: prod.split bool.split)

lemma yield_all_fold: "yield_all (\<lambda>x s. (True, f s x)) xs s = (True, foldl f s xs)"
  by (induction xs arbitrary: s) simp_all

lemma foldl_map: "foldl f b (map g xs) = foldl (\<lambda>b x. f b (g x)) b xs"
  by (induction xs arbitrary: b) simp_all

lemma foldl_cong_set:
  "(\<And>b x. x \<in> set xs \<Longrightarrow> f b x = g b x) \<Longrightarrow> foldl f b xs = foldl g b xs"
  by (induction xs arbitrary: b) simp_all

text \<open>The first occurrence of a separator splits a string in one way.\<close>

lemma sep_split:
  "c \<notin> set x \<Longrightarrow> c \<notin> set y \<Longrightarrow> x @ c # r = y @ c # s \<longleftrightarrow> x = y \<and> r = s"
proof (induction x arbitrary: y)
  case Nil
  then show ?case by (cases y) auto
next
  case (Cons a x)
  then show ?case by (cases y) auto
qed

section \<open>Maps\<close>

text \<open>The keys of a Go map after \<open>sort.Strings\<close>, which is how the program makes a range over a map deterministic.\<close>

definition map_keys :: "('a::linorder, 'b) fmap \<Rightarrow> 'a list" where
  "map_keys m = sorted_list_of_set (fset (fmdom m))"

lemma set_keys [simp]: "set (map_keys m) = fset (fmdom m)"
  by (simp add: map_keys_def)

lemma sorted_keys [simp]: "sorted (map_keys m)" "distinct (map_keys m)"
  by (simp_all add: map_keys_def)

lemma keys_lookup: "x \<in> set (map_keys m) \<Longrightarrow> \<exists>y. fmlookup m x = Some y"
  by (auto elim: fmdomE)

lemma keys_fmfilter: "map_keys (fmfilter P m) = filter P (map_keys m)"
  by (rule sorted_distinct_set_unique) (auto simp: sorted_wrt_filter)

text \<open>What a separator that neither part has splits is split in one way.\<close>

lemma split_mark:
  assumes "m \<notin> set a" "m \<notin> set b" "a @ m # x = b @ m # y"
  shows "a = b \<and> x = y"
  using assms
proof (induction a arbitrary: b)
  case Nil
  then show ?case by (cases b) auto
next
  case (Cons c a)
  then show ?case by (cases b) auto
qed

end
