(* ===== verification/Go_Strings.thy ===== *)
theory Go_Strings
  imports Genba_Prelude
begin

text \<open>
  The part of Go's standard library the program's text handling rests on: UTF-8 decoding
  and encoding (\<open>unicode/utf8\<close>), ranging over a string, \<open>strings.ToLower\<close>,
  \<open>strings.EqualFold\<close>, \<open>strings.Join\<close>, \<open>strings.Cut\<close>,
  \<open>strings.TrimSpace\<close> and \<open>strconv.Itoa\<close>. No file of the repository is modelled
  here.

  The Unicode tables themselves (which runes are letters, what their lower case is) belong
  to the Go release the program is built with, so they are one parameter, a
  \<open>unicode\<close> record, that every function reading them takes; what the library does for
  ASCII runes without a table is written out. Every property of the development holds for
  every such table unless it names what it needs of it.
\<close>

record unicode =
  uc_lower :: "rune \<Rightarrow> rune"
  uc_fold_eq :: "rune \<Rightarrow> rune \<Rightarrow> bool"
  uc_letter :: "rune \<Rightarrow> bool"
  uc_digit :: "rune \<Rightarrow> bool"
  uc_space :: "rune \<Rightarrow> bool"
  uc_han :: "rune \<Rightarrow> bool"
  uc_hiragana :: "rune \<Rightarrow> bool"
  uc_katakana :: "rune \<Rightarrow> bool"

text \<open>A table that knows nothing past ASCII, for concrete runs.\<close>

definition ascii_table :: unicode where
  "ascii_table = \<lparr>uc_lower = (\<lambda>r. r), uc_fold_eq = (\<lambda>_ _. False),
     uc_letter = (\<lambda>_. False), uc_digit = (\<lambda>_. False), uc_space = (\<lambda>_. False),
     uc_han = (\<lambda>_. False), uc_hiragana = (\<lambda>_. False), uc_katakana = (\<lambda>_. False)\<rparr>"

section \<open>UTF-8\<close>

definition byte_of :: "char \<Rightarrow> nat" where
  "byte_of c = of_char c"

definition of_byte :: "nat \<Rightarrow> char" where
  "of_byte n = char_of n"

lemma byte_of_lt [simp]: "byte_of c < 256"
  by (simp add: byte_of_def)

lemma of_byte_of [simp]: "of_byte (byte_of c) = c"
  by (simp add: byte_of_def of_byte_def)

lemma byte_of_of_byte [simp]: "n < 256 \<Longrightarrow> byte_of (of_byte n) = n"
  by (simp add: byte_of_def of_byte_def)

lemma byte_of_inject [simp]: "byte_of c = byte_of d \<longleftrightarrow> c = d"
  by (metis of_byte_of)

definition RuneError :: rune where
  "RuneError = 0xFFFD"

definition RuneSelf :: nat where
  "RuneSelf = 0x80"

definition cont_byte :: "nat \<Rightarrow> nat \<Rightarrow> char \<Rightarrow> bool" where
  "cont_byte lo hi c \<longleftrightarrow> lo \<le> byte_of c \<and> byte_of c \<le> hi"

text \<open>
  The table \<open>first\<close> of the package: how many bytes a lead byte announces and the range
  its second byte has to lie in, which is what refuses overlong forms and surrogates.
\<close>

definition lead_info :: "nat \<Rightarrow> (nat \<times> nat \<times> nat) option" where
  "lead_info b =
     (if 0xC2 \<le> b \<and> b \<le> 0xDF then Some (2, 0x80, 0xBF)
      else if b = 0xE0 then Some (3, 0xA0, 0xBF)
      else if b = 0xED then Some (3, 0x80, 0x9F)
      else if 0xE1 \<le> b \<and> b \<le> 0xEF then Some (3, 0x80, 0xBF)
      else if b = 0xF0 then Some (4, 0x90, 0xBF)
      else if b = 0xF4 then Some (4, 0x80, 0x8F)
      else if 0xF1 \<le> b \<and> b \<le> 0xF3 then Some (4, 0x80, 0xBF)
      else None)"

definition decode2 :: "nat \<Rightarrow> nat \<Rightarrow> rune" where
  "decode2 b b1 = (b mod 32) * 64 + b1 mod 64"

definition decode3 :: "nat \<Rightarrow> nat \<Rightarrow> nat \<Rightarrow> rune" where
  "decode3 b b1 b2 = (b mod 16) * 4096 + (b1 mod 64) * 64 + b2 mod 64"

definition decode4 :: "nat \<Rightarrow> nat \<Rightarrow> nat \<Rightarrow> nat \<Rightarrow> rune" where
  "decode4 b b1 b2 b3 =
     (b mod 8) * 262144 + (b1 mod 64) * 4096 + (b2 mod 64) * 64 + b3 mod 64"

text \<open>The rune a string starts with and how many bytes it takes: \<open>DecodeRuneInString\<close>.\<close>

fun DecodeRune :: "string \<Rightarrow> rune \<times> nat" where
  "DecodeRune [] = (RuneError, 0)"
| "DecodeRune (c # cs) =
     (if byte_of c < RuneSelf then (byte_of c, 1)
      else (case lead_info (byte_of c) of
          None \<Rightarrow> (RuneError, 1)
        | Some (n, lo, hi) \<Rightarrow>
            (case cs of
              [] \<Rightarrow> (RuneError, 1)
            | c1 # cs1 \<Rightarrow>
                if \<not> cont_byte lo hi c1 then (RuneError, 1)
                else if n = 2 then (decode2 (byte_of c) (byte_of c1), 2)
                else (case cs1 of
                    [] \<Rightarrow> (RuneError, 1)
                  | c2 # cs2 \<Rightarrow>
                      if \<not> cont_byte 0x80 0xBF c2 then (RuneError, 1)
                      else if n = 3
                        then (decode3 (byte_of c) (byte_of c1) (byte_of c2), 3)
                      else (case cs2 of
                          [] \<Rightarrow> (RuneError, 1)
                        | c3 # _ \<Rightarrow>
                            if \<not> cont_byte 0x80 0xBF c3 then (RuneError, 1)
                            else (decode4 (byte_of c) (byte_of c1) (byte_of c2) (byte_of c3),
                                  4))))))"

definition encode3 :: "rune \<Rightarrow> string" where
  "encode3 r = [of_byte (0xE0 + r div 4096), of_byte (0x80 + r div 64 mod 64),
                of_byte (0x80 + r mod 64)]"

definition EncodeRune :: "rune \<Rightarrow> string" where
  "EncodeRune r =
     (if r < 0x80 then [of_byte r]
      else if r < 0x800 then [of_byte (0xC0 + r div 64), of_byte (0x80 + r mod 64)]
      else if (0xD800 \<le> r \<and> r \<le> 0xDFFF) \<or> 0x10FFFF < r then encode3 RuneError
      else if r < 0x10000 then encode3 r
      else [of_byte (0xF0 + r div 262144), of_byte (0x80 + r div 4096 mod 64),
            of_byte (0x80 + r div 64 mod 64), of_byte (0x80 + r mod 64)])"

definition valid_rune :: "rune \<Rightarrow> bool" where
  "valid_rune r \<longleftrightarrow> r < 0xD800 \<or> 0xDFFF < r \<and> r \<le> 0x10FFFF"

lemma EncodeRune_not_Nil [simp]: "EncodeRune r \<noteq> []"
  by (simp add: EncodeRune_def encode3_def)

lemma DecodeRune_width_le: "snd (DecodeRune s) \<le> length s"
  by (cases s rule: DecodeRune.cases) (auto split: option.split list.split)

lemma DecodeRune_width_pos: "s \<noteq> [] \<Longrightarrow> 0 < snd (DecodeRune s)"
  by (cases s rule: DecodeRune.cases) (auto split: option.split list.split)

lemma DecodeRune_ascii: "byte_of c < 128 \<Longrightarrow> DecodeRune (c # cs) = (byte_of c, 1)"
  by (simp add: RuneSelf_def)

lemma lead_info_cases:
  assumes "lead_info b = Some (n, lo, hi)"
  obtains "n = 2" "0xC2 \<le> b" "b \<le> 0xDF" "lo = 0x80" "hi = 0xBF"
    | "n = 3" "b = 0xE0" "lo = 0xA0" "hi = 0xBF"
    | "n = 3" "b = 0xED" "lo = 0x80" "hi = 0x9F"
    | "n = 3" "0xE1 \<le> b" "b \<le> 0xEF" "b \<noteq> 0xED" "lo = 0x80" "hi = 0xBF"
    | "n = 4" "b = 0xF0" "lo = 0x90" "hi = 0xBF"
    | "n = 4" "b = 0xF4" "lo = 0x80" "hi = 0x8F"
    | "n = 4" "0xF1 \<le> b" "b \<le> 0xF3" "lo = 0x80" "hi = 0xBF"
  using assms by (auto simp: lead_info_def split: if_splits)

lemma div_mod_64:
  fixes q z :: nat
  assumes "z < 64"
  shows "(q * 64 + z) div 64 = q" "(q * 64 + z) mod 64 = z"
  using assms by simp_all

lemma div_4096: "(n::nat) div 4096 = n div 64 div 64"
  by (simp add: div_mult2_eq [of _ 64 64, simplified])

lemma div_262144: "(n::nat) div 262144 = n div 64 div 64 div 64"
  by (simp add: div_mult2_eq [of _ 64 4096, simplified] div_4096)

text \<open>
  A rune that decodes without an error encodes back to the bytes it was read from. The
  three multi-byte forms are three facts about division by powers of 64.
\<close>

lemma EncodeRune_decode2:
  assumes "0xC2 \<le> byte_of c" "byte_of c \<le> 0xDF" "cont_byte 0x80 0xBF c1"
  shows "EncodeRune (decode2 (byte_of c) (byte_of c1)) = [c, c1]"
proof -
  let ?b = "byte_of c" and ?b1 = "byte_of c1"
  have b1: "0x80 \<le> ?b1" "?b1 \<le> 0xBF"
    using assms(3) by (simp_all add: cont_byte_def)
  define x y where "x = ?b - 0xC0" and "y = ?b1 - 0x80"
  have xy: "?b = 0xC0 + x" "?b1 = 0x80 + y" "2 \<le> x" "x < 32" "y < 64"
    using assms(1,2) b1 by (auto simp: x_def y_def)
  have r: "decode2 ?b ?b1 = x * 64 + y"
  proof -
    have "(0xC0 + x) mod 32 = x" using xy(4) by (simp add: mod_add_left_eq [symmetric])
    moreover have "(0x80 + y) mod 64 = y" using xy(5) by (simp add: mod_add_left_eq [symmetric])
    ultimately show ?thesis unfolding decode2_def xy(1,2) by presburger
  qed
  have "(x * 64 + y) div 64 = x" "(x * 64 + y) mod 64 = y" using xy(5) by simp_all
  moreover have "\<not> x * 64 + y < 128" "x * 64 + y < 2048" using xy by simp_all
  ultimately show ?thesis
    unfolding EncodeRune_def r by (simp add: xy(1,2) [symmetric])
qed

lemma EncodeRune_decode3:
  assumes "0xE0 \<le> byte_of c" "byte_of c \<le> 0xEF"
    and "cont_byte 0x80 0xBF c1" "cont_byte 0x80 0xBF c2"
    and "byte_of c = 0xE0 \<longrightarrow> 0xA0 \<le> byte_of c1"
    and "byte_of c = 0xED \<longrightarrow> byte_of c1 \<le> 0x9F"
  shows "EncodeRune (decode3 (byte_of c) (byte_of c1) (byte_of c2)) = [c, c1, c2]"
proof -
  let ?b = "byte_of c" and ?b1 = "byte_of c1" and ?b2 = "byte_of c2"
  have b: "0x80 \<le> ?b1" "?b1 \<le> 0xBF" "0x80 \<le> ?b2" "?b2 \<le> 0xBF"
    using assms(3,4) by (simp_all add: cont_byte_def)
  define x y z where "x = ?b - 0xE0" and "y = ?b1 - 0x80" and "z = ?b2 - 0x80"
  have xy: "?b = 0xE0 + x" "?b1 = 0x80 + y" "?b2 = 0x80 + z" "x < 16" "y < 64" "z < 64"
    using assms(1,2) b by (auto simp: x_def y_def z_def)
  have sp: "x = 0 \<longrightarrow> 32 \<le> y" "x = 13 \<longrightarrow> y < 32"
    using assms(5,6) xy by auto
  let ?r = "x * 4096 + y * 64 + z"
  have r: "decode3 ?b ?b1 ?b2 = ?r"
  proof -
    have "(0xE0 + x) mod 16 = x" using xy(4) by (simp add: mod_add_left_eq [symmetric])
    moreover have "(0x80 + y) mod 64 = y" using xy(5) by (simp add: mod_add_left_eq [symmetric])
    moreover have "(0x80 + z) mod 64 = z" using xy(6) by (simp add: mod_add_left_eq [symmetric])
    ultimately show ?thesis unfolding decode3_def xy(1-3) by presburger
  qed
  have e: "?r = (x * 64 + y) * 64 + z" by simp
  have d: "?r div 4096 = x" "?r div 64 mod 64 = y" "?r mod 64 = z"
    using xy(5,6) unfolding e div_4096 by (simp_all only: div_mod_64)
  have lt: "\<not> ?r < 0x80" "\<not> ?r < 0x800" "?r < 0x10000"
    using sp(1) xy(4-6) by linarith+
  have "\<not> ((0xD800 \<le> ?r \<and> ?r \<le> 0xDFFF) \<or> 0x10FFFF < ?r)"
  proof (cases "x \<le> 12")
    case True
    with xy(5,6) show ?thesis by linarith
  next
    case False
    show ?thesis
    proof (cases "x = 13")
      case True
      with sp(2) xy(5,6) show ?thesis by simp
    next
      case x: False
      with False have "14 \<le> x" by linarith
      with xy(4-6) show ?thesis by linarith
    qed
  qed
  then have "EncodeRune ?r = encode3 ?r"
    using lt by (simp only: EncodeRune_def if_True if_False)
  then show ?thesis
    by (simp only: r encode3_def d xy(1-3) [symmetric] of_byte_of)
qed

lemma EncodeRune_decode4:
  assumes "0xF0 \<le> byte_of c" "byte_of c \<le> 0xF4"
    and "cont_byte 0x80 0xBF c1" "cont_byte 0x80 0xBF c2" "cont_byte 0x80 0xBF c3"
    and "byte_of c = 0xF0 \<longrightarrow> 0x90 \<le> byte_of c1"
    and "byte_of c = 0xF4 \<longrightarrow> byte_of c1 \<le> 0x8F"
  shows "EncodeRune (decode4 (byte_of c) (byte_of c1) (byte_of c2) (byte_of c3))
    = [c, c1, c2, c3]"
proof -
  let ?b = "byte_of c" and ?b1 = "byte_of c1" and ?b2 = "byte_of c2" and ?b3 = "byte_of c3"
  have b: "0x80 \<le> ?b1" "?b1 \<le> 0xBF" "0x80 \<le> ?b2" "?b2 \<le> 0xBF" "0x80 \<le> ?b3" "?b3 \<le> 0xBF"
    using assms(3-5) by (simp_all add: cont_byte_def)
  define w x y z where "w = ?b - 0xF0" and "x = ?b1 - 0x80" and "y = ?b2 - 0x80"
    and "z = ?b3 - 0x80"
  have xy: "?b = 0xF0 + w" "?b1 = 0x80 + x" "?b2 = 0x80 + y" "?b3 = 0x80 + z"
      "w \<le> 4" "x < 64" "y < 64" "z < 64"
    using assms(1,2) b by (auto simp: w_def x_def y_def z_def)
  have sp: "w = 0 \<longrightarrow> 16 \<le> x" "w = 4 \<longrightarrow> x < 16"
    using assms(6,7) xy by auto
  let ?r = "w * 262144 + x * 4096 + y * 64 + z"
  have r: "decode4 ?b ?b1 ?b2 ?b3 = ?r"
  proof -
    have "(0xF0 + w) mod 8 = w" using xy(5) by (simp add: mod_add_left_eq [symmetric])
    moreover have "(0x80 + x) mod 64 = x" using xy(6) by (simp add: mod_add_left_eq [symmetric])
    moreover have "(0x80 + y) mod 64 = y" using xy(7) by (simp add: mod_add_left_eq [symmetric])
    moreover have "(0x80 + z) mod 64 = z" using xy(8) by (simp add: mod_add_left_eq [symmetric])
    ultimately show ?thesis unfolding decode4_def xy(1-4) by presburger
  qed
  have e: "?r = ((w * 64 + x) * 64 + y) * 64 + z" by simp
  have d: "?r div 262144 = w" "?r div 4096 mod 64 = x" "?r div 64 mod 64 = y" "?r mod 64 = z"
    using xy(6-8) unfolding e div_4096 div_262144 by (simp_all only: div_mod_64)
  have lt: "\<not> ?r < 0x80" "\<not> ?r < 0x800" "\<not> ?r < 0x10000"
    "\<not> ((0xD800 \<le> ?r \<and> ?r \<le> 0xDFFF) \<or> 0x10FFFF < ?r)"
    using sp xy(5-8) by linarith+
  show ?thesis
    using lt by (simp only: r EncodeRune_def if_False d xy(1-4) [symmetric] of_byte_of)
qed

lemma cont_byte_weaken: "cont_byte lo hi c \<Longrightarrow> 0x80 \<le> lo \<Longrightarrow> hi \<le> 0xBF \<Longrightarrow> cont_byte 0x80 0xBF c"
  by (simp add: cont_byte_def)

lemma lead_info_3:
  assumes "lead_info b = Some (3, lo, hi)"
  shows "0xE0 \<le> b" "b \<le> 0xEF" "0x80 \<le> lo" "hi \<le> 0xBF"
    "b = 0xE0 \<longrightarrow> 0xA0 \<le> lo" "b = 0xED \<longrightarrow> hi \<le> 0x9F"
  using assms by (auto simp: lead_info_def split: if_splits)

lemma lead_info_4:
  assumes "lead_info b = Some (4, lo, hi)"
  shows "0xF0 \<le> b" "b \<le> 0xF4" "0x80 \<le> lo" "hi \<le> 0xBF"
    "b = 0xF0 \<longrightarrow> 0x90 \<le> lo" "b = 0xF4 \<longrightarrow> hi \<le> 0x8F"
  using assms by (auto simp: lead_info_def split: if_splits)

lemma DecodeRune_shape:
  assumes "DecodeRune (c # cs) = (r, w)"
  obtains (ascii) "byte_of c < 0x80" "r = byte_of c" "w = 1"
    | (bad) "r = RuneError" "w = 1"
    | (two) c1 rest where "0xC2 \<le> byte_of c" "byte_of c \<le> 0xDF" "cs = c1 # rest"
        "cont_byte 0x80 0xBF c1" "r = decode2 (byte_of c) (byte_of c1)" "w = 2"
    | (three) lo hi c1 c2 rest where "lead_info (byte_of c) = Some (3, lo, hi)"
        "cs = c1 # c2 # rest" "cont_byte lo hi c1" "cont_byte 0x80 0xBF c2"
        "r = decode3 (byte_of c) (byte_of c1) (byte_of c2)" "w = 3"
    | (four) lo hi c1 c2 c3 rest where "lead_info (byte_of c) = Some (4, lo, hi)"
        "cs = c1 # c2 # c3 # rest" "cont_byte lo hi c1" "cont_byte 0x80 0xBF c2"
        "cont_byte 0x80 0xBF c3"
        "r = decode4 (byte_of c) (byte_of c1) (byte_of c2) (byte_of c3)" "w = 4"
proof (cases "byte_of c < RuneSelf")
  case True
  with assms show thesis by (auto simp: RuneSelf_def intro: ascii)
next
  case False
  show thesis
  proof (cases "lead_info (byte_of c)")
    case None
    with False assms show thesis by (auto intro: bad)
  next
    case (Some v)
    obtain n lo hi where v: "v = (n, lo, hi)" by (cases v)
    consider "n = 2" "0xC2 \<le> byte_of c" "byte_of c \<le> 0xDF" "lo = 0x80" "hi = 0xBF"
      | "n = 3" | "n = 4"
      using Some unfolding v by (elim lead_info_cases) auto
    then show thesis
    proof cases
      case 1
      with False Some v assms show thesis
        by (auto split: list.splits if_splits intro: bad two)
    next
      case 2
      with False Some v assms show thesis
        by (auto split: list.splits if_splits intro: bad three)
    next
      case 3
      with False Some v assms show thesis
        by (auto split: list.splits if_splits intro: bad four)
    qed
  qed
qed

theorem EncodeRune_DecodeRune:
  assumes "DecodeRune s = (r, w)" and "s \<noteq> []" and "\<not> (r = RuneError \<and> w = 1)"
  shows "EncodeRune r = take w s"
proof -
  from assms(2) obtain c cs where s: "s = c # cs" by (cases s) auto
  from assms(1)[unfolded s] show ?thesis
  proof (cases rule: DecodeRune_shape)
    case ascii
    then show ?thesis by (simp add: s EncodeRune_def)
  next
    case bad
    with assms(3) show ?thesis by simp
  next
    case two
    then show ?thesis by (simp add: s EncodeRune_decode2)
  next
    case (three lo hi c1 c2 rest)
    note li = lead_info_3 [OF three(1)]
    have "EncodeRune r = [c, c1, c2]"
      unfolding three(5)
    proof (rule EncodeRune_decode3)
      show "cont_byte 0x80 0xBF c1" using three(3) li(3,4) by (rule cont_byte_weaken)
    qed (use three(3,4) li in \<open>auto simp only: cont_byte_def\<close>)
    then show ?thesis by (simp add: s three(2,6) numeral_3_eq_3)
  next
    case (four lo hi c1 c2 c3 rest)
    note li = lead_info_4 [OF four(1)]
    have "EncodeRune r = [c, c1, c2, c3]"
      unfolding four(6)
    proof (rule EncodeRune_decode4)
      show "cont_byte 0x80 0xBF c1" using four(3) li(3,4) by (rule cont_byte_weaken)
    qed (use four(3-5) li in \<open>auto simp only: cont_byte_def\<close>)
    moreover have "take 4 (c # c1 # c2 # c3 # rest) = [c, c1, c2, c3]"
      by (simp add: numeral_eq_Suc)
    ultimately show ?thesis by (simp only: s four(2,7))
  qed
qed

section \<open>Ranging over a string\<close>

text \<open>
  \<open>for i, r := range s\<close>: every rune with the byte offset it starts at and its width, in
  order. An invalid byte is one \<open>RuneError\<close> of width one.
\<close>

function runes_from :: "nat \<Rightarrow> string \<Rightarrow> (nat \<times> rune \<times> nat) list" where
  "runes_from i s =
     (if s = [] then []
      else let (r, w) = DecodeRune s in (i, r, w) # runes_from (i + w) (drop w s))"
  by pat_completeness auto
termination
  by (relation "measure (\<lambda>(i, s). length s)")
    (auto dest: DecodeRune_width_pos [unfolded neq_Nil_conv] simp: DecodeRune_width_pos
      split: prod.splits, metis DecodeRune_width_pos diff_less length_greater_0_conv snd_conv)

declare runes_from.simps [simp del]

definition range_string :: "string \<Rightarrow> (nat \<times> rune) list" where
  "range_string s = map (\<lambda>(i, r, w). (i, r)) (runes_from 0 s)"

definition runes :: "string \<Rightarrow> rune list" where
  "runes s = map (\<lambda>(i, r, w). r) (runes_from 0 s)"

definition RuneCount :: "string \<Rightarrow> nat" where
  "RuneCount s = length (runes s)"

lemma runes_from_Nil [simp]: "runes_from i [] = []"
  by (simp add: runes_from.simps)

lemma runes_from_Cons:
  "DecodeRune (c # cs) = (r, w) \<Longrightarrow>
   runes_from i (c # cs) = (i, r, w) # runes_from (i + w) (drop w (c # cs))"
  by (subst runes_from.simps) simp

text \<open>
  Consecutive offsets: every rune starts where the one before it ended, and the last one
  ends at the end of the string.
\<close>

fun chained :: "nat \<Rightarrow> (nat \<times> rune \<times> nat) list \<Rightarrow> nat \<Rightarrow> bool" where
  "chained i [] n \<longleftrightarrow> i = n"
| "chained i ((j, r, w) # rest) n \<longleftrightarrow> j = i \<and> 0 < w \<and> chained (i + w) rest n"

lemma runes_from_chained: "chained i (runes_from i s) (i + length s)"
proof (induction i s rule: runes_from.induct)
  case (1 i s)
  show ?case
  proof (cases "s = []")
    case False
    obtain r w where d: "DecodeRune s = (r, w)" by fastforce
    have "0 < w" "w \<le> length s"
      using d DecodeRune_width_pos [OF False] DecodeRune_width_le [of s] by simp_all
    then show ?thesis
      using "1" [OF False d [symmetric] refl] False d by (subst runes_from.simps) simp
  qed simp
qed

lemma runes_from_shift:
  "runes_from (i + k) s = map (\<lambda>(j, r, w). (j + k, r, w)) (runes_from i s)"
proof (induction i s rule: runes_from.induct)
  case (1 i s)
  show ?case
  proof (cases "s = []")
    case False
    obtain r w where d: "DecodeRune s = (r, w)" by fastforce
    show ?thesis
      using "1" [OF False d [symmetric] refl] False d
      by (subst (1 2) runes_from.simps) (simp add: ac_simps)
  qed simp
qed

lemma runes_Nil [simp]: "runes [] = []"
  by (simp add: runes_def)

lemma runes_DecodeRune:
  "DecodeRune (c # cs) = (r, w) \<Longrightarrow> runes (c # cs) = r # runes (drop w (c # cs))"
  using runes_from_shift [of 0 w "drop w (c # cs)"]
  by (simp add: runes_def runes_from_Cons comp_def case_prod_unfold)

section \<open>Case\<close>

definition is_ascii :: "string \<Rightarrow> bool" where
  "is_ascii s \<longleftrightarrow> (\<forall>c \<in> set s. byte_of c < RuneSelf)"

definition lower_byte :: "char \<Rightarrow> char" where
  "lower_byte c = (if 65 \<le> byte_of c \<and> byte_of c \<le> 90 then of_byte (byte_of c + 32) else c)"

definition lower_rune :: "unicode \<Rightarrow> rune \<Rightarrow> rune" where
  "lower_rune U r =
     (if r < RuneSelf then (if 65 \<le> r \<and> r \<le> 90 then r + 32 else r) else uc_lower U r)"

definition ToLower :: "unicode \<Rightarrow> string \<Rightarrow> string" where
  "ToLower U s =
     (if is_ascii s then map lower_byte s
      else concat (map (\<lambda>r. EncodeRune (lower_rune U r)) (runes s)))"

lemma ToLower_Nil [simp]: "ToLower U [] = []"
  by (simp add: ToLower_def is_ascii_def)

lemma runes_not_Nil: "s \<noteq> [] \<Longrightarrow> runes s \<noteq> []"
  by (cases s; cases "DecodeRune s") (simp_all add: runes_DecodeRune)

lemma ToLower_eq_Nil [simp]: "ToLower U s = [] \<longleftrightarrow> s = []"
  by (cases "runes s") (auto simp: ToLower_def dest: runes_not_Nil)

text \<open>
  One step of \<open>EqualFold\<close>: equal runes, or an ASCII letter in its two cases, or two runes
  of one folding orbit.
\<close>

definition equal_fold_rune :: "unicode \<Rightarrow> rune \<Rightarrow> rune \<Rightarrow> bool" where
  "equal_fold_rune U r1 r2 \<longleftrightarrow>
     r1 = r2 \<or>
     (let sr = min r1 r2; tr = max r1 r2
      in if tr < RuneSelf then 65 \<le> sr \<and> sr \<le> 90 \<and> tr = sr + 32 else uc_fold_eq U sr tr)"

definition EqualFold :: "unicode \<Rightarrow> string \<Rightarrow> string \<Rightarrow> bool" where
  "EqualFold U s t \<longleftrightarrow> list_all2 (equal_fold_rune U) (runes s) (runes t)"

lemma EqualFold_refl [simp]: "EqualFold U s s"
  by (simp add: EqualFold_def equal_fold_rune_def list.rel_refl)

lemma EqualFold_sym: "EqualFold U s t \<longleftrightarrow> EqualFold U t s"
proof -
  have "equal_fold_rune U = (equal_fold_rune U)\<inverse>\<inverse>"
    by (auto simp: equal_fold_rune_def fun_eq_iff min.commute max.commute)
  then show ?thesis
    unfolding EqualFold_def by (metis list_all2_conv_all_nth conversep_iff)
qed

section \<open>Space, joining, cutting, numbers\<close>

definition IsSpace :: "unicode \<Rightarrow> rune \<Rightarrow> bool" where
  "IsSpace U r \<longleftrightarrow>
     (if r < 0x100 then (9 \<le> r \<and> r \<le> 13) \<or> r = 32 \<or> r = 0x85 \<or> r = 0xA0 else uc_space U r)"

text \<open>\<open>TrimSpace\<close>: from the first rune that is no space to the end of the last one.\<close>

definition TrimSpace :: "unicode \<Rightarrow> string \<Rightarrow> string" where
  "TrimSpace U s =
     (case filter (\<lambda>(i, r, w). \<not> IsSpace U r) (runes_from 0 s) of
        [] \<Rightarrow> []
      | (i, r, w) # rest \<Rightarrow>
          (let (j, r', w') = last ((i, r, w) # rest) in take (j + w' - i) (drop i s)))"

fun Join :: "string list \<Rightarrow> string \<Rightarrow> string" where
  "Join [] sep = []"
| "Join [x] sep = x"
| "Join (x # xs) sep = x @ sep @ Join xs sep"

text \<open>\<open>strings.Cut\<close> at the first occurrence of a one byte separator.\<close>

definition Cut_byte :: "string \<Rightarrow> char \<Rightarrow> (string \<times> string) option" where
  "Cut_byte s c =
     (if c \<in> set s then Some (takeWhile (\<lambda>x. x \<noteq> c) s, tl (dropWhile (\<lambda>x. x \<noteq> c) s)) else None)"

fun Itoa :: "nat \<Rightarrow> string" where
  "Itoa n =
     (if n < 10 then [of_byte (48 + n)] else Itoa (n div 10) @ [of_byte (48 + n mod 10)])"

declare Itoa.simps [simp del]

definition is_digit_char :: "char \<Rightarrow> bool" where
  "is_digit_char c \<longleftrightarrow> 48 \<le> byte_of c \<and> byte_of c \<le> 57"

lemma Itoa_digits: "c \<in> set (Itoa n) \<Longrightarrow> is_digit_char c"
proof (induction n rule: Itoa.induct)
  case (1 n)
  then show ?case
    by (cases "n < 10")
      (auto simp: Itoa.simps [of n] is_digit_char_def)
qed

fun digits_value :: "string \<Rightarrow> nat" where
  "digits_value [] = 0"
| "digits_value (c # cs) = (byte_of c - 48) * 10 ^ length cs + digits_value cs"

lemma digits_value_append:
  "digits_value (xs @ ys) = digits_value xs * 10 ^ length ys + digits_value ys"
  by (induction xs) (auto simp: algebra_simps power_add)

lemma digits_value_Itoa: "digits_value (Itoa n) = n"
proof (induction n rule: Itoa.induct)
  case (1 n)
  then show ?case
    by (cases "n < 10") (auto simp: Itoa.simps [of n] digits_value_append)
qed

lemma Itoa_inject [simp]: "Itoa m = Itoa n \<longleftrightarrow> m = n"
  by (metis digits_value_Itoa)

end
