(* ===== verification/Acl.thy ===== *)
theory Acl
  imports Go_Strings "HOL-Library.Word"
begin

text \<open>
  The permission model of \<open>acl/\<close>: who is asking, what a source said about who may read
  a document, and the one rule that joins the two (\<open>Permissions.Decide\<close>), with the
  canonical keys of \<open>acl/ref.go\<close> and the cache fingerprint of \<open>acl/fingerprint.go\<close>.

  A nil \<open>*Principal\<close> is \<open>None\<close>. \<open>Kind\<close>, \<open>Mode\<close> and \<open>Sharing\<close> are
  Go's \<open>uint8\<close>, so a value that is none of the named constants exists here too.
  SHA-256 is a parameter of \<open>Fingerprint\<close>, a function from byte strings to byte strings.
\<close>

section \<open>Principals\<close>

type_synonym pkind = "8 word"

definition KindUser :: pkind where "KindUser = 0"
definition KindService :: pkind where "KindService = 1"
definition KindAgent :: pkind where "KindAgent = 2"

record identity =
  id_Source :: string
  id_Value :: string

record group_set =
  gs_Version :: "64 word"
  gs_Members :: "string list"

definition Has :: "group_set \<Rightarrow> string \<Rightarrow> bool" where
  "Has g name \<longleftrightarrow> name \<in> set (gs_Members g)"

record principal =
  p_Tenant :: string
  p_Subject :: string
  p_Kind :: pkind
  p_Identities :: "identity list"
  p_Groups :: group_set
  p_Roles :: "string list"
  p_OnBehalfOf :: string

fun identity_loop :: "unicode \<Rightarrow> identity list \<Rightarrow> string \<Rightarrow> string \<times> bool" where
  "identity_loop U [] source = ('''', False)"
| "identity_loop U (i # is) source =
     (if EqualFold U (id_Source i) source then (id_Value i, True)
      else identity_loop U is source)"

definition IdentityIn :: "unicode \<Rightarrow> principal option \<Rightarrow> string \<Rightarrow> string \<times> bool" where
  "IdentityIn U p source =
     (case p of None \<Rightarrow> ('''', False) | Some p \<Rightarrow> identity_loop U (p_Identities p) source)"

definition RoleAdmin :: string where
  "RoleAdmin = ''admin''"

definition HasRole :: "principal option \<Rightarrow> string \<Rightarrow> bool" where
  "HasRole p role \<longleftrightarrow> (case p of None \<Rightarrow> False | Some p \<Rightarrow> role \<in> set (p_Roles p))"

section \<open>Permissions\<close>

type_synonym mode = "8 word"

definition ModeUnknown :: mode where "ModeUnknown = 0"
definition ModeACL :: mode where "ModeACL = 1"
definition ModePublicToTenant :: mode where "ModePublicToTenant = 2"
definition ModeOwnerOnly :: mode where "ModeOwnerOnly = 3"

lemmas mode_defs = ModeUnknown_def ModeACL_def ModePublicToTenant_def ModeOwnerOnly_def

definition Mode_Valid :: "mode \<Rightarrow> bool" where
  "Mode_Valid m \<longleftrightarrow>
     m = ModeUnknown \<or> m = ModeACL \<or> m = ModePublicToTenant \<or> m = ModeOwnerOnly"

type_synonym sharing = "8 word"

definition SharedNone :: sharing where "SharedNone = 0"
definition SharedByLink :: sharing where "SharedByLink = 1"
definition SharedPublic :: sharing where "SharedPublic = 2"

definition Sharing_String :: "sharing \<Rightarrow> string" where
  "Sharing_String s =
     (if s = SharedNone then ''none'' else if s = SharedByLink then ''link''
      else if s = SharedPublic then ''public'' else ''unknown'')"

record ref =
  ref_Source :: string
  ref_Value :: string

record permissions =
  perm_Mode :: mode
  perm_Owner :: ref
  perm_AllowUsers :: "ref list"
  perm_AllowGroups :: "ref list"
  perm_DenyUsers :: "ref list"
  perm_DenyGroups :: "ref list"
  perm_Sharing :: sharing
  perm_Source :: string
  perm_Version :: "64 word"
  perm_Reason :: string

section \<open>Keys (acl/ref.go)\<close>

definition UserKey :: "unicode \<Rightarrow> ref \<Rightarrow> string" where
  "UserKey U r =
     (if ref_Source r = '''' then ref_Value r
      else ToLower U (ref_Source r) @ '':'' @ ref_Value r)"

definition GroupKey :: "ref \<Rightarrow> string" where
  "GroupKey r =
     (if ref_Source r = '''' then ref_Value r else ref_Source r @ '':'' @ ref_Value r)"

definition ref_of_identity :: "identity \<Rightarrow> ref" where
  "ref_of_identity i = \<lparr>ref_Source = id_Source i, ref_Value = id_Value i\<rparr>"

fun user_keys_loop :: "unicode \<Rightarrow> string list \<Rightarrow> identity list \<Rightarrow> string list" where
  "user_keys_loop U keys [] = keys"
| "user_keys_loop U keys (i # is) =
     (let k = UserKey U (ref_of_identity i)
      in if k \<noteq> '''' \<and> k \<notin> set keys then user_keys_loop U (keys @ [k]) is
         else user_keys_loop U keys is)"

definition UserKeys :: "unicode \<Rightarrow> principal option \<Rightarrow> string list" where
  "UserKeys U p =
     (case p of
        None \<Rightarrow> []
      | Some p \<Rightarrow>
          user_keys_loop U (if p_Subject p \<noteq> '''' then [p_Subject p] else []) (p_Identities p))"

definition GroupKeys :: "principal option \<Rightarrow> string list" where
  "GroupKeys p = (case p of None \<Rightarrow> [] | Some p \<Rightarrow> gs_Members (p_Groups p))"

definition zero_ref :: ref where
  "zero_ref = \<lparr>ref_Source = '''', ref_Value = ''''\<rparr>"

fun matchesKey :: "string list \<Rightarrow> ref list \<Rightarrow> (ref \<Rightarrow> string) \<Rightarrow> ref \<times> bool" where
  "matchesKey keys [] key = (zero_ref, False)"
| "matchesKey keys (r # rs) key =
     (if key r \<in> set keys then (r, True) else matchesKey keys rs key)"

section \<open>The rule (acl/acl.go)\<close>

datatype rule =
    RuleNoPrincipal | RuleUnresolved | RuleDenied | RuleOwner | RuleOwnerOnly
  | RuleTenant | RuleListed | RuleNotListed

record decision =
  dec_Allowed :: bool
  dec_Rule :: rule
  dec_Ref :: ref

definition matchesUser ::
  "unicode \<Rightarrow> permissions \<Rightarrow> principal option \<Rightarrow> ref list \<Rightarrow> ref \<times> bool" where
  "matchesUser U perm p refs = matchesKey (UserKeys U p) refs (UserKey U)"

definition matchesGroup ::
  "permissions \<Rightarrow> principal option \<Rightarrow> ref list \<Rightarrow> ref \<times> bool" where
  "matchesGroup perm p refs = matchesKey (GroupKeys p) refs GroupKey"

definition isOwner :: "unicode \<Rightarrow> permissions \<Rightarrow> principal option \<Rightarrow> bool" where
  "isOwner U perm p =
     (if ref_Value (perm_Owner perm) = '''' then False
      else snd (matchesUser U perm p [perm_Owner perm]))"

definition refuse :: "rule \<Rightarrow> decision" where
  "refuse r = \<lparr>dec_Allowed = False, dec_Rule = r, dec_Ref = zero_ref\<rparr>"

definition Decide :: "unicode \<Rightarrow> permissions \<Rightarrow> principal option \<Rightarrow> decision" where
  "Decide U perm p =
     (case p of
        None \<Rightarrow> refuse RuleNoPrincipal
      | Some _ \<Rightarrow>
        if perm_Mode perm = ModeUnknown then refuse RuleUnresolved
        else (case matchesUser U perm p (perm_DenyUsers perm) of
          (r, True) \<Rightarrow> \<lparr>dec_Allowed = False, dec_Rule = RuleDenied, dec_Ref = r\<rparr>
        | (_, False) \<Rightarrow>
        (case matchesGroup perm p (perm_DenyGroups perm) of
          (r, True) \<Rightarrow> \<lparr>dec_Allowed = False, dec_Rule = RuleDenied, dec_Ref = r\<rparr>
        | (_, False) \<Rightarrow>
          if isOwner U perm p
          then \<lparr>dec_Allowed = True, dec_Rule = RuleOwner, dec_Ref = perm_Owner perm\<rparr>
          else if perm_Mode perm = ModeOwnerOnly then refuse RuleOwnerOnly
          else if perm_Mode perm = ModePublicToTenant
          then \<lparr>dec_Allowed = True, dec_Rule = RuleTenant, dec_Ref = zero_ref\<rparr>
          else if perm_Mode perm = ModeACL then
            (case matchesUser U perm p (perm_AllowUsers perm) of
              (r, True) \<Rightarrow> \<lparr>dec_Allowed = True, dec_Rule = RuleListed, dec_Ref = r\<rparr>
            | (_, False) \<Rightarrow>
            (case matchesGroup perm p (perm_AllowGroups perm) of
              (r, True) \<Rightarrow> \<lparr>dec_Allowed = True, dec_Rule = RuleListed, dec_Ref = r\<rparr>
            | (_, False) \<Rightarrow> refuse RuleNotListed))
          else refuse RuleNotListed)))"

definition Allows :: "unicode \<Rightarrow> permissions \<Rightarrow> principal option \<Rightarrow> bool" where
  "Allows U perm p = dec_Allowed (Decide U perm p)"

section \<open>Lemmas about keys\<close>

lemma matchesKey_True: "snd (matchesKey keys refs key) \<longleftrightarrow> (\<exists>r \<in> set refs. key r \<in> set keys)"
  by (induction refs) auto

lemma matchesKey_cong:
  "set keys = set keys' \<Longrightarrow> matchesKey keys refs key = matchesKey keys' refs key"
  by (induction refs) simp_all

lemma set_user_keys_loop:
  "set (user_keys_loop U keys is) =
     set keys \<union> ((\<lambda>i. UserKey U (ref_of_identity i)) ` set is - {''''})"
  by (induction U keys "is" rule: user_keys_loop.induct) (auto simp: Let_def)

lemma distinct_user_keys_loop:
  "distinct keys \<Longrightarrow> distinct (user_keys_loop U keys is)"
  by (induction U keys "is" rule: user_keys_loop.induct) (auto simp: Let_def)

lemma set_UserKeys:
  "set (UserKeys U (Some p)) =
     ({p_Subject p} \<union> (\<lambda>i. UserKey U (ref_of_identity i)) ` set (p_Identities p)) - {''''}"
  by (auto simp: UserKeys_def set_user_keys_loop)

lemma distinct_UserKeys [simp]: "distinct (UserKeys U p)"
  by (auto simp: UserKeys_def intro!: distinct_user_keys_loop split: option.split)

lemma UserKeys_None [simp]: "UserKeys U None = []"
  by (simp add: UserKeys_def)

lemma GroupKeys_simps [simp]:
  "GroupKeys None = []" "GroupKeys (Some p) = gs_Members (p_Groups p)"
  by (simp_all add: GroupKeys_def)

section \<open>The rule as a predicate\<close>

text \<open>
  What the rule promises, without the order of its clauses: a principal is \<open>named_user\<close>
  or \<open>named_group\<close> by a list of references when one of them has a key of theirs, is
  \<open>denied\<close> when a deny list names them, and is \<open>granted\<close> when they own the document or
  its mode admits them.
\<close>

definition named_user :: "unicode \<Rightarrow> principal \<Rightarrow> ref list \<Rightarrow> bool" where
  "named_user U p refs \<longleftrightarrow> (\<exists>r \<in> set refs. UserKey U r \<in> set (UserKeys U (Some p)))"

definition named_group :: "principal \<Rightarrow> ref list \<Rightarrow> bool" where
  "named_group p refs \<longleftrightarrow> (\<exists>r \<in> set refs. GroupKey r \<in> set (gs_Members (p_Groups p)))"

definition denied :: "unicode \<Rightarrow> permissions \<Rightarrow> principal \<Rightarrow> bool" where
  "denied U perm p \<longleftrightarrow>
     named_user U p (perm_DenyUsers perm) \<or> named_group p (perm_DenyGroups perm)"

definition granted :: "unicode \<Rightarrow> permissions \<Rightarrow> principal \<Rightarrow> bool" where
  "granted U perm p \<longleftrightarrow>
     (ref_Value (perm_Owner perm) \<noteq> '''' \<and> named_user U p [perm_Owner perm])
     \<or> perm_Mode perm = ModePublicToTenant
     \<or> (perm_Mode perm = ModeACL \<and>
          (named_user U p (perm_AllowUsers perm) \<or> named_group p (perm_AllowGroups perm)))"

lemma matchesUser_True: "snd (matchesUser U perm (Some p) refs) \<longleftrightarrow> named_user U p refs"
  by (simp add: matchesUser_def named_user_def matchesKey_True)

lemma matchesGroup_True: "snd (matchesGroup perm (Some p) refs) \<longleftrightarrow> named_group p refs"
  by (simp add: matchesGroup_def named_group_def matchesKey_True)

lemma isOwner_iff:
  "isOwner U perm (Some p) \<longleftrightarrow>
     ref_Value (perm_Owner perm) \<noteq> '''' \<and> named_user U p [perm_Owner perm]"
  by (simp add: isOwner_def matchesUser_True)

lemma dec_Allowed_refuse [simp]: "\<not> dec_Allowed (refuse r)" "dec_Rule (refuse r) = r"
  by (simp_all add: refuse_def)

text \<open>The clauses of \<open>Decide\<close>, one by one, in the order the code tries them.\<close>

lemma Decide_None [acl_rules]: "Decide U perm None = refuse RuleNoPrincipal"
  by (simp add: Decide_def)

lemma Decide_unresolved [acl_rules]:
  "perm_Mode perm = ModeUnknown \<Longrightarrow> Decide U perm (Some p) = refuse RuleUnresolved"
  by (simp add: Decide_def)

lemma Decide_denied [acl_rules]:
  assumes "perm_Mode perm \<noteq> ModeUnknown" and "denied U perm p"
  shows "\<not> dec_Allowed (Decide U perm (Some p))" "dec_Rule (Decide U perm (Some p)) = RuleDenied"
proof -
  have "named_user U p (perm_DenyUsers perm) \<or> named_group p (perm_DenyGroups perm)"
    using assms(2) by (simp add: denied_def)
  then have "snd (matchesUser U perm (Some p) (perm_DenyUsers perm)) \<or>
      snd (matchesGroup perm (Some p) (perm_DenyGroups perm))"
    by (simp add: matchesUser_True matchesGroup_True)
  then show "\<not> dec_Allowed (Decide U perm (Some p))"
      "dec_Rule (Decide U perm (Some p)) = RuleDenied"
    using assms(1) by (auto simp: Decide_def split: prod.splits bool.splits)
qed

lemma Decide_not_denied [acl_rules]:
  assumes "perm_Mode perm \<noteq> ModeUnknown" and "\<not> denied U perm p"
  shows "dec_Allowed (Decide U perm (Some p)) \<longleftrightarrow> granted U perm p"
proof -
  have "\<not> snd (matchesUser U perm (Some p) (perm_DenyUsers perm))"
      "\<not> snd (matchesGroup perm (Some p) (perm_DenyGroups perm))"
    using assms(2) by (simp_all add: denied_def matchesUser_True matchesGroup_True)
  moreover obtain r b where "matchesUser U perm (Some p) (perm_AllowUsers perm) = (r, b)"
    by fastforce
  moreover obtain r' b' where "matchesGroup perm (Some p) (perm_AllowGroups perm) = (r', b')"
    by fastforce
  ultimately show ?thesis
    using assms(1) matchesUser_True [of U perm p "perm_AllowUsers perm"]
      matchesGroup_True [of perm p "perm_AllowGroups perm"]
    by (auto simp: Decide_def granted_def isOwner_iff mode_defs split: prod.splits bool.splits)
qed

lemma Allows_rule:
  "Allows U perm p \<longleftrightarrow>
     (\<exists>q. p = Some q \<and> perm_Mode perm \<noteq> ModeUnknown \<and> \<not> denied U perm q \<and> granted U perm q)"
proof (cases p)
  case None
  then show ?thesis by (simp add: Allows_def acl_rules)
next
  case (Some q)
  then show ?thesis
    by (cases "perm_Mode perm = ModeUnknown"; cases "denied U perm q")
      (simp_all add: Allows_def acl_rules)
qed

text \<open>
  C1: a principal may read a document exactly when somebody is asking, the descriptor
  resolved, no deny reference names them, and they are the owner, or the document is public
  to the tenant, or its access control list names them. A deny therefore beats every allow
  and an unresolved descriptor is visible to nobody, whatever its lists say.
\<close>

theorem Allows_iff:
  "Allows U perm p \<longleftrightarrow>
     (\<exists>q. p = Some q \<and> perm_Mode perm \<noteq> ModeUnknown \<and> \<not> denied U perm q \<and> granted U perm q)"
  by (rule Allows_rule)

lemma named_user_append [simp]:
  "named_user U p (xs @ ys) \<longleftrightarrow> named_user U p xs \<or> named_user U p ys"
  by (auto simp: named_user_def)

lemma named_group_append [simp]:
  "named_group p (xs @ ys) \<longleftrightarrow> named_group p xs \<or> named_group p ys"
  by (auto simp: named_group_def)

text \<open>
  Adding references to the deny lists of a descriptor takes the document away from
  exactly the principals the new references name and from nobody else; no addition to a deny
  list can ever grant anything.
\<close>

theorem Allows_more_denies:
  "Allows U (perm\<lparr>perm_DenyUsers := perm_DenyUsers perm @ us,
                   perm_DenyGroups := perm_DenyGroups perm @ gs\<rparr>) (Some q) \<longleftrightarrow>
     Allows U perm (Some q) \<and> \<not> named_user U q us \<and> \<not> named_group q gs"
  by (auto simp: Allows_rule denied_def granted_def)

text \<open>
  The reference a decision reports is the evidence for it: it stands on the list the rule
  names, and it names the principal.
\<close>

definition evidence :: "unicode \<Rightarrow> permissions \<Rightarrow> principal \<Rightarrow> decision \<Rightarrow> bool" where
  "evidence U perm p d =
     (case dec_Rule d of
        RuleDenied \<Rightarrow> \<not> dec_Allowed d \<and>
          (dec_Ref d \<in> set (perm_DenyUsers perm) \<and> named_user U p [dec_Ref d] \<or>
           dec_Ref d \<in> set (perm_DenyGroups perm) \<and> named_group p [dec_Ref d])
      | RuleListed \<Rightarrow> dec_Allowed d \<and> perm_Mode perm = ModeACL \<and>
          (dec_Ref d \<in> set (perm_AllowUsers perm) \<and> named_user U p [dec_Ref d] \<or>
           dec_Ref d \<in> set (perm_AllowGroups perm) \<and> named_group p [dec_Ref d])
      | RuleOwner \<Rightarrow> dec_Allowed d \<and> dec_Ref d = perm_Owner perm \<and> named_user U p [dec_Ref d]
      | RuleTenant \<Rightarrow> dec_Allowed d \<and> dec_Ref d = zero_ref \<and> perm_Mode perm = ModePublicToTenant
      | RuleUnresolved \<Rightarrow> \<not> dec_Allowed d \<and> dec_Ref d = zero_ref \<and> perm_Mode perm = ModeUnknown
      | RuleOwnerOnly \<Rightarrow> \<not> dec_Allowed d \<and> dec_Ref d = zero_ref \<and> perm_Mode perm = ModeOwnerOnly
      | RuleNotListed \<Rightarrow> \<not> dec_Allowed d \<and> dec_Ref d = zero_ref
      | RuleNoPrincipal \<Rightarrow> False)"

lemma matchesKey_hit:
  "matchesKey keys refs key = (r, True) \<Longrightarrow> r \<in> set refs \<and> key r \<in> set keys"
  by (induction refs) (auto split: if_splits)

lemma matchesUser_hit:
  "matchesUser U perm (Some p) refs = (r, True) \<Longrightarrow> r \<in> set refs \<and> named_user U p [r]"
  by (auto simp: matchesUser_def named_user_def dest: matchesKey_hit)

lemma matchesGroup_hit:
  "matchesGroup perm (Some p) refs = (r, True) \<Longrightarrow> r \<in> set refs \<and> named_group p [r]"
  by (auto simp: matchesGroup_def named_group_def dest: matchesKey_hit)

text \<open>
  Every decision carries its own evidence: a deny or a listing reports a reference that
  is on the deny or allow list and names the principal, ownership reports the owner, and the
  clauses that match nothing report the zero reference.
\<close>

theorem Decide_evidence: "evidence U perm q (Decide U perm (Some q))"
proof -
  obtain du bu where 1: "matchesUser U perm (Some q) (perm_DenyUsers perm) = (du, bu)"
    by fastforce
  obtain dg bg where 2: "matchesGroup perm (Some q) (perm_DenyGroups perm) = (dg, bg)"
    by fastforce
  obtain au cu where 3: "matchesUser U perm (Some q) (perm_AllowUsers perm) = (au, cu)"
    by fastforce
  obtain ag cg where 4: "matchesGroup perm (Some q) (perm_AllowGroups perm) = (ag, cg)"
    by fastforce
  have hits: "bu \<Longrightarrow> du \<in> set (perm_DenyUsers perm) \<and> named_user U q [du]"
      "bg \<Longrightarrow> dg \<in> set (perm_DenyGroups perm) \<and> named_group q [dg]"
      "cu \<Longrightarrow> au \<in> set (perm_AllowUsers perm) \<and> named_user U q [au]"
      "cg \<Longrightarrow> ag \<in> set (perm_AllowGroups perm) \<and> named_group q [ag]"
    subgoal using 1 by (intro matchesUser_hit) simp
    subgoal using 2 by (intro matchesGroup_hit) simp
    subgoal using 3 by (intro matchesUser_hit) simp
    subgoal using 4 by (intro matchesGroup_hit) simp
    done
  note unfold = evidence_def Decide_def refuse_def 1 2 3 4
  consider "perm_Mode perm = ModeUnknown" | "perm_Mode perm \<noteq> ModeUnknown" bu
    | "perm_Mode perm \<noteq> ModeUnknown" "\<not> bu" bg
    | "perm_Mode perm \<noteq> ModeUnknown" "\<not> bu" "\<not> bg" by blast
  then show ?thesis
  proof cases
    case 1
    then show ?thesis by (simp add: unfold)
  next
    case 2
    then show ?thesis using hits(1) by (simp add: unfold)
  next
    case 3
    then show ?thesis using hits(2) by (simp add: unfold)
  next
    case 4
    then show ?thesis
      using hits(3,4) isOwner_iff [of U perm q]
      by (cases "isOwner U perm (Some q)"; cases cu; cases cg; simp add: unfold mode_defs)
  qed
qed

section \<open>The fingerprint (acl/fingerprint.go)\<close>

definition FingerprintBytes :: nat where
  "FingerprintBytes = 16"

text \<open>One \<open>write\<close> of the function: the length, a colon, the bytes.\<close>

definition fp_write :: "string \<Rightarrow> string" where
  "fp_write s = Itoa (length s) @ '':'' @ s"

definition fp_keys :: "string list \<Rightarrow> string list" where
  "fp_keys keys = (let sorted = remdups_adj (sort keys) in Itoa (length sorted) # sorted)"

definition fp_input :: "unicode \<Rightarrow> principal \<Rightarrow> string" where
  "fp_input U p = concat (map fp_write
     ([p_Tenant p, Itoa (unat (gs_Version (p_Groups p)))]
      @ fp_keys (UserKeys U (Some p)) @ fp_keys (GroupKeys (Some p))))"

definition hex_digit :: "nat \<Rightarrow> char" where
  "hex_digit n = (if n < 10 then of_byte (48 + n) else of_byte (87 + n))"

definition EncodeToString :: "string \<Rightarrow> string" where
  "EncodeToString bs =
     concat (map (\<lambda>c. [hex_digit (byte_of c div 16), hex_digit (byte_of c mod 16)]) bs)"

definition Fingerprint :: "(string \<Rightarrow> string) \<Rightarrow> unicode \<Rightarrow> principal option \<Rightarrow> string" where
  "Fingerprint sha256 U p =
     (case p of
        None \<Rightarrow> ''''
      | Some p \<Rightarrow> EncodeToString (take FingerprintBytes (sha256 (fp_input U p))))"

lemma hex_digit_inject: "m < 16 \<Longrightarrow> n < 16 \<Longrightarrow> hex_digit m = hex_digit n \<longleftrightarrow> m = n"
  by (auto simp: hex_digit_def simp flip: byte_of_inject split: if_splits)

lemma EncodeToString_inject: "EncodeToString xs = EncodeToString ys \<longleftrightarrow> xs = ys"
proof
  show "EncodeToString xs = EncodeToString ys \<Longrightarrow> xs = ys"
  proof (induction xs arbitrary: ys)
    case Nil
    then show ?case by (cases ys) (simp_all add: EncodeToString_def)
  next
    case (Cons x xs)
    then obtain y ys' where ys: "ys = y # ys'"
      by (cases ys) (simp_all add: EncodeToString_def)
    have lt: "byte_of x div 16 < 16" "byte_of y div 16 < 16"
      using byte_of_lt [of x] byte_of_lt [of y] by linarith+
    from Cons.prems have "byte_of x div 16 = byte_of y div 16" "byte_of x mod 16 = byte_of y mod 16"
      using lt by (simp_all add: ys EncodeToString_def hex_digit_inject)
    then have "byte_of x = byte_of y" by (metis div_mult_mod_eq)
    then show ?case
      using Cons by (simp add: ys EncodeToString_def)
  qed
qed simp

lemma fp_write_inject:
  assumes "fp_write x @ r = fp_write y @ s"
  shows "x = y \<and> r = s"
proof -
  have digits: "c \<noteq> CHR '':''" if "c \<in> set (Itoa n)" for c n
    using Itoa_digits [OF that] by (auto simp: is_digit_char_def byte_of_def)
  have split: "takeWhile (\<lambda>c. c \<noteq> CHR '':'') (Itoa (length x) @ CHR '':'' # t) = Itoa (length x)"
    for x t :: string
    using digits by (simp add: takeWhile_append2 takeWhile_eq_all_conv)
  have "Itoa (length x) @ CHR '':'' # (x @ r) = Itoa (length y) @ CHR '':'' # (y @ s)"
    using assms by (simp add: fp_write_def)
  then have "length x = length y"
    by (metis split Itoa_inject)
  with assms show ?thesis by (simp add: fp_write_def)
qed

lemma fp_writes_inject:
  assumes "length xs = length ys" and "concat (map fp_write xs) @ r = concat (map fp_write ys) @ s"
  shows "xs = ys \<and> r = s"
  using assms
proof (induction xs ys arbitrary: r s rule: list_induct2)
  case (Cons x xs y ys)
  then have "fp_write x @ (concat (map fp_write xs) @ r) = fp_write y @ (concat (map fp_write ys) @ s)"
    by simp
  from fp_write_inject [OF this] Cons.IH [of r s] show ?case by blast
qed simp

lemma fp_keys_inject:
  assumes "concat (map fp_write (fp_keys xs)) @ r = concat (map fp_write (fp_keys ys)) @ s"
  shows "set xs = set ys \<and> r = s"
proof -
  let ?X = "remdups_adj (sort xs)" and ?Y = "remdups_adj (sort ys)"
  have "fp_write (Itoa (length ?X)) @ (concat (map fp_write ?X) @ r) =
      fp_write (Itoa (length ?Y)) @ (concat (map fp_write ?Y) @ s)"
    using assms by (simp add: fp_keys_def Let_def)
  from fp_write_inject [OF this]
  have "length ?X = length ?Y" and "concat (map fp_write ?X) @ r = concat (map fp_write ?Y) @ s"
    by simp_all
  from fp_writes_inject [OF this] have "?X = ?Y" "r = s" by simp_all
  then show ?thesis by (metis remdups_adj_set set_sort)
qed

lemma fp_keys_cong: "set xs = set ys \<Longrightarrow> fp_keys xs = fp_keys ys"
  unfolding fp_keys_def by (simp cong: remdups_adj_sort_cong)

text \<open>
  What a fingerprint names: the bytes that are hashed are the same for two principals exactly
  when the tenant, the version of the expansion and the two sets of keys are.
\<close>

definition same_view :: "unicode \<Rightarrow> principal \<Rightarrow> principal \<Rightarrow> bool" where
  "same_view U p q \<longleftrightarrow>
     p_Tenant p = p_Tenant q \<and> gs_Version (p_Groups p) = gs_Version (p_Groups q) \<and>
     set (UserKeys U (Some p)) = set (UserKeys U (Some q)) \<and>
     set (GroupKeys (Some p)) = set (GroupKeys (Some q))"

lemma fp_input_eq_iff: "fp_input U p = fp_input U q \<longleftrightarrow> same_view U p q"
proof
  assume eq: "fp_input U p = fp_input U q"
  let ?K = "\<lambda>p. concat (map fp_write (fp_keys (UserKeys U (Some p))))"
  let ?G = "\<lambda>p. concat (map fp_write (fp_keys (GroupKeys (Some p))))"
  let ?V = "\<lambda>p. Itoa (unat (gs_Version (p_Groups p)))"
  have "fp_write (p_Tenant p) @ (fp_write (?V p) @ (?K p @ ?G p @ [])) =
      fp_write (p_Tenant q) @ (fp_write (?V q) @ (?K q @ ?G q @ []))"
    using eq by (simp add: fp_input_def)
  from fp_write_inject [OF this]
  have t: "p_Tenant p = p_Tenant q"
    and "fp_write (?V p) @ (?K p @ ?G p @ []) = fp_write (?V q) @ (?K q @ ?G q @ [])" by simp_all
  from fp_write_inject [OF this(2)]
  have v: "unat (gs_Version (p_Groups p)) = unat (gs_Version (p_Groups q))"
    and "?K p @ (?G p @ []) = ?K q @ (?G q @ [])" by simp_all
  from fp_keys_inject [OF this(2)]
  have k: "set (UserKeys U (Some p)) = set (UserKeys U (Some q))"
    and "?G p @ [] = ?G q @ []" by simp_all
  from fp_keys_inject [OF this(2)] show "same_view U p q"
    using t v k by (simp add: same_view_def word_unat_eq_iff)
next
  assume "same_view U p q"
  then show "fp_input U p = fp_input U q"
    using fp_keys_cong [of "UserKeys U (Some p)" "UserKeys U (Some q)"]
      fp_keys_cong [of "GroupKeys (Some p)" "GroupKeys (Some q)"]
    by (simp add: same_view_def fp_input_def)
qed

lemma Decide_same_keys:
  assumes "set (UserKeys U (Some p)) = set (UserKeys U (Some q))"
    and "set (GroupKeys (Some p)) = set (GroupKeys (Some q))"
  shows "Decide U perm (Some p) = Decide U perm (Some q)"
proof -
  have "matchesUser U perm (Some p) = matchesUser U perm (Some q)"
    using matchesKey_cong [OF assms(1)] by (simp add: matchesUser_def fun_eq_iff)
  moreover have "matchesGroup perm (Some p) = matchesGroup perm (Some q)"
    using matchesKey_cong [OF assms(2)] by (simp add: matchesGroup_def fun_eq_iff)
  moreover have "isOwner U perm (Some p) = isOwner U perm (Some q)"
    using calculation(1) by (simp add: isOwner_def)
  ultimately show ?thesis by (simp only: Decide_def option.case)
qed

text \<open>
  C8: two principals with one fingerprint get the same decision on every document and are of
  the same tenant and expansion, as long as the truncated hash does not collide on the two
  inputs. Anything derived from a permission filtered query may therefore be cached under it.
\<close>

theorem Fingerprint_same_decisions:
  assumes "Fingerprint sha256 U (Some p) = Fingerprint sha256 U (Some q)"
    and "take FingerprintBytes (sha256 (fp_input U p)) = take FingerprintBytes (sha256 (fp_input U q))
      \<Longrightarrow> fp_input U p = fp_input U q"
  shows "Decide U perm (Some p) = Decide U perm (Some q) \<and> p_Tenant p = p_Tenant q \<and>
    gs_Version (p_Groups p) = gs_Version (p_Groups q)"
proof -
  from assms have "fp_input U p = fp_input U q"
    by (simp add: Fingerprint_def EncodeToString_inject)
  then have "same_view U p q" by (simp only: fp_input_eq_iff)
  then show ?thesis
    unfolding same_view_def by (intro conjI Decide_same_keys) simp_all
qed

text \<open>
  The fingerprint does not depend on the order or the repetition of group memberships and
  identities: principals of one tenant and one expansion version with the same sets of keys
  share it.
\<close>

theorem Fingerprint_order_insensitive:
  "same_view U p q \<Longrightarrow> Fingerprint sha256 U (Some p) = Fingerprint sha256 U (Some q)"
  by (simp add: Fingerprint_def flip: fp_input_eq_iff)

section \<open>Runs\<close>

text \<open>Two principals of one tenant whose groups arrived in a different order, and a document.\<close>

definition ex_principal :: "string \<Rightarrow> string list \<Rightarrow> principal" where
  "ex_principal subject groups =
     \<lparr>p_Tenant = ''acme'', p_Subject = subject, p_Kind = KindUser,
      p_Identities = [\<lparr>id_Source = ''Slack'', id_Value = ''U04AB''\<rparr>],
      p_Groups = \<lparr>gs_Version = 7, gs_Members = groups\<rparr>, p_Roles = [], p_OnBehalfOf = ''''\<rparr>"

definition ex_acl :: "ref list \<Rightarrow> ref list \<Rightarrow> permissions" where
  "ex_acl allow deny =
     \<lparr>perm_Mode = ModeACL, perm_Owner = zero_ref, perm_AllowUsers = [],
      perm_AllowGroups = allow, perm_DenyUsers = [], perm_DenyGroups = deny,
      perm_Sharing = SharedNone, perm_Source = ''gdrive'', perm_Version = 1, perm_Reason = ''''\<rparr>"

lemmas ex_defs = ex_principal_def ex_acl_def zero_ref_def

theorem Fingerprint_same_decisions_witness:
  "Decide ascii_table (ex_acl [\<lparr>ref_Source = '''', ref_Value = ''eng''\<rparr>] [])
      (Some (ex_principal ''mei'' [''ops'', ''eng''])) =
   Decide ascii_table (ex_acl [\<lparr>ref_Source = '''', ref_Value = ''eng''\<rparr>] [])
      (Some (ex_principal ''mei'' [''eng'', ''ops'']))"
proof -
  have "fp_input ascii_table (ex_principal ''mei'' [''ops'', ''eng'']) =
      fp_input ascii_table (ex_principal ''mei'' [''eng'', ''ops''])"
    unfolding fp_input_eq_iff same_view_def UserKeys_def by (auto simp: ex_principal_def)
  then show ?thesis
    using Fingerprint_same_decisions [of "\<lambda>s. s" ascii_table
        "ex_principal ''mei'' [''ops'', ''eng'']" "ex_principal ''mei'' [''eng'', ''ops'']"]
    by (simp add: Fingerprint_def)
qed

theorem Fingerprint_order_insensitive_witness:
  "Fingerprint (\<lambda>s. s) ascii_table (Some (ex_principal ''mei'' [''ops'', ''eng'', ''ops''])) =
   Fingerprint (\<lambda>s. s) ascii_table (Some (ex_principal ''mei'' [''eng'', ''ops'']))"
  by (rule Fingerprint_order_insensitive)
    (auto simp: same_view_def UserKeys_def ex_principal_def)

text \<open>
  A mode that is none of the four constants is not read as unresolved by the rule: the
  document is invisible to everybody its lists allow, but its owner still reads it.
\<close>

theorem Allows_unrecognised_mode:
  assumes "\<not> Mode_Valid (perm_Mode perm)"
  shows "Allows U perm (Some q) \<longleftrightarrow>
    \<not> denied U perm q \<and> ref_Value (perm_Owner perm) \<noteq> '''' \<and> named_user U q [perm_Owner perm]"
  using assms by (auto simp: Allows_rule granted_def Mode_Valid_def)

theorem Allows_unrecognised_mode_witness:
  "Allows ascii_table ((ex_acl [] [])\<lparr>perm_Mode := 9,
      perm_Owner := \<lparr>ref_Source = '''', ref_Value = ''mei''\<rparr>\<rparr>) (Some (ex_principal ''mei'' []))"
proof -
  let ?p = "(ex_acl [] [])\<lparr>perm_Mode := 9,
      perm_Owner := \<lparr>ref_Source = '''', ref_Value = ''mei''\<rparr>\<rparr>"
  have "\<not> Mode_Valid (perm_Mode ?p)" by (simp add: Mode_Valid_def mode_defs)
  from Allows_unrecognised_mode [OF this, of ascii_table "ex_principal ''mei'' []"]
  show ?thesis
    by (simp add: ex_defs denied_def named_user_def named_group_def set_UserKeys UserKey_def)
qed

end
