(* ===== verification/Word_Bits.thy ===== *)
theory Word_Bits
  imports Genba_Prelude "HOL-Library.Word"
begin

unbundle bit_operations_syntax

text \<open>
  The two functions of Go's \<open>math/bits\<close> the program uses on 64 bit words, the step
  \<open>w &= w - 1\<close> that clears the lowest set bit, and the loop that enumerates the set bits of
  a word with the two. Nothing here is the program's own code; both bitmaps rest on it.
\<close>

definition TrailingZeros64 :: "64 word \<Rightarrow> nat" where
  "TrailingZeros64 w = length (takeWhile (\<lambda>i. \<not> bit w i) [0..<64])"

definition OnesCount64 :: "64 word \<Rightarrow> nat" where
  "OnesCount64 w = length (filter (bit w) [0..<64])"

definition word_elems :: "64 word \<Rightarrow> nat list" where
  "word_elems w = filter (bit w) [0..<64]"

lemma set_word_elems [simp]: "set (word_elems w) = {i. bit w i}"
  using bit_imp_le_length [of w] by (auto simp: word_elems_def)

lemma sorted_word_elems [simp]: "sorted_wrt (<) (word_elems w)"
  by (simp add: word_elems_def sorted_wrt_filter)

lemma length_word_elems [simp]: "length (word_elems w) = OnesCount64 w"
  by (simp add: word_elems_def OnesCount64_def)

lemma word_elems_lt: "i \<in> set (word_elems w) \<Longrightarrow> i < 64"
  by (auto simp: word_elems_def)

lemma word_elems_0 [simp]: "word_elems 0 = []"
  by (simp add: word_elems_def)

lemma OnesCount64_0 [simp]: "OnesCount64 0 = 0"
  by (simp add: OnesCount64_def)

lemma takeWhile_upt_first:
  assumes "P k" "\<And>i. i < k \<Longrightarrow> \<not> P i" "k < n"
  shows "takeWhile (\<lambda>i. \<not> P i) [0..<n] = [0..<k]"
proof -
  have "[0..<n] = [0..<k] @ k # [Suc k..<n]"
    using assms(3) by (metis le_add1 le_add_same_cancel1 less_imp_le_nat upt_add_eq_append
        upt_conv_Cons add_diff_inverse_nat not_less)
  then show ?thesis using assms(1,2) by (simp add: takeWhile_append2 takeWhile_tail)
qed

lemma TrailingZeros64_first:
  assumes "w \<noteq> 0"
  shows "bit w (TrailingZeros64 w)" and "i < TrailingZeros64 w \<Longrightarrow> \<not> bit w i"
    and "TrailingZeros64 w < 64"
proof -
  obtain j where j: "bit w j"
    using assms by (auto simp: bit_eq_iff)
  define k where "k = (LEAST j. bit w j)"
  have bk: "bit w k" unfolding k_def using j by (rule LeastI)
  have nk: "\<And>i. i < k \<Longrightarrow> \<not> bit w i" unfolding k_def by (rule not_less_Least)
  have "k < 64" using bit_imp_le_length [OF bk] by simp
  then have "TrailingZeros64 w = k"
    unfolding TrailingZeros64_def using takeWhile_upt_first [of "bit w", OF bk nk] by simp
  then show "bit w (TrailingZeros64 w)" and "i < TrailingZeros64 w \<Longrightarrow> \<not> bit w i"
    and "TrailingZeros64 w < 64"
    using bk nk \<open>k < 64\<close> by auto
qed

lemma bit_unat_word: "bit (unat w) i \<longleftrightarrow> bit (w :: 64 word) i"
  using bit_imp_le_length [of w i] by (auto simp: bit_unsigned_iff)

lemma nat_clear_lowest:
  fixes n k r i :: nat
  assumes n: "n = 2 ^ k * (2 * r + 1)"
  shows "odd ((n - 1) div 2 ^ i) \<and> odd (n div 2 ^ i) \<longleftrightarrow> odd (n div 2 ^ i) \<and> i \<noteq> k"
proof -
  have p: "0 < (2::nat) ^ k" by simp
  have pred: "n - 1 = 2 ^ k * (2 * r) + (2 ^ k - 1)"
    using p n by (simp add: algebra_simps)
  have dk: "(n - 1) div 2 ^ k = 2 * r"
    unfolding pred using p by (subst div_mult_self4) simp_all
  have dk': "n div 2 ^ k = 2 * r + 1" using n by simp
  consider "i < k" | "i = k" | "k < i" by linarith
  then show ?thesis
  proof cases
    case 1
    then obtain d where "k = i + Suc d" by (metis less_iff_Suc_add add_Suc_right)
    then have "n div 2 ^ i = 2 * (2 ^ d * (2 * r + 1))"
      using n by (simp add: power_add mult.assoc)
    then show ?thesis by simp
  next
    case 2
    then show ?thesis using dk by simp
  next
    case 3
    then obtain d where d: "i = k + Suc d" by (metis less_iff_Suc_add add_Suc_right)
    have "m div 2 ^ i = (m div 2 ^ k) div 2 div 2 ^ d" for m :: nat
      by (simp add: d power_add flip: div_mult2_eq) (simp add: ac_simps)
    then show ?thesis using dk dk' 3 by simp
  qed
qed

lemma bit_clear_lowest:
  assumes "w \<noteq> 0"
  shows "bit (w AND (w - 1)) i \<longleftrightarrow> bit w i \<and> i \<noteq> TrailingZeros64 w"
proof -
  let ?k = "TrailingZeros64 w"
  have b: "bit w j = odd (unat w div 2 ^ j)" for w :: "64 word" and j
    by (metis bit_iff_odd bit_unat_word)
  have low: "take_bit ?k (unat w) = 0"
    using TrailingZeros64_first(2) [OF assms]
    by (auto intro!: bit_eqI simp: bit_take_bit_iff bit_unat_word)
  have "2 ^ ?k dvd unat w" using low by (simp add: take_bit_eq_0_iff)
  then obtain q where q: "unat w = 2 ^ ?k * q" by (auto elim: dvdE)
  have "odd q"
    using TrailingZeros64_first(1) [OF assms] unfolding b q by simp
  then obtain r where "q = 2 * r + 1" by (auto elim: oddE)
  then have n: "unat w = 2 ^ ?k * (2 * r + 1)" using q by simp
  have "unat (w - 1) = unat w - 1"
    using assms by (simp add: unat_minus_one)
  moreover have "bit (w AND (w - 1)) i \<longleftrightarrow> bit w i \<and> bit (w - 1) i"
    by (simp add: bit_and_iff)
  ultimately show ?thesis
    using nat_clear_lowest [OF n, of i] by (metis b)
qed

lemma word_elems_step:
  assumes "w \<noteq> 0"
  shows "word_elems w = TrailingZeros64 w # word_elems (w AND (w - 1))"
proof -
  let ?w = "w AND (w - 1)"
  have "sorted_wrt (<) (TrailingZeros64 w # word_elems ?w)"
    using TrailingZeros64_first(2) [OF assms]
    by (auto simp: bit_clear_lowest [OF assms] intro: linorder_neqE_nat)
  moreover have "set (TrailingZeros64 w # word_elems ?w) = set (word_elems w)"
    using TrailingZeros64_first(1) [OF assms] by (auto simp: bit_clear_lowest [OF assms])
  ultimately show ?thesis
    by (metis sorted_word_elems strict_sorted_equal)
qed

lemma unat_clear_lowest_less: "w \<noteq> 0 \<Longrightarrow> unat (w AND (w - 1)) < unat (w :: 64 word)"
proof -
  assume w: "w \<noteq> 0"
  have "w AND (w - 1) \<le> w - 1" by (rule word_and_le1)
  then have "unat (w AND (w - 1)) \<le> unat (w - 1)" by (simp add: word_le_nat_alt)
  also have "\<dots> < unat w" using w by (simp add: unat_minus_one word_unat_eq_iff)
  finally show ?thesis .
qed

text \<open>The loop over the set bits of one word, lowest first.\<close>

function yield_bits :: "(nat \<Rightarrow> 's \<Rightarrow> bool \<times> 's) \<Rightarrow> 64 word \<Rightarrow> 's \<Rightarrow> bool \<times> 's" where
  "yield_bits fn w s =
     (if w = 0 then (True, s)
      else (case fn (TrailingZeros64 w) s of
              (True, s') \<Rightarrow> yield_bits fn (w AND (w - 1)) s'
            | (False, s') \<Rightarrow> (False, s')))"
  by pat_completeness auto
termination
  by (relation "measure (\<lambda>(fn, w, s). unat w)") (auto intro: unat_clear_lowest_less)

declare yield_bits.simps [simp del]

lemma yield_bits_elems: "yield_bits fn w s = yield_all fn (word_elems w) s"
proof (induction fn w s rule: yield_bits.induct)
  case (1 fn w s)
  show ?case
  proof (cases "w = 0")
    case False
    then show ?thesis
      using 1 by (subst yield_bits.simps)
        (simp add: word_elems_step [OF False] split: prod.split bool.split)
  qed (simp add: yield_bits.simps)
qed

section \<open>Lists of words\<close>

text \<open>
  Both bitmaps keep their bits in a list of words: \<open>bm_at\<close> is the bit of a position, with the
  words past the end read as zero, and \<open>positions\<close> the positions of the set bits in order.
\<close>

definition bm_at :: "64 word list \<Rightarrow> nat \<Rightarrow> bool" where
  "bm_at ws n \<longleftrightarrow> n div 64 < length ws \<and> bit (ws ! (n div 64)) (n mod 64)"

lemma bm_at_grow [simp]: "bm_at (ws @ replicate k 0) n \<longleftrightarrow> bm_at ws n"
  by (auto simp: bm_at_def nth_append)

lemma bm_at_nth: "j < 64 \<Longrightarrow> bm_at ws (i * 64 + j) \<longleftrightarrow> i < length ws \<and> bit (ws ! i) j"
  by (simp add: bm_at_def)

lemma bm_at_map:
  "bm_at (map f [0..<n]) m \<longleftrightarrow> m div 64 < n \<and> bit (f (m div 64)) (m mod 64)"
  by (cases "m div 64 < n") (simp_all add: bm_at_def)

fun positions :: "nat \<Rightarrow> 64 word list \<Rightarrow> nat list" where
  "positions i [] = []"
| "positions i (w # ws) = map (\<lambda>t. i * 64 + t) (word_elems w) @ positions (Suc i) ws"

lemma set_positions:
  "n \<in> set (positions i ws) \<longleftrightarrow> (\<exists>k < length ws. \<exists>t. n = (i + k) * 64 + t \<and> t < 64 \<and> bit (ws ! k) t)"
proof (induction i ws rule: positions.induct)
  case (2 i w ws)
  have "bit w t \<Longrightarrow> t < 64" for t using bit_imp_le_length [of w t] by simp
  then have "n \<in> set (map (\<lambda>t. i * 64 + t) (word_elems w)) \<longleftrightarrow>
      (\<exists>t. n = i * 64 + t \<and> t < 64 \<and> bit w t)" by auto
  then show ?case
    by (simp add: 2 Ex_less_Suc2 algebra_simps)
qed simp

lemma set_positions_0: "set (positions 0 ws) = {n. bm_at ws n}"
proof (intro set_eqI iffI)
  fix n assume "n \<in> set (positions 0 ws)"
  then show "n \<in> {n. bm_at ws n}"
    by (auto simp: set_positions bm_at_nth)
next
  fix n assume "n \<in> {n. bm_at ws n}"
  then have "n div 64 < length ws \<and> n = (0 + n div 64) * 64 + n mod 64 \<and> n mod 64 < 64 \<and>
      bit (ws ! (n div 64)) (n mod 64)"
    by (simp add: bm_at_def)
  then show "n \<in> set (positions 0 ws)"
    unfolding set_positions by blast
qed

lemma positions_ge: "n \<in> set (positions i ws) \<Longrightarrow> i * 64 \<le> n"
  by (auto simp: set_positions)

lemma sorted_positions: "sorted_wrt (<) (positions i ws)"
proof (induction i ws rule: positions.induct)
  case (2 i w ws)
  have "x < y" if "x \<in> set (map (\<lambda>t. i * 64 + t) (word_elems w))"
    "y \<in> set (positions (Suc i) ws)" for x y
    using that positions_ge [OF that(2)] bit_imp_le_length [of w] by fastforce
  moreover have "sorted_wrt (<) (map (\<lambda>t. i * 64 + t) (word_elems w))"
    by (simp add: sorted_wrt_map)
  ultimately show ?case using 2 by (simp add: sorted_wrt_append)
qed simp

lemma length_positions: "length (positions i ws) = foldl (\<lambda>n w. n + OnesCount64 w) 0 ws"
proof -
  have "foldl (\<lambda>n w. n + OnesCount64 w) m ws = m + length (positions i ws)" for m
  proof (induction ws arbitrary: m i)
    case (Cons w ws)
    from Cons [of "m + OnesCount64 w" "Suc i"] show ?case by simp
  qed simp
  then show ?thesis by simp
qed

end
