(* ===== verification/Acl_Bitmap.thy ===== *)
theory Acl_Bitmap
  imports Acl Word_Bits
begin

text \<open>
  \<open>acl/bitmap.go\<close> and \<open>acl/visibility.go\<close>: the dense bitmap of ordinals a segment's
  visibility is kept in, and the resolution of a principal's visibility over the documents of
  a segment. An ordinal is Go's \<open>uint32\<close>, a word Go's \<open>uint64\<close>, a nil \<open>*Bitmap\<close>
  argument is \<open>None\<close>, and a method that mutates its receiver returns it.

  The locale \<open>ordinal_set\<close> is what the rest of the program relies on of a bitmap; it is
  interpreted on this one at the end of the first part.
\<close>

section \<open>The interface of a set of ordinals\<close>

locale ordinal_set =
  fixes ok :: "'b \<Rightarrow> bool"
    and contains :: "'b \<Rightarrow> 'o::linorder \<Rightarrow> bool"
    and add :: "'b \<Rightarrow> 'o \<Rightarrow> 'b"
    and union :: "'b \<Rightarrow> 'b \<Rightarrow> 'b"
    and inter :: "'b \<Rightarrow> 'b \<Rightarrow> 'b"
    and minus :: "'b \<Rightarrow> 'b \<Rightarrow> 'b"
    and elems :: "'b \<Rightarrow> 'o list"
  assumes ok_add: "ok b \<Longrightarrow> ok (add b x)"
    and ok_union: "ok b \<Longrightarrow> ok c \<Longrightarrow> ok (union b c)"
    and ok_inter: "ok b \<Longrightarrow> ok (inter b c)"
    and ok_minus: "ok b \<Longrightarrow> ok (minus b c)"
    and contains_add: "contains (add b x) y \<longleftrightarrow> y = x \<or> contains b y"
    and contains_union: "contains (union b c) y \<longleftrightarrow> contains b y \<or> contains c y"
    and contains_inter: "contains (inter b c) y \<longleftrightarrow> contains b y \<and> contains c y"
    and contains_minus: "contains (minus b c) y \<longleftrightarrow> contains b y \<and> \<not> contains c y"
    and sorted_elems: "ok b \<Longrightarrow> sorted_wrt (<) (elems b)"
    and set_elems: "ok b \<Longrightarrow> set (elems b) = {x. contains b x}"
begin

lemma elems_eqI:
  assumes "ok b" and "sorted_wrt (<) xs" and "\<And>x. x \<in> set xs \<longleftrightarrow> contains b x"
  shows "elems b = xs"
  using assms sorted_elems [OF assms(1)] set_elems [OF assms(1)]
  by (intro strict_sorted_equal) auto

lemma elems_inter:
  assumes "ok b"
  shows "elems (inter b c) = filter (contains c) (elems b)"
  using assms by (intro elems_eqI ok_inter)
    (auto simp: sorted_elems set_elems contains_inter sorted_wrt_filter)

lemma elems_minus:
  assumes "ok b"
  shows "elems (minus b c) = filter (\<lambda>x. \<not> contains c x) (elems b)"
  using assms by (intro elems_eqI ok_minus)
    (auto simp: sorted_elems set_elems contains_minus sorted_wrt_filter)

lemma elems_allow_then_deny:
  assumes "ok b" "ok c"
  shows "set (elems (minus (union b c) d)) =
    (set (elems b) \<union> set (elems c)) - {x. contains d x}"
  using assms by (auto simp: elems_minus ok_union set_elems contains_union)

lemma ok_add_if: "ok b \<Longrightarrow> ok (foldl (\<lambda>b x. if P x then add b x else b) b xs)"
  by (induction xs arbitrary: b) (simp_all add: ok_add)

lemma contains_add_if:
  "contains (foldl (\<lambda>b x. if P x then add b x else b) b xs) y \<longleftrightarrow>
     contains b y \<or> y \<in> set xs \<and> P y"
  by (induction xs arbitrary: b) (auto simp: contains_add)

end

section \<open>The bitmap\<close>

type_synonym ordinal = "32 word"

record bitmap =
  bm_words :: "64 word list"

definition NewBitmap :: "int \<Rightarrow> bitmap" where
  "NewBitmap n =
     (let n = (if n < 0 then 0 else n)
      in \<lparr>bm_words = replicate (nat ((n + 63) div 64)) 0\<rparr>)"

function grow :: "bitmap \<Rightarrow> nat \<Rightarrow> bitmap" where
  "grow b n =
     (if length (bm_words b) < n then grow (b\<lparr>bm_words := bm_words b @ [0]\<rparr>) n else b)"
  by pat_completeness auto
termination
  by (relation "measure (\<lambda>(b, n). n - length (bm_words b))") auto

declare grow.simps [simp del]

definition ord_word :: "ordinal \<Rightarrow> nat" where
  "ord_word x = unat (x div 64)"

definition ord_bit :: "ordinal \<Rightarrow> 64 word" where
  "ord_bit x = push_bit (unat (x mod 64)) 1"

definition Add :: "bitmap \<Rightarrow> ordinal \<Rightarrow> bitmap" where
  "Add b x =
     (let i = ord_word x; b = grow b (i + 1)
      in b\<lparr>bm_words := (bm_words b)[i := bm_words b ! i OR ord_bit x]\<rparr>)"

definition Remove :: "bitmap \<Rightarrow> ordinal \<Rightarrow> bitmap" where
  "Remove b x =
     (let i = ord_word x
      in if i \<ge> length (bm_words b) then b
         else b\<lparr>bm_words := (bm_words b)[i := bm_words b ! i AND NOT (ord_bit x)]\<rparr>)"

definition Contains :: "bitmap \<Rightarrow> ordinal \<Rightarrow> bool" where
  "Contains b x =
     (let i = ord_word x
      in if i \<ge> length (bm_words b) then False
         else bm_words b ! i AND ord_bit x \<noteq> 0)"

definition Count :: "bitmap \<Rightarrow> nat" where
  "Count b = foldl (\<lambda>n w. n + OnesCount64 w) 0 (bm_words b)"

fun is_empty_loop :: "64 word list \<Rightarrow> bool" where
  "is_empty_loop [] = True"
| "is_empty_loop (w # ws) = (if w \<noteq> 0 then False else is_empty_loop ws)"

definition IsEmpty :: "bitmap \<Rightarrow> bool" where
  "IsEmpty b = is_empty_loop (bm_words b)"

fun union_loop :: "nat \<Rightarrow> 64 word list \<Rightarrow> 64 word list \<Rightarrow> 64 word list" where
  "union_loop i ws [] = ws"
| "union_loop i ws (w # other) = union_loop (Suc i) (ws[i := ws ! i OR w]) other"

definition Union :: "bitmap \<Rightarrow> bitmap option \<Rightarrow> bitmap" where
  "Union b other =
     (case other of
        None \<Rightarrow> b
      | Some c \<Rightarrow>
          let b = grow b (length (bm_words c))
          in b\<lparr>bm_words := union_loop 0 (bm_words b) (bm_words c)\<rparr>)"

definition Intersect :: "bitmap \<Rightarrow> bitmap option \<Rightarrow> bitmap" where
  "Intersect b other =
     (case other of
        None \<Rightarrow> b\<lparr>bm_words := []\<rparr>
      | Some c \<Rightarrow>
          b\<lparr>bm_words :=
            map (\<lambda>i. if i < length (bm_words c) then bm_words b ! i AND bm_words c ! i else 0)
              [0..<length (bm_words b)]\<rparr>)"

definition AndNot :: "bitmap \<Rightarrow> bitmap option \<Rightarrow> bitmap" where
  "AndNot b other =
     (case other of
        None \<Rightarrow> b
      | Some c \<Rightarrow>
          b\<lparr>bm_words :=
            map (\<lambda>i. if i < length (bm_words c) then bm_words b ! i AND NOT (bm_words c ! i)
                      else bm_words b ! i)
              [0..<length (bm_words b)]\<rparr>)"

definition Clone :: "bitmap \<Rightarrow> bitmap" where
  "Clone b = \<lparr>bm_words = bm_words b\<rparr>"

fun all_loop :: "(ordinal \<Rightarrow> 's \<Rightarrow> bool \<times> 's) \<Rightarrow> nat \<Rightarrow> 64 word list \<Rightarrow> 's \<Rightarrow> bool \<times> 's" where
  "all_loop fn i [] s = (True, s)"
| "all_loop fn i (w # ws) s =
     (case yield_bits (\<lambda>t. fn (word_of_nat (i * 64 + t))) w s of
        (True, s') \<Rightarrow> all_loop fn (Suc i) ws s'
      | (False, s') \<Rightarrow> (False, s'))"

definition All :: "(ordinal \<Rightarrow> 's \<Rightarrow> bool \<times> 's) \<Rightarrow> bitmap \<Rightarrow> 's \<Rightarrow> 's" where
  "All fn b s = snd (all_loop fn 0 (bm_words b) s)"

definition Slice :: "bitmap \<Rightarrow> ordinal list" where
  "Slice b = All (\<lambda>x out. (True, out @ [x])) b []"

section \<open>What the words hold\<close>

text \<open>
  \<open>bm_ok\<close> says that every position is an ordinal, which \<open>NewBitmap\<close> establishes for as many
  documents as a segment can hold and every operation keeps.
\<close>

definition bm_ok :: "bitmap \<Rightarrow> bool" where
  "bm_ok b \<longleftrightarrow> length (bm_words b) \<le> 2 ^ 26"

lemma unat_div_64 [simp]: "unat (x div 64 :: ordinal) = unat x div 64"
  by (simp add: unat_div)

lemma unat_mod_64 [simp]: "unat (x mod 64 :: ordinal) = unat x mod 64"
  by (simp add: unat_mod)

lemma ord_word_eq: "ord_word x = unat x div 64"
  by (simp add: ord_word_def)

lemma bit_ord_bit: "bit (ord_bit x) i \<longleftrightarrow> i = unat x mod 64"
  by (simp add: ord_bit_def bit_exp_iff) auto

lemma and_ord_bit: "(w AND ord_bit x \<noteq> 0) \<longleftrightarrow> bit w (unat x mod 64)"
proof -
  have "v \<noteq> 0 \<longleftrightarrow> (\<exists>n. bit v n)" for v :: "64 word"
    using bit_imp_le_length [of v] by (auto simp: bit_eq_iff)
  then show ?thesis by (simp only: bit_and_iff bit_ord_bit) blast
qed

lemma Contains_at: "Contains b x \<longleftrightarrow> bm_at (bm_words b) (unat x)"
  by (simp add: Contains_def Let_def bm_at_def ord_word_eq and_ord_bit not_le)

lemma words_grow [simp]:
  "bm_words (grow b n) = bm_words b @ replicate (n - length (bm_words b)) 0"
proof (induction b n rule: grow.induct)
  case (1 b n)
  show ?case
  proof (cases "length (bm_words b) < n")
    case True
    then have "n - length (bm_words b) = Suc (n - Suc (length (bm_words b)))" by simp
    then show ?thesis
      using 1 True by (subst grow.simps) simp
  qed (simp add: grow.simps)
qed

lemma ord_word_less: "unat (x :: ordinal) div 64 < 2 ^ 26"
proof -
  have "unat x < 2 ^ LENGTH(32)" by (rule unsigned_less)
  then show ?thesis by (simp add: less_mult_imp_div_less)
qed

lemma Contains_Add: "Contains (Add b x) y \<longleftrightarrow> y = x \<or> Contains b y"
proof -
  let ?i = "unat x div 64" and ?ws = "bm_words (grow b (unat x div 64 + 1))"
  have len: "?i < length ?ws" by simp
  have "Contains (Add b x) y \<longleftrightarrow>
      bm_at (?ws[?i := ?ws ! ?i OR ord_bit x]) (unat y)"
    by (simp add: Contains_at Add_def Let_def ord_word_eq)
  also have "\<dots> \<longleftrightarrow> unat y = unat x \<or> bm_at ?ws (unat y)"
  proof (cases "unat y div 64 = ?i")
    case True
    have "unat y = unat x \<longleftrightarrow> unat y mod 64 = unat x mod 64"
      using True by (metis div_mult_mod_eq)
    then show ?thesis
      using True len by (simp add: bm_at_def bit_or_iff bit_ord_bit) blast
  next
    case False
    then show ?thesis by (auto simp: bm_at_def simp del: words_grow)
  qed
  also have "\<dots> \<longleftrightarrow> y = x \<or> Contains b y"
    by (simp add: Contains_at word_unat_eq_iff)
  finally show ?thesis .
qed

lemma Contains_Remove: "Contains (Remove b x) y \<longleftrightarrow> y \<noteq> x \<and> Contains b y"
proof (cases "unat x div 64 < length (bm_words b)")
  case True
  let ?i = "unat x div 64" and ?ws = "bm_words b"
  have eq: "y = x \<longleftrightarrow> unat y div 64 = ?i \<and> unat y mod 64 = unat x mod 64"
    by (metis div_mult_mod_eq word_unat_eq_iff)
  have lt: "unat y mod 64 < 64" by simp
  show ?thesis
    using True lt by (cases "unat y div 64 = ?i")
      (auto simp: Contains_at Remove_def Let_def ord_word_eq bm_at_def eq bit_and_iff bit_not_iff
        bit_ord_bit)
next
  case False
  then show ?thesis by (auto simp: Contains_at Remove_def Let_def ord_word_eq bm_at_def)
qed

lemma union_loop_length [simp]: "length (union_loop i ws other) = length ws"
  by (induction i ws other rule: union_loop.induct) simp_all

lemma union_loop_nth:
  "i + length other \<le> length ws \<Longrightarrow> j < length ws \<Longrightarrow>
   union_loop i ws other ! j =
     (if i \<le> j \<and> j < i + length other then ws ! j OR other ! (j - i) else ws ! j)"
proof (induction i ws other rule: union_loop.induct)
  case (2 i ws w other)
  then show ?case
    by (cases "j = i") (auto simp: nth_Cons' Suc_diff_Suc)
qed auto

lemma bm_at_union_loop:
  assumes "length other \<le> length ws"
  shows "bm_at (union_loop 0 ws other) n \<longleftrightarrow> bm_at ws n \<or> bm_at other n"
proof (cases "n div 64 < length ws")
  case True
  then have "union_loop 0 ws other ! (n div 64) =
      (if n div 64 < length other then ws ! (n div 64) OR other ! (n div 64) else ws ! (n div 64))"
    using assms union_loop_nth [of 0 other ws "n div 64"] by simp
  then show ?thesis using True by (simp add: bm_at_def bit_or_iff)
next
  case False
  then show ?thesis using assms by (simp add: bm_at_def)
qed

lemma Contains_Union: "Contains (Union b (Some c)) y \<longleftrightarrow> Contains b y \<or> Contains c y"
  by (simp add: Contains_at Union_def Let_def bm_at_union_loop)

lemma Contains_Intersect: "Contains (Intersect b (Some c)) y \<longleftrightarrow> Contains b y \<and> Contains c y"
  by (auto simp: Contains_at Intersect_def bm_at_map bm_at_def [of "bm_words _"] bit_and_iff)

lemma Contains_AndNot: "Contains (AndNot b (Some c)) y \<longleftrightarrow> Contains b y \<and> \<not> Contains c y"
  by (auto simp: Contains_at AndNot_def bm_at_map bm_at_def [of "bm_words _"] bit_and_iff
      bit_not_iff)

lemma bm_ok_ops:
  "bm_ok b \<Longrightarrow> bm_ok (Add b x)" "bm_ok b \<Longrightarrow> bm_ok (Remove b x)"
  "bm_ok b \<Longrightarrow> bm_ok c \<Longrightarrow> bm_ok (Union b (Some c))"
  "bm_ok b \<Longrightarrow> bm_ok (Intersect b other)" "bm_ok b \<Longrightarrow> bm_ok (AndNot b other)"
  "bm_ok b \<Longrightarrow> bm_ok (Clone b)"
  using ord_word_less [of x]
  by (auto simp: bm_ok_def Add_def Remove_def Union_def Intersect_def AndNot_def Clone_def Let_def
      ord_word_eq split: option.split)

section \<open>Iteration\<close>

lemma all_loop_positions: "all_loop fn i ws s = yield_all fn (map word_of_nat (positions i ws)) s"
  by (induction fn i ws s rule: all_loop.induct)
    (simp_all add: yield_bits_elems yield_all_append yield_all_map split: prod.split bool.split)

lemma All_positions: "All fn b s = snd (yield_all fn (map word_of_nat (positions 0 (bm_words b))) s)"
  by (simp add: All_def all_loop_positions)

lemma Slice_positions: "Slice b = map word_of_nat (positions 0 (bm_words b))"
  using yield_all_collect [of "\<lambda>x::ordinal. x" "map word_of_nat (positions 0 (bm_words b))" "[]"]
  by (simp add: Slice_def All_positions)

lemma positions_less:
  "bm_ok b \<Longrightarrow> n \<in> set (positions 0 (bm_words b)) \<Longrightarrow> n < 2 ^ 32"
  by (auto simp: set_positions_0 bm_at_def bm_ok_def)

lemma unat_positions [simp]:
  "bm_ok b \<Longrightarrow> n \<in> set (positions 0 (bm_words b)) \<Longrightarrow> unat (word_of_nat n :: ordinal) = n"
  using positions_less [of b n] by (simp add: unat_of_nat)

lemma sorted_Slice: assumes "bm_ok b" shows "sorted_wrt (<) (Slice b)"
proof -
  have "sorted_wrt (\<lambda>m n. (word_of_nat m :: ordinal) < word_of_nat n) (positions 0 (bm_words b))"
    by (rule sorted_wrt_mono_rel [OF _ sorted_positions])
      (use assms in \<open>simp add: word_less_nat_alt\<close>)
  then show ?thesis by (simp add: Slice_positions sorted_wrt_map)
qed

lemma set_Slice: assumes "bm_ok b" shows "set (Slice b) = {x. Contains b x}"
proof (intro set_eqI iffI)
  fix x assume "x \<in> set (Slice b)"
  then obtain n where n: "n \<in> set (positions 0 (bm_words b))" "x = word_of_nat n"
    by (auto simp: Slice_positions)
  then have "unat x = n" using assms by simp
  then show "x \<in> {x. Contains b x}" using n by (simp add: Contains_at set_positions_0)
next
  fix x assume "x \<in> {x. Contains b x}"
  then have "unat x \<in> set (positions 0 (bm_words b))"
    by (simp add: Contains_at set_positions_0)
  then have "word_of_nat (unat x) \<in> set (Slice b)"
    unfolding Slice_positions set_map by (rule imageI)
  then show "x \<in> set (Slice b)" by simp
qed

interpretation ab: ordinal_set bm_ok Contains Add "\<lambda>b c. Union b (Some c)"
  "\<lambda>b c. Intersect b (Some c)" "\<lambda>b c. AndNot b (Some c)" Slice
  by unfold_locales
    (simp_all add: bm_ok_ops Contains_Add Contains_Union Contains_Intersect Contains_AndNot
      sorted_Slice set_Slice)

lemma bm_ok_NewBitmap: "n \<le> 2 ^ 32 \<Longrightarrow> bm_ok (NewBitmap n)"
  by (auto simp: NewBitmap_def bm_ok_def Let_def)

lemma Contains_NewBitmap [simp]: "\<not> Contains (NewBitmap n) x"
  by (simp add: Contains_at NewBitmap_def Let_def bm_at_def)

lemma is_empty_loop_iff: "is_empty_loop ws \<longleftrightarrow> (\<forall>w \<in> set ws. w = 0)"
  by (induction ws) simp_all

text \<open>
  After \<open>Add\<close> a set contains the new ordinal and what it contained, after \<open>Remove\<close>
  everything but the removed ordinal, whatever word it falls in and whether or not the backing
  store reached that far.
\<close>

theorem Bitmap_add_remove:
  "(Contains (Add b x) y \<longleftrightarrow> y = x \<or> Contains b y) \<and>
   (Contains (Remove b x) y \<longleftrightarrow> y \<noteq> x \<and> Contains b y)"
  by (simp add: Contains_Add Contains_Remove)

text \<open>
  Union, intersection and difference of two bitmaps are those of the sets, also when their
  backing stores have different lengths; a nil argument is the empty set.
\<close>

theorem Bitmap_algebra:
  "(Contains (Union b c) y \<longleftrightarrow> Contains b y \<or> (\<exists>d. c = Some d \<and> Contains d y)) \<and>
   (Contains (Intersect b c) y \<longleftrightarrow> Contains b y \<and> (\<exists>d. c = Some d \<and> Contains d y)) \<and>
   (Contains (AndNot b c) y \<longleftrightarrow> Contains b y \<and> \<not> (\<exists>d. c = Some d \<and> Contains d y))"
proof (cases c)
  case None
  then show ?thesis
    by (simp add: Contains_at Union_def Intersect_def AndNot_def bm_at_def)
next
  case (Some d)
  then show ?thesis
    by (simp add: Contains_Union Contains_Intersect Contains_AndNot)
qed

text \<open>
  \<open>Slice\<close> lists the ordinals of a set in increasing order without repetition, \<open>Count\<close>
  is how many there are, \<open>IsEmpty\<close> says there is none, and \<open>All\<close> runs its callback over
  that list and stops where the callback says so.
\<close>

theorem Slice_lists_the_set:
  assumes "bm_ok b"
  shows "sorted_wrt (<) (Slice b) \<and> set (Slice b) = {x. Contains b x} \<and>
    Count b = length (Slice b) \<and> (IsEmpty b \<longleftrightarrow> Slice b = []) \<and>
    All fn b s = snd (yield_all fn (Slice b) s)"
proof (intro conjI)
  show "Count b = length (Slice b)"
    by (simp add: Count_def Slice_positions flip: length_positions)
  have "positions i ws = [] \<longleftrightarrow> is_empty_loop ws" for i ws
  proof (induction i ws rule: positions.induct)
    case (2 i w ws)
    show ?case by (cases "w = 0") (simp_all add: 2 word_elems_step)
  qed simp
  then show "IsEmpty b \<longleftrightarrow> Slice b = []" by (simp add: IsEmpty_def Slice_positions)
  show "All fn b s = snd (yield_all fn (Slice b) s)"
    by (simp add: All_positions Slice_positions)
qed (rule sorted_Slice [OF assms], rule set_Slice [OF assms])

theorem Slice_lists_the_set_witness:
  "set (Slice (Add (Add (NewBitmap 10) 3) 700)) = {x. x = 700 \<or> x = 3}"
proof -
  have "bm_ok (Add (Add (NewBitmap 10) 3) 700)"
    by (intro bm_ok_ops bm_ok_NewBitmap) simp
  from Slice_lists_the_set [OF this, of "\<lambda>x s. (True, s)" "()"] show ?thesis
    by (simp add: Contains_Add)
qed

section \<open>Visibility (acl/visibility.go)\<close>

text \<open>FNV-1a over 64 bits and a word in sixteen hexadecimal digits, as Go's library has them.\<close>

definition fnv64a_from :: "64 word \<Rightarrow> string \<Rightarrow> 64 word" where
  "fnv64a_from h s = foldl (\<lambda>h c. (h XOR word_of_nat (of_char c)) * 1099511628211) h s"

definition fnv64a :: "string \<Rightarrow> 64 word" where
  "fnv64a s = fnv64a_from 14695981039346656037 s"

definition hex16 :: "64 word \<Rightarrow> string" where
  "hex16 w = map (\<lambda>i. hex_digit (unat (drop_bit (4 * i) w AND 15))) (rev [0..<16])"

record key =
  key_Tenant :: string
  key_Subject :: string
  key_GroupVersion :: "64 word"
  key_Segment :: string
  key_PermVersion :: "64 word"

definition Key_bytes :: "key \<Rightarrow> string" where
  "Key_bytes k =
     key_Tenant k @ [CHR 0x00] @ key_Subject k @ [CHR 0x00] @
     Itoa (unat (key_GroupVersion k)) @ [CHR 0x00] @ key_Segment k @ [CHR 0x00] @
     Itoa (unat (key_PermVersion k))"

definition Key_String :: "key \<Rightarrow> string" where
  "Key_String k = hex16 (fnv64a (Key_bytes k))"

record visibility =
  vis_Bitmap :: bitmap
  vis_Key :: key

definition zero_key :: key where
  "zero_key = \<lparr>key_Tenant = '''', key_Subject = '''', key_GroupVersion = 0, key_Segment = '''',
     key_PermVersion = 0\<rparr>"

definition Resolve ::
  "unicode \<Rightarrow> principal option \<Rightarrow> string \<Rightarrow> 64 word \<Rightarrow> permissions list \<Rightarrow> visibility" where
  "Resolve U p segment permVersion perms =
     (let b = NewBitmap (int (length perms));
          b = (case p of
                 None \<Rightarrow> b
               | Some _ \<Rightarrow>
                   foldl (\<lambda>b i. if Allows U (perms ! i) p then Add b (word_of_nat i) else b) b
                     [0..<length perms]);
          k = (case p of
                 None \<Rightarrow> zero_key
               | Some q \<Rightarrow>
                   \<lparr>key_Tenant = p_Tenant q, key_Subject = p_Subject q,
                    key_GroupVersion = gs_Version (p_Groups q), key_Segment = segment,
                    key_PermVersion = permVersion\<rparr>)
      in \<lparr>vis_Bitmap = b, vis_Key = k\<rparr>)"

definition Filter :: "visibility \<Rightarrow> bitmap \<Rightarrow> bitmap" where
  "Filter v candidates = Intersect candidates (Some (vis_Bitmap v))"

lemma Resolve_bitmap:
  assumes "length perms \<le> 2 ^ 32"
  shows "Contains (vis_Bitmap (Resolve U p segment pv perms)) x \<longleftrightarrow>
      unat x < length perms \<and> Allows U (perms ! unat x) p"
    and "bm_ok (vis_Bitmap (Resolve U p segment pv perms))"
proof -
  let ?b = "NewBitmap (int (length perms))"
  let ?ords = "map word_of_nat [0..<length perms] :: ordinal list"
  let ?add = "\<lambda>b x. if Allows U (perms ! unat x) p then Add b x else b"
  have ok: "bm_ok ?b" using assms by (intro bm_ok_NewBitmap) simp
  have less: "i < length perms \<Longrightarrow> unat (word_of_nat i :: ordinal) = i" for i
    using assms by (simp add: unat_of_nat)
  have x: "x \<in> set ?ords \<longleftrightarrow> unat x < length perms"
    by (auto simp: less image_iff intro!: bexI [of _ "unat x"])
  show "Contains (vis_Bitmap (Resolve U p segment pv perms)) x \<longleftrightarrow>
      unat x < length perms \<and> Allows U (perms ! unat x) p"
    and "bm_ok (vis_Bitmap (Resolve U p segment pv perms))"
  proof (atomize(full), cases p)
    case None
    then show "(Contains (vis_Bitmap (Resolve U p segment pv perms)) x \<longleftrightarrow>
        unat x < length perms \<and> Allows U (perms ! unat x) p) \<and>
        bm_ok (vis_Bitmap (Resolve U p segment pv perms))"
      using ok by (simp add: Resolve_def Let_def Allows_rule)
  next
    case (Some q)
    have "vis_Bitmap (Resolve U p segment pv perms) = foldl ?add ?b ?ords"
      unfolding Resolve_def Let_def foldl_map using Some
      by (auto simp: less intro!: foldl_cong_set)
    then show "(Contains (vis_Bitmap (Resolve U p segment pv perms)) x \<longleftrightarrow>
        unat x < length perms \<and> Allows U (perms ! unat x) p) \<and>
        bm_ok (vis_Bitmap (Resolve U p segment pv perms))"
      using ab.contains_add_if [of "\<lambda>x. Allows U (perms ! unat x) p" ?b ?ords x]
        ab.ok_add_if [OF ok, of "\<lambda>x. Allows U (perms ! unat x) p" ?ords]
      unfolding x by simp
  qed
qed

text \<open>
  C9: what a principal sees of a segment is exactly the ordinals whose descriptor allows them,
  nothing for nobody, and filtering a candidate set leaves, in order, exactly those of its
  ordinals: an ordinal the asker may not read, or one past the segment's documents, never stays.
\<close>

theorem Filter_exact:
  assumes "length perms \<le> 2 ^ 32" and "bm_ok candidates"
  shows "Slice (Filter (Resolve U p segment pv perms) candidates) =
    filter (\<lambda>x. unat x < length perms \<and> Allows U (perms ! unat x) p) (Slice candidates)"
proof -
  have "Contains (vis_Bitmap (Resolve U p segment pv perms)) =
      (\<lambda>x. unat x < length perms \<and> Allows U (perms ! unat x) p)"
    by (simp add: fun_eq_iff Resolve_bitmap(1) [OF assms(1)])
  then show ?thesis
    using ab.elems_inter [OF assms(2)] by (simp add: Filter_def)
qed

theorem Filter_exact_witness:
  "Slice (Filter (Resolve ascii_table (Some (ex_principal ''mei'' [''eng'']))
      ''seg1'' 1 [ex_acl [\<lparr>ref_Source = '''', ref_Value = ''eng''\<rparr>] []])
      (Add (NewBitmap 64) 5)) =
   filter (\<lambda>x. unat x < 1 \<and> Allows ascii_table ([ex_acl [\<lparr>ref_Source = '''', ref_Value = ''eng''\<rparr>] []]
      ! unat x) (Some (ex_principal ''mei'' [''eng'']))) (Slice (Add (NewBitmap 64) 5))"
proof -
  have ok: "bm_ok (Add (NewBitmap 64) 5)" by (intro bm_ok_ops bm_ok_NewBitmap) simp
  have "length [ex_acl [\<lparr>ref_Source = '''', ref_Value = ''eng''\<rparr>] []] \<le> 2 ^ 32" by simp
  from Filter_exact [OF this ok] show ?thesis by simp
qed

text \<open>
  The cache key of a visibility is not injective on its fields: a NUL inside the tenant or
  the subject moves the boundary between the two, and keys of different tenants are the same
  string whatever the hash.
\<close>

theorem Key_String_ambiguous:
  "\<exists>k k'. key_Tenant k \<noteq> key_Tenant k' \<and> Key_String k = Key_String k'"
proof -
  let ?k = "zero_key\<lparr>key_Tenant := [CHR 0x61, CHR 0x00, CHR 0x62]\<rparr>"
  let ?k' = "zero_key\<lparr>key_Tenant := [CHR 0x61], key_Subject := [CHR 0x62, CHR 0x00]\<rparr>"
  have "Key_bytes ?k = Key_bytes ?k'" by (simp add: Key_bytes_def zero_key_def)
  then show ?thesis
    by (intro exI [of _ ?k] exI [of _ ?k']) (simp add: Key_String_def)
qed

end
