(* ===== verification/Doc_Model.thy ===== *)
theory Doc_Model
  imports Acl
begin

text \<open>
  The canonical document of \<open>doc/doc.go\<close> and the analyzer of \<open>doc/analyze.go\<close>.

  \<open>scan\<close> is modelled with its callback: \<open>yield\<close> takes a term and its two offsets and the
  state of the variables it captures, and answers whether to go on. \<open>Spans\<close>, \<open>Tokenize\<close>
  and \<open>Find\<close> are that scan with the callbacks of the code. The first lemmas show that a scan
  is its callback run over the list of all spans, the later ones what that list is.
\<close>

section \<open>Documents (doc/doc.go)\<close>

type_synonym doc_kind = string

definition KindPage :: doc_kind where "KindPage = ''page''"
definition KindMessage :: doc_kind where "KindMessage = ''message''"
definition KindTicket :: doc_kind where "KindTicket = ''ticket''"
definition KindFile :: doc_kind where "KindFile = ''file''"
definition KindCode :: doc_kind where "KindCode = ''code''"
definition KindEmail :: doc_kind where "KindEmail = ''email''"
definition KindCalendar :: doc_kind where "KindCalendar = ''calendar''"
definition KindPerson :: doc_kind where "KindPerson = ''person''"
definition KindImage :: doc_kind where "KindImage = ''image''"

definition MediaType :: string where "MediaType = ''media_type''"

record content =
  cn_Bytes :: string
  cn_Width :: int
  cn_Height :: int

record person =
  pr_Subject :: string
  pr_Identity :: identity
  pr_Name :: string
  pr_Email :: string

record document =
  doc_ID :: string
  doc_Tenant :: string
  doc_Source :: string
  doc_Kind :: doc_kind
  doc_Title :: string
  doc_Body :: string
  doc_URL :: string
  doc_Author :: person
  doc_Owner :: person
  doc_Container :: string
  doc_CreatedAt :: gtime
  doc_ModifiedAt :: gtime
  doc_IndexedAt :: gtime
  doc_SourceUpdate :: string
  doc_Permissions :: permissions
  doc_Properties :: "(string, string) fmap"
  doc_Content :: "content option"

definition Queryable :: "document \<Rightarrow> bool" where
  "Queryable d \<longleftrightarrow>
     doc_ID d \<noteq> '''' \<and> doc_Tenant d \<noteq> '''' \<and> perm_Mode (doc_Permissions d) \<noteq> ModeUnknown"

record chunk =
  ch_DocID :: string
  ch_Ord :: int
  ch_Text :: string
  ch_Anchor :: string

definition Display :: "person \<Rightarrow> string" where
  "Display p =
     (if pr_Name p \<noteq> '''' then pr_Name p
      else if pr_Email p \<noteq> '''' then pr_Email p
      else id_Value (pr_Identity p))"

section \<open>The analyzer (doc/analyze.go)\<close>

record span =
  sp_Term :: string
  sp_Start :: int
  sp_End :: int

type_synonym 's yield = "string \<Rightarrow> int \<Rightarrow> int \<Rightarrow> 's \<Rightarrow> bool \<times> 's"

definition ascii_lower_or_digit :: "rune \<Rightarrow> bool" where
  "ascii_lower_or_digit r \<longleftrightarrow> (97 \<le> r \<and> r \<le> 122) \<or> (48 \<le> r \<and> r \<le> 57)"

definition ascii_upper :: "rune \<Rightarrow> bool" where
  "ascii_upper r \<longleftrightarrow> 65 \<le> r \<and> r \<le> 90"

definition is_cjk :: "unicode \<Rightarrow> rune \<Rightarrow> bool" where
  "is_cjk U r \<longleftrightarrow> uc_han U r \<or> uc_hiragana U r \<or> uc_katakana U r"

definition flush :: "'s yield \<Rightarrow> string \<Rightarrow> int \<Rightarrow> int \<Rightarrow> 's \<Rightarrow> bool \<times> 's" where
  "flush yield cur start stop s =
     (if start < 0 \<or> length cur = 0 then (True, s) else yield cur start stop s)"

fun scan_loop ::
  "unicode \<Rightarrow> 's yield \<Rightarrow> string \<Rightarrow> int \<Rightarrow> (nat \<times> rune) list \<Rightarrow> int \<Rightarrow> 's \<Rightarrow> bool \<times> 's"
where
  "scan_loop U yield cur start [] n s = flush yield cur start n s"
| "scan_loop U yield cur start ((i, r) # rest) n s =
     (if r < RuneSelf then
        if ascii_lower_or_digit r then
          scan_loop U yield (cur @ [of_byte r]) (if start < 0 then int i else start) rest n s
        else if ascii_upper r then
          scan_loop U yield (cur @ [of_byte (r + 32)]) (if start < 0 then int i else start) rest n s
        else (case flush yield cur start (int i) s of
                (True, s) \<Rightarrow> scan_loop U yield '''' (-1) rest n s
              | (False, s) \<Rightarrow> (False, s))
      else if is_cjk U r then
        (case flush yield cur start (int i) s of
           (True, s) \<Rightarrow>
             (case yield (EncodeRune r) (int i) (int i + int (length (EncodeRune r))) s of
                (True, s) \<Rightarrow> scan_loop U yield '''' (-1) rest n s
              | (False, s) \<Rightarrow> (False, s))
         | (False, s) \<Rightarrow> (False, s))
      else if uc_letter U r \<or> uc_digit U r then
        scan_loop U yield (cur @ EncodeRune (lower_rune U r)) (if start < 0 then int i else start)
          rest n s
      else (case flush yield cur start (int i) s of
              (True, s) \<Rightarrow> scan_loop U yield '''' (-1) rest n s
            | (False, s) \<Rightarrow> (False, s)))"

definition scan :: "unicode \<Rightarrow> string \<Rightarrow> 's yield \<Rightarrow> 's \<Rightarrow> 's" where
  "scan U text yield s =
     snd (scan_loop U yield '''' (-1) (range_string text) (int (length text)) s)"

definition Spans :: "unicode \<Rightarrow> string \<Rightarrow> (span \<Rightarrow> 's \<Rightarrow> bool \<times> 's) \<Rightarrow> 's \<Rightarrow> 's" where
  "Spans U text yield s =
     scan U text (\<lambda>term start stop. yield \<lparr>sp_Term = term, sp_Start = start, sp_End = stop\<rparr>) s"

definition AnalyzeText :: "unicode \<Rightarrow> string \<Rightarrow> span list" where
  "AnalyzeText U text = Spans U text (\<lambda>sp out. (True, out @ [sp])) []"

definition Tokenize :: "unicode \<Rightarrow> string \<Rightarrow> string list" where
  "Tokenize U text = Spans U text (\<lambda>sp terms. (True, terms @ [sp_Term sp])) []"

definition Find :: "unicode \<Rightarrow> string \<Rightarrow> (string, bool) fmap \<Rightarrow> int" where
  "Find U text want =
     scan U text
       (\<lambda>term start _ at. if fmlookup want term \<noteq> Some True then (True, at) else (False, start))
       (-1)"

definition Terms :: "unicode \<Rightarrow> document \<Rightarrow> string list" where
  "Terms U d =
     (let title = Tokenize U (doc_Title d); body = Tokenize U (doc_Body d) in title @ body)"

definition Analyzed :: "unicode \<Rightarrow> document \<Rightarrow> string" where
  "Analyzed U d = Join (Terms U d) '' ''"

record term_count =
  tc_Title :: int
  tc_Body :: int

record analysis =
  an_TitleTokens :: int
  an_BodyTokens :: int
  an_Terms :: "(string, term_count) fmap"

definition zero_count :: term_count where
  "zero_count = \<lparr>tc_Title = 0, tc_Body = 0\<rparr>"

definition term_at :: "(string, term_count) fmap \<Rightarrow> string \<Rightarrow> term_count" where
  "term_at m t = (case fmlookup m t of None \<Rightarrow> zero_count | Some c \<Rightarrow> c)"

definition count_title :: "analysis \<Rightarrow> span \<Rightarrow> analysis" where
  "count_title a sp =
     (let c = term_at (an_Terms a) (sp_Term sp)
      in a\<lparr>an_TitleTokens := an_TitleTokens a + 1,
           an_Terms := fmupd (sp_Term sp) (c\<lparr>tc_Title := tc_Title c + 1\<rparr>) (an_Terms a)\<rparr>)"

definition count_body :: "analysis \<Rightarrow> span \<Rightarrow> analysis" where
  "count_body a sp =
     (let c = term_at (an_Terms a) (sp_Term sp)
      in a\<lparr>an_BodyTokens := an_BodyTokens a + 1,
           an_Terms := fmupd (sp_Term sp) (c\<lparr>tc_Body := tc_Body c + 1\<rparr>) (an_Terms a)\<rparr>)"

definition Analyze :: "unicode \<Rightarrow> document \<Rightarrow> analysis" where
  "Analyze U d =
     (let a = \<lparr>an_TitleTokens = 0, an_BodyTokens = 0, an_Terms = fmempty\<rparr>;
          a = Spans U (doc_Title d) (\<lambda>sp a. (True, count_title a sp)) a
      in Spans U (doc_Body d) (\<lambda>sp a. (True, count_body a sp)) a)"

section \<open>A scan runs its callback over the spans\<close>

fun spans_from :: "unicode \<Rightarrow> string \<Rightarrow> int \<Rightarrow> (nat \<times> rune) list \<Rightarrow> int \<Rightarrow> span list" where
  "spans_from U cur start [] n =
     (if start < 0 \<or> length cur = 0 then [] else [\<lparr>sp_Term = cur, sp_Start = start, sp_End = n\<rparr>])"
| "spans_from U cur start ((i, r) # rest) n =
     (let emit = (if start < 0 \<or> length cur = 0 then []
                  else [\<lparr>sp_Term = cur, sp_Start = start, sp_End = int i\<rparr>]);
          here = (if start < 0 then int i else start)
      in if r < RuneSelf then
           if ascii_lower_or_digit r then spans_from U (cur @ [of_byte r]) here rest n
           else if ascii_upper r then spans_from U (cur @ [of_byte (r + 32)]) here rest n
           else emit @ spans_from U '''' (-1) rest n
         else if is_cjk U r then
           emit @ \<lparr>sp_Term = EncodeRune r, sp_Start = int i,
                   sp_End = int i + int (length (EncodeRune r))\<rparr> # spans_from U '''' (-1) rest n
         else if uc_letter U r \<or> uc_digit U r then
           spans_from U (cur @ EncodeRune (lower_rune U r)) here rest n
         else emit @ spans_from U '''' (-1) rest n)"

definition run_yield :: "'s yield \<Rightarrow> span \<Rightarrow> 's \<Rightarrow> bool \<times> 's" where
  "run_yield yield sp = yield (sp_Term sp) (sp_Start sp) (sp_End sp)"

lemma scan_loop_spans:
  "scan_loop U yield cur start rest n s =
     yield_all (run_yield yield) (spans_from U cur start rest n) s"
proof (induction rest arbitrary: cur start s)
  case (Cons x rest)
  obtain i r where x: "x = (i, r)" by (cases x)
  show ?case
    unfolding x
    by (simp add: flush_def run_yield_def Let_def Cons [unfolded run_yield_def]
        split: prod.split bool.split)
qed (simp add: flush_def run_yield_def split: prod.split bool.split)

definition all_spans :: "unicode \<Rightarrow> string \<Rightarrow> span list" where
  "all_spans U text = spans_from U '''' (-1) (range_string text) (int (length text))"

lemma scan_all_spans: "scan U text yield s = snd (yield_all (run_yield yield) (all_spans U text) s)"
  by (simp add: scan_def all_spans_def scan_loop_spans)

lemma Spans_all_spans: "Spans U text yield s = snd (yield_all yield (all_spans U text) s)"
proof -
  have "run_yield (\<lambda>term start stop. yield \<lparr>sp_Term = term, sp_Start = start, sp_End = stop\<rparr>) = yield"
  proof (intro ext)
    fix sp s
    show "run_yield (\<lambda>term start stop. yield \<lparr>sp_Term = term, sp_Start = start, sp_End = stop\<rparr>) sp s
        = yield sp s"
      by (cases sp) (simp add: run_yield_def)
  qed
  then show ?thesis by (simp add: Spans_def scan_all_spans)
qed

lemma AnalyzeText_all_spans: "AnalyzeText U text = all_spans U text"
  using yield_all_collect [of "\<lambda>sp::span. sp" "all_spans U text" "[]"]
  by (simp add: AnalyzeText_def Spans_all_spans)

lemma Tokenize_all_spans: "Tokenize U text = map sp_Term (all_spans U text)"
  by (simp add: Tokenize_def Spans_all_spans yield_all_collect)

section \<open>What the spans are\<close>

text \<open>
  Three classes of runes: those a word is built from, those that are a term of their own, and
  everything else, which separates. A word is folded rune by rune with \<open>fold_rune\<close>.
\<close>

definition word_rune :: "unicode \<Rightarrow> rune \<Rightarrow> bool" where
  "word_rune U r \<longleftrightarrow>
     (if r < RuneSelf then ascii_lower_or_digit r \<or> ascii_upper r
      else \<not> is_cjk U r \<and> (uc_letter U r \<or> uc_digit U r))"

definition single_rune :: "unicode \<Rightarrow> rune \<Rightarrow> bool" where
  "single_rune U r \<longleftrightarrow> RuneSelf \<le> r \<and> is_cjk U r"

definition fold_rune :: "unicode \<Rightarrow> rune \<Rightarrow> rune" where
  "fold_rune U r = (if single_rune U r then r else lower_rune U r)"

definition folded :: "unicode \<Rightarrow> rune list \<Rightarrow> string" where
  "folded U rs = concat (map (\<lambda>r. EncodeRune (fold_rune U r)) rs)"

definition pending :: "string \<Rightarrow> int \<Rightarrow> int \<Rightarrow> span list" where
  "pending cur start stop =
     (if start < 0 \<or> length cur = 0 then []
      else [\<lparr>sp_Term = cur, sp_Start = start, sp_End = stop\<rparr>])"

lemma spans_from_Nil: "spans_from U cur start [] n = pending cur start n"
  by (simp add: pending_def)

lemma spans_from_word:
  assumes "word_rune U r"
  shows "spans_from U cur start ((i, r) # rest) n =
    spans_from U (cur @ EncodeRune (fold_rune U r)) (if start < 0 then int i else start) rest n"
proof (cases "r < RuneSelf")
  case True
  then have "EncodeRune (fold_rune U r) =
      [of_byte (if ascii_upper r then r + 32 else r)]"
    by (auto simp: fold_rune_def single_rune_def lower_rune_def ascii_upper_def RuneSelf_def
        EncodeRune_def)
  moreover have "\<not> (ascii_upper r \<and> ascii_lower_or_digit r)"
    by (auto simp: ascii_upper_def ascii_lower_or_digit_def)
  ultimately show ?thesis
    using True assms by (auto simp: word_rune_def Let_def)
next
  case False
  then show ?thesis
    using assms by (simp add: word_rune_def fold_rune_def single_rune_def Let_def)
qed

lemma spans_from_single:
  "single_rune U r \<Longrightarrow> spans_from U cur start ((i, r) # rest) n =
     pending cur start (int i) @ \<lparr>sp_Term = EncodeRune r, sp_Start = int i,
       sp_End = int i + int (length (EncodeRune r))\<rparr> # spans_from U '''' (-1) rest n"
  by (auto simp: single_rune_def pending_def Let_def)

lemma spans_from_break:
  "\<not> word_rune U r \<Longrightarrow> \<not> single_rune U r \<Longrightarrow> spans_from U cur start ((i, r) # rest) n =
     pending cur start (int i) @ spans_from U '''' (-1) rest n"
  by (auto simp: single_rune_def word_rune_def pending_def Let_def)

declare spans_from.simps [simp del]

lemmas spans_from_rules = spans_from_Nil spans_from_word spans_from_single spans_from_break

definition pairs :: "(nat \<times> rune \<times> nat) list \<Rightarrow> (nat \<times> rune) list" where
  "pairs ts = map (\<lambda>(i, r, w). (i, r)) ts"

definition widths_ok :: "unicode \<Rightarrow> (nat \<times> rune \<times> nat) list \<Rightarrow> bool" where
  "widths_ok U ts \<longleftrightarrow> (\<forall>(i, r, w) \<in> set ts. single_rune U r \<longrightarrow> length (EncodeRune r) = w)"

definition runes_in :: "(nat \<times> rune \<times> nat) list \<Rightarrow> int \<Rightarrow> int \<Rightarrow> rune list" where
  "runes_in ts a b = map (\<lambda>(i, r, w). r) (filter (\<lambda>(i, r, w). a \<le> int i \<and> int i < b) ts)"

text \<open>The state of the scan at offset \<open>k\<close>: no word is open, or one that began before it.\<close>

definition scan_state :: "string \<Rightarrow> int \<Rightarrow> nat \<Rightarrow> bool" where
  "scan_state cur start k \<longleftrightarrow>
     (start = -1 \<and> cur = '''') \<or> (0 \<le> start \<and> start < int k \<and> cur \<noteq> '''')"

fun spans_ordered :: "int \<Rightarrow> span list \<Rightarrow> int \<Rightarrow> bool" where
  "spans_ordered lo [] hi \<longleftrightarrow> lo \<le> hi"
| "spans_ordered lo (sp # sps) hi \<longleftrightarrow>
     lo \<le> sp_Start sp \<and> sp_Start sp < sp_End sp \<and> spans_ordered (sp_End sp) sps hi"

lemma spans_ordered_mono: "spans_ordered lo sps hi \<Longrightarrow> lo' \<le> lo \<Longrightarrow> spans_ordered lo' sps hi"
  by (cases sps) auto

lemma spans_ordered_bounds:
  "spans_ordered lo sps hi \<Longrightarrow> sp \<in> set sps \<Longrightarrow> lo \<le> sp_Start sp \<and> sp_Start sp < sp_End sp \<and> sp_End sp \<le> hi"
proof (induction lo sps hi rule: spans_ordered.induct)
  case (2 lo sp' sps hi)
  have "lo' \<le> hi'" if "spans_ordered lo' xs hi'" for lo' xs hi'
    using that by (induction lo' xs hi' rule: spans_ordered.induct) auto
  with 2 show ?case by fastforce
qed simp

lemma scan_state_simps [simp]:
  "scan_state '''' (-1) k"
  "scan_state cur start k \<Longrightarrow> x \<noteq> '''' \<Longrightarrow> k < k' \<Longrightarrow>
     scan_state (cur @ x) (if start < 0 then int k else start) k'"
  by (auto simp: scan_state_def)

lemma pending_state:
  "scan_state cur start k \<Longrightarrow> pending cur start stop =
     (if start < 0 then [] else [\<lparr>sp_Term = cur, sp_Start = start, sp_End = stop\<rparr>])"
  by (auto simp: scan_state_def pending_def)

lemma rune_class:
  obtains (word) "word_rune U r" "\<not> single_rune U r" | (single) "\<not> word_rune U r" "single_rune U r"
    | (break) "\<not> word_rune U r" "\<not> single_rune U r"
  by (auto simp: word_rune_def single_rune_def)

lemma spans_from_ordered:
  assumes "chained k ts n" "widths_ok U ts" "scan_state cur start k"
  shows "spans_ordered (if start < 0 then int k else start)
    (spans_from U cur start (pairs ts) (int n)) (int n)"
  using assms
proof (induction ts arbitrary: k cur start)
  case Nil
  then show ?case by (auto simp: spans_from_Nil pairs_def pending_state scan_state_def)
next
  case (Cons t ts)
  obtain r w where t: "t = (k, r, w)" "0 < w" and ch: "chained (k + w) ts n"
    using Cons.prems(1) by (cases t) auto
  have wd: "widths_ok U ts" and sw: "single_rune U r \<Longrightarrow> length (EncodeRune r) = w"
    using Cons.prems(2) by (simp_all add: widths_ok_def t)
  have p: "pairs (t # ts) = (k, r) # pairs ts" by (simp add: pairs_def t)
  have none: "spans_ordered (int (k + w)) (spans_from U '''' (-1) (pairs ts) (int n)) (int n)"
    using Cons.IH [OF ch wd, of "''''" "-1"] by simp
  show ?case
  proof (cases U r rule: rune_class)
    case word
    have "scan_state (cur @ EncodeRune (fold_rune U r)) (if start < 0 then int k else start) (k + w)"
      using Cons.prems(3) t(2) by simp
    from Cons.IH [OF ch wd this] show ?thesis
      unfolding p spans_from_word [OF word(1)] using Cons.prems(3)
      by (auto split: if_splits)
  next
    case single
    then show ?thesis
      unfolding p spans_from_single [OF single(2)] using Cons.prems(3) none sw t(2)
      by (auto simp: pending_state scan_state_def intro: spans_ordered_mono)
  next
    case break
    then show ?thesis
      unfolding p spans_from_break [OF break] using Cons.prems(3) none
      by (auto simp: pending_state scan_state_def intro: spans_ordered_mono)
  qed
qed

definition span_of :: "unicode \<Rightarrow> (nat \<times> rune \<times> nat) list \<Rightarrow> span \<Rightarrow> bool" where
  "span_of U ts sp \<longleftrightarrow>
     (let rs = runes_in ts (sp_Start sp) (sp_End sp)
      in rs \<noteq> [] \<and> sp_Term sp = folded U rs \<and>
         ((\<forall>r \<in> set rs. word_rune U r) \<or> (\<exists>r. rs = [r] \<and> single_rune U r)))"

definition open_span ::
  "unicode \<Rightarrow> string \<Rightarrow> int \<Rightarrow> nat \<Rightarrow> (nat \<times> rune \<times> nat) list \<Rightarrow> span \<Rightarrow> bool"
where
  "open_span U cur start k ts sp \<longleftrightarrow>
     0 \<le> start \<and> sp_Start sp = start \<and> int k \<le> sp_End sp \<and>
     (let rs = runes_in ts start (sp_End sp)
      in sp_Term sp = cur @ folded U rs \<and> (\<forall>r \<in> set rs. word_rune U r))"

lemma folded_simps [simp]:
  "folded U [] = ''''" "folded U (r # rs) = EncodeRune (fold_rune U r) @ folded U rs"
  by (simp_all add: folded_def)

lemma runes_in_Nil [simp]: "runes_in [] a b = []"
  by (simp add: runes_in_def)

lemma runes_in_Cons:
  "runes_in ((k, r, w) # ts) a b =
     (if a \<le> int k \<and> int k < b then r # runes_in ts a b else runes_in ts a b)"
  by (simp add: runes_in_def)

lemma chained_ge: "chained k ts n \<Longrightarrow> (i, r, w) \<in> set ts \<Longrightarrow> k \<le> i"
  by (induction k ts n rule: chained.induct) fastforce+

lemma runes_in_empty: "chained k ts n \<Longrightarrow> b \<le> int k \<Longrightarrow> runes_in ts a b = []"
  using chained_ge [of k ts n] by (fastforce simp: runes_in_def filter_empty_conv)

lemma span_of_Cons:
  "int k < sp_Start sp \<Longrightarrow> span_of U ((k, r, w) # ts) sp = span_of U ts sp"
  by (simp add: span_of_def runes_in_Cons)

lemma span_of_end: "chained k ts n \<Longrightarrow> span_of U ts sp \<Longrightarrow> int k < sp_End sp"
  using runes_in_empty [of k ts n "sp_End sp" "sp_Start sp"] by (fastforce simp: span_of_def)

lemma spans_from_shape:
  assumes "chained k ts n" "widths_ok U ts" "scan_state cur start k"
    and "sp \<in> set (spans_from U cur start (pairs ts) (int n))"
  shows "open_span U cur start k ts sp \<or> (int k \<le> sp_Start sp \<and> span_of U ts sp)"
  using assms
proof (induction ts arbitrary: k cur start)
  case Nil
  then show ?case
    by (auto simp: spans_from_Nil pairs_def pending_state scan_state_def open_span_def)
next
  case (Cons t ts)
  obtain r w where t: "t = (k, r, w)" "0 < w" and ch: "chained (k + w) ts n"
    using Cons.prems(1) by (cases t) auto
  have wd: "widths_ok U ts" and sw: "single_rune U r \<Longrightarrow> length (EncodeRune r) = w"
    using Cons.prems(2) by (simp_all add: widths_ok_def t)
  have p: "pairs (t # ts) = (k, r) # pairs ts" by (simp add: pairs_def t)
  have none: "int k \<le> sp_Start sp \<and> span_of U (t # ts) sp"
    if "sp \<in> set (spans_from U '''' (-1) (pairs ts) (int n))"
    using Cons.IH [OF ch wd, of "''''" "-1"] that t(2)
    by (auto simp: t(1) open_span_def span_of_Cons)
  have old: "open_span U cur start k (t # ts) sp" if "sp \<in> set (pending cur start (int k))"
    using that Cons.prems(3) runes_in_empty [OF ch, of "int k" start] t
    by (auto simp: pending_state open_span_def runes_in_Cons split: if_splits)
  show ?case
  proof (cases U r rule: rune_class)
    case word
    let ?cur = "cur @ EncodeRune (fold_rune U r)" and ?start = "if start < 0 then int k else start"
    have "scan_state ?cur ?start (k + w)"
      using Cons.prems(3) t(2) by simp
    from Cons.IH [OF ch wd this] Cons.prems(4)
    have "open_span U ?cur ?start (k + w) ts sp \<or> (int (k + w) \<le> sp_Start sp \<and> span_of U ts sp)"
      unfolding p spans_from_word [OF word(1)] by simp
    then show ?thesis
    proof
      assume "open_span U ?cur ?start (k + w) ts sp"
      then show ?thesis
        using word Cons.prems(3) t(2)
        by (auto simp: open_span_def span_of_def runes_in_Cons t(1) scan_state_def Let_def
            split: if_splits)
    next
      assume "int (k + w) \<le> sp_Start sp \<and> span_of U ts sp"
      then show ?thesis using t by (simp add: span_of_Cons)
    qed
  next
    case single
    let ?sp = "\<lparr>sp_Term = EncodeRune r, sp_Start = int k, sp_End = int k + int (length (EncodeRune r))\<rparr>"
    have "int k \<le> sp_Start ?sp \<and> span_of U (t # ts) ?sp"
      using single runes_in_empty [OF ch, of "int k + int w" "int k"] sw t(2)
      by (simp add: span_of_def runes_in_Cons t(1) fold_rune_def)
    then show ?thesis
      using Cons.prems(4) none old unfolding p spans_from_single [OF single(2)] by auto
  next
    case break
    then show ?thesis
      using Cons.prems(4) none old unfolding p spans_from_break [OF break] by auto
  qed
qed

text \<open>Every rune of a word, and every rune that is a term of its own, lies in a span.\<close>

lemma spans_from_cover:
  assumes "chained k ts n" "widths_ok U ts" "scan_state cur start k"
  shows "(0 \<le> start \<longrightarrow> (\<exists>sp \<in> set (spans_from U cur start (pairs ts) (int n)).
      sp_Start sp = start \<and> int k \<le> sp_End sp)) \<and>
    (\<forall>(i, r, w) \<in> set ts. word_rune U r \<or> single_rune U r \<longrightarrow>
      (\<exists>sp \<in> set (spans_from U cur start (pairs ts) (int n)).
        sp_Start sp \<le> int i \<and> int i < sp_End sp))"
  using assms
proof (induction ts arbitrary: k cur start)
  case Nil
  then show ?case by (auto simp: spans_from_Nil pairs_def pending_state)
next
  case (Cons t ts)
  obtain r w where t: "t = (k, r, w)" "0 < w" and ch: "chained (k + w) ts n"
    using Cons.prems(1) by (cases t) auto
  have wd: "widths_ok U ts"
    using Cons.prems(2) by (simp add: widths_ok_def)
  have p: "pairs (t # ts) = (k, r) # pairs ts" by (simp add: pairs_def t)
  note none = Cons.IH [OF ch wd, of "''''" "-1"]
  show ?case
  proof (cases U r rule: rune_class)
    case word
    let ?start = "if start < 0 then int k else start"
    have "scan_state (cur @ EncodeRune (fold_rune U r)) ?start (k + w)"
      using Cons.prems(3) t(2) by simp
    note IH = Cons.IH [OF ch wd this]
    obtain sp where sp: "sp \<in> set (spans_from U (cur @ EncodeRune (fold_rune U r)) ?start (pairs ts) (int n))"
      "sp_Start sp = ?start" "int (k + w) \<le> sp_End sp"
    proof -
      have "0 \<le> ?start" by simp
      with IH [THEN conjunct1] that show thesis by blast
    qed
    have "sp_Start sp \<le> int k" "int k < sp_End sp" "0 \<le> start \<longrightarrow> sp_Start sp = start"
      using sp(2,3) t(2) Cons.prems(3) by (auto simp: scan_state_def)
    then show ?thesis
      unfolding p spans_from_word [OF word(1)] using IH sp(1) t by (auto simp del: of_nat_add)
  next
    case single
    then show ?thesis
      unfolding p spans_from_single [OF single(2)] using none Cons.prems(3) t
      by (auto simp: pending_state)
  next
    case break
    then show ?thesis
      unfolding p spans_from_break [OF break] using none Cons.prems(3) t
      by (auto simp: pending_state)
  qed
qed

text \<open>A word does not stop in front of a rune that would have continued it.\<close>

lemma spans_from_maximal:
  assumes "chained k ts n" "widths_ok U ts" "scan_state cur start k"
    and "sp \<in> set (spans_from U cur start (pairs ts) (int n))"
    and "(i, r, w) \<in> set ts" "int i = sp_End sp" "word_rune U r"
  shows "\<exists>q. runes_in ts (sp_Start sp) (sp_End sp) = [q] \<and> single_rune U q"
  using assms
proof (induction ts arbitrary: k cur start)
  case (Cons t ts)
  obtain r' w' where t: "t = (k, r', w')" "0 < w'" and ch: "chained (k + w') ts n"
    using Cons.prems(1) by (cases t) auto
  have wd: "widths_ok U ts"
    using Cons.prems(2) by (simp add: widths_ok_def)
  have p: "pairs (t # ts) = (k, r') # pairs ts" by (simp add: pairs_def t)
  have later: "int i = int k \<and> r = r' \<or> int k < int i \<and> (i, r, w) \<in> set ts"
    using Cons.prems(5) chained_ge [OF ch, of i r w] t by auto
  have none: ?case if sp: "sp \<in> set (spans_from U '''' (-1) (pairs ts) (int n))"
  proof -
    have "int (k + w') \<le> sp_Start sp" "span_of U ts sp"
      using spans_from_shape [OF ch wd _ sp] by (auto simp: open_span_def)
    moreover from this span_of_end [OF ch] have "int k < sp_End sp" by fastforce
    ultimately show ?case
      using Cons.IH [OF ch wd _ sp _ Cons.prems(6,7)] later Cons.prems(6) t
      by (simp add: runes_in_Cons)
  qed
  have old: ?case if "sp \<in> set (pending cur start (int k))" "\<not> word_rune U r'"
    using that Cons.prems(3,6,7) later by (auto simp: pending_state split: if_splits)
  show ?case
  proof (cases U r' rule: rune_class)
    case word
    let ?cur = "cur @ EncodeRune (fold_rune U r')" and ?start = "if start < 0 then int k else start"
    have st: "scan_state ?cur ?start (k + w')"
      using Cons.prems(3) t(2) by simp
    have sp: "sp \<in> set (spans_from U ?cur ?start (pairs ts) (int n))"
      using Cons.prems(4) unfolding p spans_from_word [OF word(1)] .
    have sh: "open_span U ?cur ?start (k + w') ts sp \<or> (int (k + w') \<le> sp_Start sp \<and> span_of U ts sp)"
      by (rule spans_from_shape [OF ch wd st sp])
    then have "int k < sp_End sp"
      using span_of_end [OF ch, of U sp] t(2) by (auto simp: open_span_def)
    then have "(i, r, w) \<in> set ts" using later Cons.prems(6) by auto
    from Cons.IH [OF ch wd st sp this Cons.prems(6,7)]
    obtain q where q: "runes_in ts (sp_Start sp) (sp_End sp) = [q]" "single_rune U q" by blast
    have "\<not> word_rune U q" using q(2) by (auto simp: word_rune_def single_rune_def)
    then have "int (k + w') \<le> sp_Start sp"
      using sh q(1) by (auto simp: open_span_def)
    then show ?thesis using q t by (simp add: runes_in_Cons)
  next
    case single
    let ?sp = "\<lparr>sp_Term = EncodeRune r', sp_Start = int k,
      sp_End = int k + int (length (EncodeRune r'))\<rparr>"
    have "length (EncodeRune r') = w'" using Cons.prems(2) single(2) by (simp add: widths_ok_def t)
    then have "runes_in (t # ts) (sp_Start ?sp) (sp_End ?sp) = [r']"
      using runes_in_empty [OF ch, of "int k + int w'" "int k"] t by (simp add: runes_in_Cons)
    then show ?thesis
      using Cons.prems(4) single none old unfolding p spans_from_single [OF single(2)] by auto
  next
    case break
    then show ?thesis
      using Cons.prems(4) none old unfolding p spans_from_break [OF break] by auto
  qed
qed simp

lemma pairs_range: "range_string s = pairs (runes_from 0 s)"
  by (simp add: range_string_def pairs_def)

lemma chained_runes: "chained 0 (runes_from 0 s) (length s)"
  using runes_from_chained [of 0 s] by simp

lemma runes_from_width:
  assumes "(i, r, w) \<in> set (runes_from k s)" "r \<noteq> RuneError"
  shows "length (EncodeRune r) = w"
  using assms
proof (induction k s rule: runes_from.induct)
  case (1 k s)
  then have s: "s \<noteq> []" by auto
  obtain r' w' where d: "DecodeRune s = (r', w')" by fastforce
  have w: "w' \<le> length s" using d DecodeRune_width_le [of s] by simp
  have e: "length (EncodeRune r') = w'" if "r' \<noteq> RuneError"
    using EncodeRune_DecodeRune [OF d s] that w by simp
  have "(i, r, w) = (k, r', w') \<or> (i, r, w) \<in> set (runes_from (k + w') (drop w' s))"
    using "1.prems"(1) s d by (subst (asm) runes_from.simps) simp
  then show ?case
    using "1.IH" [OF s d [symmetric] refl] "1.prems"(2) e by auto
qed

lemma widths_ok_runes: "\<not> single_rune U RuneError \<Longrightarrow> widths_ok U (runes_from k s)"
  using runes_from_width [of _ _ _ k s] by (fastforce simp: widths_ok_def)

text \<open>
  C16: the analyzer's spans come in order and do not overlap; each is a non-empty stretch of
  runes, either all letters and digits or one ideograph, and its term is exactly that stretch
  folded to lower case; every letter, digit and ideograph of the text lies in a span; and a
  word ends only where the next rune is not part of a word.
\<close>

theorem Analyze_spans:
  assumes "\<not> single_rune U RuneError"
  shows "spans_ordered 0 (AnalyzeText U text) (int (length text))
    \<and> (\<forall>sp \<in> set (AnalyzeText U text). span_of U (runes_from 0 text) sp)
    \<and> (\<forall>(i, r, w) \<in> set (runes_from 0 text). word_rune U r \<or> single_rune U r \<longrightarrow>
        (\<exists>sp \<in> set (AnalyzeText U text). sp_Start sp \<le> int i \<and> int i < sp_End sp))
    \<and> (\<forall>sp \<in> set (AnalyzeText U text). \<forall>(i, r, w) \<in> set (runes_from 0 text).
        int i = sp_End sp \<and> word_rune U r \<longrightarrow>
        (\<exists>q. runes_in (runes_from 0 text) (sp_Start sp) (sp_End sp) = [q] \<and> single_rune U q))"
proof -
  note ch = chained_runes [of "text"] and wd = widths_ok_runes [OF assms, of 0 "text"]
  have st: "scan_state '''' (-1) 0" by simp
  have eq: "AnalyzeText U text =
      spans_from U '''' (-1) (pairs (runes_from 0 text)) (int (length text))"
    by (simp add: AnalyzeText_all_spans all_spans_def pairs_range)
  show ?thesis
    unfolding eq
  proof (intro conjI)
    let ?S = "spans_from U '''' (-1) (pairs (runes_from 0 text)) (int (length text))"
    show "spans_ordered 0 ?S (int (length text))"
      using spans_from_ordered [OF ch wd st] by simp
    show "\<forall>sp \<in> set ?S. span_of U (runes_from 0 text) sp"
      using spans_from_shape [OF ch wd st] by (auto simp: open_span_def)
    show "\<forall>(i, r, w) \<in> set (runes_from 0 text). word_rune U r \<or> single_rune U r \<longrightarrow>
        (\<exists>sp \<in> set ?S. sp_Start sp \<le> int i \<and> int i < sp_End sp)"
      using spans_from_cover [OF ch wd st] by blast
    show "\<forall>sp \<in> set ?S. \<forall>(i, r, w) \<in> set (runes_from 0 text).
        int i = sp_End sp \<and> word_rune U r \<longrightarrow>
        (\<exists>q. runes_in (runes_from 0 text) (sp_Start sp) (sp_End sp) = [q] \<and> single_rune U q)"
      using spans_from_maximal [OF ch wd st] by blast
  qed
qed

theorem Analyze_spans_witness:
  "spans_ordered 0 (AnalyzeText ascii_table ''Run the Book2'') 13"
proof -
  have "\<not> single_rune ascii_table RuneError"
    by (simp add: single_rune_def is_cjk_def ascii_table_def)
  from Analyze_spans [OF this, of "''Run the Book2''"] show ?thesis by simp
qed

text \<open>
  \<open>Find\<close>, which stops the scan at its answer, returns the offset of the first span the
  full analysis would have listed whose term is wanted, and -1 exactly when there is none.
\<close>

theorem Find_first:
  "Find U text want =
     (case find (\<lambda>sp. fmlookup want (sp_Term sp) = Some True) (AnalyzeText U text) of
        None \<Rightarrow> -1 | Some sp \<Rightarrow> sp_Start sp)"
proof -
  have "snd (yield_all (run_yield (\<lambda>term start _ at.
          if fmlookup want term \<noteq> Some True then (True, at) else (False, start))) sps (-1)) =
      (case find (\<lambda>sp. fmlookup want (sp_Term sp) = Some True) sps of
         None \<Rightarrow> -1 | Some sp \<Rightarrow> sp_Start sp)" for sps
    by (induction sps) (simp_all add: run_yield_def)
  then show ?thesis by (simp add: Find_def scan_all_spans AnalyzeText_all_spans)
qed

section \<open>Counting terms\<close>

lemma Analyze_folds:
  "Analyze U d = foldl count_body (foldl count_title
      \<lparr>an_TitleTokens = 0, an_BodyTokens = 0, an_Terms = fmempty\<rparr>
      (all_spans U (doc_Title d))) (all_spans U (doc_Body d))"
  by (simp add: Analyze_def Spans_all_spans yield_all_fold)

lemma term_at_upd: "term_at (fmupd t c m) t' = (if t' = t then c else term_at m t')"
  by (simp add: term_at_def)

lemma foldl_count_title:
  "let b = foldl count_title a sps in
     an_TitleTokens b = an_TitleTokens a + int (length sps) \<and> an_BodyTokens b = an_BodyTokens a \<and>
     tc_Title (term_at (an_Terms b) t) =
       tc_Title (term_at (an_Terms a) t) + int (count_list (map sp_Term sps) t) \<and>
     tc_Body (term_at (an_Terms b) t) = tc_Body (term_at (an_Terms a) t) \<and>
     fset (fmdom (an_Terms b)) = fset (fmdom (an_Terms a)) \<union> set (map sp_Term sps)"
  by (induction sps arbitrary: a) (auto simp: count_title_def Let_def term_at_upd)

lemma foldl_count_body:
  "let b = foldl count_body a sps in
     an_BodyTokens b = an_BodyTokens a + int (length sps) \<and> an_TitleTokens b = an_TitleTokens a \<and>
     tc_Body (term_at (an_Terms b) t) =
       tc_Body (term_at (an_Terms a) t) + int (count_list (map sp_Term sps) t) \<and>
     tc_Title (term_at (an_Terms b) t) = tc_Title (term_at (an_Terms a) t) \<and>
     fset (fmdom (an_Terms b)) = fset (fmdom (an_Terms a)) \<union> set (map sp_Term sps)"
  by (induction sps arbitrary: a) (auto simp: count_body_def Let_def term_at_upd)

text \<open>
  The statistics of a document agree with its terms: the token counts are the lengths of
  the two token lists, a term's counts are how often it occurs in each, and the terms listed
  are exactly those that occur.
\<close>

theorem Analyze_counts:
  "an_TitleTokens (Analyze U d) = int (length (Tokenize U (doc_Title d))) \<and>
   an_BodyTokens (Analyze U d) = int (length (Tokenize U (doc_Body d))) \<and>
   term_at (an_Terms (Analyze U d)) t =
     \<lparr>tc_Title = int (count_list (Tokenize U (doc_Title d)) t),
      tc_Body = int (count_list (Tokenize U (doc_Body d)) t)\<rparr> \<and>
   fset (fmdom (an_Terms (Analyze U d))) = set (Terms U d)"
proof -
  let ?a = "\<lparr>an_TitleTokens = 0, an_BodyTokens = 0, an_Terms = fmempty\<rparr>"
  let ?t = "foldl count_title ?a (all_spans U (doc_Title d))"
  have "term_at fmempty t = zero_count" by (simp add: term_at_def)
  then show ?thesis
    using foldl_count_title [of ?a "all_spans U (doc_Title d)" t]
      foldl_count_body [of ?t "all_spans U (doc_Body d)" t]
    by (simp add: Analyze_folds Let_def Tokenize_all_spans Terms_def zero_count_def
        term_count.equality)
qed

section \<open>Analysed text analyses to itself\<close>

text \<open>The terms of an ASCII text, read byte by byte.\<close>

fun ascii_terms :: "unicode \<Rightarrow> string \<Rightarrow> string \<Rightarrow> string list" where
  "ascii_terms U cur [] = (if cur = '''' then [] else [cur])"
| "ascii_terms U cur (c # cs) =
     (if word_rune U (byte_of c) then ascii_terms U (cur @ [lower_byte c]) cs
      else (if cur = '''' then [] else [cur]) @ ascii_terms U '''' cs)"

lemma is_ascii_Cons [simp]: "is_ascii (c # cs) \<longleftrightarrow> byte_of c < RuneSelf \<and> is_ascii cs"
  by (simp add: is_ascii_def)

lemma is_ascii_Nil [simp]: "is_ascii []"
  by (simp add: is_ascii_def)

lemma is_ascii_append [simp]: "is_ascii (s @ t) \<longleftrightarrow> is_ascii s \<and> is_ascii t"
  by (auto simp: is_ascii_def)

lemma fold_ascii:
  "byte_of c < RuneSelf \<Longrightarrow> EncodeRune (fold_rune U (byte_of c)) = [lower_byte c]"
  by (auto simp: fold_rune_def single_rune_def lower_rune_def lower_byte_def RuneSelf_def
      EncodeRune_def)

lemma ascii_spans:
  assumes "is_ascii s" "scan_state cur start k"
  shows "map sp_Term (spans_from U cur start (pairs (runes_from k s)) n) = ascii_terms U cur s"
  using assms
proof (induction s arbitrary: k cur start)
  case Nil
  then show ?case by (auto simp: pairs_def spans_from_Nil pending_state scan_state_def)
next
  case (Cons c s)
  have p: "pairs (runes_from k (c # s)) = (k, byte_of c) # pairs (runes_from (k + 1) s)"
    using Cons.prems(1) by (simp add: runes_from_Cons pairs_def)
  have asc: "byte_of c < RuneSelf" "is_ascii s" using Cons.prems(1) by simp_all
  have ns: "\<not> single_rune U (byte_of c)" using asc(1) by (simp add: single_rune_def)
  show ?case
  proof (cases U "byte_of c" rule: rune_class)
    case word
    have st: "scan_state (cur @ [lower_byte c]) (if start < 0 then int k else start) (k + 1)"
      using Cons.prems(2) by simp
    from Cons.IH [OF asc(2) st] show ?thesis
      using word by (simp add: p spans_from_word fold_ascii [OF asc(1)])
  next
    case break
    then show ?thesis
      using Cons.IH [OF asc(2), of "''''" "-1" "k + 1"] Cons.prems(2)
      by (auto simp: p spans_from_break pending_state scan_state_def)
  next
    case single
    with ns show ?thesis by simp
  qed
qed

lemma Tokenize_ascii: "is_ascii s \<Longrightarrow> Tokenize U s = ascii_terms U '''' s"
  using ascii_spans [of s "''''" "-1" 0 U "int (length s)"]
  by (simp add: Tokenize_all_spans all_spans_def pairs_range)

definition clean :: "string \<Rightarrow> bool" where
  "clean t \<longleftrightarrow> (\<forall>c \<in> set t. ascii_lower_or_digit (byte_of c))"

lemma clean_byte:
  assumes "ascii_lower_or_digit (byte_of c)"
  shows "word_rune U (byte_of c)" "lower_byte c = c" "byte_of c < RuneSelf"
  using assms
  by (auto simp: word_rune_def ascii_lower_or_digit_def lower_byte_def RuneSelf_def)

lemma clean_lower_byte:
  assumes "word_rune U (byte_of c)" "byte_of c < RuneSelf"
  shows "ascii_lower_or_digit (byte_of (lower_byte c))"
  using assms
  by (auto simp: word_rune_def ascii_lower_or_digit_def ascii_upper_def lower_byte_def)

lemma ascii_terms_clean:
  "is_ascii s \<Longrightarrow> clean cur \<Longrightarrow> t \<in> set (ascii_terms U cur s) \<Longrightarrow> clean t \<and> t \<noteq> ''''"
proof (induction U cur s rule: ascii_terms.induct)
  case (2 U cur c cs)
  have asc: "byte_of c < RuneSelf" "is_ascii cs" using "2.prems"(1) by simp_all
  show ?case
  proof (cases "word_rune U (byte_of c)")
    case True
    have "clean (cur @ [lower_byte c])"
      using "2.prems"(2) clean_lower_byte [OF True asc(1)] by (simp add: clean_def)
    with "2.IH"(1) [OF True asc(2)] "2.prems"(3) True show ?thesis by simp
  next
    case False
    have "clean ''''" by (simp add: clean_def)
    with "2.IH"(2) [OF False asc(2)] "2.prems"(2,3) False show ?thesis
      by (cases "cur = ''''") auto
  qed
qed (simp split: if_splits)

lemma ascii_terms_word: "clean w \<Longrightarrow> ascii_terms U cur (w @ s) = ascii_terms U (cur @ w) s"
  by (induction w arbitrary: cur) (auto simp: clean_def clean_byte)

lemma ascii_terms_space: "ascii_terms U cur (CHR '' '' # s) =
    (if cur = '''' then [] else [cur]) @ ascii_terms U '''' s"
proof -
  have "\<not> word_rune U (byte_of CHR '' '')"
    by (simp add: word_rune_def byte_of_def RuneSelf_def ascii_lower_or_digit_def ascii_upper_def)
  then show ?thesis by simp
qed

lemma Join_clean:
  "(\<And>t. t \<in> set ts \<Longrightarrow> clean t \<and> t \<noteq> '''') \<Longrightarrow>
   ascii_terms U '''' (Join ts '' '') = ts \<and> is_ascii (Join ts '' '')"
proof (induction ts "'' ''" rule: Join.induct)
  case (2 x)
  then show ?case
    using ascii_terms_word [of x U "''''" "''''"]
    by (auto simp: is_ascii_def clean_def clean_byte)
next
  case (3 x y zs)
  then have x: "clean x" "x \<noteq> ''''" by auto
  then have "is_ascii x" by (auto simp: is_ascii_def clean_def clean_byte)
  moreover have "byte_of CHR '' '' < RuneSelf" by (simp add: byte_of_def RuneSelf_def)
  ultimately show ?case
    using 3 ascii_terms_word [OF x(1), of U "''''"] x
    by (simp add: ascii_terms_space del: ascii_terms.simps(2))
qed simp

text \<open>
  A driver that stores \<open>Analyzed\<close> and tokenizes it again gets the document's own terms
  back, in order and with repetitions, for every document whose title and body are ASCII.
\<close>

theorem Tokenize_Analyzed:
  assumes "is_ascii (doc_Title d)" "is_ascii (doc_Body d)"
  shows "Tokenize U (Analyzed U d) = Terms U d"
proof -
  have T: "Terms U d = ascii_terms U '''' (doc_Title d) @ ascii_terms U '''' (doc_Body d)"
    using assms by (simp add: Terms_def Tokenize_ascii)
  have "clean t \<and> t \<noteq> ''''" if "t \<in> set (Terms U d)" for t
    using that ascii_terms_clean [OF assms(1), of "''''" t U]
      ascii_terms_clean [OF assms(2), of "''''" t U]
    by (auto simp: T clean_def)
  from Join_clean [OF this] show ?thesis
    by (simp add: Analyzed_def Tokenize_ascii)
qed

section \<open>Runs\<close>

definition nobody :: person where
  "nobody = \<lparr>pr_Subject = '''', pr_Identity = \<lparr>id_Source = '''', id_Value = ''''\<rparr>,
     pr_Name = '''', pr_Email = ''''\<rparr>"

definition ex_doc :: "string \<Rightarrow> permissions \<Rightarrow> document" where
  "ex_doc i perms =
     \<lparr>doc_ID = i, doc_Tenant = ''acme'', doc_Source = ''gdrive'', doc_Kind = KindPage,
      doc_Title = ''The Runbook'', doc_Body = ''Restart it: see page 2.'', doc_URL = '''',
      doc_Author = nobody, doc_Owner = nobody, doc_Container = ''ops'', doc_CreatedAt = 1,
      doc_ModifiedAt = 2, doc_IndexedAt = 3, doc_SourceUpdate = ''r1'',
      doc_Permissions = perms, doc_Properties = fmempty, doc_Content = None\<rparr>"

theorem Tokenize_Analyzed_witness:
  "Tokenize ascii_table (Analyzed ascii_table (ex_doc ''d1'' (ex_acl [] []))) =
   Terms ascii_table (ex_doc ''d1'' (ex_acl [] []))"
  by (rule Tokenize_Analyzed) (simp_all add: ex_doc_def byte_of_def RuneSelf_def)

end
