(* ===== verification/Store_Request.thy ===== *)
theory Store_Request
  imports Doc_Model
begin

text \<open>
  The match set of \<open>store/retrieve.go\<close>: what a request is, which documents it matches, and
  the requests a facet count is counted over; with the records that cross the storage
  interface in \<open>store/rank.go\<close>, \<open>store/store.go\<close>, \<open>store/access.go\<close>,
  \<open>store/quarantine.go\<close> and \<open>store/maintain.go\<close>.

  A nil slice and an empty one are the same list here; no code of the repository tells them
  apart in a request.
\<close>

section \<open>Folding (store/retrieve.go)\<close>

definition Fold :: "unicode \<Rightarrow> string \<Rightarrow> string" where
  "Fold U s = ToLower U s"

lemma Fold_eq_Nil [simp]: "Fold U s = '''' \<longleftrightarrow> s = ''''"
  by (simp add: Fold_def)

fun fold_keys_loop :: "unicode \<Rightarrow> string list \<Rightarrow> string list \<Rightarrow> string list" where
  "fold_keys_loop U out [] = out"
| "fold_keys_loop U out (c # cs) =
     (if c = '''' then fold_keys_loop U out cs
      else let k = Fold U c
           in if k \<notin> set out then fold_keys_loop U (out @ [k]) cs else fold_keys_loop U out cs)"

definition PersonKeys :: "unicode \<Rightarrow> person \<Rightarrow> string list" where
  "PersonKeys U p =
     (let candidates = [pr_Subject p, pr_Email p, pr_Name p, id_Value (pr_Identity p)];
          candidates = (case Cut_byte (pr_Email p) (CHR ''@'') of
                          Some (local, _) \<Rightarrow> candidates @ [local] | None \<Rightarrow> candidates)
      in fold_keys_loop U [] candidates)"

fun matchesPerson_loop :: "unicode \<Rightarrow> string list \<Rightarrow> string list \<Rightarrow> bool" where
  "matchesPerson_loop U keys [] = False"
| "matchesPerson_loop U keys (v # vs) =
     (if v \<noteq> '''' \<and> Fold U v \<in> set keys then True else matchesPerson_loop U keys vs)"

definition matchesPerson :: "unicode \<Rightarrow> string list \<Rightarrow> person \<Rightarrow> bool" where
  "matchesPerson U values p = matchesPerson_loop U (PersonKeys U p) values"

fun containsFold_loop :: "unicode \<Rightarrow> string list \<Rightarrow> string \<Rightarrow> bool" where
  "containsFold_loop U [] want = False"
| "containsFold_loop U (s # ss) want =
     (if s \<noteq> '''' \<and> Fold U s = want then True else containsFold_loop U ss want)"

definition containsFold :: "unicode \<Rightarrow> string list \<Rightarrow> string \<Rightarrow> bool" where
  "containsFold U haystack needle =
     (if needle = '''' then False else containsFold_loop U haystack (Fold U needle))"

lemma set_fold_keys_loop:
  "set (fold_keys_loop U out cs) = set out \<union> Fold U ` (set cs - {''''})"
  by (induction U out cs rule: fold_keys_loop.induct) (auto simp: Let_def)

lemma distinct_fold_keys_loop: "distinct out \<Longrightarrow> distinct (fold_keys_loop U out cs)"
  by (induction U out cs rule: fold_keys_loop.induct) (auto simp: Let_def)

lemma fold_keys_loop_nonempty:
  "'''' \<notin> set out \<Longrightarrow> '''' \<notin> set (fold_keys_loop U out cs)"
proof -
  assume "'''' \<notin> set out"
  moreover have "'''' \<noteq> Fold U x" if "x \<noteq> ''''" for x
    using that Fold_eq_Nil [of U x] by metis
  ultimately show ?thesis by (auto simp: set_fold_keys_loop)
qed

lemma matchesPerson_iff:
  "matchesPerson U values p \<longleftrightarrow> (\<exists>v \<in> set values. v \<noteq> '''' \<and> Fold U v \<in> set (PersonKeys U p))"
proof -
  have "matchesPerson_loop U keys values \<longleftrightarrow> (\<exists>v \<in> set values. v \<noteq> '''' \<and> Fold U v \<in> set keys)"
    for keys by (induction "values") auto
  then show ?thesis by (simp add: matchesPerson_def)
qed

lemma containsFold_iff:
  "containsFold U haystack needle \<longleftrightarrow>
     needle \<noteq> '''' \<and> (\<exists>s \<in> set haystack. s \<noteq> '''' \<and> Fold U s = Fold U needle)"
proof -
  have "containsFold_loop U haystack f \<longleftrightarrow> (\<exists>s \<in> set haystack. s \<noteq> '''' \<and> Fold U s = f)" for f
    by (induction haystack) auto
  then show ?thesis by (simp add: containsFold_def)
qed

section \<open>Requests\<close>

record request =
  rq_Terms :: "string list"
  rq_Sources :: "string list"
  rq_Kinds :: "doc_kind list"
  rq_Containers :: "string list"
  rq_Authors :: "string list"
  rq_Owners :: "string list"
  rq_Since :: gtime
  rq_Until :: gtime

definition FacetFields :: "string list" where
  "FacetFields = [''source'', ''kind'', ''container'', ''author'']"

definition Constrains :: "request \<Rightarrow> string \<Rightarrow> bool" where
  "Constrains r field =
     (if field = ''source'' then length (rq_Sources r) > 0
      else if field = ''kind'' then length (rq_Kinds r) > 0
      else if field = ''container'' then length (rq_Containers r) > 0
      else if field = ''author'' then length (rq_Authors r) > 0
      else False)"

definition Without :: "request \<Rightarrow> string \<Rightarrow> request" where
  "Without r field =
     (if field = ''source'' then r\<lparr>rq_Sources := []\<rparr>
      else if field = ''kind'' then r\<lparr>rq_Kinds := []\<rparr>
      else if field = ''container'' then r\<lparr>rq_Containers := []\<rparr>
      else if field = ''author'' then r\<lparr>rq_Authors := []\<rparr>
      else r)"

definition WithoutFacets :: "request \<Rightarrow> request" where
  "WithoutFacets r = foldl Without r FacetFields"

definition Empty :: "request \<Rightarrow> bool" where
  "Empty r \<longleftrightarrow>
     length (rq_Terms r) = 0 \<and> length (rq_Sources r) = 0 \<and> length (rq_Kinds r) = 0 \<and>
     length (rq_Containers r) = 0 \<and> length (rq_Authors r) = 0 \<and> length (rq_Owners r) = 0 \<and>
     IsZero (rq_Since r) \<and> IsZero (rq_Until r)"

definition Filters :: "unicode \<Rightarrow> request \<Rightarrow> document \<Rightarrow> bool" where
  "Filters U r d =
     (if length (rq_Sources r) > 0 \<and> doc_Source d \<notin> set (rq_Sources r) then False
      else if length (rq_Kinds r) > 0 \<and> doc_Kind d \<notin> set (rq_Kinds r) then False
      else if length (rq_Containers r) > 0 \<and> \<not> containsFold U (rq_Containers r) (doc_Container d)
      then False
      else if length (rq_Authors r) > 0 \<and> \<not> matchesPerson U (rq_Authors r) (doc_Author d)
      then False
      else if length (rq_Owners r) > 0 \<and> \<not> matchesPerson U (rq_Owners r) (doc_Owner d)
      then False
      else if \<not> IsZero (rq_Since r) \<and> doc_ModifiedAt d < rq_Since r then False
      else if \<not> IsZero (rq_Until r) \<and> rq_Until r < doc_ModifiedAt d then False
      else True)"

definition Passes :: "unicode \<Rightarrow> request \<Rightarrow> string \<Rightarrow> document \<Rightarrow> bool" where
  "Passes U r field d =
     (if field = ''source'' then length (rq_Sources r) = 0 \<or> doc_Source d \<in> set (rq_Sources r)
      else if field = ''kind'' then length (rq_Kinds r) = 0 \<or> doc_Kind d \<in> set (rq_Kinds r)
      else if field = ''container''
      then length (rq_Containers r) = 0 \<or> containsFold U (rq_Containers r) (doc_Container d)
      else if field = ''author''
      then length (rq_Authors r) = 0 \<or> matchesPerson U (rq_Authors r) (doc_Author d)
      else True)"

fun matches_terms_loop :: "string list \<Rightarrow> string list \<Rightarrow> bool" where
  "matches_terms_loop want [] = False"
| "matches_terms_loop want (t # ts) = (if t \<in> set want then True else matches_terms_loop want ts)"

definition MatchesTerms :: "unicode \<Rightarrow> request \<Rightarrow> document \<Rightarrow> bool" where
  "MatchesTerms U r d =
     (if length (rq_Terms r) = 0 then True else matches_terms_loop (rq_Terms r) (Terms U d))"

definition Matches :: "unicode \<Rightarrow> request \<Rightarrow> document \<Rightarrow> bool" where
  "Matches U r d \<longleftrightarrow> Filters U r d \<and> MatchesTerms U r d"

section \<open>What crosses the storage interface\<close>

record stats =
  stats_Documents :: int
  stats_Quarantined :: int

record facet =
  fc_Value :: string
  fc_Count :: int

record reach =
  reach_Sources :: "facet list"
  reach_Kinds :: "facet list"

record held =
  held_ID :: string
  held_Title :: string
  held_Source :: string
  held_Reason :: string
  held_At :: gtime

record item =
  item_ID :: string
  item_Version :: string
  item_Held :: bool

record corpus =
  co_Documents :: int
  co_TitleTokens :: int
  co_BodyTokens :: int
  co_DocFreq :: "(string, int) fmap"

record selection =
  sel_Limit :: int
  sel_Recent :: bool
  sel_Counts :: bool
  sel_Facets :: int

record candidate =
  cd_ID :: string
  cd_ModifiedAt :: gtime
  cd_TitleTokens :: int
  cd_BodyTokens :: int
  cd_Terms :: "(string, term_count) fmap"

record ranked =
  rk_Candidates :: "candidate list"
  rk_Total :: int
  rk_Truncated :: bool
  rk_Facets :: "(string, facet list) fmap"
  rk_Approximate :: bool

definition MaxFacetValues :: int where
  "MaxFacetValues = 50"

section \<open>Lemmas\<close>

lemma set_PersonKeys:
  "set (PersonKeys U p) = Fold U `
     (({pr_Subject p, pr_Email p, pr_Name p, id_Value (pr_Identity p)} \<union>
       {local. \<exists>rest. Cut_byte (pr_Email p) (CHR ''@'') = Some (local, rest)}) - {''''})"
  by (cases "Cut_byte (pr_Email p) (CHR ''@'')")
    (auto simp: PersonKeys_def Let_def set_fold_keys_loop simp del: fold_keys_loop.simps)

lemma PersonKeys_wf: "distinct (PersonKeys U p) \<and> '''' \<notin> set (PersonKeys U p)"
  by (simp add: PersonKeys_def Let_def distinct_fold_keys_loop fold_keys_loop_nonempty)

lemma MatchesTerms_iff:
  "MatchesTerms U r d \<longleftrightarrow> rq_Terms r = [] \<or> set (Terms U d) \<inter> set (rq_Terms r) \<noteq> {}"
proof -
  have "matches_terms_loop want ts \<longleftrightarrow> set ts \<inter> set want \<noteq> {}" for want ts
    by (induction ts) auto
  then show ?thesis by (simp add: MatchesTerms_def)
qed

text \<open>The part of a request no facet belongs to.\<close>

definition unfaceted :: "unicode \<Rightarrow> request \<Rightarrow> document \<Rightarrow> bool" where
  "unfaceted U r d \<longleftrightarrow>
     (rq_Owners r = [] \<or> matchesPerson U (rq_Owners r) (doc_Owner d)) \<and>
     (rq_Since r = 0 \<or> rq_Since r \<le> doc_ModifiedAt d) \<and>
     (rq_Until r = 0 \<or> doc_ModifiedAt d \<le> rq_Until r) \<and> MatchesTerms U r d"

lemma Matches_parts:
  "Matches U r d \<longleftrightarrow> (\<forall>f \<in> set FacetFields. Passes U r f d) \<and> unfaceted U r d"
  by (simp add: Matches_def Filters_def unfaceted_def FacetFields_def Passes_def IsZero_def not_less)

lemma Passes_Without:
  "Passes U (Without r f) g d \<longleftrightarrow> g = f \<or> Passes U r g d" if "f \<in> set FacetFields"
  using that by (auto simp: FacetFields_def Passes_def Without_def)

lemma unfaceted_Without [simp]: "unfaceted U (Without r f) d = unfaceted U r d"
  by (simp add: unfaceted_def Without_def MatchesTerms_def)

lemma Without_unknown: "f \<notin> set FacetFields \<Longrightarrow> Without r f = r"
  by (simp add: FacetFields_def Without_def)

text \<open>
  A facet field is counted over the documents that pass every other constraint: lifting
  one field drops its own test and no other, so the documents that only it had excluded are
  exactly what the lifted request adds.
\<close>

theorem Matches_Without:
  assumes "f \<in> set FacetFields"
  shows "(Matches U (Without r f) d \<longleftrightarrow>
      (\<forall>g \<in> set FacetFields - {f}. Passes U r g d) \<and> unfaceted U r d) \<and>
    (Matches U r d \<longleftrightarrow> Matches U (Without r f) d \<and> Passes U r f d)"
proof -
  have 1: "Matches U (Without r f) d \<longleftrightarrow>
      (\<forall>g \<in> set FacetFields - {f}. Passes U r g d) \<and> unfaceted U r d"
    unfolding Matches_parts by (auto simp: Passes_Without [OF assms])
  moreover have "Matches U r d \<longleftrightarrow> Matches U (Without r f) d \<and> Passes U r f d"
    unfolding 1 unfolding Matches_parts using assms by auto
  ultimately show ?thesis by blast
qed

definition ex_request :: request where
  "ex_request = \<lparr>rq_Terms = [''runbook''], rq_Sources = [''gdrive''], rq_Kinds = [KindPage],
     rq_Containers = [], rq_Authors = [], rq_Owners = [], rq_Since = 0, rq_Until = 0\<rparr>"

theorem Matches_Without_witness:
  "Matches ascii_table ex_request (ex_doc ''d'' (ex_acl [] [])) \<longleftrightarrow>
   Matches ascii_table (Without ex_request ''kind'') (ex_doc ''d'' (ex_acl [] [])) \<and>
   Passes ascii_table ex_request ''kind'' (ex_doc ''d'' (ex_acl [] []))"
proof -
  have "''kind'' \<in> set FacetFields" by (simp add: FacetFields_def)
  from Matches_Without [OF this] show ?thesis by blast
qed

text \<open>
  The widest set, with all four facet constraints lifted, is the documents that pass what
  no facet belongs to, and it constrains no facet field any more.
\<close>

theorem Matches_WithoutFacets:
  "Matches U (WithoutFacets r) d = unfaceted U r d \<and> \<not> Constrains (WithoutFacets r) field"
  by (auto simp: WithoutFacets_def FacetFields_def Without_def Constrains_def Matches_def
      Filters_def unfaceted_def MatchesTerms_def IsZero_def not_less)

text \<open>
  An empty request matches every document, and a request matches a document exactly when
  it passes each facet constraint, the owner, the dates and the terms.
\<close>

theorem Matches_Empty:
  "(Empty r \<longrightarrow> Matches U r d) \<and>
   (Matches U r d \<longleftrightarrow> (\<forall>f \<in> set FacetFields. Passes U r f d) \<and> unfaceted U r d)"
  unfolding Matches_parts
  by (auto simp: Empty_def FacetFields_def Passes_def unfaceted_def MatchesTerms_def IsZero_def)

theorem Matches_Empty_witness:
  "Matches ascii_table (ex_request\<lparr>rq_Terms := [], rq_Sources := [], rq_Kinds := []\<rparr>)
     (ex_doc ''d'' (ex_acl [] []))"
proof -
  have "Empty (ex_request\<lparr>rq_Terms := [], rq_Sources := [], rq_Kinds := []\<rparr>)"
    by (simp add: Empty_def ex_request_def IsZero_def)
  with Matches_Empty show ?thesis by blast
qed

end
