(* ===== verification/Store_Curation.thy ===== *)
theory Store_Curation
  imports Store_Request
begin

text \<open>
  What people say about documents: corrections of ownership (\<open>store/own.go\<close>), verifications
  (\<open>store/verify.go\<close>), reports (\<open>store/report.go\<close>), answers (\<open>store/curate.go\<close>),
  the reading history (\<open>store/open.go\<close>) and the connectors' configurations
  (\<open>store/feed.go\<close>); their records, what each \<open>Check\<close> refuses, who may do what, and the
  keys a driver files them under.
\<close>

section \<open>Ownership\<close>

record correction =
  cor_Doc :: string
  cor_Owner :: person
  cor_Was :: person
  cor_By :: person
  cor_At :: gtime

definition Correction_Zero :: "correction \<Rightarrow> bool" where
  "Correction_Zero c = IsZero (cor_At c)"

definition Correction_Check :: "correction \<Rightarrow> error option" where
  "Correction_Check c =
     (if pr_Name (cor_Owner c) = '''' \<and> pr_Email (cor_Owner c) = '''' \<and> pr_Subject (cor_Owner c) = ''''
      then Some ErrNoOwner
      else if pr_Name (cor_By c) = '''' \<and> pr_Subject (cor_By c) = '''' then Some ErrNoCorrector
      else None)"

section \<open>Verifications\<close>

record verification =
  ver_Doc :: string
  ver_By :: person
  ver_At :: gtime
  ver_Until :: gtime
  ver_Note :: string

datatype vstate = Fresh | Expiring | Expired

definition Cadence :: duration where
  "Cadence = 180 * 24 * Hour"

definition ExpiringWindow :: duration where
  "ExpiringWindow = 14 * 24 * Hour"

definition stateAt :: "gtime \<Rightarrow> gtime \<Rightarrow> vstate" where
  "stateAt until now =
     (if \<not> now < until then Expired
      else if now + ExpiringWindow > until then Expiring
      else Fresh)"

definition Verification_State :: "verification \<Rightarrow> gtime \<Rightarrow> vstate" where
  "Verification_State v now = stateAt (ver_Until v) now"

definition Verification_Zero :: "verification \<Rightarrow> bool" where
  "Verification_Zero v = IsZero (ver_At v)"

definition Verification_Check :: "verification \<Rightarrow> error option" where
  "Verification_Check v =
     (if pr_Name (ver_By v) = '''' \<and> pr_Subject (ver_By v) = '''' then Some ErrNoVerifier
      else if IsZero (ver_Until v) then Some ErrNoExpiry
      else None)"

fun is_person_loop :: "unicode \<Rightarrow> identity list \<Rightarrow> string \<Rightarrow> bool" where
  "is_person_loop U [] email = False"
| "is_person_loop U (i # is) email =
     (if EqualFold U (id_Value i) email then True else is_person_loop U is email)"

definition IsPerson :: "unicode \<Rightarrow> principal option \<Rightarrow> person \<Rightarrow> bool" where
  "IsPerson U p who =
     (case p of
        None \<Rightarrow> False
      | Some q \<Rightarrow>
          if pr_Subject who \<noteq> '''' \<and> pr_Subject who = p_Subject q then True
          else if pr_Email who = '''' then False
          else is_person_loop U (p_Identities q) (pr_Email who))"

definition MayVerify :: "unicode \<Rightarrow> principal option \<Rightarrow> document \<Rightarrow> bool" where
  "MayVerify U p d =
     (if p = None then False
      else if HasRole p RoleAdmin then True
      else IsPerson U p (doc_Owner d) \<or> IsPerson U p (doc_Author d))"

definition MayReassign :: "unicode \<Rightarrow> principal option \<Rightarrow> document \<Rightarrow> bool" where
  "MayReassign U p d = MayVerify U p d"

section \<open>Reports\<close>

record report =
  rep_Doc :: string
  rep_By :: person
  rep_At :: gtime
  rep_Note :: string

definition Report_Zero :: "report \<Rightarrow> bool" where
  "Report_Zero r = IsZero (rep_At r)"

definition Report_Check :: "report \<Rightarrow> error option" where
  "Report_Check r =
     (if pr_Name (rep_By r) = '''' \<and> pr_Subject (rep_By r) = '''' \<and> pr_Email (rep_By r) = ''''
      then Some ErrNoReporter
      else None)"

record staleness =
  stale_Doc :: string
  stale_Count :: int
  stale_Last :: report
  stale_Mine :: bool

definition Staleness_Zero :: "staleness \<Rightarrow> bool" where
  "Staleness_Zero s \<longleftrightarrow> stale_Count s = 0"

record flagged =
  flag_Document :: document
  flag_Stale :: staleness

definition MayResolve :: "unicode \<Rightarrow> principal option \<Rightarrow> document \<Rightarrow> bool" where
  "MayResolve U p d = MayVerify U p d"

definition PrincipalKeys :: "unicode \<Rightarrow> principal option \<Rightarrow> string list" where
  "PrincipalKeys U p =
     (case p of
        None \<Rightarrow> []
      | Some q \<Rightarrow> fold_keys_loop U [] (p_Subject q # map id_Value (p_Identities q)))"

definition ReportKey :: "unicode \<Rightarrow> principal option \<Rightarrow> string" where
  "ReportKey U p =
     (let keys = PrincipalKeys U p in if length keys = 0 then '''' else keys ! 0)"

section \<open>Answers\<close>

record answer =
  ans_ID :: string
  ans_Question :: string
  ans_Variants :: "string list"
  ans_Body :: string
  ans_Sources :: "string list"
  ans_By :: person
  ans_At :: gtime
  ans_Until :: gtime

definition Answer_State :: "answer \<Rightarrow> gtime \<Rightarrow> vstate" where
  "Answer_State a now = stateAt (ans_Until a) now"

definition Answer_Zero :: "answer \<Rightarrow> bool" where
  "Answer_Zero a \<longleftrightarrow> ans_ID a = ''''"

definition AnswerKey :: "unicode \<Rightarrow> string \<Rightarrow> string" where
  "AnswerKey U s = Join (Tokenize U s) '' ''"

definition Answer_Check :: "unicode \<Rightarrow> answer \<Rightarrow> error option" where
  "Answer_Check U a =
     (if ans_ID a = '''' then Some ErrNoAnswerID
      else if AnswerKey U (ans_Question a) = '''' then Some ErrNoQuestion
      else if TrimSpace U (ans_Body a) = '''' then Some ErrNoBody
      else if pr_Name (ans_By a) = '''' \<and> pr_Subject (ans_By a) = '''' \<and> pr_Email (ans_By a) = ''''
      then Some ErrNoAuthor
      else if IsZero (ans_Until a) then Some ErrNoExpiry
      else None)"

fun answer_keys_loop :: "unicode \<Rightarrow> string list \<Rightarrow> string list \<Rightarrow> string list" where
  "answer_keys_loop U out [] = out"
| "answer_keys_loop U out (q # qs) =
     (let k = AnswerKey U q
      in if k = '''' then answer_keys_loop U out qs
         else if k \<notin> set out then answer_keys_loop U (out @ [k]) qs
         else answer_keys_loop U out qs)"

definition Keys :: "unicode \<Rightarrow> answer \<Rightarrow> string list" where
  "Keys U a = answer_keys_loop U [] ([ans_Question a] @ ans_Variants a)"

definition MayCurate :: "principal option \<Rightarrow> bool" where
  "MayCurate p = HasRole p RoleAdmin"

section \<open>Reading history and feeds\<close>

record open_entry =
  open_Document :: document
  open_At :: gtime

definition OpenHistory :: nat where
  "OpenHistory = 200"

record feed =
  fd_Tenant :: string
  fd_Source :: string
  fd_Kind :: string
  fd_Enabled :: bool
  fd_Config :: string
  fd_By :: string
  fd_Created :: gtime
  fd_Updated :: gtime

definition Feed_Check :: "feed \<Rightarrow> error option" where
  "Feed_Check f =
     (if fd_Source f = '''' then Some ErrNoFeedSource
      else if fd_Kind f = '''' then Some ErrNoFeedKind
      else None)"

section \<open>Lemmas\<close>

lemma is_person_loop_iff:
  "is_person_loop U is email \<longleftrightarrow> (\<exists>i \<in> set is. EqualFold U (id_Value i) email)"
  by (induction "is") auto

lemma IsPerson_iff:
  "IsPerson U (Some q) who \<longleftrightarrow>
     (pr_Subject who \<noteq> '''' \<and> pr_Subject who = p_Subject q) \<or>
     (pr_Email who \<noteq> '''' \<and> (\<exists>i \<in> set (p_Identities q). EqualFold U (id_Value i) (pr_Email who)))"
  by (auto simp: IsPerson_def is_person_loop_iff)

text \<open>
  Vouching for a document, correcting its owner and clearing its reports are one right:
  an administrator's, its owner's or its author's, and nobody's who is not asking; a person the
  connector could not name, with neither a subject nor an address, is nobody.
\<close>

theorem MayVerify_iff:
  "(MayVerify U p d \<longleftrightarrow>
     (\<exists>q. p = Some q \<and> (RoleAdmin \<in> set (p_Roles q) \<or>
       (\<exists>who \<in> {doc_Owner d, doc_Author d}.
         (pr_Subject who \<noteq> '''' \<and> pr_Subject who = p_Subject q) \<or>
         (pr_Email who \<noteq> '''' \<and>
           (\<exists>i \<in> set (p_Identities q). EqualFold U (id_Value i) (pr_Email who)))))))
   \<and> MayReassign U p d = MayVerify U p d \<and> MayResolve U p d = MayVerify U p d"
  by (cases p) (auto simp: MayVerify_def HasRole_def IsPerson_iff MayReassign_def MayResolve_def)

lemma ExpiringWindow_pos: "0 < ExpiringWindow"
  by (simp add: ExpiringWindow_def Hour_def)

definition stage :: "vstate \<Rightarrow> nat" where
  "stage s = (case s of Fresh \<Rightarrow> 0 | Expiring \<Rightarrow> 1 | Expired \<Rightarrow> 2)"

lemma stateAt_cases:
  "stateAt until now = Expired \<longleftrightarrow> until \<le> now"
  "stateAt until now = Expiring \<longleftrightarrow> now < until \<and> until < now + ExpiringWindow"
  "stateAt until now = Fresh \<longleftrightarrow> now + ExpiringWindow \<le> until"
  using ExpiringWindow_pos by (auto simp: stateAt_def)

text \<open>
  A claim is fresh until the window before its expiry opens, expiring inside the window
  and expired from the expiry on, and it never goes back: a later look sees a state at least
  as far along. An answer goes through the same three states as a verification.
\<close>

theorem stateAt_life:
  "(Verification_State v now = Expired \<longleftrightarrow> ver_Until v \<le> now) \<and>
   (Verification_State v now = Expiring \<longleftrightarrow>
      now < ver_Until v \<and> ver_Until v < now + ExpiringWindow) \<and>
   (Verification_State v now = Fresh \<longleftrightarrow> now + ExpiringWindow \<le> ver_Until v) \<and>
   stage (Verification_State v now) \<le> stage (Verification_State v (now + int later)) \<and>
   Answer_State (a\<lparr>ans_Until := ver_Until v\<rparr>) now = Verification_State v now"
  by (auto simp: Verification_State_def Answer_State_def stateAt_cases)
    (auto simp: stateAt_def stage_def)

lemma set_answer_keys_loop:
  "set (answer_keys_loop U out qs) = set out \<union> (AnswerKey U ` set qs - {''''})"
  by (induction U out qs rule: answer_keys_loop.induct) (auto simp: Let_def)

lemma distinct_answer_keys_loop: "distinct out \<Longrightarrow> distinct (answer_keys_loop U out qs)"
  by (induction U out qs rule: answer_keys_loop.induct) (auto simp: Let_def)

lemma set_Keys: "set (Keys U a) = AnswerKey U ` (insert (ans_Question a) (set (ans_Variants a))) - {''''}"
  by (simp add: Keys_def set_answer_keys_loop del: answer_keys_loop.simps)

lemma distinct_Keys [simp]: "distinct (Keys U a)"
  by (simp add: Keys_def distinct_answer_keys_loop del: answer_keys_loop.simps)

lemma Check_question_key:
  "Answer_Check U a = None \<Longrightarrow> AnswerKey U (ans_Question a) \<in> set (Keys U a)"
  by (auto simp: set_Keys Answer_Check_def split: if_splits)

lemma set_PrincipalKeys:
  "set (PrincipalKeys U (Some q)) = Fold U ` (insert (p_Subject q) (id_Value ` set (p_Identities q)) - {''''})"
  by (simp add: PrincipalKeys_def set_fold_keys_loop del: fold_keys_loop.simps)

lemma fold_keys_loop_prefix: "\<exists>ys. fold_keys_loop U out cs = out @ ys"
  by (induction U out cs rule: fold_keys_loop.induct) (auto simp: Let_def)

lemma ReportKey_subject:
  assumes "p_Subject q \<noteq> ''''"
  shows "ReportKey U (Some q) = Fold U (p_Subject q)"
proof -
  obtain ys where "PrincipalKeys U (Some q) = [Fold U (p_Subject q)] @ ys"
    using fold_keys_loop_prefix [of U "[Fold U (p_Subject q)]" "map id_Value (p_Identities q)"] assms
    by (auto simp: PrincipalKeys_def)
  then show ?thesis by (simp add: ReportKey_def)
qed

end
