(* ===== verification/Store_Spell.thy ===== *)
theory Store_Spell
  imports Store_Request "HOL-Library.Product_Lexorder"
begin

text \<open>
  \<open>store/spell.go\<close>: the bounded edit distance, with its three reused rows and its early
  exit, and the ranking of correction candidates. The specification is a relation,
  \<open>edit_path\<close>: one string becomes the other by deleting, inserting or replacing runes and by
  swapping neighbours, no rune touched twice. \<open>Edits\<close> is shown to be the least number of such
  steps, cut off one past the bound.
\<close>

section \<open>The program\<close>

definition edits_cell ::
  "rune list \<Rightarrow> rune list \<Rightarrow> nat \<Rightarrow> int list \<Rightarrow> int list \<Rightarrow> int list \<Rightarrow> nat \<Rightarrow> int"
where
  "edits_cell x y j prior prev cur i =
     (let cost = (if x ! (i - 1) = y ! (j - 1) then 0 else 1);
          d = min (prev ! i + 1) (min (cur ! (i - 1) + 1) (prev ! (i - 1) + cost))
      in if i > 1 \<and> j > 1 \<and> x ! (i - 1) = y ! (j - 2) \<and> x ! (i - 2) = y ! (j - 1)
         then min d (prior ! (i - 2) + 1) else d)"

fun edits_row ::
  "rune list \<Rightarrow> rune list \<Rightarrow> nat \<Rightarrow> int list \<Rightarrow> int list \<Rightarrow> nat list \<Rightarrow> int list \<Rightarrow> int \<Rightarrow>
    int list \<times> int"
where
  "edits_row x y j prior prev [] cur best = (cur, best)"
| "edits_row x y j prior prev (i # is) cur best =
     (let d = edits_cell x y j prior prev cur i
      in edits_row x y j prior prev is (cur[i := d]) (min best d))"

fun edits_rows ::
  "rune list \<Rightarrow> rune list \<Rightarrow> int \<Rightarrow> nat list \<Rightarrow> int list \<Rightarrow> int list \<Rightarrow> int list \<Rightarrow> int"
where
  "edits_rows x y bound [] prior prev cur =
     (if prev ! length x > bound then bound + 1 else prev ! length x)"
| "edits_rows x y bound (j # js) prior prev cur =
     (let cur = cur[0 := int j];
          (cur, best) = edits_row x y j prior prev [1..<length x + 1] cur (cur ! 0)
      in if best > bound then bound + 1 else edits_rows x y bound js prev cur prior)"

definition Edits :: "string \<Rightarrow> string \<Rightarrow> int \<Rightarrow> int" where
  "Edits a b bound =
     (if a = b then 0
      else let x = runes a; y = runes b; d = int (length x) - int (length y)
           in if d > bound \<or> - d > bound then bound + 1
              else let (x, y) = (if length x > length y then (y, x) else (x, y));
                       prev = map int [0..<length x + 1];
                       cur = replicate (length x + 1) 0;
                       prior = replicate (length x + 1) 0
                   in edits_rows x y bound [1..<length y + 1] prior prev cur)"

definition MaxEdits :: "string \<Rightarrow> int" where
  "MaxEdits term = (if RuneCount term \<le> 4 then 1 else 2)"

text \<open>
  A candidate with its distance. \<open>Nearest\<close> sorts candidates by a total order, nearest
  first, then the commoner, then the term, which is the type's own order here.
\<close>

datatype scored = Scored (sc_term: string) (sc_docs: int) (sc_dist: int)

definition scored_key :: "scored \<Rightarrow> int \<times> int \<times> string" where
  "scored_key s = (sc_dist s, - sc_docs s, sc_term s)"

lemma scored_key_inject: "scored_key s = scored_key t \<longleftrightarrow> s = t"
  by (auto simp: scored_key_def scored.expand)

instantiation scored :: linorder
begin

definition less_eq_scored :: "scored \<Rightarrow> scored \<Rightarrow> bool" where
  "s \<le> t \<longleftrightarrow> scored_key s \<le> scored_key t"

definition less_scored :: "scored \<Rightarrow> scored \<Rightarrow> bool" where
  "s < t \<longleftrightarrow> scored_key s < scored_key t"

instance
  by standard
    (auto simp: less_eq_scored_def less_scored_def scored_key_inject less_le)

end

fun near_loop :: "string \<Rightarrow> int \<Rightarrow> (string, int) fmap \<Rightarrow> string list \<Rightarrow> scored list" where
  "near_loop term bound candidates [] = []"
| "near_loop term bound candidates (cand # rest) =
     (let docs = (case fmlookup candidates cand of Some n \<Rightarrow> n | None \<Rightarrow> 0);
          d = Edits term cand bound
      in if cand = term \<or> docs \<le> 0 then near_loop term bound candidates rest
         else if d > bound then near_loop term bound candidates rest
         else Scored cand docs d # near_loop term bound candidates rest)"

text \<open>\<open>order\<close> is the order in which Go happens to range over the candidates.\<close>

definition Nearest :: "string \<Rightarrow> (string, int) fmap \<Rightarrow> string list \<Rightarrow> int \<Rightarrow> string list" where
  "Nearest term candidates order limit =
     (if limit \<le> 0 \<or> term = '''' then []
      else map sc_term (take (nat limit) (sort (near_loop term (MaxEdits term) candidates order))))"

section \<open>The specification\<close>

inductive edit_path :: "'a list \<Rightarrow> 'a list \<Rightarrow> nat \<Rightarrow> bool" where
  none: "edit_path [] [] 0"
| keep: "edit_path xs ys n \<Longrightarrow> edit_path (a # xs) (a # ys) n"
| delete: "edit_path xs ys n \<Longrightarrow> edit_path (a # xs) ys (Suc n)"
| insert: "edit_path xs ys n \<Longrightarrow> edit_path xs (b # ys) (Suc n)"
| replace: "edit_path xs ys n \<Longrightarrow> edit_path (a # xs) (b # ys) (Suc n)"
| swap: "edit_path xs ys n \<Longrightarrow> edit_path (a # b # xs) (b # a # ys) (Suc n)"

definition edit_distance :: "'a list \<Rightarrow> 'a list \<Rightarrow> nat" where
  "edit_distance xs ys = (LEAST n. edit_path xs ys n)"

lemma edit_path_append:
  "edit_path xs ys m \<Longrightarrow> edit_path us vs n \<Longrightarrow> edit_path (xs @ us) (ys @ vs) (m + n)"
  by (induction rule: edit_path.induct) (auto intro: edit_path.intros)

lemma edit_path_singles:
  "edit_path [a] [a] 0" "edit_path [a] [] 1" "edit_path [] [b] 1" "edit_path [a] [b] 1"
  "edit_path [a, b] [b, a] 1"
  using edit_path.intros(2-6) [OF edit_path.none] by simp_all

lemma edit_path_rev: "edit_path xs ys n \<Longrightarrow> edit_path (rev xs) (rev ys) n"
proof (induction rule: edit_path.induct)
  case (keep xs ys n a)
  from edit_path_append [OF keep.IH edit_path_singles(1)] show ?case by simp
next
  case (delete xs ys n a)
  from edit_path_append [OF delete.IH edit_path_singles(2)] show ?case by simp
next
  case (insert xs ys n b)
  from edit_path_append [OF insert.IH edit_path_singles(3)] show ?case by simp
next
  case (replace xs ys n a b)
  from edit_path_append [OF replace.IH edit_path_singles(4)] show ?case by simp
next
  case (swap xs ys n a b)
  from edit_path_append [OF swap.IH edit_path_singles(5)] show ?case by simp
qed (simp add: edit_path.none)

lemma edit_path_sym: "edit_path xs ys n \<Longrightarrow> edit_path ys xs n"
  by (induction rule: edit_path.induct) (auto intro: edit_path.intros)

lemma edit_path_length:
  "edit_path xs ys n \<Longrightarrow> length xs \<le> length ys + n \<and> length ys \<le> length xs + n"
  by (induction rule: edit_path.induct) auto

lemma edit_path_all_deleted: "edit_path xs [] (length xs)"
  by (induction xs) (auto intro: edit_path.intros)

lemma edit_path_all_inserted: "edit_path [] ys (length ys)"
  by (induction ys) (auto intro: edit_path.intros)

lemma edit_path_refl: "edit_path xs xs 0"
  by (induction xs) (auto intro: edit_path.intros)

section \<open>The recurrence\<close>

fun osa :: "'a list \<Rightarrow> 'a list \<Rightarrow> int" where
  "osa [] ys = int (length ys)"
| "osa (a # xs) [] = int (length (a # xs))"
| "osa (a # xs) (b # ys) =
     (let d = min (osa xs (b # ys) + 1)
                (min (osa (a # xs) ys + 1) (osa xs ys + (if a = b then 0 else 1)))
      in case xs of [] \<Rightarrow> d | a' # xs' \<Rightarrow>
        (case ys of [] \<Rightarrow> d | b' # ys' \<Rightarrow>
          if a = b' \<and> a' = b then min d (osa xs' ys' + 1) else d))"

declare osa.simps(3) [simp del]

lemma osa_Nil2 [simp]: "osa xs [] = int (length xs)"
  by (cases xs) simp_all

definition osa_plain :: "'a \<Rightarrow> 'a list \<Rightarrow> 'a \<Rightarrow> 'a list \<Rightarrow> int" where
  "osa_plain a xs b ys =
     min (osa xs (b # ys) + 1) (min (osa (a # xs) ys + 1) (osa xs ys + (if a = b then 0 else 1)))"

lemma osa_swapped:
  "osa (a # b # xs) (b # a # ys) = min (osa_plain a (b # xs) b (a # ys)) (osa xs ys + 1)"
  unfolding osa.simps(3) [of a "b # xs" b "a # ys"] Let_def osa_plain_def by simp

lemma osa_not_swapped:
  assumes "\<not> (\<exists>xs' ys'. xs = b # xs' \<and> ys = a # ys')"
  shows "osa (a # xs) (b # ys) = osa_plain a xs b ys"
  using assms unfolding osa.simps(3) [of a xs b ys] Let_def osa_plain_def
  by (auto split: list.split)

lemma osa_le_plain: "osa (a # xs) (b # ys) \<le> osa_plain a xs b ys"
proof (cases "\<exists>xs' ys'. xs = b # xs' \<and> ys = a # ys'")
  case True
  then obtain xs' ys' where "xs = b # xs'" "ys = a # ys'" by blast
  then show ?thesis by (simp add: osa_swapped)
qed (simp add: osa_not_swapped)

lemma osa_delete: "osa (a # xs) ys \<le> osa xs ys + 1"
proof (cases ys)
  case (Cons b ys')
  then show ?thesis using osa_le_plain [of a xs b ys'] by (simp add: osa_plain_def)
qed simp

lemma osa_insert: "osa xs (b # ys) \<le> osa xs ys + 1"
proof (cases xs)
  case (Cons a xs')
  then show ?thesis using osa_le_plain [of a xs' b ys] by (simp add: osa_plain_def)
qed simp

lemma osa_keep: "osa (a # xs) (a # ys) \<le> osa xs ys"
  using osa_le_plain [of a xs a ys] by (simp add: osa_plain_def)

lemma osa_replace: "osa (a # xs) (b # ys) \<le> osa xs ys + 1"
  using osa_le_plain [of a xs b ys] by (simp add: osa_plain_def split: if_splits)

lemma osa_swap: "osa (a # b # xs) (b # a # ys) \<le> osa xs ys + 1"
  by (simp add: osa_swapped)

lemma osa_le_path: "edit_path xs ys n \<Longrightarrow> osa xs ys \<le> int n"
proof (induction rule: edit_path.induct)
  case (keep xs ys n a)
  then show ?case using osa_keep [of a xs ys] by simp
next
  case (delete xs ys n a)
  then show ?case using osa_delete [of a xs ys] by simp
next
  case (insert xs ys n b)
  then show ?case using osa_insert [of xs b ys] by simp
next
  case (replace xs ys n a b)
  then show ?case using osa_replace [of a xs b ys] by simp
next
  case (swap xs ys n a b)
  then show ?case using osa_swap [of a b xs ys] by simp
qed simp

lemma osa_path: "\<exists>n. osa xs ys = int n \<and> edit_path xs ys n"
proof (induction xs ys rule: osa.induct)
  case (1 ys)
  then show ?case using edit_path_all_inserted by auto
next
  case (2 a xs)
  have "osa (a # xs) [] = int (length (a # xs))" by simp
  then show ?case using edit_path_all_deleted by blast
next
  case (3 a xs b ys)
  obtain n1 where n1: "osa xs (b # ys) = int n1" "edit_path xs (b # ys) n1" using 3 by blast
  obtain n2 where n2: "osa (a # xs) ys = int n2" "edit_path (a # xs) ys n2" using 3 by blast
  obtain n3 where n3: "osa xs ys = int n3" "edit_path xs ys n3" using 3 by blast
  have d: "\<exists>n. osa_plain a xs b ys = int n \<and> edit_path (a # xs) (b # ys) n"
  proof -
    consider "osa_plain a xs b ys = int (Suc n1)" | "osa_plain a xs b ys = int (Suc n2)"
      | "a = b" "osa_plain a xs b ys = int n3" | "osa_plain a xs b ys = int (Suc n3)"
      using n1(1) n2(1) n3(1) by (fastforce simp: osa_plain_def min_def split: if_splits)
    then show ?thesis
      using edit_path.delete [OF n1(2), of a] edit_path.insert [OF n2(2), of b]
        edit_path.keep [OF n3(2), of a] edit_path.replace [OF n3(2), of a b]
      by cases blast+
  qed
  show ?case
  proof (cases "\<exists>xs' ys'. xs = b # xs' \<and> ys = a # ys'")
    case True
    then obtain xs' ys' where sw: "xs = b # xs'" "ys = a # ys'" by blast
    have "\<exists>n. osa xs' ys' = int n \<and> edit_path xs' ys' n"
      using 3(4) sw by simp
    then obtain n4 where n4: "osa xs' ys' = int n4" "edit_path xs' ys' n4" by blast
    obtain n where n: "osa_plain a xs b ys = int n" "edit_path (a # xs) (b # ys) n" using d by blast
    have "osa (a # xs) (b # ys) = int (min n (Suc n4))"
      using n(1) n4(1) by (simp add: sw osa_swapped)
    moreover have "edit_path (a # xs) (b # ys) (min n (Suc n4))"
      using n(2) edit_path.swap [OF n4(2), of a b] sw by (simp add: min_def)
    ultimately show ?thesis by blast
  next
    case False
    then show ?thesis using d by (simp add: osa_not_swapped)
  qed
qed

lemma osa_edit_distance: "osa xs ys = int (edit_distance xs ys)"
proof -
  obtain n where n: "osa xs ys = int n" "edit_path xs ys n" using osa_path by blast
  have "edit_distance xs ys = n"
    unfolding edit_distance_def
  proof (rule Least_equality)
    show "edit_path xs ys n" by (rule n(2))
    show "n \<le> m" if "edit_path xs ys m" for m using osa_le_path [OF that] n(1) by simp
  qed
  then show ?thesis using n(1) by simp
qed

lemma edit_distance_rev: "edit_distance (rev xs) (rev ys) = edit_distance xs ys"
proof -
  have "edit_path (rev xs) (rev ys) = edit_path xs ys"
    using edit_path_rev [of xs ys] edit_path_rev [of "rev xs" "rev ys"] by (auto simp: fun_eq_iff)
  then show ?thesis by (simp add: edit_distance_def)
qed

lemma edit_distance_sym: "edit_distance xs ys = edit_distance ys xs"
proof -
  have "edit_path xs ys = edit_path ys xs"
    using edit_path_sym [of xs ys] edit_path_sym [of ys xs] by (auto simp: fun_eq_iff)
  then show ?thesis by (simp add: edit_distance_def)
qed

section \<open>The rows of the matrix\<close>

definition dist_at :: "'a list \<Rightarrow> 'a list \<Rightarrow> nat \<Rightarrow> nat \<Rightarrow> int" where
  "dist_at x y i j = osa (rev (take i x)) (rev (take j y))"

lemma dist_at_0 [simp]: "j \<le> length y \<Longrightarrow> dist_at x y 0 j = int j"
  by (simp add: dist_at_def)

lemma dist_at_0' [simp]: "i \<le> length x \<Longrightarrow> dist_at x y i 0 = int i"
  by (simp add: dist_at_def)

lemma rev_take_Suc: "i < length x \<Longrightarrow> rev (take (Suc i) x) = x ! i # rev (take i x)"
  by (simp add: take_Suc_conv_app_nth)

lemma rev_take_swapped:
  assumes "i < length x" "rev (take i x) = b # xs'"
  shows "0 < i \<and> x ! (i - 1) = b \<and> rev (take (i - 1) x) = xs'"
proof (cases i)
  case (Suc k)
  then show ?thesis using assms rev_take_Suc [of k x] by simp
qed (use assms in simp)

lemma dist_at_Suc:
  assumes "i < length x" "j < length y"
  shows "dist_at x y (Suc i) (Suc j) =
    (let d = min (dist_at x y (Suc i) j + 1)
               (min (dist_at x y i (Suc j) + 1)
                 (dist_at x y i j + (if x ! i = y ! j then 0 else 1)))
     in if 0 < i \<and> 0 < j \<and> x ! i = y ! (j - 1) \<and> x ! (i - 1) = y ! j
        then min d (dist_at x y (i - 1) (j - 1) + 1) else d)"
proof -
  let ?xs = "rev (take i x)" and ?ys = "rev (take j y)" and ?a = "x ! i" and ?b = "y ! j"
  have d: "osa_plain ?a ?xs ?b ?ys = min (dist_at x y (Suc i) j + 1)
      (min (dist_at x y i (Suc j) + 1) (dist_at x y i j + (if x ! i = y ! j then 0 else 1)))"
    by (simp add: osa_plain_def dist_at_def rev_take_Suc assms min.left_commute)
  have lhs: "dist_at x y (Suc i) (Suc j) = osa (?a # ?xs) (?b # ?ys)"
    by (simp add: dist_at_def rev_take_Suc assms)
  show ?thesis
  proof (cases "0 < i \<and> 0 < j \<and> x ! i = y ! (j - 1) \<and> x ! (i - 1) = y ! j")
    case True
    then have "?xs = ?b # rev (take (i - 1) x)" "?ys = ?a # rev (take (j - 1) y)"
      using rev_take_Suc [of "i - 1" x] rev_take_Suc [of "j - 1" y] assms by simp_all
    then have "osa (?a # ?xs) (?b # ?ys) =
        min (osa_plain ?a ?xs ?b ?ys) (dist_at x y (i - 1) (j - 1) + 1)"
      by (simp add: osa_swapped dist_at_def)
    then show ?thesis using True unfolding lhs d by simp
  next
    case False
    then have "\<not> (\<exists>xs' ys'. ?xs = ?b # xs' \<and> ?ys = ?a # ys')"
      using rev_take_swapped [OF assms(1)] rev_take_swapped [OF assms(2)] by metis
    from osa_not_swapped [OF this] show ?thesis using False unfolding lhs d by auto
  qed
qed

definition is_row :: "'a list \<Rightarrow> 'a list \<Rightarrow> nat \<Rightarrow> int list \<Rightarrow> bool" where
  "is_row x y j r \<longleftrightarrow> length r = length x + 1 \<and> (\<forall>i \<le> length x. r ! i = dist_at x y i j)"

lemma edits_cell_correct:
  assumes "1 \<le> i" "i \<le> length x" "1 \<le> j" "j \<le> length y"
    and "is_row x y (j - 1) prev" "1 < j \<Longrightarrow> is_row x y (j - 2) prior"
    and "cur ! (i - 1) = dist_at x y (i - 1) j"
  shows "edits_cell x y j prior prev cur i = dist_at x y i j"
proof -
  obtain i' j' where ij: "i = Suc i'" "j = Suc j'"
    using assms(1,3) by (metis Suc_le_D One_nat_def)
  have lt: "i' < length x" "j' < length y" using assms(2,4) ij by simp_all
  have pr: "prev ! i = dist_at x y i j'" "prev ! i' = dist_at x y i' j'"
    using assms(2,5) ij by (simp_all add: is_row_def)
  have be: "prior ! (i' - 1) = dist_at x y (i' - 1) (j' - 1)" if "0 < j'"
    using assms(2,6) ij that by (simp add: is_row_def numeral_2_eq_2)
  have ix: "i - 2 = i' - 1" "j - 2 = j' - 1" using ij by simp_all
  show ?thesis
    unfolding edits_cell_def ij(1) ij(2) dist_at_Suc [OF lt] Let_def
    using pr be assms(7) ix unfolding ij by (auto simp: numeral_2_eq_2)
qed

lemma edits_row_correct:
  assumes "1 \<le> i" "i \<le> length x + 1" "1 \<le> j" "j \<le> length y"
    and "is_row x y (j - 1) prev" "1 < j \<Longrightarrow> is_row x y (j - 2) prior"
    and "length cur = length x + 1" "\<forall>k < i. cur ! k = dist_at x y k j"
    and "\<forall>k < i. best \<le> dist_at x y k j"
    and "edits_row x y j prior prev [i..<length x + 1] cur best = (cur', best')"
  shows "is_row x y j cur' \<and> (\<forall>k \<le> length x. best' \<le> dist_at x y k j)"
  using assms
proof (induction "length x + 1 - i" arbitrary: i cur best)
  case 0
  then have "i = length x + 1" by simp
  with 0 show ?case by (auto simp: is_row_def less_Suc_eq_le)
next
  case (Suc n)
  then have le: "i \<le> length x" by simp
  then have up: "[i..<length x + 1] = i # [Suc i..<length x + 1]" by (simp add: upt_rec)
  have cell: "edits_cell x y j prior prev cur i = dist_at x y i j"
    using Suc.prems le by (intro edits_cell_correct) auto
  show ?case
  proof (rule Suc.hyps(1) [of "Suc i" "cur[i := dist_at x y i j]" "min best (dist_at x y i j)"])
    show "n = length x + 1 - Suc i" using Suc.hyps(2) by simp
    show "edits_row x y j prior prev [Suc i..<length x + 1] (cur[i := dist_at x y i j])
        (min best (dist_at x y i j)) = (cur', best')"
      using Suc.prems(10) unfolding up by (simp add: cell Let_def)
    show "\<forall>k < Suc i. cur[i := dist_at x y i j] ! k = dist_at x y k j"
    proof -
      have "i < length cur" using Suc.prems(7) le by simp
      then show ?thesis using Suc.prems(8) by (auto simp: nth_list_update less_Suc_eq)
    qed
    show "\<forall>k < Suc i. min best (dist_at x y i j) \<le> dist_at x y k j"
      using Suc.prems(9) by (auto simp: less_Suc_eq min_le_iff_disj)
  qed (use Suc.prems le in simp_all)
qed

text \<open>
  Why the measurement may stop: once a whole row is past a bound, every later row is, also
  where a swap reaches two rows back.
\<close>

lemma dist_at_down: "i \<le> length x \<Longrightarrow> j < length y \<Longrightarrow> dist_at x y i (Suc j) \<le> dist_at x y i j + 1"
  by (simp add: dist_at_def rev_take_Suc osa_insert)

lemma row_past_bound:
  assumes "\<forall>i \<le> length x. k < dist_at x y i j" "1 \<le> j" "j \<le> j'" "j' \<le> length y"
  shows "(\<forall>i \<le> length x. k < dist_at x y i j') \<and> (\<forall>i \<le> length x. k \<le> dist_at x y i (j' - 1))"
  using assms(3,4)
proof (induction j' rule: nat_induct_at_least)
  case base
  have "k \<le> dist_at x y i (j - 1)" if "i \<le> length x" for i
    using assms(1,2) that base dist_at_down [of i x "j - 1" y] by fastforce
  with assms(1) show ?case by blast
next
  case (Suc j')
  then have now: "\<forall>i \<le> length x. k < dist_at x y i j'"
      and bef: "\<forall>i \<le> length x. k \<le> dist_at x y i (j' - 1)" by simp_all
  have "k < dist_at x y i (Suc j')" if "i \<le> length x" for i
    using that
  proof (induction i)
    case 0
    then show ?case using now [rule_format, of 0] Suc.prems by simp
  next
    case (Suc i)
    then have "k < dist_at x y i (Suc j')" "k < dist_at x y (Suc i) j'" "k < dist_at x y i j'"
        "k \<le> dist_at x y (i - 1) (j' - 1)"
      using now bef by simp_all
    then show ?case
      using Suc.prems \<open>Suc j' \<le> length y\<close> by (simp add: dist_at_Suc Let_def)
  qed
  with now show ?case by (auto intro: less_imp_le)
qed

lemma edits_rows_correct:
  assumes "1 \<le> j" "j \<le> length y + 1"
    and "is_row x y (j - 1) prev" "1 < j \<Longrightarrow> is_row x y (j - 2) prior"
    and "length prior = length x + 1" "length cur = length x + 1"
  shows "edits_rows x y bound [j..<length y + 1] prior prev cur =
    min (dist_at x y (length x) (length y)) (bound + 1)"
  using assms
proof (induction "length y + 1 - j" arbitrary: j prior prev cur)
  case 0
  then have "j = length y + 1" by simp
  with 0 show ?case by (auto simp: is_row_def)
next
  case (Suc n)
  then have le: "j \<le> length y" by simp
  then have up: "[j..<length y + 1] = j # [Suc j..<length y + 1]" by (simp add: upt_rec)
  let ?cur = "cur[0 := int j]"
  obtain cur' best where row: "edits_row x y j prior prev [1..<length x + 1] ?cur (?cur ! 0) = (cur', best)"
    by fastforce
  have R: "is_row x y j cur' \<and> (\<forall>k \<le> length x. best \<le> dist_at x y k j)"
  proof (rule edits_row_correct [OF _ _ _ le Suc.prems(3,4) _ _ _ row])
    show "length ?cur = length x + 1" using Suc.prems(6) by simp
    show "\<forall>k < 1. ?cur ! k = dist_at x y k j" "\<forall>k < 1. ?cur ! 0 \<le> dist_at x y k j"
      using Suc.prems(6) le by (cases cur, simp_all)+
  qed (use Suc.prems in simp_all)
  show ?case
  proof (cases "best > bound")
    case True
    then have "\<forall>i \<le> length x. bound < dist_at x y i j" using R by fastforce
    from row_past_bound [OF this Suc.prems(1) le] have "bound < dist_at x y (length x) (length y)" by simp
    then show ?thesis using True row unfolding up by simp
  next
    case False
    have "edits_rows x y bound [Suc j..<length y + 1] prev cur' prior =
        min (dist_at x y (length x) (length y)) (bound + 1)"
    proof (rule Suc.hyps(1))
      show "n = length y + 1 - Suc j" using Suc.hyps(2) by simp
      show "1 < Suc j \<Longrightarrow> is_row x y (Suc j - 2) prev"
        using Suc.prems(3) by (simp add: numeral_2_eq_2)
      show "length prev = length x + 1" using Suc.prems(3) by (simp add: is_row_def)
    qed (use R le Suc.prems(5) in simp_all)
    then show ?thesis using False row unfolding up by simp
  qed
qed

section \<open>The distance and the ranking\<close>

lemma edit_distance_refl: "edit_distance xs xs = 0"
  unfolding edit_distance_def using edit_path_refl by (rule Least_eq_0)

lemma edit_distance_length:
  "int (length xs) - int (length ys) \<le> int (edit_distance xs ys)"
proof -
  obtain n where "edit_path xs ys n" using osa_path by blast
  then have "edit_path xs ys (edit_distance xs ys)"
    unfolding edit_distance_def by (rule LeastI)
  from edit_path_length [OF this] show ?thesis by linarith
qed

lemma edits_matrix:
  "edits_rows x y bound [1..<length y + 1] (replicate (length x + 1) 0) (map int [0..<length x + 1])
     (replicate (length x + 1) 0) = min (int (edit_distance x y)) (bound + 1)"
proof -
  have "is_row x y (1 - 1) (map int [0..<length x + 1])"
    unfolding is_row_def by (auto simp: nth_append simp del: upt_Suc)
  then have "edits_rows x y bound [1..<length y + 1] (replicate (length x + 1) 0)
      (map int [0..<length x + 1]) (replicate (length x + 1) 0) =
      min (dist_at x y (length x) (length y)) (bound + 1)"
    by (intro edits_rows_correct) simp_all
  also have "dist_at x y (length x) (length y) = int (edit_distance x y)"
    by (simp add: dist_at_def osa_edit_distance edit_distance_rev)
  finally show ?thesis .
qed

lemma Edits_bounded:
  assumes "0 \<le> bound"
  shows "Edits a b bound = min (int (edit_distance (runes a) (runes b))) (bound + 1)"
proof (cases "a = b")
  case True
  then show ?thesis using assms by (simp add: Edits_def edit_distance_refl)
next
  case False
  let ?x = "runes a" and ?y = "runes b"
  let ?d = "int (length ?x) - int (length ?y)"
  show ?thesis
  proof (cases "?d > bound \<or> - ?d > bound")
    case True
    then have "bound + 1 \<le> int (edit_distance ?x ?y)"
      using edit_distance_length [of ?x ?y] edit_distance_length [of ?y ?x]
      by (auto simp: edit_distance_sym [of ?y ?x])
    with True False show ?thesis by (simp add: Edits_def Let_def)
  next
    case near: False
    show ?thesis
    proof (cases "length ?x > length ?y")
      case True
      then have "Edits a b bound = edits_rows ?y ?x bound [1..<length ?x + 1]
          (replicate (length ?y + 1) 0) (map int [0..<length ?y + 1]) (replicate (length ?y + 1) 0)"
        using False near by (simp only: Edits_def Let_def if_True if_False prod.case)
      then show ?thesis by (simp only: edits_matrix edit_distance_sym [of ?y ?x])
    next
      case short: False
      then have "Edits a b bound = edits_rows ?x ?y bound [1..<length ?y + 1]
          (replicate (length ?x + 1) 0) (map int [0..<length ?x + 1]) (replicate (length ?x + 1) 0)"
        using False near by (simp only: Edits_def Let_def if_False prod.case)
      then show ?thesis by (simp only: edits_matrix)
    qed
  qed
qed



definition near_set :: "string \<Rightarrow> (string, int) fmap \<Rightarrow> scored set" where
  "near_set term candidates =
     {Scored c n d |c n d. fmlookup candidates c = Some n \<and> 0 < n \<and> c \<noteq> term \<and>
       d = int (edit_distance (runes term) (runes c)) \<and> d \<le> MaxEdits term}"

lemma MaxEdits_pos: "0 \<le> MaxEdits term"
  by (simp add: MaxEdits_def)

lemma set_near_loop:
  "set (near_loop term bound candidates order) =
     {Scored c n d |c n d. c \<in> set order \<and> fmlookup candidates c = Some n \<and> 0 < n \<and> c \<noteq> term \<and>
       d = Edits term c bound \<and> d \<le> bound}"
  by (induction order) (auto simp: Let_def not_le not_less split: option.splits if_splits)

lemma distinct_near_loop: "distinct order \<Longrightarrow> distinct (near_loop term bound candidates order)"
  by (induction order) (auto simp: Let_def set_near_loop)

lemma Edits_within:
  "d = Edits term c (MaxEdits term) \<and> d \<le> MaxEdits term \<longleftrightarrow>
   d = int (edit_distance (runes term) (runes c)) \<and> d \<le> MaxEdits term"
  by (auto simp: Edits_bounded [OF MaxEdits_pos] min_def)

lemma near_set_loop:
  assumes "set order = fset (fmdom candidates)"
  shows "set (near_loop term (MaxEdits term) candidates order) = near_set term candidates"
  unfolding set_near_loop near_set_def Edits_within
  using assms by (auto simp: fmlookup_dom_iff intro: fmdomI)

text \<open>
  The corrections offered for a term are the first \<open>limit\<close> of all the candidates some
  document carries that lie within the term's bound, ordered by distance, then by how many
  documents carry them, then by name. The order Go ranges over the map in does not matter,
  the term itself is never among them, and no nearer candidate is left out for a further one.
\<close>

theorem Nearest_ranked:
  assumes "distinct order" and "set order = fset (fmdom candidates)"
    and "0 < limit" and "term \<noteq> ''''"
  shows "Nearest term candidates order limit =
    map sc_term (take (nat limit) (sorted_list_of_set (near_set term candidates)))"
proof -
  have "sort (near_loop term (MaxEdits term) candidates order) =
      sorted_list_of_set (near_set term candidates)"
    by (simp add: sorted_list_of_set_sort_remdups distinct_remdups_id
        distinct_near_loop [OF assms(1)] flip: near_set_loop [OF assms(2)])
  then show ?thesis using assms(3,4) by (simp add: Nearest_def)
qed

definition ex_candidates :: "(string, int) fmap" where
  "ex_candidates = fmap_of_list [(''the'', 40), (''ten'', 3), (''restart'', 9)]"

theorem Nearest_ranked_witness:
  "Nearest ''teh'' ex_candidates [''ten'', ''the'', ''restart''] 5 =
   map sc_term (take 5 (sorted_list_of_set (near_set ''teh'' ex_candidates)))"
proof -
  have "Nearest ''teh'' ex_candidates [''ten'', ''the'', ''restart''] 5 =
      map sc_term (take (nat 5) (sorted_list_of_set (near_set ''teh'' ex_candidates)))"
    by (rule Nearest_ranked) (auto simp: ex_candidates_def)
  then show ?thesis by simp
qed

end
