(* ===== verification/Store_Notify.thy ===== *)
theory Store_Notify
  imports Store_Request
begin

text \<open>
  \<open>store/notify.go\<close>: the subscriber list a driver embeds and what a committed write tells
  it. A subscriber is an element of any type, so that a delivery, a call of a subscriber with
  a change, is a pair; the order Go ranges over a map in is a parameter. The mutex is not
  modelled: each operation is one atomic step.
\<close>

record change =
  chg_Tenant :: string
  chg_IDs :: "string list"
  chg_Deleted :: bool

record 'f notify =
  nt_next :: "64 word"
  nt_fns :: "(64 word, 'f) fmap"

definition new_notify :: "'f notify" where
  "new_notify = \<lparr>nt_next = 0, nt_fns = fmempty\<rparr>"

text \<open>The stop function \<open>OnChange\<close> returns is the id it will delete, none for a nil \<open>fn\<close>.\<close>

definition OnChange :: "'f notify \<Rightarrow> 'f option \<Rightarrow> 'f notify \<times> 64 word option" where
  "OnChange n fn =
     (case fn of
        None \<Rightarrow> (n, None)
      | Some f \<Rightarrow>
          let i = nt_next n
          in (n\<lparr>nt_next := i + 1, nt_fns := fmupd i f (nt_fns n)\<rparr>, Some i))"

definition Stop :: "'f notify \<Rightarrow> 64 word option \<Rightarrow> 'f notify" where
  "Stop n stop = (case stop of None \<Rightarrow> n | Some i \<Rightarrow> n\<lparr>nt_fns := fmdrop i (nt_fns n)\<rparr>)"

definition Changed :: "'f notify \<Rightarrow> 64 word list \<Rightarrow> change \<Rightarrow> ('f \<times> change) list" where
  "Changed n order c =
     (if chg_Tenant c = '''' \<and> length (chg_IDs c) = 0 then []
      else map (\<lambda>i. (the (fmlookup (nt_fns n) i), c)) order)"

definition Changes ::
  "'f notify \<Rightarrow> 64 word list \<Rightarrow> (string, string list) fmap \<Rightarrow> string list \<Rightarrow> bool \<Rightarrow>
    ('f \<times> change) list"
where
  "Changes n order byTenant tenants deleted =
     concat (map (\<lambda>t. Changed n order
         \<lparr>chg_Tenant = t, chg_IDs = the (fmlookup byTenant t), chg_Deleted = deleted\<rparr>) tenants)"

text \<open>
  What a driver hands over: one change per tenant, listed by tenant. \<open>batch_append\<close> is the
  statement \<open>m[tenant] = append(m[tenant], id)\<close> both of its loops are made of.
\<close>

definition batch_append :: "(string, string list) fmap \<Rightarrow> string \<Rightarrow> string \<Rightarrow> (string, string list) fmap" where
  "batch_append m tenant i =
     fmupd tenant ((case fmlookup m tenant of None \<Rightarrow> [] | Some is \<Rightarrow> is) @ [i]) m"

definition changes_of :: "(string, string list) fmap \<Rightarrow> bool \<Rightarrow> change list" where
  "changes_of byTenant deleted =
     map (\<lambda>t. \<lparr>chg_Tenant = t, chg_IDs = the (fmlookup byTenant t), chg_Deleted = deleted\<rparr>)
       (sorted_list_of_set (fset (fmdom byTenant)))"

definition ids_of :: "(string, string list) fmap \<Rightarrow> string \<Rightarrow> string list" where
  "ids_of m t = (case fmlookup m t of None \<Rightarrow> [] | Some is \<Rightarrow> is)"

lemma ids_of_batch_append [simp]:
  "ids_of (batch_append m t i) t' = (if t' = t then ids_of m t @ [i] else ids_of m t')"
  by (simp add: ids_of_def batch_append_def)

lemma ids_of_empty [simp]: "ids_of fmempty t = []"
  by (simp add: ids_of_def)

lemma foldl_batch_append:
  "ids_of (foldl (\<lambda>m x. batch_append m (f x) (g x)) m xs) t =
     ids_of m t @ map g (filter (\<lambda>x. f x = t) xs)"
  by (induction xs arbitrary: m) auto

definition no_empty_group :: "(string, string list) fmap \<Rightarrow> bool" where
  "no_empty_group m \<longleftrightarrow> (\<forall>t is. fmlookup m t = Some is \<longrightarrow> is \<noteq> [])"

lemma no_empty_group_simps [simp]:
  "no_empty_group fmempty" "no_empty_group m \<Longrightarrow> no_empty_group (batch_append m t i)"
  by (auto simp: no_empty_group_def batch_append_def)

lemma set_changes_of:
  assumes "no_empty_group m"
  shows "c \<in> set (changes_of m deleted) \<longleftrightarrow>
    chg_Deleted c = deleted \<and> chg_IDs c = ids_of m (chg_Tenant c) \<and> chg_IDs c \<noteq> []"
proof -
  have "c \<in> set (changes_of m deleted) \<longleftrightarrow>
      (\<exists>is. fmlookup m (chg_Tenant c) = Some is \<and> chg_IDs c = is \<and> chg_Deleted c = deleted)"
    by (cases c) (auto simp: changes_of_def image_iff dest: fmdomI elim: fmdomE)
  then show ?thesis
    using assms by (auto simp: ids_of_def no_empty_group_def split: option.split)
qed

text \<open>
  Every subscriber hears of every tenant's part of a batch, once, and nobody hears of a batch
  with nothing in it.
\<close>

lemma mset_concat_map: "mset (concat (map f xs)) = (\<Sum>x \<in># mset xs. mset (f x))"
  by (induction xs) simp_all

lemma Changes_deliveries:
  assumes "distinct order" "set order = fset (fmdom (nt_fns n))"
    and "distinct tenants" "set tenants = fset (fmdom m)" "no_empty_group m"
  shows "mset (Changes n order m tenants deleted) =
    mset (concat (map (\<lambda>c. map (\<lambda>i. (the (fmlookup (nt_fns n) i), c))
      (sorted_list_of_set (fset (fmdom (nt_fns n))))) (changes_of m deleted)))"
proof -
  let ?ts = "sorted_list_of_set (fset (fmdom m))" and ?is = "sorted_list_of_set (fset (fmdom (nt_fns n)))"
  let ?c = "\<lambda>t. \<lparr>chg_Tenant = t, chg_IDs = the (fmlookup m t), chg_Deleted = deleted\<rparr>"
  have ts: "mset tenants = mset ?ts" and os: "mset order = mset ?is"
    using assms(1-4) by (simp_all add: set_eq_iff_mset_eq_distinct [symmetric])
  have ne: "Changed n order (?c t) = map (\<lambda>i. (the (fmlookup (nt_fns n) i), ?c t)) order"
    if "t \<in># mset tenants" for t
    using that assms(4,5) by (auto simp: Changed_def no_empty_group_def elim!: fmdomE)
  have "mset (Changes n order m tenants deleted) =
      (\<Sum>t \<in># mset tenants. mset (map (\<lambda>i. (the (fmlookup (nt_fns n) i), ?c t)) order))"
    unfolding Changes_def mset_concat_map by (intro arg_cong [where f = sum_mset] image_mset_cong) (simp add: ne)
  also have "\<dots> = (\<Sum>t \<in># mset ?ts. mset (map (\<lambda>i. (the (fmlookup (nt_fns n) i), ?c t)) ?is))"
    unfolding ts mset_map os ..
  finally show ?thesis
    by (simp add: changes_of_def mset_concat_map multiset.map_comp comp_def)
qed

text \<open>
  A registration undone leaves the subscribers as they were, as long as the counter has not
  come round: the next id is above every id in use.
\<close>

definition notify_ok :: "'f notify \<Rightarrow> bool" where
  "notify_ok n \<longleftrightarrow> (\<forall>i. i |\<in>| fmdom (nt_fns n) \<longrightarrow> i < nt_next n)"

lemma notify_ok_steps:
  "notify_ok new_notify"
  "notify_ok n \<Longrightarrow> nt_next n \<noteq> - 1 \<Longrightarrow> notify_ok (fst (OnChange n fn))"
  "notify_ok n \<Longrightarrow> notify_ok (Stop n stop)"
proof -
  show "notify_ok new_notify" by (simp add: notify_ok_def new_notify_def)
  assume ok: "notify_ok n"
  then show "notify_ok (Stop n stop)"
    by (simp add: notify_ok_def Stop_def split: option.split)
  assume "nt_next n \<noteq> - 1"
  then have "nt_next n < nt_next n + 1"
    by (metis add.commute unatSuc word_less_nat_alt lessI add_eq_0_iff)
  then show "notify_ok (fst (OnChange n fn))"
    using ok by (auto simp: notify_ok_def OnChange_def Let_def split: option.split)
qed

lemma OnChange_Stop:
  assumes "notify_ok n"
  shows "nt_fns (Stop (fst (OnChange n fn)) (snd (OnChange n fn))) = nt_fns n"
proof (cases fn)
  case (Some f)
  have "nt_next n |\<notin>| fmdom (nt_fns n)" using assms by (auto simp: notify_ok_def)
  then have "fmdrop (nt_next n) (fmupd (nt_next n) f (nt_fns n)) = nt_fns n"
    by (intro fmap_ext) (auto simp: fmdom_notD)
  then show ?thesis by (simp add: Some OnChange_def Stop_def Let_def)
qed (simp add: OnChange_def Stop_def)

end
