(* ===== verification/Memstore.thy ===== *)
theory Memstore
  imports Store_Curation Store_Spell Store_Notify
begin

text \<open>
  \<open>store/memstore/\<close>: the reference driver, every operation of it. The state is the driver's
  struct without its mutex and its embedded broadcaster: an operation holds the lock for its
  whole body, so it is one function from the state to an answer and a state, and the changes it
  hands to the broadcaster after the lock is back are a list in its result.

  \<open>ctx\<close> is what \<open>ctx.Err()\<close> answers, \<open>p\<close> the principal, none for nil. Go's maps are
  finite maps. A loop whose result depends on the order a map is ranged over takes that order
  as an argument (\<open>Quarantined\<close>, \<open>Inventory\<close>, \<open>SetPermissions\<close>, and the reports on one
  document through \<open>ord\<close>); a loop that tallies, or whose caller is promised no order, runs
  over the keys in increasing order. \<open>now\<close> is the clock.
\<close>

section \<open>State\<close>

record opened =
  op_ids :: "string list"
  op_at :: "(string, gtime) fmap"

record memstore =
  st_docs :: "(string, document) fmap"
  st_content :: "(string, content) fmap"
  st_opens :: "(string \<times> string, opened) fmap"
  st_verified :: "(string, verification) fmap"
  st_owners :: "(string, correction) fmap"
  st_reports :: "(string, (string, report) fmap) fmap"
  st_answers :: "(string \<times> string, answer) fmap"
  st_phrasings :: "(string \<times> string, string) fmap"
  st_feeds :: "(string \<times> string, feed) fmap"
  st_closed :: bool

definition New :: memstore where
  "New =
     \<lparr>st_docs = fmempty, st_content = fmempty, st_opens = fmempty, st_verified = fmempty,
      st_owners = fmempty, st_reports = fmempty, st_answers = fmempty, st_phrasings = fmempty,
      st_feeds = fmempty, st_closed = False\<rparr>"

definition visible :: "unicode \<Rightarrow> principal \<Rightarrow> document \<Rightarrow> bool" where
  "visible U p d =
     (if \<not> Queryable d \<or> doc_Tenant d \<noteq> p_Tenant p then False
      else Allows U (doc_Permissions d) (Some p))"

section \<open>Writing documents (memstore.go, own.go)\<close>

definition correct :: "memstore \<Rightarrow> document \<Rightarrow> memstore \<times> document" where
  "correct s d =
     (case fmlookup (st_owners s) (doc_ID d) of
        None \<Rightarrow> (s, d)
      | Some c \<Rightarrow>
          let c = c\<lparr>cor_Was := doc_Owner d\<rparr>
          in (s\<lparr>st_owners := fmupd (doc_ID d) c (st_owners s)\<rparr>, d\<lparr>doc_Owner := cor_Owner c\<rparr>))"

definition put_one :: "memstore \<Rightarrow> document \<Rightarrow> memstore" where
  "put_one s d =
     (let s = (case doc_Content d of
                 Some c \<Rightarrow> s\<lparr>st_content := fmupd (doc_ID d) c (st_content s)\<rparr>
               | None \<Rightarrow> s\<lparr>st_content := fmdrop (doc_ID d) (st_content s)\<rparr>);
          d = d\<lparr>doc_Content := None\<rparr>;
          (s, d') = correct s d
      in s\<lparr>st_docs := fmupd (doc_ID d) d' (st_docs s)\<rparr>)"

fun put_loop ::
  "memstore \<Rightarrow> (string, string list) fmap \<Rightarrow> document list \<Rightarrow>
    (string, string list) fmap res \<times> memstore"
where
  "put_loop s written [] = (Inr written, s)"
| "put_loop s written (d # ds) =
     (if doc_ID d = '''' then (Inl ErrNoID, s)
      else put_loop (put_one s d) (batch_append written (doc_Tenant d) (doc_ID d)) ds)"

definition put ::
  "memstore \<Rightarrow> document list \<Rightarrow> (string, string list) fmap res \<times> memstore" where
  "put s docs = (if st_closed s then (Inl ErrClosed, s) else put_loop s fmempty docs)"

definition Put ::
  "ctx \<Rightarrow> document list \<Rightarrow> memstore \<Rightarrow> error option \<times> change list \<times> memstore" where
  "Put ctx docs s =
     (case ctx of
        Some e \<Rightarrow> (Some e, [], s)
      | None \<Rightarrow>
          (case put s docs of
             (Inl e, s') \<Rightarrow> (Some e, [], s')
           | (Inr written, s') \<Rightarrow> (None, changes_of written False, s')))"

definition remove_one :: "memstore \<Rightarrow> string \<Rightarrow> memstore" where
  "remove_one s i =
     s\<lparr>st_docs := fmdrop i (st_docs s), st_content := fmdrop i (st_content s),
       st_verified := fmdrop i (st_verified s), st_owners := fmdrop i (st_owners s),
       st_reports := fmdrop i (st_reports s)\<rparr>"

fun remove_loop ::
  "memstore \<Rightarrow> (string, string list) fmap \<Rightarrow> string list \<Rightarrow>
    (string, string list) fmap \<times> memstore"
where
  "remove_loop s removed [] = (removed, s)"
| "remove_loop s removed (i # is) =
     (let removed = (case fmlookup (st_docs s) i of
                       Some d \<Rightarrow> batch_append removed (doc_Tenant d) i | None \<Rightarrow> removed)
      in remove_loop (remove_one s i) removed is)"

definition remove ::
  "memstore \<Rightarrow> string list \<Rightarrow> (string, string list) fmap res \<times> memstore" where
  "remove s ids =
     (if st_closed s then (Inl ErrClosed, s)
      else let (removed, s') = remove_loop s fmempty ids in (Inr removed, s'))"

definition Delete ::
  "ctx \<Rightarrow> string list \<Rightarrow> memstore \<Rightarrow> error option \<times> change list \<times> memstore" where
  "Delete ctx ids s =
     (case ctx of
        Some e \<Rightarrow> (Some e, [], s)
      | None \<Rightarrow>
          (case remove s ids of
             (Inl e, s') \<Rightarrow> (Some e, [], s')
           | (Inr removed, s') \<Rightarrow> (None, changes_of removed True, s')))"

definition Close :: "memstore \<Rightarrow> memstore" where
  "Close s = s\<lparr>st_closed := True, st_docs := fmempty, st_content := fmempty\<rparr>"

section \<open>Reading documents (memstore.go)\<close>

definition Get :: "unicode \<Rightarrow> ctx \<Rightarrow> principal option \<Rightarrow> string \<Rightarrow> memstore \<Rightarrow> document res" where
  "Get U ctx p i s =
     (case ctx of Some e \<Rightarrow> Inl e | None \<Rightarrow>
      (case p of None \<Rightarrow> Inl ErrNoPrincipal | Some q \<Rightarrow>
       if st_closed s then Inl ErrClosed
       else (case fmlookup (st_docs s) i of
               None \<Rightarrow> Inl ErrNotFound
             | Some d \<Rightarrow> if \<not> visible U q d then Inl ErrNotFound else Inr d)))"

definition Scan ::
  "unicode \<Rightarrow> ctx \<Rightarrow> principal option \<Rightarrow> (document \<Rightarrow> 's \<Rightarrow> bool \<times> 's) \<Rightarrow> 's \<Rightarrow> memstore \<Rightarrow>
    error option \<times> 's"
where
  "Scan U ctx p fn st s =
     (case ctx of Some e \<Rightarrow> (Some e, st) | None \<Rightarrow>
      (case p of None \<Rightarrow> (Some ErrNoPrincipal, st) | Some q \<Rightarrow>
       if st_closed s then (Some ErrClosed, st)
       else (None, snd (yield_all
         (\<lambda>i st. let d = the (fmlookup (st_docs s) i)
                  in if \<not> visible U q d then (True, st) else fn d st)
         (map_keys (st_docs s)) st))))"

definition Content :: "unicode \<Rightarrow> ctx \<Rightarrow> principal option \<Rightarrow> string \<Rightarrow> memstore \<Rightarrow> content res" where
  "Content U ctx p i s =
     (case ctx of Some e \<Rightarrow> Inl e | None \<Rightarrow>
      (case p of None \<Rightarrow> Inl ErrNoPrincipal | Some q \<Rightarrow>
       if st_closed s then Inl ErrClosed
       else (case fmlookup (st_docs s) i of
               None \<Rightarrow> Inl ErrNotFound
             | Some d \<Rightarrow>
                 if \<not> visible U q d then Inl ErrNotFound
                 else (case fmlookup (st_content s) i of
                         None \<Rightarrow> Inl ErrNotFound | Some c \<Rightarrow> Inr c))))"

definition tally :: "(string, int) fmap \<Rightarrow> string \<Rightarrow> (string, int) fmap" where
  "tally m k = fmupd k ((case fmlookup m k of None \<Rightarrow> 0 | Some n \<Rightarrow> n) + 1) m"

definition statistics_one :: "unicode \<Rightarrow> string list \<Rightarrow> corpus \<Rightarrow> document \<Rightarrow> corpus" where
  "statistics_one U terms c d =
     (let a = Analyze U d
      in c\<lparr>co_Documents := co_Documents c + 1,
           co_TitleTokens := co_TitleTokens c + an_TitleTokens a,
           co_BodyTokens := co_BodyTokens c + an_BodyTokens a,
           co_DocFreq := foldl (\<lambda>m t. if t \<in> set terms then tally m t else m) (co_DocFreq c)
             (map_keys (an_Terms a))\<rparr>)"

definition Statistics ::
  "unicode \<Rightarrow> ctx \<Rightarrow> principal option \<Rightarrow> string list \<Rightarrow> memstore \<Rightarrow> corpus res" where
  "Statistics U ctx p terms s =
     (case ctx of Some e \<Rightarrow> Inl e | None \<Rightarrow>
      (case p of None \<Rightarrow> Inl ErrNoPrincipal | Some q \<Rightarrow>
       if st_closed s then Inl ErrClosed
       else Inr (foldl
         (\<lambda>c i. let d = the (fmlookup (st_docs s) i)
                 in if \<not> Queryable d \<or> doc_Tenant d \<noteq> p_Tenant q then c
                    else statistics_one U terms c d)
         \<lparr>co_Documents = 0, co_TitleTokens = 0, co_BodyTokens = 0, co_DocFreq = fmempty\<rparr>
         (map_keys (st_docs s)))))"

definition near_one :: "unicode \<Rightarrow> string \<Rightarrow> (string, int) fmap \<Rightarrow> document \<Rightarrow> (string, int) fmap" where
  "near_one U term docs d =
     (let bound = MaxEdits term; typed = int (RuneCount term)
      in foldl (\<lambda>m t. let n = int (RuneCount t)
                      in if n < typed - bound \<or> n > typed + bound then m else tally m t)
           docs (map_keys (an_Terms (Analyze U d))))"

definition Near ::
  "unicode \<Rightarrow> ctx \<Rightarrow> principal option \<Rightarrow> string \<Rightarrow> int \<Rightarrow> memstore \<Rightarrow> string list res" where
  "Near U ctx p term limit s =
     (case ctx of Some e \<Rightarrow> Inl e | None \<Rightarrow>
      (case p of None \<Rightarrow> Inl ErrNoPrincipal | Some q \<Rightarrow>
       if st_closed s then Inl ErrClosed
       else let docs = foldl
              (\<lambda>m i. let d = the (fmlookup (st_docs s) i)
                      in if \<not> Queryable d \<or> doc_Tenant d \<noteq> p_Tenant q then m
                         else near_one U term m d)
              fmempty (map_keys (st_docs s))
            in Inr (Nearest term docs (map_keys docs) limit)))"

definition Stats :: "ctx \<Rightarrow> memstore \<Rightarrow> stats res" where
  "Stats ctx s =
     (case ctx of Some e \<Rightarrow> Inl e | None \<Rightarrow>
      if st_closed s then Inl ErrClosed
      else Inr (foldl
        (\<lambda>st i. if Queryable (the (fmlookup (st_docs s) i))
                then st\<lparr>stats_Documents := stats_Documents st + 1\<rparr>
                else st\<lparr>stats_Quarantined := stats_Quarantined st + 1\<rparr>)
        \<lparr>stats_Documents = 0, stats_Quarantined = 0\<rparr> (map_keys (st_docs s))))"

definition held_of :: "document \<Rightarrow> held" where
  "held_of d =
     \<lparr>held_ID = doc_ID d, held_Title = doc_Title d, held_Source = perm_Source (doc_Permissions d),
      held_Reason = perm_Reason (doc_Permissions d), held_At = doc_ModifiedAt d\<rparr>"

fun quarantined_loop :: "memstore \<Rightarrow> string \<Rightarrow> int \<Rightarrow> held list \<Rightarrow> string list \<Rightarrow> held list" where
  "quarantined_loop s tenant limit out [] = out"
| "quarantined_loop s tenant limit out (i # is) =
     (let d = the (fmlookup (st_docs s) i)
      in if Queryable d \<or> doc_Tenant d \<noteq> tenant then quarantined_loop s tenant limit out is
         else let out = out @ [held_of d]
              in if int (length out) = limit then out else quarantined_loop s tenant limit out is)"

definition Quarantined ::
  "ctx \<Rightarrow> string \<Rightarrow> int \<Rightarrow> string list \<Rightarrow> memstore \<Rightarrow> held list res" where
  "Quarantined ctx tenant limit order s =
     (case ctx of Some e \<Rightarrow> Inl e | None \<Rightarrow>
      if limit \<le> 0 then Inr []
      else if st_closed s then Inl ErrClosed
      else Inr (quarantined_loop s tenant limit [] order))"

definition facetsOf :: "(string, int) fmap \<Rightarrow> facet list" where
  "facetsOf counts =
     map (\<lambda>v. \<lparr>fc_Value = v, fc_Count = the (fmlookup counts v)\<rparr>) (map_keys counts)"

definition Reachable :: "unicode \<Rightarrow> ctx \<Rightarrow> principal option \<Rightarrow> memstore \<Rightarrow> reach res" where
  "Reachable U ctx p s =
     (case ctx of Some e \<Rightarrow> Inl e | None \<Rightarrow>
      (case p of None \<Rightarrow> Inl ErrNoPrincipal | Some q \<Rightarrow>
       if st_closed s then Inl ErrClosed
       else let (sources, kinds) = foldl
              (\<lambda>(sources, kinds) i.
                 let d = the (fmlookup (st_docs s) i)
                 in if visible U q d then (tally sources (doc_Source d), tally kinds (doc_Kind d))
                    else (sources, kinds))
              (fmempty, fmempty) (map_keys (st_docs s))
            in Inr \<lparr>reach_Sources = facetsOf sources, reach_Kinds = facetsOf kinds\<rparr>))"

section \<open>Ownership (own.go)\<close>

definition SetOwner ::
  "unicode \<Rightarrow> ctx \<Rightarrow> principal option \<Rightarrow> correction \<Rightarrow> memstore \<Rightarrow> error option \<times> memstore"
where
  "SetOwner U ctx p c s =
     (case ctx of Some e \<Rightarrow> (Some e, s) | None \<Rightarrow>
      (case p of None \<Rightarrow> (Some ErrNoPrincipal, s) | Some q \<Rightarrow>
       (case Correction_Check c of Some e \<Rightarrow> (Some e, s) | None \<Rightarrow>
        if st_closed s then (Some ErrClosed, s)
        else (case fmlookup (st_docs s) (cor_Doc c) of
                None \<Rightarrow> (None, s)
              | Some d \<Rightarrow>
                  if \<not> visible U q d then (None, s)
                  else let c = (case fmlookup (st_owners s) (cor_Doc c) of
                                  Some old \<Rightarrow> c\<lparr>cor_Was := cor_Was old\<rparr>
                                | None \<Rightarrow> c\<lparr>cor_Was := doc_Owner d\<rparr>)
                       in (None, s\<lparr>st_owners := fmupd (cor_Doc c) c (st_owners s),
                                   st_docs := fmupd (cor_Doc c) (d\<lparr>doc_Owner := cor_Owner c\<rparr>)
                                     (st_docs s)\<rparr>)))))"

definition ClearOwner ::
  "unicode \<Rightarrow> ctx \<Rightarrow> principal option \<Rightarrow> string \<Rightarrow> memstore \<Rightarrow> error option \<times> memstore" where
  "ClearOwner U ctx p i s =
     (case ctx of Some e \<Rightarrow> (Some e, s) | None \<Rightarrow>
      (case p of None \<Rightarrow> (Some ErrNoPrincipal, s) | Some q \<Rightarrow>
       if st_closed s then (Some ErrClosed, s)
       else (case fmlookup (st_docs s) i of
               None \<Rightarrow> (None, s)
             | Some d \<Rightarrow>
                 if \<not> visible U q d then (None, s)
                 else (case fmlookup (st_owners s) i of
                         None \<Rightarrow> (None, s)
                       | Some c \<Rightarrow>
                           (None, s\<lparr>st_owners := fmdrop i (st_owners s),
                                    st_docs := fmupd i (d\<lparr>doc_Owner := cor_Was c\<rparr>) (st_docs s)\<rparr>)))))"

text \<open>
  The loop of \<open>Corrections\<close>, \<open>Verifications\<close> and \<open>Reports\<close>: of the ids asked for, those
  with an entry and a document the principal may read.
\<close>

fun corrections_loop ::
  "unicode \<Rightarrow> principal \<Rightarrow> memstore \<Rightarrow> (string, correction) fmap \<Rightarrow> string list \<Rightarrow>
    (string, correction) fmap"
where
  "corrections_loop U q s out [] = out"
| "corrections_loop U q s out (i # is) =
     (case fmlookup (st_owners s) i of
        None \<Rightarrow> corrections_loop U q s out is
      | Some c \<Rightarrow>
          (case fmlookup (st_docs s) i of
             None \<Rightarrow> corrections_loop U q s out is
           | Some d \<Rightarrow>
               if \<not> visible U q d then corrections_loop U q s out is
               else corrections_loop U q s (fmupd i c out) is))"

definition Corrections ::
  "unicode \<Rightarrow> ctx \<Rightarrow> principal option \<Rightarrow> string list \<Rightarrow> memstore \<Rightarrow> (string, correction) fmap res"
where
  "Corrections U ctx p ids s =
     (case ctx of Some e \<Rightarrow> Inl e | None \<Rightarrow>
      (case p of None \<Rightarrow> Inl ErrNoPrincipal | Some q \<Rightarrow>
       if length ids = 0 then Inr fmempty
       else if st_closed s then Inl ErrClosed
       else Inr (corrections_loop U q s fmempty ids)))"

section \<open>Verifications (verify.go)\<close>

definition Verify ::
  "unicode \<Rightarrow> ctx \<Rightarrow> principal option \<Rightarrow> verification \<Rightarrow> memstore \<Rightarrow> error option \<times> memstore"
where
  "Verify U ctx p v s =
     (case ctx of Some e \<Rightarrow> (Some e, s) | None \<Rightarrow>
      (case p of None \<Rightarrow> (Some ErrNoPrincipal, s) | Some q \<Rightarrow>
       (case Verification_Check v of Some e \<Rightarrow> (Some e, s) | None \<Rightarrow>
        if st_closed s then (Some ErrClosed, s)
        else (case fmlookup (st_docs s) (ver_Doc v) of
                None \<Rightarrow> (None, s)
              | Some d \<Rightarrow>
                  if \<not> visible U q d then (None, s)
                  else (None, s\<lparr>st_verified := fmupd (ver_Doc v) v (st_verified s)\<rparr>)))))"

definition Unverify ::
  "unicode \<Rightarrow> ctx \<Rightarrow> principal option \<Rightarrow> string \<Rightarrow> memstore \<Rightarrow> error option \<times> memstore" where
  "Unverify U ctx p i s =
     (case ctx of Some e \<Rightarrow> (Some e, s) | None \<Rightarrow>
      (case p of None \<Rightarrow> (Some ErrNoPrincipal, s) | Some q \<Rightarrow>
       if st_closed s then (Some ErrClosed, s)
       else (case fmlookup (st_docs s) i of
               None \<Rightarrow> (None, s)
             | Some d \<Rightarrow>
                 if \<not> visible U q d then (None, s)
                 else (None, s\<lparr>st_verified := fmdrop i (st_verified s)\<rparr>))))"

fun verifications_loop ::
  "unicode \<Rightarrow> principal \<Rightarrow> memstore \<Rightarrow> (string, verification) fmap \<Rightarrow> string list \<Rightarrow>
    (string, verification) fmap"
where
  "verifications_loop U q s out [] = out"
| "verifications_loop U q s out (i # is) =
     (case fmlookup (st_verified s) i of
        None \<Rightarrow> verifications_loop U q s out is
      | Some v \<Rightarrow>
          (case fmlookup (st_docs s) i of
             None \<Rightarrow> verifications_loop U q s out is
           | Some d \<Rightarrow>
               if \<not> visible U q d then verifications_loop U q s out is
               else verifications_loop U q s (fmupd i v out) is))"

definition Verifications ::
  "unicode \<Rightarrow> ctx \<Rightarrow> principal option \<Rightarrow> string list \<Rightarrow> memstore \<Rightarrow> (string, verification) fmap res"
where
  "Verifications U ctx p ids s =
     (case ctx of Some e \<Rightarrow> Inl e | None \<Rightarrow>
      (case p of None \<Rightarrow> Inl ErrNoPrincipal | Some q \<Rightarrow>
       if length ids = 0 then Inr fmempty
       else if st_closed s then Inl ErrClosed
       else Inr (verifications_loop U q s fmempty ids)))"

section \<open>Reports (report.go)\<close>

definition Report ::
  "unicode \<Rightarrow> ctx \<Rightarrow> principal option \<Rightarrow> report \<Rightarrow> memstore \<Rightarrow> error option \<times> memstore" where
  "Report U ctx p r s =
     (case ctx of Some e \<Rightarrow> (Some e, s) | None \<Rightarrow>
      (case p of None \<Rightarrow> (Some ErrNoPrincipal, s) | Some q \<Rightarrow>
       (case Report_Check r of Some e \<Rightarrow> (Some e, s) | None \<Rightarrow>
        let key = ReportKey U p
        in if key = '''' then (Some ErrNoReporter, s)
           else if st_closed s then (Some ErrClosed, s)
           else (case fmlookup (st_docs s) (rep_Doc r) of
                   None \<Rightarrow> (None, s)
                 | Some d \<Rightarrow>
                     if \<not> visible U q d then (None, s)
                     else let said = (case fmlookup (st_reports s) (rep_Doc r) of
                                        Some m \<Rightarrow> m | None \<Rightarrow> fmempty)
                          in (None, s\<lparr>st_reports :=
                                fmupd (rep_Doc r) (fmupd key r said) (st_reports s)\<rparr>)))))"

definition ResolveReports ::
  "unicode \<Rightarrow> ctx \<Rightarrow> principal option \<Rightarrow> string \<Rightarrow> memstore \<Rightarrow> error option \<times> memstore" where
  "ResolveReports U ctx p i s =
     (case ctx of Some e \<Rightarrow> (Some e, s) | None \<Rightarrow>
      (case p of None \<Rightarrow> (Some ErrNoPrincipal, s) | Some q \<Rightarrow>
       if st_closed s then (Some ErrClosed, s)
       else (case fmlookup (st_docs s) i of
               None \<Rightarrow> (None, s)
             | Some d \<Rightarrow>
                 if \<not> visible U q d then (None, s)
                 else (None, s\<lparr>st_reports := fmdrop i (st_reports s)\<rparr>))))"

definition Withdraw ::
  "unicode \<Rightarrow> ctx \<Rightarrow> principal option \<Rightarrow> string \<Rightarrow> memstore \<Rightarrow> error option \<times> memstore" where
  "Withdraw U ctx p i s =
     (case ctx of Some e \<Rightarrow> (Some e, s) | None \<Rightarrow>
      (case p of None \<Rightarrow> (Some ErrNoPrincipal, s) | Some q \<Rightarrow>
       let key = ReportKey U p
       in if key = '''' then (Some ErrNoReporter, s)
          else if st_closed s then (Some ErrClosed, s)
          else (case fmlookup (st_docs s) i of
                  None \<Rightarrow> (None, s)
                | Some d \<Rightarrow>
                    if \<not> visible U q d then (None, s)
                    else (case fmlookup (st_reports s) i of
                            None \<Rightarrow> (None, s\<lparr>st_reports := fmdrop i (st_reports s)\<rparr>)
                          | Some said \<Rightarrow>
                              let said = fmdrop key said
                              in if fmdom said = {||}
                                 then (None, s\<lparr>st_reports := fmdrop i (st_reports s)\<rparr>)
                                 else (None, s\<lparr>st_reports := fmupd i said (st_reports s)\<rparr>)))))"

definition zero_report :: report where
  "zero_report =
     \<lparr>rep_Doc = '''', rep_By = nobody, rep_At = 0, rep_Note = ''''\<rparr>"

definition gather ::
  "string list \<Rightarrow> string \<Rightarrow> (string, report) fmap \<Rightarrow> string \<Rightarrow> staleness" where
  "gather order i said key =
     \<lparr>stale_Doc = i, stale_Count = int (fcard (fmdom said)),
      stale_Last = foldl (\<lambda>last k. let r = the (fmlookup said k)
                                  in if rep_At r > rep_At last then r else last)
        zero_report order,
      stale_Mine = (if key \<noteq> '''' then fmlookup said key \<noteq> None else False)\<rparr>"

fun mine_keys :: "string list \<Rightarrow> string list \<Rightarrow> bool" where
  "mine_keys pks [] = False"
| "mine_keys pks (k # ks) = (if k \<in> set pks then True else mine_keys pks ks)"

fun mine_people :: "unicode \<Rightarrow> string list \<Rightarrow> person list \<Rightarrow> bool" where
  "mine_people U pks [] = False"
| "mine_people U pks (who # rest) =
     (if mine_keys pks (PersonKeys U who) then True else mine_people U pks rest)"

definition mine :: "unicode \<Rightarrow> string list \<Rightarrow> document \<Rightarrow> bool" where
  "mine U pks d = mine_people U pks [doc_Owner d, doc_Author d]"

fun reports_loop ::
  "unicode \<Rightarrow> principal \<Rightarrow> string \<Rightarrow> (string \<Rightarrow> string list) \<Rightarrow> memstore \<Rightarrow>
    (string, staleness) fmap \<Rightarrow> string list \<Rightarrow> (string, staleness) fmap"
where
  "reports_loop U q key ord s out [] = out"
| "reports_loop U q key ord s out (i # is) =
     (case fmlookup (st_reports s) i of
        None \<Rightarrow> reports_loop U q key ord s out is
      | Some said \<Rightarrow>
          if fmdom said = {||} then reports_loop U q key ord s out is
          else (case fmlookup (st_docs s) i of
                  None \<Rightarrow> reports_loop U q key ord s out is
                | Some d \<Rightarrow>
                    if \<not> visible U q d then reports_loop U q key ord s out is
                    else reports_loop U q key ord s (fmupd i (gather (ord i) i said key) out) is))"

definition Reports ::
  "unicode \<Rightarrow> ctx \<Rightarrow> principal option \<Rightarrow> string list \<Rightarrow> (string \<Rightarrow> string list) \<Rightarrow> memstore \<Rightarrow>
    (string, staleness) fmap res"
where
  "Reports U ctx p ids ord s =
     (case ctx of Some e \<Rightarrow> Inl e | None \<Rightarrow>
      (case p of None \<Rightarrow> Inl ErrNoPrincipal | Some q \<Rightarrow>
       if length ids = 0 then Inr fmempty
       else if st_closed s then Inl ErrClosed
       else Inr (reports_loop U q (ReportKey U p) ord s fmempty ids)))"

fun reported_loop ::
  "unicode \<Rightarrow> principal \<Rightarrow> string list \<Rightarrow> string \<Rightarrow> (string \<Rightarrow> string list) \<Rightarrow> memstore \<Rightarrow>
    string list \<Rightarrow> flagged list"
where
  "reported_loop U q ks key ord s [] = []"
| "reported_loop U q ks key ord s (i # is) =
     (let said = the (fmlookup (st_reports s) i)
      in if fmdom said = {||} then reported_loop U q ks key ord s is
         else (case fmlookup (st_docs s) i of
                 None \<Rightarrow> reported_loop U q ks key ord s is
               | Some d \<Rightarrow>
                   if \<not> visible U q d \<or> \<not> mine U ks d then reported_loop U q ks key ord s is
                   else \<lparr>flag_Document = d, flag_Stale = gather (ord i) i said key\<rparr> #
                        reported_loop U q ks key ord s is))"

definition Reported ::
  "unicode \<Rightarrow> ctx \<Rightarrow> principal option \<Rightarrow> int \<Rightarrow> (string \<Rightarrow> string list) \<Rightarrow> memstore \<Rightarrow> flagged list res"
where
  "Reported U ctx p limit ord s =
     (case ctx of Some e \<Rightarrow> Inl e | None \<Rightarrow>
      (case p of None \<Rightarrow> Inl ErrNoPrincipal | Some q \<Rightarrow>
       if limit \<le> 0 then Inr []
       else if st_closed s then Inl ErrClosed
       else let out = reported_loop U q (PrincipalKeys U p) (ReportKey U p) ord s
                  (map_keys (st_reports s));
                out = sort_key (\<lambda>f. (- rep_At (stale_Last (flag_Stale f)), doc_ID (flag_Document f))) out
            in Inr (if int (length out) > limit then take (nat limit) out else out)))"

section \<open>Reading history (open.go)\<close>

definition reader :: "principal \<Rightarrow> string \<times> string" where
  "reader p = (p_Tenant p, p_Subject p)"

definition record_open_log :: "opened \<Rightarrow> string \<Rightarrow> gtime \<Rightarrow> opened" where
  "record_open_log log i at =
     (let ids = (if i \<in> set (op_ids log) then remove1 i (op_ids log) else op_ids log);
          ids = ids @ [i];
          ats = fmupd i at (op_at log);
          over = length ids - OpenHistory
      in if over > 0
         then \<lparr>op_ids = drop over ids, op_at = foldl (\<lambda>m k. fmdrop k m) ats (take over ids)\<rparr>
         else \<lparr>op_ids = ids, op_at = ats\<rparr>)"

definition RecordOpen ::
  "unicode \<Rightarrow> ctx \<Rightarrow> principal option \<Rightarrow> string \<Rightarrow> gtime \<Rightarrow> memstore \<Rightarrow> error option \<times> memstore"
where
  "RecordOpen U ctx p i at s =
     (case ctx of Some e \<Rightarrow> (Some e, s) | None \<Rightarrow>
      (case p of None \<Rightarrow> (Some ErrNoPrincipal, s) | Some q \<Rightarrow>
       if st_closed s then (Some ErrClosed, s)
       else (case fmlookup (st_docs s) i of
               None \<Rightarrow> (None, s)
             | Some d \<Rightarrow>
                 if \<not> visible U q d then (None, s)
                 else let log = (case fmlookup (st_opens s) (reader q) of
                                   Some l \<Rightarrow> l | None \<Rightarrow> \<lparr>op_ids = [], op_at = fmempty\<rparr>)
                      in (None, s\<lparr>st_opens :=
                            fmupd (reader q) (record_open_log log i at) (st_opens s)\<rparr>))))"

fun opens_loop ::
  "unicode \<Rightarrow> principal \<Rightarrow> memstore \<Rightarrow> opened \<Rightarrow> int \<Rightarrow> open_entry list \<Rightarrow> string list \<Rightarrow>
    open_entry list"
where
  "opens_loop U q s log limit out [] = out"
| "opens_loop U q s log limit out (i # is) =
     (if \<not> int (length out) < limit then out
      else (case fmlookup (st_docs s) i of
              None \<Rightarrow> opens_loop U q s log limit out is
            | Some d \<Rightarrow>
                if \<not> visible U q d then opens_loop U q s log limit out is
                else opens_loop U q s log limit
                  (out @ [\<lparr>open_Document = d,
                     open_At = (case fmlookup (op_at log) i of Some t \<Rightarrow> t | None \<Rightarrow> 0)\<rparr>]) is))"

definition Opens ::
  "unicode \<Rightarrow> ctx \<Rightarrow> principal option \<Rightarrow> int \<Rightarrow> memstore \<Rightarrow> open_entry list res" where
  "Opens U ctx p limit s =
     (case ctx of Some e \<Rightarrow> Inl e | None \<Rightarrow>
      (case p of None \<Rightarrow> Inl ErrNoPrincipal | Some q \<Rightarrow>
       if limit \<le> 0 then Inr []
       else let limit = (if limit > int OpenHistory then int OpenHistory else limit)
            in if st_closed s then Inl ErrClosed
               else (case fmlookup (st_opens s) (reader q) of
                       None \<Rightarrow> Inr []
                     | Some log \<Rightarrow> Inr (opens_loop U q s log limit [] (rev (op_ids log))))))"

section \<open>Answers (curate.go)\<close>

definition forget :: "memstore \<Rightarrow> string \<Rightarrow> string \<Rightarrow> memstore" where
  "forget s tenant i =
     s\<lparr>st_phrasings :=
       fmfilter (\<lambda>key. \<not> (fst key = tenant \<and> fmlookup (st_phrasings s) key = Some i)) (st_phrasings s)\<rparr>"

definition Curate ::
  "unicode \<Rightarrow> ctx \<Rightarrow> principal option \<Rightarrow> answer \<Rightarrow> memstore \<Rightarrow> error option \<times> memstore" where
  "Curate U ctx p a s =
     (case ctx of Some e \<Rightarrow> (Some e, s) | None \<Rightarrow>
      (case p of None \<Rightarrow> (Some ErrNoPrincipal, s) | Some q \<Rightarrow>
       (case Answer_Check U a of Some e \<Rightarrow> (Some e, s) | None \<Rightarrow>
        if st_closed s then (Some ErrClosed, s)
        else let s = forget s (p_Tenant q) (ans_ID a);
                 s = s\<lparr>st_answers := fmupd (p_Tenant q, ans_ID a) a (st_answers s)\<rparr>
             in (None, s\<lparr>st_phrasings :=
                   foldl (\<lambda>m key. fmupd (p_Tenant q, key) (ans_ID a) m) (st_phrasings s)
                     (Keys U a)\<rparr>))))"

definition Retract ::
  "ctx \<Rightarrow> principal option \<Rightarrow> string \<Rightarrow> memstore \<Rightarrow> error option \<times> memstore" where
  "Retract ctx p i s =
     (case ctx of Some e \<Rightarrow> (Some e, s) | None \<Rightarrow>
      (case p of None \<Rightarrow> (Some ErrNoPrincipal, s) | Some q \<Rightarrow>
       if st_closed s then (Some ErrClosed, s)
       else let s = forget s (p_Tenant q) i
            in (None, s\<lparr>st_answers := fmdrop (p_Tenant q, i) (st_answers s)\<rparr>)))"

definition Curated :: "unicode \<Rightarrow> ctx \<Rightarrow> principal option \<Rightarrow> string \<Rightarrow> memstore \<Rightarrow> answer res" where
  "Curated U ctx p question s =
     (case ctx of Some e \<Rightarrow> Inl e | None \<Rightarrow>
      (case p of None \<Rightarrow> Inl ErrNoPrincipal | Some q \<Rightarrow>
       if st_closed s then Inl ErrClosed
       else (case fmlookup (st_phrasings s) (p_Tenant q, AnswerKey U question) of
               None \<Rightarrow> Inl ErrNotFound
             | Some i \<Rightarrow>
                 (case fmlookup (st_answers s) (p_Tenant q, i) of
                    None \<Rightarrow> Inl ErrNotFound | Some a \<Rightarrow> Inr a))))"

definition Answers :: "ctx \<Rightarrow> principal option \<Rightarrow> int \<Rightarrow> memstore \<Rightarrow> answer list res" where
  "Answers ctx p limit s =
     (case ctx of Some e \<Rightarrow> Inl e | None \<Rightarrow>
      (case p of None \<Rightarrow> Inl ErrNoPrincipal | Some q \<Rightarrow>
       if limit \<le> 0 then Inr []
       else if st_closed s then Inl ErrClosed
       else let out = map (\<lambda>key. the (fmlookup (st_answers s) key))
                  (filter (\<lambda>key. fst key = p_Tenant q) (map_keys (st_answers s)));
                out = sort_key (\<lambda>a. (- ans_At a, ans_ID a)) out
            in Inr (if int (length out) > limit then take (nat limit) out else out)))"

section \<open>Feeds (feed.go) and maintenance (maintain.go)\<close>

definition feedKey :: "feed \<Rightarrow> string \<times> string" where
  "feedKey f = (fd_Tenant f, fd_Source f)"

definition Feeds :: "ctx \<Rightarrow> string \<Rightarrow> memstore \<Rightarrow> feed list res" where
  "Feeds ctx tenant s =
     (case ctx of Some e \<Rightarrow> Inl e | None \<Rightarrow>
      if st_closed s then Inl ErrClosed
      else Inr (map (\<lambda>key. the (fmlookup (st_feeds s) key))
             (filter (\<lambda>key. fst key = tenant) (map_keys (st_feeds s)))))"

definition SaveFeed :: "ctx \<Rightarrow> gtime \<Rightarrow> feed \<Rightarrow> memstore \<Rightarrow> error option \<times> memstore" where
  "SaveFeed ctx now f s =
     (case ctx of Some e \<Rightarrow> (Some e, s) | None \<Rightarrow>
      (case Feed_Check f of Some e \<Rightarrow> (Some e, s) | None \<Rightarrow>
       if st_closed s then (Some ErrClosed, s)
       else let f = f\<lparr>fd_Updated := now, fd_Created := now\<rparr>;
                f = (case fmlookup (st_feeds s) (feedKey f) of
                       Some old \<Rightarrow> f\<lparr>fd_Created := fd_Created old\<rparr> | None \<Rightarrow> f)
            in (None, s\<lparr>st_feeds := fmupd (feedKey f) f (st_feeds s)\<rparr>)))"

definition DropFeed :: "ctx \<Rightarrow> string \<Rightarrow> string \<Rightarrow> memstore \<Rightarrow> error option \<times> memstore" where
  "DropFeed ctx tenant source s =
     (case ctx of Some e \<Rightarrow> (Some e, s) | None \<Rightarrow>
      if st_closed s then (Some ErrClosed, s)
      else (None, s\<lparr>st_feeds := fmdrop (tenant, source) (st_feeds s)\<rparr>))"

definition Inventory ::
  "ctx \<Rightarrow> string \<Rightarrow> string \<Rightarrow> (item \<Rightarrow> 's \<Rightarrow> bool \<times> 's) \<Rightarrow> string list \<Rightarrow> 's \<Rightarrow> memstore \<Rightarrow>
    error option \<times> 's"
where
  "Inventory ctx tenant source fn order st s =
     (case ctx of Some e \<Rightarrow> (Some e, st) | None \<Rightarrow>
      if st_closed s then (Some ErrClosed, st)
      else (None, snd (yield_all
        (\<lambda>i st. let d = the (fmlookup (st_docs s) i)
                 in if doc_Tenant d \<noteq> tenant \<or> doc_Source d \<noteq> source then (True, st)
                    else fn \<lparr>item_ID = doc_ID d, item_Version = doc_SourceUpdate d,
                             item_Held = (\<not> Queryable d)\<rparr> st)
        order st)))"

fun set_permissions_loop ::
  "string \<Rightarrow> (string, permissions) fmap \<Rightarrow> string list \<Rightarrow>
    int \<times> (string, string list) fmap \<times> memstore \<Rightarrow> int \<times> (string, string list) fmap \<times> memstore"
where
  "set_permissions_loop tenant perms [] acc = acc"
| "set_permissions_loop tenant perms (i # is) (changed, written, s) =
     set_permissions_loop tenant perms is
       (case fmlookup (st_docs s) i of
          None \<Rightarrow> (changed, written, s)
        | Some d \<Rightarrow>
            if doc_Tenant d \<noteq> tenant then (changed, written, s)
            else (changed + 1, batch_append written (doc_Tenant d) i,
                  s\<lparr>st_docs := fmupd i (d\<lparr>doc_Permissions := the (fmlookup perms i)\<rparr>)
                      (st_docs s)\<rparr>))"

definition setPermissions ::
  "string \<Rightarrow> (string, permissions) fmap \<Rightarrow> string list \<Rightarrow> memstore \<Rightarrow>
    (int \<times> (string, string list) fmap) res \<times> memstore"
where
  "setPermissions tenant perms order s =
     (if st_closed s then (Inl ErrClosed, s)
      else case set_permissions_loop tenant perms order (0, fmempty, s) of
             (changed, written, s') \<Rightarrow> (Inr (changed, written), s'))"

definition SetPermissions ::
  "ctx \<Rightarrow> string \<Rightarrow> (string, permissions) fmap \<Rightarrow> string list \<Rightarrow> memstore \<Rightarrow>
    int res \<times> change list \<times> memstore"
where
  "SetPermissions ctx tenant perms order s =
     (case ctx of
        Some e \<Rightarrow> (Inl e, [], s)
      | None \<Rightarrow>
          (case setPermissions tenant perms order s of
             (Inl e, s') \<Rightarrow> (Inl e, [], s')
           | (Inr (changed, written), s') \<Rightarrow> (Inr changed, changes_of written False, s')))"

end
