(* ===== verification/Memstore_View.thy ===== *)
theory Memstore_View
  imports Memstore
begin

text \<open>
  The rule a driver may not bend: what a principal reads is a function of what that principal
  may see. \<open>view\<close> is the store with everything a principal may not read taken out of it;
  every principal scoped read gives the same answer on the store and on the view, so a
  document the principal may not read has no influence on an answer, an error, a count or an
  order. The locale \<open>permission_scoped\<close> states the contract and is interpreted for every read
  of the driver.
\<close>

section \<open>The contract\<close>

locale permission_scoped =
  fixes view :: "'s \<Rightarrow> 's"
    and read :: "'s \<Rightarrow> 'r"
  assumes read_view: "read (view s) = read s"
begin

lemma same_view: "view s = view t \<Longrightarrow> read s = read t"
  by (metis read_view)

lemma hidden_write: "view (w s) = view s \<Longrightarrow> read (w s) = read s"
  by (rule same_view)

lemma hidden_writes:
  "(\<And>x s. x \<in> set xs \<Longrightarrow> view (w s x) = view s) \<Longrightarrow> read (foldl w s xs) = read s"
proof (rule same_view)
  show "(\<And>x s. x \<in> set xs \<Longrightarrow> view (w s x) = view s) \<Longrightarrow> view (foldl w s xs) = view s"
    by (induction xs arbitrary: s) simp_all
qed

end

section \<open>The view\<close>

definition sees :: "unicode \<Rightarrow> principal \<Rightarrow> memstore \<Rightarrow> string \<Rightarrow> bool" where
  "sees U q s i \<longleftrightarrow> (case fmlookup (st_docs s) i of None \<Rightarrow> False | Some d \<Rightarrow> visible U q d)"

definition view_log :: "(string \<Rightarrow> bool) \<Rightarrow> opened \<Rightarrow> opened" where
  "view_log P l = \<lparr>op_ids = filter P (op_ids l), op_at = fmfilter P (op_at l)\<rparr>"

definition view :: "unicode \<Rightarrow> principal \<Rightarrow> memstore \<Rightarrow> memstore" where
  "view U q s =
     s\<lparr>st_docs := fmfilter (sees U q s) (st_docs s),
       st_content := fmfilter (sees U q s) (st_content s),
       st_opens := fmmap (view_log (sees U q s)) (fmfilter (\<lambda>k. k = reader q) (st_opens s)),
       st_verified := fmfilter (sees U q s) (st_verified s),
       st_owners := fmfilter (sees U q s) (st_owners s),
       st_reports := fmfilter (sees U q s) (st_reports s),
       st_answers := fmfilter (\<lambda>k. fst k = p_Tenant q) (st_answers s),
       st_phrasings := fmfilter (\<lambda>k. fst k = p_Tenant q) (st_phrasings s),
       st_feeds := fmempty\<rparr>"

text \<open>What the corpus statistics and the speller read: the tenant's documents.\<close>

definition tenant_view :: "string \<Rightarrow> memstore \<Rightarrow> memstore" where
  "tenant_view t s =
     New\<lparr>st_docs := fmfilter (\<lambda>i. case fmlookup (st_docs s) i of None \<Rightarrow> False
           | Some d \<Rightarrow> Queryable d \<and> doc_Tenant d = t) (st_docs s), st_closed := st_closed s\<rparr>"

lemma view_lookups [view_rules]:
  "fmlookup (st_docs (view U q s)) i =
     (case fmlookup (st_docs s) i of None \<Rightarrow> None | Some d \<Rightarrow> if visible U q d then Some d else None)"
  "fmlookup (st_content (view U q s)) i = (if sees U q s i then fmlookup (st_content s) i else None)"
  "fmlookup (st_verified (view U q s)) i = (if sees U q s i then fmlookup (st_verified s) i else None)"
  "fmlookup (st_owners (view U q s)) i = (if sees U q s i then fmlookup (st_owners s) i else None)"
  "fmlookup (st_reports (view U q s)) i = (if sees U q s i then fmlookup (st_reports s) i else None)"
  "fmlookup (st_answers (view U q s)) k = (if fst k = p_Tenant q then fmlookup (st_answers s) k else None)"
  "fmlookup (st_phrasings (view U q s)) k =
     (if fst k = p_Tenant q then fmlookup (st_phrasings s) k else None)"
  "fmlookup (st_opens (view U q s)) (reader q) =
     map_option (view_log (sees U q s)) (fmlookup (st_opens s) (reader q))"
  "st_closed (view U q s) = st_closed s"
  by (simp_all add: view_def sees_def split: option.split)

lemma sees_view [simp]: "sees U q (view U q s) = sees U q s"
  by (auto simp: fun_eq_iff sees_def view_rules split: option.split)

lemma keys_view:
  "map_keys (st_docs (view U q s)) = filter (sees U q s) (map_keys (st_docs s))"
  "map_keys (st_reports (view U q s)) = filter (sees U q s) (map_keys (st_reports s))"
  "map_keys (st_answers (view U q s)) = filter (\<lambda>k. fst k = p_Tenant q) (map_keys (st_answers s))"
  by (simp_all add: view_def keys_fmfilter)

lemma yield_all_skip:
  assumes "\<And>x st. x \<in> set xs \<Longrightarrow> P x \<Longrightarrow> g x st = f x st"
    and "\<And>x st. x \<in> set xs \<Longrightarrow> \<not> P x \<Longrightarrow> f x st = (True, st)"
  shows "yield_all g (filter P xs) st = yield_all f xs st"
  using assms by (induction xs arbitrary: st) (simp_all split: prod.split bool.split)

lemma foldl_skip:
  assumes "\<And>x st. x \<in> set xs \<Longrightarrow> P x \<Longrightarrow> g st x = f st x"
    and "\<And>x st. x \<in> set xs \<Longrightarrow> \<not> P x \<Longrightarrow> f st x = st"
  shows "foldl g st (filter P xs) = foldl f st xs"
  using assms by (induction xs arbitrary: st) simp_all

section \<open>Every read is permission scoped\<close>

lemma Get_view: "Get U ctx (Some q) i (view U q s) = Get U ctx (Some q) i s"
  by (simp add: Get_def view_rules split: option.split)

lemma Content_view: "Content U ctx (Some q) i (view U q s) = Content U ctx (Some q) i s"
  by (simp add: Content_def view_rules sees_def split: option.split)

lemma Scan_view: "Scan U ctx (Some q) fn st (view U q s) = Scan U ctx (Some q) fn st s"
proof -
  have "yield_all (\<lambda>i st. let d = the (fmlookup (st_docs (view U q s)) i)
            in if \<not> visible U q d then (True, st) else fn d st)
          (filter (sees U q s) (map_keys (st_docs s))) st =
        yield_all (\<lambda>i st. let d = the (fmlookup (st_docs s) i)
            in if \<not> visible U q d then (True, st) else fn d st) (map_keys (st_docs s)) st"
    by (rule yield_all_skip) (auto simp: view_rules sees_def Let_def simp del: set_keys dest!: keys_lookup)
  then show ?thesis
    by (simp add: Scan_def keys_view view_rules split: option.split)
qed

lemma Reachable_view: "Reachable U ctx (Some q) (view U q s) = Reachable U ctx (Some q) s"
proof -
  have "foldl (\<lambda>(sources, kinds) i. let d = the (fmlookup (st_docs (view U q s)) i)
            in if visible U q d then (tally sources (doc_Source d), tally kinds (doc_Kind d))
               else (sources, kinds)) (fmempty, fmempty) (filter (sees U q s) (map_keys (st_docs s))) =
        foldl (\<lambda>(sources, kinds) i. let d = the (fmlookup (st_docs s) i)
            in if visible U q d then (tally sources (doc_Source d), tally kinds (doc_Kind d))
               else (sources, kinds)) (fmempty, fmempty) (map_keys (st_docs s))"
    by (rule foldl_skip) (auto simp: view_rules sees_def Let_def simp del: set_keys dest!: keys_lookup)
  then show ?thesis
    by (simp add: Reachable_def keys_view view_rules split: option.split)
qed

lemma corrections_loop_view:
  "corrections_loop U q (view U q s) out ids = corrections_loop U q s out ids"
  by (induction ids arbitrary: out) (simp_all add: view_rules sees_def split: option.split)

lemma Corrections_view: "Corrections U ctx (Some q) ids (view U q s) = Corrections U ctx (Some q) ids s"
  by (simp add: Corrections_def view_rules corrections_loop_view split: option.split)

lemma verifications_loop_view:
  "verifications_loop U q (view U q s) out ids = verifications_loop U q s out ids"
  by (induction ids arbitrary: out) (simp_all add: view_rules sees_def split: option.split)

lemma Verifications_view:
  "Verifications U ctx (Some q) ids (view U q s) = Verifications U ctx (Some q) ids s"
  by (simp add: Verifications_def view_rules verifications_loop_view split: option.split)

lemma reports_loop_view:
  "reports_loop U q key ord (view U q s) out ids = reports_loop U q key ord s out ids"
  by (induction ids arbitrary: out) (simp_all add: view_rules sees_def split: option.split)

lemma Reports_view:
  "Reports U ctx (Some q) ids ord (view U q s) = Reports U ctx (Some q) ids ord s"
  by (simp add: Reports_def view_rules reports_loop_view split: option.split)

lemma reported_loop_view:
  "reported_loop U q ks key ord (view U q s) (filter (sees U q s) ids) =
     reported_loop U q ks key ord s ids"
  by (induction ids) (auto simp: view_rules sees_def Let_def split: option.split)

lemma Reported_view:
  "Reported U ctx (Some q) limit ord (view U q s) = Reported U ctx (Some q) limit ord s"
  by (simp add: Reported_def view_rules keys_view reported_loop_view split: option.split)

lemma opens_loop_view:
  "opens_loop U q (view U q s) (view_log (sees U q s) l) limit out (filter (sees U q s) ids) =
     opens_loop U q s l limit out ids"
proof (induction ids arbitrary: out)
  case Nil
  then show ?case by simp
next
  case (Cons i ids)
  show ?case
  proof (cases "int (length out) < limit")
    case True
    show ?thesis
    proof (cases "sees U q s i")
      case seen: True
      then obtain d where d: "fmlookup (st_docs s) i = Some d" "visible U q d"
        by (auto simp: sees_def split: option.splits)
      have "fmlookup (op_at (view_log (sees U q s) l)) i = fmlookup (op_at l) i"
        using seen by (simp add: view_log_def)
      then show ?thesis using True seen d Cons by (simp add: view_rules)
    next
      case unseen: False
      then show ?thesis using True Cons by (auto simp: sees_def split: option.splits)
    qed
  next
    case False
    have full: "opens_loop U q t l' limit out xs = out" for t l' xs
      using False by (cases xs) simp_all
    show ?thesis by (simp only: full)
  qed
qed

lemma Opens_view: "Opens U ctx (Some q) limit (view U q s) = Opens U ctx (Some q) limit s"
  using opens_loop_view [of U q s _ _ "[]"]
  by (simp add: Opens_def view_rules Let_def view_log_def rev_filter split: option.split)

lemma Curated_view: "Curated U ctx (Some q) question (view U q s) = Curated U ctx (Some q) question s"
  by (simp add: Curated_def view_rules split: option.split)

lemma Answers_view: "Answers ctx (Some q) limit (view U q s) = Answers ctx (Some q) limit s"
proof -
  have "map (\<lambda>key. the (fmlookup (st_answers (view U q s)) key))
      (filter (\<lambda>key. fst key = p_Tenant q) (map_keys (st_answers (view U q s)))) =
    map (\<lambda>key. the (fmlookup (st_answers s) key))
      (filter (\<lambda>key. fst key = p_Tenant q) (map_keys (st_answers s)))"
    by (simp add: keys_view view_rules)
  then show ?thesis
    unfolding Answers_def by (simp only: view_rules(9) option.case)
qed

interpretation get: permission_scoped "view U q" "Get U ctx (Some q) i" for U q ctx i
  by unfold_locales (rule Get_view)

interpretation content: permission_scoped "view U q" "Content U ctx (Some q) i" for U q ctx i
  by unfold_locales (rule Content_view)

interpretation scan: permission_scoped "view U q" "Scan U ctx (Some q) fn st" for U q ctx fn st
  by unfold_locales (rule Scan_view)

interpretation reachable: permission_scoped "view U q" "Reachable U ctx (Some q)" for U q ctx
  by unfold_locales (rule Reachable_view)

interpretation corrections: permission_scoped "view U q" "Corrections U ctx (Some q) ids" for U q ctx ids
  by unfold_locales (rule Corrections_view)

interpretation verifications: permission_scoped "view U q" "Verifications U ctx (Some q) ids"
  for U q ctx ids
  by unfold_locales (rule Verifications_view)

interpretation reports: permission_scoped "view U q" "Reports U ctx (Some q) ids ord" for U q ctx ids ord
  by unfold_locales (rule Reports_view)

interpretation reported: permission_scoped "view U q" "Reported U ctx (Some q) limit ord"
  for U q ctx limit ord
  by unfold_locales (rule Reported_view)

interpretation opens: permission_scoped "view U q" "Opens U ctx (Some q) limit" for U q ctx limit
  by unfold_locales (rule Opens_view)

interpretation curated: permission_scoped "view U q" "Curated U ctx (Some q) question" for U q ctx question
  by unfold_locales (rule Curated_view)

interpretation answers: permission_scoped "view U q" "Answers ctx (Some q) limit" for U q ctx limit
  by unfold_locales (rule Answers_view)

text \<open>The two reads that answer for the tenant as a whole, and say so.\<close>

lemma tenant_view_simps [view_rules]:
  "fmlookup (st_docs (tenant_view t s)) i =
     (case fmlookup (st_docs s) i of None \<Rightarrow> None
      | Some d \<Rightarrow> if Queryable d \<and> doc_Tenant d = t then Some d else None)"
  "st_closed (tenant_view t s) = st_closed s"
  "map_keys (st_docs (tenant_view t s)) = filter (\<lambda>i. case fmlookup (st_docs s) i of None \<Rightarrow> False
      | Some d \<Rightarrow> Queryable d \<and> doc_Tenant d = t) (map_keys (st_docs s))"
  by (simp_all add: tenant_view_def New_def keys_fmfilter split: option.split)

lemma tenant_fold:
  "foldl (\<lambda>c i. let d = the (fmlookup (st_docs (tenant_view t s)) i)
       in if \<not> Queryable d \<or> doc_Tenant d \<noteq> t then c else f c d) c (map_keys (st_docs (tenant_view t s))) =
   foldl (\<lambda>c i. let d = the (fmlookup (st_docs s) i)
       in if \<not> Queryable d \<or> doc_Tenant d \<noteq> t then c else f c d) c (map_keys (st_docs s))"
  unfolding tenant_view_simps(3)
  by (rule foldl_skip) (auto simp: tenant_view_simps Let_def simp del: set_keys dest!: keys_lookup)

interpretation statistics: permission_scoped "tenant_view (p_Tenant q)" "Statistics U ctx (Some q) terms"
  for q U ctx terms
  by unfold_locales (simp only: Statistics_def option.case tenant_fold tenant_view_simps(2))

interpretation near: permission_scoped "tenant_view (p_Tenant q)" "Near U ctx (Some q) term limit"
  for q U ctx "term" limit
  by unfold_locales (simp only: Near_def option.case tenant_fold tenant_view_simps(2))

section \<open>Writes nobody may see\<close>

lemma view_eqI:
  assumes "sees U q t = sees U q s"
    and "\<And>i. sees U q s i \<Longrightarrow> fmlookup (st_docs t) i = fmlookup (st_docs s) i \<and>
      fmlookup (st_content t) i = fmlookup (st_content s) i \<and>
      fmlookup (st_verified t) i = fmlookup (st_verified s) i \<and>
      fmlookup (st_owners t) i = fmlookup (st_owners s) i \<and>
      fmlookup (st_reports t) i = fmlookup (st_reports s) i"
    and "st_opens t = st_opens s" "st_answers t = st_answers s" "st_phrasings t = st_phrasings s"
    and "st_closed t = st_closed s"
  shows "view U q t = view U q s"
proof (rule memstore.equality)
  show "st_docs (view U q t) = st_docs (view U q s)"
    by (rule fmap_ext) (simp add: view_def assms)
  show "st_content (view U q t) = st_content (view U q s)"
    by (rule fmap_ext) (simp add: view_def assms)
  show "st_verified (view U q t) = st_verified (view U q s)"
    by (rule fmap_ext) (simp add: view_def assms)
  show "st_owners (view U q t) = st_owners (view U q s)"
    by (rule fmap_ext) (simp add: view_def assms)
  show "st_reports (view U q t) = st_reports (view U q s)"
    by (rule fmap_ext) (simp add: view_def assms)
qed (simp_all add: view_def assms cong del: fmfilter_cong)

lemma visible_owner [simp]:
  "visible U q (d\<lparr>doc_Owner := x\<rparr>) = visible U q d"
  "visible U q (d\<lparr>doc_Content := c\<rparr>) = visible U q d"
  by (auto simp: visible_def Queryable_def)

definition corrected :: "memstore \<Rightarrow> document \<Rightarrow> document" where
  "corrected s d =
     (case fmlookup (st_owners s) (doc_ID d) of None \<Rightarrow> d | Some c \<Rightarrow> d\<lparr>doc_Owner := cor_Owner c\<rparr>)"

lemma put_one_fields [store_defs]:
  "fmlookup (st_docs (put_one s d)) i =
     (if i = doc_ID d then Some ((corrected s d)\<lparr>doc_Content := None\<rparr>) else fmlookup (st_docs s) i)"
  "fmlookup (st_content (put_one s d)) i =
     (if i = doc_ID d then doc_Content d else fmlookup (st_content s) i)"
  "fmlookup (st_owners (put_one s d)) i =
     (if i = doc_ID d then map_option (\<lambda>c. c\<lparr>cor_Was := doc_Owner d\<rparr>) (fmlookup (st_owners s) i)
      else fmlookup (st_owners s) i)"
  "st_verified (put_one s d) = st_verified s" "st_reports (put_one s d) = st_reports s"
  "st_opens (put_one s d) = st_opens s" "st_answers (put_one s d) = st_answers s"
  "st_phrasings (put_one s d) = st_phrasings s" "st_feeds (put_one s d) = st_feeds s"
  "st_closed (put_one s d) = st_closed s"
  by (auto simp: put_one_def correct_def corrected_def Let_def split: option.split)

lemma visible_corrected [simp]: "visible U q (corrected s d) = visible U q d"
  by (simp add: corrected_def split: option.split)

lemma sees_put_one: "sees U q (put_one s d) i \<longleftrightarrow> (if i = doc_ID d then visible U q d else sees U q s i)"
  by (simp add: sees_def put_one_fields)

lemma view_put_one_hidden:
  assumes "\<not> visible U q d" "\<not> sees U q s (doc_ID d)"
  shows "view U q (put_one s d) = view U q s"
proof (rule view_eqI)
  show "sees U q (put_one s d) = sees U q s"
    using assms by (auto simp: fun_eq_iff sees_put_one)
qed (use assms in \<open>auto simp: put_one_fields\<close>)

lemma view_put_loop_hidden:
  assumes "\<And>d. d \<in> set docs \<Longrightarrow> \<not> visible U q d \<and> \<not> sees U q s (doc_ID d)"
  shows "view U q (snd (put_loop s written docs)) = view U q s"
  using assms
proof (induction docs arbitrary: s written)
  case (Cons d docs)
  have "\<not> visible U q d" "\<not> sees U q s (doc_ID d)" using Cons.prems by simp_all
  moreover have "sees U q (put_one s d) = sees U q s"
    using calculation by (auto simp: fun_eq_iff sees_put_one)
  ultimately show ?case
    using Cons by (simp add: view_put_one_hidden)
qed simp

lemma snd_snd_Put: "snd (snd (Put ctx docs s)) =
    (if ctx = None \<and> \<not> st_closed s then snd (put_loop s fmempty docs) else s)"
  by (auto simp: Put_def put_def split: option.split prod.split sum.split)

lemma view_Put_hidden:
  assumes "\<And>d. d \<in> set docs \<Longrightarrow> \<not> visible U q d \<and> \<not> sees U q s (doc_ID d)"
  shows "view U q (snd (snd (Put ctx docs s))) = view U q s"
  using view_put_loop_hidden [OF assms] by (simp add: snd_snd_Put)

lemma remove_one_fields [store_defs]:
  "fmlookup (st_docs (remove_one s i)) j = (if j = i then None else fmlookup (st_docs s) j)"
  "fmlookup (st_content (remove_one s i)) j = (if j = i then None else fmlookup (st_content s) j)"
  "fmlookup (st_verified (remove_one s i)) j = (if j = i then None else fmlookup (st_verified s) j)"
  "fmlookup (st_owners (remove_one s i)) j = (if j = i then None else fmlookup (st_owners s) j)"
  "fmlookup (st_reports (remove_one s i)) j = (if j = i then None else fmlookup (st_reports s) j)"
  "st_opens (remove_one s i) = st_opens s" "st_answers (remove_one s i) = st_answers s"
  "st_phrasings (remove_one s i) = st_phrasings s" "st_feeds (remove_one s i) = st_feeds s"
  "st_closed (remove_one s i) = st_closed s"
  by (simp_all add: remove_one_def)

lemma sees_remove_one: "sees U q (remove_one s i) j \<longleftrightarrow> j \<noteq> i \<and> sees U q s j"
  by (simp add: sees_def remove_one_fields)

lemma view_remove_one_hidden: "\<not> sees U q s i \<Longrightarrow> view U q (remove_one s i) = view U q s"
proof (rule view_eqI)
  assume "\<not> sees U q s i"
  then show "sees U q (remove_one s i) = sees U q s" by (auto simp: fun_eq_iff sees_remove_one)
qed (auto simp: remove_one_fields)

lemma snd_remove_loop: "snd (remove_loop s removed ids) = foldl remove_one s ids"
  by (induction ids arbitrary: s removed) (simp_all add: Let_def)

lemma view_remove_loop_hidden:
  "(\<And>i. i \<in> set ids \<Longrightarrow> \<not> sees U q s i) \<Longrightarrow> view U q (snd (remove_loop s removed ids)) = view U q s"
  unfolding snd_remove_loop
  by (induction ids arbitrary: s) (simp_all add: view_remove_one_hidden sees_remove_one)

text \<open>
  C2: what a principal reads depends on nothing but what that principal may see. Every
  principal scoped read of the driver, errors and order included, answers on the store as it
  would on the store with everything the principal may not read removed.
\<close>

theorem reads_on_view:
  "Get U ctx (Some q) i (view U q s) = Get U ctx (Some q) i s \<and>
   Content U ctx (Some q) i (view U q s) = Content U ctx (Some q) i s \<and>
   Scan U ctx (Some q) fn st (view U q s) = Scan U ctx (Some q) fn st s \<and>
   Reachable U ctx (Some q) (view U q s) = Reachable U ctx (Some q) s \<and>
   Corrections U ctx (Some q) ids (view U q s) = Corrections U ctx (Some q) ids s \<and>
   Verifications U ctx (Some q) ids (view U q s) = Verifications U ctx (Some q) ids s \<and>
   Reports U ctx (Some q) ids ord (view U q s) = Reports U ctx (Some q) ids ord s \<and>
   Reported U ctx (Some q) limit ord (view U q s) = Reported U ctx (Some q) limit ord s \<and>
   Opens U ctx (Some q) limit (view U q s) = Opens U ctx (Some q) limit s \<and>
   Curated U ctx (Some q) question (view U q s) = Curated U ctx (Some q) question s \<and>
   Answers ctx (Some q) limit (view U q s) = Answers ctx (Some q) limit s"
  by (intro conjI get.read_view content.read_view scan.read_view reachable.read_view
      corrections.read_view verifications.read_view reports.read_view reported.read_view
      opens.read_view curated.read_view answers.read_view)

text \<open>
  A crawl that stores documents a principal may not read, in place of nothing or of
  documents they could not read either, is invisible to that principal: no read of theirs
  changes, whether the write succeeds or fails half way.
\<close>

theorem Put_hidden:
  assumes "\<forall>d \<in> set docs. \<not> visible U q d \<and> \<not> sees U q s (doc_ID d)"
    and "s' = snd (snd (Put ctx' docs s))"
  shows "Get U ctx (Some q) i s' = Get U ctx (Some q) i s \<and>
   Content U ctx (Some q) i s' = Content U ctx (Some q) i s \<and>
   Scan U ctx (Some q) fn st s' = Scan U ctx (Some q) fn st s \<and>
   Reachable U ctx (Some q) s' = Reachable U ctx (Some q) s \<and>
   Corrections U ctx (Some q) ids s' = Corrections U ctx (Some q) ids s \<and>
   Verifications U ctx (Some q) ids s' = Verifications U ctx (Some q) ids s \<and>
   Reports U ctx (Some q) ids ord s' = Reports U ctx (Some q) ids ord s \<and>
   Reported U ctx (Some q) limit ord s' = Reported U ctx (Some q) limit ord s \<and>
   Opens U ctx (Some q) limit s' = Opens U ctx (Some q) limit s"
proof -
  have "view U q s' = view U q s"
    unfolding assms(2) by (rule view_Put_hidden) (use assms(1) in blast)
  then show ?thesis
    by (intro conjI get.same_view content.same_view scan.same_view reachable.same_view
        corrections.same_view verifications.same_view reports.same_view reported.same_view
        opens.same_view)
qed

theorem Put_hidden_witness:
  "Get ascii_table None (Some (ex_principal ''mei'' [])) ''d1''
     (snd (snd (Put None [ex_doc ''d2'' (ex_acl [] [])] New))) =
   Get ascii_table None (Some (ex_principal ''mei'' [])) ''d1'' New"
proof -
  have "\<not> visible ascii_table (ex_principal ''mei'' []) (ex_doc ''d2'' (ex_acl [] []))"
    by (auto simp: visible_def ex_doc_def Allows_rule granted_def ex_defs mode_defs named_user_def
        named_group_def)
  then have "\<forall>d \<in> set [ex_doc ''d2'' (ex_acl [] [])].
      \<not> visible ascii_table (ex_principal ''mei'' []) d \<and>
      \<not> sees ascii_table (ex_principal ''mei'' []) New (doc_ID d)"
    by (simp add: sees_def New_def)
  from Put_hidden [OF this refl, THEN conjunct1] show ?thesis .
qed

text \<open>
  The corpus statistics and the speller, which answer for the tenant rather than for the
  asker, read exactly the tenant's queryable documents: nothing held back and nothing of
  another tenant moves them.
\<close>

theorem tenant_reads:
  "Statistics U ctx (Some q) terms (tenant_view (p_Tenant q) s) = Statistics U ctx (Some q) terms s \<and>
   Near U ctx (Some q) term limit (tenant_view (p_Tenant q) s) = Near U ctx (Some q) term limit s"
  by (intro conjI statistics.read_view near.read_view)

end
