(* ===== verification/Step_Systems.thy ===== *)
theory Step_Systems
  imports Main
begin

text \<open>
  Reachability for the step relations of the development, and the induction over it as a locale:
  an invariant that every step keeps holds of every reachable state. It is interpreted on the
  steps of the memory store (\<open>Memstore_Invariants\<close>) and of the cache (\<open>Cache_LRU_Facts\<close>).
\<close>

section \<open>Invariants of step relations\<close>

inductive reach :: "('s \<Rightarrow> 's \<Rightarrow> bool) \<Rightarrow> 's \<Rightarrow> 's \<Rightarrow> bool" for step :: "'s \<Rightarrow> 's \<Rightarrow> bool" where
  start: "reach step s s"
| step: "reach step s t \<Longrightarrow> step t u \<Longrightarrow> reach step s u"

locale step_invariant =
  fixes step :: "'s \<Rightarrow> 's \<Rightarrow> bool"
    and inv :: "'s \<Rightarrow> bool"
  assumes preserved: "inv s \<Longrightarrow> step s t \<Longrightarrow> inv t"
begin

lemma reach_inv: "reach step s t \<Longrightarrow> inv s \<Longrightarrow> inv t"
  by (induction rule: reach.induct) (auto intro: preserved)

end

end
