(* ===== verification/Memstore_Invariants.thy ===== *)
theory Memstore_Invariants
  imports Memstore_View Step_Systems
begin

text \<open>
  The reachable states of the driver: every state some sequence of its operations produces from
  the empty store, whatever their arguments and whoever calls them. \<open>store_ok\<close> is what holds
  of all of them. The locale \<open>step_invariant\<close> of \<open>Step_Systems\<close> is
  interpreted on the driver's step relation.
\<close>

section \<open>The driver's steps\<close>

inductive mstep :: "unicode \<Rightarrow> memstore \<Rightarrow> memstore \<Rightarrow> bool" for U where
  Put: "mstep U s (snd (snd (Put ctx docs s)))"
| Delete: "mstep U s (snd (snd (Delete ctx ids s)))"
| SetOwner: "mstep U s (snd (SetOwner U ctx p c s))"
| ClearOwner: "mstep U s (snd (ClearOwner U ctx p i s))"
| Verify: "mstep U s (snd (Verify U ctx p v s))"
| Unverify: "mstep U s (snd (Unverify U ctx p i s))"
| Report: "mstep U s (snd (Report U ctx p r s))"
| Resolve: "mstep U s (snd (ResolveReports U ctx p i s))"
| Withdraw: "mstep U s (snd (Withdraw U ctx p i s))"
| RecordOpen: "mstep U s (snd (RecordOpen U ctx p i at s))"
| Curate: "mstep U s (snd (Curate U ctx p a s))"
| Retract: "mstep U s (snd (Retract ctx p i s))"
| SaveFeed: "mstep U s (snd (SaveFeed ctx now f s))"
| DropFeed: "mstep U s (snd (DropFeed ctx tenant source s))"
| SetPermissions: "mstep U s (snd (snd (SetPermissions ctx tenant perms order s)))"
| Close: "mstep U s (Close s)"

inductive_cases mstepE: "mstep U s t"

section \<open>What holds of every reachable state\<close>

definition doc_ok :: "string \<Rightarrow> document \<Rightarrow> bool" where
  "doc_ok i d \<longleftrightarrow> doc_ID d = i \<and> i \<noteq> '''' \<and> doc_Content d = None"

definition docs_ok :: "memstore \<Rightarrow> bool" where
  "docs_ok s \<longleftrightarrow>
     (\<forall>i d. fmlookup (st_docs s) i = Some d \<longrightarrow> doc_ok i d) \<and>
     (\<forall>i c d. fmlookup (st_owners s) i = Some c \<longrightarrow> fmlookup (st_docs s) i = Some d \<longrightarrow>
        doc_Owner d = cor_Owner c)"

definition beside_ok :: "memstore \<Rightarrow> bool" where
  "beside_ok s \<longleftrightarrow>
     (if st_closed s then st_docs s = fmempty \<and> st_content s = fmempty
      else fmdom (st_content s) |\<subseteq>| fmdom (st_docs s) \<and>
        fmdom (st_verified s) |\<subseteq>| fmdom (st_docs s) \<and>
        fmdom (st_owners s) |\<subseteq>| fmdom (st_docs s) \<and>
        fmdom (st_reports s) |\<subseteq>| fmdom (st_docs s))"

definition log_ok :: "opened \<Rightarrow> bool" where
  "log_ok l \<longleftrightarrow>
     distinct (op_ids l) \<and> length (op_ids l) \<le> OpenHistory \<and> fset (fmdom (op_at l)) = set (op_ids l)"

definition logs_ok :: "memstore \<Rightarrow> bool" where
  "logs_ok s \<longleftrightarrow> (\<forall>k l. fmlookup (st_opens s) k = Some l \<longrightarrow> log_ok l)"

definition reports_ok :: "memstore \<Rightarrow> bool" where
  "reports_ok s \<longleftrightarrow>
     (\<forall>i said. fmlookup (st_reports s) i = Some said \<longrightarrow> fmdom said \<noteq> {||} \<and>
        (\<forall>k r. fmlookup said k = Some r \<longrightarrow> k \<noteq> '''' \<and> rep_Doc r = i \<and> Report_Check r = None))"

definition answers_ok :: "unicode \<Rightarrow> memstore \<Rightarrow> bool" where
  "answers_ok U s \<longleftrightarrow>
     (\<forall>t i a. fmlookup (st_answers s) (t, i) = Some a \<longrightarrow> ans_ID a = i \<and> Answer_Check U a = None) \<and>
     (\<forall>t k i. fmlookup (st_phrasings s) (t, k) = Some i \<longrightarrow>
        (\<exists>a. fmlookup (st_answers s) (t, i) = Some a \<and> k \<in> set (Keys U a)))"

definition feeds_ok :: "memstore \<Rightarrow> bool" where
  "feeds_ok s \<longleftrightarrow>
     (\<forall>k f. fmlookup (st_feeds s) k = Some f \<longrightarrow> feedKey f = k \<and> Feed_Check f = None)"

definition verified_ok :: "memstore \<Rightarrow> bool" where
  "verified_ok s \<longleftrightarrow>
     (\<forall>i v. fmlookup (st_verified s) i = Some v \<longrightarrow> ver_Doc v = i \<and> Verification_Check v = None) \<and>
     (\<forall>i c. fmlookup (st_owners s) i = Some c \<longrightarrow> cor_Doc c = i \<and> Correction_Check c = None)"

definition store_ok :: "unicode \<Rightarrow> memstore \<Rightarrow> bool" where
  "store_ok U s \<longleftrightarrow>
     docs_ok s \<and> beside_ok s \<and> logs_ok s \<and> reports_ok s \<and> answers_ok U s \<and> feeds_ok s \<and> verified_ok s"

lemmas ok_defs = docs_ok_def beside_ok_def logs_ok_def reports_ok_def answers_ok_def feeds_ok_def
  verified_ok_def

lemma store_ok_New: "store_ok U New"
  by (simp add: store_ok_def ok_defs New_def)

lemma Correction_Check_Was [simp]:
  "Correction_Check (c\<lparr>cor_Was := w\<rparr>) = Correction_Check c"
  by (simp add: Correction_Check_def)

section \<open>Documents\<close>

lemma put_one_ok:
  assumes "store_ok U s" "\<not> st_closed s" "doc_ID d \<noteq> ''''"
  shows "store_ok U (put_one s d)"
proof -
  have "docs_ok (put_one s d)"
    using assms by (auto simp: store_ok_def docs_ok_def doc_ok_def put_one_fields corrected_def
        split: option.splits if_splits)
  moreover have "beside_ok (put_one s d)"
    using assms
    by (auto simp: store_ok_def beside_ok_def put_one_fields fmlookup_dom_iff fsubset_iff
        split: if_splits)
  moreover have "verified_ok (put_one s d)"
    using assms by (auto simp: store_ok_def verified_ok_def put_one_fields split: if_splits)
  ultimately show ?thesis
    using assms(1)
    by (simp add: store_ok_def logs_ok_def reports_ok_def answers_ok_def feeds_ok_def put_one_fields)
qed

lemma st_closed_put_loop [simp]: "st_closed (snd (put_loop s written docs)) = st_closed s"
  by (induction docs arbitrary: s written) (simp_all add: put_one_fields)

lemma put_loop_ok: "store_ok U s \<Longrightarrow> \<not> st_closed s \<Longrightarrow> store_ok U (snd (put_loop s written docs))"
  by (induction docs arbitrary: s written) (simp_all add: put_one_ok put_one_fields)

lemma remove_one_ok:
  assumes "store_ok U s" "\<not> st_closed s"
  shows "store_ok U (remove_one s i)"
proof -
  have "beside_ok (remove_one s i)"
    using assms by (auto simp: store_ok_def beside_ok_def remove_one_def)
  then show ?thesis
    using assms by (auto simp: store_ok_def ok_defs(1,3-) remove_one_fields split: if_splits)
qed

lemma remove_loop_ok:
  "store_ok U s \<Longrightarrow> \<not> st_closed s \<Longrightarrow> store_ok U (snd (remove_loop s removed ids))"
  unfolding snd_remove_loop by (induction ids arbitrary: s) (simp_all add: remove_one_ok remove_one_fields)

lemma snd_snd_Delete: "snd (snd (Delete ctx ids s)) =
    (if ctx = None \<and> \<not> st_closed s then foldl remove_one s ids else s)"
proof -
  have "snd (remove_loop s fmempty ids) = foldl remove_one s ids" by (rule snd_remove_loop)
  then show ?thesis
    by (auto simp: Delete_def remove_def split: option.split prod.split sum.split)
qed

lemma Close_ok: "store_ok U s \<Longrightarrow> store_ok U (Close s)"
  by (auto simp: store_ok_def ok_defs Close_def)

section \<open>What each write does when it does something\<close>

text \<open>
  A principal scoped write either leaves the store as it was or it is made by somebody who sees
  the document, on an open store. \<open>writes\<close> is that guard.
\<close>

definition writes :: "unicode \<Rightarrow> ctx \<Rightarrow> principal option \<Rightarrow> string \<Rightarrow> memstore \<Rightarrow> bool" where
  "writes U ctx p i s \<longleftrightarrow>
     ctx = None \<and> \<not> st_closed s \<and> (\<exists>q. p = Some q \<and> sees U q s i)"

definition new_correction :: "memstore \<Rightarrow> correction \<Rightarrow> correction" where
  "new_correction s c =
     c\<lparr>cor_Was := (case fmlookup (st_owners s) (cor_Doc c) of Some old \<Rightarrow> cor_Was old
                   | None \<Rightarrow> doc_Owner (the (fmlookup (st_docs s) (cor_Doc c))))\<rparr>"

lemma SetOwner_effect:
  "snd (SetOwner U ctx p c s) =
     (if writes U ctx p (cor_Doc c) s \<and> Correction_Check c = None
      then s\<lparr>st_owners := fmupd (cor_Doc c) (new_correction s c) (st_owners s),
             st_docs := fmupd (cor_Doc c)
               ((the (fmlookup (st_docs s) (cor_Doc c)))\<lparr>doc_Owner := cor_Owner c\<rparr>) (st_docs s)\<rparr>
      else s)"
  by (auto simp: SetOwner_def writes_def sees_def new_correction_def split: option.splits)

lemma ClearOwner_effect:
  "snd (ClearOwner U ctx p i s) =
     (if writes U ctx p i s \<and> fmlookup (st_owners s) i \<noteq> None
      then s\<lparr>st_owners := fmdrop i (st_owners s),
             st_docs := fmupd i ((the (fmlookup (st_docs s) i))
               \<lparr>doc_Owner := cor_Was (the (fmlookup (st_owners s) i))\<rparr>) (st_docs s)\<rparr>
      else s)"
  by (auto simp: ClearOwner_def writes_def sees_def split: option.splits)

lemma Verify_effect:
  "snd (Verify U ctx p v s) =
     (if writes U ctx p (ver_Doc v) s \<and> Verification_Check v = None
      then s\<lparr>st_verified := fmupd (ver_Doc v) v (st_verified s)\<rparr> else s)"
  by (auto simp: Verify_def writes_def sees_def split: option.splits)

lemma Unverify_effect:
  "snd (Unverify U ctx p i s) =
     (if writes U ctx p i s then s\<lparr>st_verified := fmdrop i (st_verified s)\<rparr> else s)"
  by (auto simp: Unverify_def writes_def sees_def split: option.splits)

definition reports_on :: "memstore \<Rightarrow> string \<Rightarrow> (string, report) fmap" where
  "reports_on s i = (case fmlookup (st_reports s) i of Some m \<Rightarrow> m | None \<Rightarrow> fmempty)"

lemma Report_effect:
  "snd (Report U ctx p r s) =
     (if writes U ctx p (rep_Doc r) s \<and> Report_Check r = None \<and> ReportKey U p \<noteq> ''''
      then s\<lparr>st_reports := fmupd (rep_Doc r) (fmupd (ReportKey U p) r (reports_on s (rep_Doc r)))
             (st_reports s)\<rparr> else s)"
  by (auto simp: Report_def writes_def sees_def reports_on_def Let_def split: option.splits)

lemma Resolve_effect:
  "snd (ResolveReports U ctx p i s) =
     (if writes U ctx p i s then s\<lparr>st_reports := fmdrop i (st_reports s)\<rparr> else s)"
  by (auto simp: ResolveReports_def writes_def sees_def split: option.splits)

lemma Withdraw_effect:
  "snd (Withdraw U ctx p i s) =
     (if writes U ctx p i s \<and> ReportKey U p \<noteq> ''''
      then let said = fmdrop (ReportKey U p) (reports_on s i)
           in s\<lparr>st_reports := (if fmdom said = {||} then fmdrop i (st_reports s)
                                else fmupd i said (st_reports s))\<rparr>
      else s)"
  by (auto simp: Withdraw_def writes_def sees_def reports_on_def Let_def split: option.splits)

definition log_of :: "memstore \<Rightarrow> string \<times> string \<Rightarrow> opened" where
  "log_of s k = (case fmlookup (st_opens s) k of Some l \<Rightarrow> l | None \<Rightarrow> \<lparr>op_ids = [], op_at = fmempty\<rparr>)"

lemma RecordOpen_effect:
  "snd (RecordOpen U ctx p i at s) =
     (if writes U ctx p i s
      then s\<lparr>st_opens := fmupd (reader (the p)) (record_open_log (log_of s (reader (the p))) i at)
             (st_opens s)\<rparr> else s)"
  by (auto simp: RecordOpen_def writes_def sees_def log_of_def Let_def split: option.splits)

section \<open>Each of them keeps the invariant\<close>

lemma sees_dom: "sees U q s i \<Longrightarrow> i |\<in>| fmdom (st_docs s)"
  by (auto simp: sees_def fmlookup_dom_iff split: option.splits)

lemma writes_dom: "writes U ctx p i s \<Longrightarrow> i |\<in>| fmdom (st_docs s) \<and> \<not> st_closed s"
  by (auto simp: writes_def dest: sees_dom)

lemma writes_doc: "writes U ctx p i s \<Longrightarrow> \<exists>d. fmlookup (st_docs s) i = Some d"
  by (auto dest!: writes_dom elim: fmdomE)

lemma beside_docs_upd:
  assumes "beside_ok s" "i |\<in>| fmdom (st_docs s)" "\<not> st_closed s"
  shows "beside_ok (s\<lparr>st_owners := fmupd i c (st_owners s), st_docs := fmupd i d (st_docs s)\<rparr>)"
    and "beside_ok (s\<lparr>st_owners := fmdrop i (st_owners s), st_docs := fmupd i d (st_docs s)\<rparr>)"
    and "beside_ok (s\<lparr>st_docs := fmupd i d (st_docs s)\<rparr>)"
    and "beside_ok (s\<lparr>st_verified := fmupd i v (st_verified s)\<rparr>)"
    and "beside_ok (s\<lparr>st_reports := fmupd i m (st_reports s)\<rparr>)"
  using assms by (auto simp: beside_ok_def)

lemma SetOwner_ok: "store_ok U s \<Longrightarrow> store_ok U (snd (SetOwner U ctx p c s))"
proof (cases "writes U ctx p (cor_Doc c) s \<and> Correction_Check c = None")
  case True
  assume ok: "store_ok U s"
  obtain d where d: "fmlookup (st_docs s) (cor_Doc c) = Some d" using True writes_doc by blast
  have "cor_Owner (new_correction s c) = cor_Owner c" "cor_Doc (new_correction s c) = cor_Doc c"
    "Correction_Check (new_correction s c) = None" using True by (simp_all add: new_correction_def)
  moreover have "i = cor_Doc c \<longrightarrow> cor_Doc c |\<in>| fmdom (st_docs s)" for i
    using writes_dom True by blast
  ultimately show ?thesis
    using ok True d beside_docs_upd(1) [of s "cor_Doc c"] writes_dom [of U ctx p "cor_Doc c" s]
    unfolding SetOwner_effect
    by (auto simp: store_ok_def ok_defs(1,3-) doc_ok_def)
next
  case False
  assume "store_ok U s" with False show ?thesis by (auto simp: SetOwner_effect)
qed

lemma ClearOwner_ok: "store_ok U s \<Longrightarrow> store_ok U (snd (ClearOwner U ctx p i s))"
proof (cases "writes U ctx p i s \<and> fmlookup (st_owners s) i \<noteq> None")
  case True
  assume ok: "store_ok U s"
  obtain d where d: "fmlookup (st_docs s) i = Some d" using True writes_doc by blast
  then show ?thesis
    using ok True d beside_docs_upd(2) [of s i] writes_dom [of U ctx p i s]
    unfolding ClearOwner_effect
    by (auto simp: store_ok_def ok_defs(1,3-) doc_ok_def split: if_splits)
next
  case False
  assume "store_ok U s" with False show ?thesis by (auto simp: ClearOwner_effect)
qed

lemma Verify_ok: "store_ok U s \<Longrightarrow> store_ok U (snd (Verify U ctx p v s))"
  using beside_docs_upd(4) [of s "ver_Doc v"] writes_dom [of U ctx p "ver_Doc v" s]
  by (auto simp: Verify_effect store_ok_def ok_defs(1,3-))

lemma Unverify_ok: "store_ok U s \<Longrightarrow> store_ok U (snd (Unverify U ctx p i s))"
  using writes_dom [of U ctx p i s]
  by (auto simp: Unverify_effect store_ok_def ok_defs split: if_splits)

lemma reports_on_ok:
  assumes "reports_ok s" "fmlookup (reports_on s i) k = Some r"
  shows "k \<noteq> '''' \<and> rep_Doc r = i \<and> Report_Check r = None"
proof (cases "fmlookup (st_reports s) i")
  case None
  with assms(2) show ?thesis by (simp add: reports_on_def)
next
  case (Some m)
  with assms show ?thesis unfolding reports_ok_def reports_on_def by (metis option.case(2))
qed

lemma reports_ok_upd:
  assumes "reports_ok s" "fmdom m \<noteq> {||}"
    and "\<And>k r. fmlookup m k = Some r \<Longrightarrow> k \<noteq> '''' \<and> rep_Doc r = i \<and> Report_Check r = None"
  shows "reports_ok (s\<lparr>st_reports := fmupd i m (st_reports s)\<rparr>)"
  using assms by (auto simp: reports_ok_def split: if_splits)

lemma reports_ok_drop: "reports_ok s \<Longrightarrow> reports_ok (s\<lparr>st_reports := fmdrop i (st_reports s)\<rparr>)"
  by (simp add: reports_ok_def)

lemma beside_drop: "beside_ok s \<Longrightarrow> beside_ok (s\<lparr>st_reports := fmdrop i (st_reports s)\<rparr>)"
  by (auto simp: beside_ok_def split: if_splits)

lemma store_ok_reports:
  assumes "store_ok U s" "reports_ok (s\<lparr>st_reports := m\<rparr>)" "beside_ok (s\<lparr>st_reports := m\<rparr>)"
  shows "store_ok U (s\<lparr>st_reports := m\<rparr>)"
  using assms by (simp add: store_ok_def docs_ok_def logs_ok_def answers_ok_def feeds_ok_def verified_ok_def)

lemma Report_ok: assumes "store_ok U s" shows "store_ok U (snd (Report U ctx p r s))"
proof (cases "writes U ctx p (rep_Doc r) s \<and> Report_Check r = None \<and> ReportKey U p \<noteq> ''''")
  case True
  have "reports_ok s" "beside_ok s" using assms by (simp_all add: store_ok_def)
  then show ?thesis
    unfolding Report_effect if_P [OF True]
    using True writes_dom [of U ctx p "rep_Doc r" s]
    by (intro store_ok_reports [OF assms] reports_ok_upd beside_docs_upd)
      (auto dest: reports_on_ok [OF \<open>reports_ok s\<close>] split: if_splits)
next
  case False
  show ?thesis unfolding Report_effect if_not_P [OF False] by (rule assms)
qed

lemma Resolve_ok: "store_ok U s \<Longrightarrow> store_ok U (snd (ResolveReports U ctx p i s))"
  unfolding Resolve_effect
  by (auto intro: store_ok_reports reports_ok_drop beside_drop simp: store_ok_def [of _ s])

lemma Withdraw_ok: assumes "store_ok U s" shows "store_ok U (snd (Withdraw U ctx p i s))"
proof (cases "writes U ctx p i s \<and> ReportKey U p \<noteq> ''''")
  case True
  have ok: "reports_ok s" "beside_ok s" using assms by (simp_all add: store_ok_def)
  let ?said = "fmdrop (ReportKey U p) (reports_on s i)"
  show ?thesis
  proof (cases "fmdom ?said = {||}")
    case empty: True
    then show ?thesis
      unfolding Withdraw_effect if_P [OF True] Let_def if_P [OF empty]
      by (intro store_ok_reports [OF assms] reports_ok_drop beside_drop ok)
  next
    case False
    then show ?thesis
      unfolding Withdraw_effect if_P [OF True] Let_def if_not_P [OF False]
      using True writes_dom [of U ctx p i s] ok(2)
      by (intro store_ok_reports [OF assms] reports_ok_upd beside_docs_upd ok(1))
        (auto dest: reports_on_ok [OF ok(1)] split: if_splits)
  qed
next
  case False
  show ?thesis unfolding Withdraw_effect if_not_P [OF False] by (rule assms)
qed

lemma set_fmdom_foldl_fmdrop: "fset (fmdom (foldl (\<lambda>m k. fmdrop k m) m ks)) = fset (fmdom m) - set ks"
  by (induction ks arbitrary: m) auto

lemma fmlookup_foldl_fmdrop:
  "fmlookup (foldl (\<lambda>m k. fmdrop k m) m ks) x = (if x \<in> set ks then None else fmlookup m x)"
  by (induction ks arbitrary: m) auto

text \<open>One more open moves its entry to the end and drops the oldest past the history kept.\<close>

definition moved :: "string list \<Rightarrow> string \<Rightarrow> string list" where
  "moved ids i = remove1 i ids @ [i]"

lemma moved_props:
  assumes "distinct ids"
  shows "distinct (moved ids i)" "set (moved ids i) = insert i (set ids)" "moved ids i \<noteq> []"
  using assms by (auto simp: moved_def set_remove1_eq)

lemma record_open_ids:
  "op_ids (record_open_log l i at) =
     drop (length (moved (op_ids l) i) - OpenHistory) (moved (op_ids l) i)"
proof -
  have eq: "(if i \<in> set (op_ids l) then remove1 i (op_ids l) else op_ids l) @ [i] = moved (op_ids l) i"
    by (simp add: moved_def remove1_idem)
  show ?thesis unfolding record_open_log_def Let_def eq by simp
qed

lemma record_open_at:
  "fmlookup (op_at (record_open_log l i at)) k =
     (if k \<in> set (take (length (moved (op_ids l) i) - OpenHistory) (moved (op_ids l) i)) then None
      else if k = i then Some at else fmlookup (op_at l) k)"
proof -
  have eq: "(if i \<in> set (op_ids l) then remove1 i (op_ids l) else op_ids l) @ [i] = moved (op_ids l) i"
    by (simp add: moved_def remove1_idem)
  show ?thesis unfolding record_open_log_def Let_def eq by (auto simp: fmlookup_foldl_fmdrop)
qed

lemma record_open_log_ok:
  assumes "log_ok l"
  shows "log_ok (record_open_log l i at)"
proof -
  let ?m = "moved (op_ids l) i" and ?n = "length (moved (op_ids l) i) - OpenHistory"
  have d: "distinct ?m" "set ?m = insert i (set (op_ids l))"
    using assms moved_props [of "op_ids l" i] by (simp_all add: log_ok_def)
  have split: "set (drop ?n ?m) = set ?m - set (take ?n ?m)"
    using d(1) by (metis append_take_drop_id distinct_append set_append Diff_cancel Un_Diff Un_empty_left
        Diff_triv Int_commute)
  have "x |\<in>| fmdom (op_at (record_open_log l i at)) \<longleftrightarrow> x \<in> set (drop ?n ?m)" for x
  proof -
    have "x |\<in>| fmdom (op_at (record_open_log l i at)) \<longleftrightarrow>
        fmlookup (op_at (record_open_log l i at)) x \<noteq> None"
      by (auto simp: fmlookup_dom_iff)
    also have "\<dots> \<longleftrightarrow> x \<notin> set (take ?n ?m) \<and> (x = i \<or> fmlookup (op_at l) x \<noteq> None)"
      by (simp add: record_open_at)
    also have "\<dots> \<longleftrightarrow> x \<in> set (drop ?n ?m)"
      unfolding split d(2) using assms by (auto simp: log_ok_def fmlookup_dom_iff set_eq_iff)
    finally show ?thesis .
  qed
  then have "fset (fmdom (op_at (record_open_log l i at))) = set (drop ?n ?m)" by blast
  then show ?thesis
    using d(1) by (simp add: log_ok_def record_open_ids)
qed

lemma log_ok_log_of: "logs_ok s \<Longrightarrow> log_ok (log_of s k)"
  by (cases k) (auto simp: logs_ok_def log_of_def log_ok_def split: option.split)

lemma RecordOpen_ok: "store_ok U s \<Longrightarrow> store_ok U (snd (RecordOpen U ctx p i at s))"
  using record_open_log_ok [OF log_ok_log_of, of s]
  by (auto simp: RecordOpen_effect store_ok_def ok_defs split: if_splits)

section \<open>Answers, feeds and permissions\<close>

definition curated_phrasings ::
  "unicode \<Rightarrow> string \<Rightarrow> answer \<Rightarrow> (string \<times> string, string) fmap \<Rightarrow> (string \<times> string, string) fmap"
where
  "curated_phrasings U t a m = foldl (\<lambda>m key. fmupd (t, key) (ans_ID a) m) m (Keys U a)"

lemma fmlookup_curated_phrasings:
  "fmlookup (curated_phrasings U t a m) (t', k) =
     (if t' = t \<and> k \<in> set (Keys U a) then Some (ans_ID a) else fmlookup m (t', k))"
proof -
  have "fmlookup (foldl (\<lambda>m key. fmupd (t, key) v m) m ks) (t', k) =
      (if t' = t \<and> k \<in> set ks then Some v else fmlookup m (t', k))" for v ks
    by (induction ks arbitrary: m) auto
  then show ?thesis by (simp add: curated_phrasings_def)
qed

lemma fmlookup_forget:
  "fmlookup (st_phrasings (forget s t i)) (t', k) =
     (if t' = t \<and> fmlookup (st_phrasings s) (t', k) = Some i then None
      else fmlookup (st_phrasings s) (t', k))"
  by (auto simp: forget_def)

lemma Curate_effect:
  "snd (Curate U ctx p a s) =
     (case p of
        Some q \<Rightarrow>
          if ctx = None \<and> \<not> st_closed s \<and> Answer_Check U a = None
          then s\<lparr>st_answers := fmupd (p_Tenant q, ans_ID a) a (st_answers s),
                 st_phrasings := curated_phrasings U (p_Tenant q) a
                   (st_phrasings (forget s (p_Tenant q) (ans_ID a)))\<rparr>
          else s
      | None \<Rightarrow> s)"
  by (auto simp: Curate_def curated_phrasings_def forget_def Let_def split: option.splits)

lemma Curate_ok: assumes "store_ok U s" shows "store_ok U (snd (Curate U ctx p a s))"
proof (cases p)
  case (Some q)
  let ?t = "p_Tenant q"
  have ok: "answers_ok U s" using assms by (simp add: store_ok_def)
  have "answers_ok U (s\<lparr>st_answers := fmupd (?t, ans_ID a) a (st_answers s),
      st_phrasings := curated_phrasings U ?t a (st_phrasings (forget s ?t (ans_ID a)))\<rparr>)"
    if "Answer_Check U a = None"
    using ok that
    unfolding answers_ok_def
    by (simp add: fmlookup_curated_phrasings fmlookup_forget)
  then show ?thesis
    using assms by (simp add: Some Curate_effect store_ok_def docs_ok_def beside_ok_def logs_ok_def
        reports_ok_def feeds_ok_def verified_ok_def)
qed (use assms in \<open>simp add: Curate_effect\<close>)

lemma Retract_effect:
  "snd (Retract ctx p i s) =
     (case p of
        Some q \<Rightarrow>
          if ctx = None \<and> \<not> st_closed s
          then s\<lparr>st_answers := fmdrop (p_Tenant q, i) (st_answers s),
                 st_phrasings := st_phrasings (forget s (p_Tenant q) i)\<rparr>
          else s
      | None \<Rightarrow> s)"
  by (auto simp: Retract_def forget_def Let_def split: option.splits)

lemma Retract_ok: assumes "store_ok U s" shows "store_ok U (snd (Retract ctx p i s))"
proof (cases p)
  case (Some q)
  let ?t = "p_Tenant q"
  have ok: "answers_ok U s" using assms by (simp add: store_ok_def)
  have "answers_ok U (s\<lparr>st_answers := fmdrop (?t, i) (st_answers s),
      st_phrasings := st_phrasings (forget s ?t i)\<rparr>)"
    using ok unfolding answers_ok_def by (simp add: fmlookup_forget)
  then show ?thesis
    using assms by (simp add: Some Retract_effect store_ok_def docs_ok_def beside_ok_def logs_ok_def
        reports_ok_def feeds_ok_def verified_ok_def)
qed (use assms in \<open>simp add: Retract_effect\<close>)

lemma SaveFeed_effect:
  "snd (SaveFeed ctx now f s) =
     (if ctx = None \<and> Feed_Check f = None \<and> \<not> st_closed s
      then s\<lparr>st_feeds := fmupd (feedKey f)
               (f\<lparr>fd_Updated := now,
                  fd_Created := (case fmlookup (st_feeds s) (feedKey f) of
                                   Some old \<Rightarrow> fd_Created old | None \<Rightarrow> now)\<rparr>) (st_feeds s)\<rparr>
      else s)"
  by (auto simp: SaveFeed_def feedKey_def Let_def split: option.splits)

lemma feed_times [simp]:
  "feedKey (f\<lparr>fd_Updated := x, fd_Created := y\<rparr>) = feedKey f"
  "Feed_Check (f\<lparr>fd_Updated := x, fd_Created := y\<rparr>) = Feed_Check f"
  by (simp_all add: feedKey_def Feed_Check_def)

lemma SaveFeed_ok: "store_ok U s \<Longrightarrow> store_ok U (snd (SaveFeed ctx now f s))"
  by (auto simp: SaveFeed_effect store_ok_def ok_defs)

lemma DropFeed_ok: "store_ok U s \<Longrightarrow> store_ok U (snd (DropFeed ctx tenant source s))"
  by (auto simp: DropFeed_def store_ok_def ok_defs split: option.split if_splits)

definition permit_one :: "string \<Rightarrow> (string, permissions) fmap \<Rightarrow> memstore \<Rightarrow> string \<Rightarrow> memstore" where
  "permit_one tenant perms s i =
     (case fmlookup (st_docs s) i of
        None \<Rightarrow> s
      | Some d \<Rightarrow>
          if doc_Tenant d \<noteq> tenant then s
          else s\<lparr>st_docs := fmupd i (d\<lparr>doc_Permissions := the (fmlookup perms i)\<rparr>) (st_docs s)\<rparr>)"

definition of_tenant :: "memstore \<Rightarrow> string \<Rightarrow> string \<Rightarrow> bool" where
  "of_tenant s tenant i \<longleftrightarrow>
     (case fmlookup (st_docs s) i of None \<Rightarrow> False | Some d \<Rightarrow> doc_Tenant d = tenant)"

lemma of_tenant_permit_one [simp]:
  "of_tenant (permit_one tenant perms s i) t j = of_tenant s t j"
  by (auto simp: of_tenant_def permit_one_def split: option.split)

lemma set_permissions_loop_eq:
  "set_permissions_loop tenant perms ids (n, w, s) =
     (n + int (length (filter (of_tenant s tenant) ids)),
      foldl (\<lambda>w i. batch_append w tenant i) w (filter (of_tenant s tenant) ids),
      foldl (permit_one tenant perms) s ids)"
proof (induction ids arbitrary: n w s)
  case (Cons i ids)
  show ?case
  proof (cases "of_tenant s tenant i")
    case True
    then obtain d where d: "fmlookup (st_docs s) i = Some d" "doc_Tenant d = tenant"
      by (auto simp: of_tenant_def split: option.splits)
    have *: "of_tenant (permit_one tenant perms s i) tenant = of_tenant s tenant"
      by (simp add: fun_eq_iff)
    show ?thesis
      using Cons [of "n + 1" "batch_append w tenant i" "permit_one tenant perms s i"] True d
      unfolding * by (simp add: permit_one_def)
  next
    case False
    then have "permit_one tenant perms s i = s"
      by (auto simp: of_tenant_def permit_one_def split: option.splits)
    then show ?thesis
      using Cons [of n w s] False
      by (auto simp: of_tenant_def split: option.splits)
  qed
qed simp

lemma snd_snd_SetPermissions:
  "snd (snd (SetPermissions ctx tenant perms order s)) =
     (if ctx = None \<and> \<not> st_closed s then foldl (permit_one tenant perms) s order else s)"
  by (auto simp: SetPermissions_def setPermissions_def set_permissions_loop_eq split: option.split)

lemma permit_one_ok: "store_ok U s \<Longrightarrow> store_ok U (permit_one tenant perms s i)"
proof (cases "of_tenant s tenant i")
  case True
  assume ok: "store_ok U s"
  obtain d where d: "fmlookup (st_docs s) i = Some d" "doc_Tenant d = tenant"
    using True by (auto simp: of_tenant_def split: option.splits)
  let ?d = "d\<lparr>doc_Permissions := the (fmlookup perms i)\<rparr>"
  have "\<not> st_closed s" using ok d(1) by (auto simp: store_ok_def beside_ok_def)
  then have "beside_ok (s\<lparr>st_docs := fmupd i ?d (st_docs s)\<rparr>)"
    using ok d(1) by (intro beside_docs_upd(3)) (auto simp: store_ok_def fmlookup_dom_iff)
  then show ?thesis
    using ok d
    by (auto simp: permit_one_def store_ok_def ok_defs(1,3-) doc_ok_def split: if_splits)
next
  case False
  assume "store_ok U s"
  moreover have "permit_one tenant perms s i = s"
    using False by (auto simp: of_tenant_def permit_one_def split: option.splits)
  ultimately show ?thesis by simp
qed

lemma foldl_permit_one_ok: "store_ok U s \<Longrightarrow> store_ok U (foldl (permit_one tenant perms) s ids)"
  by (induction ids arbitrary: s) (simp_all add: permit_one_ok)

section \<open>Every reachable state\<close>

lemma mstep_ok: "store_ok U s \<Longrightarrow> mstep U s t \<Longrightarrow> store_ok U t"
  by (erule mstepE)
    (auto simp: snd_snd_Put snd_snd_Delete snd_snd_SetPermissions put_loop_ok foldl_permit_one_ok
      SetOwner_ok ClearOwner_ok Verify_ok Unverify_ok Report_ok Resolve_ok Withdraw_ok RecordOpen_ok
      Curate_ok Retract_ok SaveFeed_ok DropFeed_ok Close_ok
      simp flip: snd_remove_loop [of _ fmempty] intro: remove_loop_ok)

interpretation driver: step_invariant "mstep U" "store_ok U" for U
  by unfold_locales (rule mstep_ok)

text \<open>
  C4: whatever operations are run on an empty store, in whatever order and by whomever, every
  document stays filed under its own non-empty id without its bytes, its owner agrees with any
  standing correction, nothing said about a document outlives it, a reading history is free of
  repetitions, no longer than the bound and dated throughout, every report has a reporter,
  every phrasing leads to an answer that claims it, and a closed store holds no document.
\<close>

theorem reachable_ok: "reach (mstep U) New s \<Longrightarrow> store_ok U s"
  by (rule driver.reach_inv [OF _ store_ok_New])

theorem reachable_ok_witness:
  "store_ok ascii_table (Close (snd (snd (Put None [ex_doc ''d1'' (ex_acl [] [])] New))))"
proof -
  have "reach (mstep ascii_table) New (Close (snd (snd (Put None [ex_doc ''d1'' (ex_acl [] [])] New))))"
    by (rule reach.step, rule reach.step) (rule reach.start mstep.Put mstep.Close)+
  then show ?thesis by (rule reachable_ok)
qed

end
