(* ===== verification/Memstore_Behaviour.thy ===== *)
theory Memstore_Behaviour
  imports Memstore_Invariants
begin

text \<open>
  What the operations of the driver do, as their callers see it: a write followed by the reads
  that show it. The statements are about the operations of \<open>Memstore\<close>; the lemmas of
  \<open>Memstore_View\<close> and \<open>Memstore_Invariants\<close> carry the proofs.
\<close>

section \<open>Put\<close>

definition last_doc :: "document list \<Rightarrow> string \<Rightarrow> document option" where
  "last_doc docs i = find (\<lambda>d. doc_ID d = i) (rev docs)"

lemma last_doc_simps [simp]:
  "last_doc [] i = None"
  "last_doc (d # ds) i =
     (case last_doc ds i of Some d' \<Rightarrow> Some d' | None \<Rightarrow> if doc_ID d = i then Some d else None)"
proof -
  have "find P (xs @ [x]) = (case find P xs of Some y \<Rightarrow> Some y | None \<Rightarrow> if P x then Some x else None)"
    for P :: "document \<Rightarrow> bool" and xs x
    by (induction xs) simp_all
  then show "last_doc (d # ds) i =
      (case last_doc ds i of Some d' \<Rightarrow> Some d' | None \<Rightarrow> if doc_ID d = i then Some d else None)"
    by (simp add: last_doc_def)
qed (simp add: last_doc_def)

lemma last_doc_ID: "last_doc docs i = Some d \<Longrightarrow> doc_ID d = i \<and> d \<in> set docs"
  by (induction docs) (auto split: option.splits if_splits)

lemma last_doc_None: "last_doc docs i = None \<longleftrightarrow> i \<notin> doc_ID ` set docs"
  by (induction docs) (auto split: option.splits)

lemma corrected_ID [simp]: "doc_ID (corrected s d) = doc_ID d"
  by (simp add: corrected_def split: option.split)

lemma corrected_put_one: "corrected (put_one s e) d = corrected s d"
  by (auto simp: corrected_def put_one_fields option.map_comp split: option.split)

lemma put_loop_all:
  assumes "\<forall>d \<in> set docs. doc_ID d \<noteq> ''''"
  shows "put_loop s w docs =
    (Inr (foldl (\<lambda>w d. batch_append w (doc_Tenant d) (doc_ID d)) w docs), foldl put_one s docs)"
  using assms by (induction docs arbitrary: s w) simp_all

lemma foldl_put_one_docs:
  "fmlookup (st_docs (foldl put_one s docs)) i =
     (case last_doc docs i of None \<Rightarrow> fmlookup (st_docs s) i
      | Some d \<Rightarrow> Some ((corrected s d)\<lparr>doc_Content := None\<rparr>))"
  by (induction docs arbitrary: s) (auto simp: put_one_fields corrected_put_one split: option.split)

lemma foldl_put_one_content:
  "fmlookup (st_content (foldl put_one s docs)) i =
     (case last_doc docs i of None \<Rightarrow> fmlookup (st_content s) i | Some d \<Rightarrow> doc_Content d)"
  by (induction docs arbitrary: s) (auto simp: put_one_fields split: option.split)

lemma foldl_put_one_owners:
  "fmlookup (st_owners (foldl put_one s docs)) i =
     (case last_doc docs i of None \<Rightarrow> fmlookup (st_owners s) i
      | Some d \<Rightarrow> map_option (\<lambda>c. c\<lparr>cor_Was := doc_Owner d\<rparr>) (fmlookup (st_owners s) i))"
proof (induction docs arbitrary: s)
  case (Cons d docs)
  then show ?case
    by (cases "fmlookup (st_owners s) i") (auto simp: put_one_fields split: option.split)
qed simp

lemma foldl_put_one_closed [simp]: "st_closed (foldl put_one s docs) = st_closed s"
  by (induction docs arbitrary: s) (simp_all add: put_one_fields)

lemma no_empty_group_foldl:
  "no_empty_group w \<Longrightarrow> no_empty_group (foldl (\<lambda>w x. batch_append w (f x) (g x)) w xs)"
  by (induction xs arbitrary: w) simp_all

lemma Put_ok:
  assumes "\<not> st_closed s" "\<forall>d \<in> set docs. doc_ID d \<noteq> ''''"
  shows "Put None docs s =
    (None, changes_of (foldl (\<lambda>w d. batch_append w (doc_Tenant d) (doc_ID d)) fmempty docs) False,
     foldl put_one s docs)"
  using assms by (simp add: Put_def put_def put_loop_all)

text \<open>
  C10: a write that succeeds stores, for every id it names, the last document given for it,
  with a standing correction of its owner applied and its bytes kept beside it, leaves every
  other document and its bytes alone, and reports exactly one change per tenant written to,
  with that tenant's ids in the order they were given.
\<close>

theorem Put_stores:
  assumes "\<not> st_closed s" "\<forall>d \<in> set docs. doc_ID d \<noteq> ''''"
    and "Put None docs s = (err, changes, s')"
  shows "err = None \<and>
    fmlookup (st_docs s') i = (case last_doc docs i of None \<Rightarrow> fmlookup (st_docs s) i
      | Some d \<Rightarrow> Some ((corrected s d)\<lparr>doc_Content := None\<rparr>)) \<and>
    fmlookup (st_content s') i = (case last_doc docs i of None \<Rightarrow> fmlookup (st_content s) i
      | Some d \<Rightarrow> doc_Content d) \<and>
    (c \<in> set changes \<longleftrightarrow> \<not> chg_Deleted c \<and> chg_IDs c \<noteq> [] \<and>
      chg_IDs c = map doc_ID (filter (\<lambda>d. doc_Tenant d = chg_Tenant c) docs))"
proof -
  let ?w = "foldl (\<lambda>w d. batch_append w (doc_Tenant d) (doc_ID d)) fmempty docs"
  have eq: "err = None" "changes = changes_of ?w False" "s' = foldl put_one s docs"
    using assms(3) by (simp_all add: Put_ok [OF assms(1,2)])
  have "no_empty_group ?w" by (rule no_empty_group_foldl) simp
  from set_changes_of [OF this, of c False]
  have "c \<in> set changes \<longleftrightarrow> \<not> chg_Deleted c \<and> chg_IDs c \<noteq> [] \<and>
      chg_IDs c = map doc_ID (filter (\<lambda>d. doc_Tenant d = chg_Tenant c) docs)"
    unfolding eq(2) foldl_batch_append by auto
  then show ?thesis
    by (simp only: eq(1,3) foldl_put_one_docs foldl_put_one_content simp_thms)
qed

theorem Put_stores_witness:
  "fmlookup (st_docs (snd (snd (Put None [ex_doc ''d1'' (ex_acl [] [])] New)))) ''d1'' =
     Some (ex_doc ''d1'' (ex_acl [] []))"
proof -
  have 1: "\<not> st_closed New" by (simp add: New_def)
  have 2: "\<forall>d \<in> set [ex_doc ''d1'' (ex_acl [] [])]. doc_ID d \<noteq> ''''" by (simp add: ex_doc_def)
  from Put_stores [OF 1 2 surjective_pairing [THEN trans, OF arg_cong2 [where f = Pair, OF refl surjective_pairing]],
      of "''d1''"]
  have "fmlookup (st_docs (snd (snd (Put None [ex_doc ''d1'' (ex_acl [] [])] New)))) ''d1'' =
      (case last_doc [ex_doc ''d1'' (ex_acl [] [])] ''d1'' of None \<Rightarrow> fmlookup (st_docs New) ''d1''
      | Some d \<Rightarrow> Some ((corrected New d)\<lparr>doc_Content := None\<rparr>))"
    by blast
  then show ?thesis by (simp add: ex_doc_def corrected_def New_def)
qed

text \<open>
  A write that fails on a document without an id has already stored the documents in front
  of it, and reports no change for them: the store moved and no subscriber was told.
\<close>

theorem Put_partial_unreported:
  "\<exists>docs s'. Put None docs New = (Some ErrNoID, [], s') \<and> st_docs s' \<noteq> st_docs New \<and>
     (\<exists>q i d. Get ascii_table None (Some q) i s' = Inr d)"
proof -
  let ?d = "ex_doc ''d1'' ((ex_acl [] [])\<lparr>perm_Mode := ModePublicToTenant\<rparr>)"
  let ?docs = "[?d, ?d\<lparr>doc_ID := ''''\<rparr>]"
  let ?q = "ex_principal ''mei'' []"
  have id: "doc_ID ?d = ''d1''" by (simp add: ex_doc_def)
  have put: "Put None ?docs New = (Some ErrNoID, [], put_one New ?d)"
    using id by (simp add: Put_def put_def New_def)
  have look: "fmlookup (st_docs (put_one New ?d)) ''d1'' = Some (?d\<lparr>doc_Content := None\<rparr>)"
    using id by (simp add: put_one_fields corrected_def New_def)
  have "Allows ascii_table ((ex_acl [] [])\<lparr>perm_Mode := ModePublicToTenant\<rparr>) (Some ?q)"
    by (auto simp: Allows_rule granted_def denied_def named_user_def named_group_def ex_defs mode_defs)
  then have "visible ascii_table ?q ?d"
    by (simp add: visible_def Queryable_def ex_doc_def ex_defs mode_defs)
  then have "Get ascii_table None (Some ?q) ''d1'' (put_one New ?d) = Inr (?d\<lparr>doc_Content := None\<rparr>)"
    using look by (simp add: Get_def put_one_fields New_def)
  moreover have "st_docs (put_one New ?d) \<noteq> st_docs New"
    using look by (auto simp: New_def)
  ultimately show ?thesis using put by blast
qed

section \<open>Ownership\<close>

definition owner_of :: "memstore \<Rightarrow> string \<Rightarrow> person option" where
  "owner_of s i = map_option doc_Owner (fmlookup (st_docs s) i)"

text \<open>What the source says: the answer kept in the correction, or the document's own.\<close>

definition source_owner :: "memstore \<Rightarrow> string \<Rightarrow> person option" where
  "source_owner s i =
     (case fmlookup (st_owners s) i of Some c \<Rightarrow> Some (cor_Was c) | None \<Rightarrow> owner_of s i)"

lemma SetOwner_owner:
  assumes "writes U ctx p (cor_Doc c) s" "Correction_Check c = None"
  shows "owner_of (snd (SetOwner U ctx p c s)) (cor_Doc c) = Some (cor_Owner c)"
    and "source_owner (snd (SetOwner U ctx p c s)) (cor_Doc c) = source_owner s (cor_Doc c)"
  using writes_doc [OF assms(1)] assms
  by (auto simp: SetOwner_effect owner_of_def source_owner_def new_correction_def split: option.split)

lemma Put_owner:
  assumes "fmlookup (st_owners s) i = Some c" "owner_of s i = Some (cor_Owner c)"
  shows "owner_of (foldl put_one s docs) i = Some (cor_Owner c)"
    and "source_owner (foldl put_one s docs) i =
      (case last_doc docs i of None \<Rightarrow> source_owner s i | Some d \<Rightarrow> Some (doc_Owner d))"
  using assms
  by (auto simp: owner_of_def source_owner_def foldl_put_one_docs foldl_put_one_owners corrected_def
      dest: last_doc_ID split: option.split)

lemma ClearOwner_owner:
  assumes "writes U ctx p i s"
  shows "owner_of (snd (ClearOwner U ctx p i s)) i = source_owner s i"
  using writes_doc [OF assms] assms
  by (auto simp: ClearOwner_effect owner_of_def source_owner_def split: option.split)

text \<open>
  C17: a correction outlives the crawl and can be undone. After \<open>SetOwner\<close> the document names
  the corrected owner however often the crawl reports the source's answer again, and
  \<open>ClearOwner\<close> puts back what the source said last, not an earlier correction and not the
  answer it gave when the correction was made.
\<close>

theorem correction_life:
  assumes "writes U ctx p (cor_Doc c) s" "Correction_Check c = None"
    and "\<forall>d \<in> set docs. doc_ID d \<noteq> ''''"
    and "s1 = snd (SetOwner U ctx p c s)" "s2 = snd (snd (Put None docs s1))"
    and "writes U ctx' p' (cor_Doc c) s2"
  shows "owner_of s1 (cor_Doc c) = Some (cor_Owner c) \<and> owner_of s2 (cor_Doc c) = Some (cor_Owner c) \<and>
    owner_of (snd (ClearOwner U ctx' p' (cor_Doc c) s2)) (cor_Doc c) =
      (case last_doc docs (cor_Doc c) of Some d \<Rightarrow> Some (doc_Owner d)
       | None \<Rightarrow> source_owner s (cor_Doc c))"
proof -
  note s1 = SetOwner_owner [OF assms(1,2), folded assms(4)]
  have open1: "\<not> st_closed s1"
    using assms(1) by (simp add: assms(4) SetOwner_effect writes_def)
  have own: "fmlookup (st_owners s1) (cor_Doc c) = Some (new_correction s c)"
    "cor_Owner (new_correction s c) = cor_Owner c"
    using assms(1,2) by (simp_all add: assms(4) SetOwner_effect new_correction_def)
  have s2: "s2 = foldl put_one s1 docs"
    using assms(5) by (simp add: Put_ok [OF open1 assms(3)])
  note put = Put_owner [OF own(1), unfolded own(2), OF s1(1), of docs, folded s2]
  show ?thesis
    using s1 put ClearOwner_owner [OF assms(6)] by (simp split: option.split)
qed

definition ex_public :: "string \<Rightarrow> document" where
  "ex_public i = ex_doc i ((ex_acl [] [])\<lparr>perm_Mode := ModePublicToTenant\<rparr>)"

lemma visible_ex_public: "i \<noteq> '''' \<Longrightarrow> visible ascii_table (ex_principal u g) (ex_public i)"
  by (auto simp: visible_def Queryable_def ex_public_def ex_doc_def Allows_rule granted_def denied_def
      named_user_def named_group_def ex_defs mode_defs)

definition ex_store :: memstore where
  "ex_store = New\<lparr>st_docs := fmupd ''d1'' (ex_public ''d1'') fmempty\<rparr>"

lemma ex_store_writes: "writes ascii_table None (Some (ex_principal u g)) ''d1'' ex_store"
  by (simp add: writes_def sees_def ex_store_def New_def visible_ex_public)

definition ex_correction :: correction where
  "ex_correction = \<lparr>cor_Doc = ''d1'', cor_Owner = nobody\<lparr>pr_Name := ''Ann''\<rparr>, cor_Was = nobody,
     cor_By = nobody\<lparr>pr_Subject := ''mei''\<rparr>, cor_At = 5\<rparr>"

theorem correction_life_witness:
  "owner_of (snd (snd (Put None [ex_public ''d1'']
     (snd (SetOwner ascii_table None (Some (ex_principal ''mei'' [])) ex_correction ex_store))))) ''d1''
   = Some (nobody\<lparr>pr_Name := ''Ann''\<rparr>)"
proof -
  let ?p = "Some (ex_principal ''mei'' [])"
  let ?s1 = "snd (SetOwner ascii_table None ?p ex_correction ex_store)"
  let ?s2 = "snd (snd (Put None [ex_public ''d1''] ?s1))"
  have c: "cor_Doc ex_correction = ''d1''" "Correction_Check ex_correction = None"
    by (simp_all add: ex_correction_def Correction_Check_def nobody_def)
  have w: "writes ascii_table None ?p (cor_Doc ex_correction) ex_store"
    unfolding c by (rule ex_store_writes)
  have ids: "\<forall>d \<in> set [ex_public ''d1'']. doc_ID d \<noteq> ''''" by (simp add: ex_public_def ex_doc_def)
  have id: "doc_ID (ex_public ''d1'') = ''d1''" by (simp add: ex_public_def ex_doc_def)
  have closed: "\<not> st_closed ?s1"
    using w by (simp add: SetOwner_effect writes_def)
  have "?s2 = put_one ?s1 (ex_public ''d1'')" by (simp add: Put_ok [OF closed ids])
  then have "writes ascii_table None ?p (cor_Doc ex_correction) ?s2"
    using closed by (simp add: writes_def sees_put_one id c visible_ex_public put_one_fields)
  from correction_life [OF w c(2) ids refl refl this]
  show ?thesis by (simp add: c ex_correction_def)
qed

section \<open>Scans and counts\<close>

definition seen_docs :: "unicode \<Rightarrow> principal \<Rightarrow> memstore \<Rightarrow> document list" where
  "seen_docs U q s = map (\<lambda>i. the (fmlookup (st_docs s) i)) (filter (sees U q s) (map_keys (st_docs s)))"

lemma sees_the: "i \<in> set (map_keys (st_docs s)) \<Longrightarrow> sees U q s i = visible U q (the (fmlookup (st_docs s) i))"
  using keys_lookup [of i "st_docs s"] by (auto simp: sees_def)

lemma Scan_open:
  assumes "\<not> st_closed s"
  shows "Scan U None (Some q) fn st s = (None, snd (yield_all fn (seen_docs U q s) st))"
proof -
  have "yield_all fn (seen_docs U q s) st =
      yield_all (\<lambda>i st. let d = the (fmlookup (st_docs s) i)
         in if \<not> visible U q d then (True, st) else fn d st) (map_keys (st_docs s)) st"
    unfolding seen_docs_def yield_all_map
    by (rule yield_all_skip) (simp_all add: Let_def sees_the del: set_keys)
  then show ?thesis using assms by (simp add: Scan_def)
qed

definition count_of :: "(document \<Rightarrow> string) \<Rightarrow> document list \<Rightarrow> string \<Rightarrow> int" where
  "count_of f ds v = int (length (filter (\<lambda>d. f d = v) ds))"

lemma foldl_tally:
  "fmlookup (foldl (\<lambda>m d. tally m (f d)) m ds) v =
     (if v \<in> f ` set ds then Some ((case fmlookup m v of None \<Rightarrow> 0 | Some n \<Rightarrow> n) + count_of f ds v)
      else fmlookup m v)"
proof (induction ds arbitrary: m)
  case (Cons d ds)
  then show ?case
    by (auto simp: tally_def count_of_def filter_empty_conv split: option.split)
      (metis image_eqI)
qed simp

lemma foldl_pair:
  "foldl (\<lambda>(a, b) x. (f a x, g b x)) (a, b) xs = (foldl f a xs, foldl g b xs)"
  by (induction xs arbitrary: a b) simp_all

lemma set_facetsOf: "fc \<in> set (facetsOf m) \<longleftrightarrow> fmlookup m (fc_Value fc) = Some (fc_Count fc)"
  by (cases fc) (auto simp: facetsOf_def image_iff elim!: fmdomE dest: fmdomI)

text \<open>
  What a principal can reach is counted exactly: a source or a kind is listed with the
  number of documents of it a scan would hand the same principal, and left out when there is
  none.
\<close>

theorem Reachable_counts:
  assumes "\<not> st_closed s"
  shows "\<exists>r. Reachable U None (Some q) s = Inr r \<and>
    Scan U None (Some q) (\<lambda>d ds. (True, ds @ [d])) [] s = (None, seen_docs U q s) \<and>
    (fc \<in> set (reach_Sources r) \<longleftrightarrow> fc_Count fc \<noteq> 0 \<and>
      fc_Count fc = count_of doc_Source (seen_docs U q s) (fc_Value fc)) \<and>
    (fc \<in> set (reach_Kinds r) \<longleftrightarrow> fc_Count fc \<noteq> 0 \<and>
      fc_Count fc = count_of doc_Kind (seen_docs U q s) (fc_Value fc))"
proof -
  let ?D = "seen_docs U q s"
  let ?T = "\<lambda>f. foldl (\<lambda>m d. tally m (f d)) fmempty ?D"
  have "foldl (\<lambda>(a, b) d. (tally a (doc_Source d), tally b (doc_Kind d))) (fmempty, fmempty) ?D =
      foldl (\<lambda>(a, b) i. let d = the (fmlookup (st_docs s) i)
        in if visible U q d then (tally a (doc_Source d), tally b (doc_Kind d)) else (a, b))
      (fmempty, fmempty) (map_keys (st_docs s))"
    unfolding seen_docs_def foldl_map
    by (rule foldl_skip) (auto simp: Let_def sees_the simp del: set_keys)
  then have fold: "foldl (\<lambda>(a, b) i. let d = the (fmlookup (st_docs s) i)
        in if visible U q d then (tally a (doc_Source d), tally b (doc_Kind d)) else (a, b))
      (fmempty, fmempty) (map_keys (st_docs s)) = (?T doc_Source, ?T doc_Kind)"
    using foldl_pair [of "\<lambda>m d. tally m (doc_Source d)" "\<lambda>m d. tally m (doc_Kind d)" fmempty fmempty ?D]
    by simp
  have R: "Reachable U None (Some q) s =
      Inr \<lparr>reach_Sources = facetsOf (?T doc_Source), reach_Kinds = facetsOf (?T doc_Kind)\<rparr>"
    unfolding Reachable_def option.case if_not_P [OF assms]
    unfolding fold by simp
  have F: "fc \<in> set (facetsOf (?T f)) \<longleftrightarrow> fc_Count fc \<noteq> 0 \<and> fc_Count fc = count_of f ?D (fc_Value fc)" for f
  proof -
    have "fc_Value fc \<in> f ` set ?D \<longleftrightarrow> count_of f ?D (fc_Value fc) \<noteq> 0"
      by (auto simp: count_of_def filter_empty_conv) (metis image_eqI)
    then show ?thesis unfolding set_facetsOf foldl_tally by auto
  qed
  have "Scan U None (Some q) (\<lambda>d ds. (True, ds @ [d])) [] s = (None, ?D)"
    using yield_all_collect [of "\<lambda>d::document. d" ?D "[]"] by (simp add: Scan_open [OF assms])
  then show ?thesis unfolding R using F by simp
qed

theorem Reachable_counts_witness:
  "\<exists>r. Reachable ascii_table None (Some (ex_principal ''mei'' [])) ex_store = Inr r \<and>
     \<lparr>fc_Value = ''gdrive'', fc_Count = 1\<rparr> \<in> set (reach_Sources r)"
proof -
  have "\<not> st_closed ex_store" by (simp add: ex_store_def New_def)
  note R = Reachable_counts [OF this, of ascii_table "ex_principal ''mei'' []"
      "\<lparr>fc_Value = ''gdrive'', fc_Count = 1\<rparr>"]
  have "map_keys (st_docs ex_store) = [''d1'']"
    by (simp add: map_keys_def ex_store_def)
  moreover have "sees ascii_table (ex_principal ''mei'' []) ex_store ''d1''"
    by (simp add: sees_def ex_store_def visible_ex_public)
  ultimately have "seen_docs ascii_table (ex_principal ''mei'' []) ex_store = [ex_public ''d1'']"
    by (simp add: seen_docs_def ex_store_def)
  then have "count_of doc_Source (seen_docs ascii_table (ex_principal ''mei'' []) ex_store) ''gdrive'' = 1"
    by (simp add: count_of_def ex_public_def ex_doc_def)
  with R show ?thesis by auto
qed

section \<open>Held documents\<close>

lemma quarantined_loop_take:
  assumes "int (length out) < limit"
  shows "quarantined_loop s tenant limit out ids =
    out @ take (nat limit - length out)
      (map (\<lambda>i. held_of (the (fmlookup (st_docs s) i)))
        (filter (\<lambda>i. \<not> Queryable (the (fmlookup (st_docs s) i)) \<and>
            doc_Tenant (the (fmlookup (st_docs s) i)) = tenant) ids))"
  using assms
proof (induction ids arbitrary: out)
  case (Cons i ids)
  let ?d = "the (fmlookup (st_docs s) i)"
  show ?case
  proof (cases "Queryable ?d \<or> doc_Tenant ?d \<noteq> tenant")
    case True
    then show ?thesis using Cons by (auto simp: Let_def)
  next
    case False
    have n: "nat limit - length out = Suc (nat limit - Suc (length out))" using Cons.prems by linarith
    show ?thesis
    proof (cases "int (length out) + 1 = limit")
      case True
      then have "nat limit - Suc (length out) = 0" by linarith
      then show ?thesis using False True by (simp add: Let_def n)
    next
      case more: False
      then have "int (length (out @ [held_of ?d])) < limit" using Cons.prems by simp
      from Cons.IH [OF this] show ?thesis using False more by (simp add: Let_def n)
    qed
  qed
qed simp

text \<open>
  Nothing is lost between the two counts an operator watches: the queryable and the held
  documents add up to the documents stored, and the quarantine list is the held documents of
  the tenant asked for, in the order met, cut at the limit.
\<close>

lemma foldl_stats:
  "foldl (\<lambda>st i. if P i then st\<lparr>stats_Documents := stats_Documents st + 1\<rparr>
      else st\<lparr>stats_Quarantined := stats_Quarantined st + 1\<rparr>)
     \<lparr>stats_Documents = m, stats_Quarantined = n\<rparr> xs =
   \<lparr>stats_Documents = m + int (length (filter P xs)),
    stats_Quarantined = n + int (length (filter (\<lambda>x. \<not> P x) xs))\<rparr>"
  by (induction xs arbitrary: m n) simp_all

lemma Quarantined_exact:
  assumes "\<not> st_closed s" "0 < limit"
  shows "Quarantined None tenant limit order s =
    Inr (take (nat limit) (map (\<lambda>i. held_of (the (fmlookup (st_docs s) i)))
      (filter (\<lambda>i. \<not> Queryable (the (fmlookup (st_docs s) i)) \<and>
          doc_Tenant (the (fmlookup (st_docs s) i)) = tenant) order)))"
  using assms quarantined_loop_take [of "[]" limit s tenant order] by (simp add: Quarantined_def)

lemma Stats_exact:
  assumes "\<not> st_closed s"
  shows "\<exists>st. Stats None s = Inr st \<and> stats_Documents st + stats_Quarantined st = int (fcard (fmdom (st_docs s)))"
proof -
  let ?P = "\<lambda>i. Queryable (the (fmlookup (st_docs s) i))"
  have "length (filter ?P (map_keys (st_docs s))) + length (filter (\<lambda>i. \<not> ?P i) (map_keys (st_docs s))) =
      length (map_keys (st_docs s))"
    by (rule sum_length_filter_compl)
  also have "\<dots> = fcard (fmdom (st_docs s))"
    by (simp add: map_keys_def fcard.rep_eq)
  finally show ?thesis
    using assms by (simp add: Stats_def foldl_stats)
qed

section \<open>Reading history\<close>

definition open_entry_of :: "memstore \<Rightarrow> opened \<Rightarrow> string \<Rightarrow> open_entry" where
  "open_entry_of s l i =
     \<lparr>open_Document = the (fmlookup (st_docs s) i),
      open_At = (case fmlookup (op_at l) i of Some t \<Rightarrow> t | None \<Rightarrow> 0)\<rparr>"

lemma opens_loop_take:
  assumes "int (length out) \<le> limit"
  shows "opens_loop U q s l limit out ids =
    out @ take (nat limit - length out) (map (open_entry_of s l) (filter (sees U q s) ids))"
  using assms
proof (induction ids arbitrary: out)
  case (Cons i ids)
  show ?case
  proof (cases "int (length out) < limit")
    case False
    then have "nat limit - length out = 0" using Cons.prems by linarith
    then show ?thesis using False by simp
  next
    case True
    then have n: "nat limit - length out = Suc (nat limit - Suc (length out))" by linarith
    show ?thesis
    proof (cases "sees U q s i")
      case seen: True
      then obtain d where d: "fmlookup (st_docs s) i = Some d" "visible U q d"
        by (auto simp: sees_def split: option.splits)
      have "int (length (out @ [open_entry_of s l i])) \<le> limit" using True by simp
      from Cons.IH [OF this] show ?thesis
        using True seen d by (simp add: n open_entry_of_def)
    next
      case False
      then show ?thesis
        using True Cons by (auto simp: sees_def split: option.splits)
    qed
  qed
qed simp

lemma Opens_exact:
  assumes "\<not> st_closed s" "0 < limit"
  shows "Opens U None (Some q) limit s =
    Inr (take (nat (min limit (int OpenHistory)))
      (map (open_entry_of s (log_of s (reader q)))
        (filter (sees U q s) (rev (op_ids (log_of s (reader q)))))))"
proof -
  let ?limit = "min limit (int OpenHistory)"
  have lim: "(if limit > int OpenHistory then int OpenHistory else limit) = ?limit"
    by (simp add: min_def)
  have "0 \<le> ?limit" using assms(2) by simp
  then show ?thesis
    using assms opens_loop_take [of "[]" ?limit U q s]
    by (simp add: Opens_def Let_def lim log_of_def split: option.split)
qed

lemma distinct_take_drop:
  assumes "distinct (xs @ [i])" "k \<le> length xs" "j \<in> set (drop k xs)"
  shows "j \<notin> set (take k (xs @ [i])) \<and> j \<noteq> i"
  using assms set_take_disj_set_drop_if_distinct [of xs k k] by (auto dest: in_set_dropD)

text \<open>
  Opening a document puts it first in the reader's history with the time it was opened,
  and it is there once: the rest is the history as it was, without this document, newest
  first, of the documents the reader may still read, cut at the limit and at the bound kept.
\<close>

theorem RecordOpen_Opens:
  assumes "logs_ok s" "writes U ctx (Some q) i s" "0 < limit"
    and "s' = snd (RecordOpen U ctx (Some q) i at s)"
  shows "Opens U None (Some q) limit s' =
    Inr (take (nat (min limit (int OpenHistory)))
      (\<lparr>open_Document = the (fmlookup (st_docs s) i), open_At = at\<rparr> #
       map (open_entry_of s (log_of s (reader q)))
         (filter (sees U q s)
           (take (OpenHistory - 1) (rev (remove1 i (op_ids (log_of s (reader q)))))))))"
proof -
  let ?l = "log_of s (reader q)"
  let ?l' = "record_open_log ?l i at"
  let ?m = "moved (op_ids ?l) i" and ?n = "length (moved (op_ids ?l) i) - OpenHistory"
  have ok: "log_ok ?l" by (rule log_ok_log_of [OF assms(1)])
  have s': "s' = s\<lparr>st_opens := fmupd (reader q) ?l' (st_opens s)\<rparr>"
    using assms(2,4) by (simp add: RecordOpen_effect)
  have same: "sees U q s' = sees U q s" "st_docs s' = st_docs s" "log_of s' (reader q) = ?l'"
      "\<not> st_closed s'" "sees U q s i"
    using assms(2) by (auto simp: s' sees_def fun_eq_iff log_of_def writes_def)
  have n: "?n \<le> length (remove1 i (op_ids ?l))"
    by (simp add: moved_def OpenHistory_def)
  let ?old = "drop ?n (remove1 i (op_ids ?l))"
  have ids: "op_ids ?l' = ?old @ [i]"
    using n by (simp add: record_open_ids moved_def)
  have take_eq: "rev ?old = take (OpenHistory - 1) (rev (remove1 i (op_ids ?l)))"
  proof -
    have "take (length xs - (length xs - n)) xs = take n xs" for n and xs :: "string list"
      by (cases "length xs \<le> n") simp_all
    from this [of "rev (remove1 i (op_ids ?l))" "OpenHistory - 1"] show ?thesis
      by (simp add: rev_drop moved_def OpenHistory_def)
  qed
  have new: "open_entry_of s' ?l' i = \<lparr>open_Document = the (fmlookup (st_docs s) i), open_At = at\<rparr>"
  proof -
    have "i \<notin> set (take ?n ?m)"
      using n ok by (auto simp: moved_def log_ok_def dest: in_set_takeD)
    then show ?thesis by (simp add: open_entry_of_def record_open_at same)
  qed
  have old: "open_entry_of s' ?l' j = open_entry_of s ?l j" if "j \<in> set ?old" for j
  proof -
    have "distinct (remove1 i (op_ids ?l) @ [i])"
      using ok moved_props(1) [of "op_ids ?l" i] by (simp add: log_ok_def moved_def)
    from distinct_take_drop [OF this n that] have "j \<notin> set (take ?n ?m)" "j \<noteq> i"
      unfolding moved_def by blast+
    then show ?thesis by (simp add: open_entry_of_def record_open_at same)
  qed
  have map_eq: "map (open_entry_of s' ?l') (filter (sees U q s) (rev ?old)) =
      map (open_entry_of s ?l) (filter (sees U q s) (rev ?old))"
    using old by (intro map_cong) auto
  show ?thesis
    unfolding take_eq [symmetric] map_eq [symmetric]
    using Opens_exact [OF same(4) assms(3), of U q] same(5)
    by (simp add: same ids new)
qed

theorem RecordOpen_Opens_witness:
  "Opens ascii_table None (Some (ex_principal ''mei'' [])) 5
     (snd (RecordOpen ascii_table None (Some (ex_principal ''mei'' [])) ''d1'' 7 ex_store)) =
   Inr [\<lparr>open_Document = ex_public ''d1'', open_At = 7\<rparr>]"
proof -
  have "logs_ok ex_store" by (simp add: logs_ok_def ex_store_def New_def)
  from RecordOpen_Opens [OF this ex_store_writes, of 5, OF _ refl]
  have "Opens ascii_table None (Some (ex_principal ''mei'' [])) 5
     (snd (RecordOpen ascii_table None (Some (ex_principal ''mei'' [])) ''d1'' 7 ex_store)) =
    Inr (take (nat (min 5 (int OpenHistory)))
      (\<lparr>open_Document = the (fmlookup (st_docs ex_store) ''d1''), open_At = 7\<rparr> #
       map (open_entry_of ex_store (log_of ex_store (reader (ex_principal ''mei'' []))))
         (filter (sees ascii_table (ex_principal ''mei'' []) ex_store) (take (OpenHistory - 1)
           (rev (remove1 ''d1'' (op_ids (log_of ex_store (reader (ex_principal ''mei'' []))))))))))"
    by simp
  then show ?thesis by (simp add: ex_store_def New_def log_of_def OpenHistory_def)
qed

section \<open>Deletion\<close>

lemma of_tenant_remove_one: "of_tenant (remove_one s i) t j \<longleftrightarrow> j \<noteq> i \<and> of_tenant s t j"
  by (simp add: of_tenant_def remove_one_fields)

lemma remove_loop_ids:
  "set (ids_of (fst (remove_loop s w ids)) t) =
     set (ids_of w t) \<union> {i \<in> set ids. of_tenant s t i}"
proof (induction ids arbitrary: s w)
  case (Cons i ids)
  show ?case
    by (auto simp: Cons Let_def of_tenant_remove_one split: option.split)
      (auto simp: of_tenant_def)
qed simp

lemma no_empty_group_remove_loop:
  "no_empty_group w \<Longrightarrow> no_empty_group (fst (remove_loop s w ids))"
  by (induction ids arbitrary: s w) (simp_all add: Let_def split: option.split)

lemma foldl_remove_one_fields:
  "fmlookup (st_docs (foldl remove_one s ids)) i = (if i \<in> set ids then None else fmlookup (st_docs s) i)"
  "fmlookup (st_content (foldl remove_one s ids)) i =
     (if i \<in> set ids then None else fmlookup (st_content s) i)"
  "fmlookup (st_verified (foldl remove_one s ids)) i =
     (if i \<in> set ids then None else fmlookup (st_verified s) i)"
  "fmlookup (st_owners (foldl remove_one s ids)) i =
     (if i \<in> set ids then None else fmlookup (st_owners s) i)"
  "fmlookup (st_reports (foldl remove_one s ids)) i =
     (if i \<in> set ids then None else fmlookup (st_reports s) i)"
  by (induction ids arbitrary: s) (auto simp: remove_one_fields)

text \<open>
  A deletion removes a document with its bytes and everything said about it, touches no
  other, and tells each tenant exactly the ids that were there; an id that is not there is no
  error, so the same deletion run again succeeds and tells nobody anything.
\<close>

theorem Delete_forgets:
  assumes "\<not> st_closed s" and "Delete None ids s = (err, changes, s')"
  shows "err = None \<and>
    fmlookup (st_docs s') i = (if i \<in> set ids then None else fmlookup (st_docs s) i) \<and>
    fmlookup (st_content s') i = (if i \<in> set ids then None else fmlookup (st_content s) i) \<and>
    fmlookup (st_verified s') i = (if i \<in> set ids then None else fmlookup (st_verified s) i) \<and>
    fmlookup (st_owners s') i = (if i \<in> set ids then None else fmlookup (st_owners s) i) \<and>
    fmlookup (st_reports s') i = (if i \<in> set ids then None else fmlookup (st_reports s) i) \<and>
    ((\<exists>c \<in> set changes. chg_Tenant c = t \<and> chg_Deleted c \<and> i \<in> set (chg_IDs c)) \<longleftrightarrow>
      i \<in> set ids \<and> of_tenant s t i) \<and>
    (\<forall>err2 changes2 s2. Delete None ids s' = (err2, changes2, s2) \<longrightarrow> err2 = None \<and> changes2 = [])"
proof -
  let ?r = "fst (remove_loop s fmempty ids)"
  have eq: "Delete None ids s = (None, changes_of (fst (remove_loop s fmempty ids)) True,
      foldl remove_one s ids)" if "\<not> st_closed s" for s
    using that snd_remove_loop [of s fmempty ids]
    by (cases "remove_loop s fmempty ids") (simp add: Delete_def remove_def)
  have r: "err = None" "changes = changes_of ?r True" "s' = foldl remove_one s ids"
    using assms(2) by (simp_all add: eq [OF assms(1)])
  have ne: "no_empty_group ?r" by (rule no_empty_group_remove_loop) simp
  have mem: "(\<exists>c \<in> set changes. chg_Tenant c = t \<and> chg_Deleted c \<and> i \<in> set (chg_IDs c)) \<longleftrightarrow>
      i \<in> set (ids_of ?r t)"
  proof
    assume "i \<in> set (ids_of ?r t)"
    then have "\<lparr>chg_Tenant = t, chg_IDs = ids_of ?r t, chg_Deleted = True\<rparr> \<in> set changes"
      unfolding r(2) set_changes_of [OF ne] by auto
    then show "\<exists>c \<in> set changes. chg_Tenant c = t \<and> chg_Deleted c \<and> i \<in> set (chg_IDs c)"
      using \<open>i \<in> set (ids_of ?r t)\<close> by force
  qed (auto simp: r(2) set_changes_of [OF ne])
  have closed: "\<not> st_closed s'"
    unfolding r(3) using assms(1) by (induction ids arbitrary: s) (simp_all add: remove_one_fields)
  have again: "remove_loop u fmempty js = (fmempty, foldl remove_one u js)"
    if "\<forall>j \<in> set js. fmlookup (st_docs u) j = None" for u js
    using that by (induction js arbitrary: u) (simp_all add: remove_one_fields)
  have "remove_loop s' fmempty ids = (fmempty, foldl remove_one s' ids)"
    by (rule again) (simp add: r(3) foldl_remove_one_fields)
  then have twice: "Delete None ids s' = (None, [], foldl remove_one s' ids)"
    by (simp add: eq [OF closed] changes_of_def)
  show ?thesis
    unfolding mem remove_loop_ids
    by (simp add: r(1) twice) (simp add: r(3) foldl_remove_one_fields)
qed

theorem Delete_forgets_witness:
  "fmlookup (st_docs (snd (snd (Delete None [''d1'', ''gone''] ex_store)))) ''d1'' = None"
proof -
  have "\<not> st_closed ex_store" by (simp add: ex_store_def New_def)
  moreover obtain err changes s' where "Delete None [''d1'', ''gone''] ex_store = (err, changes, s')"
    by (cases "Delete None [''d1'', ''gone''] ex_store")
  ultimately show ?thesis using Delete_forgets [of ex_store "[''d1'', ''gone'']" err changes s' "''d1''"] by simp
qed

section \<open>Answers\<close>

text \<open>
  An answer is found by exactly the phrasings it has. After \<open>Curate\<close> every phrasing of
  the answer leads to it in its tenant, a phrasing it no longer has leads nowhere, every other
  question is answered as before, and no other tenant notices.
\<close>

theorem Curate_Curated:
  assumes "answers_ok U s" "\<not> st_closed s" "Answer_Check U a = None"
    and "s' = snd (Curate U None (Some q) a s)"
  shows "Curated U None (Some r) question s' =
    (if p_Tenant r \<noteq> p_Tenant q then Curated U None (Some r) question s
     else if AnswerKey U question \<in> set (Keys U a) then Inr a
     else (case Curated U None (Some r) question s of
             Inr b \<Rightarrow> if ans_ID b = ans_ID a then Inl ErrNotFound else Inr b
           | Inl e \<Rightarrow> Inl e))"
proof -
  let ?k = "AnswerKey U question" and ?t = "p_Tenant q"
  have s': "s' = s\<lparr>st_answers := fmupd (?t, ans_ID a) a (st_answers s),
      st_phrasings := curated_phrasings U ?t a (st_phrasings (forget s ?t (ans_ID a)))\<rparr>"
    using assms(2-4) by (simp add: Curate_effect)
  have id: "ans_ID b = i" if "fmlookup (st_answers s) (t, i) = Some b" for t i b
    using assms(1) that by (auto simp: answers_ok_def)
  consider "p_Tenant r \<noteq> ?t" | "p_Tenant r = ?t" "?k \<in> set (Keys U a)"
    | "p_Tenant r = ?t" "?k \<notin> set (Keys U a)" by blast
  then show ?thesis
  proof cases
    case 3
    then show ?thesis
      using assms(2) id
      by (cases "fmlookup (st_phrasings s) (?t, ?k)")
        (auto simp: s' Curated_def fmlookup_curated_phrasings fmlookup_forget split: option.split)
  qed (use assms(2) in \<open>auto simp: s' Curated_def fmlookup_curated_phrasings fmlookup_forget
      split: option.split\<close>)
qed

definition ex_answer :: answer where
  "ex_answer = \<lparr>ans_ID = ''a1'', ans_Question = ''restart?'', ans_Variants = [], ans_Body = ''page 2'',
     ans_Sources = [], ans_By = nobody\<lparr>pr_Name := ''Ann''\<rparr>, ans_At = 1, ans_Until = 9\<rparr>"

lemma AnswerKey_ex: "AnswerKey ascii_table ''restart?'' = ''restart''"
  by (simp add: AnswerKey_def Tokenize_ascii byte_of_def RuneSelf_def word_rune_def
      ascii_lower_or_digit_def ascii_upper_def lower_byte_def)

lemma TrimSpace_ex: "TrimSpace ascii_table ''page 2'' = ''page 2''"
proof -
  have "runes_from 0 ''page 2'' = [(0, 112, 1), (1, 97, 1), (2, 103, 1), (3, 101, 1), (4, 32, 1), (5, 50, 1)]"
    by (simp add: runes_from_Cons byte_of_def RuneSelf_def)
  then show ?thesis by (simp add: TrimSpace_def IsSpace_def)
qed

lemma Answer_Check_ex: "Answer_Check ascii_table ex_answer = None"
  by (simp add: Answer_Check_def ex_answer_def AnswerKey_ex TrimSpace_ex nobody_def IsZero_def)

theorem Curate_Curated_witness:
  "Curated ascii_table None (Some (ex_principal ''bob'' [])) ''restart?''
     (snd (Curate ascii_table None (Some (ex_principal ''mei'' [])) ex_answer ex_store)) = Inr ex_answer"
proof -
  have "answers_ok ascii_table ex_store" "\<not> st_closed ex_store"
    by (simp_all add: answers_ok_def ex_store_def New_def)
  from Curate_Curated [OF this Answer_Check_ex refl]
  show ?thesis
    by (simp add: ex_principal_def set_Keys AnswerKey_ex ex_answer_def)
qed

section \<open>Reports\<close>

lemma foldl_latest:
  fixes f :: "'k \<Rightarrow> report"
  shows "let l = foldl (\<lambda>last k. if rep_At (f k) > rep_At last then f k else last) init ks
    in (\<forall>k \<in> set ks. rep_At (f k) \<le> rep_At l) \<and> rep_At init \<le> rep_At l \<and> (l = init \<or> l \<in> f ` set ks)"
proof (induction ks arbitrary: init)
  case (Cons k ks)
  show ?case
    using Cons [of "if rep_At (f k) > rep_At init then f k else init"]
    by (auto simp: Let_def split: if_splits)
qed simp

lemma gather_latest:
  assumes "set order = fset (fmdom said)"
  shows "(\<forall>k r. fmlookup said k = Some r \<longrightarrow> rep_At r \<le> rep_At (stale_Last (gather order i said key)))
    \<and> (stale_Last (gather order i said key) = zero_report \<or>
       (\<exists>k. fmlookup said k = Some (stale_Last (gather order i said key))))"
proof -
  let ?f = "\<lambda>k. the (fmlookup said k)"
  let ?l = "stale_Last (gather order i said key)"
  have l: "?l = foldl (\<lambda>last k. if rep_At (?f k) > rep_At last then ?f k else last) zero_report order"
    by (simp add: gather_def Let_def)
  have L: "(\<forall>k \<in> set order. rep_At (?f k) \<le> rep_At ?l) \<and> (?l = zero_report \<or> ?l \<in> ?f ` set order)"
    using foldl_latest [where init = zero_report and f = ?f and ks = order] unfolding l [symmetric] by (simp add: Let_def)
  have dom: "k \<in> set order \<longleftrightarrow> (\<exists>r. fmlookup said k = Some r)" for k
    by (auto simp: assms fmlookup_dom_iff)
  show ?thesis using L by (auto simp: dom image_iff) (metis option.sel dom)+
qed

text \<open>
  The count under a document is the number of people who reported it. A report by somebody
  new raises it by one, a second report by the same person replaces the first, everybody who
  can read the document sees the same count, each is told whether one of the reports is their
  own, no report is later than the one shown as the last, and withdrawing takes back exactly
  one's own.
\<close>

theorem Report_counts_people:
  assumes "writes U ctx p i s" "rep_Doc r = i" "Report_Check r = None" "ReportKey U p \<noteq> ''''"
    and "s' = snd (Report U ctx p r s)" "sees U q s i"
    and "set (ord i) = fset (fmdom (reports_on s' i))"
  shows "(\<exists>st. Reports U None (Some q) [i] ord s' = Inr (fmupd i st fmempty) \<and>
      stale_Count st = int (card (insert (ReportKey U p) (fset (fmdom (reports_on s i))))) \<and>
      (stale_Mine st \<longleftrightarrow> ReportKey U (Some q) \<noteq> '''' \<and>
        (ReportKey U (Some q) = ReportKey U p \<or> ReportKey U (Some q) |\<in>| fmdom (reports_on s i))) \<and>
      (\<forall>k w. fmlookup (reports_on s' i) k = Some w \<longrightarrow> rep_At w \<le> rep_At (stale_Last st))) \<and>
    reports_on (snd (Withdraw U ctx p i s')) i = fmdrop (ReportKey U p) (reports_on s i)"
proof -
  let ?key = "ReportKey U p" and ?kq = "ReportKey U (Some q)"
  let ?said = "fmupd ?key r (reports_on s i)"
  have s': "s' = s\<lparr>st_reports := fmupd i ?said (st_reports s)\<rparr>"
    using assms(1-5) by (simp add: Report_effect)
  have said: "reports_on s' i = ?said" by (simp add: s' reports_on_def)
  obtain d where d: "fmlookup (st_docs s) i = Some d" "visible U q d"
    using assms(6) by (auto simp: sees_def split: option.splits)
  have R: "Reports U None (Some q) [i] ord s' = Inr (fmupd i (gather (ord i) i ?said ?kq) fmempty)"
    using assms(1) d by (simp add: Reports_def s' writes_def)
  have w': "writes U ctx p i s'"
    using assms(1) by (simp add: s' writes_def sees_def)
  have "fmdrop ?key ?said = fmdrop ?key (reports_on s i)"
    by (rule fmap_ext) simp
  then have W: "reports_on (snd (Withdraw U ctx p i s')) i = fmdrop ?key (reports_on s i)"
    using w' assms(4)
    by (auto simp: Withdraw_effect said Let_def reports_on_def [of "_\<lparr>st_reports := _\<rparr>"]
        intro!: fmap_ext) (metis fmdom_notD fsingletonD fsubsetD)
  have L: "\<forall>k w. fmlookup ?said k = Some w \<longrightarrow> rep_At w \<le> rep_At (stale_Last (gather (ord i) i ?said ?kq))"
    using gather_latest [of "ord i" ?said i ?kq] assms(7) unfolding said by blast
  have "stale_Count (gather (ord i) i ?said ?kq) = int (card (insert ?key (fset (fmdom (reports_on s i)))))"
    by (simp add: gather_def fcard.rep_eq)
  moreover have "stale_Mine (gather (ord i) i ?said ?kq) \<longleftrightarrow> ?kq \<noteq> '''' \<and>
      (?kq = ?key \<or> ?kq |\<in>| fmdom (reports_on s i))"
    by (auto simp: gather_def fmlookup_dom_iff)
  ultimately show ?thesis using R L W unfolding said by blast
qed

definition ex_report :: report where
  "ex_report = \<lparr>rep_Doc = ''d1'', rep_By = nobody\<lparr>pr_Name := ''Bob''\<rparr>, rep_At = 4, rep_Note = ''stale''\<rparr>"

theorem Report_counts_people_witness:
  "reports_on (snd (Withdraw ascii_table None (Some (ex_principal ''bob'' [])) ''d1''
     (snd (Report ascii_table None (Some (ex_principal ''bob'' [])) ex_report ex_store)))) ''d1'' =
   fmdrop (ReportKey ascii_table (Some (ex_principal ''bob'' []))) (reports_on ex_store ''d1'')"
proof -
  let ?p = "ex_principal ''bob'' []"
  let ?s = "snd (Report ascii_table None (Some ?p) ex_report ex_store)"
  have key: "ReportKey ascii_table (Some ?p) \<noteq> ''''"
    using ReportKey_subject [of ?p ascii_table] by (simp add: ex_principal_def)
  have sees: "sees ascii_table ?p ex_store ''d1''"
    using ex_store_writes [of "''bob''" "[]"] by (simp add: writes_def)
  have r: "rep_Doc ex_report = ''d1''" "Report_Check ex_report = None"
    by (simp_all add: ex_report_def Report_Check_def nobody_def)
  have this: "set (map_keys (reports_on ?s ''d1'')) = fset (fmdom (reports_on ?s ''d1''))" by simp
  from Report_counts_people [where q = ?p and s' = ?s and i = "''d1''"
      and ord = "\<lambda>_. map_keys (reports_on ?s ''d1'')", OF ex_store_writes r key refl sees this]
  show ?thesis by blast
qed

section \<open>Permissions\<close>

lemma permit_fold_docs:
  "distinct order \<Longrightarrow> fmlookup (st_docs (foldl (permit_one t perms) s order)) i =
     (if i \<in> set order \<and> of_tenant s t i
      then map_option (\<lambda>d. d\<lparr>doc_Permissions := the (fmlookup perms i)\<rparr>) (fmlookup (st_docs s) i)
      else fmlookup (st_docs s) i)"
proof (induction order arbitrary: s)
  case (Cons j order)
  have "fmlookup (st_docs (permit_one t perms s j)) i =
      (if i = j \<and> of_tenant s t j
       then map_option (\<lambda>d. d\<lparr>doc_Permissions := the (fmlookup perms j)\<rparr>) (fmlookup (st_docs s) j)
       else fmlookup (st_docs s) i)"
    by (auto simp: permit_one_def of_tenant_def split: option.split)
  then show ?case using Cons by auto
qed simp

lemma SetPermissions_open:
  assumes "\<not> st_closed s"
  shows "SetPermissions None t perms order s =
    (Inr (int (length (filter (of_tenant s t) order))),
     changes_of (foldl (\<lambda>w i. batch_append w t i) fmempty (filter (of_tenant s t) order)) False,
     foldl (permit_one t perms) s order)"
  using assms by (simp add: SetPermissions_def setPermissions_def set_permissions_loop_eq)

text \<open>
  A change of permissions takes effect at once and nowhere else. Afterwards a document of
  the tenant that was named is readable by exactly those its new permissions allow, every
  other document, and every document of another tenant, is as it was, and the number returned
  and the ids reported are those of the documents rewritten.
\<close>

theorem SetPermissions_effect:
  assumes "\<not> st_closed s" "distinct order"
    and "SetPermissions None t perms order s = (r, changes, s')"
  shows "r = Inr (int (length (filter (of_tenant s t) order))) \<and>
    (c \<in> set changes \<longleftrightarrow> chg_Tenant c = t \<and> \<not> chg_Deleted c \<and> chg_IDs c \<noteq> [] \<and>
      chg_IDs c = filter (of_tenant s t) order) \<and>
    (if i \<in> set order \<and> of_tenant s t i
     then fmlookup (st_docs s') i =
         map_option (\<lambda>d. d\<lparr>doc_Permissions := the (fmlookup perms i)\<rparr>) (fmlookup (st_docs s) i) \<and>
       (\<forall>d. Get U None (Some q) i s' = Inr d \<longrightarrow> Allows U (the (fmlookup perms i)) (Some q))
     else fmlookup (st_docs s') i = fmlookup (st_docs s) i)"
proof -
  let ?w = "foldl (\<lambda>w i. batch_append w t i) fmempty (filter (of_tenant s t) order)"
  have eq: "r = Inr (int (length (filter (of_tenant s t) order)))" "changes = changes_of ?w False"
    "s' = foldl (permit_one t perms) s order"
    using assms(3) by (simp_all add: SetPermissions_open [OF assms(1)])
  have docs: "fmlookup (st_docs s') i = (if i \<in> set order \<and> of_tenant s t i
      then map_option (\<lambda>d. d\<lparr>doc_Permissions := the (fmlookup perms i)\<rparr>) (fmlookup (st_docs s) i)
      else fmlookup (st_docs s) i)"
    unfolding eq(3) by (rule permit_fold_docs [OF assms(2)])
  have "no_empty_group ?w" using no_empty_group_foldl [of fmempty "\<lambda>_. t" "\<lambda>i. i"] by simp
  note mem = set_changes_of [OF this, of c False]
  have "ids_of ?w (chg_Tenant c) = (if chg_Tenant c = t then filter (of_tenant s t) order else [])"
    using foldl_batch_append [of "\<lambda>_. t" "\<lambda>i. i" fmempty "filter (of_tenant s t) order" "chg_Tenant c"]
    by auto
  then have chg: "c \<in> set changes \<longleftrightarrow> chg_Tenant c = t \<and> \<not> chg_Deleted c \<and> chg_IDs c \<noteq> [] \<and>
      chg_IDs c = filter (of_tenant s t) order"
    unfolding eq(2) mem by (cases "chg_Tenant c = t") auto
  have "Allows U (the (fmlookup perms i)) (Some q)"
    if named: "i \<in> set order \<and> of_tenant s t i" and got: "Get U None (Some q) i s' = Inr d" for d
  proof -
    obtain d0 where "fmlookup (st_docs s) i = Some d0"
      using named by (auto simp: of_tenant_def split: option.splits)
    with named have "fmlookup (st_docs s') i = Some (d0\<lparr>doc_Permissions := the (fmlookup perms i)\<rparr>)"
      unfolding docs by simp
    then show ?thesis
      using got by (auto simp: Get_def visible_def split: if_splits)
  qed
  then show ?thesis using eq(1) chg docs by auto
qed

theorem SetPermissions_effect_witness:
  "fst (SetPermissions None ''acme'' (fmupd ''d1'' (ex_acl [] []) fmempty) [''d1''] ex_store) = Inr 1"
proof -
  have open_: "\<not> st_closed ex_store" by (simp add: ex_store_def New_def)
  obtain r changes s' where run:
    "SetPermissions None ''acme'' (fmupd ''d1'' (ex_acl [] []) fmempty) [''d1''] ex_store = (r, changes, s')"
    by (cases "SetPermissions None ''acme'' (fmupd ''d1'' (ex_acl [] []) fmempty) [''d1''] ex_store")
  have "distinct [''d1'']" by simp
  from SetPermissions_effect [OF open_ this run]
  have "r = Inr (int (length (filter (of_tenant ex_store ''acme'') [''d1''])))" by blast
  moreover have "of_tenant ex_store ''acme'' ''d1''"
    by (simp add: of_tenant_def ex_store_def ex_public_def ex_doc_def)
  ultimately show ?thesis unfolding run by simp
qed

end
