(* ===== verification/Directory.thy ===== *)
theory Directory
  imports Acl_Bitmap
begin

text \<open>
  Package \<open>directory\<close>: \<open>directory.go\<close> (what a provider answers), \<open>expand.go\<close> (the breadth
  first walk that turns a subject into the groups they are in) and \<open>static.go\<close> (a directory
  held in memory).

  A provider is the record \<open>directory\<close> of its three methods: its name and two lookups, which
  take the context the caller passes. The walk looks the groups of a level up concurrently;
  a schedule of a level is the list of its turns, in the order in which the goroutines look
  at the shared \<open>fail\<close> flag and finish. A turn names the index of the lookup, whether the
  goroutine read the flag before an earlier turn set it, and what the shared cancelled
  context shows to the lookup. The semaphore only bounds how many turns overlap, so every run
  of the program is one of these schedules.
\<close>

section \<open>What a provider answers (directory.go)\<close>

record subject =
  su_ID :: string
  su_Name :: string
  su_Email :: string
  su_Version :: string
  su_Identities :: "identity list"
  su_MemberOf :: "string list"
  su_Disabled :: bool

record dgroup =
  gr_ID :: string
  gr_Name :: string
  gr_Version :: string
  gr_MemberOf :: "string list"

record directory =
  dir_Name :: string
  dir_Subject :: "ctx \<Rightarrow> string \<Rightarrow> subject res"
  dir_Group :: "ctx \<Rightarrow> string \<Rightarrow> dgroup res"

section \<open>Expansions and resolvers (expand.go)\<close>

definition DefaultWidth :: int where "DefaultWidth = 16"
definition DefaultMaxGroups :: int where "DefaultMaxGroups = 10000"

record expansion =
  ex_Subject :: subject
  ex_Groups :: group_set
  ex_Unknown :: "string list"
  ex_Lookups :: nat
  ex_Depth :: nat

definition merge_identities :: "identity list \<Rightarrow> identity list \<Rightarrow> identity list" where
  "merge_identities mine theirs = foldl add_new mine theirs"

definition Apply :: "expansion \<Rightarrow> principal option \<Rightarrow> principal option" where
  "Apply e p =
     (case p of
        None \<Rightarrow> None
      | Some p \<Rightarrow>
          Some (p\<lparr>p_Groups := ex_Groups e,
                  p_Identities := merge_identities (p_Identities p) (su_Identities (ex_Subject e))\<rparr>))"

record counters =
  ct_Expansions :: "64 word"
  ct_Failures :: "64 word"
  ct_Lookups :: "64 word"
  ct_Missing :: "64 word"
  ct_Disabled :: "64 word"
  ct_Unresolved :: "64 word"

definition zero_counters :: counters where
  "zero_counters = \<lparr>ct_Expansions = 0, ct_Failures = 0, ct_Lookups = 0, ct_Missing = 0,
     ct_Disabled = 0, ct_Unresolved = 0\<rparr>"

record resolver =
  rs_dir :: directory
  rs_width :: int
  rs_max :: int
  rs_counters :: counters

definition WithWidth :: "int \<Rightarrow> resolver \<Rightarrow> resolver" where
  "WithWidth n r = r\<lparr>rs_width := (if n < 1 then DefaultWidth else n)\<rparr>"

definition WithMaxGroups :: "int \<Rightarrow> resolver \<Rightarrow> resolver" where
  "WithMaxGroups n r = r\<lparr>rs_max := (if n < 1 then DefaultMaxGroups else n)\<rparr>"

definition NewResolver :: "directory option \<Rightarrow> (resolver \<Rightarrow> resolver) list \<Rightarrow> resolver res" where
  "NewResolver d opts =
     (case d of
        None \<Rightarrow> Inl (ErrConfig ''a directory is required'')
      | Some d \<Rightarrow>
          if dir_Name d = '''' then Inl (ErrConfig ''a directory must have a name'')
          else Inr (foldl (\<lambda>r opt. opt r)
                 \<lparr>rs_dir = d, rs_width = DefaultWidth, rs_max = DefaultMaxGroups,
                  rs_counters = zero_counters\<rparr> opts))"

definition Resolver_Name :: "resolver \<Rightarrow> string" where
  "Resolver_Name r = dir_Name (rs_dir r)"

definition Counters :: "resolver \<Rightarrow> counters" where
  "Counters r = rs_counters r"

text \<open>The atomic additions, each on its own counter.\<close>

definition count_lookups :: "nat \<Rightarrow> resolver \<Rightarrow> resolver" where
  "count_lookups n r =
     r\<lparr>rs_counters := (rs_counters r)\<lparr>ct_Lookups := ct_Lookups (rs_counters r) + word_of_nat n\<rparr>\<rparr>"

definition count_failure :: "resolver \<Rightarrow> resolver" where
  "count_failure r =
     r\<lparr>rs_counters := (rs_counters r)\<lparr>ct_Failures := ct_Failures (rs_counters r) + 1\<rparr>\<rparr>"

definition count_missing :: "resolver \<Rightarrow> resolver" where
  "count_missing r =
     r\<lparr>rs_counters := (rs_counters r)\<lparr>ct_Missing := ct_Missing (rs_counters r) + 1\<rparr>\<rparr>"

definition count_disabled :: "resolver \<Rightarrow> resolver" where
  "count_disabled r =
     r\<lparr>rs_counters := (rs_counters r)\<lparr>ct_Disabled := ct_Disabled (rs_counters r) + 1\<rparr>\<rparr>"

definition count_expansion :: "nat \<Rightarrow> resolver \<Rightarrow> resolver" where
  "count_expansion unresolved r =
     r\<lparr>rs_counters := (rs_counters r)
         \<lparr>ct_Expansions := ct_Expansions (rs_counters r) + 1,
          ct_Unresolved := ct_Unresolved (rs_counters r) + word_of_nat unresolved\<rparr>\<rparr>"

section \<open>The ids of a level, and the version of an answer\<close>

fun dedupe_loop :: "string list \<Rightarrow> string list \<Rightarrow> string list" where
  "dedupe_loop out [] = out"
| "dedupe_loop out (v # vs) =
     (if v = '''' \<or> v \<in> set out then dedupe_loop out vs else dedupe_loop (out @ [v]) vs)"

definition dedupe :: "string list \<Rightarrow> string list" where
  "dedupe ids = dedupe_loop [] ids"

definition version_of :: "(string, string) fmap \<Rightarrow> string \<Rightarrow> string" where
  "version_of versions i = (case fmlookup versions i of None \<Rightarrow> '''' | Some v \<Rightarrow> v)"

definition fingerprint_bytes ::
  "string \<Rightarrow> string \<Rightarrow> string list \<Rightarrow> (string \<Rightarrow> string) \<Rightarrow> string" where
  "fingerprint_bytes source subj ids ver =
     source @ [CHR 0x00] @ subj @ [CHR 0x00] @
     concat (map (\<lambda>i. i @ [CHR 0x00] @ ver i @ [CHR 0x00]) ids)"

definition fingerprint ::
  "string \<Rightarrow> string \<Rightarrow> string list \<Rightarrow> (string, string) fmap \<Rightarrow> 64 word" where
  "fingerprint source subj ids versions =
     (let v = fnv64a (fingerprint_bytes source subj ids (version_of versions))
      in if v \<noteq> 0 then v else 1)"

section \<open>One level of the walk\<close>

record answer =
  an_group :: dgroup
  an_absent :: bool

definition zero_group :: dgroup where
  "zero_group = \<lparr>gr_ID = '''', gr_Name = '''', gr_Version = '''', gr_MemberOf = []\<rparr>"

definition zero_answer :: answer where
  "zero_answer = \<lparr>an_group = zero_group, an_absent = False\<rparr>"

type_synonym turn = "nat \<times> bool \<times> ctx"

record flight =
  fl_out :: "answer list"
  fl_errs :: "error option list"
  fl_fail :: bool

definition lookup_turn :: "directory \<Rightarrow> string list \<Rightarrow> flight \<Rightarrow> turn \<Rightarrow> flight" where
  "lookup_turn d ids f t =
     (case t of (i, early, c) \<Rightarrow>
        if fl_fail f \<and> \<not> early then f
        else
          (case dir_Group d c (ids ! i) of
             Inl e \<Rightarrow>
               if e = ErrNoGroup
               then f\<lparr>fl_out := (fl_out f)[i := \<lparr>an_group = zero_group, an_absent = True\<rparr>]\<rparr>
               else f\<lparr>fl_errs := (fl_errs f)[i := Some e], fl_fail := True\<rparr>
           | Inr g \<Rightarrow>
               let g = (if gr_ID g = '''' then g\<lparr>gr_ID := ids ! i\<rparr> else g)
               in f\<lparr>fl_out := (fl_out f)[i := \<lparr>an_group = g, an_absent = False\<rparr>]\<rparr>))"

fun first_error :: "error option list \<Rightarrow> (error \<Rightarrow> bool) \<Rightarrow> error option" where
  "first_error [] P = None"
| "first_error (None # es) P = first_error es P"
| "first_error (Some e # es) P = (if P e then Some e else first_error es P)"

definition level :: "directory \<Rightarrow> turn list \<Rightarrow> string list \<Rightarrow> answer list res" where
  "level d turns ids =
     (let f = foldl (lookup_turn d ids)
                \<lparr>fl_out = replicate (length ids) zero_answer,
                 fl_errs = replicate (length ids) None, fl_fail = False\<rparr> turns
      in case first_error (fl_errs f) (\<lambda>e. e \<noteq> Canceled) of
           Some e \<Rightarrow> Inl e
         | None \<Rightarrow>
             (case first_error (fl_errs f) (\<lambda>e. True) of
                Some e \<Rightarrow> Inl e
              | None \<Rightarrow> Inr (fl_out f)))"

section \<open>The walk\<close>

fun scan_ups ::
  "string list \<Rightarrow> (string, string) fmap \<Rightarrow> string list \<Rightarrow> (string, string) fmap \<times> string list"
where
  "scan_ups [] seen next = (seen, next)"
| "scan_ups (up # ups) seen next =
     (if up = '''' then scan_ups ups seen next
      else case fmlookup seen up of
             Some _ \<Rightarrow> scan_ups ups seen next
           | None \<Rightarrow> scan_ups ups (fmupd up '''' seen) (next @ [up]))"

fun scan_found ::
  "(string \<times> answer) list \<Rightarrow> (string, string) fmap \<Rightarrow> string list \<Rightarrow> string list \<Rightarrow>
    (string, string) fmap \<times> string list \<times> string list"
where
  "scan_found [] seen unknown next = (seen, unknown, next)"
| "scan_found ((i, got) # rest) seen unknown next =
     (if an_absent got then scan_found rest seen (unknown @ [i]) next
      else
        let (seen, next) =
              scan_ups (gr_MemberOf (an_group got)) (fmupd i (gr_Version (an_group got)) seen) next
        in scan_found rest seen unknown next)"

definition seen_count :: "(string, string) fmap \<Rightarrow> nat" where
  "seen_count seen = fcard (fmdom seen)"

text \<open>
  What an expansion meets while it runs: what \<open>ctx.Err()\<close> returns at its n-th check, the
  context its subject lookup sees, and the schedule of the level at each depth, which may
  depend on the ids of that level.
\<close>

record run =
  run_poll :: "nat \<Rightarrow> ctx"
  run_call :: ctx
  run_turns :: "nat \<Rightarrow> string list \<Rightarrow> turn list"

lemma seen_count_upd:
  "seen_count (fmupd k v m) = (if fmlookup m k = None then Suc (seen_count m) else seen_count m)"
proof -
  have "fmlookup m k = None \<longleftrightarrow> k |\<notin>| fmdom m"
    by (meson fmdom_notD fmdom_notI)
  then show ?thesis
    by (auto simp: seen_count_def fcard_finsert_disjoint finsert_absorb)
qed

lemma scan_ups_count:
  "scan_ups ups seen next = (seen', next') \<Longrightarrow>
     seen_count seen' + length next = seen_count seen + length next'"
  by (induction ups seen "next" rule: scan_ups.induct)
    (auto simp: seen_count_upd split: if_splits option.splits)

lemma scan_found_count:
  "scan_found found seen unknown next = (seen', unknown', next') \<Longrightarrow>
     seen_count seen + length next' \<le> seen_count seen' + length next"
proof (induction found seen unknown "next" rule: scan_found.induct)
  case (2 i got rest seen unknown "next")
  show ?case
  proof (cases "an_absent got")
    case True
    then show ?thesis
      using 2 by simp
  next
    case False
    obtain seen1 next1 where *: "scan_ups (gr_MemberOf (an_group got))
        (fmupd i (gr_Version (an_group got)) seen) next = (seen1, next1)"
      by fastforce
    have "seen_count seen1 + length next' \<le> seen_count seen' + length next1"
      using 2(3) False * by (intro 2(2) [OF False *[symmetric] refl]) simp
    then show ?thesis
      using scan_ups_count [OF *] by (auto simp: seen_count_upd split: if_splits)
  qed
qed simp

text \<open>
  The walk itself. It ends for every provider, also for one that describes an infinite graph,
  because a round that schedules new groups makes \<open>seen\<close> larger and \<open>seen\<close> is bounded.
  The second component is the number of lookups so far, the subject's included.
\<close>

function expand_loop ::
  "directory \<Rightarrow> int \<Rightarrow> run \<Rightarrow> string list \<Rightarrow> (string, string) fmap \<Rightarrow> string list \<Rightarrow> nat \<Rightarrow> nat \<Rightarrow>
    ((string, string) fmap \<times> string list \<times> nat) res \<times> nat"
where
  "expand_loop d bound w frontier seen unknown lookups depth =
     (if frontier = [] then (Inr (seen, unknown, depth), lookups)
      else
        case run_poll w (Suc depth) of
          Some e \<Rightarrow> (Inl e, lookups)
        | None \<Rightarrow>
            (case level d (run_turns w (Suc depth) frontier) frontier of
               Inl e \<Rightarrow> (Inl e, lookups + length frontier)
             | Inr found \<Rightarrow>
                 let r = scan_found (zip frontier found) seen unknown [];
                     seen' = fst r; unknown' = fst (snd r); next = snd (snd r)
                 in if int (seen_count seen') > bound
                    then (Inl ErrTooManyGroups, lookups + length frontier)
                    else expand_loop d bound w next seen' unknown'
                           (lookups + length frontier) (Suc depth)))"
  by pat_completeness auto

termination
proof (relation "measure (\<lambda>(d, bound, w, frontier, seen, unknown, lookups, depth).
    if frontier = [] then 0 else Suc (nat bound + 1 - seen_count seen))", simp, goal_cases)
  case (1 d bound w frontier seen unknown lookups depth found r seen' unknown' "next")
  then have "scan_found (zip frontier found) seen unknown [] = (seen', unknown', next)"
    by simp
  from scan_found_count [OF this] have "seen_count seen + length next \<le> seen_count seen'"
    by simp
  then have "next \<noteq> [] \<Longrightarrow> seen_count seen < seen_count seen'"
    by (cases "next") auto
  moreover have "seen_count seen' \<le> nat bound"
    using 1 by auto
  ultimately show ?case
    using 1(1) by auto
qed

declare expand_loop.simps [simp del]

definition initial_seen :: "string list \<Rightarrow> (string, string) fmap" where
  "initial_seen frontier = foldl (\<lambda>m g. fmupd g '''' m) fmempty frontier"

definition Expand :: "resolver \<Rightarrow> run \<Rightarrow> string \<Rightarrow> expansion res \<times> resolver" where
  "Expand r w i =
     (case run_poll w 0 of
        Some e \<Rightarrow> (Inl e, r)
      | None \<Rightarrow>
          let d = rs_dir r; got = dir_Subject d (run_call w) i; r = count_lookups 1 r
          in case got of
               Inl e \<Rightarrow>
                 if e = ErrNoSubject then (Inl e, count_failure (count_missing r))
                 else (Inl e, count_failure r)
             | Inr sub \<Rightarrow>
                 if su_Disabled sub then (Inl ErrDisabled, count_failure (count_disabled r))
                 else
                   let sub = (if su_ID sub = '''' then sub\<lparr>su_ID := i\<rparr> else sub);
                       frontier = dedupe (su_MemberOf sub);
                       seen = initial_seen frontier
                   in if int (seen_count seen) > rs_max r then (Inl ErrTooManyGroups, count_failure r)
                      else
                        case expand_loop d (rs_max r) w frontier seen [] 1 0 of
                          (Inl e, lookups) \<Rightarrow> (Inl e, count_failure (count_lookups (lookups - 1) r))
                        | (Inr (seen, unknown, depth), lookups) \<Rightarrow>
                            let ids = map_keys seen;
                                members =
                                  map (\<lambda>g. GroupKey \<lparr>ref_Source = dir_Name d, ref_Value = g\<rparr>) ids
                            in (Inr \<lparr>ex_Subject = sub,
                                     ex_Groups =
                                       \<lparr>gs_Version = fingerprint (dir_Name d) (su_Version sub) ids seen,
                                        gs_Members = members\<rparr>,
                                     ex_Unknown = sort unknown, ex_Lookups = lookups,
                                     ex_Depth = depth\<rparr>,
                                count_expansion (length unknown) (count_lookups (lookups - 1) r)))"

section \<open>A directory held in memory (static.go)\<close>

record static =
  sd_name :: string
  sd_subjects :: "(string, subject) fmap"
  sd_groups :: "(string, dgroup) fmap"

definition NewStatic :: "string \<Rightarrow> static" where
  "NewStatic name = \<lparr>sd_name = name, sd_subjects = fmempty, sd_groups = fmempty\<rparr>"

definition Static_Put :: "static \<Rightarrow> subject \<Rightarrow> static" where
  "Static_Put s sub =
     (if su_ID sub = '''' then s
      else s\<lparr>sd_subjects := fmupd (su_ID sub) sub (sd_subjects s)\<rparr>)"

definition PutGroup :: "static \<Rightarrow> dgroup \<Rightarrow> static" where
  "PutGroup s g =
     (if gr_ID g = '''' then s else s\<lparr>sd_groups := fmupd (gr_ID g) g (sd_groups s)\<rparr>)"

definition Static_Remove :: "static \<Rightarrow> string \<Rightarrow> static" where
  "Static_Remove s i = s\<lparr>sd_subjects := fmdrop i (sd_subjects s)\<rparr>"

definition RemoveGroup :: "static \<Rightarrow> string \<Rightarrow> static" where
  "RemoveGroup s i = s\<lparr>sd_groups := fmdrop i (sd_groups s)\<rparr>"

definition Static_Subject :: "static \<Rightarrow> ctx \<Rightarrow> string \<Rightarrow> subject res" where
  "Static_Subject s c i =
     (case fmlookup (sd_subjects s) i of None \<Rightarrow> Inl ErrNoSubject | Some sub \<Rightarrow> Inr sub)"

definition Static_Group :: "static \<Rightarrow> ctx \<Rightarrow> string \<Rightarrow> dgroup res" where
  "Static_Group s c i =
     (case fmlookup (sd_groups s) i of None \<Rightarrow> Inl ErrNoGroup | Some g \<Rightarrow> Inr g)"

definition Load :: "static \<Rightarrow> subject list \<Rightarrow> dgroup list \<Rightarrow> static" where
  "Load s subs groups =
     s\<lparr>sd_subjects :=
         foldl (\<lambda>m sub. if su_ID sub \<noteq> '''' then fmupd (su_ID sub) sub m else m) fmempty subs,
       sd_groups :=
         foldl (\<lambda>m g. if gr_ID g \<noteq> '''' then fmupd (gr_ID g) g m else m) fmempty groups\<rparr>"

definition Snapshot :: "static \<Rightarrow> subject list \<times> dgroup list" where
  "Snapshot s =
     (map (\<lambda>i. the (fmlookup (sd_subjects s) i)) (map_keys (sd_subjects s)),
      map (\<lambda>i. the (fmlookup (sd_groups s) i)) (map_keys (sd_groups s)))"

definition static_directory :: "static \<Rightarrow> directory" where
  "static_directory s =
     \<lparr>dir_Name = sd_name s, dir_Subject = Static_Subject s, dir_Group = Static_Group s\<rparr>"

end
