(* ===== verification/Directory_Closure.thy ===== *)
theory Directory_Closure
  imports Directory
begin

text \<open>
  What \<open>Resolver.Expand\<close> answers: the groups reachable from the subject's own, whatever the
  graph looks like and in whatever order the lookups of a level run. \<open>reaches\<close> is the
  specification; \<open>walk_inv\<close> is the invariant of the breadth first walk that ties it to the
  code's \<open>seen\<close>, \<open>frontier\<close> and \<open>unknown\<close>. The locale \<open>identity_directory\<close> is what the walk
  asks of a provider.
\<close>

section \<open>The specification\<close>

inductive reaches :: "directory \<Rightarrow> string list \<Rightarrow> string \<Rightarrow> bool"
  for d :: directory and roots :: "string list"
where
  root: "g \<in> set roots \<Longrightarrow> g \<noteq> '''' \<Longrightarrow> reaches d roots g"
| up: "reaches d roots h \<Longrightarrow> dir_Group d None h = Inr x \<Longrightarrow> g \<in> set (gr_MemberOf x) \<Longrightarrow>
        g \<noteq> '''' \<Longrightarrow> reaches d roots g"

definition answered :: "directory \<Rightarrow> string \<Rightarrow> bool" where
  "answered d g = (case dir_Group d None g of Inl e \<Rightarrow> e = ErrNoGroup | Inr x \<Rightarrow> True)"

definition unheld :: "directory \<Rightarrow> string \<Rightarrow> bool" where
  "unheld d g \<longleftrightarrow> dir_Group d None g = Inl ErrNoGroup"

definition ups :: "directory \<Rightarrow> string \<Rightarrow> string set" where
  "ups d g = (case dir_Group d None g of Inl e \<Rightarrow> {} | Inr x \<Rightarrow> set (gr_MemberOf x) - {''''})"

definition revision :: "directory \<Rightarrow> string \<Rightarrow> string" where
  "revision d g = (case dir_Group d None g of Inl e \<Rightarrow> '''' | Inr x \<Rightarrow> gr_Version x)"

definition answer_of :: "directory \<Rightarrow> string \<Rightarrow> answer" where
  "answer_of d g =
     (case dir_Group d None g of
        Inl e \<Rightarrow> \<lparr>an_group = zero_group, an_absent = True\<rparr>
      | Inr x \<Rightarrow>
          \<lparr>an_group = (if gr_ID x = '''' then x\<lparr>gr_ID := g\<rparr> else x), an_absent = False\<rparr>)"

lemma reaches_ups: "reaches d roots h \<Longrightarrow> g \<in> ups d h \<Longrightarrow> reaches d roots g"
  by (auto simp: ups_def split: sum.splits intro: reaches.up)

lemma reaches_least:
  assumes "reaches d roots g"
    and "set roots - {''''} \<subseteq> S" and "\<And>h. h \<in> S \<Longrightarrow> ups d h \<subseteq> S"
  shows "g \<in> S"
  using assms(1)
proof induction
  case (up h x g)
  then have "g \<in> ups d h"
    by (simp add: ups_def)
  then show ?case
    using assms(3) up by blast
qed (use assms(2) in auto)

text \<open>
  A schedule runs every lookup of a level exactly once. It is live when no lookup sees a
  cancelled context before a failure has cancelled the level.
\<close>

definition start_flight :: "nat \<Rightarrow> flight" where
  "start_flight n =
     \<lparr>fl_out = replicate n zero_answer, fl_errs = replicate n None, fl_fail = False\<rparr>"

definition turns_cover :: "nat \<Rightarrow> turn list \<Rightarrow> bool" where
  "turns_cover n turns \<longleftrightarrow> mset (map fst turns) = mset [0..<n]"

fun live_turns :: "directory \<Rightarrow> string list \<Rightarrow> flight \<Rightarrow> turn list \<Rightarrow> bool" where
  "live_turns d ids f [] = True"
| "live_turns d ids f (t # ts) =
     ((fl_fail f \<or> snd (snd t) = None) \<and> live_turns d ids (lookup_turn d ids f t) ts)"

definition covers :: "run \<Rightarrow> bool" where
  "covers w \<longleftrightarrow> (\<forall>depth ids. turns_cover (length ids) (run_turns w depth ids))"

definition undisturbed :: "directory \<Rightarrow> run \<Rightarrow> bool" where
  "undisturbed d w \<longleftrightarrow>
     (\<forall>n. run_poll w n = None) \<and> run_call w = None \<and>
     (\<forall>depth ids. live_turns d ids (start_flight (length ids)) (run_turns w depth ids))"

section \<open>The errors of a level\<close>

lemma first_error_None: "first_error es P = None \<longleftrightarrow> (\<forall>e. Some e \<in> set es \<longrightarrow> \<not> P e)"
  by (induction es P rule: first_error.induct) auto

lemma first_error_Some: "first_error es P = Some e \<Longrightarrow> Some e \<in> set es \<and> P e"
  by (induction es P rule: first_error.induct) (auto split: if_splits)

lemma level_def2:
  "level d turns ids =
     (let f = foldl (lookup_turn d ids) (start_flight (length ids)) turns
      in if set (fl_errs f) \<subseteq> {None} then Inr (fl_out f)
         else Inl (case first_error (fl_errs f) (\<lambda>e. e \<noteq> Canceled) of
                     Some e \<Rightarrow> e | None \<Rightarrow> the (first_error (fl_errs f) (\<lambda>e. True))))"
proof -
  have *: "set es \<subseteq> {None} \<longleftrightarrow> first_error es (\<lambda>e. True) = None" for es
    by (auto simp: first_error_None) (metis not_Some_eq)
  have "set es \<subseteq> {None} \<Longrightarrow> first_error es P = None" for es P
    by (auto simp: first_error_None)
  then show ?thesis
    by (auto simp: level_def start_flight_def [symmetric] Let_def * split: option.split)
qed

lemma flight_lengths:
  "length (fl_out (foldl (lookup_turn d ids) f ts)) = length (fl_out f)"
  "length (fl_errs (foldl (lookup_turn d ids) f ts)) = length (fl_errs f)"
  by (induction ts arbitrary: f)
    (auto simp: lookup_turn_def Let_def split: prod.split sum.split)

lemma flight_fail_mono: "fl_fail f \<Longrightarrow> fl_fail (foldl (lookup_turn d ids) f ts)"
  by (induction ts arbitrary: f)
    (auto simp: lookup_turn_def Let_def split: prod.split sum.split)

text \<open>A set flag is a recorded error, so a level with a skipped lookup never answers.\<close>

lemma flight_fail_errs:
  assumes "\<forall>t \<in> set ts. fst t < length (fl_errs f)"
    and "fl_fail f \<longleftrightarrow> \<not> set (fl_errs f) \<subseteq> {None}"
  shows "fl_fail (foldl (lookup_turn d ids) f ts) \<longleftrightarrow>
    \<not> set (fl_errs (foldl (lookup_turn d ids) f ts)) \<subseteq> {None}"
  using assms
proof (induction ts arbitrary: f)
  case (Cons t ts)
  have "Some e \<in> set ((fl_errs f)[fst t := Some e])" for e
    using Cons.prems(1) by (auto intro: set_update_memI)
  then have "fl_fail (lookup_turn d ids f t) \<longleftrightarrow>
      \<not> set (fl_errs (lookup_turn d ids f t)) \<subseteq> {None}"
    using Cons.prems(2) by (force simp: lookup_turn_def Let_def split: prod.split sum.split)
  moreover have "length (fl_errs (lookup_turn d ids f t)) = length (fl_errs f)"
    using flight_lengths(2) [of d ids f "[t]"] by simp
  ultimately show ?case
    using Cons.IH [of "lookup_turn d ids f t"] Cons.prems by simp
qed simp

lemma turns_cover_set: "turns_cover n turns \<Longrightarrow> fst ` set turns = {0..<n}"
  unfolding turns_cover_def by (metis list.set_map set_mset_mset set_upt)

lemma turns_cover_less: "turns_cover n turns \<Longrightarrow> \<forall>t \<in> set turns. fst t < n"
  using turns_cover_set [of n turns] by (metis atLeastLessThan_iff imageI)

section \<open>What the walk asks of a provider\<close>

text \<open>
  A provider's answer about a group does not depend on the context, except that a context may
  make the lookup fail; and a failed lookup is not the statement that a group is not held.
\<close>

locale identity_directory =
  fixes d :: directory
  assumes cancel_only:
    "dir_Group d c g = dir_Group d None g \<or> (\<exists>e. dir_Group d c g = Inl e \<and> e \<noteq> ErrNoGroup)"
begin

lemma lookup_answers:
  assumes "\<not> fl_fail (lookup_turn d ids f (i, early, c))" and "i < length (fl_out f)"
  shows "\<not> fl_fail f \<and> answered d (ids ! i) \<and>
    fl_out (lookup_turn d ids f (i, early, c)) = (fl_out f)[i := answer_of d (ids ! i)]"
  using assms cancel_only [of c "ids ! i"]
  by (auto simp: lookup_turn_def Let_def answered_def answer_of_def split: if_splits sum.splits)

lemma turns_answer:
  assumes "\<forall>t \<in> set ts. fst t < length (fl_out f)"
    and "\<not> fl_fail (foldl (lookup_turn d ids) f ts)"
    and "i \<in> fst ` set ts \<or> fl_out f ! i = answer_of d (ids ! i) \<and> answered d (ids ! i)"
    and "i < length (fl_out f)"
  shows "answered d (ids ! i) \<and>
    fl_out (foldl (lookup_turn d ids) f ts) ! i = answer_of d (ids ! i)"
  using assms
proof (induction ts arbitrary: f)
  case (Cons t ts)
  obtain j early c where t: "t = (j, early, c)"
    by (cases t)
  let ?f = "lookup_turn d ids f t"
  have "\<not> fl_fail ?f"
    using Cons.prems(2) flight_fail_mono by auto
  then have "answered d (ids ! j)" and out: "fl_out ?f = (fl_out f)[j := answer_of d (ids ! j)]"
    using lookup_answers [of ids f j early c] Cons.prems(1) t by auto
  moreover from this have "i \<in> fst ` set ts \<or>
      fl_out ?f ! i = answer_of d (ids ! i) \<and> answered d (ids ! i)"
    using Cons.prems(3,4) t by (cases "i = j") auto
  ultimately show ?case
    using Cons.IH [of ?f] Cons.prems by simp
qed simp

lemma level_Inr:
  assumes "turns_cover (length ids) turns" and "level d turns ids = Inr found"
  shows "found = map (answer_of d) ids \<and> (\<forall>g \<in> set ids. answered d g)"
proof -
  let ?s = "start_flight (length ids)"
  let ?f = "foldl (lookup_turn d ids) ?s turns"
  have set: "fst ` set turns = {0..<length ids}"
    using assms(1) by (rule turns_cover_set)
  have errs: "set (fl_errs ?f) \<subseteq> {None}" and found: "found = fl_out ?f"
    using assms(2) by (auto simp: level_def2 Let_def split: if_splits)
  have "fl_fail ?f \<longleftrightarrow> \<not> set (fl_errs ?f) \<subseteq> {None}"
    using turns_cover_less [OF assms(1)]
    by (intro flight_fail_errs) (auto simp: start_flight_def)
  then have "answered d (ids ! i) \<and> fl_out ?f ! i = answer_of d (ids ! i)" if "i < length ids" for i
    using set errs that turns_cover_less [OF assms(1)]
    by (intro turns_answer) (auto simp: start_flight_def)
  moreover have "length (fl_out ?f) = length ids"
    by (simp add: flight_lengths start_flight_def)
  ultimately show ?thesis
    unfolding found by (auto simp: in_set_conv_nth intro: nth_equalityI)
qed

lemma live_no_fail:
  assumes "live_turns d ids f ts" "\<not> fl_fail f" "\<forall>t \<in> set ts. fst t < length ids"
    and "\<forall>g \<in> set ids. answered d g"
  shows "\<not> fl_fail (foldl (lookup_turn d ids) f ts)"
  using assms
proof (induction ts arbitrary: f)
  case (Cons t ts)
  obtain j early where "t = (j, early, None)" and "j < length ids"
    using Cons.prems by (cases t) auto
  then have "\<not> fl_fail (lookup_turn d ids f t)"
    using Cons.prems(2,4)
    by (auto simp: lookup_turn_def Let_def answered_def split: sum.split
        dest!: bspec [where x = "ids ! j"])
  then show ?case
    using Cons by simp
qed simp

lemma level_live:
  assumes "turns_cover (length ids) turns"
    and "live_turns d ids (start_flight (length ids)) turns"
    and "\<forall>g \<in> set ids. answered d g"
  shows "level d turns ids = Inr (map (answer_of d) ids)"
proof -
  let ?s = "start_flight (length ids)"
  let ?f = "foldl (lookup_turn d ids) ?s turns"
  have "\<not> fl_fail ?f"
    using live_no_fail [OF assms(2) _ turns_cover_less [OF assms(1)] assms(3)]
    by (simp add: start_flight_def)
  moreover have "fl_fail ?f \<longleftrightarrow> \<not> set (fl_errs ?f) \<subseteq> {None}"
    using turns_cover_less [OF assms(1)]
    by (intro flight_fail_errs) (auto simp: start_flight_def)
  ultimately have "level d turns ids = Inr (fl_out ?f)"
    by (simp add: level_def2 Let_def)
  with level_Inr [OF assms(1)] show ?thesis
    by simp
qed

end

section \<open>The invariant of the walk\<close>

text \<open>
  \<open>seen\<close> holds the groups scheduled so far: those of the frontier, whose version is still
  empty, and those that have been answered, whose own groups are all scheduled.
\<close>

definition seen_set :: "(string, string) fmap \<Rightarrow> string set" where
  "seen_set seen = {g. fmlookup seen g \<noteq> None}"

definition walk_inv ::
  "directory \<Rightarrow> string list \<Rightarrow> string list \<Rightarrow> (string, string) fmap \<Rightarrow> string list \<Rightarrow> nat \<Rightarrow> bool"
where
  "walk_inv d roots frontier seen unknown lookups \<longleftrightarrow>
     distinct frontier \<and> set frontier \<subseteq> seen_set seen \<and>
     set roots - {''''} \<subseteq> seen_set seen \<and>
     (\<forall>g \<in> seen_set seen. reaches d roots g) \<and>
     (\<forall>g \<in> set frontier. fmlookup seen g = Some '''') \<and>
     (\<forall>g \<in> seen_set seen - set frontier.
        answered d g \<and> ups d g \<subseteq> seen_set seen \<and> fmlookup seen g = Some (revision d g)) \<and>
     distinct unknown \<and> set unknown = {g \<in> seen_set seen - set frontier. unheld d g} \<and>
     lookups + length frontier = Suc (card (seen_set seen))"

lemma seen_set_upd [simp]: "seen_set (fmupd k v m) = insert k (seen_set m)"
  by (auto simp: seen_set_def)

lemma seen_set_fmdom: "seen_set m = fset (fmdom m)"
  by (auto simp: seen_set_def fmlookup_dom_iff)

lemma finite_seen_set [simp]: "finite (seen_set m)"
  by (simp add: seen_set_fmdom)

lemma seen_count_card: "seen_count m = card (seen_set m)"
  by (simp add: seen_count_def seen_set_fmdom fcard.rep_eq)

lemma map_keys_seen: "map_keys m = sorted_list_of_set (seen_set m)"
  by (simp add: map_keys_def seen_set_fmdom)

lemma lookup_seen: "fmlookup m g = None \<longleftrightarrow> g \<notin> seen_set m"
  by (auto simp: seen_set_def)

lemma scan_ups_spec:
  "scan_ups us seen next = (seen', next') \<Longrightarrow>
     seen_set seen' = seen_set seen \<union> (set us - {''''}) \<and>
     (\<forall>g. fmlookup seen' g =
        (if g \<in> seen_set seen then fmlookup seen g
         else if g \<in> set us - {''''} then Some '''' else None)) \<and>
     (\<exists>new. next' = next @ new \<and> distinct new \<and> set new = set us - {''''} - seen_set seen)"
proof (induction us seen "next" rule: scan_ups.induct)
  case (1 seen "next")
  then show ?case
    by (auto simp: seen_set_def)
next
  case (2 up us seen "next")
  consider "up = ''''" | "up \<noteq> ''''" "up \<in> seen_set seen" | "up \<noteq> ''''" "up \<notin> seen_set seen"
    by blast
  then show ?case
  proof cases
    case 1
    with 2 show ?thesis by simp
  next
    case 2
    then obtain v where v: "fmlookup seen up = Some v"
      by (auto simp: seen_set_def)
    have "scan_ups us seen next = (seen', next')"
      using 2 v \<open>scan_ups (up # us) seen next = (seen', next')\<close> by simp
    note * = "2.IH"(3) [OF 2(1) v this]
    have "set (up # us) - {''''} - seen_set seen = set us - {''''} - seen_set seen"
      using 2 by auto
    with * 2 show ?thesis
      by (auto simp: insert_absorb)
  next
    case 3
    then have none: "fmlookup seen up = None"
      by (simp add: lookup_seen)
    have "scan_ups us (fmupd up '''' seen) (next @ [up]) = (seen', next')"
      using 3 none "2.prems" by simp
    note * = "2.IH"(2) [OF 3(1) none this]
    then obtain new where new: "next' = (next @ [up]) @ new" "distinct new"
      "set new = set us - {''''} - insert up (seen_set seen)"
      by auto
    then have "next' = next @ (up # new) \<and> distinct (up # new) \<and>
        set (up # new) = set (up # us) - {''''} - seen_set seen"
      using 3 by auto
    then show ?thesis
      using * 3 by (intro conjI exI [of _ "up # new"]) (auto simp: lookup_seen)
  qed
qed

lemma walk_inv_absent:
  assumes "walk_inv d roots (i # rest) seen unknown lookups" and "unheld d i"
  shows "walk_inv d roots rest seen (unknown @ [i]) (Suc lookups)"
  using assms unfolding walk_inv_def
  by (auto simp: unheld_def answered_def ups_def revision_def)

lemma walk_inv_present:
  assumes inv: "walk_inv d roots (i # rest @ next) seen unknown lookups"
    and x: "dir_Group d None i = Inr x"
    and scan: "scan_ups (gr_MemberOf x) (fmupd i (gr_Version x) seen) next = (seen', next')"
  shows "walk_inv d roots (rest @ next') seen' unknown (Suc lookups)"
proof -
  let ?A = "seen_set seen - set (i # rest @ next)"
  have i: "i \<in> seen_set seen" "reaches d roots i" "i \<notin> set rest" "i \<notin> set next"
    using inv by (auto simp: walk_inv_def)
  have ups: "ups d i = set (gr_MemberOf x) - {[]}" and rev: "revision d i = gr_Version x"
    and ans: "answered d i" and held: "\<not> unheld d i"
    using x by (simp_all add: ups_def revision_def answered_def unheld_def)
  note spec = scan_ups_spec [OF scan]
  then have set: "seen_set seen' = seen_set seen \<union> ups d i"
    using i ups by auto
  obtain new where new: "next' = next @ new" "distinct new" "set new = ups d i - seen_set seen"
    using spec i ups by (auto simp: insert_absorb)
  have lk: "fmlookup seen' g = (if g = i then Some (gr_Version x) else
      if g \<in> seen_set seen then fmlookup seen g else if g \<in> ups d i then Some [] else None)" for g
    using spec i ups by auto
  have "card (seen_set seen') = card (seen_set seen) + length new"
    unfolding set using new by (metis card_Un_disjoint Diff_disjoint Un_Diff_cancel distinct_card
        finite_seen_set finite_set)
  then have card: "Suc lookups + length (rest @ next') = Suc (card (seen_set seen'))"
    using inv new(1) by (simp add: walk_inv_def)
  have A': "seen_set seen' - set (rest @ next') = insert i ?A"
    unfolding set new(1) using new(3) i by auto
  have front: "distinct (rest @ next')" "set (rest @ next') \<subseteq> seen_set seen'"
    using inv new unfolding walk_inv_def set by auto
  have "\<forall>g \<in> seen_set seen'. reaches d roots g"
    using inv reaches_ups [OF i(2)] unfolding walk_inv_def set by blast
  moreover have "\<forall>g \<in> set (rest @ next'). fmlookup seen' g = Some []"
  proof
    fix g
    assume "g \<in> set (rest @ next')"
    then have "g \<in> set (i # rest @ next) - {i} \<or> g \<in> ups d i - seen_set seen"
      using new i by auto
    then show "fmlookup seen' g = Some []"
      using inv i(1) unfolding walk_inv_def lk by auto
  qed
  moreover have "\<forall>g \<in> insert i ?A. answered d g \<and> ups d g \<subseteq> seen_set seen' \<and>
      fmlookup seen' g = Some (revision d g)"
    using inv ans rev unfolding walk_inv_def lk set by auto
  moreover have "set unknown = {g \<in> insert i ?A. unheld d g}"
    using inv held unfolding walk_inv_def by auto
  moreover have "set roots - {[]} \<subseteq> seen_set seen'" "distinct unknown"
    using inv unfolding walk_inv_def set by auto
  ultimately show ?thesis
    using card front unfolding walk_inv_def A' by simp
qed

lemma scan_found_inv:
  "walk_inv d roots (rest @ next) seen unknown lookups \<Longrightarrow> \<forall>g \<in> set rest. answered d g \<Longrightarrow>
     scan_found (zip rest (map (answer_of d) rest)) seen unknown next = (seen', unknown', next') \<Longrightarrow>
     walk_inv d roots next' seen' unknown' (lookups + length rest)"
proof (induction rest arbitrary: seen unknown "next" lookups)
  case (Cons i rest)
  consider "unheld d i" | x where "dir_Group d None i = Inr x"
    using Cons.prems(2) by (auto simp: answered_def unheld_def split: sum.splits)
  then show ?case
  proof cases
    case 1
    then have "an_absent (answer_of d i)"
      by (simp add: answer_of_def unheld_def)
    then show ?thesis
      using Cons.IH [of "next" seen "unknown @ [i]" "Suc lookups"] Cons.prems
        walk_inv_absent [of d roots i "rest @ next" seen unknown lookups] 1 by simp
  next
    case (2 x)
    obtain s1 n1 where scan: "scan_ups (gr_MemberOf x) (fmupd i (gr_Version x) seen) next = (s1, n1)"
      by fastforce
    have "\<not> an_absent (answer_of d i)" "gr_MemberOf (an_group (answer_of d i)) = gr_MemberOf x"
      "gr_Version (an_group (answer_of d i)) = gr_Version x"
      using 2 by (simp_all add: answer_of_def)
    then show ?thesis
      using Cons.IH [of n1 s1 unknown "Suc lookups"] Cons.prems scan
        walk_inv_present [of d roots i rest "next" seen unknown lookups, OF _ 2 scan] by simp
  qed
qed simp

lemma dedupe_loop_spec:
  "set (dedupe_loop out vs) = set out \<union> (set vs - {''''}) \<and>
   (distinct out \<longrightarrow> distinct (dedupe_loop out vs))"
  by (induction out vs rule: dedupe_loop.induct) auto

lemma dedupe_spec [simp]: "set (dedupe vs) = set vs - {''''}" "distinct (dedupe vs)"
  using dedupe_loop_spec [of "[]" vs] by (simp_all add: dedupe_def)

lemma lookup_initial_seen:
  "fmlookup (foldl (\<lambda>m g. fmupd g '''' m) m gs) h = (if h \<in> set gs then Some '''' else fmlookup m h)"
  by (induction gs arbitrary: m) auto

lemma initial_lookup [simp]:
  "fmlookup (initial_seen gs) h = (if h \<in> set gs then Some [] else None)"
  by (simp add: initial_seen_def lookup_initial_seen)

lemma seen_set_initial [simp]: "seen_set (initial_seen gs) = set gs"
  by (auto simp: seen_set_def)

lemma walk_inv_initial: "walk_inv d roots (dedupe roots) (initial_seen (dedupe roots)) [] 1"
  by (auto simp: walk_inv_def distinct_card reaches.root simp del: dedupe_spec(1))
    (auto simp: reaches.root)

lemma walk_inv_closed:
  assumes "walk_inv d roots [] seen unknown lookups"
  shows "seen_set seen = {g. reaches d roots g}"
    and "\<forall>g. reaches d roots g \<longrightarrow> answered d g \<and> fmlookup seen g = Some (revision d g)"
    and "sort unknown = sorted_list_of_set {g. reaches d roots g \<and> unheld d g}"
    and "lookups = Suc (card {g. reaches d roots g})"
proof -
  show set: "seen_set seen = {g. reaches d roots g}"
    using assms reaches_least [of d roots _ "seen_set seen"] by (auto simp: walk_inv_def)
  show "\<forall>g. reaches d roots g \<longrightarrow> answered d g \<and> fmlookup seen g = Some (revision d g)"
    "lookups = Suc (card {g. reaches d roots g})"
    using assms by (auto simp: walk_inv_def set)
  have "distinct unknown" "set unknown = {g. reaches d roots g \<and> unheld d g}"
    using assms by (simp_all add: walk_inv_def set)
  then show "sort unknown = sorted_list_of_set {g. reaches d roots g \<and> unheld d g}"
    by (metis sorted_list_of_set_sort_remdups distinct_remdups_id)
qed

section \<open>What the walk returns\<close>

context identity_directory
begin

lemma round_inv:
  assumes "walk_inv d roots frontier seen unknown lookups" and "covers w"
    and "level d (run_turns w depth frontier) frontier = Inr found"
    and "scan_found (zip frontier found) seen unknown [] = (seen', unknown', next)"
  shows "walk_inv d roots next seen' unknown' (lookups + length frontier)"
proof -
  have "found = map (answer_of d) frontier \<and> (\<forall>g \<in> set frontier. answered d g)"
    using assms(2,3) by (intro level_Inr) (auto simp: covers_def)
  then show ?thesis
    using scan_found_inv [of d roots frontier "[]" seen unknown lookups] assms by simp
qed

end

lemma expand_loop_inv:
  assumes "identity_directory d" and "walk_inv d roots frontier seen unknown lookups" and "covers w"
    and "int (seen_count seen) \<le> bound"
  shows "snd (expand_loop d bound w frontier seen unknown lookups depth) \<le> Suc (nat bound) \<and>
    (\<forall>seen' unknown' depth' n.
       expand_loop d bound w frontier seen unknown lookups depth = (Inr (seen', unknown', depth'), n) \<longrightarrow>
       walk_inv d roots [] seen' unknown' n \<and> int (seen_count seen') \<le> bound)"
  using assms
proof (induction d bound w frontier seen unknown lookups depth rule: expand_loop.induct)
  case (1 d bound w frontier seen unknown lookups depth)
  have front: "lookups + length frontier \<le> Suc (nat bound)"
    using 1(3,5) by (simp add: walk_inv_def seen_count_card)
  show ?case
  proof (cases "frontier = [] \<or> run_poll w (Suc depth) \<noteq> None \<or>
      (\<exists>e. level d (run_turns w (Suc depth) frontier) frontier = Inl e)")
    case True
    then show ?thesis
      using 1(3-) front by (subst (1 2) expand_loop.simps) (auto split: option.split)
  next
    case False
    then obtain found where live: "frontier \<noteq> []" "run_poll w (Suc depth) = None"
      and found: "level d (run_turns w (Suc depth) frontier) frontier = Inr found"
      by (metis (full_types) obj_sumE option.exhaust_sel)
    obtain seen' unknown' "next" where
      scan: "scan_found (zip frontier found) seen unknown [] = (seen', unknown', next)"
      by (metis prod_cases3)
    have inv: "walk_inv d roots next seen' unknown' (lookups + length frontier)"
      by (rule identity_directory.round_inv [OF 1(2) 1(3) 1(4) found scan])
    show ?thesis
    proof (cases "bound < int (seen_count seen')")
      case True
      then show ?thesis
        using live found scan front by (subst (1 2) expand_loop.simps) simp
    next
      case False
      have "expand_loop d bound w frontier seen unknown lookups depth =
          expand_loop d bound w next seen' unknown' (lookups + length frontier) (Suc depth)"
        using live found scan False by (subst expand_loop.simps) simp
      then show ?thesis
        using 1(1) [OF live found] scan False inv 1(2,4) by simp
    qed
  qed
qed

lemma expand_loop_live:
  assumes "identity_directory d" and "walk_inv d roots frontier seen unknown lookups" and "covers w"
    and "undisturbed d w" and "finite {g. reaches d roots g}"
    and "int (card {g. reaches d roots g}) \<le> bound" and "\<forall>g. reaches d roots g \<longrightarrow> answered d g"
  shows "is_ok (fst (expand_loop d bound w frontier seen unknown lookups depth))"
  using assms
proof (induction d bound w frontier seen unknown lookups depth rule: expand_loop.induct)
  case (1 d bound w frontier seen unknown lookups depth)
  show ?case
  proof (cases "frontier = []")
    case True
    then show ?thesis
      by (subst expand_loop.simps) simp
  next
    case False
    have "\<forall>g \<in> set frontier. answered d g"
      using 1(3,8) by (auto simp: walk_inv_def)
    then have found: "level d (run_turns w (Suc depth) frontier) frontier =
        Inr (map (answer_of d) frontier)"
      using 1(4,5) by (intro identity_directory.level_live [OF 1(2)])
        (auto simp: covers_def undisturbed_def)
    have live: "run_poll w (Suc depth) = None"
      using 1(5) by (simp add: undisturbed_def)
    obtain seen' unknown' "next" where scan:
      "scan_found (zip frontier (map (answer_of d) frontier)) seen unknown [] = (seen', unknown', next)"
      by (metis prod_cases3)
    have inv: "walk_inv d roots next seen' unknown' (lookups + length frontier)"
      by (rule identity_directory.round_inv [OF 1(2) 1(3) 1(4) found scan])
    then have "seen_set seen' \<subseteq> {g. reaches d roots g}"
      by (auto simp: walk_inv_def)
    from card_mono [OF 1(6) this] have "int (seen_count seen') \<le> bound"
      using 1(7) by (simp add: seen_count_card)
    moreover from this have "expand_loop d bound w frontier seen unknown lookups depth =
        expand_loop d bound w next seen' unknown' (lookups + length frontier) (Suc depth)"
      using live found scan False by (subst expand_loop.simps) simp
    moreover have "is_ok (fst (expand_loop d bound w next seen' unknown' (lookups + length frontier)
        (Suc depth)))"
      using \<open>int (seen_count seen') \<le> bound\<close>
      by (intro 1(1) [OF False live found refl refl refl refl, unfolded scan fst_conv snd_conv,
            OF _ 1(2) inv 1(4-8)]) simp
    ultimately show ?thesis
      by simp
  qed
qed

definition only_cancels :: "directory \<Rightarrow> bool" where
  "only_cancels d \<longleftrightarrow>
     (\<forall>c g. dir_Group d c g = dir_Group d None g \<or> (\<exists>e. dir_Group d c g = Inl e \<and> e \<noteq> ErrNoGroup))"

lemma only_cancels_identity: "only_cancels d \<longleftrightarrow> identity_directory d"
  by (simp add: only_cancels_def identity_directory_def)

interpretation static_dir: identity_directory "static_directory s" for s
  by unfold_locales (simp add: static_directory_def Static_Group_def)

lemma only_cancels_static: "only_cancels (static_directory s)"
  using static_dir.identity_directory_axioms by (simp add: only_cancels_identity)

lemma rs_count [simp]:
  "rs_dir (count_lookups n r) = rs_dir r" "rs_max (count_lookups n r) = rs_max r"
  "ct_Lookups (rs_counters (count_lookups n r)) = ct_Lookups (rs_counters r) + word_of_nat n"
  "ct_Lookups (rs_counters (count_failure r)) = ct_Lookups (rs_counters r)"
  "ct_Lookups (rs_counters (count_missing r)) = ct_Lookups (rs_counters r)"
  "ct_Lookups (rs_counters (count_disabled r)) = ct_Lookups (rs_counters r)"
  "ct_Lookups (rs_counters (count_expansion n r)) = ct_Lookups (rs_counters r)"
  by (simp_all add: count_lookups_def count_failure_def count_missing_def count_disabled_def
      count_expansion_def)

lemma Expand_InrE:
  assumes "Expand r w i = (Inr e, r')"
  obtains sub seen unknown depth where
    "dir_Subject (rs_dir r) (run_call w) i = Inr sub" "\<not> su_Disabled sub"
    "ex_Subject e = (if su_ID sub = [] then sub\<lparr>su_ID := i\<rparr> else sub)"
    "int (seen_count (initial_seen (dedupe (su_MemberOf sub)))) \<le> rs_max r"
    "expand_loop (rs_dir r) (rs_max r) w (dedupe (su_MemberOf sub))
       (initial_seen (dedupe (su_MemberOf sub))) [] 1 0 = (Inr (seen, unknown, depth), ex_Lookups e)"
    "gs_Version (ex_Groups e) = fingerprint (dir_Name (rs_dir r)) (su_Version sub) (map_keys seen) seen"
    "gs_Members (ex_Groups e) =
       map (\<lambda>g. GroupKey \<lparr>ref_Source = dir_Name (rs_dir r), ref_Value = g\<rparr>) (map_keys seen)"
    "ex_Unknown e = sort unknown"
    "r' = count_expansion (length unknown) (count_lookups (ex_Lookups e - 1) (count_lookups 1 r))"
  using assms unfolding Expand_def Let_def
  by (auto split: option.splits sum.splits if_splits prod.splits)

definition members_of :: "directory \<Rightarrow> string set \<Rightarrow> string list" where
  "members_of d R =
     map (\<lambda>g. GroupKey \<lparr>ref_Source = dir_Name d, ref_Value = g\<rparr>) (sorted_list_of_set R)"

definition nonzero :: "64 word \<Rightarrow> 64 word" where
  "nonzero v = (if v \<noteq> 0 then v else 1)"

lemma fingerprint_version:
  assumes "\<forall>i \<in> set ids. fmlookup m i = Some (ver i)"
  shows "fingerprint source subj ids m = nonzero (fnv64a (fingerprint_bytes source subj ids ver))"
proof -
  have "fingerprint_bytes source subj ids (version_of m) = fingerprint_bytes source subj ids ver"
    using assms by (simp add: fingerprint_bytes_def version_of_def cong: map_cong)
  then show ?thesis
    by (simp add: fingerprint_def nonzero_def Let_def)
qed

section \<open>Properties of an expansion\<close>

lemma Expand_closure:
  assumes "only_cancels (rs_dir r)" and "covers w" and "Expand r w i = (Inr e, r')"
    and R_def: "R = {g. reaches (rs_dir r) (su_MemberOf (ex_Subject e)) g}"
  shows "finite R \<and> int (card R) \<le> rs_max r \<and>
    gs_Members (ex_Groups e) = members_of (rs_dir r) R \<and>
    ex_Unknown e = sorted_list_of_set {g \<in> R. unheld (rs_dir r) g} \<and>
    ex_Lookups e = Suc (card R) \<and>
    gs_Version (ex_Groups e) =
      nonzero (fnv64a (fingerprint_bytes (dir_Name (rs_dir r)) (su_Version (ex_Subject e))
        (sorted_list_of_set R) (revision (rs_dir r))))"
  using assms(3)
proof (rule Expand_InrE)
  fix sub seen unknown depth
  assume sub: "ex_Subject e = (if su_ID sub = [] then sub\<lparr>su_ID := i\<rparr> else sub)"
    and start: "int (seen_count (initial_seen (dedupe (su_MemberOf sub)))) \<le> rs_max r"
    and loop: "expand_loop (rs_dir r) (rs_max r) w (dedupe (su_MemberOf sub))
      (initial_seen (dedupe (su_MemberOf sub))) [] 1 0 = (Inr (seen, unknown, depth), ex_Lookups e)"
    and version: "gs_Version (ex_Groups e) =
      fingerprint (dir_Name (rs_dir r)) (su_Version sub) (map_keys seen) seen"
    and members: "gs_Members (ex_Groups e) =
      map (\<lambda>g. GroupKey \<lparr>ref_Source = dir_Name (rs_dir r), ref_Value = g\<rparr>) (map_keys seen)"
    and unknown: "ex_Unknown e = sort unknown"
  have sub_eq: "su_MemberOf (ex_Subject e) = su_MemberOf sub" "su_Version (ex_Subject e) = su_Version sub"
    by (simp_all add: sub)
  have inv: "walk_inv (rs_dir r) (su_MemberOf sub) [] seen unknown (ex_Lookups e)"
    and bound: "int (seen_count seen) \<le> rs_max r"
    using expand_loop_inv [OF assms(1) [unfolded only_cancels_identity] walk_inv_initial assms(2) start,
        of 0] loop by auto
  note closed = walk_inv_closed [OF inv]
  have R: "R = seen_set seen"
    by (simp add: R_def sub_eq closed(1))
  have keys: "map_keys seen = sorted_list_of_set R"
    by (simp add: R map_keys_seen)
  have rev: "\<forall>g \<in> set (map_keys seen). fmlookup seen g = Some (revision (rs_dir r) g)"
    using closed(1,2) by (simp add: seen_set_fmdom [symmetric])
  have "ex_Unknown e = sorted_list_of_set {g \<in> R. unheld (rs_dir r) g}"
    "ex_Lookups e = Suc (card R)"
    using closed(3,4) by (simp_all add: unknown R_def sub_eq)
  then show ?thesis
    using bound by (simp add: R seen_count_card members members_of_def keys [unfolded R] version
        fingerprint_version [OF rev, unfolded keys R] sub_eq)
qed

text \<open>
  C3: a successful expansion is exactly the closure. Its members are the keys of the groups
  reachable from the subject's own groups, once each and in order; \<open>Unknown\<close> is exactly the
  reachable groups the directory does not hold; it took one lookup per group and one for the
  subject; the closure is within the configured bound; and the version is the nonzero hash of the
  closure and the revisions of its groups. Nothing of it depends on the schedule of the lookups.
\<close>

theorem Expand_exact:
  assumes "only_cancels (rs_dir r)" and "covers w" and "Expand r w i = (Inr e, r')"
  defines "R \<equiv> {g. reaches (rs_dir r) (su_MemberOf (ex_Subject e)) g}"
  shows "finite R \<and> int (card R) \<le> rs_max r \<and>
    gs_Members (ex_Groups e) = members_of (rs_dir r) R \<and>
    ex_Unknown e = sorted_list_of_set {g \<in> R. unheld (rs_dir r) g} \<and>
    ex_Lookups e = Suc (card R) \<and>
    gs_Version (ex_Groups e) =
      nonzero (fnv64a (fingerprint_bytes (dir_Name (rs_dir r)) (su_Version (ex_Subject e))
        (sorted_list_of_set R) (revision (rs_dir r))))"
  using Expand_closure [OF assms(1-3) refl] by (simp only: R_def)

text \<open>
  C7: when an expansion answers and when it refuses. If no context is cancelled, the answer is a
  success exactly when the directory holds the subject as active, every group the closure
  reaches is answered for (held, or stated not to be held), and the closure is finite and within
  the bound: a directory that fails anywhere in the closure, or a graph that is too large or
  infinite, is refused and never truncated.
\<close>

theorem Expand_ok_iff:
  assumes "only_cancels (rs_dir r)" and "covers w" and "undisturbed (rs_dir r) w"
  shows "is_ok (fst (Expand r w i)) \<longleftrightarrow>
    (\<exists>sub. dir_Subject (rs_dir r) None i = Inr sub \<and> \<not> su_Disabled sub \<and>
       finite {g. reaches (rs_dir r) (su_MemberOf sub) g} \<and>
       int (card {g. reaches (rs_dir r) (su_MemberOf sub) g}) \<le> rs_max r \<and>
       (\<forall>g. reaches (rs_dir r) (su_MemberOf sub) g \<longrightarrow> answered (rs_dir r) g))"
    (is "?ok \<longleftrightarrow> (\<exists>sub. ?good sub)")
proof
  have call: "run_call w = None" and poll: "run_poll w 0 = None"
    using assms(3) by (simp_all add: undisturbed_def)
  note iden = assms(1) [unfolded only_cancels_identity]
  show "\<exists>sub. ?good sub" if ?ok
  proof -
    from that obtain e r' where "Expand r w i = (Inr e, r')"
      by (metis is_ok_iff prod.collapse)
    then show ?thesis
    proof (rule Expand_InrE)
      fix sub seen unknown depth
      assume "dir_Subject (rs_dir r) (run_call w) i = Inr sub" "\<not> su_Disabled sub"
        and start: "int (seen_count (initial_seen (dedupe (su_MemberOf sub)))) \<le> rs_max r"
        and loop: "expand_loop (rs_dir r) (rs_max r) w (dedupe (su_MemberOf sub))
          (initial_seen (dedupe (su_MemberOf sub))) [] 1 0 = (Inr (seen, unknown, depth), ex_Lookups e)"
      moreover have "walk_inv (rs_dir r) (su_MemberOf sub) [] seen unknown (ex_Lookups e)"
        and "int (seen_count seen) \<le> rs_max r"
        using expand_loop_inv [OF iden walk_inv_initial assms(2) start, of 0] loop by auto
      ultimately have "?good sub"
        using walk_inv_closed [of "rs_dir r" "su_MemberOf sub" seen unknown "ex_Lookups e"] call
        by (metis finite_seen_set seen_count_card)
      then show ?thesis ..
    qed
  qed
  show ?ok if "\<exists>sub. ?good sub"
  proof -
    from that obtain sub where good: "?good sub" ..
    let ?front = "dedupe (su_MemberOf sub)"
    have "set ?front \<subseteq> {g. reaches (rs_dir r) (su_MemberOf sub) g}"
      by (auto intro: reaches.root)
    from card_mono [OF _ this] good have start: "int (seen_count (initial_seen ?front)) \<le> rs_max r"
      by (simp add: seen_count_card del: dedupe_spec(1))
    have "is_ok (fst (expand_loop (rs_dir r) (rs_max r) w ?front (initial_seen ?front) [] 1 0))"
      using good by (intro expand_loop_live [OF iden walk_inv_initial assms(2,3)]) auto
    then show ?ok
      using good start call poll
      by (auto simp: Expand_def Let_def is_ok_iff split: prod.splits)
  qed
qed

lemma expand_loop_ge: "lookups \<le> snd (expand_loop d bound w frontier seen unknown lookups depth)"
proof (induction d bound w frontier seen unknown lookups depth rule: expand_loop.induct)
  case (1 d bound w frontier seen unknown lookups depth)
  note step = 1
  show ?case
  proof (cases "frontier = [] \<or> run_poll w (Suc depth) \<noteq> None \<or>
      (\<exists>e. level d (run_turns w (Suc depth) frontier) frontier = Inl e)")
    case True
    then show ?thesis
      by (subst expand_loop.simps) (auto split: option.split)
  next
    case False
    then obtain found where live: "frontier \<noteq> []" "run_poll w (Suc depth) = None"
      and found: "level d (run_turns w (Suc depth) frontier) frontier = Inr found"
      by (metis (full_types) obj_sumE option.exhaust_sel)
    then show ?thesis
      using step [OF live found refl refl refl refl]
      by (subst expand_loop.simps) (auto simp: Let_def)
  qed
qed


section \<open>Examples\<close>

definition in_order :: run where
  "in_order = \<lparr>run_poll = \<lambda>n. None, run_call = None,
     run_turns = \<lambda>depth ids. map (\<lambda>i. (i, False, None)) [0..<length ids]\<rparr>"

lemma covers_in_order: "covers in_order"
  by (simp add: covers_def in_order_def turns_cover_def comp_def)

lemma live_turns_None: "\<forall>t \<in> set ts. snd (snd t) = None \<Longrightarrow> live_turns d ids f ts"
  by (induction ts arbitrary: f) auto

lemma undisturbed_in_order: "undisturbed d in_order"
  by (auto simp: undisturbed_def in_order_def intro!: live_turns_None)

definition ex_group :: "string \<Rightarrow> string list \<Rightarrow> dgroup" where
  "ex_group i of_groups = \<lparr>gr_ID = i, gr_Name = i, gr_Version = ''1'', gr_MemberOf = of_groups\<rparr>"

definition ex_subject :: "string \<Rightarrow> string list \<Rightarrow> subject" where
  "ex_subject i of_groups = \<lparr>su_ID = i, su_Name = i, su_Email = '''', su_Version = ''7'', su_Identities = [],
     su_MemberOf = of_groups, su_Disabled = False\<rparr>"

text \<open>Two groups in a cycle, and a membership of a group nobody defined.\<close>

definition ex_static :: static where
  "ex_static = Static_Put (foldl PutGroup (NewStatic ''acme'')
     [ex_group ''eng'' [''all''], ex_group ''all'' [''eng'', ''ghost'']])
     (ex_subject ''mei'' [''eng''])"

definition ex_resolver :: resolver where
  "ex_resolver = \<lparr>rs_dir = static_directory ex_static, rs_width = DefaultWidth,
     rs_max = DefaultMaxGroups, rs_counters = zero_counters\<rparr>"

lemma ex_resolver_dir [simp]: "rs_dir ex_resolver = static_directory ex_static"
  "rs_max ex_resolver = 10000"
  by (simp_all add: ex_resolver_def DefaultMaxGroups_def)

lemma ex_static_answers:
  "dir_Subject (static_directory ex_static) c ''mei'' = Inr (ex_subject ''mei'' [''eng''])"
  "dir_Group (static_directory ex_static) c ''eng'' = Inr (ex_group ''eng'' [''all''])"
  "dir_Group (static_directory ex_static) c ''all'' = Inr (ex_group ''all'' [''eng'', ''ghost''])"
  "dir_Group (static_directory ex_static) c ''ghost'' = Inl ErrNoGroup"
  "dir_Name (static_directory ex_static) = ''acme''"
  by (simp_all add: static_directory_def ex_static_def Static_Put_def PutGroup_def NewStatic_def
      Static_Subject_def Static_Group_def ex_subject_def ex_group_def)

lemma seen_count_empty [simp]: "seen_count fmempty = 0"
  by (simp add: seen_count_def)

lemma ex_Expand:
  "\<exists>e r'. Expand ex_resolver in_order ''mei'' = (Inr e, r') \<and> su_MemberOf (ex_Subject e) = [''eng''] \<and>
     length (gs_Members (ex_Groups e)) = 3 \<and> ex_Depth e = 3"
  by (simp add: Expand_def Let_def ex_static_answers in_order_def ex_subject_def dedupe_def)
    (simp add: expand_loop.simps ex_static_answers Let_def level_def lookup_turn_def ex_group_def
      initial_seen_def seen_count_upd map_keys_def)

lemma ex_reaches: "{g. reaches (static_directory ex_static) [''eng''] g} = {''all'', ''eng'', ''ghost''}"
  (is "?R = ?S")
proof
  have "ups (static_directory ex_static) ''eng'' = {''all''}"
    "ups (static_directory ex_static) ''all'' = {''eng'', ''ghost''}"
    "ups (static_directory ex_static) ''ghost'' = {}"
    by (simp_all add: ups_def ex_static_answers ex_group_def)
  note u = this
  have closed: "ups (static_directory ex_static) h \<subseteq> ?S" if "h \<in> ?S" for h
    using that u by auto
  show "?R \<subseteq> ?S"
  proof
    fix g
    assume "g \<in> ?R"
    then have "reaches (static_directory ex_static) [''eng''] g" by simp
    then show "g \<in> ?S"
      by (rule reaches_least [OF _ _ closed]) simp
  qed
  have "reaches (static_directory ex_static) [''eng''] ''eng''"
    by (simp add: reaches.root)
  moreover from reaches_ups [OF this] u
  have "reaches (static_directory ex_static) [''eng''] ''all''" by simp
  moreover from reaches_ups [OF this] u
  have "reaches (static_directory ex_static) [''eng''] ''ghost''" by simp
  ultimately show "?S \<subseteq> ?R" by simp
qed

theorem Expand_exact_witness:
  "\<exists>e r'. Expand ex_resolver in_order ''mei'' = (Inr e, r') \<and>
     gs_Members (ex_Groups e) = [''acme:all'', ''acme:eng'', ''acme:ghost''] \<and>
     ex_Unknown e = [''ghost''] \<and> ex_Lookups e = 4"
proof -
  obtain e r' where e: "Expand ex_resolver in_order ''mei'' = (Inr e, r')"
    and sub: "su_MemberOf (ex_Subject e) = [''eng'']"
    using ex_Expand by blast
  have unheld: "{g \<in> {''all'', ''eng'', ''ghost''}. unheld (static_directory ex_static) g} = {''ghost''}"
    by (auto simp: unheld_def ex_static_answers)
  have "only_cancels (rs_dir ex_resolver)"
    by (simp add: only_cancels_static)
  from Expand_exact [OF this covers_in_order e]
  show ?thesis
    unfolding sub ex_resolver_dir ex_reaches unheld
    using e by (simp add: members_of_def GroupKey_def ex_static_answers)
qed

theorem Expand_ok_iff_witness:
  "\<exists>e. fst (Expand ex_resolver in_order ''mei'') = Inr e"
proof -
  have "only_cancels (rs_dir ex_resolver)" "undisturbed (rs_dir ex_resolver) in_order"
    by (simp_all only: ex_resolver_dir only_cancels_static undisturbed_in_order)
  note iff = Expand_ok_iff [OF this(1) covers_in_order this(2), of "''mei''"]
  have sub: "su_MemberOf (ex_subject ''mei'' [''eng'']) = [''eng'']"
    "\<not> su_Disabled (ex_subject ''mei'' [''eng''])"
    by (simp_all add: ex_subject_def)
  have "answered (static_directory ex_static) g"
    if "reaches (static_directory ex_static) [''eng''] g" for g
  proof -
    have "g \<in> {''all'', ''eng'', ''ghost''}"
      using that unfolding ex_reaches [symmetric] by (rule CollectI)
    then show ?thesis
      by (auto simp: answered_def ex_static_answers)
  qed
  then show ?thesis
    unfolding is_ok_iff [symmetric] iff ex_resolver_dir
    by (intro exI [of _ "ex_subject ''mei'' [''eng'']"])
      (simp only: sub ex_static_answers ex_reaches, simp)
qed


section \<open>The error of a level\<close>

definition two_failures :: directory where
  "two_failures = \<lparr>dir_Name = ''acme'', dir_Subject = \<lambda>c i. Inl ErrNoSubject,
     dir_Group = \<lambda>c g. if g = ''a'' then Inl (ErrDirectory ''refused'')
                       else Inl (ErrDirectory ''rate limited'')\<rparr>"

text \<open>
  Which error a failed level returns depends on the schedule of its lookups: with two groups
  whose lookups fail in different ways, either error can be the one that is returned, because
  the lookups that start after the first failure are skipped and record nothing. (The comment in
  \<open>level\<close> promises the same message twice running.)
\<close>

theorem level_error_schedule:
  "\<exists>d ids turns1 turns2.
     only_cancels d \<and> turns_cover (length ids) turns1 \<and> turns_cover (length ids) turns2 \<and>
     live_turns d ids (start_flight (length ids)) turns1 \<and>
     live_turns d ids (start_flight (length ids)) turns2 \<and>
     level d turns1 ids = Inl (ErrDirectory ''refused'') \<and>
     level d turns2 ids = Inl (ErrDirectory ''rate limited'')"
  by (rule exI [of _ two_failures], rule exI [of _ "[''a'', ''b'']"],
      rule exI [of _ "[(0, False, None), (1, False, None)]"],
      rule exI [of _ "[(1, False, None), (0, False, None)]"])
    (simp add: only_cancels_def two_failures_def turns_cover_def upt_rec level_def lookup_turn_def
      add_mset_commute)

end
