(* ===== verification/Directory_Answer.thy ===== *)
theory Directory_Answer
  imports Directory_Closure
begin

text \<open>
  What an expansion is used for: its version (what is hashed, and when two answers hash the
  same bytes), \<open>Expansion.Apply\<close>, and the decision of \<open>Permissions.Allows\<close> on a principal that
  carries the expanded groups.
\<close>

section \<open>The version of an answer\<close>

abbreviation nul :: char where
  "nul \<equiv> CHR 0x00"

lemma nul_entries:
  assumes "\<forall>i \<in> set ids. nul \<notin> set i \<and> nul \<notin> set (ver i)"
    and "\<forall>i \<in> set ids'. nul \<notin> set i \<and> nul \<notin> set (ver' i)"
  shows "concat (map (\<lambda>i. i @ [nul] @ ver i @ [nul]) ids) =
      concat (map (\<lambda>i. i @ [nul] @ ver' i @ [nul]) ids') \<longleftrightarrow>
    ids = ids' \<and> (\<forall>i \<in> set ids. ver i = ver' i)"
  using assms
proof (induction ids arbitrary: ids')
  case Nil
  then show ?case by (cases ids') auto
next
  case (Cons i ids)
  show ?case
  proof (cases ids')
    case (Cons i' rest)
    then show ?thesis
      using Cons.IH [of rest] Cons.prems by (auto simp: sep_split)
  qed simp
qed

text \<open>
  The bytes that are hashed into the version determine the answer: for names and revisions
  without NUL bytes, two answers have the same bytes only if they have the same source, the
  same subject revision, the same groups and the same revision of every group. So, up to a
  collision of the 64 bit hash, the version moves whenever the closure or a revision moves.
\<close>

theorem fingerprint_bytes_inject:
  assumes "nul \<notin> set source" "nul \<notin> set subj"
    and "\<forall>i \<in> set ids. nul \<notin> set i \<and> nul \<notin> set (ver i)"
    and "nul \<notin> set source'" "nul \<notin> set subj'"
    and "\<forall>i \<in> set ids'. nul \<notin> set i \<and> nul \<notin> set (ver' i)"
  shows "fingerprint_bytes source subj ids ver = fingerprint_bytes source' subj' ids' ver' \<longleftrightarrow>
    source = source' \<and> subj = subj' \<and> ids = ids' \<and> (\<forall>i \<in> set ids. ver i = ver' i)"
  using assms nul_entries [OF assms(3) assms(6)] by (simp add: fingerprint_bytes_def sep_split)

theorem fingerprint_bytes_inject_witness:
  "fingerprint_bytes ''acme'' ''7'' [''all'', ''eng''] (\<lambda>i. ''1'') \<noteq>
   fingerprint_bytes ''acme'' ''7'' [''all''] (\<lambda>i. ''1'')"
  by (subst fingerprint_bytes_inject) simp_all

lemma fingerprint_nonzero: "fingerprint source subj ids versions \<noteq> 0"
  by (simp add: fingerprint_def Let_def)

section \<open>Apply\<close>

lemma Apply_Some:
  "Apply e (Some p) = Some p' \<Longrightarrow>
     p_Tenant p' = p_Tenant p \<and> p_Subject p' = p_Subject p \<and> p_Kind p' = p_Kind p \<and>
     p_Roles p' = p_Roles p \<and> p_OnBehalfOf p' = p_OnBehalfOf p \<and> p_Groups p' = ex_Groups e \<and>
     set (p_Identities p') = set (p_Identities p) \<union> set (su_Identities (ex_Subject e)) \<and>
     (distinct (p_Identities p) \<longrightarrow> distinct (p_Identities p'))"
  by (auto simp: Apply_def merge_identities_def)

lemma Apply_idempotent: "Apply e (Apply e p) = Apply e p"
proof -
  have "foldl add_new xs ys = xs" if "set ys \<subseteq> set xs" for xs ys :: "identity list"
    using that by (induction ys) (auto simp: add_new_def)
  then show ?thesis
    by (simp add: Apply_def merge_identities_def split: option.split)
qed

section \<open>From the directory to the decision\<close>

lemma GroupKey_inject:
  "GroupKey \<lparr>ref_Source = s, ref_Value = g\<rparr> = GroupKey \<lparr>ref_Source = s, ref_Value = h\<rparr> \<longleftrightarrow> g = h"
  by (simp add: GroupKey_def)

lemma members_of_iff:
  "finite R \<Longrightarrow> GroupKey \<lparr>ref_Source = dir_Name d, ref_Value = g\<rparr> \<in> set (members_of d R) \<longleftrightarrow> g \<in> R"
  by (auto simp: members_of_def GroupKey_inject)

text \<open>
  C5: the directory and the decision together. After a principal's groups were expanded and
  applied, a document that names only groups of that directory is readable exactly by the
  subjects whose memberships reach one of its allowed groups, through any number of nested
  groups, and none of its denied groups.
\<close>

theorem Expand_Allows:
  assumes "only_cancels (rs_dir r)" and "covers w" and "Expand r w i = (Inr e, r')"
    and "Apply e (Some p) = Some p'"
    and "perm_Mode perm = ModeACL" and "ref_Value (perm_Owner perm) = ''''"
    and "perm_AllowUsers perm = []" and "perm_DenyUsers perm = []"
    and "\<forall>g \<in> set (perm_AllowGroups perm) \<union> set (perm_DenyGroups perm).
           ref_Source g = dir_Name (rs_dir r)"
  shows "Allows U perm (Some p') \<longleftrightarrow>
    (\<exists>g \<in> set (perm_AllowGroups perm). reaches (rs_dir r) (su_MemberOf (ex_Subject e)) (ref_Value g)) \<and>
    \<not> (\<exists>g \<in> set (perm_DenyGroups perm). reaches (rs_dir r) (su_MemberOf (ex_Subject e)) (ref_Value g))"
proof -
  let ?R = "{g. reaches (rs_dir r) (su_MemberOf (ex_Subject e)) g}"
  have groups: "gs_Members (p_Groups p') = members_of (rs_dir r) ?R" and fin: "finite ?R"
    using Expand_closure [OF assms(1-3) refl] Apply_Some [OF assms(4)] by simp_all
  have key: "GroupKey g \<in> set (gs_Members (p_Groups p')) \<longleftrightarrow> ref_Value g \<in> ?R"
    if "ref_Source g = dir_Name (rs_dir r)" for g
    using members_of_iff [OF fin, of "rs_dir r" "ref_Value g"] that groups by (cases g) simp
  have named: "named_group p' gs \<longleftrightarrow> (\<exists>g \<in> set gs. ref_Value g \<in> ?R)"
    if "\<forall>g \<in> set gs. ref_Source g = dir_Name (rs_dir r)" for gs
    using key that by (auto simp: named_group_def)
  have den: "denied U perm p' \<longleftrightarrow> (\<exists>g \<in> set (perm_DenyGroups perm). ref_Value g \<in> ?R)"
    using assms(8,9) named [of "perm_DenyGroups perm"] by (simp add: denied_def named_user_def)
  have gra: "granted U perm p' \<longleftrightarrow> (\<exists>g \<in> set (perm_AllowGroups perm). ref_Value g \<in> ?R)"
    using assms(5-7,9) named [of "perm_AllowGroups perm"]
    by (simp add: granted_def named_user_def mode_defs)
  have "Allows U perm (Some p') \<longleftrightarrow> granted U perm p' \<and> \<not> denied U perm p'"
    using Decide_denied(1) [of perm U p'] Decide_not_denied [of perm U p'] assms(5)
    by (auto simp: Allows_def mode_defs)
  then show ?thesis
    using den gra by simp
qed

theorem Expand_Allows_witness:
  "\<exists>e r' p'. Expand ex_resolver in_order ''mei'' = (Inr e, r') \<and>
     Apply e (Some (ex_principal ''mei'' [])) = Some p' \<and>
     Allows ascii_table
       ((ex_acl [] [])\<lparr>perm_AllowGroups := [\<lparr>ref_Source = ''acme'', ref_Value = ''all''\<rparr>]\<rparr>) (Some p')"
proof -
  obtain e r' where e: "Expand ex_resolver in_order ''mei'' = (Inr e, r')"
    and sub: "su_MemberOf (ex_Subject e) = [''eng'']"
    using ex_Expand by blast
  obtain p' where p': "Apply e (Some (ex_principal ''mei'' [])) = Some p'"
    by (simp add: Apply_def)
  have cancel: "only_cancels (rs_dir ex_resolver)"
    by (simp add: only_cancels_static)
  have "''all'' \<in> {g. reaches (static_directory ex_static) [''eng''] g}"
    unfolding ex_reaches by simp
  then have "Allows ascii_table
       ((ex_acl [] [])\<lparr>perm_AllowGroups := [\<lparr>ref_Source = ''acme'', ref_Value = ''all''\<rparr>]\<rparr>) (Some p')"
    by (subst Expand_Allows [OF cancel covers_in_order e p'])
      (simp_all add: ex_acl_def ex_static_answers sub zero_ref_def)
  with e p' show ?thesis by blast
qed

end
