(* ===== verification/Directory_Multi.thy ===== *)
theory Directory_Multi
  imports Directory_Answer
begin

text \<open>
  \<open>directory/multi.go\<close>: one subject expanded against several directories, and the union of the
  answers. An \<open>Expander\<close> is the record of its methods; \<open>ep_Counters\<close> is None for an
  expander that counts nothing. The parts run concurrently under one cancellable context: what
  that context shows to the i-th part is the argument \<open>sees i\<close>.
\<close>

section \<open>The union (multi.go)\<close>

record expander =
  ep_Name :: string
  ep_Expand :: "ctx \<Rightarrow> string \<Rightarrow> expansion res"
  ep_Counters :: "counters option"

record multi =
  mu_parts :: "expander list"
  mu_name :: string

fun new_multi_loop :: "string list \<Rightarrow> expander option list \<Rightarrow> string list res" where
  "new_multi_loop names [] = Inr names"
| "new_multi_loop names (None # ps) = Inl (ErrConfig ''a directory is nil'')"
| "new_multi_loop names (Some p # ps) =
     (if ep_Name p = '''' then Inl (ErrConfig ''a directory has no name'')
      else if ep_Name p \<in> set names then Inl (ErrConfig ''two of these directories have one name'')
      else new_multi_loop (names @ [ep_Name p]) ps)"

definition NewMulti :: "expander option list \<Rightarrow> multi res" where
  "NewMulti parts =
     (if parts = [] then Inl (ErrConfig ''a union needs at least one directory'')
      else case new_multi_loop [] parts of
             Inl e \<Rightarrow> Inl e
           | Inr names \<Rightarrow> Inr \<lparr>mu_parts = map the parts, mu_name = Join names ''+''\<rparr>)"

definition Multi_Name :: "multi \<Rightarrow> string" where
  "Multi_Name m = mu_name m"

definition Directories :: "multi \<Rightarrow> string list" where
  "Directories m = map ep_Name (mu_parts m)"

definition add_counters :: "counters \<Rightarrow> expander \<Rightarrow> counters" where
  "add_counters out p =
     (case ep_Counters p of
        None \<Rightarrow> out
      | Some n \<Rightarrow>
          \<lparr>ct_Expansions = ct_Expansions out + ct_Expansions n,
           ct_Failures = ct_Failures out + ct_Failures n,
           ct_Lookups = ct_Lookups out + ct_Lookups n,
           ct_Missing = ct_Missing out + ct_Missing n,
           ct_Disabled = ct_Disabled out + ct_Disabled n,
           ct_Unresolved = ct_Unresolved out + ct_Unresolved n\<rparr>)"

definition Multi_Counters :: "multi \<Rightarrow> counters" where
  "Multi_Counters m = foldl add_counters zero_counters (mu_parts m)"

text \<open>What one part contributes: an error, nothing, or an expansion.\<close>

definition part_answer :: "ctx \<Rightarrow> string \<Rightarrow> expander \<Rightarrow> expansion option res" where
  "part_answer c i p =
     (case ep_Expand p c i of
        Inl e \<Rightarrow> if e = ErrNoSubject then Inr None else Inl e
      | Inr got \<Rightarrow> Inr (Some got))"

definition part_error :: "expansion option res \<Rightarrow> error option" where
  "part_error a = (case a of Inl e \<Rightarrow> Some e | Inr _ \<Rightarrow> None)"

record merging =
  mg_merged :: expansion
  mg_members :: "string list"
  mg_unknown :: "string list"
  mg_sources :: "string list"
  mg_versions :: "(string, string) fmap"
  mg_answered :: bool

definition zero_subject :: subject where
  "zero_subject = \<lparr>su_ID = '''', su_Name = '''', su_Email = '''', su_Version = '''',
     su_Identities = [], su_MemberOf = [], su_Disabled = False\<rparr>"

definition zero_expansion :: expansion where
  "zero_expansion = \<lparr>ex_Subject = zero_subject, ex_Groups = \<lparr>gs_Version = 0, gs_Members = []\<rparr>,
     ex_Unknown = [], ex_Lookups = 0, ex_Depth = 0\<rparr>"

definition start_merging :: merging where
  "start_merging = \<lparr>mg_merged = zero_expansion, mg_members = [], mg_unknown = [], mg_sources = [],
     mg_versions = fmempty, mg_answered = False\<rparr>"

definition merge_part :: "string \<Rightarrow> merging \<Rightarrow> expander \<times> expansion option res \<Rightarrow> merging" where
  "merge_part i m pa =
     (case snd pa of
        Inl e \<Rightarrow> m
      | Inr None \<Rightarrow> m
      | Inr (Some got) \<Rightarrow>
          let source = ep_Name (fst pa);
              merged = mg_merged m;
              sub = ex_Subject merged;
              sub = (if mg_answered m then sub
                     else sub\<lparr>su_ID := (if su_ID (ex_Subject got) \<noteq> '''' then su_ID (ex_Subject got) else i),
                              su_Name := su_Name (ex_Subject got),
                              su_Email := su_Email (ex_Subject got)\<rparr>);
              sub = sub\<lparr>su_Identities :=
                         merge_identities (su_Identities sub) (su_Identities (ex_Subject got))\<rparr>
          in \<lparr>mg_merged = merged\<lparr>ex_Subject := sub,
                                 ex_Lookups := ex_Lookups merged + ex_Lookups got,
                                 ex_Depth := max (ex_Depth merged) (ex_Depth got)\<rparr>,
              mg_members = mg_members m @ gs_Members (ex_Groups got),
              mg_unknown = mg_unknown m @
                map (\<lambda>g. GroupKey \<lparr>ref_Source = source, ref_Value = g\<rparr>) (ex_Unknown got),
              mg_sources = mg_sources m @ [source],
              mg_versions = fmupd source (Itoa (unat (gs_Version (ex_Groups got)))) (mg_versions m),
              mg_answered = True\<rparr>)"

definition Multi_Expand :: "multi \<Rightarrow> ctx \<Rightarrow> (nat \<Rightarrow> ctx) \<Rightarrow> string \<Rightarrow> expansion res" where
  "Multi_Expand m c sees i =
     (case c of
        Some e \<Rightarrow> Inl e
      | None \<Rightarrow>
          let out = map (\<lambda>(n, p). part_answer (sees n) i p) (enumerate 0 (mu_parts m))
          in case first_error (map part_error out) (\<lambda>e. e \<noteq> Canceled) of
               Some e \<Rightarrow> Inl e
             | None \<Rightarrow>
                 (case first_error (map part_error out) (\<lambda>e. True) of
                    Some e \<Rightarrow> Inl e
                  | None \<Rightarrow>
                      let g = foldl (merge_part i) start_merging (zip (mu_parts m) out)
                      in if \<not> mg_answered g then Inl ErrNoSubject
                         else Inr ((mg_merged g)
                           \<lparr>ex_Groups :=
                              \<lparr>gs_Version = fingerprint (mu_name m) '''' (mg_sources g) (mg_versions g),
                               gs_Members = remdups_adj (sort (mg_members g))\<rparr>,
                            ex_Unknown := remdups_adj (sort (mg_unknown g))\<rparr>)))"

lemma first_error_weaker: "first_error es (\<lambda>e. True) = None \<Longrightarrow> first_error es P = None"
  by (simp add: first_error_None)

section \<open>What a union answers\<close>

text \<open>The parts that hold the subject, in order, with what they answered.\<close>

definition answers :: "multi \<Rightarrow> (nat \<Rightarrow> ctx) \<Rightarrow> string \<Rightarrow> expansion option res list" where
  "answers m sees i = map (\<lambda>(n, p). part_answer (sees n) i p) (enumerate 0 (mu_parts m))"

fun holding :: "(expander \<times> expansion option res) list \<Rightarrow> (expander \<times> expansion) list" where
  "holding [] = []"
| "holding ((p, Inr (Some got)) # rest) = (p, got) # holding rest"
| "holding (_ # rest) = holding rest"

definition held :: "multi \<Rightarrow> (nat \<Rightarrow> ctx) \<Rightarrow> string \<Rightarrow> (expander \<times> expansion) list" where
  "held m sees i = holding (zip (mu_parts m) (answers m sees i))"

lemma length_answers [simp]: "length (answers m sees i) = length (mu_parts m)"
  by (simp add: answers_def)

lemma nth_answers:
  "n < length (mu_parts m) \<Longrightarrow> answers m sees i ! n = part_answer (sees n) i (mu_parts m ! n)"
  by (simp add: answers_def nth_enumerate_eq)

lemma set_holding: "(p, got) \<in> set (holding pas) \<longleftrightarrow> (p, Inr (Some got)) \<in> set pas"
  by (induction pas rule: holding.induct) auto

definition merge_held :: "string \<Rightarrow> (expander \<times> expansion) list \<Rightarrow> merging \<Rightarrow> merging" where
  "merge_held i H g = foldl (\<lambda>g (p, got). merge_part i g (p, Inr (Some got))) g H"

lemma foldl_merge_holding:
  "foldl (merge_part i) g pas = merge_held i (holding pas) g"
  by (induction pas arbitrary: g rule: holding.induct) (simp_all add: merge_held_def, simp_all add: merge_part_def)

lemma merge_held_simps [simp]:
  "merge_held i [] g = g"
  "merge_held i (pg # H) g = merge_held i H (merge_part i g (fst pg, Inr (Some (snd pg))))"
  by (simp_all add: merge_held_def split: prod.split)

text \<open>One clause per field of the merged answer.\<close>

lemma merge_part_fields:
  "mg_members (merge_part i g (p, Inr (Some got))) = mg_members g @ gs_Members (ex_Groups got)"
  "mg_unknown (merge_part i g (p, Inr (Some got))) = mg_unknown g @
     map (\<lambda>v. GroupKey \<lparr>ref_Source = ep_Name p, ref_Value = v\<rparr>) (ex_Unknown got)"
  "mg_sources (merge_part i g (p, Inr (Some got))) = mg_sources g @ [ep_Name p]"
  "mg_answered (merge_part i g (p, Inr (Some got)))"
  "ex_Lookups (mg_merged (merge_part i g (p, Inr (Some got)))) =
     ex_Lookups (mg_merged g) + ex_Lookups got"
  "ex_Depth (mg_merged (merge_part i g (p, Inr (Some got)))) =
     max (ex_Depth (mg_merged g)) (ex_Depth got)"
  "set (su_Identities (ex_Subject (mg_merged (merge_part i g (p, Inr (Some got)))))) =
     set (su_Identities (ex_Subject (mg_merged g))) \<union> set (su_Identities (ex_Subject got))"
  "mg_answered g \<Longrightarrow> su_ID (ex_Subject (mg_merged (merge_part i g (p, Inr (Some got))))) =
     su_ID (ex_Subject (mg_merged g))"
  "mg_answered g \<Longrightarrow> su_Email (ex_Subject (mg_merged (merge_part i g (p, Inr (Some got))))) =
     su_Email (ex_Subject (mg_merged g))"
  by (simp_all add: merge_part_def Let_def merge_identities_def)

lemma merge_fields:
  "mg_members (merge_held i H g) = mg_members g @ concat (map (\<lambda>(p, got). gs_Members (ex_Groups got)) H)"
  "mg_unknown (merge_held i H g) = mg_unknown g @ concat (map (\<lambda>(p, got).
     map (\<lambda>v. GroupKey \<lparr>ref_Source = ep_Name p, ref_Value = v\<rparr>) (ex_Unknown got)) H)"
  "mg_sources (merge_held i H g) = mg_sources g @ map (\<lambda>(p, got). ep_Name p) H"
  "mg_answered (merge_held i H g) \<longleftrightarrow> mg_answered g \<or> H \<noteq> []"
  "ex_Lookups (mg_merged (merge_held i H g)) =
     ex_Lookups (mg_merged g) + sum_list (map (ex_Lookups \<circ> snd) H)"
  "ex_Depth (mg_merged (merge_held i H g)) =
     foldl max (ex_Depth (mg_merged g)) (map (ex_Depth \<circ> snd) H)"
  "set (su_Identities (ex_Subject (mg_merged (merge_held i H g)))) =
     set (su_Identities (ex_Subject (mg_merged g))) \<union>
     (\<Union>(p, got) \<in> set H. set (su_Identities (ex_Subject got)))"
  by (induction H arbitrary: g) (auto simp: merge_part_fields ac_simps)

lemma merge_first:
  "mg_answered g \<Longrightarrow>
     su_ID (ex_Subject (mg_merged (merge_held i H g))) = su_ID (ex_Subject (mg_merged g)) \<and>
     su_Email (ex_Subject (mg_merged (merge_held i H g))) = su_Email (ex_Subject (mg_merged g))"
  by (induction H arbitrary: g) (auto simp: merge_part_fields)

lemma sorted_keys_list: "remdups_adj (sort xs) = sorted_list_of_set (set (xs::string list))"
  by (rule sorted_distinct_set_unique) (simp_all add: distinct_remdups_adj_sorted)

lemma answer_error:
  "Some e \<in> set (map part_error (answers m sees i)) \<longleftrightarrow>
   (\<exists>n < length (mu_parts m). ep_Expand (mu_parts m ! n) (sees n) i = Inl e \<and> e \<noteq> ErrNoSubject)"
proof -
  have "Some e \<in> set (map part_error (answers m sees i)) \<longleftrightarrow>
      (\<exists>n < length (mu_parts m). part_error (answers m sees i ! n) = Some e)"
    unfolding in_set_conv_nth by (auto simp del: map_map)
  moreover have "part_error (answers m sees i ! n) = Some e \<longleftrightarrow>
      ep_Expand (mu_parts m ! n) (sees n) i = Inl e \<and> e \<noteq> ErrNoSubject"
    if "n < length (mu_parts m)" for n
    using that by (auto simp: nth_answers part_error_def part_answer_def split: sum.splits if_splits)
  ultimately show ?thesis
    by blast
qed

lemma held_empty:
  "held m sees i = [] \<longleftrightarrow>
   (\<forall>n < length (mu_parts m). \<forall>got. ep_Expand (mu_parts m ! n) (sees n) i \<noteq> Inr got)"
proof -
  have "held m sees i = [] \<longleftrightarrow> (\<forall>p got. (p, got) \<notin> set (held m sees i))"
    by (metis list.set_intros(1) neq_Nil_conv prod.collapse empty_iff list.set(1))
  also have "\<dots> \<longleftrightarrow> (\<forall>n < length (mu_parts m). \<forall>got. answers m sees i ! n \<noteq> Inr (Some got))"
    unfolding held_def set_holding set_zip by (auto, metis)
  finally show ?thesis
    by (auto simp: nth_answers part_answer_def split: sum.splits if_splits)
qed

lemma Multi_Expand_cases:
  "Multi_Expand m None sees i =
     (let errs = map part_error (answers m sees i); g = merge_held i (held m sees i) start_merging
      in case first_error errs (\<lambda>e. e \<noteq> Canceled) of
           Some e \<Rightarrow> Inl e
         | None \<Rightarrow>
             (case first_error errs (\<lambda>e. True) of
                Some e \<Rightarrow> Inl e
              | None \<Rightarrow>
                  if held m sees i = [] then Inl ErrNoSubject
                  else Inr ((mg_merged g)
                    \<lparr>ex_Groups :=
                       \<lparr>gs_Version = fingerprint (mu_name m) [] (mg_sources g) (mg_versions g),
                        gs_Members = remdups_adj (sort (mg_members g))\<rparr>,
                     ex_Unknown := remdups_adj (sort (mg_unknown g))\<rparr>)))"
  unfolding Multi_Expand_def Let_def option.case answers_def [symmetric] foldl_merge_holding
    held_def [symmetric]
  by (simp add: merge_fields start_merging_def)

text \<open>
  C14: a union never answers in part. Without a cancelled context it answers exactly when no
  directory fails (a deactivated account in one of them is a failure) and at least one of them
  holds the subject; otherwise the error is one of the directories' own, or, when every one of
  them said that it does not hold the subject, \<open>ErrNoSubject\<close>.
\<close>

theorem Multi_answers:
  "case Multi_Expand m None sees i of
     Inr e \<Rightarrow>
       (\<forall>n < length (mu_parts m). \<forall>err. ep_Expand (mu_parts m ! n) (sees n) i = Inl err \<longrightarrow> err = ErrNoSubject) \<and>
       held m sees i \<noteq> []
   | Inl err \<Rightarrow>
       (\<exists>n < length (mu_parts m). ep_Expand (mu_parts m ! n) (sees n) i = Inl err \<and> err \<noteq> ErrNoSubject) \<or>
       err = ErrNoSubject \<and>
         (\<forall>n < length (mu_parts m). ep_Expand (mu_parts m ! n) (sees n) i = Inl ErrNoSubject)"
proof -
  let ?errs = "map part_error (answers m sees i)"
  consider e where "first_error ?errs (\<lambda>e. e \<noteq> Canceled) = Some e"
    | e where "first_error ?errs (\<lambda>e. e \<noteq> Canceled) = None" "first_error ?errs (\<lambda>e. True) = Some e"
    | "first_error ?errs (\<lambda>e. True) = None"
    by fastforce
  then show ?thesis
  proof cases
    case (1 e)
    then have "Some e \<in> set ?errs"
      by (blast dest: first_error_Some)
    with 1 show ?thesis
      unfolding answer_error by (simp add: Multi_Expand_cases)
  next
    case (2 e)
    then have "Some e \<in> set ?errs"
      by (blast dest: first_error_Some)
    with 2 show ?thesis
      unfolding answer_error by (simp add: Multi_Expand_cases)
  next
    case 3
    then have "\<forall>e. Some e \<notin> set ?errs"
      by (simp add: first_error_None)
    then have "\<forall>n < length (mu_parts m). \<forall>err.
        ep_Expand (mu_parts m ! n) (sees n) i = Inl err \<longrightarrow> err = ErrNoSubject"
      unfolding answer_error by blast
    moreover from this have "held m sees i = [] \<Longrightarrow>
        \<forall>n < length (mu_parts m). ep_Expand (mu_parts m ! n) (sees n) i = Inl ErrNoSubject"
      unfolding held_empty by (metis obj_sumE)
    ultimately show ?thesis
      using 3 first_error_weaker [OF 3] by (simp add: Multi_Expand_cases Let_def)
  qed
qed

text \<open>
  What a union answers. Its members are the members every holding directory answered, once
  each and in order, its unknown groups theirs with the directory's name in front, its identities
  the union of theirs, its lookups their sum, and the subject keeps the id the first of them gave.
\<close>

theorem Multi_exact:
  assumes "Multi_Expand m None sees i = Inr e"
  shows "gs_Members (ex_Groups e) =
      sorted_list_of_set (\<Union>(p, got) \<in> set (held m sees i). set (gs_Members (ex_Groups got))) \<and>
    ex_Unknown e = sorted_list_of_set (\<Union>(p, got) \<in> set (held m sees i).
      (\<lambda>g. GroupKey \<lparr>ref_Source = ep_Name p, ref_Value = g\<rparr>) ` set (ex_Unknown got)) \<and>
    set (su_Identities (ex_Subject e)) =
      (\<Union>(p, got) \<in> set (held m sees i). set (su_Identities (ex_Subject got))) \<and>
    ex_Lookups e = sum_list (map (ex_Lookups \<circ> snd) (held m sees i)) \<and>
    su_ID (ex_Subject e) =
      (let first = su_ID (ex_Subject (snd (hd (held m sees i)))) in if first \<noteq> [] then first else i)"
proof -
  let ?g = "merge_held i (held m sees i) start_merging"
  from assms have e: "e = (mg_merged ?g)
      \<lparr>ex_Groups := \<lparr>gs_Version = fingerprint (mu_name m) [] (mg_sources ?g) (mg_versions ?g),
                    gs_Members = remdups_adj (sort (mg_members ?g))\<rparr>,
       ex_Unknown := remdups_adj (sort (mg_unknown ?g))\<rparr>" and "held m sees i \<noteq> []"
    by (auto simp: Multi_Expand_cases Let_def split: option.splits if_splits)
  then obtain p got H where H: "held m sees i = (p, got) # H"
    by (metis list.exhaust surj_pair)
  have "su_ID (ex_Subject (mg_merged ?g)) =
      (if su_ID (ex_Subject got) \<noteq> [] then su_ID (ex_Subject got) else i)"
    unfolding H using merge_first [of "merge_part i start_merging (p, Inr (Some got))" i H]
    by (simp add: merge_held_def merge_part_def Let_def start_merging_def)
  then show ?thesis
    unfolding e by (simp add: H [symmetric] merge_fields sorted_keys_list)
      (auto simp: start_merging_def zero_expansion_def zero_subject_def H intro!: arg_cong [where f = sorted_list_of_set])
qed

section \<open>The names of a union\<close>

lemma new_multi_loop_Inr:
  "new_multi_loop names parts = Inr out \<Longrightarrow> distinct names \<Longrightarrow>
     out = names @ map (ep_Name \<circ> the) parts \<and> None \<notin> set parts \<and> distinct out \<and>
     '''' \<notin> set (map (ep_Name \<circ> the) parts)"
proof (induction names parts rule: new_multi_loop.induct)
  case (3 names p ps)
  then have p: "ep_Name p \<noteq> []" "ep_Name p \<notin> set names"
    and loop: "new_multi_loop (names @ [ep_Name p]) ps = Inr out"
    by (auto split: if_splits)
  then have "distinct (names @ [ep_Name p])"
    using 3(3) by simp
  from 3(1) [OF p loop this] p show ?case
    by (elim conjE) simp
qed simp_all

lemma NewMulti_names:
  assumes "NewMulti parts = Inr m"
  shows "distinct (Directories m)" and "'''' \<notin> set (Directories m)" and "mu_parts m \<noteq> []"
proof -
  from assms obtain names where loop: "new_multi_loop [] parts = Inr names" and "parts \<noteq> []"
    and m: "m = \<lparr>mu_parts = map the parts, mu_name = Join names ''+''\<rparr>"
    by (auto simp: NewMulti_def split: if_splits sum.splits)
  then show "distinct (Directories m)" "'''' \<notin> set (Directories m)" "mu_parts m \<noteq> []"
    using new_multi_loop_Inr [OF loop] by (auto simp: Directories_def)
qed

text \<open>
  Groups of two directories of a union are never the same key, as long as no directory's name
  contains a colon: \<open>NewMulti\<close> refuses unnamed directories and two directories of one name.
\<close>

theorem Multi_keys_apart:
  assumes "NewMulti parts = Inr m"
    and "\<forall>p \<in> set (mu_parts m). CHR '':'' \<notin> set (ep_Name p)"
    and "a < length (mu_parts m)" "b < length (mu_parts m)" "a \<noteq> b"
  shows "GroupKey \<lparr>ref_Source = ep_Name (mu_parts m ! a), ref_Value = g\<rparr> \<noteq>
    GroupKey \<lparr>ref_Source = ep_Name (mu_parts m ! b), ref_Value = h\<rparr>"
proof -
  have "ep_Name (mu_parts m ! a) \<noteq> ep_Name (mu_parts m ! b)"
    using NewMulti_names(1) [OF assms(1)] assms(3-5) nth_eq_iff_index_eq [of "Directories m" a b]
    by (simp add: Directories_def)
  moreover have "ep_Name (mu_parts m ! a) \<noteq> ''''" "ep_Name (mu_parts m ! b) \<noteq> ''''"
    using NewMulti_names(2) [OF assms(1)] assms(3,4)
    by (metis Directories_def length_map nth_map nth_mem)+
  moreover have "CHR '':'' \<notin> set (ep_Name (mu_parts m ! a))" "CHR '':'' \<notin> set (ep_Name (mu_parts m ! b))"
    using assms(2-4) by simp_all
  ultimately show ?thesis
    by (simp add: GroupKey_def sep_split)
qed

definition ex_part :: "string \<Rightarrow> expander" where
  "ex_part name = \<lparr>ep_Name = name,
     ep_Expand = \<lambda>c i. fst (Expand (ex_resolver\<lparr>rs_dir := (static_directory ex_static)\<lparr>dir_Name := name\<rparr>\<rparr>) in_order i),
     ep_Counters = None\<rparr>"

lemma ex_union:
  "NewMulti [Some (ex_part a), Some (ex_part b)] =
     (if a = '''' \<or> b = '''' then Inl (ErrConfig ''a directory has no name'')
      else if a = b then Inl (ErrConfig ''two of these directories have one name'')
      else Inr \<lparr>mu_parts = [ex_part a, ex_part b], mu_name = a @ ''+'' @ b\<rparr>)"
  by (auto simp: NewMulti_def ex_part_def)

theorem Multi_keys_apart_witness:
  "GroupKey \<lparr>ref_Source = ''acme'', ref_Value = ''eng''\<rparr> \<noteq>
   GroupKey \<lparr>ref_Source = ''initech'', ref_Value = ''eng''\<rparr>"
proof -
  have "NewMulti [Some (ex_part ''acme''), Some (ex_part ''initech'')] =
      Inr \<lparr>mu_parts = [ex_part ''acme'', ex_part ''initech''], mu_name = ''acme+initech''\<rparr>"
    by (simp add: ex_union)
  from Multi_keys_apart [OF this, of 0 1 "''eng''" "''eng''"] show ?thesis
    by (simp add: ex_part_def)
qed

text \<open>
  With a colon in a name they can be: \<open>NewMulti\<close> accepts directories named \<open>a\<close> and \<open>a:b\<close>,
  and then the group \<open>b:c\<close> of the first and the group \<open>c\<close> of the second are one key.
\<close>

theorem Multi_keys_collide:
  "\<exists>parts m. NewMulti parts = Inr m \<and> Directories m = [''a'', ''a:b''] \<and>
     GroupKey \<lparr>ref_Source = ''a'', ref_Value = ''b:c''\<rparr> =
     GroupKey \<lparr>ref_Source = ''a:b'', ref_Value = ''c''\<rparr>"
proof -
  have "Directories \<lparr>mu_parts = [ex_part ''a'', ex_part ''a:b''], mu_name = ''a+a:b''\<rparr> = [''a'', ''a:b'']"
    by (simp add: Directories_def ex_part_def)
  moreover have "NewMulti [Some (ex_part ''a''), Some (ex_part ''a:b'')] =
      Inr \<lparr>mu_parts = [ex_part ''a'', ex_part ''a:b''], mu_name = ''a+a:b''\<rparr>"
    by (simp add: ex_union)
  ultimately show ?thesis
    by (auto simp: GroupKey_def)
qed

text \<open>One person, held by the first of two directories only, and by none.\<close>

definition ex_multi :: multi where
  "ex_multi = \<lparr>mu_parts = [ex_part ''acme'',
     (ex_part ''initech'')\<lparr>ep_Expand := \<lambda>c i. Inl ErrNoSubject\<rparr>], mu_name = ''acme+initech''\<rparr>"

lemma ex_part_mei:
  "\<exists>e. ep_Expand (ex_part ''acme'') c ''mei'' = Inr e \<and> su_ID (ex_Subject e) = ''mei'' \<and>
     gs_Members (ex_Groups e) = [''acme:all'', ''acme:eng'', ''acme:ghost''] \<and> ex_Unknown e = [''ghost'']"
proof -
  have "(static_directory ex_static)\<lparr>dir_Name := ''acme''\<rparr> = static_directory ex_static"
    by (simp add: static_directory_def ex_static_def Static_Put_def PutGroup_def NewStatic_def)
  then have "ex_resolver\<lparr>rs_dir := (static_directory ex_static)\<lparr>dir_Name := ''acme''\<rparr>\<rparr> = ex_resolver"
    by (simp add: ex_resolver_def)
  moreover have "\<exists>e r'. Expand ex_resolver in_order ''mei'' = (Inr e, r') \<and> su_ID (ex_Subject e) = ''mei'' \<and>
     gs_Members (ex_Groups e) = [''acme:all'', ''acme:eng'', ''acme:ghost''] \<and> ex_Unknown e = [''ghost'']"
    by (simp add: Expand_def Let_def ex_static_answers in_order_def ex_subject_def dedupe_def)
      (simp add: expand_loop.simps ex_static_answers Let_def level_def lookup_turn_def ex_group_def
        initial_seen_def seen_count_upd map_keys_def GroupKey_def)
  ultimately show ?thesis
    by (auto simp: ex_part_def)
qed

theorem Multi_answers_witness:
  "\<exists>e. Multi_Expand ex_multi None (\<lambda>n. None) ''mei'' = Inr e"
proof -
  obtain e where "ep_Expand (ex_part ''acme'') None ''mei'' = Inr e"
    using ex_part_mei by blast
  then show ?thesis
    using Multi_answers [of ex_multi "\<lambda>n. None" "''mei''"]
    by (cases "Multi_Expand ex_multi None (\<lambda>n. None) ''mei''")
      (auto simp: ex_multi_def less_Suc_eq All_less_Suc Ex_less_Suc)
qed

theorem Multi_exact_witness:
  "\<exists>e. Multi_Expand ex_multi None (\<lambda>n. None) ''mei'' = Inr e \<and>
     gs_Members (ex_Groups e) = [''acme:all'', ''acme:eng'', ''acme:ghost''] \<and>
     ex_Unknown e = [''acme:ghost''] \<and> su_ID (ex_Subject e) = ''mei''"
proof -
  obtain e where e: "ep_Expand (ex_part ''acme'') None ''mei'' = Inr e"
    and fields: "su_ID (ex_Subject e) = ''mei''"
      "gs_Members (ex_Groups e) = [''acme:all'', ''acme:eng'', ''acme:ghost'']" "ex_Unknown e = [''ghost'']"
    using ex_part_mei by blast
  have answers: "answers ex_multi (\<lambda>n. None) ''mei'' = [Inr (Some e), Inr None]"
    by (simp add: answers_def ex_multi_def part_answer_def e)
  then have held: "held ex_multi (\<lambda>n. None) ''mei'' = [(ex_part ''acme'', e)]"
    by (simp add: held_def) (simp add: ex_multi_def)
  obtain m where m: "Multi_Expand ex_multi None (\<lambda>n. None) ''mei'' = Inr m"
    by (simp add: Multi_Expand_cases answers held part_error_def Let_def)
  have "ep_Name (ex_part ''acme'') = ''acme''"
    by (simp add: ex_part_def)
  with m Multi_exact [OF m] show ?thesis
    by (simp add: held fields GroupKey_def)
qed

end
