(* ===== verification/Cache_LRU.thy ===== *)
theory Cache_LRU
  imports Genba_Prelude "HOL-Library.Word"
begin

unbundle bit_operations_syntax

text \<open>
  Package \<open>cache\<close> (\<open>cache/cache.go\<close>): a sharded least recently used cache with an expiry and
  single flight on a miss. A shard is Go's map from keys to list elements together with the
  doubly linked list: \<open>sh_items\<close> holds the entry of each key and \<open>sh_ll\<close> the keys of the list's
  elements, front first. An operation runs under its shard's lock and is one step. \<open>Do\<close> releases
  the lock while it calls \<open>fn\<close>, so it is two steps, \<open>Do_begin\<close> and \<open>Do_end\<close>, with \<open>fn\<close>'s
  result in between; the clock's value is an argument of every step that reads it.
\<close>

section \<open>Shards\<close>

record 'v entry =
  en_key :: string
  en_val :: 'v
  en_expires :: gtime

record 'v shard =
  sh_cap :: int
  sh_items :: "(string, 'v entry) fmap"
  sh_ll :: "string list"
  sh_inflight :: "string set"

definition shard_init :: "'v shard \<Rightarrow> int \<Rightarrow> 'v shard" where
  "shard_init s capacity = s\<lparr>sh_cap := capacity, sh_items := fmempty, sh_ll := []\<rparr>"

definition move_to_front :: "string \<Rightarrow> string list \<Rightarrow> string list" where
  "move_to_front k ll = k # remove1 k ll"

definition shard_get :: "'v shard \<Rightarrow> string \<Rightarrow> gtime \<Rightarrow> 'v option \<times> 'v shard" where
  "shard_get s k now =
     (case fmlookup (sh_items s) k of
        None \<Rightarrow> (None, s)
      | Some e \<Rightarrow>
          if \<not> IsZero (en_expires e) \<and> \<not> now < en_expires e
          then (None, s\<lparr>sh_ll := remove1 k (sh_ll s), sh_items := fmdrop k (sh_items s)\<rparr>)
          else (Some (en_val e), s\<lparr>sh_ll := move_to_front k (sh_ll s)\<rparr>))"

definition shard_put :: "'v shard \<Rightarrow> string \<Rightarrow> 'v \<Rightarrow> gtime \<Rightarrow> bool \<times> 'v shard" where
  "shard_put s k v expires =
     (let e = \<lparr>en_key = k, en_val = v, en_expires = expires\<rparr> in
      case fmlookup (sh_items s) k of
        Some _ \<Rightarrow>
          (False, s\<lparr>sh_items := fmupd k e (sh_items s), sh_ll := move_to_front k (sh_ll s)\<rparr>)
      | None \<Rightarrow>
          let s = s\<lparr>sh_items := fmupd k e (sh_items s), sh_ll := k # sh_ll s\<rparr>
          in if int (length (sh_ll s)) \<le> sh_cap s then (False, s)
             else (True, s\<lparr>sh_items := fmdrop (last (sh_ll s)) (sh_items s),
                           sh_ll := butlast (sh_ll s)\<rparr>))"

definition shard_remove :: "'v shard \<Rightarrow> string \<Rightarrow> 'v shard" where
  "shard_remove s k =
     (case fmlookup (sh_items s) k of
        None \<Rightarrow> s
      | Some _ \<Rightarrow> s\<lparr>sh_ll := remove1 k (sh_ll s), sh_items := fmdrop k (sh_items s)\<rparr>)"

section \<open>The cache\<close>

definition Shards :: nat where "Shards = 16"
definition Off :: duration where "Off = 0"
definition Forever :: duration where "Forever = -1"

definition fnv32a :: "string \<Rightarrow> 32 word" where
  "fnv32a s = foldl (\<lambda>h c. (h XOR word_of_nat (of_char c)) * 16777619) 2166136261 s"

definition shard_of :: "string \<Rightarrow> nat" where
  "shard_of k = unat (fnv32a k mod 16)"

record 'v cache =
  ca_shards :: "'v shard list"
  ca_ttl :: duration
  ca_hits :: "64 word"
  ca_misses :: "64 word"
  ca_evictions :: "64 word"

definition empty_shard :: "int \<Rightarrow> 'v shard" where
  "empty_shard capacity =
     shard_init \<lparr>sh_cap = 0, sh_items = fmempty, sh_ll = [], sh_inflight = {}\<rparr> capacity"

definition New_cache :: "int \<Rightarrow> duration \<Rightarrow> 'v cache" where
  "New_cache capacity ttl =
     (let per = max 1 ((capacity + int Shards - 1) div int Shards)
      in \<lparr>ca_shards = replicate Shards (empty_shard per), ca_ttl = ttl,
          ca_hits = 0, ca_misses = 0, ca_evictions = 0\<rparr>)"

definition expiry :: "'v cache \<Rightarrow> gtime \<Rightarrow> gtime" where
  "expiry c now = (if ca_ttl c = Forever then 0 else now + ca_ttl c)"

definition the_shard :: "'v cache \<Rightarrow> string \<Rightarrow> 'v shard" where
  "the_shard c k = ca_shards c ! shard_of k"

definition set_shard :: "'v cache \<Rightarrow> string \<Rightarrow> 'v shard \<Rightarrow> 'v cache" where
  "set_shard c k s = c\<lparr>ca_shards := (ca_shards c)[shard_of k := s]\<rparr>"

definition count_hit :: "bool \<Rightarrow> 'v cache \<Rightarrow> 'v cache" where
  "count_hit b c =
     (if b then c\<lparr>ca_hits := ca_hits c + 1\<rparr> else c\<lparr>ca_misses := ca_misses c + 1\<rparr>)"

definition count_eviction :: "bool \<Rightarrow> 'v cache \<Rightarrow> 'v cache" where
  "count_eviction b c = (if b then c\<lparr>ca_evictions := ca_evictions c + 1\<rparr> else c)"

definition Cache_Get :: "'v cache \<Rightarrow> string \<Rightarrow> gtime \<Rightarrow> 'v option \<times> 'v cache" where
  "Cache_Get c k now =
     (if ca_ttl c = Off then (None, c)
      else let (v, s) = shard_get (the_shard c k) k now
           in (v, count_hit (v \<noteq> None) (set_shard c k s)))"

definition Cache_Put :: "'v cache \<Rightarrow> string \<Rightarrow> 'v \<Rightarrow> gtime \<Rightarrow> 'v cache" where
  "Cache_Put c k v now =
     (if ca_ttl c = Off then c
      else let (evicted, s) = shard_put (the_shard c k) k v (expiry c now)
           in count_eviction evicted (set_shard c k s))"

text \<open>
  How a call of \<open>Do\<close> begins: the cache is off and \<open>fn\<close> is called straight through, there is a
  live value, another call for the key is running and its result will be this call's, or this call
  is the one that runs \<open>fn\<close>.
\<close>

datatype 'v start = Through | Hit 'v | Wait | Run

definition Do_begin :: "'v cache \<Rightarrow> string \<Rightarrow> gtime \<Rightarrow> 'v start \<times> 'v cache" where
  "Do_begin c k now =
     (if ca_ttl c = Off then (Through, c)
      else
        case shard_get (the_shard c k) k now of
          (Some v, s) \<Rightarrow> (Hit v, count_hit True (set_shard c k s))
        | (None, s) \<Rightarrow>
            if k \<in> sh_inflight s then (Wait, count_hit False (set_shard c k s))
            else (Run, count_hit False
                         (set_shard c k (s\<lparr>sh_inflight := insert k (sh_inflight s)\<rparr>))))"

definition Do_end :: "'v cache \<Rightarrow> string \<Rightarrow> 'v res \<Rightarrow> gtime \<Rightarrow> 'v cache" where
  "Do_end c k r now =
     (let s = the_shard c k; s = s\<lparr>sh_inflight := sh_inflight s - {k}\<rparr>
      in case r of
           Inl e \<Rightarrow> set_shard c k s
         | Inr v \<Rightarrow>
             let (evicted, s) = shard_put s k v (expiry c now)
             in count_eviction evicted (set_shard c k s))"

text \<open>\<open>Do\<close> as a caller that nobody else overlaps sees it: \<open>r\<close> is what \<open>fn\<close> returns.\<close>

definition Do :: "'v cache \<Rightarrow> string \<Rightarrow> gtime \<Rightarrow> 'v res \<Rightarrow> gtime \<Rightarrow> 'v res \<times> 'v cache" where
  "Do c k now r later =
     (case Do_begin c k now of
        (Through, c) \<Rightarrow> (r, c)
      | (Hit v, c) \<Rightarrow> (Inr v, c)
      | (Wait, c) \<Rightarrow> (r, c)
      | (Run, c) \<Rightarrow> (r, Do_end c k r later))"

definition Cache_Delete :: "'v cache \<Rightarrow> string list \<Rightarrow> 'v cache" where
  "Cache_Delete c ks = foldl (\<lambda>c k. set_shard c k (shard_remove (the_shard c k) k)) c ks"

definition Clear :: "'v cache \<Rightarrow> 'v cache" where
  "Clear c = c\<lparr>ca_shards := map (\<lambda>s. shard_init s (sh_cap s)) (ca_shards c)\<rparr>"

record cache_stats =
  cs_Hits :: "64 word"
  cs_Misses :: "64 word"
  cs_Evictions :: "64 word"
  cs_Entries :: nat

definition Cache_Stats :: "'v cache \<Rightarrow> cache_stats" where
  "Cache_Stats c =
     \<lparr>cs_Hits = ca_hits c, cs_Misses = ca_misses c, cs_Evictions = ca_evictions c,
      cs_Entries = sum_list (map (\<lambda>s. length (sh_ll s)) (ca_shards c))\<rparr>"

end
