(* ===== verification/Cache_LRU_Facts.thy ===== *)
theory Cache_LRU_Facts
  imports Cache_LRU Step_Systems
begin

text \<open>
  What the cache promises: a shard's map and list agree and never exceed the shard's capacity;
  a shard keeps exactly the most recently used keys; at most one call per key is running; and a
  value that is served was stored, and not longer ago than the cache's lifetime.
\<close>

section \<open>A shard\<close>

definition shard_ok :: "'v shard \<Rightarrow> bool" where
  "shard_ok s \<longleftrightarrow> distinct (sh_ll s) \<and> set (sh_ll s) = fset (fmdom (sh_items s)) \<and>
     int (length (sh_ll s)) \<le> sh_cap s \<and> 1 \<le> sh_cap s"

lemma shard_ok_lookup: "shard_ok s \<Longrightarrow> fmlookup (sh_items s) k = None \<longleftrightarrow> k \<notin> set (sh_ll s)"
  by (simp add: shard_ok_def) (metis fmdom_notD fmdom_notI)

lemma shard_ok_held: "shard_ok s \<Longrightarrow> fmlookup (sh_items s) k = Some e \<Longrightarrow> k \<in> set (sh_ll s)"
  using shard_ok_lookup [of s k] by auto

lemma set_move_to_front [simp]: "k \<in> set ll \<Longrightarrow> set (move_to_front k ll) = set ll"
  by (induction ll) (auto simp: move_to_front_def)

lemma distinct_move_to_front [simp]: "distinct ll \<Longrightarrow> distinct (move_to_front k ll)"
  by (simp add: move_to_front_def)

lemma length_move_to_front [simp]: "k \<in> set ll \<Longrightarrow> length (move_to_front k ll) = length ll"
  by (auto simp: move_to_front_def length_remove1 dest: length_pos_if_in_set)

lemma shard_ok_init: "shard_ok (shard_init s capacity) \<longleftrightarrow> 1 \<le> capacity"
  by (auto simp: shard_ok_def shard_init_def)

lemma shard_ok_get: "shard_ok s \<Longrightarrow> shard_ok (snd (shard_get s k now))"
proof (cases "fmlookup (sh_items s) k")
  case (Some e)
  assume ok: "shard_ok s"
  then have "k \<in> set (sh_ll s)"
    using Some by (rule shard_ok_held)
  then show ?thesis
    using ok Some by (auto simp: shard_get_def shard_ok_def length_remove1)
qed (simp add: shard_get_def)

lemma shard_ok_remove: "shard_ok s \<Longrightarrow> shard_ok (shard_remove s k)"
  by (auto simp: shard_remove_def shard_ok_def length_remove1 split: option.split)

lemma shard_ok_put: "shard_ok s \<Longrightarrow> shard_ok (snd (shard_put s k v x))"
proof (cases "fmlookup (sh_items s) k")
  case None
  assume ok: "shard_ok s"
  then have new: "k \<notin> set (sh_ll s)"
    using None shard_ok_lookup by blast
  let ?ll = "k # sh_ll s"
  have split: "?ll = butlast ?ll @ [last ?ll]" and "distinct ?ll"
    using ok new by (simp_all add: shard_ok_def)
  then have "set (butlast ?ll) = set ?ll - {last ?ll}" "distinct (butlast ?ll)"
    by (metis distinct_append Diff_insert_absorb Un_insert_right disjoint_insert(1)
        list.simps(15) set_append sup_bot_right list.set(1))+
  then show ?thesis
    using ok new None by (auto simp: shard_put_def shard_ok_def Let_def)
next
  case (Some e)
  assume ok: "shard_ok s"
  then have "k \<in> set (sh_ll s)"
    using Some by (rule shard_ok_held)
  then show ?thesis
    using ok Some by (auto simp: shard_put_def shard_ok_def Let_def)
qed

section \<open>Which keys a shard keeps\<close>

text \<open>
  The reference: an unbounded stack of keys in order of their last use. A lookup is a use only of
  a key that is held, that is, one of the \<open>n\<close> on top.
\<close>

datatype 'v use = UsePut string 'v | UseGet string

definition stack_use :: "string list \<Rightarrow> string \<Rightarrow> string list" where
  "stack_use S k = k # removeAll k S"

fun recency :: "nat \<Rightarrow> string list \<Rightarrow> 'v use list \<Rightarrow> string list" where
  "recency n S [] = S"
| "recency n S (UsePut k v # us) = recency n (stack_use S k) us"
| "recency n S (UseGet k # us) = recency n (if k \<in> set (take n S) then stack_use S k else S) us"

fun last_put :: "'v use list \<Rightarrow> string \<Rightarrow> 'v option" where
  "last_put [] k = None"
| "last_put (UsePut k' v # us) k =
     (case last_put us k of Some w \<Rightarrow> Some w | None \<Rightarrow> if k' = k then Some v else None)"
| "last_put (UseGet k' # us) k = last_put us k"

definition run_use :: "gtime \<Rightarrow> 'v shard \<Rightarrow> 'v use \<Rightarrow> 'v shard" where
  "run_use now s u =
     (case u of UsePut k v \<Rightarrow> snd (shard_put s k v 0) | UseGet k \<Rightarrow> snd (shard_get s k now))"

lemma take_stack_use:
  assumes "distinct S"
  shows "k \<in> set (take n S) \<Longrightarrow> move_to_front k (take n S) = take n (stack_use S k)"
    and "k \<notin> set (take n S) \<Longrightarrow> 0 < n \<Longrightarrow> take n (stack_use S k) = k # take (n - 1) S"
proof -
  have removed: "removeAll k xs = xs" if "k \<notin> set xs" for xs :: "string list"
    using that by simp
  show "k \<in> set (take n S) \<Longrightarrow> move_to_front k (take n S) = take n (stack_use S k)"
    using assms
  proof (induction S arbitrary: n)
    case (Cons a S)
    then obtain m where n: "n = Suc m"
      by (cases n) auto
    show ?case
    proof (cases "a = k")
      case True
      then show ?thesis
        using Cons.prems n by (simp add: move_to_front_def stack_use_def removed)
    next
      case False
      then have "move_to_front k (take m S) = take m (stack_use S k)"
        using Cons n by simp
      moreover obtain l where "m = Suc l"
        using Cons.prems False n by (cases m) auto
      ultimately show ?thesis
        using False n by (simp add: move_to_front_def stack_use_def)
    qed
  qed simp
  have "k \<notin> set (take m S) \<Longrightarrow> take m (removeAll k S) = take m S" for m
    by (induction S arbitrary: m) (auto simp: take_Cons' removed split: if_splits)
  moreover have "k \<notin> set (take n S) \<Longrightarrow> k \<notin> set (take (n - 1) S)"
    using set_take_subset_set_take [of "n - 1" n S] by auto
  ultimately show "k \<notin> set (take n S) \<Longrightarrow> 0 < n \<Longrightarrow> take n (stack_use S k) = k # take (n - 1) S"
    by (simp add: stack_use_def take_Cons')
qed

lemma distinct_stack_use: "distinct S \<Longrightarrow> distinct (stack_use S k)"
  by (simp add: stack_use_def distinct_removeAll)

text \<open>The simulation: the shard's list is the top of the stack, and its values the last ones put.\<close>

definition shard_abs :: "'v shard \<Rightarrow> string list \<Rightarrow> (string \<Rightarrow> 'v option) \<Rightarrow> bool" where
  "shard_abs s S val \<longleftrightarrow> shard_ok s \<and> distinct S \<and> sh_ll s = take (nat (sh_cap s)) S \<and>
     (\<forall>k e. fmlookup (sh_items s) k = Some e \<longrightarrow> en_expires e = 0 \<and> val k = Some (en_val e))"

lemma shard_abs_put:
  assumes "shard_abs s S val"
  shows "shard_abs (snd (shard_put s k v 0)) (stack_use S k) (val(k \<mapsto> v))"
proof -
  have ok: "shard_ok s" and dist: "distinct S" and ll: "sh_ll s = take (nat (sh_cap s)) S"
    and vals: "\<forall>k e. fmlookup (sh_items s) k = Some e \<longrightarrow> en_expires e = 0 \<and> val k = Some (en_val e)"
    using assms by (simp_all add: shard_abs_def)
  have cap: "0 < nat (sh_cap s)" "int (nat (sh_cap s)) = sh_cap s"
    using ok by (simp_all add: shard_ok_def)
  have "sh_ll (snd (shard_put s k v 0)) = take (nat (sh_cap s)) (stack_use S k)"
  proof (cases "fmlookup (sh_items s) k")
    case None
    then have "k \<notin> set (take (nat (sh_cap s)) S)"
      using shard_ok_lookup [OF ok, of k] ll by simp
    then have "take (nat (sh_cap s)) (stack_use S k) = k # take (nat (sh_cap s) - 1) S"
      by (rule take_stack_use(2) [OF dist _ cap(1)])
    moreover have "butlast (k # take n S) = k # take (n - 1) S" if "n \<le> length S" "0 < n" for n
      using that by (cases S) (auto simp: butlast_take)
    ultimately show ?thesis
      using None ll cap by (auto simp: shard_put_def Let_def)
  next
    case (Some e)
    from shard_ok_held [OF ok this] show ?thesis
      using Some ll take_stack_use(1) [OF dist] by (simp add: shard_put_def Let_def)
  qed
  moreover have "sh_cap (snd (shard_put s k v 0)) = sh_cap s"
    by (simp add: shard_put_def Let_def split: option.split)
  moreover have "\<forall>j e. fmlookup (sh_items (snd (shard_put s k v 0))) j = Some e \<longrightarrow>
      en_expires e = 0 \<and> (val(k \<mapsto> v)) j = Some (en_val e)"
    using vals by (auto simp: shard_put_def Let_def split: option.splits if_splits)
  ultimately show ?thesis
    using shard_ok_put [OF ok] dist by (simp add: shard_abs_def distinct_stack_use)
qed

lemma shard_abs_get:
  assumes "shard_abs s S val"
  shows "shard_abs (snd (shard_get s k now))
    (if k \<in> set (take (nat (sh_cap s)) S) then stack_use S k else S) val"
proof -
  have ok: "shard_ok s" and dist: "distinct S" and ll: "sh_ll s = take (nat (sh_cap s)) S"
    and vals: "\<forall>k e. fmlookup (sh_items s) k = Some e \<longrightarrow> en_expires e = 0 \<and> val k = Some (en_val e)"
    using assms by (simp_all add: shard_abs_def)
  show ?thesis
  proof (cases "fmlookup (sh_items s) k")
    case None
    then have "k \<notin> set (take (nat (sh_cap s)) S)"
      using shard_ok_lookup [OF ok, of k] ll by simp
    then show ?thesis
      using None assms by (simp add: shard_get_def)
  next
    case (Some e)
    then have "k \<in> set (take (nat (sh_cap s)) S)"
      using shard_ok_held [OF ok Some] ll by simp
    moreover have "en_expires e = 0"
      using vals Some by blast
    ultimately show ?thesis
      using Some vals ll dist shard_ok_get [OF ok, of k now] take_stack_use(1) [OF dist]
      by (simp add: shard_abs_def shard_get_def IsZero_def distinct_stack_use)
  qed
qed



section \<open>Concurrent callers\<close>

text \<open>
  The cache under any interleaving of its callers: besides the cache, which calls of \<open>Do\<close> are
  running \<open>fn\<close>, and the history of what was stored and when. The clock is after Go's zero time.
\<close>

record 'v world =
  wo_cache :: "'v cache"
  wo_running :: "string list"
  wo_log :: "(string \<times> 'v \<times> gtime) set"

definition stored :: "'v world \<Rightarrow> string \<Rightarrow> 'v \<Rightarrow> gtime \<Rightarrow> bool" where
  "stored w k v t \<longleftrightarrow> (k, v, t) \<in> wo_log w"

inductive cache_step :: "'v world \<Rightarrow> 'v world \<Rightarrow> bool" where
  Get: "cache_step w (w\<lparr>wo_cache := snd (Cache_Get (wo_cache w) k now)\<rparr>)"
| Put: "0 < now \<Longrightarrow>
    cache_step w (w\<lparr>wo_cache := Cache_Put (wo_cache w) k v now, wo_log := insert (k, v, now) (wo_log w)\<rparr>)"
| Begin: "Do_begin (wo_cache w) k now = (b, c) \<Longrightarrow>
    cache_step w (w\<lparr>wo_cache := c, wo_running := (if b = Run then k # wo_running w else wo_running w)\<rparr>)"
| Fail: "k \<in> set (wo_running w) \<Longrightarrow>
    cache_step w (w\<lparr>wo_cache := Do_end (wo_cache w) k (Inl e) now,
                    wo_running := remove1 k (wo_running w)\<rparr>)"
| Done: "k \<in> set (wo_running w) \<Longrightarrow> 0 < now \<Longrightarrow>
    cache_step w (w\<lparr>wo_cache := Do_end (wo_cache w) k (Inr v) now,
                    wo_running := remove1 k (wo_running w), wo_log := insert (k, v, now) (wo_log w)\<rparr>)"
| Delete: "cache_step w (w\<lparr>wo_cache := Cache_Delete (wo_cache w) ks\<rparr>)"
| Clear: "cache_step w (w\<lparr>wo_cache := Clear (wo_cache w)\<rparr>)"

definition start_world :: "int \<Rightarrow> duration \<Rightarrow> 'v world" where
  "start_world capacity ttl = \<lparr>wo_cache = New_cache capacity ttl, wo_running = [], wo_log = {}\<rparr>"

text \<open>What a shard's entries are allowed to be: stored, and expiring one lifetime later.\<close>

definition fresh :: "duration \<Rightarrow> (string \<times> 'v \<times> gtime) set \<Rightarrow> 'v shard \<Rightarrow> bool" where
  "fresh ttl log s \<longleftrightarrow> (\<forall>k e. fmlookup (sh_items s) k = Some e \<longrightarrow>
     (\<exists>t. (k, en_val e, t) \<in> log \<and> 0 < t \<and> en_expires e = (if ttl = Forever then 0 else t + ttl)))"

definition shard_inv :: "int \<Rightarrow> duration \<Rightarrow> (string \<times> 'v \<times> gtime) set \<Rightarrow> 'v shard \<Rightarrow> bool" where
  "shard_inv per ttl log s \<longleftrightarrow> shard_ok s \<and> sh_cap s = per \<and> fresh ttl log s"

definition cache_inv :: "int \<Rightarrow> duration \<Rightarrow> 'v world \<Rightarrow> bool" where
  "cache_inv per ttl w \<longleftrightarrow>
     length (ca_shards (wo_cache w)) = 16 \<and> ca_ttl (wo_cache w) = ttl \<and> ttl \<noteq> Off \<and>
     (\<forall>s \<in> set (ca_shards (wo_cache w)). shard_inv per ttl (wo_log w) s) \<and>
     distinct (wo_running w) \<and>
     (\<forall>k. k \<in> set (wo_running w) \<longleftrightarrow> k \<in> sh_inflight (the_shard (wo_cache w) k))"

lemma shard_of_less [simp]: "shard_of k < 16"
proof -
  have "fnv32a k mod 16 < (16 :: 32 word)"
    by (rule word_mod_less_divisor) simp
  then show ?thesis
    by (simp add: shard_of_def word_less_nat_alt)
qed

lemma shard_inv_get: "shard_inv per ttl log s \<Longrightarrow> shard_inv per ttl log (snd (shard_get s k now))"
  by (simp add: shard_inv_def shard_ok_get) (auto simp: fresh_def shard_get_def split: option.split if_splits)

lemma shard_inv_remove: "shard_inv per ttl log s \<Longrightarrow> shard_inv per ttl log (shard_remove s k)"
  by (simp add: shard_inv_def shard_ok_remove)
    (auto simp: fresh_def shard_remove_def split: option.split if_splits)

lemma shard_inv_put:
  "shard_inv per ttl log s \<Longrightarrow> 0 < now \<Longrightarrow> expires = (if ttl = Forever then 0 else now + ttl) \<Longrightarrow>
     shard_inv per ttl (insert (k, v, now) log) (snd (shard_put s k v expires))"
  by (simp add: shard_inv_def shard_ok_put)
    (auto simp: fresh_def shard_put_def Let_def split: option.splits if_splits)

lemma shard_inv_log: "shard_inv per ttl log s \<Longrightarrow> shard_inv per ttl (insert x log) s"
  by (fastforce simp: shard_inv_def fresh_def)

lemma sh_inflight_simps [simp]:
  "sh_inflight (snd (shard_get s k now)) = sh_inflight s"
  "sh_inflight (snd (shard_put s k v x)) = sh_inflight s"
  "sh_inflight (shard_remove s k) = sh_inflight s"
  by (auto simp: shard_get_def shard_put_def shard_remove_def Let_def split: option.split)

lemma the_shard_set:
  "length (ca_shards c) = 16 \<Longrightarrow>
     the_shard (set_shard c k s) j = (if shard_of j = shard_of k then s else the_shard c j)"
  by (simp add: the_shard_def set_shard_def)

lemma set_shard_simps [simp]:
  "length (ca_shards (set_shard c k s)) = length (ca_shards c)"
  "ca_ttl (set_shard c k s) = ca_ttl c"
  "ca_shards (count_hit b c) = ca_shards c" "ca_ttl (count_hit b c) = ca_ttl c"
  "ca_shards (count_eviction b c) = ca_shards c" "ca_ttl (count_eviction b c) = ca_ttl c"
  "the_shard (count_hit b c) k = the_shard c k" "the_shard (count_eviction b c) k = the_shard c k"
  by (simp_all add: set_shard_def count_hit_def count_eviction_def the_shard_def)

lemma in_set_shard:
  "s' \<in> set (ca_shards (set_shard c k s)) \<Longrightarrow> s' = s \<or> s' \<in> set (ca_shards c)"
  by (auto simp: set_shard_def dest: set_update_subset_insert [THEN subsetD])

lemma the_shard_in: "length (ca_shards c) = 16 \<Longrightarrow> the_shard c k \<in> set (ca_shards c)"
  by (simp add: the_shard_def)

lemma cache_inv_shard:
  assumes inv: "cache_inv per ttl w" and s: "shard_inv per ttl log s"
    and "wo_log w \<subseteq> log" "log = wo_log w \<or> (\<exists>x. log = insert x (wo_log w))"
    and run: "distinct running"
      "\<And>j. j \<in> set running \<longleftrightarrow>
        (if shard_of j = shard_of k then j \<in> sh_inflight s else j \<in> sh_inflight (the_shard (wo_cache w) j))"
    and c: "ca_shards c = ca_shards (set_shard (wo_cache w) k s)" "ca_ttl c = ca_ttl (wo_cache w)"
  shows "cache_inv per ttl (w\<lparr>wo_cache := c, wo_running := running, wo_log := log\<rparr>)"
proof -
  have "shard_inv per ttl log s'" if "s' \<in> set (ca_shards c)" for s'
    using that inv s assms(4) in_set_shard [of s' "wo_cache w" k s] c(1)
    by (auto simp: cache_inv_def intro: shard_inv_log)
  moreover have "the_shard c j = the_shard (set_shard (wo_cache w) k s) j" for j
    using c(1) by (simp add: the_shard_def)
  then have "j \<in> sh_inflight (the_shard c j) \<longleftrightarrow> j \<in> set running" for j
    using inv run(2) [of j] by (simp add: cache_inv_def the_shard_set)
  ultimately show ?thesis
    using inv c run(1) by (simp add: cache_inv_def)
qed

lemma cache_inv_parts:
  assumes "cache_inv per ttl w"
  shows "shard_inv per ttl (wo_log w) (the_shard (wo_cache w) k)" "ca_ttl (wo_cache w) = ttl"
    "ttl \<noteq> Off" "distinct (wo_running w)"
    "j \<in> set (wo_running w) \<longleftrightarrow> j \<in> sh_inflight (the_shard (wo_cache w) j)"
    "shard_of j = shard_of k \<Longrightarrow> the_shard (wo_cache w) j = the_shard (wo_cache w) k"
  using assms the_shard_in [of "wo_cache w" k] by (simp_all add: cache_inv_def, simp add: the_shard_def)

lemma same_running:
  "cache_inv per ttl w \<Longrightarrow> sh_inflight s = sh_inflight (the_shard (wo_cache w) k) \<Longrightarrow>
     j \<in> set (wo_running w) \<longleftrightarrow>
       (if shard_of j = shard_of k then j \<in> sh_inflight s else j \<in> sh_inflight (the_shard (wo_cache w) j))"
  using cache_inv_parts(5) [of per ttl w j] cache_inv_parts(6) [of per ttl w j k] by auto

lemma cache_inv_same:
  assumes inv: "cache_inv per ttl w" and s: "shard_inv per ttl log s"
    and log: "log = wo_log w \<or> (\<exists>x. log = insert x (wo_log w))"
    and "sh_inflight s = sh_inflight (the_shard (wo_cache w) k)"
    and "ca_shards c = ca_shards (set_shard (wo_cache w) k s)" "ca_ttl c = ca_ttl (wo_cache w)"
  shows "cache_inv per ttl (w\<lparr>wo_cache := c, wo_log := log\<rparr>)"
  using cache_inv_shard [OF inv s _ log cache_inv_parts(4) [OF inv] same_running [OF inv assms(4)]
      assms(5,6)] log by auto

lemma cache_inv_remove:
  assumes inv: "cache_inv per ttl w"
  shows "cache_inv per ttl
    (w\<lparr>wo_cache := set_shard (wo_cache w) k (shard_remove (the_shard (wo_cache w) k) k)\<rparr>)"
  using cache_inv_same [OF inv shard_inv_remove [OF cache_inv_parts(1) [OF inv]] _ _ refl] by simp

lemma cache_inv_delete:
  "cache_inv per ttl w \<Longrightarrow> cache_inv per ttl (w\<lparr>wo_cache := Cache_Delete (wo_cache w) ks\<rparr>)"
proof (induction ks arbitrary: w)
  case (Cons k ks)
  from Cons.IH [OF cache_inv_remove [OF Cons.prems, of k]] show ?case
    by (simp add: Cache_Delete_def)
qed (simp add: Cache_Delete_def)

lemma cache_inv_clear:
  assumes "cache_inv per ttl w" shows "cache_inv per ttl (w\<lparr>wo_cache := Clear (wo_cache w)\<rparr>)"
proof -
  have "shard_inv per ttl (wo_log w) (shard_init s (sh_cap s))" if "s \<in> set (ca_shards (wo_cache w))" for s
    using assms that
    by (auto simp: cache_inv_def shard_inv_def shard_ok_init) (auto simp: shard_ok_def shard_init_def fresh_def)
  moreover have "the_shard (Clear (wo_cache w)) j = shard_init (the_shard (wo_cache w) j) (sh_cap (the_shard (wo_cache w) j))" for j
    using assms by (simp add: the_shard_def Clear_def cache_inv_def)
  ultimately show ?thesis
    using assms by (auto simp: cache_inv_def) (auto simp: Clear_def shard_init_def)
qed

lemma cache_inv_begin:
  assumes inv: "cache_inv per ttl w" and b: "Do_begin (wo_cache w) k now = (b, c)"
  shows "cache_inv per ttl (w\<lparr>wo_cache := c,
    wo_running := (if b = Run then k # wo_running w else wo_running w)\<rparr>)"
proof -
  let ?s = "the_shard (wo_cache w) k"
  obtain r s where get: "shard_get ?s k now = (r, s)"
    by fastforce
  then have s: "s = snd (shard_get ?s k now)"
    by simp
  have inv_s: "shard_inv per ttl (wo_log w) s" and infl: "sh_inflight s = sh_inflight ?s"
    using shard_inv_get [OF cache_inv_parts(1) [OF inv]] by (simp_all add: s)
  show ?thesis
  proof (cases "b = Run")
    case True
    then have c: "c = count_hit False (set_shard (wo_cache w) k (s\<lparr>sh_inflight := insert k (sh_inflight s)\<rparr>))"
      and new: "k \<notin> set (wo_running w)"
      using b get cache_inv_parts(2,3,5) [OF inv] infl
      by (auto simp: Do_begin_def split: if_splits option.splits)
    have s': "shard_inv per ttl (wo_log w) (s\<lparr>sh_inflight := insert k (sh_inflight s)\<rparr>)"
      using inv_s by (simp add: shard_inv_def shard_ok_def fresh_def)
    have "cache_inv per ttl (w\<lparr>wo_cache := c, wo_running := k # wo_running w, wo_log := wo_log w\<rparr>)"
      using same_running [OF inv infl] new cache_inv_parts(4) [OF inv]
      by (intro cache_inv_shard [OF inv s', where k = k]) (auto simp: c)
    then show ?thesis
      using True by simp
  next
    case False
    then have "ca_shards c = ca_shards (set_shard (wo_cache w) k s)" "ca_ttl c = ca_ttl (wo_cache w)"
      using b get cache_inv_parts(2,3) [OF inv]
      by (auto simp: Do_begin_def split: if_splits option.splits)
    from cache_inv_same [OF inv inv_s _ infl this] False show ?thesis
      by simp
  qed
qed

lemma cache_inv_end:
  assumes inv: "cache_inv per ttl w" and "k \<in> set (wo_running w)" and pos: "\<And>v. r = Inr v \<Longrightarrow> 0 < now"
    and log: "log = (case r of Inl e \<Rightarrow> wo_log w | Inr v \<Rightarrow> insert (k, v, now) (wo_log w))"
  shows "cache_inv per ttl (w\<lparr>wo_cache := Do_end (wo_cache w) k r now,
    wo_running := remove1 k (wo_running w), wo_log := log\<rparr>)"
proof -
  define s where "s = (the_shard (wo_cache w) k)
    \<lparr>sh_inflight := sh_inflight (the_shard (wo_cache w) k) - {k}\<rparr>"
  define s' where "s' = (case r of Inl e \<Rightarrow> s | Inr v \<Rightarrow> snd (shard_put s k v (expiry (wo_cache w) now)))"
  have "shard_inv per ttl (wo_log w) s"
    using cache_inv_parts(1) [OF inv, of k] by (simp add: s_def shard_inv_def shard_ok_def fresh_def)
  then have inv_s: "shard_inv per ttl log s'"
    using shard_inv_put [of per ttl "wo_log w" s now] pos cache_inv_parts(2) [OF inv]
    by (auto simp: s'_def log expiry_def split: sum.split)
  have infl: "sh_inflight s' = sh_inflight (the_shard (wo_cache w) k) - {k}"
    by (simp add: s'_def s_def split: sum.split)
  have c: "ca_shards (Do_end (wo_cache w) k r now) = ca_shards (set_shard (wo_cache w) k s')"
    "ca_ttl (Do_end (wo_cache w) k r now) = ca_ttl (wo_cache w)"
    by (simp_all add: Do_end_def s'_def s_def [symmetric] Let_def split: sum.split prod.split)
  show ?thesis
    using same_running [OF inv, of "the_shard (wo_cache w) k" k] cache_inv_parts(4) [OF inv]
    by (intro cache_inv_shard [OF inv inv_s, where k = k])
      (auto simp: c infl log split: sum.split)
qed

lemma cache_inv_step:
  assumes inv: "cache_inv per ttl w" and "cache_step w w'"
  shows "cache_inv per ttl w'"
  using assms(2)
proof cases
  case (Get k now)
  have "ca_shards (snd (Cache_Get (wo_cache w) k now)) =
      ca_shards (set_shard (wo_cache w) k (snd (shard_get (the_shard (wo_cache w) k) k now)))"
    "ca_ttl (snd (Cache_Get (wo_cache w) k now)) = ca_ttl (wo_cache w)"
    using cache_inv_parts(2,3) [OF inv] by (simp_all add: Cache_Get_def split: prod.split)
  from cache_inv_same [OF inv shard_inv_get [OF cache_inv_parts(1) [OF inv]] _ _ this] Get
  show ?thesis by simp
next
  case (Put now k v)
  let ?s = "snd (shard_put (the_shard (wo_cache w) k) k v (expiry (wo_cache w) now))"
  have c: "ca_shards (Cache_Put (wo_cache w) k v now) = ca_shards (set_shard (wo_cache w) k ?s)"
    "ca_ttl (Cache_Put (wo_cache w) k v now) = ca_ttl (wo_cache w)"
    using cache_inv_parts(2,3) [OF inv] by (simp_all add: Cache_Put_def split: prod.split)
  have "shard_inv per ttl (insert (k, v, now) (wo_log w)) ?s"
    using cache_inv_parts(2) [OF inv]
    by (intro shard_inv_put [OF cache_inv_parts(1) [OF inv] \<open>0 < now\<close>]) (simp add: expiry_def)
  from cache_inv_same [OF inv this _ _ c] Put show ?thesis by auto
next
  case (Begin k now b c)
  then show ?thesis
    using cache_inv_begin [OF inv] by blast
next
  case (Fail k e now)
  then show ?thesis
    using cache_inv_end [OF inv, of k "Inl e"] by simp
next
  case (Done k now v)
  then show ?thesis
    using cache_inv_end [OF inv, of k "Inr v" now] by simp
next
  case (Delete ks)
  then show ?thesis
    using cache_inv_delete [OF inv] by simp
next
  case Clear
  then show ?thesis
    using cache_inv_clear [OF inv] by simp
qed

definition per_shard :: "int \<Rightarrow> int" where
  "per_shard capacity = max 1 ((capacity + int Shards - 1) div int Shards)"

lemma cache_inv_start: "ttl \<noteq> Off \<Longrightarrow> cache_inv (per_shard capacity) ttl (start_world capacity ttl :: 'v world)"
proof -
  have "shard_inv (per_shard capacity) ttl {} (empty_shard (per_shard capacity) :: 'v shard)"
    unfolding shard_inv_def empty_shard_def shard_ok_init
    by (simp add: fresh_def shard_init_def per_shard_def)
  moreover have "the_shard (New_cache capacity ttl :: 'v cache) k = empty_shard (per_shard capacity)" for k
    by (simp add: the_shard_def New_cache_def per_shard_def Shards_def Let_def)
  ultimately show "ttl \<noteq> Off \<Longrightarrow> ?thesis"
    by (simp add: cache_inv_def start_world_def)
      (simp add: New_cache_def per_shard_def Shards_def Let_def empty_shard_def shard_init_def)
qed

interpretation callers: step_invariant cache_step "cache_inv per ttl" for per ttl
  by unfold_locales (rule cache_inv_step)

lemma cache_inv_hit:
  assumes "cache_inv per ttl w" "0 < ttl \<or> ttl = Forever"
    and "fst (shard_get (the_shard (wo_cache w) k) k now) = Some v"
  shows "\<exists>t. (k, v, t) \<in> wo_log w \<and> 0 < t \<and> (ttl = Forever \<or> now < t + ttl)"
proof -
  obtain e where e: "fmlookup (sh_items (the_shard (wo_cache w) k)) k = Some e"
    and "en_val e = v" "IsZero (en_expires e) \<or> now < en_expires e"
    using assms(3) by (auto simp: shard_get_def split: option.splits if_splits)
  moreover obtain t where "(k, en_val e, t) \<in> wo_log w" "0 < t"
    "en_expires e = (if ttl = Forever then 0 else t + ttl)"
    using cache_inv_parts(1) [OF assms(1), of k] e unfolding shard_inv_def fresh_def by blast
  ultimately show ?thesis
    using assms(2) by (auto simp: IsZero_def split: if_splits)
qed

text \<open>
  C11: a value is served only within its lifetime. Whatever the callers do and however their calls
  interleave, a value that \<open>Get\<close> or \<open>Do\<close> serves from the cache for a key was stored for that
  very key, by a \<open>Put\<close> or as the successful result of a call, less than the lifetime ago; errors
  are never served.
\<close>

theorem cache_serves_fresh:
  assumes "0 < ttl \<or> ttl = Forever" and "reach cache_step (start_world capacity ttl) w"
    and "fst (Cache_Get (wo_cache w) k now) = Some v \<or> fst (Do_begin (wo_cache w) k now) = Hit v"
  shows "\<exists>t. stored w k v t \<and> 0 < t \<and> (ttl = Forever \<or> now < t + ttl)"
proof -
  have "ttl \<noteq> Off"
    using assms(1) by (auto simp: Off_def Forever_def)
  note inv = callers.reach_inv [OF assms(2) cache_inv_start [OF this, of capacity]]
  have "fst (shard_get (the_shard (wo_cache w) k) k now) = Some v"
    using assms(3)
    by (auto simp: Cache_Get_def Do_begin_def split: if_splits prod.splits option.splits)
  from cache_inv_hit [OF inv assms(1) this] show ?thesis by (simp add: stored_def)
qed

text \<open>
  The cache never holds more than its capacity, rounded up to whole shards: in every reachable
  state each shard's list is free of repetitions, agrees with its map, and is within the bound.
\<close>

theorem cache_bounded:
  assumes "ttl \<noteq> Off" and "reach cache_step (start_world capacity ttl) w"
  shows "(\<forall>s \<in> set (ca_shards (wo_cache w)).
      distinct (sh_ll s) \<and> set (sh_ll s) = fset (fmdom (sh_items s)) \<and>
      int (length (sh_ll s)) \<le> per_shard capacity) \<and>
    int (cs_Entries (Cache_Stats (wo_cache w))) \<le> 16 * per_shard capacity"
proof -
  note inv = callers.reach_inv [OF assms(2) cache_inv_start [OF assms(1), of capacity]]
  have all: "\<forall>s \<in> set (ca_shards (wo_cache w)).
      distinct (sh_ll s) \<and> set (sh_ll s) = fset (fmdom (sh_items s)) \<and>
      int (length (sh_ll s)) \<le> per_shard capacity"
    using inv by (auto simp: cache_inv_def shard_inv_def shard_ok_def)
  have "int (sum_list (map (\<lambda>s. length (sh_ll s)) xs)) \<le> int (length xs) * per_shard capacity"
    if "\<forall>s \<in> set xs. int (length (sh_ll s)) \<le> per_shard capacity" for xs :: "'a shard list"
    using that by (induction xs) (auto simp: algebra_simps)
  from this [of "ca_shards (wo_cache w)"] show ?thesis
    using all inv by (simp add: Cache_Stats_def cache_inv_def)
qed

text \<open>
  Single flight. In every reachable state at most one call per key is running \<open>fn\<close>: a call of
  \<open>Do\<close> that begins while another runs for its key does not run \<open>fn\<close> itself, it is served a live
  value or waits for the one that runs; and a call that begins while none runs does not wait.
\<close>

theorem single_flight:
  assumes "ttl \<noteq> Off" and "reach cache_step (start_world capacity ttl) w"
  shows "distinct (wo_running w) \<and>
    (k \<in> set (wo_running w) \<longrightarrow>
       fst (Do_begin (wo_cache w) k now) = Wait \<or> (\<exists>v. fst (Do_begin (wo_cache w) k now) = Hit v)) \<and>
    (k \<notin> set (wo_running w) \<longrightarrow>
       fst (Do_begin (wo_cache w) k now) = Run \<or> (\<exists>v. fst (Do_begin (wo_cache w) k now) = Hit v))"
proof -
  note inv = callers.reach_inv [OF assms(2) cache_inv_start [OF assms(1), of capacity]]
  obtain r s where get: "shard_get (the_shard (wo_cache w) k) k now = (r, s)"
    by fastforce
  then have "sh_inflight s = sh_inflight (the_shard (wo_cache w) k)"
    using sh_inflight_simps(1) [of "the_shard (wo_cache w) k" k now] by simp
  then have "k \<in> set (wo_running w) \<longleftrightarrow> k \<in> sh_inflight s"
    using cache_inv_parts(5) [OF inv] by simp
  then show ?thesis
    using get cache_inv_parts(2,3,4) [OF inv]
    by (auto simp: Do_begin_def split: option.split)
qed

text \<open>One call running for a key, and one value put, as a concrete run.\<close>

definition ex_world :: "nat world" where
  "ex_world = (let w = start_world 32 60; w = w\<lparr>wo_cache := Cache_Put (wo_cache w) ''a'' 7 100,
                    wo_log := insert (''a'', 7, 100) (wo_log w)\<rparr>
     in w\<lparr>wo_cache := snd (Do_begin (wo_cache w) ''b'' 110), wo_running := [''b'']\<rparr>)"

lemma New_cache_32: "New_cache 32 60 = \<lparr>ca_shards = replicate 16 (empty_shard 2), ca_ttl = 60,
    ca_hits = 0, ca_misses = 0, ca_evictions = 0\<rparr>"
  by (simp add: New_cache_def Shards_def Let_def)

lemma ex_shards: "shard_of ''a'' = 12" "shard_of ''b'' = 5"
  by (simp_all add: shard_of_def fnv32a_def)

lemma ex_world_reach: "reach cache_step (start_world 32 60) ex_world"
proof -
  let ?w0 = "start_world 32 60 :: nat world"
  let ?w1 = "?w0\<lparr>wo_cache := Cache_Put (wo_cache ?w0) ''a'' 7 100,
                    wo_log := insert (''a'', 7, 100) (wo_log ?w0)\<rparr>"
  have "reach cache_step ?w0 ?w1"
    by (intro reach.step [where step = cache_step, OF reach.start] cache_step.Put) simp
  moreover obtain b c where b: "Do_begin (wo_cache ?w1) ''b'' 110 = (b, c)"
    by fastforce
  moreover have "b = Run"
    using b by (simp add: Do_begin_def Cache_Put_def start_world_def New_cache_32 Off_def the_shard_def
        set_shard_def ex_shards shard_put_def shard_get_def empty_shard_def shard_init_def
        count_eviction_def expiry_def Forever_def Let_def)
  ultimately show ?thesis
    using reach.step [where step = cache_step, OF _ cache_step.Begin [OF b]] by (simp add: ex_world_def Let_def start_world_def)
qed

lemma ex_world_reads:
  "fst (Cache_Get (wo_cache ex_world) ''a'' 150) = Some 7"
  "fst (Do_begin (wo_cache ex_world) ''b'' 120) = Wait"
  "wo_running ex_world = [''b'']"
  by (simp_all add: ex_world_def Cache_Get_def Do_begin_def Cache_Put_def start_world_def New_cache_32
      Off_def the_shard_def set_shard_def ex_shards shard_put_def shard_get_def empty_shard_def
      shard_init_def count_eviction_def count_hit_def expiry_def Forever_def Let_def IsZero_def)

theorem cache_serves_fresh_witness:
  "\<exists>t. stored ex_world ''a'' 7 t \<and> (150 :: int) < t + 60"
  using cache_serves_fresh [OF _ ex_world_reach, of "''a''" 150 7] ex_world_reads(1)
  by (auto simp: Forever_def)

theorem cache_bounded_witness:
  "int (cs_Entries (Cache_Stats (wo_cache ex_world))) \<le> 32"
  using cache_bounded [OF _ ex_world_reach] by (simp add: Off_def per_shard_def Shards_def)

theorem single_flight_witness:
  "distinct (wo_running ex_world) \<and> fst (Do_begin (wo_cache ex_world) ''b'' 120) \<noteq> Run"
  using single_flight [OF _ ex_world_reach, of "''b''" 120] ex_world_reads(3) by (auto simp: Off_def)

end
