(* ===== verification/Directory_Cached.thy ===== *)
theory Directory_Cached
  imports Directory_Multi Cache_LRU_Facts
begin

text \<open>
  \<open>directory/cached.go\<close>: an expander that remembers what the directory said. \<open>Expand\<close> is the
  cache's \<open>Do\<close> around the wrapped expander, so it is two steps here too; the copy \<open>clone\<close> makes
  of an answer is the answer, since the model's values are never mutated. The system of
  concurrent requests is refined to the cache's own (\<open>Cache_LRU_Facts\<close>), which bounds how old an
  answer can be.
\<close>

section \<open>The cache in front of a directory (cached.go)\<close>

definition DefaultTTL :: duration where "DefaultTTL = 60 * 1000000000"
definition DefaultCapacity :: int where "DefaultCapacity = 10000"

record cache_config =
  cc_capacity :: int
  cc_ttl :: duration

definition WithTTL :: "duration \<Rightarrow> cache_config \<Rightarrow> cache_config" where
  "WithTTL d c = c\<lparr>cc_ttl := (if d < 1 then DefaultTTL else d)\<rparr>"

definition WithCapacity :: "int \<Rightarrow> cache_config \<Rightarrow> cache_config" where
  "WithCapacity n c = c\<lparr>cc_capacity := (if n < 1 then DefaultCapacity else n)\<rparr>"

record dcache =
  dc_res :: expander
  dc_entries :: "expansion cache"
  dc_ttl :: duration

definition NewCache ::
  "expander option \<Rightarrow> (cache_config \<Rightarrow> cache_config) list \<Rightarrow> dcache res" where
  "NewCache e opts =
     (case e of
        None \<Rightarrow> Inl (ErrConfig ''an expander is required'')
      | Some e \<Rightarrow>
          if ep_Name e = '''' then Inl (ErrConfig ''an expander must have a name'')
          else
            let cfg = foldl (\<lambda>c opt. opt c) \<lparr>cc_capacity = DefaultCapacity, cc_ttl = DefaultTTL\<rparr> opts
            in Inr \<lparr>dc_res = e, dc_entries = New_cache (cc_capacity cfg) (cc_ttl cfg),
                    dc_ttl = cc_ttl cfg\<rparr>)"

definition Cached_Name :: "dcache \<Rightarrow> string" where
  "Cached_Name c = ep_Name (dc_res c)"

definition Staleness :: "dcache \<Rightarrow> duration" where
  "Staleness c = dc_ttl c"

definition Cached_Stats :: "dcache \<Rightarrow> cache_stats" where
  "Cached_Stats c = Cache_Stats (dc_entries c)"

definition Cached_Counters :: "dcache \<Rightarrow> counters" where
  "Cached_Counters c =
     (case ep_Counters (dc_res c) of Some n \<Rightarrow> n | None \<Rightarrow> zero_counters)"

text \<open>A request that nobody else overlaps: it begins at \<open>now\<close> and its walk ends at \<open>later\<close>.\<close>

definition Cached_Expand ::
  "dcache \<Rightarrow> ctx \<Rightarrow> ctx \<Rightarrow> string \<Rightarrow> gtime \<Rightarrow> gtime \<Rightarrow> expansion res \<times> dcache" where
  "Cached_Expand c poll call i now later =
     (case poll of
        Some e \<Rightarrow> (Inl e, c)
      | None \<Rightarrow>
          let (r, entries) = Do (dc_entries c) i now (ep_Expand (dc_res c) call i) later
          in (r, c\<lparr>dc_entries := entries\<rparr>))"

definition Forget :: "dcache \<Rightarrow> string list \<Rightarrow> dcache" where
  "Forget c is = c\<lparr>dc_entries := Cache_Delete (dc_entries c) is\<rparr>"

definition Cached_Clear :: "dcache \<Rightarrow> dcache" where
  "Cached_Clear c = c\<lparr>dc_entries := Clear (dc_entries c)\<rparr>"

lemma NewCache_Inr:
  "NewCache e opts = Inr c \<Longrightarrow> \<exists>capacity. dc_entries c = New_cache capacity (dc_ttl c)"
  by (auto simp: NewCache_def Let_def split: option.splits if_splits)

section \<open>Concurrent requests over a changing directory\<close>

text \<open>
  \<open>said t i\<close> is what a walk for \<open>i\<close> that begins at \<open>t\<close> returns. The state is the cache, the
  walks that are running with the time each began, and which answers were stored: the subject,
  the answer, and when its walk began and ended.
\<close>

record requests =
  rq_cache :: dcache
  rq_walks :: "(string \<times> gtime) list"
  rq_log :: "(string \<times> expansion \<times> gtime \<times> gtime) set"

inductive request_step ::
  "(gtime \<Rightarrow> string \<Rightarrow> expansion res) \<Rightarrow> requests \<Rightarrow> requests \<Rightarrow> bool"
  for said :: "gtime \<Rightarrow> string \<Rightarrow> expansion res"
where
  Begin: "Do_begin (dc_entries (rq_cache q)) i now = (b, entries) \<Longrightarrow>
    request_step said q (q\<lparr>rq_cache := (rq_cache q)\<lparr>dc_entries := entries\<rparr>,
      rq_walks := (if b = Run then (i, now) # rq_walks q else rq_walks q)\<rparr>)"
| End: "(i, t) \<in> set (rq_walks q) \<Longrightarrow> t \<le> now \<Longrightarrow> 0 < now \<Longrightarrow>
    request_step said q (q\<lparr>rq_cache := (rq_cache q)
        \<lparr>dc_entries := Do_end (dc_entries (rq_cache q)) i (said t i) now\<rparr>,
      rq_walks := remove1 (i, t) (rq_walks q),
      rq_log := (case said t i of Inl e \<Rightarrow> rq_log q | Inr e \<Rightarrow> insert (i, e, t, now) (rq_log q))\<rparr>)"
| Forget: "request_step said q (q\<lparr>rq_cache := Forget (rq_cache q) is\<rparr>)"
| Clear: "request_step said q (q\<lparr>rq_cache := Cached_Clear (rq_cache q)\<rparr>)"

definition start_requests :: "dcache \<Rightarrow> requests" where
  "start_requests c = \<lparr>rq_cache = c, rq_walks = [], rq_log = {}\<rparr>"

text \<open>The refinement: forgetting the directory gives the cache's own system of callers.\<close>

definition world_of :: "requests \<Rightarrow> expansion world" where
  "world_of q = \<lparr>wo_cache = dc_entries (rq_cache q), wo_running = map fst (rq_walks q),
     wo_log = (\<lambda>(i, e, t, t'). (i, e, t')) ` rq_log q\<rparr>"

lemma remove1_fst:
  "distinct (map fst xs) \<Longrightarrow> (i, t) \<in> set xs \<Longrightarrow> map fst (remove1 (i, t) xs) = remove1 i (map fst xs)"
  by (induction xs) (auto simp: image_iff)

lemma request_step_world:
  assumes "distinct (map fst (rq_walks q))" and "request_step said q q'"
  shows "cache_step (world_of q) (world_of q')"
  using assms(2)
proof cases
  case (Begin i now b entries)
  have "cache_step (world_of q) ((world_of q)\<lparr>wo_cache := entries,
      wo_running := (if b = Run then i # wo_running (world_of q) else wo_running (world_of q))\<rparr>)"
    using Begin(2) by (intro cache_step.Begin) (simp add: world_of_def)
  then show ?thesis
    using Begin(1) by (auto simp: world_of_def split: if_splits)
next
  case (End i t now)
  have k: "i \<in> set (wo_running (world_of q))"
    using End(2) by (force simp: world_of_def)
  have run: "map fst (remove1 (i, t) (rq_walks q)) = remove1 i (map fst (rq_walks q))"
    by (rule remove1_fst [OF assms(1) End(2)])
  show ?thesis
  proof (cases "said t i")
    case (Inl e)
    with cache_step.Fail [OF k, of e now] show ?thesis
      using End(1) run by (simp add: world_of_def)
  next
    case (Inr e)
    with cache_step.Done [OF k End(4), of e] show ?thesis
      using End(1) run by (simp add: world_of_def)
  qed
next
  case (Forget "is")
  with cache_step.Delete [of "world_of q" "is"] show ?thesis
    by (simp add: world_of_def Directory_Cached.Forget_def)
next
  case Clear
  with cache_step.Clear [of "world_of q"] show ?thesis
    by (simp add: world_of_def Cached_Clear_def)
qed

definition requests_inv ::
  "(gtime \<Rightarrow> string \<Rightarrow> expansion res) \<Rightarrow> int \<Rightarrow> duration \<Rightarrow> requests \<Rightarrow> bool" where
  "requests_inv said per ttl q \<longleftrightarrow> cache_inv per ttl (world_of q) \<and>
     (\<forall>(i, e, t, t') \<in> rq_log q. said t i = Inr e \<and> t \<le> t')"

lemma requests_inv_step:
  assumes inv: "requests_inv said per ttl q" and step: "request_step said q q'"
  shows "requests_inv said per ttl q'"
proof -
  have "distinct (map fst (rq_walks q))"
    using inv by (simp add: requests_inv_def cache_inv_def world_of_def)
  from cache_inv_step [OF _ request_step_world [OF this step]]
  have "cache_inv per ttl (world_of q')"
    using inv by (simp add: requests_inv_def)
  moreover have "\<forall>(i, e, t, t') \<in> rq_log q'. said t i = Inr e \<and> t \<le> t'"
    using step inv by cases (auto simp: requests_inv_def split: sum.splits)
  ultimately show ?thesis
    by (simp add: requests_inv_def)
qed

interpretation requests: step_invariant "request_step said" "requests_inv said per ttl"
  for said per ttl
  by unfold_locales (rule requests_inv_step)

lemma requests_inv_start:
  assumes "NewCache e opts = Inr c" and "dc_ttl c \<noteq> Off"
  shows "\<exists>per. requests_inv said per (dc_ttl c) (start_requests c)"
proof -
  obtain capacity where "dc_entries c = New_cache capacity (dc_ttl c)"
    using NewCache_Inr [OF assms(1)] by blast
  then have "world_of (start_requests c) = start_world capacity (dc_ttl c)"
    by (simp add: world_of_def start_requests_def start_world_def)
  then show ?thesis
    using cache_inv_start [OF assms(2), of capacity, where 'v = expansion]
    by (auto simp: requests_inv_def start_requests_def)
qed

lemma foldl_options_ttl:
  assumes "0 < cc_ttl cfg" and "\<forall>opt \<in> set opts. (\<exists>d. opt = WithTTL d) \<or> (\<exists>n. opt = WithCapacity n)"
  shows "0 < cc_ttl (foldl (\<lambda>c opt. opt c) cfg opts)"
  using assms
proof (induction opts arbitrary: cfg)
  case (Cons opt opts)
  have "0 < cc_ttl (opt cfg)"
    using Cons.prems by (auto simp: WithTTL_def WithCapacity_def DefaultTTL_def)
  with Cons show ?case by simp
qed simp

text \<open>
  C6: how old a cached group set can be. For every interleaving of concurrent requests, while the
  directory changes underneath, an answer that is served from the cache is what the directory
  said to a walk that ended less than the configured lifetime ago. (The lifetime runs from the end
  of the walk: what the walk read first is older than that by the time the walk took.)
\<close>

theorem Cached_staleness:
  assumes "NewCache x opts = Inr c"
    and "\<forall>opt \<in> set opts. (\<exists>d. opt = WithTTL d) \<or> (\<exists>n. opt = WithCapacity n)"
    and "reach (request_step said) (start_requests c) q"
    and "fst (Do_begin (dc_entries (rq_cache q)) i now) = Hit e"
  shows "\<exists>t t'. (i, e, t, t') \<in> rq_log q \<and> said t i = Inr e \<and> t \<le> t' \<and> now < t' + Staleness c"
proof -
  have ttl: "0 < dc_ttl c"
    using assms(1,2) foldl_options_ttl
    by (auto simp: NewCache_def Let_def DefaultTTL_def split: option.splits if_splits)
  then have "dc_ttl c \<noteq> Off"
    by (simp add: Off_def)
  from requests_inv_start [OF assms(1) this] obtain per
    where "requests_inv said per (dc_ttl c) (start_requests c)" by blast
  with requests.reach_inv [OF assms(3)] have inv: "requests_inv said per (dc_ttl c) q"
    by blast
  then have "cache_inv per (dc_ttl c) (world_of q)"
    by (simp add: requests_inv_def)
  from cache_inv_parts(1) [OF this, of i]
  have fresh: "fresh (dc_ttl c) (wo_log (world_of q)) (the_shard (dc_entries (rq_cache q)) i)"
    by (simp add: shard_inv_def world_of_def)
  have "fst (shard_get (the_shard (dc_entries (rq_cache q)) i) i now) = Some e"
    using assms(4) by (auto simp: Do_begin_def split: if_splits prod.splits option.splits)
  then obtain en where "fmlookup (sh_items (the_shard (dc_entries (rq_cache q)) i)) i = Some en"
    and en: "en_val en = e" "IsZero (en_expires en) \<or> now < en_expires en"
    by (auto simp: shard_get_def split: option.splits if_splits)
  with fresh obtain t' where "(i, e, t') \<in> wo_log (world_of q)" "0 < t'"
    "en_expires en = (if dc_ttl c = Forever then 0 else t' + dc_ttl c)"
    unfolding fresh_def by blast
  moreover from this obtain t where "(i, e, t, t') \<in> rq_log q"
    by (auto simp: world_of_def)
  ultimately show ?thesis
    using inv ttl en by (fastforce simp: requests_inv_def Staleness_def IsZero_def Forever_def)
qed

section \<open>A walk that is running when its subject is forgotten\<close>

definition ex_answer :: "string list \<Rightarrow> expansion" where
  "ex_answer members = zero_expansion\<lparr>ex_Groups := \<lparr>gs_Version = 1, gs_Members = members\<rparr>\<rparr>"

text \<open>Mei is in a group until the clock shows 50.\<close>

definition ex_said :: "gtime \<Rightarrow> string \<Rightarrow> expansion res" where
  "ex_said t i = Inr (ex_answer (if t < 50 then [''acme:eng''] else []))"

definition ex_dcache :: dcache where
  "ex_dcache = \<lparr>dc_res = ex_part ''acme'', dc_entries = New_cache 32 60, dc_ttl = 60\<rparr>"

lemma ex_NewCache: "NewCache (Some (ex_part ''acme'')) [WithTTL 60, WithCapacity 32] = Inr ex_dcache"
  by (simp add: NewCache_def ex_part_def WithTTL_def WithCapacity_def ex_dcache_def)

definition ex_running :: requests where
  "ex_running = \<lparr>rq_cache = ex_dcache\<lparr>dc_entries := snd (Do_begin (New_cache 32 60) ''a'' 10)\<rparr>,
     rq_walks = [(''a'', 10)], rq_log = {}\<rparr>"

definition ex_forgotten :: requests where
  "ex_forgotten = ex_running\<lparr>rq_cache := Forget (rq_cache ex_running) [''a'']\<rparr>"

definition ex_stale :: requests where
  "ex_stale = ex_forgotten
     \<lparr>rq_cache := (rq_cache ex_forgotten)
        \<lparr>dc_entries := Do_end (dc_entries (rq_cache ex_forgotten)) ''a'' (ex_said 10 ''a'') 70\<rparr>,
      rq_walks := [], rq_log := {(''a'', ex_answer [''acme:eng''], 10, 70)}\<rparr>"

lemmas ex_cache_defs = Do_begin_def Do_end_def New_cache_32 Off_def the_shard_def set_shard_def
  ex_shards shard_put_def shard_get_def shard_remove_def empty_shard_def shard_init_def
  count_eviction_def count_hit_def expiry_def Forever_def Let_def IsZero_def Cache_Delete_def

lemma ex_running_reach: "reach (request_step ex_said) (start_requests ex_dcache) ex_running"
proof -
  obtain b entries where b: "Do_begin (dc_entries (rq_cache (start_requests ex_dcache))) ''a'' 10 = (b, entries)"
    by fastforce
  moreover from this have "b = Run"
    by (simp add: start_requests_def ex_dcache_def ex_cache_defs)
  ultimately have "request_step ex_said (start_requests ex_dcache) ex_running"
    using request_step.Begin [OF b, of ex_said]
    by (simp add: ex_running_def start_requests_def ex_dcache_def)
  then show ?thesis
    by (rule reach.step [OF reach.start])
qed

lemma ex_stale_reach: "reach (request_step ex_said) ex_forgotten ex_stale"
proof -
  have "request_step ex_said ex_forgotten (ex_forgotten\<lparr>rq_cache := (rq_cache ex_forgotten)
        \<lparr>dc_entries := Do_end (dc_entries (rq_cache ex_forgotten)) ''a'' (ex_said 10 ''a'') 70\<rparr>,
      rq_walks := remove1 (''a'', 10) (rq_walks ex_forgotten),
      rq_log := (case ex_said 10 ''a'' of Inl e \<Rightarrow> rq_log ex_forgotten
                 | Inr e \<Rightarrow> insert (''a'', e, 10, 70) (rq_log ex_forgotten))\<rparr>)"
    by (rule request_step.End) (simp_all add: ex_forgotten_def ex_running_def)
  then have "request_step ex_said ex_forgotten ex_stale"
    by (simp add: ex_stale_def ex_said_def ex_forgotten_def ex_running_def)
  then show ?thesis
    by (rule reach.step [OF reach.start])
qed

lemma ex_stale_hit:
  "fst (Do_begin (dc_entries (rq_cache ex_stale)) ''a'' 80) = Hit (ex_answer [''acme:eng''])"
  by (simp add: ex_stale_def ex_forgotten_def ex_running_def ex_dcache_def Forget_def ex_said_def
      ex_cache_defs)

text \<open>
  Forgetting a subject does not stop a walk for it that is already running: its answer, which
  is what the directory said before the subject was forgotten, is stored afterwards and served
  for a lifetime. Here the directory removes the subject from a group at 50, the subject is
  forgotten while the walk that began at 10 is running, and a request at 80 is still served the
  group from the cache.
\<close>

theorem Forget_running_walk:
  "\<exists>said c q q' e.
     reach (request_step said) (start_requests c) q \<and> (''a'', 10) \<in> set (rq_walks q) \<and>
     reach (request_step said) (q\<lparr>rq_cache := Forget (rq_cache q) [''a'']\<rparr>) q' \<and>
     fst (Do_begin (dc_entries (rq_cache q')) ''a'' 80) = Hit e \<and>
     ''acme:eng'' \<in> set (gs_Members (ex_Groups e)) \<and>
     (\<forall>t. 50 \<le> t \<longrightarrow> said t ''a'' = Inr (ex_answer []))"
proof (intro exI conjI)
  show "reach (request_step ex_said) (start_requests ex_dcache) ex_running"
    by (rule ex_running_reach)
  show "reach (request_step ex_said) (ex_running\<lparr>rq_cache := Forget (rq_cache ex_running) [''a'']\<rparr>) ex_stale"
    using ex_stale_reach by (simp only: ex_forgotten_def)
  show "fst (Do_begin (dc_entries (rq_cache ex_stale)) ''a'' 80) = Hit (ex_answer [''acme:eng''])"
    by (rule ex_stale_hit)
  show "(''a'', 10) \<in> set (rq_walks ex_running)"
    by (simp add: ex_running_def)
  show "''acme:eng'' \<in> set (gs_Members (ex_Groups (ex_answer [''acme:eng''])))"
    by (simp add: ex_answer_def)
  show "\<forall>t. 50 \<le> t \<longrightarrow> ex_said t ''a'' = Inr (ex_answer [])"
    by (simp add: ex_said_def)
qed

theorem Forget_running_walk_witness:
  "\<exists>q' e. fst (Do_begin (dc_entries (rq_cache (q' :: requests))) ''a'' 80) = Hit e \<and>
     ''acme:eng'' \<in> set (gs_Members (ex_Groups e))"
  using Forget_running_walk by metis

lemma reach_trans: "reach step t u \<Longrightarrow> reach step s t \<Longrightarrow> reach step s u"
  by (induction rule: reach.induct) (auto intro: reach.step)

theorem Cached_staleness_witness:
  "\<exists>t t'. ex_said t ''a'' = Inr (ex_answer [''acme:eng'']) \<and> t \<le> t' \<and> 80 < t' + 60"
proof -
  have "request_step ex_said ex_running ex_forgotten"
    unfolding ex_forgotten_def by (rule request_step.Forget)
  then have "reach (request_step ex_said) (start_requests ex_dcache) ex_stale"
    using ex_running_reach ex_stale_reach by (blast intro: reach.step reach_trans)
  from Cached_staleness [OF ex_NewCache _ this ex_stale_hit] show ?thesis
    by (auto simp: Staleness_def ex_dcache_def)
qed

end
