(* ===== verification/Directory_File.thy ===== *)
theory Directory_File
  imports Directory_Closure
begin

text \<open>
  \<open>directory/file.go\<close>: a directory written down in a file. What \<open>json.Decoder\<close> makes of the
  bytes are the arguments of \<open>ReadStatic\<close>: the first value or its error, and whether nothing
  follows it; \<open>ReadStatic\<close> is everything the program does with them. Strictness about membership makes an
  expansion over such a directory complete: no group of it is unknown.
\<close>

section \<open>The file (file.go)\<close>

record file_group =
  fg_ID :: string
  fg_Name :: string
  fg_Version :: string
  fg_MemberOf :: "string list"

record file_subject =
  fs_ID :: string
  fs_Name :: string
  fs_Email :: string
  fs_Version :: string
  fs_Identities :: "string list"
  fs_MemberOf :: "string list"
  fs_Disabled :: bool

record dir_file =
  df_Name :: string
  df_Groups :: "file_group list"
  df_Subjects :: "file_subject list"

definition identity_of :: "string \<Rightarrow> identity res" where
  "identity_of raw =
     (case Cut_byte raw (CHR '':'') of
        None \<Rightarrow> Inl (ErrConfig ''identity is not source:value'')
      | Some (source, val) \<Rightarrow>
          if source = '''' \<or> val = '''' then Inl (ErrConfig ''identity is not source:value'')
          else Inr \<lparr>id_Source = source, id_Value = val\<rparr>)"

fun identities_loop :: "string list \<Rightarrow> identity list \<Rightarrow> identity list res" where
  "identities_loop [] out = Inr out"
| "identities_loop (raw # raws) out =
     (case identity_of raw of
        Inl e \<Rightarrow> Inl e
      | Inr i \<Rightarrow> identities_loop raws (out @ [i]))"

fun groups_loop :: "file_group list \<Rightarrow> string list \<Rightarrow> static \<Rightarrow> (string list \<times> static) res" where
  "groups_loop [] defined d = Inr (defined, d)"
| "groups_loop (g # gs) defined d =
     (if fg_ID g = '''' then Inl (ErrConfig ''a group with no id'')
      else if fg_ID g \<in> set defined then Inl (ErrConfig ''group appears twice'')
      else groups_loop gs (fg_ID g # defined)
             (PutGroup d \<lparr>gr_ID = fg_ID g, gr_Name = fg_Name g, gr_Version = fg_Version g,
                          gr_MemberOf = fg_MemberOf g\<rparr>))"

fun undefined_member :: "string list \<Rightarrow> string list \<Rightarrow> bool" where
  "undefined_member defined [] = False"
| "undefined_member defined (g # gs) = (g \<notin> set defined \<or> undefined_member defined gs)"

fun subjects_loop :: "string list \<Rightarrow> file_subject list \<Rightarrow> string list \<Rightarrow> static \<Rightarrow> static res" where
  "subjects_loop defined [] seen d = Inr d"
| "subjects_loop defined (s # ss) seen d =
     (if fs_ID s = '''' then Inl (ErrConfig ''a subject with no id'')
      else if fs_ID s \<in> set seen then Inl (ErrConfig ''subject appears twice'')
      else
        case identities_loop (fs_Identities s) [] of
          Inl e \<Rightarrow> Inl e
        | Inr ids \<Rightarrow>
            if undefined_member defined (fs_MemberOf s)
            then Inl (ErrConfig ''subject is a member of a group which is not defined here'')
            else subjects_loop defined ss (fs_ID s # seen)
                   (Static_Put d \<lparr>su_ID = fs_ID s, su_Name = fs_Name s, su_Email = fs_Email s,
                      su_Version = fs_Version s, su_Identities = ids, su_MemberOf = fs_MemberOf s,
                      su_Disabled = fs_Disabled s\<rparr>))"

definition ReadStatic :: "dir_file res \<Rightarrow> bool \<Rightarrow> static res" where
  "ReadStatic decoded at_eof =
     (case decoded of
        Inl e \<Rightarrow> Inl e
      | Inr file \<Rightarrow>
          if \<not> at_eof then Inl (ErrConfig ''more than one directory in the file'')
          else if df_Name file = '''' then Inl (ErrConfig ''no name'')
          else
            case groups_loop (df_Groups file) [] (NewStatic (df_Name file)) of
              Inl e \<Rightarrow> Inl e
            | Inr (defined, d) \<Rightarrow>
                if list_ex (\<lambda>g. undefined_member defined (fg_MemberOf g)) (df_Groups file)
                then Inl (ErrConfig ''group is a member of a group which is not defined here'')
                else subjects_loop defined (df_Subjects file) [] d)"

section \<open>What is read\<close>

lemma undefined_member_iff: "undefined_member defined gs \<longleftrightarrow> \<not> set gs \<subseteq> set defined"
  by (induction gs) auto

lemma groups_loop_Inr:
  "groups_loop gs defined d = Inr (defined', d') \<Longrightarrow>
     set defined = fset (fmdom (sd_groups d)) \<Longrightarrow>
     sd_name d' = sd_name d \<and> sd_subjects d' = sd_subjects d \<and>
     set defined' = fset (fmdom (sd_groups d')) \<and>
     (\<forall>i g. fmlookup (sd_groups d') i = Some g \<longrightarrow>
        fmlookup (sd_groups d) i = Some g \<or>
        (\<exists>f \<in> set gs. fg_ID f = i \<and> gr_ID g = i \<and> gr_MemberOf g = fg_MemberOf f))"
proof (induction gs defined d rule: groups_loop.induct)
  case (2 g gs defined d)
  let ?d = "PutGroup d \<lparr>gr_ID = fg_ID g, gr_Name = fg_Name g, gr_Version = fg_Version g,
      gr_MemberOf = fg_MemberOf g\<rparr>"
  have new: "fg_ID g \<noteq> ''''" "fg_ID g \<notin> set defined"
    and loop: "groups_loop gs (fg_ID g # defined) ?d = Inr (defined', d')"
    using 2(2) by (auto split: if_splits)
  have "set (fg_ID g # defined) = fset (fmdom (sd_groups ?d))"
    using 2(3) new by (auto simp: PutGroup_def)
  note IH = 2(1) [OF new loop this]
  have "fmlookup (sd_groups d) i = Some x \<or>
      (\<exists>f \<in> set (g # gs). fg_ID f = i \<and> gr_ID x = i \<and> gr_MemberOf x = fg_MemberOf f)"
    if "fmlookup (sd_groups d') i = Some x" for i x
  proof -
    from IH that have "fmlookup (sd_groups ?d) i = Some x \<or>
        (\<exists>f \<in> set gs. fg_ID f = i \<and> gr_ID x = i \<and> gr_MemberOf x = fg_MemberOf f)"
      by blast
    then show ?thesis
      using new by (auto simp: PutGroup_def split: if_splits)
  qed
  moreover have "sd_name ?d = sd_name d" "sd_subjects ?d = sd_subjects d"
    using new by (simp_all add: PutGroup_def)
  ultimately show ?case
    using IH by simp
qed simp_all

lemma subjects_loop_Inr:
  "subjects_loop defined ss seen d = Inr d' \<Longrightarrow>
     sd_name d' = sd_name d \<and> sd_groups d' = sd_groups d \<and>
     (\<forall>i sub. fmlookup (sd_subjects d') i = Some sub \<longrightarrow>
        fmlookup (sd_subjects d) i = Some sub \<or> su_ID sub = i \<and> set (su_MemberOf sub) \<subseteq> set defined)"
proof (induction defined ss seen d rule: subjects_loop.induct)
  case (2 defined s ss seen d)
  then obtain ids where new: "fs_ID s \<noteq> []" "fs_ID s \<notin> set seen"
    and ids: "identities_loop (fs_Identities s) [] = Inr ids"
    and mem: "\<not> undefined_member defined (fs_MemberOf s)"
    by (auto split: if_splits sum.splits)
  let ?s = "\<lparr>su_ID = fs_ID s, su_Name = fs_Name s, su_Email = fs_Email s, su_Version = fs_Version s,
      su_Identities = ids, su_MemberOf = fs_MemberOf s, su_Disabled = fs_Disabled s\<rparr>"
  have "subjects_loop defined ss (fs_ID s # seen) (Static_Put d ?s) = Inr d'"
    using 2(2) new ids mem by simp
  note IH = 2(1) [OF new ids mem this]
  have "fmlookup (sd_subjects d) i = Some sub \<or> su_ID sub = i \<and> set (su_MemberOf sub) \<subseteq> set defined"
    if "fmlookup (sd_subjects d') i = Some sub" for i sub
  proof -
    from IH that have "fmlookup (sd_subjects (Static_Put d ?s)) i = Some sub \<or>
        su_ID sub = i \<and> set (su_MemberOf sub) \<subseteq> set defined"
      by blast
    then show ?thesis
      using new mem by (auto simp: Static_Put_def undefined_member_iff split: if_splits)
  qed
  moreover have "sd_name (Static_Put d ?s) = sd_name d" "sd_groups (Static_Put d ?s) = sd_groups d"
    using new by (simp_all add: Static_Put_def)
  ultimately show ?case
    using IH by simp
qed simp

text \<open>A directory is closed when every membership names a group it holds.\<close>

definition closed_static :: "static \<Rightarrow> bool" where
  "closed_static s \<longleftrightarrow>
     (\<forall>g i. fmlookup (sd_groups s) i = Some g \<longrightarrow> set (gr_MemberOf g) \<subseteq> fset (fmdom (sd_groups s))) \<and>
     (\<forall>sub i. fmlookup (sd_subjects s) i = Some sub \<longrightarrow>
        set (su_MemberOf sub) \<subseteq> fset (fmdom (sd_groups s)))"

lemma ReadStatic_closed: "ReadStatic decoded at_eof = Inr s \<Longrightarrow> closed_static s \<and> sd_name s \<noteq> []"
proof -
  assume "ReadStatic decoded at_eof = Inr s"
  then obtain f :: dir_file and defined d where name: "df_Name f \<noteq> []"
    and groups: "groups_loop (df_Groups f) [] (NewStatic (df_Name f)) = Inr (defined, d)"
    and ok: "\<not> list_ex (\<lambda>g. undefined_member defined (fg_MemberOf g)) (df_Groups f)"
    and subs: "subjects_loop defined (df_Subjects f) [] d = Inr s"
    by (auto simp: ReadStatic_def split: sum.splits if_splits prod.splits)
  have g: "sd_name d = df_Name f" "sd_subjects d = fmempty" "set defined = fset (fmdom (sd_groups d))"
    "\<And>i x. fmlookup (sd_groups d) i = Some x \<Longrightarrow> \<exists>y \<in> set (df_Groups f). gr_MemberOf x = fg_MemberOf y"
    using groups_loop_Inr [OF groups] by (auto simp: NewStatic_def, metis)
  have s: "sd_name s = df_Name f" "sd_groups s = sd_groups d"
    "\<And>i sub. fmlookup (sd_subjects s) i = Some sub \<Longrightarrow> set (su_MemberOf sub) \<subseteq> set defined"
    using subjects_loop_Inr [OF subs] g(1-3) by auto
  have "set (gr_MemberOf x) \<subseteq> set defined" if x: "fmlookup (sd_groups d) i = Some x" for i x
  proof -
    obtain y where "y \<in> set (df_Groups f)" "gr_MemberOf x = fg_MemberOf y"
      using g(4) [OF x] by blast
    then show ?thesis
      using ok by (simp add: list_ex_iff undefined_member_iff)
  qed
  then show ?thesis
    using s g name by (simp add: closed_static_def)
qed

lemma closed_reaches:
  assumes "closed_static s" and "reaches (static_directory s) roots g"
    and "set roots \<subseteq> fset (fmdom (sd_groups s))"
  shows "g \<in> fset (fmdom (sd_groups s))"
proof (rule reaches_least [OF assms(2)])
  show "set roots - {''''} \<subseteq> fset (fmdom (sd_groups s))"
    using assms(3) by auto
  show "ups (static_directory s) h \<subseteq> fset (fmdom (sd_groups s))" if "h \<in> fset (fmdom (sd_groups s))" for h
    using assms(1) that
    by (auto simp: ups_def static_directory_def Static_Group_def closed_static_def split: option.splits)
qed

text \<open>
  A directory read from a file is complete: the strict checks of \<open>ReadStatic\<close> leave no
  membership dangling, so an expansion over it finds every group it reaches and reports none as
  unknown.
\<close>

theorem ReadStatic_complete:
  assumes "ReadStatic decoded at_eof = Inr s" and "rs_dir r = static_directory s" and "covers w"
    and "Expand r w i = (Inr e, r')"
  shows "ex_Unknown e = [] \<and>
    {g. reaches (rs_dir r) (su_MemberOf (ex_Subject e)) g} \<subseteq> fset (fmdom (sd_groups s))"
proof -
  have "only_cancels (rs_dir r)"
    by (simp add: assms(2) only_cancels_static)
  note closure = Expand_closure [OF this assms(3,4) refl]
  have closed: "closed_static s"
    using ReadStatic_closed [OF assms(1)] by simp
  have "\<exists>sub. fmlookup (sd_subjects s) i = Some sub \<and> su_MemberOf (ex_Subject e) = su_MemberOf sub"
    using assms(4)
    by (rule Expand_InrE)
      (auto simp: assms(2) static_directory_def Static_Subject_def split: option.splits)
  then have "set (su_MemberOf (ex_Subject e)) \<subseteq> fset (fmdom (sd_groups s))"
    using closed unfolding closed_static_def by metis
  from closed_reaches [OF closed _ this]
  have held: "{g. reaches (rs_dir r) (su_MemberOf (ex_Subject e)) g} \<subseteq> fset (fmdom (sd_groups s))"
    by (auto simp: assms(2))
  have "\<not> unheld (rs_dir r) g" if "g \<in> fset (fmdom (sd_groups s))" for g
    using that by (auto simp: assms(2) unheld_def static_directory_def Static_Group_def
        fmlookup_dom_iff split: option.splits)
  then have "{g \<in> {g. reaches (rs_dir r) (su_MemberOf (ex_Subject e)) g}. unheld (rs_dir r) g} = {}"
    using held by blast
  moreover have "ex_Unknown e = sorted_list_of_set
      {g \<in> {g. reaches (rs_dir r) (su_MemberOf (ex_Subject e)) g}. unheld (rs_dir r) g}"
    using closure by simp
  ultimately have "ex_Unknown e = []"
    by (simp only: sorted_list_of_set.sorted_key_list_of_set_empty)
  then show ?thesis
    using held by (rule conjI)
qed

definition ex_file :: dir_file where
  "ex_file = \<lparr>df_Name = ''acme'',
     df_Groups = [\<lparr>fg_ID = ''eng'', fg_Name = '''', fg_Version = '''', fg_MemberOf = [''all'']\<rparr>,
                  \<lparr>fg_ID = ''all'', fg_Name = '''', fg_Version = '''', fg_MemberOf = []\<rparr>],
     df_Subjects = [\<lparr>fs_ID = ''mei'', fs_Name = '''', fs_Email = '''', fs_Version = '''',
                     fs_Identities = [''slack:U04AB''], fs_MemberOf = [''eng''], fs_Disabled = False\<rparr>]\<rparr>"

theorem ReadStatic_complete_witness:
  "\<exists>s e r'. ReadStatic (Inr ex_file) True = Inr s \<and>
     Expand (ex_resolver\<lparr>rs_dir := static_directory s\<rparr>) in_order ''mei'' = (Inr e, r') \<and>
     gs_Members (ex_Groups e) = [''acme:all'', ''acme:eng''] \<and> ex_Unknown e = []"
proof -
  obtain s where s: "ReadStatic (Inr ex_file) True = Inr s"
    and answers: "Static_Subject s None ''mei'' = Inr \<lparr>su_ID = ''mei'', su_Name = '''', su_Email = '''',
        su_Version = '''', su_Identities = [\<lparr>id_Source = ''slack'', id_Value = ''U04AB''\<rparr>],
        su_MemberOf = [''eng''], su_Disabled = False\<rparr>"
      "Static_Group s None ''eng'' = Inr \<lparr>gr_ID = ''eng'', gr_Name = '''', gr_Version = '''', gr_MemberOf = [''all'']\<rparr>"
      "Static_Group s None ''all'' = Inr \<lparr>gr_ID = ''all'', gr_Name = '''', gr_Version = '''', gr_MemberOf = []\<rparr>"
      "sd_name s = ''acme''"
    by (simp add: ReadStatic_def ex_file_def NewStatic_def PutGroup_def Static_Put_def identity_of_def
        Cut_byte_def Static_Subject_def Static_Group_def)
  obtain e r' where e: "Expand (ex_resolver\<lparr>rs_dir := static_directory s\<rparr>) in_order ''mei'' = (Inr e, r')"
      "gs_Members (ex_Groups e) = [''acme:all'', ''acme:eng'']"
    by (simp add: Expand_def Let_def answers in_order_def dedupe_def static_directory_def)
      (simp add: expand_loop.simps answers Let_def level_def lookup_turn_def initial_seen_def
        seen_count_upd map_keys_def GroupKey_def)
  have "ex_Unknown e = []"
    using ReadStatic_complete [OF s _ covers_in_order e(1)] by simp
  with s e show ?thesis by blast
qed

end
