(* ===== verification/Go_Text.thy ===== *)
theory Go_Text
  imports Go_Strings "HOL-Library.Sublist"
begin

text \<open>
  More of Go's \<open>strings\<close> and \<open>unicode/utf8\<close> packages: decoding backwards, slicing, fields,
  trimming a set of bytes, prefixes, splitting and searching for a byte. No file of the
  repository is modelled here. The cut sets and separators the program uses are all ASCII, for
  which the library works byte by byte, and so do the definitions.
\<close>

section \<open>Slices and decoding backwards\<close>

text \<open>\<open>s[a:b]\<close>; every use is inside \<open>0 \<le> a \<le> b \<le> len(s)\<close>, where Go does not panic.\<close>

definition slice :: "string \<Rightarrow> nat \<Rightarrow> nat \<Rightarrow> string" where
  "slice s a b = take (b - a) (drop a s)"

lemma slice_empty [simp]: "slice s a a = []"
  by (simp add: slice_def)

lemma slice_append: "a \<le> b \<Longrightarrow> b \<le> c \<Longrightarrow> slice s a b @ slice s b c = slice s a c"
proof -
  assume le: "a \<le> b" "b \<le> c"
  have "drop b s = drop (b - a) (drop a s)"
    using le by simp
  moreover have "c - a = (b - a) + (c - b)"
    using le by simp
  ultimately show ?thesis
    unfolding slice_def by (simp only: take_add)
qed

lemma slice_append3:
  "a \<le> b \<Longrightarrow> b < c \<Longrightarrow> c \<le> n \<Longrightarrow> slice s a b @ slice s b c @ slice s c n = slice s a n"
  by (simp add: slice_append)

lemma slice_all: "length s \<le> b \<Longrightarrow> slice s a b = drop a s"
  by (simp add: slice_def)

lemma slice_length [simp]: "a \<le> b \<Longrightarrow> b \<le> length s \<Longrightarrow> length (slice s a b) = b - a"
  by (simp add: slice_def)

lemma slice_sublist [simp]: "sublist (slice s a b) s"
  unfolding slice_def by (rule sublist_order.order.trans [OF sublist_take sublist_drop])

lemma slice_eq_Nil: "b \<le> length s \<Longrightarrow> slice s a b = [] \<longleftrightarrow> b \<le> a"
  by (auto simp: slice_def)

definition RuneStart :: "char \<Rightarrow> bool" where
  "RuneStart c \<longleftrightarrow> byte_of c div 64 \<noteq> 2"

text \<open>
  The search of \<open>DecodeLastRuneInString\<close> for the byte a rune may start with, going back from
  \<open>start\<close> and not past \<open>lim\<close>.
\<close>

function last_start :: "string \<Rightarrow> int \<Rightarrow> int \<Rightarrow> int" where
  "last_start s start lim =
     (if start < lim \<or> start < 0 then start
      else if RuneStart (s ! nat start) then start
      else last_start s (start - 1) lim)"
  by pat_completeness auto
termination
  by (relation "measure (\<lambda>(s, start, lim). nat (start + 1))") auto

declare last_start.simps [simp del]

definition DecodeLastRune :: "string \<Rightarrow> rune \<times> nat" where
  "DecodeLastRune s =
     (let stop = length s in
      if stop = 0 then (RuneError, 0)
      else if byte_of (s ! (stop - 1)) < RuneSelf then (byte_of (s ! (stop - 1)), 1)
      else
        let start = nat (max 0 (last_start s (int stop - 2) (max 0 (int stop - 4))));
            (r, size) = DecodeRune (drop start s)
        in if start + size \<noteq> stop then (RuneError, 1) else (r, size))"

lemma last_start_less: "last_start s start lim \<le> start"
  by (induction s start lim rule: last_start.induct) (subst last_start.simps, auto)

lemma DecodeRune_width_4: "snd (DecodeRune s) \<le> 4"
  by (cases s rule: DecodeRune.cases) (auto split: option.split list.split)

lemma DecodeLastRune_width:
  assumes "s \<noteq> []"
  shows "0 < snd (DecodeLastRune s)" "snd (DecodeLastRune s) \<le> length s" "snd (DecodeLastRune s) \<le> 4"
proof -
  define start where
    "start = nat (max 0 (last_start s (int (length s) - 2) (max 0 (int (length s) - 4))))"
  obtain r size where d: "DecodeRune (drop start s) = (r, size)" by fastforce
  have "start < length s"
    using last_start_less [of s "int (length s) - 2" "max 0 (int (length s) - 4)"] assms
    by (cases s) (auto simp: start_def)
  then have size: "0 < size" "size \<le> length s - start" "size \<le> 4"
    using DecodeRune_width_pos [of "drop start s"] DecodeRune_width_le [of "drop start s"]
      DecodeRune_width_4 [of "drop start s"] d by simp_all
  have "DecodeLastRune s =
      (if byte_of (s ! (length s - 1)) < RuneSelf then (byte_of (s ! (length s - 1)), 1)
       else if start + size \<noteq> length s then (RuneError, 1) else (r, size))"
    using assms by (simp only: DecodeLastRune_def Let_def start_def [symmetric] d split_conv
        length_0_conv if_False)
  with size assms show "0 < snd (DecodeLastRune s)" "snd (DecodeLastRune s) \<le> length s"
      "snd (DecodeLastRune s) \<le> 4"
    by (auto simp: Suc_le_eq split: if_splits)
qed

section \<open>Fields\<close>

text \<open>A string as its runes, each with the bytes it was read from.\<close>

definition pieces :: "string \<Rightarrow> (rune \<times> string) list" where
  "pieces s = map (\<lambda>(i, r, w). (r, take w (drop i s))) (runes_from 0 s)"

lemma pieces_Nil [simp]: "pieces [] = []"
  by (simp add: pieces_def)

lemma runes_from_0_shift: "runes_from w s = map (\<lambda>(j, r, w'). (j + w, r, w')) (runes_from 0 s)"
  using runes_from_shift [of 0 w s] by simp

lemma pieces_DecodeRune:
  "DecodeRune (c # cs) = (r, w) \<Longrightarrow>
   pieces (c # cs) = (r, take w (c # cs)) # pieces (drop w (c # cs))"
  by (subst pieces_def, subst runes_from_Cons, assumption)
    (subst runes_from_0_shift, simp add: pieces_def comp_def case_prod_unfold add.commute)

lemma pieces_concat: "concat (map snd (pieces s)) = s"
proof (induction "length s" arbitrary: s rule: less_induct)
  case less
  show ?case
  proof (cases s)
    case (Cons c cs)
    obtain r w where d: "DecodeRune (c # cs) = (r, w)" by fastforce
    have "0 < w" using DecodeRune_width_pos [of "c # cs"] d by simp
    then have "length (drop w (c # cs)) < length s" by (simp add: Cons)
    from less [OF this] show ?thesis
      by (simp add: Cons pieces_DecodeRune [OF d])
  qed simp
qed

fun fields_loop :: "unicode \<Rightarrow> string \<Rightarrow> (rune \<times> string) list \<Rightarrow> string list" where
  "fields_loop U cur [] = (if cur = [] then [] else [cur])"
| "fields_loop U cur ((r, b) # ps) =
     (if IsSpace U r then (if cur = [] then [] else [cur]) @ fields_loop U [] ps
      else fields_loop U (cur @ b) ps)"

definition Fields :: "unicode \<Rightarrow> string \<Rightarrow> string list" where
  "Fields U s = fields_loop U [] (pieces s)"

section \<open>Trimming, prefixes, splitting, searching\<close>

definition TrimLeft :: "string \<Rightarrow> string \<Rightarrow> string" where
  "TrimLeft s cutset = dropWhile (\<lambda>c. c \<in> set cutset) s"

definition TrimRight :: "string \<Rightarrow> string \<Rightarrow> string" where
  "TrimRight s cutset = rev (dropWhile (\<lambda>c. c \<in> set cutset) (rev s))"

definition Trim :: "string \<Rightarrow> string \<Rightarrow> string" where
  "Trim s cutset = TrimRight (TrimLeft s cutset) cutset"

definition HasPrefix :: "string \<Rightarrow> string \<Rightarrow> bool" where
  "HasPrefix s p \<longleftrightarrow> take (length p) s = p"

definition CutPrefix :: "string \<Rightarrow> string \<Rightarrow> string option" where
  "CutPrefix s p = (if HasPrefix s p then Some (drop (length p) s) else None)"

fun Split_byte :: "string \<Rightarrow> char \<Rightarrow> string \<Rightarrow> string list" where
  "Split_byte cur sep [] = [cur]"
| "Split_byte cur sep (c # cs) =
     (if c = sep then cur # Split_byte [] sep cs else Split_byte (cur @ [c]) sep cs)"

definition Split :: "string \<Rightarrow> char \<Rightarrow> string list" where
  "Split s sep = Split_byte [] sep s"

fun IndexByte :: "string \<Rightarrow> char \<Rightarrow> nat option" where
  "IndexByte [] c = None"
| "IndexByte (x # xs) c = (if x = c then Some 0 else map_option Suc (IndexByte xs c))"

definition LastIndexByte :: "string \<Rightarrow> char \<Rightarrow> nat option" where
  "LastIndexByte s c = map_option (\<lambda>i. length s - 1 - i) (IndexByte (rev s) c)"

definition ContainsAny :: "string \<Rightarrow> string \<Rightarrow> bool" where
  "ContainsAny s chars \<longleftrightarrow> list_ex (\<lambda>c. c \<in> set chars) s"

definition Count_byte :: "string \<Rightarrow> char \<Rightarrow> nat" where
  "Count_byte s c = length (filter (\<lambda>x. x = c) s)"

lemma IndexByte_Some: "IndexByte s c = Some i \<Longrightarrow> i < length s \<and> s ! i = c \<and> c \<notin> set (take i s)"
  by (induction s arbitrary: i) (auto split: if_splits simp: less_Suc_eq_0_disj)

lemma IndexByte_None: "IndexByte s c = None \<longleftrightarrow> c \<notin> set s"
  by (induction s) auto

lemma LastIndexByte_None: "LastIndexByte s c = None \<longleftrightarrow> c \<notin> set s"
  by (simp add: LastIndexByte_def IndexByte_None)

lemma LastIndexByte_less: "LastIndexByte s c = Some i \<Longrightarrow> i < length s"
  by (cases s) (auto simp: LastIndexByte_def dest!: IndexByte_Some)

lemma TrimRight_take: "\<exists>n. TrimRight s cutset = take n s"
proof -
  have "\<exists>n. dropWhile (\<lambda>c. c \<in> set cutset) (rev s) = drop n (rev s)"
    by (metis dropWhile_eq_drop)
  then obtain n where "dropWhile (\<lambda>c. c \<in> set cutset) (rev s) = drop n (rev s)" ..
  then have "TrimRight s cutset = take (length s - n) s"
    by (simp add: TrimRight_def drop_rev)
  then show ?thesis ..
qed

lemma TrimRight_le: "length (TrimRight s cutset) \<le> length s"
  using TrimRight_take [of s cutset] by auto

lemma sublist_TrimLeft [simp]: "sublist (TrimLeft s cutset) s"
  unfolding TrimLeft_def by (metis dropWhile_eq_drop sublist_drop)

lemma sublist_TrimRight [simp]: "sublist (TrimRight s cutset) s"
  using TrimRight_take [of s cutset] by auto

lemma sublist_Trim [simp]: "sublist (Trim s cutset) s"
  unfolding Trim_def by (rule sublist_order.order.trans [OF sublist_TrimRight sublist_TrimLeft])

lemma sublist_TrimSpace [simp]: "sublist (TrimSpace U s) s"
  by (auto simp: TrimSpace_def Let_def split: list.split prod.split
      intro: sublist_order.order.trans [OF sublist_take sublist_drop])

lemma Split_byte_Join: "Join (Split_byte cur sep s) [sep] = cur @ s"
proof (induction s arbitrary: cur)
  case (Cons c s)
  have "Split_byte x sep s \<noteq> []" for x
    by (induction s arbitrary: x) auto
  moreover have "Join (x # xs) y = x @ y @ Join xs y" if "xs \<noteq> []" for x xs and y :: string
    using that by (cases xs) auto
  ultimately show ?case
    using Cons by simp
qed simp

lemma Split_Join: "Join (Split s sep) [sep] = s"
  by (simp add: Split_def Split_byte_Join)

end
