(* ===== verification/Index_Text.thy ===== *)
theory Index_Text
  imports Doc_Model Go_Text
begin

text \<open>
  The text a results page shows, from package \<open>index\<close>: snippets and their marked passages
  (\<open>index.go\<close>), the removal of markdown (\<open>plain.go\<close>), the quotes of an answer
  (\<open>answer.go\<close>) and the rewriting of a corrected query (\<open>spell.go\<close>). Offsets into a string
  are natural numbers; the only negative offset of the code, the -1 of \<open>firstMatch\<close>, stays an
  integer. A Go map that only serves as the set of the query terms is the list of the terms.
\<close>

section \<open>Windows and marks (index.go)\<close>

definition SnippetWidth :: nat where
  "SnippetWidth = 260"

record passage =
  pa_Text :: string
  pa_Match :: bool

fun backward :: "string \<Rightarrow> nat \<Rightarrow> nat \<Rightarrow> nat" where
  "backward s at 0 = at"
| "backward s at (Suc n) =
     (if 0 < at then backward s (at - snd (DecodeLastRune (take at s))) n else at)"

fun forward :: "string \<Rightarrow> nat \<Rightarrow> nat \<Rightarrow> nat" where
  "forward s at 0 = at"
| "forward s at (Suc n) =
     (if at < length s then forward s (at + snd (DecodeRune (drop at s))) n else at)"

definition collapse :: "unicode \<Rightarrow> string \<Rightarrow> string" where
  "collapse U s = Join (Fields U s) '' ''"

fun mark_loop :: "string \<Rightarrow> string list \<Rightarrow> span list \<Rightarrow> nat \<Rightarrow> passage list" where
  "mark_loop body terms [] from =
     (if from < length body
      then [\<lparr>pa_Text = slice body from (length body), pa_Match = False\<rparr>] else [])"
| "mark_loop body terms (s # sps) from =
     (if sp_Term s \<notin> set terms then mark_loop body terms sps from
      else (if int from < sp_Start s
            then [\<lparr>pa_Text = slice body from (nat (sp_Start s)), pa_Match = False\<rparr>] else []) @
           \<lparr>pa_Text = slice body (nat (sp_Start s)) (nat (sp_End s)), pa_Match = True\<rparr> #
           mark_loop body terms sps (nat (sp_End s)))"

definition mark :: "unicode \<Rightarrow> string \<Rightarrow> string list \<Rightarrow> passage list" where
  "mark U body terms =
     (if body = '''' \<or> terms = [] then [\<lparr>pa_Text = body, pa_Match = False\<rparr>]
      else mark_loop body terms (AnalyzeText U body) 0)"

definition firstMatch :: "unicode \<Rightarrow> string \<Rightarrow> string list \<Rightarrow> int" where
  "firstMatch U body terms = Find U body (fmap_of_list (map (\<lambda>t. (t, True)) terms))"

section \<open>Markdown (plain.go)\<close>

definition fenceOf :: "string \<Rightarrow> string" where
  "fenceOf line =
     (let ticks = replicate 3 (CHR 0x60); tildes = ''~~~'' in
      if HasPrefix line ticks then ticks
      else if HasPrefix line tildes then tildes
      else '''')"

definition isRule :: "string \<Rightarrow> bool" where
  "isRule line =
     (if length line < 3 then False
      else
        let c = line ! 0 in
        if c \<noteq> CHR ''-'' \<and> c \<noteq> CHR ''*'' \<and> c \<noteq> CHR ''_'' then False
        else Trim line [c] = '''')"

definition isTableDivider :: "string \<Rightarrow> bool" where
  "isTableDivider line =
     (if \<not> HasPrefix line ''|'' then False
      else Trim line (''|-: '' @ [CHR 0x09]) = '''' \<and> CHR ''-'' \<in> set line)"

fun digits_end :: "string \<Rightarrow> nat" where
  "digits_end [] = 0"
| "digits_end (c # cs) = (if is_digit_char c then Suc (digits_end cs) else 0)"

definition trimOrderedMarker :: "string \<Rightarrow> string" where
  "trimOrderedMarker line =
     (let i = digits_end line in
      if i = 0 \<or> length line \<le> i + 1 then line
      else if (line ! i = CHR ''.'' \<or> line ! i = CHR '')'') \<and> line ! (i + 1) = CHR '' ''
      then drop (i + 1) line
      else line)"

definition trim_marker :: "string \<Rightarrow> string" where
  "trim_marker line =
     TrimLeft
       (if HasPrefix line ''#'' then TrimLeft line ''#''
        else if HasPrefix line ''>'' then TrimLeft line ''>''
        else if 1 < length line \<and> (line ! 0 = CHR ''-'' \<or> line ! 0 = CHR ''*'' \<or> line ! 0 = CHR ''+'')
            \<and> line ! 1 = CHR '' ''
        then drop 1 line
        else trimOrderedMarker line)
       ('' '' @ [CHR 0x09])"

lemma suffix_TrimLeft [simp]: "suffix (TrimLeft s cutset) s"
  by (simp add: TrimLeft_def suffix_dropWhile)

lemma suffix_trim_marker: "suffix (trim_marker line) line"
proof -
  have "suffix (TrimLeft x cutset) line" if "suffix x line" for x cutset
    using suffix_TrimLeft that suffix_order.trans by blast
  moreover have "suffix (trimOrderedMarker line) line"
    by (simp add: trimOrderedMarker_def Let_def suffix_drop)
  ultimately show ?thesis
    by (simp add: trim_marker_def suffix_drop)
qed

text \<open>
  The loop of \<open>trimMarkers\<close> ends when a round changes nothing; a round that changes the line
  makes it shorter, so it does end.
\<close>

function trim_markers_loop :: "string \<Rightarrow> string" where
  "trim_markers_loop line =
     (let line' = trim_marker line in if line' = line then line else trim_markers_loop line')"
  by pat_completeness auto
termination
proof (relation "measure length", simp)
  fix line line'
  assume "line' = trim_marker line" "line' \<noteq> line"
  then have "suffix line' line" "line' \<noteq> line"
    by (simp_all add: suffix_trim_marker)
  then show "(line', line) \<in> measure length"
    by (auto simp: suffix_def)
qed

declare trim_markers_loop.simps [simp del]

definition trimMarkers :: "string \<Rightarrow> string" where
  "trimMarkers line =
     (let line = trim_markers_loop line in
      case CutPrefix line ''[ ] '' of
        Some rest \<Rightarrow> rest
      | None \<Rightarrow>
          (case CutPrefix line ''[x] '' of
             Some rest \<Rightarrow> rest
           | None \<Rightarrow> (case CutPrefix line ''[X] '' of Some rest \<Rightarrow> rest | None \<Rightarrow> line)))"

definition tableRow :: "unicode \<Rightarrow> string \<Rightarrow> string" where
  "tableRow U line = Join (map (TrimSpace U) (Split (Trim line ''|'') (CHR ''|''))) '' ''"

definition linkAt :: "string \<Rightarrow> nat \<Rightarrow> (string \<times> nat) option" where
  "linkAt line i =
     (case IndexByte (drop i line) (CHR '']'') of
        None \<Rightarrow> None
      | Some bracket \<Rightarrow>
          if length line \<le> i + bracket + 1 \<or> line ! (i + bracket + 1) \<noteq> CHR ''('' then None
          else
            (case IndexByte (drop (i + bracket + 1) line) (CHR '')'') of
               None \<Rightarrow> None
             | Some paren \<Rightarrow> Some (slice line (i + 1) (i + bracket), i + bracket + paren + 2)))"

definition run_end :: "string \<Rightarrow> nat \<Rightarrow> char \<Rightarrow> nat" where
  "run_end line i c = i + length (takeWhile (\<lambda>x. x = c) (drop i line))"

definition is_blank :: "char \<Rightarrow> bool" where
  "is_blank c \<longleftrightarrow> c = CHR '' '' \<or> c = CHR 0x09"

definition boundary :: "string \<Rightarrow> nat \<Rightarrow> bool" where
  "boundary line i =
     (let c = line ! i;
          left = (if 0 < i then line ! (i - 1) else CHR '' '');
          j = run_end line i c;
          right = (if j < length line then line ! j else CHR '' '')
      in is_blank left \<or> is_blank right \<or> j = length line)"

definition isAutolink :: "string \<Rightarrow> bool" where
  "isAutolink s \<longleftrightarrow> HasPrefix s ''http://'' \<or> HasPrefix s ''https://'' \<or> HasPrefix s ''mailto:''"

definition isPunct :: "char \<Rightarrow> bool" where
  "isPunct c \<longleftrightarrow> c \<in> set ([CHR 0x5C, CHR 0x60] @ ''*_{}[]()#+-.!|>~'')"

lemma run_end_greater: "i < length line \<Longrightarrow> i < run_end line i (line ! i)"
  by (simp add: run_end_def Cons_nth_drop_Suc [symmetric])

lemma linkAt_greater: "linkAt line i = Some (txt, n) \<Longrightarrow> i < n"
  by (auto simp: linkAt_def split: option.splits if_splits)

text \<open>The inline loop, at offset \<open>i\<close>; what it writes to the builder is what it returns.\<close>

function inline_loop :: "string \<Rightarrow> nat \<Rightarrow> string" where
  "inline_loop line i =
     (if length line \<le> i then []
      else
        let c = line ! i in
        if c = CHR 0x60 then inline_loop line (i + 1)
        else if c = CHR 0x5C \<and> i + 1 < length line \<and> isPunct (line ! (i + 1)) then
          line ! (i + 1) # inline_loop line (i + 2)
        else if (c = CHR ''*'' \<or> c = CHR ''_'') \<and> boundary line i then
          inline_loop line (run_end line i c)
        else if c = CHR ''!'' \<and> i + 1 < length line \<and> line ! (i + 1) = CHR ''['' then
          (case linkAt line (i + 1) of
             None \<Rightarrow> c # inline_loop line (i + 1)
           | Some (txt, next') \<Rightarrow> txt @ inline_loop line next')
        else if c = CHR ''['' then
          (case linkAt line i of
             None \<Rightarrow> c # inline_loop line (i + 1)
           | Some (txt, next') \<Rightarrow> txt @ inline_loop line next')
        else if c = CHR ''<'' then
          (case IndexByte (drop i line) (CHR ''>'') of
             None \<Rightarrow> c # inline_loop line (i + 1)
           | Some e \<Rightarrow>
               if 0 < e \<and> isAutolink (slice line (i + 1) (i + e))
               then slice line (i + 1) (i + e) @ inline_loop line (i + e + 1)
               else c # inline_loop line (i + 1))
        else c # inline_loop line (i + 1))"
  by pat_completeness auto
termination
proof (relation "measure (\<lambda>(line, i). length line - i)", goal_cases)
  case (6 line i x y u v)
  then show ?case using linkAt_greater [of line "i + 1" u v] by (simp add: diff_less_mono2)
next
  case (8 line i x y u v)
  then show ?case using linkAt_greater [of line i u v] by (simp add: diff_less_mono2)
qed (simp_all add: diff_less_mono2 run_end_greater)

declare inline_loop.simps [simp del]

definition inlineText :: "string \<Rightarrow> string" where
  "inlineText line = inline_loop line 0"

fun plain_loop :: "unicode \<Rightarrow> string \<Rightarrow> string list \<Rightarrow> string" where
  "plain_loop U fence [] = []"
| "plain_loop U fence (line # lines) =
     (let trimmed = TrimSpace U line in
      if fence \<noteq> '''' then
        if HasPrefix trimmed fence then plain_loop U '''' lines
        else line @ [CHR 0x0A] @ plain_loop U fence lines
      else if fenceOf trimmed \<noteq> '''' then plain_loop U (fenceOf trimmed) lines
      else if isRule trimmed \<or> isTableDivider trimmed then plain_loop U fence lines
      else
        let trimmed = trimMarkers trimmed;
            trimmed = (if HasPrefix trimmed ''|'' then tableRow U trimmed else trimmed)
        in inlineText trimmed @ [CHR 0x0A] @ plain_loop U fence lines)"

definition plainText :: "unicode \<Rightarrow> string \<Rightarrow> string" where
  "plainText U md = (if md = '''' then '''' else plain_loop U '''' (Split md (CHR 0x0A)))"

section \<open>Snippets (index.go)\<close>

definition window_from :: "unicode \<Rightarrow> string \<Rightarrow> string list \<Rightarrow> nat \<Rightarrow> nat" where
  "window_from U body terms width =
     (let at = firstMatch U body terms in if 0 < at then backward body (nat at) width else 0)"

definition shown_text :: "unicode \<Rightarrow> document \<Rightarrow> string \<Rightarrow> string" where
  "shown_text U d piece =
     (if fmlookup (doc_Properties d) MediaType = Some ''text/markdown'' then plainText U piece else piece)"

definition ellipsis :: passage where
  "ellipsis = \<lparr>pa_Text = ''...'', pa_Match = False\<rparr>"

definition snippet :: "unicode \<Rightarrow> document \<Rightarrow> string list \<Rightarrow> string \<times> passage list" where
  "snippet U d terms =
     (let raw = doc_Body d in
      if raw = '''' then ('''', [])
      else
        let start = window_from U raw terms SnippetWidth;
            stop = forward raw start (3 * SnippetWidth);
            body = collapse U (shown_text U d (slice raw start stop));
            head = window_from U body terms (SnippetWidth div 3);
            tail = forward body head SnippetWidth;
            out = TrimSpace U (slice body head tail);
            passages = mark U out terms;
            (out, passages) =
              (if 0 < start \<or> 0 < head then (''...'' @ out, ellipsis # passages) else (out, passages))
        in if stop < length raw \<or> tail < length body
           then (out @ ''...'', passages @ [ellipsis]) else (out, passages))"

section \<open>Answers (answer.go)\<close>

definition AnswerQuotes :: nat where "AnswerQuotes = 3"
definition MinQuote :: nat where "MinQuote = 40"
definition MaxQuote :: nat where "MaxQuote = 400"
definition answerWindow :: nat where "answerWindow = 6 * SnippetWidth"
definition minWords :: nat where "minWords = 6"
definition notProse :: string where "notProse = ''{}[]<>|='' @ [CHR 0x5C, CHR 0x60]"

record 'f search_result =
  re_Document :: document
  re_Score :: 'f
  re_Snippet :: string
  re_Passages :: "passage list"

record quotation =
  qu_ID :: string
  qu_Text :: string
  qu_Passages :: "passage list"

record search_answer =
  sa_Quotes :: "quotation list"

definition isBreak :: "unicode \<Rightarrow> rune \<Rightarrow> bool" where
  "isBreak U r \<longleftrightarrow> IsSpace U r \<or> r = 34 \<or> r = 39 \<or> r = 41 \<or> r = 93"

fun sentences_loop :: "unicode \<Rightarrow> string \<Rightarrow> nat \<Rightarrow> (nat \<times> rune) list \<Rightarrow> string list" where
  "sentences_loop U body prev [] =
     (if prev < length body then [slice body prev (length body)] else [])"
| "sentences_loop U body prev ((i, r) # rest) =
     (if r = 10 \<and> i + 1 < length body \<and> body ! (i + 1) = CHR 0x0A then
        slice body prev (i + 1) # sentences_loop U body (i + 1) rest
      else if r = 46 \<or> r = 33 \<or> r = 63 then
        if length body \<le> i + 1 then sentences_loop U body prev rest
        else if \<not> isBreak U (fst (DecodeRune (drop (i + 1) body))) then sentences_loop U body prev rest
        else slice body prev (i + 1) # sentences_loop U body (i + 1) rest
      else sentences_loop U body prev rest)"

definition sentences :: "unicode \<Rightarrow> string \<Rightarrow> string list" where
  "sentences U body = sentences_loop U body 0 (range_string body)"

definition prose :: "string \<Rightarrow> bool" where
  "prose s \<longleftrightarrow> \<not> ContainsAny s notProse \<and> minWords - 1 \<le> Count_byte s (CHR '' '')"

definition clip :: "string \<Rightarrow> nat \<Rightarrow> string" where
  "clip s n =
     (if length s \<le> n then s
      else
        let at = (case LastIndexByte (take n s) (CHR '' '') of
                    None \<Rightarrow> n | Some i \<Rightarrow> if i = 0 then n else i)
        in TrimRight (take at s) '' ,;:'' @ ''...'')"

definition seen_terms :: "unicode \<Rightarrow> string \<Rightarrow> string list \<Rightarrow> string list" where
  "seen_terms U s terms =
     foldl (\<lambda>seen t. if sp_Term t \<in> set terms then add_new seen (sp_Term t) else seen) []
       (AnalyzeText U s)"

fun best_loop :: "unicode \<Rightarrow> string list \<Rightarrow> string list \<Rightarrow> string \<Rightarrow> nat \<Rightarrow> string \<times> nat" where
  "best_loop U terms [] best found = (best, found)"
| "best_loop U terms (part # parts) best found =
     (let s = collapse U part in
      if length s < MinQuote then best_loop U terms parts best found
      else
        let s = (if MaxQuote < length s then clip s MaxQuote else s) in
        if \<not> prose s then best_loop U terms parts best found
        else
          let n = length (seen_terms U s terms) in
          if found < n \<or> n = found \<and> 0 < found \<and> length s < length best
          then best_loop U terms parts s n
          else best_loop U terms parts best found)"

definition bestSentence :: "unicode \<Rightarrow> string list \<Rightarrow> string list \<Rightarrow> bool \<Rightarrow> bool \<Rightarrow> string" where
  "bestSentence U parts terms cutHead cutTail =
     (if parts = [] then ''''
      else
        let parts = (if cutHead then tl parts else parts);
            parts = (if cutTail \<and> parts \<noteq> [] then butlast parts else parts);
            (best, found) = best_loop U terms parts '''' 0
        in if found = 0 then '''' else best)"

definition quote :: "unicode \<Rightarrow> document \<Rightarrow> string list \<Rightarrow> string \<times> passage list" where
  "quote U d terms =
     (if doc_Kind d = KindCode then ('''', [])
      else
        let raw = doc_Body d in
        if raw = '''' then ('''', [])
        else
          let start = window_from U raw terms (answerWindow div 2);
              stop = forward raw start answerWindow;
              best = bestSentence U (sentences U (shown_text U d (slice raw start stop))) terms
                       (0 < start) (stop < length raw)
          in if best = '''' then ('''', []) else (best, mark U best terms))"

fun answer_loop :: "unicode \<Rightarrow> string list \<Rightarrow> 'f search_result list \<Rightarrow> quotation list \<Rightarrow> quotation list" where
  "answer_loop U terms [] out = out"
| "answer_loop U terms (hit # hits) out =
     (if length out = AnswerQuotes then out
      else
        let (txt, passages) = quote U (re_Document hit) terms in
        if txt = '''' then answer_loop U terms hits out
        else answer_loop U terms hits
               (out @ [\<lparr>qu_ID = doc_ID (re_Document hit), qu_Text = txt, qu_Passages = passages\<rparr>]))"

definition answer :: "unicode \<Rightarrow> 'f search_result list \<Rightarrow> string list \<Rightarrow> search_answer" where
  "answer U hits terms =
     \<lparr>sa_Quotes = (if terms = [] then [] else answer_loop U terms hits [])\<rparr>"

section \<open>Rewriting a query (spell.go)\<close>

fun replace_loop :: "string \<Rightarrow> (string, string) fmap \<Rightarrow> span list \<Rightarrow> nat \<Rightarrow> string \<Rightarrow> string" where
  "replace_loop body swap [] prev out =
     (if prev = 0 then body else out @ slice body prev (length body))"
| "replace_loop body swap (s # sps) prev out =
     (case fmlookup swap (sp_Term s) of
        None \<Rightarrow> replace_loop body swap sps prev out
      | Some to \<Rightarrow>
          replace_loop body swap sps (nat (sp_End s)) (out @ slice body prev (nat (sp_Start s)) @ to))"

definition replaceTerms :: "unicode \<Rightarrow> string \<Rightarrow> (string, string) fmap \<Rightarrow> string" where
  "replaceTerms U body swap = replace_loop body swap (AnalyzeText U body) 0 ''''"

section \<open>Marks are the analyzer's matches\<close>

lemma AnalyzeText_ordered:
  assumes "\<not> single_rune U RuneError"
  shows "spans_ordered 0 (AnalyzeText U s) (int (length s))"
  using spans_from_ordered [OF chained_runes widths_ok_runes [OF assms], of "''''" "-1" s]
  by (simp add: AnalyzeText_all_spans all_spans_def pairs_range)

lemma spans_ordered_le: "spans_ordered lo sps hi \<Longrightarrow> lo \<le> hi"
  by (induction lo sps hi rule: spans_ordered.induct) auto

lemma spans_ordered_Cons_nat:
  assumes "spans_ordered (int prev) (sp # sps) (int n)"
  shows "prev \<le> nat (sp_Start sp)" "nat (sp_Start sp) < nat (sp_End sp)" "nat (sp_End sp) \<le> n"
    "spans_ordered (int (nat (sp_End sp))) sps (int n)" "spans_ordered (int prev) sps (int n)"
    "int prev < sp_Start sp \<longleftrightarrow> prev < nat (sp_Start sp)"
proof -
  have b: "int prev \<le> sp_Start sp" "sp_Start sp < sp_End sp" "sp_End sp \<le> int n"
    using spans_ordered_bounds [OF assms, of sp] by auto
  then show "prev \<le> nat (sp_Start sp)" "nat (sp_Start sp) < nat (sp_End sp)" "nat (sp_End sp) \<le> n"
    "int prev < sp_Start sp \<longleftrightarrow> prev < nat (sp_Start sp)"
    by auto
  have "spans_ordered (sp_End sp) sps (int n)"
    using assms by simp
  then show "spans_ordered (int (nat (sp_End sp))) sps (int n)" "spans_ordered (int prev) sps (int n)"
    using b by (auto intro: spans_ordered_mono)
qed

lemma mark_loop_concat:
  "spans_ordered (int prev) sps (int (length body)) \<Longrightarrow>
     concat (map pa_Text (mark_loop body terms sps prev)) = drop prev body"
proof (induction sps arbitrary: prev)
  case (Cons sp sps)
  note b = spans_ordered_Cons_nat [OF Cons.prems]
  note slice_append3 [OF b(1-3), of body]
  then have "slice body prev (nat (sp_Start sp)) @ slice body (nat (sp_Start sp)) (nat (sp_End sp)) @
      drop (nat (sp_End sp)) body = drop prev body"
    by (simp add: slice_all)
  moreover have "slice body prev (nat (sp_Start sp)) = []" if "\<not> int prev < sp_Start sp"
    using that b(1,6) by (simp add: slice_def)
  ultimately show ?case
    using Cons.IH [OF b(4)] Cons.IH [OF b(5)] by auto
qed (auto simp: slice_all)

lemma mark_loop_matches:
  "map pa_Text (filter pa_Match (mark_loop body terms sps prev)) =
     map (\<lambda>s. slice body (nat (sp_Start s)) (nat (sp_End s))) (filter (\<lambda>s. sp_Term s \<in> set terms) sps)"
  by (induction sps arbitrary: prev) auto

lemma mark_loop_nonempty:
  "spans_ordered (int prev) sps (int (length body)) \<Longrightarrow> p \<in> set (mark_loop body terms sps prev) \<Longrightarrow>
     pa_Text p \<noteq> []"
proof (induction sps arbitrary: prev)
  case (Cons sp sps)
  note b = spans_ordered_Cons_nat [OF Cons.prems(1)]
  have "slice body (nat (sp_Start sp)) (nat (sp_End sp)) \<noteq> []"
    using b(2) by (simp add: slice_eq_Nil [OF b(3)] not_le del: zless_nat_conj)
  moreover have "slice body prev (nat (sp_Start sp)) \<noteq> []" if "int prev < sp_Start sp"
  proof -
    have "nat (sp_Start sp) \<le> length body" using b(2,3) by linarith
    from slice_eq_Nil [OF this] show ?thesis using that b(6) by simp
  qed
  ultimately show ?case
    using Cons.prems(2) Cons.IH [OF b(4)] Cons.IH [OF b(5)] by (auto split: if_splits)
qed (auto simp: slice_eq_Nil split: if_splits)

text \<open>
  Marking loses nothing and marks what the index matched: the passages read one after the
  other are the text, and the marked ones are, in order, exactly the stretches the analyzer reads
  a query term from.
\<close>

theorem mark_exact:
  assumes "\<not> single_rune U RuneError"
  shows "concat (map pa_Text (mark U body terms)) = body \<and>
    map pa_Text (filter pa_Match (mark U body terms)) =
      map (\<lambda>s. slice body (nat (sp_Start s)) (nat (sp_End s)))
        (filter (\<lambda>s. sp_Term s \<in> set terms) (AnalyzeText U body))"
proof
  show "concat (map pa_Text (mark U body terms)) = body"
    using mark_loop_concat [of 0] AnalyzeText_ordered [OF assms] by (simp add: mark_def)
  have "AnalyzeText U [] = []"
    using AnalyzeText_ordered [OF assms, of "[]"] by (cases "AnalyzeText U []") (auto dest: spans_ordered_le)
  then show "map pa_Text (filter pa_Match (mark U body terms)) =
      map (\<lambda>s. slice body (nat (sp_Start s)) (nat (sp_End s)))
        (filter (\<lambda>s. sp_Term s \<in> set terms) (AnalyzeText U body))"
    by (simp add: mark_def mark_loop_matches)
qed

theorem mark_exact_witness:
  "concat (map pa_Text (mark ascii_table ''the runbook'' [''runbook''])) = ''the runbook''"
  by (rule mark_exact [THEN conjunct1]) (simp add: single_rune_def is_cjk_def ascii_table_def)

section \<open>Windows\<close>

lemma backward_le: "backward s at n \<le> at"
  by (induction s at n rule: backward.induct) (auto intro: le_trans)

lemma backward_width: "at \<le> length s \<Longrightarrow> at \<le> backward s at n + 4 * n"
proof (induction s at n rule: backward.induct)
  case (2 s at n)
  show ?case
  proof (cases "0 < at")
    case True
    with 2 have "take at s \<noteq> []" by auto
    from DecodeLastRune_width(3) [OF this]
    have "at \<le> at - snd (DecodeLastRune (take at s)) + 4" by linarith
    moreover have "at - snd (DecodeLastRune (take at s)) \<le>
        backward s (at - snd (DecodeLastRune (take at s))) n + 4 * n"
      using True 2 by simp
    ultimately show ?thesis using True by simp
  qed simp
qed simp

lemma forward_ge: "at \<le> forward s at n"
  by (induction s at n rule: forward.induct) (auto intro: le_trans)

lemma forward_le: "at \<le> length s \<Longrightarrow> forward s at n \<le> length s"
proof (induction s at n rule: forward.induct)
  case (2 s at n)
  have "snd (DecodeRune (drop at s)) \<le> length s - at"
    using DecodeRune_width_le [of "drop at s"] by simp
  with 2 show ?case by auto
qed simp

lemma forward_width: "forward s at n \<le> at + 4 * n"
proof (induction s at n rule: forward.induct)
  case (2 s at n)
  show ?case
  proof (cases "at < length s")
    case True
    from 2 [OF this] True show ?thesis
      using DecodeRune_width_4 [of "drop at s"] by simp
  qed simp
qed simp

lemma Find_less: "\<not> single_rune U RuneError \<Longrightarrow> Find U s want < int (length s) \<or> Find U s want = -1"
proof -
  assume "\<not> single_rune U RuneError"
  from AnalyzeText_ordered [OF this, of s] show ?thesis
  proof -
    assume o: "spans_ordered 0 (AnalyzeText U s) (int (length s))"
    have "snd (yield_all (run_yield (\<lambda>term start _ at.
            if fmlookup want term \<noteq> Some True then (True, at) else (False, start))) sps (-1)) \<in>
        insert (-1) (sp_Start ` set sps)" for sps
      by (induction sps) (auto simp: run_yield_def)
    then have "Find U s want \<in> insert (-1) (sp_Start ` set (AnalyzeText U s))"
      by (simp add: Find_def scan_all_spans AnalyzeText_all_spans)
    with spans_ordered_bounds [OF o] show ?thesis by fastforce
  qed
qed

lemma window_from_le: "\<not> single_rune U RuneError \<Longrightarrow> window_from U body terms width \<le> length body"
proof -
  assume "\<not> single_rune U RuneError"
  from Find_less [OF this, of body "fmap_of_list (map (\<lambda>t. (t, True)) terms)"]
  show ?thesis
    using backward_le [of body "nat (firstMatch U body terms)" width]
    by (auto simp: window_from_def Let_def firstMatch_def)
qed

section \<open>Snippets\<close>

text \<open>
  A snippet is a stretch of the readable text of the document, at most \<open>SnippetWidth\<close>
  characters wide, between ellipses where something was left out; its passages are the ellipses
  and the marked stretch, so that read one after the other they are the snippet.
\<close>

theorem snippet_shape:
  assumes "doc_Body d \<noteq> []"
  shows "\<exists>core pre post piece. snippet U d terms =
      ((if pre then ''...'' else []) @ core @ (if post then ''...'' else []),
       (if pre then [ellipsis] else []) @ mark U core terms @ (if post then [ellipsis] else [])) \<and>
    sublist core (collapse U (shown_text U d piece)) \<and> sublist piece (doc_Body d) \<and>
    length core \<le> 4 * SnippetWidth"
proof -
  define start where "start = window_from U (doc_Body d) terms SnippetWidth"
  define stop where "stop = forward (doc_Body d) start (3 * SnippetWidth)"
  define piece where "piece = slice (doc_Body d) start stop"
  define body where "body = collapse U (shown_text U d piece)"
  define head where "head = window_from U body terms (SnippetWidth div 3)"
  define tail where "tail = forward body head SnippetWidth"
  define core where "core = TrimSpace U (slice body head tail)"
  have eq: "snippet U d terms =
      ((if 0 < start \<or> 0 < head then ''...'' else []) @ core @
         (if stop < length (doc_Body d) \<or> tail < length body then ''...'' else []),
       (if 0 < start \<or> 0 < head then [ellipsis] else []) @ mark U core terms @
         (if stop < length (doc_Body d) \<or> tail < length body then [ellipsis] else []))"
    unfolding snippet_def Let_def start_def [symmetric] stop_def [symmetric]
        piece_def [symmetric] body_def [symmetric] head_def [symmetric] tail_def [symmetric]
        core_def [symmetric]
    using assms by simp
  have "sublist core (slice body head tail)"
    by (simp add: core_def)
  moreover have "length (slice body head tail) \<le> 4 * SnippetWidth"
    using forward_width [of body head SnippetWidth] by (simp add: slice_def tail_def)
  ultimately have "sublist core body" "length core \<le> 4 * SnippetWidth"
    using slice_sublist sublist_order.order.trans sublist_length_le le_trans by blast+
  moreover have "sublist piece (doc_Body d)"
    by (simp add: piece_def)
  ultimately show ?thesis
    unfolding eq body_def by blast
qed

theorem snippet_shape_witness:
  "\<exists>core pre post piece. snippet ascii_table (ex_doc ''d'' (ex_acl [] [])) [''deploy''] =
      ((if pre then ''...'' else []) @ core @ (if post then ''...'' else []),
       (if pre then [ellipsis] else []) @ mark ascii_table core [''deploy''] @
         (if post then [ellipsis] else [])) \<and>
    sublist core (collapse ascii_table (shown_text ascii_table (ex_doc ''d'' (ex_acl [] [])) piece)) \<and>
    sublist piece (doc_Body (ex_doc ''d'' (ex_acl [] []))) \<and> length core \<le> 4 * SnippetWidth"
  by (rule snippet_shape) (simp add: ex_doc_def)

section \<open>Sentences\<close>

lemma chained_le: "chained k ts n \<Longrightarrow> k \<le> n"
  by (induction k ts n rule: chained.induct) auto

lemma sentences_loop_parts:
  "chained k ts (length body) \<Longrightarrow> prev \<le> k \<Longrightarrow>
     concat (sentences_loop U body prev (pairs ts)) = drop prev body \<and>
     [] \<notin> set (sentences_loop U body prev (pairs ts))"
proof (induction ts arbitrary: k prev)
  case Nil
  then show ?case by (auto simp: pairs_def slice_all slice_eq_Nil)
next
  case (Cons t ts)
  then obtain r w where t: "t = (k, r, w)" "0 < w" and ch: "chained (k + w) ts (length body)"
    by (cases t) auto
  have p: "pairs (t # ts) = (k, r) # pairs ts" by (simp add: pairs_def t)
  have k: "k + 1 \<le> k + w" "k + 1 \<le> length body" "prev \<le> k + w"
    using t(2) chained_le [OF ch] Cons.prems(2) by simp_all
  have cut: "slice body prev (k + 1) @ drop (k + 1) body = drop prev body" "slice body prev (k + 1) \<noteq> []"
    using slice_append [of prev "k + 1" "length body" body] Cons.prems(2) k(2)
    by (simp_all add: slice_all slice_eq_Nil)
  note IH = Cons.IH [OF ch k(1)] Cons.IH [OF ch k(3)]
  show ?case
    unfolding p using IH cut by simp
qed

text \<open>
  Splitting into sentences loses nothing: the sentences read one after the other are the
  text, and none is empty.
\<close>

theorem sentences_concat: "concat (sentences U body) = body \<and> [] \<notin> set (sentences U body)"
  using sentences_loop_parts [OF chained_runes [of body], of 0 U]
  by (simp add: sentences_def pairs_range)

section \<open>The best sentence\<close>

text \<open>What a part contributes: the candidate it is, when it is one.\<close>

definition quotable :: "unicode \<Rightarrow> string \<Rightarrow> string option" where
  "quotable U part =
     (let s = collapse U part; c = (if MaxQuote < length s then clip s MaxQuote else s)
      in if length s < MinQuote \<or> \<not> prose c then None else Some c)"

definition hits_of :: "unicode \<Rightarrow> string list \<Rightarrow> string \<Rightarrow> nat" where
  "hits_of U terms s = length (seen_terms U s terms)"

definition better :: "unicode \<Rightarrow> string list \<Rightarrow> string \<Rightarrow> string \<Rightarrow> bool" where
  "better U terms s t \<longleftrightarrow>
     hits_of U terms t < hits_of U terms s \<or>
     hits_of U terms t = hits_of U terms s \<and> length s \<le> length t"

lemma best_loop_Cons:
  "best_loop U terms (part # parts) best found =
     (case quotable U part of
        None \<Rightarrow> best_loop U terms parts best found
      | Some s \<Rightarrow>
          if found < hits_of U terms s \<or> hits_of U terms s = found \<and> 0 < found \<and> length s < length best
          then best_loop U terms parts s (hits_of U terms s)
          else best_loop U terms parts best found)"
  by (simp add: quotable_def hits_of_def Let_def)

declare best_loop.simps(2) [simp del]

lemma best_loop_best:
  assumes "0 < found \<Longrightarrow> found = hits_of U terms best"
    and "best_loop U terms parts best found = (b, n)"
  shows "(n = 0 \<longrightarrow> found = 0 \<and> (\<forall>p \<in> set parts. \<forall>s. quotable U p = Some s \<longrightarrow> hits_of U terms s = 0)) \<and>
    (0 < n \<longrightarrow> n = hits_of U terms b \<and>
       (0 < found \<and> b = best \<or> (\<exists>p \<in> set parts. quotable U p = Some b)) \<and>
       (0 < found \<longrightarrow> better U terms b best) \<and>
       (\<forall>p \<in> set parts. \<forall>s. quotable U p = Some s \<longrightarrow> better U terms b s))"
  using assms
proof (induction parts arbitrary: best found)
  case Nil
  then show ?case by (auto simp: better_def)
next
  case (Cons p parts)
  show ?case
  proof (cases "quotable U p")
    case None
    with Cons.IH [of found best] Cons.prems show ?thesis
      by (auto simp: best_loop_Cons)
  next
    case (Some s)
    show ?thesis
    proof (cases "found < hits_of U terms s \<or>
        hits_of U terms s = found \<and> 0 < found \<and> length s < length best")
      case True
      with Some Cons.prems have "best_loop U terms parts s (hits_of U terms s) = (b, n)"
        by (simp add: best_loop_Cons)
      from Cons.IH [OF refl this] True Some Cons.prems(1) show ?thesis
        by (auto simp: better_def)
    next
      case False
      with Some Cons.prems have "best_loop U terms parts best found = (b, n)"
        by (simp add: best_loop_Cons)
      from Cons.IH [OF Cons.prems(1) this] False Some Cons.prems(1) show ?thesis
        by (auto simp: better_def)
    qed
  qed
qed

definition kept_parts :: "string list \<Rightarrow> bool \<Rightarrow> bool \<Rightarrow> string list" where
  "kept_parts parts cutHead cutTail =
     (let parts = (if cutHead then tl parts else parts) in if cutTail then butlast parts else parts)"

lemma prose_not_Nil: "prose s \<Longrightarrow> s \<noteq> []"
  by (auto simp: prose_def Count_byte_def minWords_def)

lemma quotable_not_Nil: "quotable U p = Some s \<Longrightarrow> s \<noteq> []"
  by (auto simp: quotable_def Let_def dest: prose_not_Nil split: if_splits)

lemma bestSentence_eq:
  "bestSentence U parts terms cutHead cutTail =
     (let (best, found) = best_loop U terms (kept_parts parts cutHead cutTail) '''' 0
      in if found = 0 then '''' else best)"
  by (auto simp: bestSentence_def kept_parts_def Let_def)

text \<open>
  The sentence quoted is one of the whole sentences of the window and the best of them: no
  other quotable one carries more distinct query terms, none with as many is shorter; and nothing
  is quoted only when no quotable sentence carries a term.
\<close>

theorem bestSentence_best:
  "(if bestSentence U parts terms cutHead cutTail = ''''
    then \<forall>p \<in> set (kept_parts parts cutHead cutTail). \<forall>s. quotable U p = Some s \<longrightarrow> hits_of U terms s = 0
    else (\<exists>p \<in> set (kept_parts parts cutHead cutTail).
             quotable U p = Some (bestSentence U parts terms cutHead cutTail)) \<and>
         0 < hits_of U terms (bestSentence U parts terms cutHead cutTail) \<and>
         (\<forall>p \<in> set (kept_parts parts cutHead cutTail). \<forall>s. quotable U p = Some s \<longrightarrow>
             better U terms (bestSentence U parts terms cutHead cutTail) s))"
proof -
  obtain b n where l: "best_loop U terms (kept_parts parts cutHead cutTail) '''' 0 = (b, n)"
    by fastforce
  have "(0::nat) < 0 \<Longrightarrow> 0 = hits_of U terms ''''" by simp
  note best = best_loop_best [OF this l]
  show ?thesis
  proof (cases "n = 0")
    case True
    with best show ?thesis by (simp add: bestSentence_eq l)
  next
    case False
    with best have "b \<noteq> []" by (auto dest: quotable_not_Nil)
    with False best show ?thesis by (simp add: bestSentence_eq l)
  qed
qed

section \<open>Answers\<close>

lemma length_clip: "length (clip s n) \<le> n + 3 \<or> length s \<le> n \<and> clip s n = s"
proof (cases "length s \<le> n")
  case False
  have "length (TrimRight (take at s) '' ,;:'') \<le> n" if "at \<le> n" for at
    using TrimRight_le [of "take at s" "'' ,;:''"] that by simp
  moreover have "i \<le> n" if "LastIndexByte (take n s) (CHR '' '') = Some i" for i
    using LastIndexByte_less [OF that] by simp
  ultimately show ?thesis
    using False by (auto simp: clip_def Let_def split: option.splits)
qed (simp add: clip_def)

lemma quotable_Some:
  assumes "quotable U p = Some s"
  shows "prose s" "length s \<le> MaxQuote + 3" "MinQuote \<le> length (collapse U p)"
    "s = (if MaxQuote < length (collapse U p) then clip (collapse U p) MaxQuote else collapse U p)"
  using assms length_clip [of "collapse U p" MaxQuote]
  by (auto simp: quotable_def Let_def split: if_splits)

lemma set_seen_terms:
  "set (seen_terms U s terms) = {sp_Term t | t. t \<in> set (AnalyzeText U s) \<and> sp_Term t \<in> set terms}"
proof -
  have "set (foldl (\<lambda>seen t. if sp_Term t \<in> set terms then add_new seen (sp_Term t) else seen) a sps) =
      set a \<union> {sp_Term t | t. t \<in> set sps \<and> sp_Term t \<in> set terms}" for a and sps :: "span list"
    by (induction sps arbitrary: a) auto
  then show ?thesis by (simp add: seen_terms_def)
qed

lemma distinct_seen_terms: "distinct (seen_terms U s terms)"
proof -
  have "distinct (foldl (\<lambda>seen t. if sp_Term t \<in> set terms then add_new seen (sp_Term t) else seen) a sps)
      = distinct a" for a and sps :: "span list"
    by (induction sps arbitrary: a) auto
  then show ?thesis by (simp add: seen_terms_def)
qed

lemma hits_of_card: "hits_of U terms s = card (sp_Term ` set (AnalyzeText U s) \<inter> set terms)"
proof -
  have "hits_of U terms s = card (set (seen_terms U s terms))"
    by (simp add: hits_of_def distinct_card distinct_seen_terms)
  also have "set (seen_terms U s terms) = sp_Term ` set (AnalyzeText U s) \<inter> set terms"
    by (auto simp: set_seen_terms)
  finally show ?thesis .
qed

lemma mark_matches_some:
  assumes "0 < hits_of U terms s" and "s \<noteq> []" and "terms \<noteq> []"
  shows "\<exists>p \<in> set (mark U s terms). pa_Match p"
proof -
  have "filter (\<lambda>t. sp_Term t \<in> set terms) (AnalyzeText U s) \<noteq> []"
    using assms(1) by (auto simp: hits_of_card card_gt_0_iff filter_empty_conv)
  then have "filter pa_Match (mark U s terms) \<noteq> []"
    using mark_loop_matches [of s terms "AnalyzeText U s" 0] assms(2,3)
    by (cases "filter pa_Match (mark U s terms)") (simp_all add: mark_def)
  then show ?thesis by (simp add: filter_empty_conv)
qed

lemma sublist_concat: "x \<in> set xs \<Longrightarrow> sublist x (concat xs)"
  by (metis concat.simps(2) concat_append sublist_appendI split_list)

lemma set_kept_parts: "set (kept_parts parts h t) \<subseteq> set parts"
proof -
  have "set (tl xs) \<subseteq> set xs" for xs :: "string list" by (cases xs) auto
  moreover have "set (butlast xs) \<subseteq> set xs" for xs :: "string list" by (auto dest: in_set_butlastD)
  ultimately show ?thesis by (auto simp: kept_parts_def Let_def)
qed

definition quoted_from :: "unicode \<Rightarrow> document \<Rightarrow> string list \<Rightarrow> string \<Rightarrow> bool" where
  "quoted_from U d terms s \<longleftrightarrow>
     (\<exists>piece part. sublist piece (doc_Body d) \<and> sublist part (shown_text U d piece) \<and>
        quotable U part = Some s) \<and> 0 < hits_of U terms s \<and> doc_Kind d \<noteq> KindCode"

lemma bestSentence_from:
  assumes "bestSentence U (sentences U body) terms h t \<noteq> []"
  shows "\<exists>part. sublist part body \<and> quotable U part = Some (bestSentence U (sentences U body) terms h t)"
    "0 < hits_of U terms (bestSentence U (sentences U body) terms h t)"
proof -
  obtain b n where l: "best_loop U terms (kept_parts (sentences U body) h t) '''' 0 = (b, n)"
    by fastforce
  have "(0::nat) < 0 \<Longrightarrow> 0 = hits_of U terms ''''" by simp
  note best = best_loop_best [OF this l]
  from assms have n: "0 < n" "bestSentence U (sentences U body) terms h t = b"
    by (auto simp: bestSentence_eq l split: if_splits)
  with best obtain p where p: "p \<in> set (kept_parts (sentences U body) h t)" "quotable U p = Some b"
    by blast
  have "concat (sentences U body) = body"
    using sentences_loop_parts [OF chained_runes [of body], of 0 U] by (simp add: sentences_def pairs_range)
  then have "sublist p body"
    using p(1) set_kept_parts sublist_concat [of p "sentences U body"] by fastforce
  with p(2) n(2) show "\<exists>part. sublist part body \<and>
      quotable U part = Some (bestSentence U (sentences U body) terms h t)"
    by blast
  show "0 < hits_of U terms (bestSentence U (sentences U body) terms h t)"
    using best n by simp
qed

lemma quote_from:
  assumes "quote U d terms = (s, ps)" and "s \<noteq> []"
  shows "quoted_from U d terms s" "ps = mark U s terms"
proof -
  define start where "start = window_from U (doc_Body d) terms (answerWindow div 2)"
  define stop where "stop = forward (doc_Body d) start answerWindow"
  define body where "body = shown_text U d (slice (doc_Body d) start stop)"
  have q: "quote U d terms =
      (if doc_Kind d = KindCode \<or> doc_Body d = [] then ([], [])
       else
         let best = bestSentence U (sentences U body) terms (0 < start) (stop < length (doc_Body d))
         in if best = [] then ([], []) else (best, mark U best terms))"
    unfolding quote_def Let_def start_def [symmetric] stop_def [symmetric] body_def [symmetric] by simp
  from assms q have s: "doc_Kind d \<noteq> KindCode"
      "s = bestSentence U (sentences U body) terms (0 < start) (stop < length (doc_Body d))"
      "ps = mark U s terms"
    by (auto simp: Let_def split: if_splits)
  show "ps = mark U s terms" by (fact s(3))
  have "sublist (slice (doc_Body d) start stop) (doc_Body d)" by simp
  with bestSentence_from [of U body terms "0 < start" "stop < length (doc_Body d)"] s(1,2) assms(2)
  show "quoted_from U d terms s"
    unfolding quoted_from_def body_def by blast
qed

definition quote_of :: "unicode \<Rightarrow> string list \<Rightarrow> 'f search_result \<Rightarrow> quotation option" where
  "quote_of U terms hit =
     (let (s, ps) = quote U (re_Document hit) terms
      in if s = [] then None
         else Some \<lparr>qu_ID = doc_ID (re_Document hit), qu_Text = s, qu_Passages = ps\<rparr>)"

lemma answer_loop_take:
  "length out \<le> AnswerQuotes \<Longrightarrow>
     answer_loop U terms hits out = take AnswerQuotes (out @ List.map_filter (quote_of U terms) hits)"
proof (induction hits arbitrary: out)
  case (Cons hit hits)
  obtain s ps where q: "quote U (re_Document hit) terms = (s, ps)" by fastforce
  show ?case
  proof (cases "length out = AnswerQuotes")
    case False
    with Cons.prems obtain m where m: "AnswerQuotes - length out = Suc m" "m = AnswerQuotes - Suc (length out)"
      by (cases "AnswerQuotes - length out") auto
    have "length (out @ [x]) \<le> AnswerQuotes" for x
      using Cons.prems False by simp
    with False Cons show ?thesis
      by (simp add: q quote_of_def map_filter_simps m(1)) (simp add: m(2))
  qed simp
qed (simp add: map_filter_simps)

text \<open>
  An answer is the first three quotes of the page in its order, one per document. Each
  belongs to a hit that is not source code, is a whole sentence of the readable text of its body
  with the whitespace collapsed (or that sentence clipped), reads as prose, is at most
  \<open>MaxQuote\<close> bytes and an ellipsis long, and carries a marked query term.
\<close>

theorem answer_quotes:
  assumes "\<not> single_rune U RuneError"
  shows "sa_Quotes (answer U hits terms) =
      (if terms = [] then [] else take AnswerQuotes (List.map_filter (quote_of U terms) hits)) \<and>
    (\<forall>q \<in> set (sa_Quotes (answer U hits terms)). \<exists>hit \<in> set hits.
       qu_ID q = doc_ID (re_Document hit) \<and> quoted_from U (re_Document hit) terms (qu_Text q) \<and>
       prose (qu_Text q) \<and> length (qu_Text q) \<le> MaxQuote + 3 \<and>
       concat (map pa_Text (qu_Passages q)) = qu_Text q \<and> (\<exists>p \<in> set (qu_Passages q). pa_Match p))"
proof (intro conjI ballI)
  show eq: "sa_Quotes (answer U hits terms) =
      (if terms = [] then [] else take AnswerQuotes (List.map_filter (quote_of U terms) hits))"
    by (simp add: answer_def answer_loop_take)
  fix q assume "q \<in> set (sa_Quotes (answer U hits terms))"
  then have terms: "terms \<noteq> []" and "q \<in> set (List.map_filter (quote_of U terms) hits)"
    by (auto simp: eq split: if_splits dest: in_set_takeD)
  then obtain hit where hit: "hit \<in> set hits" "quote_of U terms hit = Some q"
    by (auto simp: List.map_filter_def)
  then have q: "quote U (re_Document hit) terms = (qu_Text q, qu_Passages q)" "qu_Text q \<noteq> []"
      "qu_ID q = doc_ID (re_Document hit)"
    by (auto simp: quote_of_def split: prod.splits if_splits)
  note from_hit = quote_from [OF q(1,2)]
  then have "prose (qu_Text q)" "length (qu_Text q) \<le> MaxQuote + 3" "0 < hits_of U terms (qu_Text q)"
    by (auto simp: quoted_from_def dest: quotable_Some)
  moreover have "concat (map pa_Text (qu_Passages q)) = qu_Text q"
    unfolding from_hit(2)
    using mark_loop_concat [of 0] AnalyzeText_ordered [OF assms] by (simp add: mark_def)
  ultimately show "\<exists>hit \<in> set hits. qu_ID q = doc_ID (re_Document hit) \<and>
      quoted_from U (re_Document hit) terms (qu_Text q) \<and> prose (qu_Text q) \<and>
      length (qu_Text q) \<le> MaxQuote + 3 \<and> concat (map pa_Text (qu_Passages q)) = qu_Text q \<and>
      (\<exists>p \<in> set (qu_Passages q). pa_Match p)"
    using hit(1) q from_hit mark_matches_some [OF _ q(2) terms] by auto
qed

definition ex_hit :: "unit search_result" where
  "ex_hit =
     \<lparr>re_Document = (ex_doc ''d1'' (ex_acl [] []))
        \<lparr>doc_Body := ''To restart the runner, open the console and press the button. Then wait.''\<rparr>,
      re_Score = (), re_Snippet = '''', re_Passages = []\<rparr>"

theorem answer_quotes_witness:
  "length (sa_Quotes (answer ascii_table [ex_hit] [''restart''])) \<le> AnswerQuotes \<and>
   sa_Quotes (answer ascii_table [ex_hit] [''restart'']) =
     take AnswerQuotes (List.map_filter (quote_of ascii_table [''restart'']) [ex_hit])"
proof -
  have "\<not> single_rune ascii_table RuneError"
    by (simp add: single_rune_def is_cjk_def ascii_table_def)
  from answer_quotes [OF this, of "[ex_hit]" "[''restart'']"] show ?thesis
    by simp
qed

section \<open>Corrections rewrite the corrected words only\<close>

definition replaced :: "string \<Rightarrow> (string, string) fmap \<Rightarrow> span list \<Rightarrow> (string \<times> string) list" where
  "replaced body swap sps =
     List.map_filter (\<lambda>sp. map_option (Pair (slice body (nat (sp_Start sp)) (nat (sp_End sp))))
       (fmlookup swap (sp_Term sp))) sps"

lemma replace_loop_segs:
  assumes "spans_ordered (int prev) sps (int (length body))" and "prev = 0 \<Longrightarrow> out = []"
  shows "\<exists>segs. concat (map (\<lambda>(_, old, _). old) segs) = drop prev body \<and>
    replace_loop body swap sps prev out = out @ concat (map (\<lambda>(_, _, new). new) segs) \<and>
    map snd (filter fst segs) = replaced body swap sps \<and>
    (\<forall>(changed, old, new) \<in> set segs. \<not> changed \<longrightarrow> old = new)"
  using assms
proof (induction sps arbitrary: prev out)
  case Nil
  show ?case
    by (rule exI [of _ "[(False, drop prev body, drop prev body)]"])
      (use Nil in \<open>auto simp: replaced_def map_filter_simps slice_all\<close>)
next
  case (Cons sp sps)
  note b = spans_ordered_Cons_nat [OF Cons.prems(1)]
  show ?case
  proof (cases "fmlookup swap (sp_Term sp)")
    case None
    with Cons.IH [OF b(5) Cons.prems(2)] show ?thesis
      by (simp add: replaced_def map_filter_simps)
  next
    case (Some new)
    let ?a = "nat (sp_Start sp)" and ?b = "nat (sp_End sp)"
    let ?out = "out @ slice body prev ?a @ new"
    have "?b = 0 \<Longrightarrow> ?out = []" using b(2) by linarith
    from Cons.IH [OF b(4) this] obtain segs where
      segs: "concat (map (\<lambda>(_, old, _). old) segs) = drop ?b body"
        "replace_loop body swap sps ?b ?out = ?out @ concat (map (\<lambda>(_, _, new). new) segs)"
        "map snd (filter fst segs) = replaced body swap sps"
        "\<forall>(changed, old, new) \<in> set segs. \<not> changed \<longrightarrow> old = new"
      by blast
    have "slice body prev ?a @ slice body ?a ?b @ drop ?b body = drop prev body"
      using slice_append3 [OF b(1-3), of body] by (simp add: slice_all)
    then show ?thesis
      using segs Some
      by (intro exI [of _ "(False, slice body prev ?a, slice body prev ?a) #
            (True, slice body ?a ?b, new) # segs"])
        (simp add: replaced_def map_filter_simps)
  qed
qed

text \<open>
  Rewriting a query replaces exactly the words that were corrected: cut into segments, the
  query changes only in the stretches the analyzer reads a swapped term from, each becomes the
  replacement of its term, and every other character stays where it was.
\<close>

theorem replaceTerms_exact:
  assumes "\<not> single_rune U RuneError"
  shows "\<exists>segs. concat (map (\<lambda>(_, old, _). old) segs) = body \<and>
    replaceTerms U body swap = concat (map (\<lambda>(_, _, new). new) segs) \<and>
    map snd (filter fst segs) = replaced body swap (AnalyzeText U body) \<and>
    (\<forall>(changed, old, new) \<in> set segs. \<not> changed \<longrightarrow> old = new)"
  using replace_loop_segs [of 0 "AnalyzeText U body" body "''''" swap] AnalyzeText_ordered [OF assms]
  by (simp add: replaceTerms_def)

theorem replaceTerms_exact_witness:
  "\<exists>segs. concat (map (\<lambda>(_, old, _). old) segs) = ''the rumbook'' \<and>
    replaceTerms ascii_table ''the rumbook'' (fmap_of_list [(''rumbook'', ''runbook'')]) =
      concat (map (\<lambda>(_, _, new). new) segs) \<and>
    map snd (filter fst segs) = replaced ''the rumbook'' (fmap_of_list [(''rumbook'', ''runbook'')])
      (AnalyzeText ascii_table ''the rumbook'') \<and>
    (\<forall>(changed, old, new) \<in> set segs. \<not> changed \<longrightarrow> old = new)"
  by (rule replaceTerms_exact) (simp add: single_rune_def is_cjk_def ascii_table_def)

section \<open>Markdown keeps the words in order\<close>

definition solid :: "string \<Rightarrow> string" where
  "solid s = filter (\<lambda>c. c \<noteq> CHR '' '' \<and> c \<noteq> CHR 0x0A) s"

lemma solid_simps [simp]:
  "solid [] = []" "solid (s @ t) = solid s @ solid t" "solid (CHR 0x0A # s) = solid s"
  "solid (CHR '' '' # s) = solid s"
  by (simp_all add: solid_def)

lemma subseq_solid: "subseq s t \<Longrightarrow> subseq (solid s) (solid t)"
  by (simp add: solid_def subseq_filter)

lemma sublist_subseq: "sublist s t \<Longrightarrow> subseq s t"
  by (rule sublist_imp_subseq)

lemma solid_Join: "solid (Join xs '' '') = concat (map solid xs)"
proof (induction xs)
  case (Cons x xs)
  then show ?case by (cases xs) (auto simp: solid_def)
qed simp

lemma subseq_concat_Join: "subseq (concat xs) (Join xs sep)"
  by (induction xs sep rule: Join.induct) (simp_all add: list_emb_append_mono subseq_drop_many)

lemma solid_concat: "solid (concat xs) = concat (map solid xs)"
  by (induction xs) simp_all

lemma subseq_slice:
  assumes "i \<le> a" "a \<le> b" "b \<le> n" "subseq t (drop n line)"
  shows "subseq (slice line a b @ t) (drop i line)"
proof -
  have "drop i line = slice line i a @ slice line a b @ slice line b n @ drop n line"
  proof -
    have "slice line i a @ slice line a b @ slice line b n = slice line i n"
      using assms by (simp add: slice_append)
    moreover have "slice line i n @ drop n line = drop i line"
      using assms by (simp add: slice_def) (metis append_take_drop_id drop_drop le_add_diff_inverse2 le_trans)
    ultimately show ?thesis by (metis append.assoc)
  qed
  moreover have "subseq (slice line a b @ t) (slice line a b @ slice line b n @ drop n line)"
    unfolding subseq_append' using assms(4) by (rule subseq_drop_many)
  ultimately show ?thesis by (simp add: subseq_drop_many)
qed

lemma linkAt_shape:
  assumes "linkAt line i = Some (s, n)"
  shows "\<exists>b. s = slice line (i + 1) b \<and> b < n \<and> i < n \<and> n \<le> length line \<and> i \<le> b"
proof -
  obtain bracket paren where l: "IndexByte (drop i line) (CHR '']'') = Some bracket"
    "IndexByte (drop (i + bracket + 1) line) (CHR '')'') = Some paren"
    "s = slice line (i + 1) (i + bracket)" "n = i + bracket + paren + 2"
    using assms by (auto simp: linkAt_def split: option.splits if_splits)
  have "paren < length line - (i + bracket + 1)"
    using IndexByte_Some [OF l(2)] by simp
  with l show ?thesis by (intro exI [of _ "i + bracket"]) auto
qed

lemma subseq_take1: "i < length line \<Longrightarrow> subseq s (drop (i + 1) line) \<Longrightarrow> subseq (line ! i # s) (drop i line)"
  by (simp add: Cons_nth_drop_Suc [symmetric])

lemma subseq_skip: "i \<le> j \<Longrightarrow> subseq s (drop j line) \<Longrightarrow> subseq s (drop i line)"
proof -
  assume "i \<le> j" "subseq s (drop j line)"
  moreover have "subseq (drop j line) (drop i line)"
    using \<open>i \<le> j\<close> by (metis drop_drop le_add_diff_inverse2 sublist_drop sublist_imp_subseq)
  ultimately show ?thesis by (meson subseq_order.trans)
qed

lemma subseq_if: "(b \<Longrightarrow> subseq x z) \<Longrightarrow> (\<not> b \<Longrightarrow> subseq y z) \<Longrightarrow> subseq (if b then x else y) z"
  by simp

lemma subseq_case_option:
  "(v = None \<Longrightarrow> subseq x z) \<Longrightarrow> (\<And>w. v = Some w \<Longrightarrow> subseq (f w) z) \<Longrightarrow>
     subseq (case v of None \<Rightarrow> x | Some w \<Rightarrow> f w) z"
  by (cases v) simp_all

lemma subseq_case_prod:
  "(\<And>x y. v = (x, y) \<Longrightarrow> subseq (f x y) z) \<Longrightarrow> subseq (case v of (x, y) \<Rightarrow> f x y) z"
  by (cases v) simp

lemma subseq_link:
  assumes "linkAt line k = Some (s, n)" and "i \<le> k" and "subseq t (drop n line)"
  shows "subseq (s @ t) (drop i line)"
proof -
  obtain b where b: "s = slice line (k + 1) b" "b < n" "k \<le> b"
    using linkAt_shape [OF assms(1)] by blast
  show ?thesis
  proof (cases "k + 1 \<le> b")
    case True
    with b assms show ?thesis using subseq_slice [of i "k + 1" b n t line] by simp
  next
    case False
    with b assms have "s = []" "i \<le> n" by (simp_all add: slice_def)
    with assms(3) show ?thesis by (simp add: subseq_skip)
  qed
qed

lemma inline_loop_subseq: "subseq (inline_loop line i) (drop i line)"
proof (induction "length line - i" arbitrary: i rule: less_induct)
  case less
  show ?case
  proof (cases "length line \<le> i")
    case False
    then have i: "i < length line" by simp
    have step: "subseq (inline_loop line j) (drop j line)" if "i < j" for j
      using less [of j] i that by simp
    then have skip: "subseq (inline_loop line j) (drop i line)" if "i < j" for j
      using subseq_skip [OF less_imp_le step] that by simp
    have keep: "subseq (line ! i # inline_loop line (i + 1)) (drop i line)"
      by (rule subseq_take1 [OF i step]) simp
    have esc: "subseq (line ! (i + 1) # inline_loop line (i + 2)) (drop i line)" if "i + 1 < length line"
      using subseq_take1 [of "i + 1" line "inline_loop line (i + 2)"] step [of "i + 2"] that
      by (intro subseq_skip [of i "i + 1"]) simp_all
    have angle: "subseq (slice line (i + 1) (i + e) @ inline_loop line (i + e + 1)) (drop i line)"
      if "0 < e" for e
      using subseq_slice [of i "i + 1" "i + e" "i + e + 1"] step [of "i + e + 1"] that by simp
    have link: "subseq (s @ inline_loop line n) (drop i line)" if "linkAt line k = Some (s, n)" "i \<le> k" for k s n
      using linkAt_greater [OF that(1)] that(2) by (intro subseq_link [OF that] step) simp
    show ?thesis
      unfolding inline_loop.simps [of line i] Let_def
      by (intro subseq_if subseq_case_option subseq_case_prod)
        (use i keep in \<open>auto intro: skip run_end_greater esc [simplified] angle [simplified] link\<close>)
  qed (simp add: inline_loop.simps)
qed

lemma trim_markers_loop_suffix: "suffix (trim_markers_loop line) line"
proof (induction line rule: trim_markers_loop.induct)
  case (1 line)
  show ?case
    by (subst trim_markers_loop.simps)
      (use 1 suffix_trim_marker [of line] in \<open>auto simp: Let_def intro: suffix_order.trans\<close>)
qed

lemma CutPrefix_suffix: "CutPrefix s p = Some rest \<Longrightarrow> suffix rest s"
  by (auto simp: CutPrefix_def suffix_drop split: if_splits)

lemma trimMarkers_suffix: "suffix (trimMarkers line) line"
  using trim_markers_loop_suffix [of line]
  by (auto simp: trimMarkers_def Let_def split: option.split
      dest!: CutPrefix_suffix intro: suffix_order.trans)

lemma solid_tableRow: "subseq (solid (tableRow U line)) (solid line)"
proof -
  have "subseq (concat (map (solid \<circ> TrimSpace U) cells)) (concat (map solid cells))" for cells
  proof (induction cells)
    case (Cons c cells)
    have "subseq (solid (TrimSpace U c)) (solid c)"
      by (simp add: subseq_solid sublist_imp_subseq)
    from list_emb_append_mono [OF this Cons] show ?case by simp
  qed simp
  then have "subseq (solid (tableRow U line)) (solid (concat (Split (Trim line ''|'') (CHR ''|''))))"
    by (simp add: tableRow_def solid_Join solid_concat)
  also have "subseq \<dots> (solid (Join (Split (Trim line ''|'') (CHR ''|'')) ''|''))"
    by (intro subseq_solid subseq_concat_Join)
  also have "subseq \<dots> (solid line)"
    by (simp add: Split_Join subseq_solid sublist_imp_subseq)
  finally (subseq_order.trans) show ?thesis .
qed

lemma plain_loop_solid: "subseq (solid (plain_loop U fence lines)) (solid (concat lines))"
proof (induction U fence lines rule: plain_loop.induct)
  case (2 U fence line lines)
  let ?t = "TrimSpace U line" and ?m = "trimMarkers (TrimSpace U line)"
  have m: "subseq (solid ?m) (solid line)"
    using trimMarkers_suffix [of ?t] sublist_TrimSpace [of U line]
    by (meson sublist_imp_subseq subseq_order.trans subseq_solid suffix_imp_subseq)
  have row: "subseq (solid (if HasPrefix ?m ''|'' then tableRow U ?m else ?m)) (solid line)"
    using m solid_tableRow [of U ?m] by (auto intro: subseq_order.trans)
  have inline: "subseq (solid (inlineText s)) (solid s)" for s
    using inline_loop_subseq [of s 0] by (simp add: inlineText_def subseq_solid)
  have out: "subseq (solid (inlineText (if HasPrefix ?m ''|'' then tableRow U ?m else ?m))) (solid line)"
    by (rule subseq_order.trans [OF inline row])
  show ?case
  proof (cases "fence = []")
    case True
    consider (fence) "fenceOf ?t \<noteq> []" | (rule) "fenceOf ?t = []" "isRule ?t \<or> isTableDivider ?t"
      | (words) "fenceOf ?t = []" "\<not> (isRule ?t \<or> isTableDivider ?t)"
      by blast
    then show ?thesis
    proof cases
      case fence
      with True 2(3) show ?thesis by (auto simp: Let_def intro: subseq_drop_many)
    next
      case rule
      with True 2(4) show ?thesis by (auto simp: Let_def intro: subseq_drop_many)
    next
      case words
      with True 2(5) out show ?thesis
        by (auto simp: Let_def intro: list_emb_append_mono)
    qed
  next
    case False
    with 2(1,2) show ?thesis
      by (auto simp: Let_def intro: subseq_drop_many list_emb_append_mono)
  qed
qed simp

text \<open>
  Taking the markdown out of a document reorders and invents nothing: apart from blanks and
  line ends, the characters of the plain text are characters of the source, in their order.
\<close>

theorem plainText_subseq: "subseq (solid (plainText U md)) (solid md)"
proof (cases "md = []")
  case False
  have "subseq (solid (plainText U md)) (solid (concat (Split md (CHR 0x0A))))"
    using False by (simp add: plainText_def plain_loop_solid)
  also have "subseq \<dots> (solid (Join (Split md (CHR 0x0A)) [CHR 0x0A]))"
    by (intro subseq_solid subseq_concat_Join)
  finally (subseq_order.trans) show ?thesis
    by (simp add: Split_Join)
qed (simp add: plainText_def)

end
