(* ===== verification/Go_Time.thy ===== *)
theory Go_Time
  imports Go_Text
begin

text \<open>
  The part of Go's \<open>time\<close> and \<open>strconv\<close> packages that query parsing rests on: the proleptic
  Gregorian calendar, \<open>Time.AddDate\<close>, \<open>time.Parse\<close> with the layout \<open>time.DateOnly\<close> and
  \<open>strconv.Atoi\<close>. No file of the repository is modelled here.

  An instant is a number of nanoseconds since Go's zero time, 1 January of year 1 UTC. The time
  zone database belongs to the machine the program runs on, so a location is its lookup: for a
  second since the zero time, the offset from UTC in force and the bounds of the period it is in
  force in. Instants are unbounded integers; the range of \<open>time.Time\<close>, some 292 billion years, is
  not modelled.
\<close>

type_synonym zone = "int \<Rightarrow> int \<times> int \<times> int"

definition Second :: int where "Second = 1000000000"
definition Day :: int where "Day = 86400 * Second"

definition is_leap :: "int \<Rightarrow> bool" where
  "is_leap y \<longleftrightarrow> y mod 4 = 0 \<and> (y mod 100 \<noteq> 0 \<or> y mod 400 = 0)"

definition days_before_year :: "int \<Rightarrow> int" where
  "days_before_year y = 365 * (y - 1) + (y - 1) div 4 - (y - 1) div 100 + (y - 1) div 400"

definition month_starts :: "bool \<Rightarrow> int list" where
  "month_starts leap =
     (if leap then [0, 31, 60, 91, 121, 152, 182, 213, 244, 274, 305, 335]
      else [0, 31, 59, 90, 120, 151, 181, 212, 243, 273, 304, 334])"

definition daysIn :: "int \<Rightarrow> int \<Rightarrow> int" where
  "daysIn m y =
     (if m = 2 then (if is_leap y then 29 else 28)
      else if m = 4 \<or> m = 6 \<or> m = 9 \<or> m = 11 then 30 else 31)"

text \<open>The day number of a date; the month is first brought into its range, as \<open>Date\<close> does.\<close>

definition day_number :: "int \<Rightarrow> int \<Rightarrow> int \<Rightarrow> int" where
  "day_number y m d =
     (let y' = y + (m - 1) div 12; m' = (m - 1) mod 12
      in days_before_year y' + month_starts (is_leap y') ! nat m' + d - 1)"

definition year_day :: "int \<Rightarrow> int \<times> int" where
  "year_day n =
     (let a = n div 146097; r = n mod 146097;
          b = min 3 (r div 36524); r = r - 36524 * b;
          c = r div 1461; r = r mod 1461;
          e = min 3 (r div 365)
      in (400 * a + 100 * b + 4 * c + e + 1, r - 365 * e))"

definition date_of :: "int \<Rightarrow> int \<times> int \<times> int" where
  "date_of n =
     (let (y, yday) = year_day n;
          starts = month_starts (is_leap y);
          m = length (filter (\<lambda>s. s \<le> yday) starts)
      in (y, int m, yday - starts ! (m - 1) + 1))"

definition zone_offset :: "zone \<Rightarrow> gtime \<Rightarrow> int" where
  "zone_offset z t = fst (z (t div Second)) * Second"

text \<open>\<open>Date\<close>: from a wall clock reading, given as nanoseconds, to the instant.\<close>

definition of_wall :: "zone \<Rightarrow> int \<Rightarrow> gtime" where
  "of_wall z wall =
     (let (offset, start, stop) = z (wall div Second) in
      if offset = 0 then wall
      else
        let utc = wall div Second - offset;
            offset = (if utc < start \<or> stop \<le> utc then fst (z utc) else offset)
        in wall - offset * Second)"

definition AddDate :: "zone \<Rightarrow> gtime \<Rightarrow> int \<Rightarrow> int \<Rightarrow> int \<Rightarrow> gtime" where
  "AddDate z t years months days =
     (let wall = t + zone_offset z t;
          (y, m, d) = date_of (wall div Day)
      in of_wall z (day_number (y + years) (m + months) (d + days) * Day + wall mod Day))"

definition UTC :: zone where
  "UTC t = (0, 0, 0)"

section \<open>Numbers and dates as text\<close>

definition wrap64 :: "int \<Rightarrow> int" where
  "wrap64 n = (n + 2 ^ 63) mod 2 ^ 64 - 2 ^ 63"

definition digits :: "string \<Rightarrow> nat option" where
  "digits s = (if s \<noteq> '''' \<and> list_all is_digit_char s then Some (digits_value s) else None)"

definition Atoi :: "string \<Rightarrow> int option" where
  "Atoi s =
     (let (neg, ds) = (case CutPrefix s ''-'' of
                         Some ds \<Rightarrow> (True, ds)
                       | None \<Rightarrow> (False, case CutPrefix s ''+'' of Some ds \<Rightarrow> ds | None \<Rightarrow> s))
      in case digits ds of
           None \<Rightarrow> None
         | Some n \<Rightarrow>
             let v = (if neg then - int n else int n)
             in if - (2 ^ 63) \<le> v \<and> v < 2 ^ 63 then Some v else None)"

text \<open>\<open>time.Parse(time.DateOnly, s)\<close>: exactly \<open>yyyy-mm-dd\<close>, a date that exists, at midnight UTC.\<close>

definition date_from :: "string \<Rightarrow> string \<Rightarrow> string \<Rightarrow> gtime option" where
  "date_from ys ms ds =
     (case (digits ys, digits ms, digits ds) of
        (Some y, Some m, Some d) \<Rightarrow>
          if int m < 1 \<or> 12 < int m then None
          else if int d < 1 \<or> daysIn (int m) (int y) < int d then None
          else Some (day_number (int y) (int m) (int d) * Day)
      | _ \<Rightarrow> None)"

definition ParseDateOnly :: "string \<Rightarrow> gtime option" where
  "ParseDateOnly s =
     (case s of
        [y1, y2, y3, y4, h1, m1, m2, h2, d1, d2] \<Rightarrow>
          if h1 = CHR ''-'' \<and> h2 = CHR ''-'' then date_from [y1, y2, y3, y4] [m1, m2] [d1, d2] else None
      | _ \<Rightarrow> None)"

section \<open>The calendar\<close>

lemma div_of_digits: "0 \<le> e \<Longrightarrow> e < k \<Longrightarrow> (k * x + e) div k = (x :: int)"
  by simp

lemma year_day_shape:
  assumes eq: "year_day n = (y, yday)"
  shows "n = days_before_year y + yday" "0 \<le> yday"
proof -
  define a r where "a = n div 146097" and "r = n mod 146097"
  define b r1 where "b = min 3 (r div 36524)" and "r1 = r - 36524 * b"
  define c r2 where "c = r1 div 1461" and "r2 = r1 mod 1461"
  define e where "e = min 3 (r2 div 365)"
  have y: "y = 400 * a + 100 * b + 4 * c + e + 1" "yday = r2 - 365 * e"
    using eq unfolding year_day_def Let_def a_def [symmetric] r_def [symmetric] b_def [symmetric]
      r1_def [symmetric] c_def [symmetric] r2_def [symmetric] e_def [symmetric] by simp_all
  have r: "0 \<le> r" "r < 146097" "n = 146097 * a + r"
    by (simp_all add: a_def r_def)
  have b: "0 \<le> b" "b \<le> 3" "0 \<le> r1" "r1 \<le> 36524"
    using r(1,2) unfolding b_def r1_def by (auto simp: min_def)
  have c: "0 \<le> c" "c \<le> 24" "0 \<le> r2" "r2 < 1461" "r1 = 1461 * c + r2"
    using b(3,4) unfolding c_def r2_def by auto
  have e: "0 \<le> e" "e \<le> 3"
    using c(3) unfolding e_def by (auto simp: min_def)
  have k: "400 * a + 100 * b + 4 * c + e = 4 * (100 * a + 25 * b + c) + e"
    "400 * a + 100 * b + 4 * c + e = 100 * (4 * a + b) + (4 * c + e)"
    "400 * a + 100 * b + 4 * c + e = 400 * a + (100 * b + 4 * c + e)"
    by simp_all
  have "(400 * a + 100 * b + 4 * c + e) div 4 = 100 * a + 25 * b + c"
    unfolding k(1) by (rule div_of_digits) (use e in linarith)+
  moreover have "(400 * a + 100 * b + 4 * c + e) div 100 = 4 * a + b"
    unfolding k(2) by (rule div_of_digits) (use c e in linarith)+
  moreover have "(400 * a + 100 * b + 4 * c + e) div 400 = a"
    unfolding k(3) by (rule div_of_digits) (use b c e in linarith)+
  ultimately have "days_before_year y = 365 * (400 * a + 100 * b + 4 * c + e) + (100 * a + 25 * b + c) - (4 * a + b) + a"
    by (simp add: days_before_year_def y(1))
  then show "n = days_before_year y + yday"
    using r(3) c(5) y(2) by (simp add: r1_def)
  have "365 * e \<le> r2"
    unfolding e_def by (rule order.trans [of _ "365 * (r2 div 365)"]) simp_all
  then show "0 \<le> yday"
    by (simp add: y(2))
qed

lemma month_starts_length [simp]: "length (month_starts leap) = 12"
  by (simp add: month_starts_def)

lemma day_number_date_of:
  assumes "date_of n = (y, m, d)"
  shows "day_number y m d = n" "1 \<le> m" "m \<le> 12"
proof -
  obtain yday where yd: "year_day n = (y, yday)"
    using assms by (auto simp: date_of_def Let_def split: prod.splits)
  define starts where "starts = month_starts (is_leap y)"
  define k where "k = length (filter (\<lambda>s. s \<le> yday) starts)"
  have mk: "m = int k" "d = yday - starts ! (k - 1) + 1"
    using assms yd by (simp_all add: date_of_def Let_def k_def starts_def)
  have "0 < k"
    using year_day_shape(2) [OF yd] by (simp add: k_def starts_def month_starts_def)
  moreover have "k \<le> 12"
    using length_filter_le [of "\<lambda>s. s \<le> yday" starts] by (simp add: k_def starts_def)
  ultimately show m: "1 \<le> m" "m \<le> 12" by (simp_all add: mk)
  have "(m - 1) div 12 = 0" "(m - 1) mod 12 = m - 1" "nat (m - 1) = k - 1"
    using m mk(1) by auto
  then show "day_number y m d = n"
    using year_day_shape(1) [OF yd] mk(2)
    by (simp add: day_number_def Let_def starts_def)
qed

definition fixed_zone :: "zone \<Rightarrow> bool" where
  "fixed_zone z \<longleftrightarrow> (\<exists>offset. \<forall>t. fst (z t) = offset)"

text \<open>Where the offset never changes, adding days adds that many times 24 hours.\<close>

lemma AddDate_days:
  assumes "fixed_zone z"
  shows "AddDate z t 0 0 n = t + n * Day"
proof -
  obtain offset where z: "\<And>t. fst (z t) = offset"
    using assms by (auto simp: fixed_zone_def)
  let ?wall = "t + offset * Second"
  obtain y m d where date: "date_of (?wall div Day) = (y, m, d)" by (cases "date_of (?wall div Day)")
  have "day_number y m (d + n) = day_number y m d + n"
    by (simp add: day_number_def Let_def)
  then have "day_number y m (d + n) * Day + ?wall mod Day = ?wall + n * Day"
    using day_number_date_of(1) [OF date] by (simp add: algebra_simps)
  moreover have "of_wall z w = w - offset * Second" for w
    by (auto simp: of_wall_def Let_def z split: prod.split) (metis fst_conv z)+
  ultimately show ?thesis
    by (simp add: AddDate_def zone_offset_def z date)
qed

lemma date_from_Some:
  "date_from ys ms ds = Some t \<Longrightarrow> t mod Day = 0 \<and> list_all is_digit_char (ys @ ms @ ds)"
  by (auto simp: date_from_def digits_def split: if_splits option.splits)

lemma ParseDateOnly_Some:
  assumes "ParseDateOnly s = Some t"
  obtains y1 y2 y3 y4 m1 m2 d1 d2 where "s = [y1, y2, y3, y4, CHR ''-'', m1, m2, CHR ''-'', d1, d2]"
    "list_all is_digit_char [y1, y2, y3, y4, m1, m2, d1, d2]" "t mod Day = 0"
proof -
  obtain y1 y2 y3 y4 h1 m1 m2 h2 d1 d2 where s: "s = [y1, y2, y3, y4, h1, m1, m2, h2, d1, d2]"
    using assms by (auto simp: ParseDateOnly_def split: list.splits)
  with assms have "h1 = CHR ''-''" "h2 = CHR ''-''"
    and d: "date_from [y1, y2, y3, y4] [m1, m2] [d1, d2] = Some t"
    by (simp_all add: ParseDateOnly_def split: if_splits)
  with s date_from_Some [OF d] that show thesis by simp
qed

lemma fixed_UTC [simp]: "fixed_zone UTC"
  by (simp add: fixed_zone_def UTC_def)

end
