(* ===== verification/Index_Query.thy ===== *)
theory Index_Query
  imports Store_Request Go_Time
begin

text \<open>
  Queries, from package \<open>index\<close>: the query terms (\<open>token.go\<close>), the \<open>Query\<close> record and the
  request it stands for (\<open>index.go\<close>), and what somebody types turned into a query
  (\<open>parse.go\<close>). \<open>time.Now()\<close> and the local time zone are the arguments \<open>now\<close> and \<open>z\<close>.
\<close>

section \<open>Terms (token.go)\<close>

definition stopwords :: "string list" where
  "stopwords = [''a'', ''an'', ''and'', ''are'', ''as'', ''at'', ''be'', ''but'', ''by'', ''for'',
     ''from'', ''how'', ''in'', ''is'', ''it'', ''of'', ''on'', ''or'', ''that'', ''the'', ''this'',
     ''to'', ''was'', ''what'', ''when'', ''where'', ''which'', ''with'']"

fun dedupe_terms_loop :: "string list \<Rightarrow> string list \<Rightarrow> string list \<Rightarrow> string list" where
  "dedupe_terms_loop seen out [] = out"
| "dedupe_terms_loop seen out (t # ts) =
     (if t \<in> set seen then dedupe_terms_loop seen out ts
      else dedupe_terms_loop (t # seen) (out @ [t]) ts)"

definition dedupe_terms :: "string list \<Rightarrow> string list" where
  "dedupe_terms terms = dedupe_terms_loop [] [] terms"

definition queryTerms :: "unicode \<Rightarrow> string \<Rightarrow> string list" where
  "queryTerms U q =
     (let all = Tokenize U q; kept = filter (\<lambda>t. t \<notin> set stopwords) all
      in if length kept = 0 then all else dedupe_terms kept)"

section \<open>Queries (index.go)\<close>

type_synonym sort_order = string

definition ByRelevance :: sort_order where "ByRelevance = ''''"
definition ByRecent :: sort_order where "ByRecent = ''recency''"

record query =
  q_Text :: string
  q_Sources :: "string list"
  q_Kinds :: "doc_kind list"
  q_Containers :: "string list"
  q_Authors :: "string list"
  q_Owners :: "string list"
  q_Since :: gtime
  q_Until :: gtime
  q_Sort :: sort_order
  q_Limit :: int
  q_Offset :: int

definition zero_query :: query where
  "zero_query = \<lparr>q_Text = '''', q_Sources = [], q_Kinds = [], q_Containers = [], q_Authors = [],
     q_Owners = [], q_Since = 0, q_Until = 0, q_Sort = ByRelevance, q_Limit = 0, q_Offset = 0\<rparr>"

definition Request :: "unicode \<Rightarrow> query \<Rightarrow> request" where
  "Request U q =
     \<lparr>rq_Terms = queryTerms U (q_Text q), rq_Sources = q_Sources q, rq_Kinds = q_Kinds q,
      rq_Containers = q_Containers q, rq_Authors = q_Authors q, rq_Owners = q_Owners q,
      rq_Since = q_Since q, rq_Until = q_Until q\<rparr>"

section \<open>Tokens (parse.go)\<close>

record token =
  tk_text :: string
  tk_quoted :: bool

definition flush_token :: "string \<Rightarrow> bool \<Rightarrow> token list \<Rightarrow> token list" where
  "flush_token cur quoted out =
     (if 0 < length cur then out @ [\<lparr>tk_text = cur, tk_quoted = quoted\<rparr>] else out)"

fun tokens_loop :: "token list \<Rightarrow> string \<Rightarrow> bool \<Rightarrow> bool \<Rightarrow> rune list \<Rightarrow> token list" where
  "tokens_loop out cur inQ quoted [] = flush_token cur quoted out"
| "tokens_loop out cur inQ quoted (r # rs) =
     (if r = 34 then tokens_loop out cur (\<not> inQ) True rs
      else if \<not> inQ \<and> (r = 32 \<or> r = 9 \<or> r = 10 \<or> r = 13)
      then tokens_loop (flush_token cur quoted out) '''' inQ False rs
      else tokens_loop out (cur @ EncodeRune r) inQ quoted rs)"

definition tokens :: "string \<Rightarrow> token list" where
  "tokens input = tokens_loop [] '''' False False (runes input)"

section \<open>Dates (parse.go)\<close>

definition parseDay :: "unicode \<Rightarrow> string \<Rightarrow> gtime option" where
  "parseDay U s = ParseDateOnly (TrimSpace U s)"

definition endOfDay :: "gtime \<Rightarrow> gtime" where
  "endOfDay t = AddDate UTC t 0 0 1 - 1"

definition parseSpan :: "zone \<Rightarrow> string \<Rightarrow> gtime \<Rightarrow> gtime option" where
  "parseSpan z s now =
     (if length s < 2 then None
      else
        case Atoi (butlast s) of
          None \<Rightarrow> None
        | Some n \<Rightarrow>
            if n \<le> 0 then None
            else if last s = CHR ''d'' then Some (AddDate z now 0 0 (- n))
            else if last s = CHR ''w'' then Some (AddDate z now 0 0 (wrap64 (-7 * n)))
            else if last s = CHR ''m'' then Some (AddDate z now 0 (- n) 0)
            else if last s = CHR ''y'' then Some (AddDate z now (- n) 0 0)
            else None)"

text \<open>\<open>strings.Cut(value, "..")\<close>.\<close>

fun cut_dots :: "string \<Rightarrow> string \<Rightarrow> (string \<times> string) option" where
  "cut_dots pre [] = None"
| "cut_dots pre (c # cs) =
     (if c = CHR ''.'' \<and> HasPrefix cs ''.'' then Some (pre, drop 1 cs) else cut_dots (pre @ [c]) cs)"

definition parseWhen :: "unicode \<Rightarrow> zone \<Rightarrow> string \<Rightarrow> gtime \<Rightarrow> (gtime \<times> gtime) option" where
  "parseWhen U z raw now =
     (let s = TrimSpace U (ToLower U raw) in
      if s = ''today'' then Some (AddDate z now 0 0 (-1), 0)
      else if s = ''week'' \<or> s = ''this-week'' then Some (AddDate z now 0 0 (-7), 0)
      else if s = ''month'' \<or> s = ''this-month'' then Some (AddDate z now 0 (-1) 0, 0)
      else if s = ''quarter'' then Some (AddDate z now 0 (-3) 0, 0)
      else if s = ''year'' \<or> s = ''this-year'' then Some (AddDate z now (-1) 0 0, 0)
      else
        case cut_dots '''' s of
          Some (lo, hi) \<Rightarrow>
            (case (parseDay U lo, parseDay U hi) of
               (Some since, Some until) \<Rightarrow> Some (since, endOfDay until)
             | _ \<Rightarrow> None)
        | None \<Rightarrow>
            (case CutPrefix s ''>'' of
               Some after \<Rightarrow> (case parseDay U after of Some t \<Rightarrow> Some (t, 0) | None \<Rightarrow> None)
             | None \<Rightarrow>
                 (case CutPrefix s ''<'' of
                    Some below \<Rightarrow>
                      (case parseDay U below of Some t \<Rightarrow> Some (0, endOfDay t) | None \<Rightarrow> None)
                  | None \<Rightarrow>
                      (case parseSpan z s now of
                         Some d \<Rightarrow> Some (d, 0)
                       | None \<Rightarrow>
                           (case parseDay U s of Some t \<Rightarrow> Some (t, endOfDay t) | None \<Rightarrow> None)))))"

section \<open>Parsing (parse.go)\<close>

text \<open>One token: the query so far, the words of its text so far, and the two after the token.\<close>

definition parse_token ::
  "unicode \<Rightarrow> zone \<Rightarrow> gtime \<Rightarrow> query \<times> string list \<Rightarrow> token \<Rightarrow> query \<times> string list" where
  "parse_token U z now st tok =
     (let (q, txt) = st in
      case Cut_byte (tk_text tok) (CHR '':'') of
        None \<Rightarrow> (q, txt @ [tk_text tok])
      | Some (field, val) \<Rightarrow>
          if tk_quoted tok \<or> val = '''' then (q, txt @ [tk_text tok])
          else
            let val = Trim val [CHR 0x22]; field = ToLower U field in
            if field = ''app'' \<or> field = ''source''
            then (q\<lparr>q_Sources := q_Sources q @ [ToLower U val]\<rparr>, txt)
            else if field = ''type'' \<or> field = ''kind''
            then (q\<lparr>q_Kinds := q_Kinds q @ [ToLower U val]\<rparr>, txt)
            else if field = ''in'' \<or> field = ''container''
            then (q\<lparr>q_Containers := q_Containers q @ [val]\<rparr>, txt)
            else if field = ''from'' \<or> field = ''author'' \<or> field = ''by''
            then (q\<lparr>q_Authors := q_Authors q @ [val]\<rparr>, txt)
            else if field = ''owner'' then (q\<lparr>q_Owners := q_Owners q @ [val]\<rparr>, txt)
            else if field = ''updated'' \<or> field = ''modified'' then
              (case parseWhen U z val now of
                 Some (since, until) \<Rightarrow> (q\<lparr>q_Since := since, q_Until := until\<rparr>, txt)
               | None \<Rightarrow> (q, txt @ [tk_text tok]))
            else if field = ''sort'' then
              (if EqualFold U val ''recent'' \<or> EqualFold U val ''recency''
               then (q\<lparr>q_Sort := ByRecent\<rparr>, txt) else (q, txt @ [tk_text tok]))
            else (q, txt @ [tk_text tok]))"

definition Parse :: "unicode \<Rightarrow> zone \<Rightarrow> gtime \<Rightarrow> string \<Rightarrow> query" where
  "Parse U z now input =
     (let (q, txt) = foldl (parse_token U z now) (zero_query, []) (tokens input)
      in q\<lparr>q_Text := Join txt '' ''\<rparr>)"

section \<open>Query terms\<close>

lemma dedupe_terms_loop_foldl:
  "set seen = set out \<Longrightarrow> dedupe_terms_loop seen out ts = foldl add_new out ts"
  by (induction ts arbitrary: seen out) (auto simp: add_new_def)

lemma dedupe_terms_foldl: "dedupe_terms ts = foldl add_new [] ts"
  by (simp add: dedupe_terms_def dedupe_terms_loop_foldl)

text \<open>
  The terms of a query are its tokens without the stopwords, each once; a query of stopwords
  only keeps them all, and only a query without a single term has none.
\<close>

theorem queryTerms_exact:
  "(if set (Tokenize U q) \<subseteq> set stopwords then queryTerms U q = Tokenize U q
    else set (queryTerms U q) = set (Tokenize U q) - set stopwords \<and> distinct (queryTerms U q)) \<and>
   (queryTerms U q = [] \<longleftrightarrow> Tokenize U q = [])"
proof -
  have dedupe: "set (dedupe_terms xs) = set xs" "distinct (dedupe_terms xs)" for xs
    by (simp_all add: dedupe_terms_foldl)
  show ?thesis
  proof (cases "set (Tokenize U q) \<subseteq> set stopwords")
    case True
    then have "filter (\<lambda>t. t \<notin> set stopwords) (Tokenize U q) = []"
      by (auto simp: filter_empty_conv)
    then have "queryTerms U q = Tokenize U q"
      by (simp add: queryTerms_def)
    with True show ?thesis by simp
  next
    case False
    then have some: "filter (\<lambda>t. t \<notin> set stopwords) (Tokenize U q) \<noteq> []"
      by (auto simp: filter_empty_conv)
    then have q: "queryTerms U q = dedupe_terms (filter (\<lambda>t. t \<notin> set stopwords) (Tokenize U q))"
      by (simp add: queryTerms_def)
    have "queryTerms U q \<noteq> []"
      using some dedupe(1) unfolding q by (metis set_empty)
    moreover have "Tokenize U q \<noteq> []" using some by auto
    ultimately show ?thesis
      using False dedupe unfolding q by (simp add: set_diff_eq)
  qed
qed

section \<open>Tokens\<close>

definition blank_byte :: "char \<Rightarrow> bool" where
  "blank_byte c \<longleftrightarrow> c \<in> {CHR '' '', CHR 0x09, CHR 0x0A, CHR 0x0D}"

definition token_ok :: "token \<Rightarrow> bool" where
  "token_ok tk \<longleftrightarrow>
     tk_text tk \<noteq> '''' \<and> CHR 0x22 \<notin> set (tk_text tk) \<and>
     (\<not> tk_quoted tk \<longrightarrow> (\<forall>c \<in> set (tk_text tk). \<not> blank_byte c))"

lemma byte_of_eq: "n < 256 \<Longrightarrow> byte_of c = n \<longleftrightarrow> c = of_byte n"
  by (metis byte_of_of_byte of_byte_of)

lemma EncodeRune_bytes: "c \<in> set (EncodeRune r) \<Longrightarrow> (r < 128 \<and> byte_of c = r) \<or> 128 \<le> byte_of c"
proof -
  have enc: "128 \<le> byte_of (of_byte (n + m))" if "128 \<le> n" "n + m < 256" for n m
    using that by simp
  have three: "\<forall>c \<in> set (encode3 r). 128 \<le> byte_of c" if "r < 65536" for r
  proof -
    have "r div 4096 < 16" using that by simp
    then show ?thesis by (simp add: encode3_def enc)
  qed
  assume c: "c \<in> set (EncodeRune r)"
  consider "r < 128" | "128 \<le> r" "r < 2048" | "2048 \<le> r" "0xD800 \<le> r \<and> r \<le> 0xDFFF \<or> 0x10FFFF < r"
    | "2048 \<le> r" "\<not> (0xD800 \<le> r \<and> r \<le> 0xDFFF \<or> 0x10FFFF < r)" "r < 65536"
    | "65536 \<le> r" "r \<le> 0x10FFFF" by linarith
  then show ?thesis
  proof cases
    case 1
    with c show ?thesis by (simp add: EncodeRune_def)
  next
    case 2
    then have "r div 64 < 32" by simp
    with c 2 show ?thesis by (auto simp: EncodeRune_def enc)
  next
    case 3
    with c show ?thesis using three [of RuneError] by (simp add: EncodeRune_def RuneError_def)
  next
    case 4
    with c show ?thesis using three [of r] by (auto simp: EncodeRune_def split: if_splits)
  next
    case 5
    then have "r div 262144 < 16" by simp
    with c 5 show ?thesis by (auto simp: EncodeRune_def enc)
  qed
qed

lemma EncodeRune_plain:
  assumes "r \<noteq> 34"
  shows "CHR 0x22 \<notin> set (EncodeRune r)"
    "r \<noteq> 32 \<Longrightarrow> r \<noteq> 9 \<Longrightarrow> r \<noteq> 10 \<Longrightarrow> r \<noteq> 13 \<Longrightarrow> \<forall>c \<in> set (EncodeRune r). \<not> blank_byte c"
proof -
  show "CHR 0x22 \<notin> set (EncodeRune r)"
    using EncodeRune_bytes [of "CHR 0x22" r] assms by (auto simp: byte_of_def)
  show "\<forall>c \<in> set (EncodeRune r). \<not> blank_byte c" if "r \<noteq> 32" "r \<noteq> 9" "r \<noteq> 10" "r \<noteq> 13"
    using EncodeRune_bytes [of _ r] that by (fastforce simp: byte_of_def blank_byte_def)
qed

lemma flush_token_ok:
  assumes "\<forall>tk \<in> set out. token_ok tk" and "CHR 0x22 \<notin> set cur"
    and "\<not> quoted \<longrightarrow> (\<forall>c \<in> set cur. \<not> blank_byte c)"
  shows "\<forall>tk \<in> set (flush_token cur quoted out). token_ok tk"
  using assms by (simp add: flush_token_def token_ok_def)

lemma tokens_loop_ok:
  assumes "\<forall>tk \<in> set out. token_ok tk" and "CHR 0x22 \<notin> set cur"
    and "inQ \<longrightarrow> quoted" and "\<not> quoted \<longrightarrow> (\<forall>c \<in> set cur. \<not> blank_byte c)"
  shows "\<forall>tk \<in> set (tokens_loop out cur inQ quoted rs). token_ok tk"
  using assms
proof (induction out cur inQ quoted rs rule: tokens_loop.induct)
  case (1 out cur inQ quoted)
  then show ?case by (simp add: flush_token_ok)
next
  case (2 out cur inQ quoted r rs)
  have flushed: "\<forall>tk \<in> set (flush_token cur quoted out). token_ok tk"
    using 2(4,5,7) by (rule flush_token_ok)
  consider (quote) "r = 34" | (blank) "r \<noteq> 34" "\<not> inQ \<and> (r = 32 \<or> r = 9 \<or> r = 10 \<or> r = 13)"
    | (word) "r \<noteq> 34" "\<not> (\<not> inQ \<and> (r = 32 \<or> r = 9 \<or> r = 10 \<or> r = 13))" by blast
  then show ?case
  proof cases
    case quote
    with 2(1) 2(4,5) show ?thesis by simp
  next
    case blank
    with 2(2) flushed show ?thesis by simp
  next
    case word
    have "CHR 0x22 \<notin> set (cur @ EncodeRune r)"
      using 2(5) EncodeRune_plain(1) [OF word(1)] by simp
    moreover have "\<not> quoted \<longrightarrow> (\<forall>c \<in> set (cur @ EncodeRune r). \<not> blank_byte c)"
    proof (intro impI)
      assume "\<not> quoted"
      with 2(6,7) word(2) EncodeRune_plain(2) [OF word(1)]
      show "\<forall>c \<in> set (cur @ EncodeRune r). \<not> blank_byte c" by (simp add: ball_Un)
    qed
    ultimately have "\<forall>tk \<in> set (tokens_loop out (cur @ EncodeRune r) inQ quoted rs). token_ok tk"
      using 2(3) [OF word] 2(4,6) by blast
    with word show ?thesis by (simp only: tokens_loop.simps if_False)
  qed
qed

text \<open>
  A token is a non-empty run without a double quote, and one that no quote touched holds no
  blank.
\<close>

theorem tokens_ok: "\<forall>tk \<in> set (tokens input). token_ok tk"
  unfolding tokens_def by (rule tokens_loop_ok) simp_all

section \<open>What Parse makes of them\<close>

definition plain_value :: "string \<Rightarrow> bool" where
  "plain_value v \<longleftrightarrow> v \<noteq> '''' \<and> CHR 0x22 \<notin> set v \<and> (\<forall>c \<in> set v. \<not> blank_byte c)"

lemma Cut_byte_Some: "Cut_byte s c = Some (x, y) \<Longrightarrow> s = x @ c # y \<and> c \<notin> set x"
proof -
  assume cut: "Cut_byte s c = Some (x, y)"
  then have "dropWhile (\<lambda>a. a \<noteq> c) s \<noteq> []"
    by (auto simp: Cut_byte_def split: if_splits)
  then obtain r where r: "dropWhile (\<lambda>a. a \<noteq> c) s = c # r"
    by (metis (mono_tags) hd_Cons_tl hd_dropWhile)
  then have "s = takeWhile (\<lambda>a. a \<noteq> c) s @ c # r"
    by (metis takeWhile_dropWhile_id)
  with cut r show ?thesis
    by (auto simp: Cut_byte_def split: if_splits dest: set_takeWhileD)
qed

lemma Trim_quotes: "CHR 0x22 \<notin> set v \<Longrightarrow> Trim v [CHR 0x22] = v"
proof -
  have "dropWhile (\<lambda>c. c \<in> set [CHR 0x22]) w = w" if "CHR 0x22 \<notin> set w" for w
    using that by (cases w) auto
  then show "CHR 0x22 \<notin> set v \<Longrightarrow> Trim v [CHR 0x22] = v"
    by (simp add: Trim_def TrimLeft_def TrimRight_def)
qed

definition filters_ok :: "query \<Rightarrow> bool" where
  "filters_ok q \<longleftrightarrow> (\<forall>v \<in> set (q_Containers q @ q_Authors q @ q_Owners q). plain_value v)"

lemma parse_token_filters:
  assumes "token_ok tok" and "filters_ok (fst st)"
  shows "filters_ok (fst (parse_token U z now st tok))"
proof (cases "Cut_byte (tk_text tok) (CHR '':'')")
  case None
  with assms show ?thesis by (cases st) (simp add: parse_token_def)
next
  case (Some fv)
  obtain field v where fv: "fv = (field, v)" by (cases fv)
  have t: "tk_text tok = field @ CHR '':'' # v"
    using Cut_byte_Some Some fv by simp
  show ?thesis
  proof (cases "tk_quoted tok \<or> v = ''''")
    case True
    with Some fv assms show ?thesis by (cases st) (simp add: parse_token_def)
  next
    case False
    with assms(1) t have "plain_value v" "Trim v [CHR 0x22] = v"
      by (auto simp: token_ok_def plain_value_def Trim_quotes)
    with False Some fv assms(2) show ?thesis
      by (cases st) (auto simp: parse_token_def filters_ok_def Let_def split: option.split)
  qed
qed

text \<open>
  A container, author or owner filter that was typed is never empty and holds neither a blank
  nor a quote: the quotes that keep a run together also keep it from being an operator, so a
  container whose name has a blank cannot be filtered on from the search box.
\<close>

theorem Parse_filters_plain:
  "\<forall>v \<in> set (q_Containers (Parse U z now input) @ q_Authors (Parse U z now input) @
       q_Owners (Parse U z now input)). plain_value v"
proof -
  have "filters_ok (fst (foldl (parse_token U z now) st toks))"
    if "\<forall>tk \<in> set toks. token_ok tk" "filters_ok (fst st)" for toks st
    using that
  proof (induction toks arbitrary: st)
    case (Cons tok toks)
    then have "filters_ok (fst (parse_token U z now st tok))"
      by (intro parse_token_filters) simp_all
    with Cons show ?case by simp
  qed simp
  moreover have "\<forall>tk \<in> set (tokens input). token_ok tk"
    unfolding tokens_def by (rule tokens_loop_ok) simp_all
  moreover have "filters_ok (fst (zero_query, []))"
    by (simp add: filters_ok_def zero_query_def)
  ultimately have "filters_ok (fst (foldl (parse_token U z now) (zero_query, []) (tokens input)))"
    by blast
  then show ?thesis
    by (simp add: Parse_def filters_ok_def split: prod.split)
qed

lemma parse_token_text:
  assumes "tk_quoted tok \<or> CHR '':'' \<notin> set (tk_text tok)"
  shows "parse_token U z now (q, ws) tok = (q, ws @ [tk_text tok])"
  using assms by (auto simp: parse_token_def Cut_byte_def)

text \<open>
  What holds no operator is text: when every token was quoted or has no colon, the query has
  no filter, no date and no order, and its text is the tokens with one blank between them.
\<close>

theorem Parse_text_only:
  assumes "\<forall>tk \<in> set (tokens input). tk_quoted tk \<or> CHR '':'' \<notin> set (tk_text tk)"
  shows "Parse U z now input = zero_query\<lparr>q_Text := Join (map tk_text (tokens input)) '' ''\<rparr>"
proof -
  have "foldl (parse_token U z now) (q, ws) toks = (q, ws @ map tk_text toks)"
    if "\<forall>tk \<in> set toks. tk_quoted tk \<or> CHR '':'' \<notin> set (tk_text tk)" for toks q ws
    using that by (induction toks arbitrary: ws) (simp_all add: parse_token_text)
  with assms show ?thesis by (simp add: Parse_def)
qed

section \<open>Dates\<close>

lemma Day_pos: "0 < Day"
  by (simp add: Day_def Second_def)

lemma endOfDay_eq: "endOfDay t = t + Day - 1"
  by (simp add: endOfDay_def AddDate_days)

lemma day_interval:
  assumes "t mod Day = 0"
  shows "t \<le> x \<longleftrightarrow> t div Day \<le> x div Day" "x \<le> endOfDay t \<longleftrightarrow> x div Day \<le> t div Day"
proof -
  have t: "t = t div Day * Day"
    using assms by (metis add.right_neutral div_mult_mod_eq)
  have x: "x = x div Day * Day + x mod Day" "0 \<le> x mod Day" "x mod Day < Day"
    using Day_pos by simp_all
  show "t \<le> x \<longleftrightarrow> t div Day \<le> x div Day"
  proof
    show "t \<le> x \<Longrightarrow> t div Day \<le> x div Day"
      using Day_pos by (intro zdiv_mono1)
    show "t div Day \<le> x div Day \<Longrightarrow> t \<le> x"
      using t x mult_right_mono [of "t div Day" "x div Day" Day] Day_pos by linarith
  qed
  have "endOfDay t div Day = t div Day"
  proof -
    have "endOfDay t = Day * (t div Day) + (Day - 1)"
      using t by (simp add: endOfDay_eq mult.commute)
    then show ?thesis
      using div_of_digits [of "Day - 1" Day "t div Day"] Day_pos by simp
  qed
  then show "x \<le> endOfDay t \<longleftrightarrow> x div Day \<le> t div Day"
  proof -
    have "x \<le> endOfDay t \<Longrightarrow> x div Day \<le> endOfDay t div Day"
      using Day_pos by (intro zdiv_mono1)
    moreover have "x \<le> endOfDay t" if "x div Day \<le> t div Day"
    proof -
      have "x div Day * Day \<le> t div Day * Day"
        using Day_pos by (intro mult_right_mono [OF that]) simp
      then show ?thesis
        unfolding endOfDay_eq using t x by linarith
    qed
    ultimately show ?thesis
      using \<open>endOfDay t div Day = t div Day\<close> by auto
  qed
qed

lemma runes_from_ascii:
  "is_ascii s \<Longrightarrow> runes_from i s = map (\<lambda>k. (i + k, byte_of (s ! k), 1)) [0..<length s]"
proof (induction s arbitrary: i)
  case (Cons c s)
  then have d: "DecodeRune (c # s) = (byte_of c, 1)" and "is_ascii s"
    by (simp_all add: RuneSelf_def)
  have "runes_from i (c # s) = (i, byte_of c, 1) # runes_from (i + 1) s"
    by (simp add: runes_from_Cons [OF d])
  also have "\<dots> = (i, byte_of c, 1) # map (\<lambda>k. (i + 1 + k, byte_of (s ! k), 1)) [0..<length s]"
    by (simp only: Cons.IH [OF \<open>is_ascii s\<close>])
  also have "\<dots> = map (\<lambda>k. (i + k, byte_of ((c # s) ! k), 1)) [0..<length (c # s)]"
    by (simp add: upt_conv_Cons map_Suc_upt [symmetric] comp_def del: upt_Suc)
  finally show ?case .
qed simp

lemma TrimSpace_solid:
  assumes "is_ascii s" and "\<forall>c \<in> set s. \<not> IsSpace U (byte_of c)"
  shows "TrimSpace U s = s"
proof (cases s)
  case (Cons c cs)
  define ts where "ts = runes_from 0 s"
  have ts: "ts = map (\<lambda>k. (k, byte_of (s ! k), 1)) [0..<length s]"
    by (simp add: ts_def runes_from_ascii [OF assms(1)])
  have "\<forall>x \<in> set ts. (case x of (i, r, w) \<Rightarrow> \<not> IsSpace U r)"
    using assms(2) by (auto simp: ts)
  then have f: "filter (\<lambda>(i, r, w). \<not> IsSpace U r) ts = ts"
    by (simp add: filter_id_conv)
  have "TrimSpace U s = (case ts of [] \<Rightarrow> [] | (i, r, w) # rest \<Rightarrow>
      (let (j, r', w') = last ((i, r, w) # rest) in take (j + w' - i) (drop i s)))"
    by (simp only: TrimSpace_def ts_def [symmetric] f)
  moreover have "hd ts = (0, byte_of c, 1)" "ts \<noteq> []"
    by (simp_all add: ts Cons hd_map del: upt_Suc)
  moreover have "last ts = (length s - 1, byte_of (s ! (length s - 1)), 1)"
    by (simp add: ts Cons last_map del: upt_Suc)
  moreover obtain x rest where "ts = x # rest"
    using \<open>ts \<noteq> []\<close> by (cases ts) auto
  ultimately have "TrimSpace U s = take (length s - 1 + 1 - 0) (drop 0 s)"
    by simp
  then show ?thesis by (simp add: Cons)
qed (simp add: TrimSpace_def)

lemma digit_solid: "is_digit_char c \<Longrightarrow> byte_of c < 128 \<and> \<not> IsSpace U (byte_of c)"
  by (simp add: is_digit_char_def IsSpace_def)

lemma cut_dots_None: "CHR ''.'' \<notin> set s \<Longrightarrow> cut_dots pre s = None"
  by (induction s arbitrary: pre) auto

text \<open>
  A date means the whole of its UTC day: \<open>updated:\<close> a day keeps exactly the instants of that
  day, so a document modified in the afternoon is in.
\<close>

theorem parseWhen_day:
  assumes "TrimSpace U (ToLower U raw) = s" and "ParseDateOnly s = Some t"
  shows "\<exists>since until. parseWhen U z raw now = Some (since, until) \<and>
    (\<forall>x. since \<le> x \<and> x \<le> until \<longleftrightarrow> x div Day = t div Day)"
proof -
  obtain y1 y2 y3 y4 m1 m2 d1 d2 where s: "s = [y1, y2, y3, y4, CHR ''-'', m1, m2, CHR ''-'', d1, d2]"
    and dg: "list_all is_digit_char [y1, y2, y3, y4, m1, m2, d1, d2]" and t: "t mod Day = 0"
    using assms(2) by (rule ParseDateOnly_Some)
  have "byte_of (CHR ''-'') = 45" by (simp add: byte_of_def)
  then have "is_ascii s" "\<forall>c \<in> set s. \<not> IsSpace U (byte_of c)"
    using dg digit_solid by (auto simp: s is_ascii_def RuneSelf_def IsSpace_def)
  then have day: "parseDay U s = Some t"
    using assms(2) by (simp add: parseDay_def TrimSpace_solid)
  have no: "c \<noteq> CHR ''.''" "c \<noteq> CHR ''>''" "c \<noteq> CHR ''<''" "c \<noteq> CHR ''t''" "c \<noteq> CHR ''q''"
    "c \<noteq> CHR ''w''" "c \<noteq> CHR ''d''" "c \<noteq> CHR ''m''" "c \<noteq> CHR ''y''"
    if "is_digit_char c" for c
    using that by (auto simp: is_digit_char_def byte_of_def)
  have "cut_dots [] s = None"
    using dg no(1) by (intro cut_dots_None) (auto simp: s)
  moreover have "parseSpan z s now = None"
    using dg no(6-9) by (auto simp: parseSpan_def s split: option.split)
  moreover have "CutPrefix s ''>'' = None" "CutPrefix s ''<'' = None"
    using dg no(2,3) by (simp_all add: CutPrefix_def HasPrefix_def s)
  moreover have "s \<notin> {''today'', ''week'', ''this-week'', ''month'', ''this-month'', ''quarter'',
      ''year'', ''this-year''}"
    using dg no(4) by (auto simp: s)
  ultimately have "parseWhen U z raw now = Some (t, endOfDay t)"
    using day assms(1) by (simp add: parseWhen_def Let_def)
  moreover have "t \<le> x \<and> x \<le> endOfDay t \<longleftrightarrow> x div Day = t div Day" for x
    unfolding day_interval [OF t] by auto
  ultimately show ?thesis by blast
qed

section \<open>Runs\<close>

theorem Parse_text_only_witness:
  "Parse ascii_table UTC 0 ''disk full'' = zero_query\<lparr>q_Text := ''disk full''\<rparr>"
proof -
  have t: "tokens ''disk full'' =
      [\<lparr>tk_text = ''disk'', tk_quoted = False\<rparr>, \<lparr>tk_text = ''full'', tk_quoted = False\<rparr>]"
    by code_simp
  have "\<forall>tk \<in> set (tokens ''disk full''). tk_quoted tk \<or> CHR '':'' \<notin> set (tk_text tk)"
    by (simp add: t)
  from Parse_text_only [OF this, of ascii_table UTC 0] show ?thesis
    by (simp add: t)
qed

theorem parseWhen_day_witness:
  "\<exists>since until. parseWhen ascii_table UTC ''2026-08-19'' 0 = Some (since, until) \<and>
     (\<forall>x. since \<le> x \<and> x \<le> until \<longleftrightarrow> x div Day = 739846)"
proof -
  have "TrimSpace ascii_table (ToLower ascii_table ''2026-08-19'') = ''2026-08-19''"
    by code_simp
  moreover have "ParseDateOnly ''2026-08-19'' = Some (739846 * Day)"
    by (simp add: ParseDateOnly_def date_from_def digits_def is_digit_char_def byte_of_def daysIn_def
        day_number_def days_before_year_def month_starts_def is_leap_def)
  moreover have "739846 * Day div Day = 739846"
    by (simp add: Day_def Second_def)
  ultimately show ?thesis
    using parseWhen_day [of ascii_table "''2026-08-19''" "''2026-08-19''" "739846 * Day" UTC 0] by simp
qed

end
