(* ===== verification/Go_Sort.thy ===== *)
theory Go_Sort
  imports Genba_Prelude
begin

text \<open>
  \<open>sort.SliceStable\<close> with a comparison of the program's own, as a stable insertion sort. For a
  strict weak order, the contract of the \<open>comparator\<close> locale, the result is the only stable
  sorting of the list, whatever algorithm the library uses; \<open>sort.Slice\<close>, which is not stable, has
  the same result where no two elements are equivalent.
\<close>

fun insert_by :: "('a \<Rightarrow> 'a \<Rightarrow> bool) \<Rightarrow> 'a \<Rightarrow> 'a list \<Rightarrow> 'a list" where
  "insert_by lt x [] = [x]"
| "insert_by lt x (y # ys) = (if lt y x then y # insert_by lt x ys else x # y # ys)"

definition sort_by :: "('a \<Rightarrow> 'a \<Rightarrow> bool) \<Rightarrow> 'a list \<Rightarrow> 'a list" where
  "sort_by lt xs = foldr (insert_by lt) xs []"

lemma sort_by_simps [simp]:
  "sort_by lt [] = []" "sort_by lt (x # xs) = insert_by lt x (sort_by lt xs)"
  by (simp_all add: sort_by_def)

lemma mset_insert_by [simp]: "mset (insert_by lt x xs) = add_mset x (mset xs)"
  by (induction xs) auto

lemma mset_sort_by [simp]: "mset (sort_by lt xs) = mset xs"
  by (induction xs) simp_all

lemma set_sort_by [simp]: "set (sort_by lt xs) = set xs"
  by (metis mset_sort_by set_mset_mset)

lemma length_sort_by [simp]: "length (sort_by lt xs) = length xs"
  by (metis mset_sort_by size_mset)

lemma distinct_sort_by [simp]: "distinct (sort_by lt xs) = distinct xs"
  by (metis mset_sort_by mset_eq_imp_distinct_iff)

lemma sort_by_cong:
  "(\<And>x y. x \<in> set xs \<Longrightarrow> y \<in> set xs \<Longrightarrow> f x y = g x y) \<Longrightarrow> sort_by f xs = sort_by g xs"
proof (induction xs)
  case (Cons x xs)
  have "insert_by f x ys = insert_by g x ys" if "set ys \<subseteq> set xs" for ys
    using that Cons.prems by (induction ys) auto
  with Cons show ?case by simp
qed simp

locale comparator =
  fixes lt :: "'a \<Rightarrow> 'a \<Rightarrow> bool"
  assumes asym: "lt x y \<Longrightarrow> \<not> lt y x"
    and weak: "lt x z \<Longrightarrow> lt x y \<or> lt y z"
begin

abbreviation in_order :: "'a list \<Rightarrow> bool" where
  "in_order \<equiv> sorted_wrt (\<lambda>x y. \<not> lt y x)"

lemma not_lt_trans: "\<not> lt y x \<Longrightarrow> \<not> lt z y \<Longrightarrow> \<not> lt z x"
  using weak by blast

lemma in_order_insert: "in_order xs \<Longrightarrow> in_order (insert_by lt x xs)"
proof (induction xs)
  case (Cons y xs)
  have "set (insert_by lt x xs) = insert x (set xs)"
    by (metis mset_insert_by set_mset_add_mset_insert set_mset_mset)
  with Cons show ?case
    by (auto dest: asym not_lt_trans)
qed simp

lemma in_order_sort_by: "in_order (sort_by lt xs)"
  by (induction xs) (simp_all add: in_order_insert)

lemma filter_insert_by:
  "(\<And>y. P y \<Longrightarrow> \<not> lt y x) \<Longrightarrow> P x \<Longrightarrow> in_order ys \<Longrightarrow>
     filter P (insert_by lt x ys) = x # filter P ys"
  by (induction ys) auto

lemma filter_insert_by_other: "\<not> P x \<Longrightarrow> filter P (insert_by lt x ys) = filter P ys"
  by (induction ys) auto

text \<open>Equivalent elements keep their order.\<close>

lemma stable: "filter (\<lambda>y. \<not> lt x y \<and> \<not> lt y x) (sort_by lt xs) =
  filter (\<lambda>y. \<not> lt x y \<and> \<not> lt y x) xs"
proof (induction xs)
  case (Cons z xs)
  show ?case
  proof (cases "\<not> lt x z \<and> \<not> lt z x")
    case True
    have "\<not> lt y z" if "\<not> lt x y \<and> \<not> lt y x" for y
      using that True not_lt_trans by blast
    from filter_insert_by [OF this _ in_order_sort_by] True Cons show ?thesis by simp
  next
    case False
    with Cons show ?thesis by (simp add: filter_insert_by_other)
  qed
qed simp

lemma sort_by_unique:
  assumes "in_order ys" and "mset ys = mset xs"
    and "\<And>x y. x \<in> set xs \<Longrightarrow> y \<in> set xs \<Longrightarrow> \<not> lt x y \<Longrightarrow> \<not> lt y x \<Longrightarrow> x = y"
  shows "ys = sort_by lt xs"
proof -
  have "ys = zs" if "in_order ys" "in_order zs" "mset ys = mset zs" "set zs \<subseteq> set xs" for ys zs
    using that
  proof (induction ys arbitrary: zs)
    case (Cons y ys)
    then obtain z zs' where zs: "zs = z # zs'" by (cases zs) auto
    have sets: "insert y (set ys) = insert z (set zs')"
      using Cons.prems(3) zs by (metis mset_eq_setD list.simps(15))
    have "\<not> lt z y \<or> z = y" "\<not> lt y z \<or> z = y"
      using Cons.prems(1,2) zs sets by auto
    moreover have "y \<in> set xs" "z \<in> set xs"
      using Cons.prems(4) zs sets by auto
    ultimately have "y = z" using assms(3) by blast
    with Cons zs show ?case by auto
  qed simp
  from this [OF assms(1) in_order_sort_by] assms(2) show ?thesis by simp
qed

end

end
