(* ===== verification/Index_Rank.thy ===== *)
theory Index_Rank
  imports Index_Query Go_Sort
begin

text \<open>
  Ranking, from package \<open>index\<close> (\<open>score.go\<close>, \<open>index.go\<close>): candidates, the BM25F score with its
  recency prior, the facet counts of a search, the order of the results and the page.

  The score is a float64. The arithmetic of the type is a parameter, a \<open>floats\<close> record over a
  linearly ordered type of scores, so the model says which operations are applied in which order
  and no property rests on rounding; a score of the program is never NaN, because every divisor
  and every logarithm's argument is positive.
\<close>

section \<open>Floats\<close>

record 'f floats =
  fl_int :: "int \<Rightarrow> 'f"
  fl_lit :: "int \<Rightarrow> int \<Rightarrow> 'f"
  fl_add :: "'f \<Rightarrow> 'f \<Rightarrow> 'f"
  fl_sub :: "'f \<Rightarrow> 'f \<Rightarrow> 'f"
  fl_mul :: "'f \<Rightarrow> 'f \<Rightarrow> 'f"
  fl_div :: "'f \<Rightarrow> 'f \<Rightarrow> 'f"
  fl_neg :: "'f \<Rightarrow> 'f"
  fl_log :: "'f \<Rightarrow> 'f"
  fl_exp2 :: "'f \<Rightarrow> 'f"

section \<open>Bounds (index.go, score.go)\<close>

definition DefaultLimit :: int where "DefaultLimit = 20"
definition MaxLimit :: int where "MaxLimit = 200"
definition MaxMatches :: int where "MaxMatches = 100000"
definition CandidateFloor :: int where "CandidateFloor = 500"
definition CandidateFactor :: int where "CandidateFactor = 10"

definition CandidatePool :: "int \<Rightarrow> int \<Rightarrow> int" where
  "CandidatePool offset limit =
     min (max CandidateFloor (wrap64 ((offset + limit) * CandidateFactor))) MaxMatches"

definition FacetPool :: int where "FacetPool = 2 * CandidateFloor"

definition page_limit :: "int \<Rightarrow> int" where
  "page_limit limit = (let limit = (if limit \<le> 0 then DefaultLimit else limit) in min limit MaxLimit)"

section \<open>Scores (score.go, index.go)\<close>

definition bm25K1 :: "'f floats \<Rightarrow> 'f" where "bm25K1 F = fl_lit F 12 10"
definition bm25B :: "'f floats \<Rightarrow> 'f" where "bm25B F = fl_lit F 75 100"
definition titleWeight :: "'f floats \<Rightarrow> 'f" where "titleWeight F = fl_lit F 3 1"

definition AvgLength :: "'f floats \<Rightarrow> corpus \<Rightarrow> 'f \<Rightarrow> 'f" where
  "AvgLength F c weight =
     (if co_Documents c = 0 then fl_int F 0
      else fl_div F (fl_add F (fl_mul F weight (fl_int F (co_TitleTokens c))) (fl_int F (co_BodyTokens c)))
             (fl_int F (co_Documents c)))"

definition doc_freq :: "corpus \<Rightarrow> string \<Rightarrow> int" where
  "doc_freq c t = (case fmlookup (co_DocFreq c) t of None \<Rightarrow> 0 | Some n \<Rightarrow> n)"

definition score_term ::
  "'f floats \<Rightarrow> candidate \<Rightarrow> corpus \<Rightarrow> 'f \<Rightarrow> 'f \<Rightarrow> string \<Rightarrow> 'f" where
  "score_term F c corpus norm acc t =
     (case fmlookup (cd_Terms c) t of
        None \<Rightarrow> acc
      | Some n \<Rightarrow>
          let tf = fl_add F (fl_mul F (titleWeight F) (fl_int F (tc_Title n))) (fl_int F (tc_Body n)) in
          if tf = fl_int F 0 then acc
          else
            let df = fl_int F (doc_freq corpus t);
                half = fl_lit F 5 10;
                idf = fl_log F (fl_add F (fl_int F 1)
                  (fl_div F (fl_add F (fl_sub F (fl_int F (co_Documents corpus)) df) half)
                     (fl_add F df half)))
            in fl_add F acc
                 (fl_div F (fl_mul F (fl_mul F idf tf) (fl_add F (bm25K1 F) (fl_int F 1)))
                    (fl_add F tf norm)))"

definition score :: "'f floats \<Rightarrow> candidate \<Rightarrow> string list \<Rightarrow> corpus \<Rightarrow> 'f" where
  "score F c terms corpus =
     (let avg = AvgLength F corpus (titleWeight F) in
      if avg = fl_int F 0 \<or> co_Documents corpus = 0 then fl_int F 0
      else
        let len = fl_add F (fl_mul F (titleWeight F) (fl_int F (cd_TitleTokens c)))
              (fl_int F (cd_BodyTokens c));
            norm = fl_mul F (bm25K1 F) (fl_add F (fl_sub F (fl_int F 1) (bm25B F))
              (fl_div F (fl_mul F (bm25B F) len) avg))
        in foldl (score_term F c corpus norm) (fl_int F 0) terms)"

text \<open>\<open>Time.Sub\<close> saturates at the range of a duration; \<open>Duration.Hours\<close>.\<close>

definition Time_Sub :: "gtime \<Rightarrow> gtime \<Rightarrow> duration" where
  "Time_Sub t u = max (- (2 ^ 63)) (min (2 ^ 63 - 1) (t - u))"

definition Hours :: "'f floats \<Rightarrow> duration \<Rightarrow> 'f" where
  "Hours F d = fl_add F (fl_int F (d div Hour)) (fl_div F (fl_int F (d mod Hour)) (fl_int F Hour))"

definition recency_weight :: "'f floats \<Rightarrow> duration \<Rightarrow> gtime \<Rightarrow> gtime \<Rightarrow> 'f" where
  "recency_weight F halfLife modified now =
     (if halfLife \<le> 0 \<or> IsZero modified then fl_int F 1
      else
        let age = Time_Sub now modified in
        if age \<le> 0 then fl_int F 1
        else
          let floor = fl_lit F 5 10;
              decay = fl_exp2 F (fl_div F (fl_neg F (Hours F age)) (Hours F halfLife))
          in fl_add F floor (fl_mul F (fl_sub F (fl_int F 1) floor) decay))"

section \<open>Candidates and facets (score.go)\<close>

definition candidateOf :: "unicode \<Rightarrow> document \<Rightarrow> string list \<Rightarrow> candidate" where
  "candidateOf U d terms =
     (let a = Analyze U d in
      \<lparr>cd_ID = doc_ID d, cd_ModifiedAt = doc_ModifiedAt d, cd_TitleTokens = an_TitleTokens a,
       cd_BodyTokens = an_BodyTokens a,
       cd_Terms = foldl (\<lambda>m t. case fmlookup (an_Terms a) t of None \<Rightarrow> m | Some n \<Rightarrow> fmupd t n m)
         fmempty terms\<rparr>)"

record drill =
  dr_r :: request
  dr_counts :: "(string, (string, int) fmap) fmap"

definition newDrill :: "request \<Rightarrow> drill" where
  "newDrill r =
     \<lparr>dr_r = r, dr_counts = foldl (\<lambda>m field. fmupd field fmempty m) fmempty FacetFields\<rparr>"

definition valueOf :: "string \<Rightarrow> document \<Rightarrow> string" where
  "valueOf field d =
     (if field = ''source'' then doc_Source d
      else if field = ''kind'' then doc_Kind d
      else if field = ''container'' then doc_Container d
      else if field = ''author'' then Display (doc_Author d)
      else '''')"

definition bump :: "(string, int) fmap \<Rightarrow> string \<Rightarrow> (string, int) fmap" where
  "bump m v = fmupd v ((case fmlookup m v of None \<Rightarrow> 0 | Some n \<Rightarrow> n) + 1) m"

definition count_field :: "document \<Rightarrow> drill \<Rightarrow> string \<Rightarrow> drill" where
  "count_field d dr field =
     dr\<lparr>dr_counts := fmupd field (bump (the (fmlookup (dr_counts dr) field)) (valueOf field d))
          (dr_counts dr)\<rparr>"

text \<open>The first loop of \<open>add\<close>: None when two constraints fail, otherwise the one that does, if any.\<close>

fun drill_missing :: "unicode \<Rightarrow> request \<Rightarrow> document \<Rightarrow> string \<Rightarrow> string list \<Rightarrow> string option" where
  "drill_missing U r d missing [] = Some missing"
| "drill_missing U r d missing (field # rest) =
     (if Passes U r field d then drill_missing U r d missing rest
      else if missing \<noteq> '''' then None
      else drill_missing U r d field rest)"

definition drill_add :: "unicode \<Rightarrow> drill \<Rightarrow> document \<Rightarrow> bool \<times> drill" where
  "drill_add U dr d =
     (case drill_missing U (dr_r dr) d '''' FacetFields of
        None \<Rightarrow> (False, dr)
      | Some missing \<Rightarrow>
          if missing \<noteq> '''' then (False, count_field d dr missing)
          else (True, foldl (count_field d) dr FacetFields))"

definition facet_less :: "facet \<Rightarrow> facet \<Rightarrow> bool" where
  "facet_less a b \<longleftrightarrow>
     (if fc_Count a \<noteq> fc_Count b then fc_Count a > fc_Count b else fc_Value a < fc_Value b)"

definition sortedFacets :: "(string, int) fmap \<Rightarrow> facet list" where
  "sortedFacets counts =
     (let out = map (\<lambda>v. \<lparr>fc_Value = v, fc_Count = the (fmlookup counts v)\<rparr>)
            (filter (\<lambda>v. v \<noteq> '''') (map_keys counts));
          out = sort_by facet_less out
      in if int (length out) > MaxFacetValues then take (nat MaxFacetValues) out else out)"

definition drill_facets :: "drill \<Rightarrow> (string, facet list) fmap" where
  "drill_facets dr = fmmap sortedFacets (dr_counts dr)"

definition facetsFrom :: "(string, facet list) fmap \<Rightarrow> (string, facet list) fmap" where
  "facetsFrom input =
     (let out = fmmap (\<lambda>values. sortedFacets (foldl (\<lambda>m v. fmupd (fc_Value v) (fc_Count v) m) fmempty values))
            input
      in foldl (\<lambda>m field. if fmlookup m field = None then fmupd field [] m else m) out
           [''source'', ''kind'', ''container'', ''author''])"

section \<open>Order and page (index.go)\<close>

record 'f scored_cand =
  sc_cand :: candidate
  sc_score :: 'f

definition recent_less :: "'f scored_cand \<Rightarrow> 'f scored_cand \<Rightarrow> bool" where
  "recent_less a b \<longleftrightarrow>
     (if cd_ModifiedAt (sc_cand a) \<noteq> cd_ModifiedAt (sc_cand b)
      then cd_ModifiedAt (sc_cand a) > cd_ModifiedAt (sc_cand b)
      else cd_ID (sc_cand a) < cd_ID (sc_cand b))"

definition byRecent :: "'f scored_cand list \<Rightarrow> 'f scored_cand list" where
  "byRecent scored = sort_by recent_less scored"

definition score_less :: "'f::linorder scored_cand \<Rightarrow> 'f scored_cand \<Rightarrow> bool" where
  "score_less a b \<longleftrightarrow>
     (if sc_score a \<noteq> sc_score b then sc_score a > sc_score b
      else cd_ID (sc_cand a) < cd_ID (sc_cand b))"

definition page :: "'f scored_cand list \<Rightarrow> int \<Rightarrow> int \<Rightarrow> 'f scored_cand list" where
  "page all offset limit =
     (if offset < 0 \<or> int (length all) \<le> offset then []
      else drop (nat offset) (take (nat (min (offset + limit) (int (length all)))) all))"

section \<open>Facets are counted with their own constraint lifted\<close>

lemma drill_missing_all:
  "drill_missing U r d '''' FacetFields = Some '''' \<longleftrightarrow> (\<forall>f \<in> set FacetFields. Passes U r f d)"
  by (simp add: FacetFields_def)

lemma drill_missing_one:
  assumes "f \<in> set FacetFields"
  shows "drill_missing U r d '''' FacetFields = Some f \<longleftrightarrow>
    \<not> Passes U r f d \<and> (\<forall>g \<in> set FacetFields - {f}. Passes U r g d)"
proof -
  consider "f = ''source''" | "f = ''kind''" | "f = ''container''" | "f = ''author''"
    using assms by (auto simp: FacetFields_def)
  moreover have "(\<forall>g \<in> set FacetFields - {f}. Passes U r g d) \<longleftrightarrow>
      (\<forall>g \<in> set FacetFields. g \<noteq> f \<longrightarrow> Passes U r g d)"
    by auto
  ultimately show ?thesis
    by cases (simp_all add: FacetFields_def)
qed

lemma drill_missing_field:
  "drill_missing U r d '''' FacetFields = Some f \<Longrightarrow> f = '''' \<or> f \<in> set FacetFields"
  by (auto simp: FacetFields_def split: if_splits)

definition field_count :: "drill \<Rightarrow> string \<Rightarrow> string \<Rightarrow> int" where
  "field_count dr field v =
     (case fmlookup (dr_counts dr) field of None \<Rightarrow> 0
      | Some m \<Rightarrow> (case fmlookup m v of None \<Rightarrow> 0 | Some n \<Rightarrow> n))"

definition drill_ok :: "drill \<Rightarrow> bool" where
  "drill_ok dr \<longleftrightarrow> fset (fmdom (dr_counts dr)) = set FacetFields"

lemma drill_ok_lookup: "drill_ok dr \<Longrightarrow> f \<in> set FacetFields \<Longrightarrow> \<exists>m. fmlookup (dr_counts dr) f = Some m"
  unfolding drill_ok_def by (metis fmdomE)

lemma count_field_ok: "drill_ok dr \<Longrightarrow> f \<in> set FacetFields \<Longrightarrow> drill_ok (count_field d dr f)"
  by (auto simp: drill_ok_def count_field_def)

lemma field_count_count_field:
  assumes "drill_ok dr" "f \<in> set FacetFields"
  shows "field_count (count_field d dr f) g v =
    field_count dr g v + (if g = f \<and> valueOf f d = v then 1 else 0)"
proof -
  obtain m where "fmlookup (dr_counts dr) f = Some m"
    using drill_ok_lookup [OF assms] by blast
  then show ?thesis
    by (cases "f = g") (auto simp: field_count_def count_field_def bump_def split: option.split)
qed

lemma count_fields:
  "drill_ok dr \<Longrightarrow> set fs \<subseteq> set FacetFields \<Longrightarrow> distinct fs \<Longrightarrow>
     drill_ok (foldl (count_field d) dr fs) \<and> dr_r (foldl (count_field d) dr fs) = dr_r dr \<and>
     field_count (foldl (count_field d) dr fs) g v =
       field_count dr g v + (if g \<in> set fs \<and> valueOf g d = v then 1 else 0)"
proof (induction fs arbitrary: dr)
  case (Cons f fs)
  then have "drill_ok (count_field d dr f)" by (simp add: count_field_ok)
  from Cons.IH [OF this] Cons.prems show ?case
    by (auto simp: field_count_count_field) (simp_all add: count_field_def)
qed simp

lemma drill_add_count:
  assumes "drill_ok dr" "drill_add U dr d = (hit, dr')"
  shows "drill_ok dr'" "dr_r dr' = dr_r dr"
    "hit \<longleftrightarrow> (\<forall>f \<in> set FacetFields. Passes U (dr_r dr) f d)"
    "f \<in> set FacetFields \<Longrightarrow> field_count dr' f v = field_count dr f v +
       (if (\<forall>g \<in> set FacetFields - {f}. Passes U (dr_r dr) g d) \<and> valueOf f d = v then 1 else 0)"
proof -
  let ?m = "drill_missing U (dr_r dr) d '''' FacetFields"
  have dist: "distinct FacetFields" "'''' \<notin> set FacetFields"
    by (simp_all add: FacetFields_def)
  note all = count_fields [OF assms(1) order_refl dist(1), of d]
  consider (two) "?m = None" | (none) "?m = Some ''''"
    | (one) g where "?m = Some g" "g \<in> set FacetFields" "g \<noteq> ''''"
    using drill_missing_field dist(2) by (cases ?m) blast+
  then have "drill_ok dr' \<and> dr_r dr' = dr_r dr \<and>
    (hit \<longleftrightarrow> (\<forall>f \<in> set FacetFields. Passes U (dr_r dr) f d)) \<and>
    (f \<in> set FacetFields \<longrightarrow> field_count dr' f v = field_count dr f v +
       (if (\<forall>g \<in> set FacetFields - {f}. Passes U (dr_r dr) g d) \<and> valueOf f d = v then 1 else 0))"
  proof cases
    case two
    then have "dr' = dr" "\<not> hit" using assms(2) by (simp_all add: drill_add_def)
    moreover have "\<not> (\<forall>f \<in> set FacetFields. Passes U (dr_r dr) f d)"
      using two drill_missing_all [of U "dr_r dr" d] by simp
    moreover have "\<not> (\<forall>g \<in> set FacetFields - {f}. Passes U (dr_r dr) g d)" if "f \<in> set FacetFields"
      using two drill_missing_all [of U "dr_r dr" d] drill_missing_one [OF that, of U "dr_r dr" d] by auto
    ultimately show ?thesis using assms(1) by auto
  next
    case none
    then have "dr' = foldl (count_field d) dr FacetFields" "hit"
      using assms(2) by (simp_all add: drill_add_def)
    moreover have "\<forall>f \<in> set FacetFields. Passes U (dr_r dr) f d"
      using none drill_missing_all by blast
    ultimately show ?thesis using all by auto
  next
    case one
    then have dr': "dr' = count_field d dr g" "\<not> hit"
      using assms(2) by (simp_all add: drill_add_def)
    have g: "\<not> Passes U (dr_r dr) g d" "\<forall>h \<in> set FacetFields - {g}. Passes U (dr_r dr) h d"
      using one drill_missing_one [OF one(2)] by blast+
    have "(\<forall>h \<in> set FacetFields - {f}. Passes U (dr_r dr) h d) \<longleftrightarrow> f = g" if "f \<in> set FacetFields"
      using g one(2) by auto
    with g one(2) dr' assms(1) show ?thesis
      by (auto simp: count_field_ok field_count_count_field) (simp_all add: count_field_def)
  qed
  then show "drill_ok dr'" "dr_r dr' = dr_r dr"
    "hit \<longleftrightarrow> (\<forall>f \<in> set FacetFields. Passes U (dr_r dr) f d)"
    "f \<in> set FacetFields \<Longrightarrow> field_count dr' f v = field_count dr f v +
       (if (\<forall>g \<in> set FacetFields - {f}. Passes U (dr_r dr) g d) \<and> valueOf f d = v then 1 else 0)"
    by auto
qed

lemma newDrill_ok: "drill_ok (newDrill r)" "dr_r (newDrill r) = r" "field_count (newDrill r) f v = 0"
  by (auto simp: drill_ok_def newDrill_def FacetFields_def field_count_def)

section \<open>Orders\<close>

lemma facet_less_linear: "facet_less a b \<or> a = b \<or> facet_less b a"
  by (cases a; cases b) (auto simp: facet_less_def)

interpretation facet_order: comparator facet_less
  by unfold_locales (auto simp: facet_less_def split: if_splits)

interpretation recent_order: comparator recent_less
  by unfold_locales (auto simp: recent_less_def split: if_splits)

interpretation score_order: comparator score_less
  by unfold_locales (auto simp: score_less_def split: if_splits)

definition all_facets :: "(string, int) fmap \<Rightarrow> facet set" where
  "all_facets counts =
     {\<lparr>fc_Value = v, fc_Count = n\<rparr> | v n. v \<noteq> '''' \<and> fmlookup counts v = Some n}"

lemma facet_rows:
  "set (map (\<lambda>v. \<lparr>fc_Value = v, fc_Count = the (fmlookup counts v)\<rparr>)
     (filter (\<lambda>v. v \<noteq> '''') (map_keys counts))) = all_facets counts"
  "distinct (map (\<lambda>v. \<lparr>fc_Value = v, fc_Count = the (fmlookup counts v)\<rparr>)
     (filter (\<lambda>v. v \<noteq> '''') (map_keys counts)))"
proof -
  show "set (map (\<lambda>v. \<lparr>fc_Value = v, fc_Count = the (fmlookup counts v)\<rparr>)
     (filter (\<lambda>v. v \<noteq> '''') (map_keys counts))) = all_facets counts"
    by (auto simp: all_facets_def fmlookup_dom_iff image_iff intro: fmdomI)
  show "distinct (map (\<lambda>v. \<lparr>fc_Value = v, fc_Count = the (fmlookup counts v)\<rparr>)
     (filter (\<lambda>v. v \<noteq> '''') (map_keys counts)))"
    by (auto simp: distinct_map inj_on_def)
qed

text \<open>
  A facet lists its values by count, then by value, and no further than \<open>MaxFacetValues\<close>: what
  is listed has its count, what is left out has no larger one, and the empty value never shows.
\<close>

theorem sortedFacets_top:
  "set (sortedFacets counts) \<subseteq> all_facets counts \<and>
   sorted_wrt facet_less (sortedFacets counts) \<and>
   int (length (sortedFacets counts)) = min MaxFacetValues (int (card (all_facets counts))) \<and>
   (\<forall>f \<in> set (sortedFacets counts). \<forall>g \<in> all_facets counts - set (sortedFacets counts). facet_less f g)"
proof -
  define rows where "rows = map (\<lambda>v. \<lparr>fc_Value = v, fc_Count = the (fmlookup counts v)\<rparr>)
    (filter (\<lambda>v. v \<noteq> '''') (map_keys counts))"
  define fs where "fs = sort_by facet_less rows"
  have fs: "set fs = all_facets counts" "distinct fs"
    using facet_rows [of counts] by (simp_all add: fs_def rows_def)
  have sorted: "sorted_wrt facet_less fs"
  proof -
    have "sorted_wrt (\<lambda>x y. \<not> facet_less y x) fs"
      unfolding fs_def by (rule facet_order.in_order_sort_by)
    then have "sorted_wrt (\<lambda>x y. \<not> facet_less y x \<and> x \<noteq> y) fs"
      using fs(2) by (induction fs) auto
    then show ?thesis
      by (rule sorted_wrt_mono_rel [rotated]) (use facet_less_linear in blast)
  qed
  have top: "sortedFacets counts = take (nat MaxFacetValues) fs"
    by (simp add: sortedFacets_def fs_def rows_def Let_def MaxFacetValues_def)
  have split: "fs = take (nat MaxFacetValues) fs @ drop (nat MaxFacetValues) fs" by simp
  have "length fs = card (all_facets counts)"
    using fs by (metis distinct_card)
  moreover have "\<forall>f \<in> set (take (nat MaxFacetValues) fs). \<forall>g \<in> set (drop (nat MaxFacetValues) fs). facet_less f g"
    using sorted split by (metis sorted_wrt_append)
  moreover have "all_facets counts - set (take (nat MaxFacetValues) fs) \<subseteq> set (drop (nat MaxFacetValues) fs)"
    using fs(1) split by (metis Diff_subset_conv set_append order_refl)
  moreover have "sorted_wrt facet_less (take (nat MaxFacetValues) fs)"
    using sorted by (rule sorted_wrt_take)
  moreover have "set (take (nat MaxFacetValues) fs) \<subseteq> all_facets counts"
    using fs(1) set_take_subset by metis
  ultimately show ?thesis
    unfolding top by (auto simp: MaxFacetValues_def min_def)
qed

section \<open>Pages\<close>

lemma page_slice:
  "0 \<le> offset \<Longrightarrow> 0 \<le> limit \<Longrightarrow> page all offset limit = take (nat limit) (drop (nat offset) all)"
  by (auto simp: page_def take_drop nat_add_distrib min_def add.commute)

lemma page_subset: "set (page all offset limit) \<subseteq> set all"
  by (auto simp: page_def dest: in_set_dropD in_set_takeD)

text \<open>
  Paging neither repeats nor skips: the pages of a ranking read one after the other are the
  ranking, and a page holds at most its limit.
\<close>

theorem pages_concat:
  assumes "0 < limit"
  shows "concat (map (\<lambda>k. page all (int k * limit) limit) [0..<n]) = take (n * nat limit) all \<and>
    int (length (page all offset limit)) \<le> limit"
proof
  show "concat (map (\<lambda>k. page all (int k * limit) limit) [0..<n]) = take (n * nat limit) all"
  proof (induction n)
    case (Suc n)
    have "page all (int n * limit) limit = take (nat limit) (drop (n * nat limit) all)"
      using assms by (simp add: page_slice nat_mult_distrib)
    then show ?case
      by (simp add: Suc take_add [symmetric] add.commute)
  qed simp
  show "int (length (page all offset limit)) \<le> limit"
  proof (cases "0 \<le> offset")
    case True
    with assms show ?thesis by (simp add: page_slice)
  next
    case False
    with assms show ?thesis by (simp add: page_def)
  qed
qed

theorem pages_concat_witness:
  "concat (map (\<lambda>k. page all (int k * 2) 2) [0..<3]) = take (3 * nat 2) all"
proof -
  have "(0::int) < 2" by simp
  from pages_concat [OF this, of "all" 3] show ?thesis by blast
qed

lemma CandidatePool_bounds:
  "CandidateFloor \<le> CandidatePool offset limit" "CandidatePool offset limit \<le> MaxMatches"
  "0 \<le> offset \<Longrightarrow> 0 < limit \<Longrightarrow> offset + limit \<le> MaxMatches \<Longrightarrow>
     offset + limit \<le> CandidatePool offset limit"
proof -
  show "CandidateFloor \<le> CandidatePool offset limit" "CandidatePool offset limit \<le> MaxMatches"
    by (simp_all add: CandidatePool_def CandidateFloor_def MaxMatches_def)
  assume "0 \<le> offset" "0 < limit" "offset + limit \<le> MaxMatches"
  then have "wrap64 ((offset + limit) * CandidateFactor) = (offset + limit) * CandidateFactor"
    by (simp add: wrap64_def MaxMatches_def CandidateFactor_def)
  with \<open>0 \<le> offset\<close> \<open>0 < limit\<close> \<open>offset + limit \<le> MaxMatches\<close>
  show "offset + limit \<le> CandidatePool offset limit"
    by (simp add: CandidatePool_def CandidateFactor_def CandidateFloor_def MaxMatches_def)
qed

lemma page_limit_bounds: "0 < page_limit limit" "page_limit limit \<le> MaxLimit"
  by (auto simp: page_limit_def DefaultLimit_def MaxLimit_def Let_def)

end
