(* ===== verification/Cache_Values.thy ===== *)
theory Cache_Values
  imports Cache_LRU_Facts
begin

text \<open>
  What a caller of package \<open>cache\<close> relies on, as an interface: a value the cache gives out is a
  value it holds, and it holds nothing but what was put in and not taken out. Whether an entry is
  still there is the cache's business, so the interface only ever bounds what is held. The locale
  \<open>value_cache\<close> states it for one call at a time and proves once what its clients need, that a
  property of every held value survives the calls; it is interpreted on the cache of
  \<open>cache/cache.go\<close>.
\<close>

locale value_cache =
  fixes wf :: "'c \<Rightarrow> bool"
    and held :: "'c \<Rightarrow> 'k \<Rightarrow> 'v \<Rightarrow> bool"
    and get :: "'c \<Rightarrow> 'k \<Rightarrow> gtime \<Rightarrow> 'v option \<times> 'c"
    and put :: "'c \<Rightarrow> 'k \<Rightarrow> 'v \<Rightarrow> gtime \<Rightarrow> 'c"
    and del :: "'c \<Rightarrow> 'k list \<Rightarrow> 'c"
    and run :: "'c \<Rightarrow> 'k \<Rightarrow> gtime \<Rightarrow> 'v res \<Rightarrow> gtime \<Rightarrow> 'v res \<times> 'c"
  assumes get: "wf c \<Longrightarrow> get c k t = (found, c') \<Longrightarrow>
      wf c' \<and> (\<forall>v. found = Some v \<longrightarrow> held c k v) \<and> (\<forall>k' v. held c' k' v \<longrightarrow> held c k' v)"
    and put: "wf c \<Longrightarrow>
      wf (put c k v t) \<and> (\<forall>k' v'. held (put c k v t) k' v' \<longrightarrow> held c k' v' \<or> k' = k \<and> v' = v)"
    and del: "wf c \<Longrightarrow>
      wf (del c ks) \<and> (\<forall>k v. held (del c ks) k v \<longrightarrow> held c k v \<and> k \<notin> set ks)"
    and run: "wf c \<Longrightarrow> run c k t r t' = (r', c') \<Longrightarrow>
      wf c' \<and> (r' = r \<or> (\<exists>v. r' = Inr v \<and> held c k v)) \<and>
      (\<forall>k' v. held c' k' v \<longrightarrow> held c k' v \<or> k' = k \<and> r = Inr v)"
begin

definition holds_only :: "('k \<Rightarrow> 'v \<Rightarrow> bool) \<Rightarrow> 'c \<Rightarrow> bool" where
  "holds_only P c \<longleftrightarrow> wf c \<and> (\<forall>k v. held c k v \<longrightarrow> P k v)"

lemma holds_only_get:
  "holds_only P c \<Longrightarrow> get c k t = (r, c') \<Longrightarrow> holds_only P c' \<and> (\<forall>v. r = Some v \<longrightarrow> P k v)"
  using get unfolding holds_only_def by metis

lemma holds_only_put: "holds_only P c \<Longrightarrow> P k v \<Longrightarrow> holds_only P (put c k v t)"
  using put [of c k v t] unfolding holds_only_def by blast

lemma holds_only_puts:
  "holds_only P c \<Longrightarrow> (\<And>x. x \<in> set xs \<Longrightarrow> P (key x) (val x)) \<Longrightarrow>
     holds_only P (foldl (\<lambda>c x. put c (key x) (val x) t) c xs)"
  by (induction xs arbitrary: c) (simp_all add: holds_only_put)

lemma holds_only_del:
  "holds_only P c \<Longrightarrow> (\<And>k v. P k v \<Longrightarrow> k \<notin> set ks \<Longrightarrow> Q k v) \<Longrightarrow> holds_only Q (del c ks)"
  using del unfolding holds_only_def by blast

lemma holds_only_run:
  "holds_only P c \<Longrightarrow> run c k t r t' = (r', c') \<Longrightarrow> (\<And>v. r = Inr v \<Longrightarrow> P k v) \<Longrightarrow>
     holds_only P c' \<and> (r' = r \<or> (\<exists>v. r' = Inr v \<and> P k v))"
  using run [of c k t r t' r' c'] unfolding holds_only_def by blast

lemma holds_only_weaken: "holds_only P c \<Longrightarrow> (\<And>k v. P k v \<Longrightarrow> Q k v) \<Longrightarrow> holds_only Q c"
  unfolding holds_only_def by blast

end

section \<open>The cache provides it\<close>

definition cache_wf :: "'v cache \<Rightarrow> bool" where
  "cache_wf c \<longleftrightarrow> length (ca_shards c) = Shards"

definition held_in :: "'v shard \<Rightarrow> string \<Rightarrow> 'v \<Rightarrow> bool" where
  "held_in s k v \<longleftrightarrow> (\<exists>e. fmlookup (sh_items s) k = Some e \<and> en_val e = v)"

definition cache_holds :: "'v cache \<Rightarrow> string \<Rightarrow> 'v \<Rightarrow> bool" where
  "cache_holds c k v \<longleftrightarrow> held_in (the_shard c k) k v"

lemma held_in_get:
  "shard_get s k t = (r, s') \<Longrightarrow>
     (\<forall>v. r = Some v \<longrightarrow> held_in s k v) \<and> (\<forall>k' v. held_in s' k' v \<longrightarrow> held_in s k' v)"
  by (auto simp: shard_get_def held_in_def split: option.splits if_splits)

lemma held_in_put:
  "shard_put s k v x = (b, s') \<Longrightarrow> held_in s' k' v' \<Longrightarrow> held_in s k' v' \<or> k' = k \<and> v' = v"
  by (auto simp: shard_put_def held_in_def Let_def split: option.splits if_splits)

lemma held_in_remove: "held_in (shard_remove s k) k' v \<Longrightarrow> held_in s k' v \<and> k' \<noteq> k"
  by (auto simp: shard_remove_def held_in_def split: option.splits if_splits)

lemma held_in_flight [simp]: "held_in (s\<lparr>sh_inflight := x\<rparr>) k v = held_in s k v"
  by (simp add: held_in_def)

lemma cache_wf_simps [simp]:
  "cache_wf (set_shard c k s) = cache_wf c" "cache_wf (count_hit b c) = cache_wf c"
  "cache_wf (count_eviction b c) = cache_wf c"
  by (simp_all add: cache_wf_def set_shard_def count_hit_def count_eviction_def)

lemma cache_holds_count [simp]:
  "cache_holds (count_hit b c) k v = cache_holds c k v"
  "cache_holds (count_eviction b c) k v = cache_holds c k v"
  by (simp_all add: cache_holds_def the_shard_def count_hit_def count_eviction_def)

lemma set_shard_kept:
  assumes "cache_wf c" and "\<And>k' v. held_in s k' v \<Longrightarrow> held_in (the_shard c k) k' v \<or> Q k' v"
    and "cache_holds (set_shard c k s) k' v"
  shows "cache_holds c k' v \<or> Q k' v"
proof (cases "shard_of k' = shard_of k")
  case True
  then have "the_shard (set_shard c k s) k' = s" "the_shard c k = the_shard c k'"
    using assms(1) shard_of_less [of k]
    by (simp_all add: the_shard_def set_shard_def cache_wf_def Shards_def)
  with assms(2,3) show ?thesis by (simp add: cache_holds_def)
next
  case False
  then have "the_shard (set_shard c k s) k' = the_shard c k'"
    by (simp add: the_shard_def set_shard_def)
  with assms(3) show ?thesis by (simp add: cache_holds_def)
qed

lemmas set_shard_less = set_shard_kept [where Q = "\<lambda>_ _. False", simplified]

lemma Cache_Get_holds:
  assumes "cache_wf c" "Cache_Get c k t = (r, c')"
  shows "cache_wf c' \<and> (\<forall>v. r = Some v \<longrightarrow> cache_holds c k v) \<and>
    (\<forall>k' v. cache_holds c' k' v \<longrightarrow> cache_holds c k' v)"
proof (cases "ca_ttl c = Off")
  case True
  with assms show ?thesis by (simp add: Cache_Get_def)
next
  case False
  obtain s' where g: "shard_get (the_shard c k) k t = (r, s')"
    and c': "c' = count_hit (r \<noteq> None) (set_shard c k s')"
    using assms(2) False by (auto simp: Cache_Get_def split: prod.splits)
  note held = held_in_get [OF g]
  have "cache_holds c k' v" if "cache_holds (set_shard c k s') k' v" for k' v
    by (rule set_shard_less [OF assms(1) _ that]) (use held in blast)
  with held assms(1) c' show ?thesis by (simp add: cache_holds_def [of c k])
qed

lemma Cache_Put_holds:
  assumes "cache_wf c"
  shows "cache_wf (Cache_Put c k v t) \<and>
    (\<forall>k' v'. cache_holds (Cache_Put c k v t) k' v' \<longrightarrow> cache_holds c k' v' \<or> k' = k \<and> v' = v)"
proof (cases "ca_ttl c = Off")
  case True
  with assms show ?thesis by (simp add: Cache_Put_def)
next
  case False
  obtain b s' where p: "shard_put (the_shard c k) k v (expiry c t) = (b, s')" by fastforce
  have "cache_holds c k' v' \<or> k' = k \<and> v' = v" if "cache_holds (set_shard c k s') k' v'" for k' v'
    by (rule set_shard_kept [OF assms _ that]) (rule held_in_put [OF p])
  with False p assms show ?thesis by (simp add: Cache_Put_def)
qed

lemma Cache_Delete_holds:
  "cache_wf c \<Longrightarrow> cache_wf (Cache_Delete c ks) \<and>
     (\<forall>k v. cache_holds (Cache_Delete c ks) k v \<longrightarrow> cache_holds c k v \<and> k \<notin> set ks)"
proof (induction ks arbitrary: c)
  case (Cons k ks)
  let ?c = "set_shard c k (shard_remove (the_shard c k) k)"
  have kept: "cache_holds c k' v" if "cache_holds ?c k' v" for k' v
    by (rule set_shard_less [OF Cons.prems _ that]) (metis held_in_remove)
  have gone: "\<not> cache_holds ?c k v" for v
  proof -
    have "the_shard ?c k = shard_remove (the_shard c k) k"
      using Cons.prems shard_of_less [of k]
      by (simp add: the_shard_def set_shard_def cache_wf_def Shards_def)
    then show ?thesis
      using held_in_remove [of "the_shard c k" k k v] by (auto simp: cache_holds_def)
  qed
  have "Cache_Delete c (k # ks) = Cache_Delete ?c ks" by (simp add: Cache_Delete_def)
  moreover have "cache_wf ?c" using Cons.prems by simp
  note IH = Cons.IH [OF this]
  have "k' \<noteq> k \<and> k' \<notin> set ks \<and> cache_holds c k' v" if "cache_holds (Cache_Delete ?c ks) k' v" for k' v
    using IH that kept gone by metis
  ultimately show ?case using IH by simp
qed (simp add: Cache_Delete_def)

lemma Do_end_holds:
  assumes "cache_wf c"
  shows "cache_wf (Do_end c k r t) \<and>
    (\<forall>k' v. cache_holds (Do_end c k r t) k' v \<longrightarrow> cache_holds c k' v \<or> k' = k \<and> r = Inr v)"
proof -
  define s where "s = (the_shard c k)\<lparr>sh_inflight := sh_inflight (the_shard c k) - {k}\<rparr>"
  have s: "held_in s k' v = held_in (the_shard c k) k' v" for k' v by (simp add: s_def)
  show ?thesis
  proof (cases r)
    case (Inl e)
    have "cache_holds c k' v" if "cache_holds (set_shard c k s) k' v" for k' v
      by (rule set_shard_less [OF assms _ that]) (simp add: s)
    with Inl assms show ?thesis by (simp add: Do_end_def s_def [symmetric])
  next
    case (Inr v)
    obtain b s' where p: "shard_put s k v (expiry c t) = (b, s')" by fastforce
    have "cache_holds c k' v' \<or> k' = k \<and> v' = v" if "cache_holds (set_shard c k s') k' v'" for k' v'
      by (rule set_shard_kept [OF assms _ that]) (use held_in_put [OF p] s in blast)
    moreover have "Do_end c k r t = count_eviction b (set_shard c k s')"
      by (simp add: Do_end_def Inr s_def [symmetric] p)
    ultimately show ?thesis using assms Inr by auto
  qed
qed

lemma Do_holds:
  assumes "cache_wf c" "Do c k t r t' = (r', c')"
  shows "cache_wf c' \<and> (r' = r \<or> (\<exists>v. r' = Inr v \<and> cache_holds c k v)) \<and>
    (\<forall>k' v. cache_holds c' k' v \<longrightarrow> cache_holds c k' v \<or> k' = k \<and> r = Inr v)"
proof (cases "ca_ttl c = Off")
  case True
  with assms show ?thesis by (simp add: Do_def Do_begin_def)
next
  case False
  obtain g s where g: "shard_get (the_shard c k) k t = (g, s)" by fastforce
  note held = held_in_get [OF g]
  have kept: "cache_holds c k' v" if "cache_holds (set_shard c k (s\<lparr>sh_inflight := x\<rparr>)) k' v" for x k' v
    by (rule set_shard_less [OF assms(1) _ that]) (use held in simp)
  have kept': "cache_holds c k' v" if "cache_holds (set_shard c k s) k' v" for k' v
    by (rule set_shard_less [OF assms(1) _ that]) (use held in simp)
  consider (hit) v where "g = Some v" | (wait) "g = None" "k \<in> sh_inflight s"
    | (run) "g = None" "k \<notin> sh_inflight s" by (cases g) auto
  then show ?thesis
  proof cases
    case hit
    then have "r' = Inr v" "c' = count_hit True (set_shard c k s)"
      using assms(2) False g by (simp_all add: Do_def Do_begin_def)
    moreover have "cache_holds c k v"
      using held hit by (simp add: cache_holds_def)
    ultimately show ?thesis using assms(1) kept' by simp
  next
    case wait
    then have "r' = r" "c' = count_hit False (set_shard c k s)"
      using assms(2) False g by (simp_all add: Do_def Do_begin_def)
    then show ?thesis using assms(1) kept' by simp
  next
    case run
    define c1 where "c1 = count_hit False (set_shard c k (s\<lparr>sh_inflight := insert k (sh_inflight s)\<rparr>))"
    have c1: "cache_wf c1" "\<And>k' v. cache_holds c1 k' v \<Longrightarrow> cache_holds c k' v"
      using assms(1) kept by (simp_all add: c1_def)
    have "r' = r" "c' = Do_end c1 k r t'"
      using assms(2) False g run by (auto simp: Do_def Do_begin_def c1_def)
    with Do_end_holds [OF c1(1), of k r t'] c1(2) show ?thesis by blast
  qed
qed

interpretation lru: value_cache cache_wf cache_holds Cache_Get Cache_Put Cache_Delete Do
  by unfold_locales (rule Cache_Get_holds Cache_Put_holds Cache_Delete_holds Do_holds; assumption)+

lemma New_cache_empty: "lru.holds_only P (New_cache capacity ttl)"
  by (auto simp: lru.holds_only_def cache_wf_def cache_holds_def held_in_def the_shard_def New_cache_def
      Let_def empty_shard_def shard_init_def Shards_def)

lemma Clear_empty: "cache_wf c \<Longrightarrow> lru.holds_only P (Clear c)"
  by (auto simp: lru.holds_only_def cache_wf_def cache_holds_def held_in_def the_shard_def Clear_def
      shard_init_def Shards_def)

end
