(* ===== verification/Index_Cache.thy ===== *)
theory Index_Cache
  imports Index_Rank Cache_Values Store_Notify
begin

text \<open>
  The search cache of \<open>index/cache.go\<close>: four layers of package \<open>cache\<close> with the keys that say what
  an entry may be reused for, the per tenant generation that stands in for a sweep, and the
  invalidation on a committed write. A layer's function is given the two clock readings its call
  of the cache makes and the result \<open>fn\<close> would return; the cache decides whether it is used. The
  hash of the fingerprint is the parameter \<open>H\<close>.
\<close>

section \<open>The cache\<close>

definition Minute :: duration where "Minute = 60 * Second"

definition DefaultResultExpiry :: duration where "DefaultResultExpiry = 30 * Second"
definition DefaultResultEntries :: int where "DefaultResultEntries = 4000"
definition DefaultCorpusEntries :: int where "DefaultCorpusEntries = 50000"
definition DefaultDocumentEntries :: int where "DefaultDocumentEntries = 20000"
definition DefaultShapeExpiry :: duration where "DefaultShapeExpiry = Minute"
definition DefaultShapeEntries :: int where "DefaultShapeEntries = 1000"

record index_cache =
  ic_results :: "ranked cache"
  ic_corpus :: "corpus cache"
  ic_docs :: "document cache"
  ic_shape :: "reach cache"
  ic_blind :: bool
  ic_gen :: "(string, 64 word) fmap"

record index_config =
  cg_resultExpiry :: duration
  cg_results :: int
  cg_corpus :: int
  cg_docs :: int

type_synonym cache_option = "index_config \<Rightarrow> index_config"

definition WithResultExpiry :: "duration \<Rightarrow> cache_option" where
  "WithResultExpiry d c = c\<lparr>cg_resultExpiry := d\<rparr>"

definition WithCacheCapacity :: "int \<Rightarrow> int \<Rightarrow> int \<Rightarrow> cache_option" where
  "WithCacheCapacity results corpus documents c =
     (let c = (if 0 < results then c\<lparr>cg_results := results\<rparr> else c);
          c = (if 0 < corpus then c\<lparr>cg_corpus := corpus\<rparr> else c)
      in if 0 < documents then c\<lparr>cg_docs := documents\<rparr> else c)"

definition NewIndexCache :: "cache_option list \<Rightarrow> index_cache" where
  "NewIndexCache opts =
     (let cfg = foldl (\<lambda>c opt. opt c)
            \<lparr>cg_resultExpiry = DefaultResultExpiry, cg_results = DefaultResultEntries,
             cg_corpus = DefaultCorpusEntries, cg_docs = DefaultDocumentEntries\<rparr> opts
      in \<lparr>ic_results = New_cache (cg_results cfg) (cg_resultExpiry cfg),
          ic_corpus = New_cache (cg_corpus cfg) Forever,
          ic_docs = New_cache (cg_docs cfg) Forever,
          ic_shape = New_cache DefaultShapeEntries DefaultShapeExpiry,
          ic_blind = False, ic_gen = fmempty\<rparr>)"

text \<open>\<open>Watch\<close>, apart from the subscription itself: whether the driver reports its writes.\<close>

definition Watch :: "index_cache \<Rightarrow> bool \<Rightarrow> index_cache" where
  "Watch c notifier = c\<lparr>ic_blind := \<not> notifier\<rparr>"

definition generation :: "index_cache \<Rightarrow> string \<Rightarrow> 64 word" where
  "generation c tenant = (case fmlookup (ic_gen c) tenant of None \<Rightarrow> 0 | Some n \<Rightarrow> n)"

definition Invalidate :: "index_cache \<Rightarrow> change \<Rightarrow> index_cache" where
  "Invalidate c ch =
     (let c = c\<lparr>ic_docs := Cache_Delete (ic_docs c) (chg_IDs ch)\<rparr>
      in c\<lparr>ic_gen := fmupd (chg_Tenant ch) (generation c (chg_Tenant ch) + 1) (ic_gen c)\<rparr>)"

definition IndexCache_Clear :: "index_cache \<Rightarrow> index_cache" where
  "IndexCache_Clear c =
     c\<lparr>ic_results := Clear (ic_results c), ic_corpus := Clear (ic_corpus c),
       ic_docs := Clear (ic_docs c), ic_shape := Clear (ic_shape c)\<rparr>"

definition IndexCache_Stats :: "index_cache \<Rightarrow> (string, cache_stats) fmap" where
  "IndexCache_Stats c = fmap_of_list
     [(''results'', Cache_Stats (ic_results c)), (''corpus'', Cache_Stats (ic_corpus c)),
      (''documents'', Cache_Stats (ic_docs c)), (''shape'', Cache_Stats (ic_shape c))]"

section \<open>Keys\<close>

definition FormatInt :: "int \<Rightarrow> string" where
  "FormatInt n = (if n < 0 then CHR ''-'' # Itoa (nat (- n)) else Itoa (nat n))"

definition FormatBool :: "bool \<Rightarrow> string" where
  "FormatBool b = (if b then ''true'' else ''false'')"

text \<open>\<open>Time.UnixNano\<close>: nanoseconds since 1970 in an int64, which wraps around.\<close>

definition UnixNano :: "gtime \<Rightarrow> int" where
  "UnixNano t = wrap64 (t - 62135596800 * Second)"

definition sorted_compact :: "string list \<Rightarrow> string list" where
  "sorted_compact xs = remdups_adj (sort xs)"

definition write_list :: "string list \<Rightarrow> string" where
  "write_list list =
     concat (map (\<lambda>v. Itoa (length v) @ '':'' @ v @ '','') (sorted_compact list)) @ ''|''"

definition kindStrings :: "doc_kind list \<Rightarrow> string list" where
  "kindStrings kinds = (if length kinds = 0 then [] else map (\<lambda>k. k) kinds)"

definition writeRequest :: "request \<Rightarrow> selection \<Rightarrow> string" where
  "writeRequest r sel =
     concat (map write_list [rq_Terms r, rq_Sources r, kindStrings (rq_Kinds r), rq_Containers r,
       rq_Authors r, rq_Owners r]) @
     FormatInt (UnixNano (rq_Since r)) @ ''|'' @ FormatInt (UnixNano (rq_Until r)) @ ''|'' @
     FormatInt (sel_Limit sel) @ ''|'' @ FormatBool (sel_Recent sel) @ ''|'' @
     FormatBool (sel_Counts sel) @ ''|'' @ FormatInt (sel_Facets sel)"

definition ranked_key :: "64 word \<Rightarrow> string \<Rightarrow> request \<Rightarrow> selection \<Rightarrow> string" where
  "ranked_key gen fp r sel = Itoa (unat gen) @ ''|'' @ fp @ ''|'' @ writeRequest r sel"

definition corpus_key :: "64 word \<Rightarrow> string \<Rightarrow> string list \<Rightarrow> string" where
  "corpus_key gen tenant terms =
     Itoa (unat gen) @ ''|'' @ tenant @ concat (map (\<lambda>t. ''|'' @ t) (sorted_compact terms))"

section \<open>Layers\<close>

definition cached_ranked ::
  "(string \<Rightarrow> string) \<Rightarrow> unicode \<Rightarrow> index_cache \<Rightarrow> principal option \<Rightarrow> request \<Rightarrow> selection \<Rightarrow>
    gtime \<Rightarrow> ranked res \<Rightarrow> gtime \<Rightarrow> ranked res \<times> index_cache" where
  "cached_ranked H U c p r sel now call later =
     (let fp = Fingerprint H U p in
      if fp = '''' then (call, c)
      else
        let key = ranked_key (generation c (p_Tenant (the p))) fp r sel;
            (res, layer) = Do (ic_results c) key now call later
        in (res, c\<lparr>ic_results := layer\<rparr>))"

definition shapeOf ::
  "(string \<Rightarrow> string) \<Rightarrow> unicode \<Rightarrow> index_cache \<Rightarrow> principal option \<Rightarrow> gtime \<Rightarrow> reach res \<Rightarrow> gtime \<Rightarrow>
    reach res \<times> index_cache" where
  "shapeOf H U c p now call later =
     (let fp = Fingerprint H U p in
      if fp = '''' then (call, c)
      else let (res, layer) = Do (ic_shape c) fp now call later in (res, c\<lparr>ic_shape := layer\<rparr>))"

definition corpusStats ::
  "index_cache \<Rightarrow> principal option \<Rightarrow> string list \<Rightarrow> gtime \<Rightarrow> corpus res \<Rightarrow> gtime \<Rightarrow>
    corpus res \<times> index_cache" where
  "corpusStats c p terms now call later =
     (if p = None \<or> ic_blind c then (call, c)
      else
        let key = corpus_key (generation c (p_Tenant (the p))) (p_Tenant (the p)) terms;
            (res, layer) = Do (ic_corpus c) key now call later
        in (res, c\<lparr>ic_corpus := layer\<rparr>))"

fun document_loop ::
  "gtime \<Rightarrow> document cache \<Rightarrow> (string, document) fmap \<Rightarrow> string list \<Rightarrow> string list \<Rightarrow>
    ((string, document) fmap \<times> string list) \<times> document cache" where
  "document_loop now layer have missing [] = ((have, missing), layer)"
| "document_loop now layer have missing (i # ids) =
     (case Cache_Get layer i now of
        (Some d, layer) \<Rightarrow> document_loop now layer (fmupd i d have) missing ids
      | (None, layer) \<Rightarrow> document_loop now layer have (missing @ [i]) ids)"

definition cached_documents ::
  "index_cache \<Rightarrow> string list \<Rightarrow> gtime \<Rightarrow> ((string, document) fmap \<times> string list) \<times> index_cache" where
  "cached_documents c ids now =
     (if ic_blind c then ((fmempty, ids), c)
      else let (res, layer) = document_loop now (ic_docs c) fmempty [] ids in (res, c\<lparr>ic_docs := layer\<rparr>))"

text \<open>\<open>order\<close> is the order Go's map iteration happens to have.\<close>

definition putDocuments ::
  "index_cache \<Rightarrow> (string, document) fmap \<Rightarrow> string list \<Rightarrow> gtime \<Rightarrow> index_cache" where
  "putDocuments c docs order now =
     (if ic_blind c then c
      else c\<lparr>ic_docs := foldl (\<lambda>layer i. Cache_Put layer i (the (fmlookup docs i)) now) (ic_docs c) order\<rparr>)"

end
