(* ===== verification/Index_Search.thy ===== *)
theory Index_Search
  imports Index_Text Index_Cache Memstore_View
begin

text \<open>
  The searcher of package \<open>index\<close> (\<open>index.go\<close>, \<open>score.go\<close>, \<open>spell.go\<close>): retrieval with whatever
  capability the store has, statistics, ranking, the page, its snippets and answer, the correction
  of a query that found nothing, the recent documents and the filter rail.

  A store is a \<open>driver\<close> record: the required operations, and the optional capabilities as options.
  Other requests and writes run between the calls of one search, so the environment of a search
  says how the store stands at each call it makes and what the clock reads at each tick it looks
  at it; a store's capabilities are its type's and do not change. The searcher with its cache is
  the state that is passed on and returned. The parameter \<open>F\<close> is float arithmetic, \<open>H\<close> the hash of
  the visibility fingerprint.
\<close>

section \<open>Stores\<close>

record walk =
  wk_seen :: "candidate list"
  wk_matched :: int
  wk_counts :: drill
  wk_walked :: int
  wk_truncated :: bool

type_synonym take_fn = "document \<Rightarrow> walk \<Rightarrow> bool \<times> walk"

record driver =
  dr_scan :: "principal option \<Rightarrow> take_fn \<Rightarrow> walk \<Rightarrow> error option \<times> walk"
  dr_get :: "principal option \<Rightarrow> string \<Rightarrow> document res"
  dr_rank :: "(principal option \<Rightarrow> request \<Rightarrow> selection \<Rightarrow> ranked res) option"
  dr_retrieve :: "(principal option \<Rightarrow> request \<Rightarrow> take_fn \<Rightarrow> walk \<Rightarrow> error option \<times> walk) option"
  dr_statistics :: "(principal option \<Rightarrow> string list \<Rightarrow> corpus res) option"
  dr_near :: "(principal option \<Rightarrow> string \<Rightarrow> int \<Rightarrow> string list res) option"
  dr_reachable :: "(principal option \<Rightarrow> reach res) option"
  dr_fetch :: "(principal option \<Rightarrow> string list \<Rightarrow> document list res) option"

datatype call = ToCollect | ToConfirm | ToStatistics | ToNear string | ToReach | ToFetch | ToGet string

datatype tick = Begin | Scoring | Finish | Before call | After call | DocsGet | DocsPut

record env =
  en_store :: "call \<Rightarrow> driver"
  en_clock :: "tick \<Rightarrow> gtime"
  en_order :: "string list \<Rightarrow> string list"

section \<open>Searchers (index.go)\<close>

record searcher =
  se_cache :: "index_cache option"
  se_halfLife :: duration
  se_watching :: bool

definition WithRecencyHalfLife :: "duration \<Rightarrow> searcher \<Rightarrow> searcher" where
  "WithRecencyHalfLife d s = s\<lparr>se_halfLife := d\<rparr>"

definition WithCache :: "index_cache \<Rightarrow> searcher \<Rightarrow> searcher" where
  "WithCache c s = s\<lparr>se_cache := Some c\<rparr>"

definition NewSearcher :: "bool \<Rightarrow> (searcher \<Rightarrow> searcher) list \<Rightarrow> searcher" where
  "NewSearcher notifier opts =
     (let s = foldl (\<lambda>s opt. opt s)
            \<lparr>se_cache = None, se_halfLife = 180 * 24 * Hour, se_watching = False\<rparr> opts
      in case se_cache s of
           None \<Rightarrow> s
         | Some c \<Rightarrow> s\<lparr>se_cache := Some (Watch c notifier), se_watching := notifier\<rparr>)"

definition CloseSearcher :: "searcher \<Rightarrow> searcher" where
  "CloseSearcher s = (if se_watching s then s\<lparr>se_watching := False\<rparr> else s)"

definition CacheStats :: "searcher \<Rightarrow> (string, cache_stats) fmap option" where
  "CacheStats s = (case se_cache s of None \<Rightarrow> None | Some c \<Rightarrow> Some (IndexCache_Stats c))"

definition Retrieving :: "driver \<Rightarrow> bool" where
  "Retrieving st = (if dr_rank st \<noteq> None then True else dr_retrieve st \<noteq> None)"

definition Ranking :: "driver \<Rightarrow> bool" where
  "Ranking st \<longleftrightarrow> dr_rank st \<noteq> None"

section \<open>Retrieval (score.go)\<close>

record pool =
  po_cands :: "candidate list"
  po_total :: int
  po_truncated :: bool
  po_facets :: "(string, facet list) fmap"
  po_approximate :: bool
  po_corpus :: corpus

definition zero_corpus :: corpus where
  "zero_corpus = \<lparr>co_Documents = 0, co_TitleTokens = 0, co_BodyTokens = 0, co_DocFreq = fmempty\<rparr>"

definition take_doc :: "unicode \<Rightarrow> request \<Rightarrow> selection \<Rightarrow> take_fn" where
  "take_doc U r sel d w =
     (if MaxMatches \<le> wk_walked w then (False, w\<lparr>wk_truncated := True\<rparr>)
      else
        let w = w\<lparr>wk_walked := wk_walked w + 1\<rparr>;
            (hit, counts) = drill_add U (wk_counts w) d;
            w = w\<lparr>wk_counts := counts\<rparr>
        in if \<not> hit then (True, w)
           else
             let w = w\<lparr>wk_matched := wk_matched w + 1\<rparr>
             in if 0 < sel_Limit sel
                then (True, w\<lparr>wk_seen := wk_seen w @ [candidateOf U d (rq_Terms r)]\<rparr>) else (True, w))"

definition start_walk :: "request \<Rightarrow> walk" where
  "start_walk r =
     \<lparr>wk_seen = [], wk_matched = 0, wk_counts = newDrill r, wk_walked = 0, wk_truncated = False\<rparr>"

definition collect ::
  "(string \<Rightarrow> string) \<Rightarrow> unicode \<Rightarrow> env \<Rightarrow> call \<Rightarrow> searcher \<Rightarrow> principal option \<Rightarrow> request \<Rightarrow>
    selection \<Rightarrow> pool res \<times> searcher" where
  "collect H U e at s p r sel =
     (case dr_rank (en_store e at) of
        Some rank \<Rightarrow>
          let call = rank p r sel;
              (res, s) =
                (case se_cache s of
                   Some c \<Rightarrow>
                     let (res, c) = cached_ranked H U c p r sel (en_clock e (Before at)) call
                           (en_clock e (After at))
                     in (res, s\<lparr>se_cache := Some c\<rparr>)
                 | None \<Rightarrow> (call, s))
          in (case res of
                Inl err \<Rightarrow> (Inl err, s)
              | Inr ranked \<Rightarrow>
                  (Inr \<lparr>po_cands = rk_Candidates ranked, po_total = rk_Total ranked,
                        po_truncated = rk_Truncated ranked, po_facets = facetsFrom (rk_Facets ranked),
                        po_approximate = rk_Approximate ranked, po_corpus = zero_corpus\<rparr>, s))
      | None \<Rightarrow>
          let base = WithoutFacets r;
              (err, w) =
                (case dr_retrieve (en_store e at) of
                   Some retrieve \<Rightarrow> retrieve p base (take_doc U r sel) (start_walk r)
                 | None \<Rightarrow>
                     dr_scan (en_store e at) p
                       (\<lambda>d w. if \<not> Matches U base d then (True, w) else take_doc U r sel d w)
                       (start_walk r))
          in (case err of
                Some x \<Rightarrow> (Inl x, s)
              | None \<Rightarrow>
                  (Inr \<lparr>po_cands = wk_seen w, po_total = wk_matched w, po_truncated = wk_truncated w,
                        po_facets = drill_facets (wk_counts w), po_approximate = wk_truncated w,
                        po_corpus = zero_corpus\<rparr>, s)))"

definition add_candidate :: "corpus \<Rightarrow> candidate \<Rightarrow> corpus" where
  "add_candidate c cand =
     c\<lparr>co_TitleTokens := co_TitleTokens c + cd_TitleTokens cand,
       co_BodyTokens := co_BodyTokens c + cd_BodyTokens cand,
       co_DocFreq := foldl bump (co_DocFreq c) (map_keys (cd_Terms cand))\<rparr>"

definition statistics ::
  "env \<Rightarrow> searcher \<Rightarrow> principal option \<Rightarrow> string list \<Rightarrow> pool \<Rightarrow> corpus res \<times> searcher" where
  "statistics e s p terms pool =
     (case dr_statistics (en_store e ToStatistics) of
        Some stats \<Rightarrow>
          let call = stats p terms
          in (case se_cache s of
                Some c \<Rightarrow>
                  let (res, c) = corpusStats c p terms (en_clock e (Before ToStatistics)) call
                        (en_clock e (After ToStatistics))
                  in (res, s\<lparr>se_cache := Some c\<rparr>)
              | None \<Rightarrow> (call, s))
      | None \<Rightarrow>
          (Inr (foldl add_candidate
             (zero_corpus\<lparr>co_Documents := int (length (po_cands pool))\<rparr>) (po_cands pool)), s))"

section \<open>Fetching (index.go)\<close>

fun get_loop ::
  "env \<Rightarrow> principal option \<Rightarrow> (string, document) fmap \<Rightarrow> string list \<Rightarrow> (string, document) fmap" where
  "get_loop e p out [] = out"
| "get_loop e p out (i # ids) =
     (case dr_get (en_store e (ToGet i)) p i of
        Inl _ \<Rightarrow> get_loop e p out ids
      | Inr d \<Rightarrow> get_loop e p (fmupd i d out) ids)"

definition read :: "env \<Rightarrow> principal option \<Rightarrow> string list \<Rightarrow> (string, document) fmap res" where
  "read e p ids =
     (case dr_fetch (en_store e ToFetch) of
        Some fetch \<Rightarrow>
          (case fetch p ids of
             Inl err \<Rightarrow> Inl err
           | Inr docs \<Rightarrow> Inr (foldl (\<lambda>out d. fmupd (doc_ID d) d out) fmempty docs))
      | None \<Rightarrow> Inr (get_loop e p fmempty ids))"

definition fetch ::
  "env \<Rightarrow> searcher \<Rightarrow> principal option \<Rightarrow> 'f scored_cand list \<Rightarrow> (string, document) fmap res \<times> searcher"
where
  "fetch e s p window =
     (if length window = 0 then (Inr fmempty, s)
      else
        let ids = map (\<lambda>r. cd_ID (sc_cand r)) window
        in (case se_cache s of
              None \<Rightarrow>
                (case read e p ids of
                   Inl err \<Rightarrow> (Inl err, s)
                 | Inr fetched \<Rightarrow> (Inr (fmempty ++\<^sub>f fetched), s))
            | Some c \<Rightarrow>
                let ((out, missing), c) = cached_documents c ids (en_clock e DocsGet);
                    s = s\<lparr>se_cache := Some c\<rparr>
                in if length missing = 0 then (Inr out, s)
                   else
                     (case read e p missing of
                        Inl err \<Rightarrow> (Inl err, s)
                      | Inr fetched \<Rightarrow>
                          let c = putDocuments c fetched (en_order e (map_keys fetched)) (en_clock e DocsPut)
                          in (Inr (out ++\<^sub>f fetched), s\<lparr>se_cache := Some c\<rparr>))))"

section \<open>Corrections (spell.go)\<close>

definition correctionWords :: nat where "correctionWords = 4"
definition correctionShortest :: nat where "correctionShortest = 3"

fun swap_loop ::
  "env \<Rightarrow> principal option \<Rightarrow> corpus \<Rightarrow> (string, string) fmap \<Rightarrow> string list \<Rightarrow>
    (string, string) fmap res" where
  "swap_loop e p corpus swap [] = Inr swap"
| "swap_loop e p corpus swap (t # ts) =
     (if 0 < doc_freq corpus t \<or> RuneCount t < correctionShortest then swap_loop e p corpus swap ts
      else
        (case the (dr_near (en_store e (ToNear t))) p t 1 of
           Inl err \<Rightarrow> Inl err
         | Inr near \<Rightarrow>
             swap_loop e p corpus (if 0 < length near then fmupd t (near ! 0) swap else swap) ts))"

definition correct_query ::
  "(string \<Rightarrow> string) \<Rightarrow> unicode \<Rightarrow> env \<Rightarrow> searcher \<Rightarrow> principal option \<Rightarrow> query \<Rightarrow> string list \<Rightarrow>
    corpus \<Rightarrow> string res \<times> searcher" where
  "correct_query H U e s p q terms corpus =
     (if dr_near (en_store e ToConfirm) = None \<or> q_Text q = '''' \<or> length terms = 0 \<or>
         correctionWords < length terms then (Inr '''', s)
      else
        (case swap_loop e p corpus fmempty terms of
           Inl err \<Rightarrow> (Inl err, s)
         | Inr swap \<Rightarrow>
             if fmdom swap = {||} then (Inr '''', s)
             else
               let new = replaceTerms U (q_Text q) swap
               in if new = q_Text q then (Inr '''', s)
                  else
                    let confirm = q\<lparr>q_Text := new\<rparr>;
                        (found, s) = collect H U e ToConfirm s p (Request U confirm)
                          \<lparr>sel_Limit = 1, sel_Recent = False, sel_Counts = False, sel_Facets = 0\<rparr>
                    in (case found of
                          Inl err \<Rightarrow> (Inl err, s)
                        | Inr pool \<Rightarrow> if length (po_cands pool) = 0 then (Inr '''', s) else (Inr new, s))))"

section \<open>Searching (index.go)\<close>

record 'f results =
  rs_Hits :: "'f search_result list"
  rs_Total :: int
  rs_Truncated :: bool
  rs_Facets :: "(string, facet list) fmap"
  rs_Approximate :: bool
  rs_Candidates :: int
  rs_Answer :: search_answer
  rs_Correction :: string
  rs_Took :: duration

definition result_of :: "unicode \<Rightarrow> string list \<Rightarrow> document \<Rightarrow> 'f \<Rightarrow> 'f search_result" where
  "result_of U terms full x =
     (let (short, passages) = snippet U full terms
      in \<lparr>re_Document = full, re_Score = x, re_Snippet = short, re_Passages = passages\<rparr>)"

fun hits_loop ::
  "unicode \<Rightarrow> string list \<Rightarrow> (string, document) fmap \<Rightarrow> 'f scored_cand list \<Rightarrow> 'f search_result list" where
  "hits_loop U terms bodies [] = []"
| "hits_loop U terms bodies (r # window) =
     (case fmlookup bodies (cd_ID (sc_cand r)) of
        None \<Rightarrow> hits_loop U terms bodies window
      | Some full \<Rightarrow> result_of U terms full (sc_score r) # hits_loop U terms bodies window)"

definition ranking ::
  "'f::linorder floats \<Rightarrow> duration \<Rightarrow> gtime \<Rightarrow> sort_order \<Rightarrow> string list \<Rightarrow> corpus \<Rightarrow> candidate list \<Rightarrow>
    'f scored_cand list" where
  "ranking F halfLife now order terms corpus cands =
     (let scored = map (\<lambda>c. \<lparr>sc_cand = c, sc_score =
            fl_mul F (score F c terms corpus) (recency_weight F halfLife (cd_ModifiedAt c) now)\<rparr>) cands
      in if order = ByRecent then byRecent scored else sort_by score_less scored)"

definition Search ::
  "'f::linorder floats \<Rightarrow> (string \<Rightarrow> string) \<Rightarrow> unicode \<Rightarrow> env \<Rightarrow> searcher \<Rightarrow> principal option \<Rightarrow>
    query \<Rightarrow> 'f results res \<times> searcher" where
  "Search F H U e s p q =
     (let start = en_clock e Begin;
          limit = page_limit (q_Limit q);
          req = Request U q;
          sel = \<lparr>sel_Limit = CandidatePool (q_Offset q) limit, sel_Recent = (q_Sort q = ByRecent),
                 sel_Counts = True, sel_Facets = FacetPool\<rparr>
      in
      case collect H U e ToCollect s p req sel of
        (Inl err, s) \<Rightarrow> (Inl err, s)
      | (Inr found, s) \<Rightarrow>
          (case statistics e s p (rq_Terms req) found of
             (Inl err, s) \<Rightarrow> (Inl err, s)
           | (Inr corpus, s) \<Rightarrow>
               let res = \<lparr>rs_Hits = [], rs_Total = po_total found, rs_Truncated = po_truncated found,
                     rs_Facets = po_facets found, rs_Approximate = po_approximate found,
                     rs_Candidates = int (length (po_cands found)), rs_Answer = \<lparr>sa_Quotes = []\<rparr>,
                     rs_Correction = '''', rs_Took = 0\<rparr>
               in if length (po_cands found) = 0 then
                    (case correct_query H U e s p q (rq_Terms req) corpus of
                       (Inl err, s) \<Rightarrow> (Inl err, s)
                     | (Inr correction, s) \<Rightarrow>
                         (Inr (res\<lparr>rs_Correction := correction,
                                   rs_Took := Time_Sub (en_clock e Finish) start\<rparr>), s))
                  else
                    let scored = ranking F (se_halfLife s) (en_clock e Scoring) (q_Sort q)
                          (rq_Terms req) corpus (po_cands found);
                        window = page scored (q_Offset q) limit
                    in (case fetch e s p window of
                          (Inl err, s) \<Rightarrow> (Inl err, s)
                        | (Inr bodies, s) \<Rightarrow>
                            let res = res\<lparr>rs_Hits := hits_loop U (rq_Terms req) bodies window\<rparr>;
                                res = (if q_Offset q = 0 \<and> q_Sort q \<noteq> ByRecent
                                       then res\<lparr>rs_Answer := answer U (rs_Hits res) (rq_Terms req)\<rparr>
                                       else res)
                            in (Inr (res\<lparr>rs_Took := Time_Sub (en_clock e Finish) start\<rparr>), s))))"

fun recent_loop :: "(string, document) fmap \<Rightarrow> 'f scored_cand list \<Rightarrow> document list" where
  "recent_loop bodies [] = []"
| "recent_loop bodies (r # window) =
     (case fmlookup bodies (cd_ID (sc_cand r)) of
        None \<Rightarrow> recent_loop bodies window
      | Some d \<Rightarrow> d # recent_loop bodies window)"

definition zero_request :: request where
  "zero_request = \<lparr>rq_Terms = [], rq_Sources = [], rq_Kinds = [], rq_Containers = [], rq_Authors = [],
     rq_Owners = [], rq_Since = 0, rq_Until = 0\<rparr>"

definition Recent ::
  "(string \<Rightarrow> string) \<Rightarrow> unicode \<Rightarrow> env \<Rightarrow> searcher \<Rightarrow> principal option \<Rightarrow> int \<Rightarrow>
    document list res \<times> searcher" where
  "Recent H U e s p limit =
     (let limit = page_limit limit in
      case collect H U e ToCollect s p zero_request
             \<lparr>sel_Limit = limit, sel_Recent = True, sel_Counts = False, sel_Facets = 0\<rparr> of
        (Inl err, s) \<Rightarrow> (Inl err, s)
      | (Inr found, s) \<Rightarrow>
          if length (po_cands found) = 0 then (Inr [], s)
          else
            let scored = byRecent (map (\<lambda>c. \<lparr>sc_cand = c, sc_score = ()\<rparr>) (po_cands found));
                window = page scored 0 limit
            in (case fetch e s p window of
                  (Inl err, s) \<Rightarrow> (Inl err, s)
                | (Inr bodies, s) \<Rightarrow> (Inr (recent_loop bodies window), s)))"

definition FilterCounts ::
  "(string \<Rightarrow> string) \<Rightarrow> unicode \<Rightarrow> env \<Rightarrow> searcher \<Rightarrow> principal option \<Rightarrow>
    (string, facet list) fmap res \<times> searcher" where
  "FilterCounts H U e s p =
     (case dr_reachable (en_store e ToReach) of
        Some reachable \<Rightarrow>
          let call = reachable p;
              (res, s) =
                (case se_cache s of
                   Some c \<Rightarrow>
                     let (res, c) = shapeOf H U c p (en_clock e (Before ToReach)) call
                           (en_clock e (After ToReach))
                     in (res, s\<lparr>se_cache := Some c\<rparr>)
                 | None \<Rightarrow> (call, s))
          in (case res of
                Inl err \<Rightarrow> (Inl err, s)
              | Inr counts \<Rightarrow>
                  (Inr (facetsFrom (fmap_of_list
                     [(''source'', reach_Sources counts), (''kind'', reach_Kinds counts)])), s))
      | None \<Rightarrow>
          (case collect H U e ToCollect s p zero_request
                  \<lparr>sel_Limit = 0, sel_Recent = False, sel_Counts = True, sel_Facets = FacetPool\<rparr> of
             (Inl err, s) \<Rightarrow> (Inl err, s)
           | (Inr found, s) \<Rightarrow> (Inr (po_facets found), s)))"

section \<open>The memory store as a driver\<close>

definition memstore_driver :: "unicode \<Rightarrow> ctx \<Rightarrow> memstore \<Rightarrow> driver" where
  "memstore_driver U ctx s =
     \<lparr>dr_scan = (\<lambda>p fn st. Scan U ctx p fn st s), dr_get = (\<lambda>p i. Get U ctx p i s),
      dr_rank = None, dr_retrieve = None,
      dr_statistics = Some (\<lambda>p terms. Statistics U ctx p terms s),
      dr_near = Some (\<lambda>p t limit. Near U ctx p t limit s),
      dr_reachable = Some (\<lambda>p. Reachable U ctx p s), dr_fetch = None\<rparr>"

end
