(* ===== verification/Index_Search_Facts.thy ===== *)
theory Index_Search_Facts
  imports Index_Search
begin

text \<open>
  What a search over the memory store answers. The retrieval is computed first: what the walk over
  the store takes is a function of the documents the principal may read. Then the hits, the total,
  the facet counts, the order, the correction and the recent documents of a search are read off
  it, and what a search depends on.
\<close>

section \<open>The environment\<close>

definition mem_env ::
  "unicode \<Rightarrow> ctx \<Rightarrow> (call \<Rightarrow> memstore) \<Rightarrow> (tick \<Rightarrow> gtime) \<Rightarrow> (string list \<Rightarrow> string list) \<Rightarrow> env" where
  "mem_env U ctx sts clock order =
     \<lparr>en_store = (\<lambda>at. memstore_driver U ctx (sts at)), en_clock = clock, en_order = order\<rparr>"

lemma mem_env_simps [simp]:
  "dr_rank (en_store (mem_env U ctx sts clock order) at) = None"
  "dr_retrieve (en_store (mem_env U ctx sts clock order) at) = None"
  "dr_fetch (en_store (mem_env U ctx sts clock order) at) = None"
  "dr_scan (en_store (mem_env U ctx sts clock order) at) p fn w = Scan U ctx p fn w (sts at)"
  "dr_get (en_store (mem_env U ctx sts clock order) at) p i = Get U ctx p i (sts at)"
  "dr_statistics (en_store (mem_env U ctx sts clock order) at) =
     Some (\<lambda>p terms. Statistics U ctx p terms (sts at))"
  "dr_near (en_store (mem_env U ctx sts clock order) at) =
     Some (\<lambda>p t limit. Near U ctx p t limit (sts at))"
  "dr_reachable (en_store (mem_env U ctx sts clock order) at) = Some (\<lambda>p. Reachable U ctx p (sts at))"
  "en_clock (mem_env U ctx sts clock order) = clock" "en_order (mem_env U ctx sts clock order) = order"
  by (simp_all add: mem_env_def memstore_driver_def)

text \<open>The documents a principal may read, in the order the store walks them.\<close>

definition visible_docs :: "unicode \<Rightarrow> principal \<Rightarrow> memstore \<Rightarrow> document list" where
  "visible_docs U q s =
     filter (visible U q) (map (\<lambda>i. the (fmlookup (st_docs s) i)) (map_keys (st_docs s)))"

lemma set_visible_docs:
  "d \<in> set (visible_docs U q s) \<longleftrightarrow> (\<exists>i. fmlookup (st_docs s) i = Some d) \<and> visible U q d"
  by (auto simp: visible_docs_def fmlookup_dom_iff image_iff) (metis fmdomI option.sel)

lemma yield_all_filter:
  "yield_all (\<lambda>x st. if \<not> P x then (True, st) else f x st) xs st = yield_all f (filter P xs) st"
  by (induction xs arbitrary: st) (simp_all split: prod.split bool.split)

lemma Scan_visible:
  assumes "\<not> st_closed s"
  shows "Scan U None (Some q) fn w s = (None, snd (yield_all fn (visible_docs U q s) w))"
proof -
  have "yield_all (\<lambda>i st. let d = the (fmlookup (st_docs s) i)
      in if \<not> visible U q d then (True, st) else fn d st) ks w =
    yield_all fn (filter (visible U q) (map (\<lambda>i. the (fmlookup (st_docs s) i)) ks)) w" for ks
    unfolding yield_all_filter [symmetric] yield_all_map by (simp add: Let_def)
  with assms show ?thesis by (simp add: Scan_def visible_docs_def)
qed

section \<open>The walk\<close>

definition add_all :: "unicode \<Rightarrow> drill \<Rightarrow> document list \<Rightarrow> drill" where
  "add_all U dr ds = foldl (\<lambda>dr d. snd (drill_add U dr d)) dr ds"

definition passes_all :: "unicode \<Rightarrow> request \<Rightarrow> document \<Rightarrow> bool" where
  "passes_all U r d \<longleftrightarrow> (\<forall>f \<in> set FacetFields. Passes U r f d)"

lemma take_doc_walk:
  assumes "drill_ok (wk_counts w)" "dr_r (wk_counts w) = r" "0 \<le> wk_walked w" "wk_walked w \<le> MaxMatches"
  shows "snd (yield_all (take_doc U r sel) ds w) =
    (let ts = take (nat (MaxMatches - wk_walked w)) ds
     in w\<lparr>wk_seen := wk_seen w @ (if 0 < sel_Limit sel
              then map (\<lambda>d. candidateOf U d (rq_Terms r)) (filter (passes_all U r) ts) else []),
          wk_matched := wk_matched w + int (length (filter (passes_all U r) ts)),
          wk_counts := add_all U (wk_counts w) ts,
          wk_walked := wk_walked w + int (length ts),
          wk_truncated := wk_truncated w \<or> length ts < length ds\<rparr>)"
  using assms
proof (induction ds arbitrary: w)
  case Nil
  then show ?case by (simp add: add_all_def Let_def)
next
  case (Cons d ds)
  show ?case
  proof (cases "MaxMatches \<le> wk_walked w")
    case True
    then show ?thesis by (simp add: take_doc_def add_all_def Let_def)
  next
    case False
    then have n: "nat (MaxMatches - wk_walked w) = Suc (nat (MaxMatches - (wk_walked w + 1)))" by linarith
    obtain hit counts where add: "drill_add U (wk_counts w) d = (hit, counts)" by fastforce
    note dr = drill_add_count [OF Cons.prems(1) add]
    have hit: "hit \<longleftrightarrow> passes_all U r d"
      using dr(3) Cons.prems(2) by (simp add: passes_all_def)
    define w' where "w' = snd (take_doc U r sel d w)"
    have step: "take_doc U r sel d w = (True, w')"
      using False by (auto simp: w'_def take_doc_def add Let_def)
    have w': "wk_counts w' = counts" "wk_walked w' = wk_walked w + 1" "wk_truncated w' = wk_truncated w"
      "wk_matched w' = wk_matched w + (if passes_all U r d then 1 else 0)"
      "wk_seen w' = wk_seen w @
         (if 0 < sel_Limit sel \<and> passes_all U r d then [candidateOf U d (rq_Terms r)] else [])"
      using False by (auto simp: w'_def take_doc_def add Let_def hit)
    have "snd (yield_all (take_doc U r sel) (d # ds) w) = snd (yield_all (take_doc U r sel) ds w')"
      by (simp add: step)
    also have "\<dots> = (let ts = take (nat (MaxMatches - (wk_walked w + 1))) ds
     in w'\<lparr>wk_seen := wk_seen w' @ (if 0 < sel_Limit sel
              then map (\<lambda>d. candidateOf U d (rq_Terms r)) (filter (passes_all U r) ts) else []),
          wk_matched := wk_matched w' + int (length (filter (passes_all U r) ts)),
          wk_counts := add_all U (wk_counts w') ts,
          wk_walked := wk_walked w' + int (length ts),
          wk_truncated := wk_truncated w' \<or> length ts < length ds\<rparr>)"
      unfolding w'(2) [symmetric] using Cons.prems False dr(1,2) by (intro Cons.IH) (simp_all add: w')
    finally show ?thesis
      unfolding n by (simp add: Let_def w' add_all_def add)
  qed
qed

definition matching_docs :: "unicode \<Rightarrow> principal \<Rightarrow> request \<Rightarrow> memstore \<Rightarrow> document list" where
  "matching_docs U q r s = filter (Matches U (WithoutFacets r)) (visible_docs U q s)"

definition walked_docs :: "unicode \<Rightarrow> principal \<Rightarrow> request \<Rightarrow> memstore \<Rightarrow> document list" where
  "walked_docs U q r s = take (nat MaxMatches) (matching_docs U q r s)"

definition found_docs :: "unicode \<Rightarrow> principal \<Rightarrow> request \<Rightarrow> memstore \<Rightarrow> document list" where
  "found_docs U q r s = filter (passes_all U r) (walked_docs U q r s)"

lemma Matches_base: "Matches U (WithoutFacets r) d = unfaceted U r d"
  using Matches_WithoutFacets [of U r d "''''"]
  by (auto simp: WithoutFacets_def FacetFields_def Without_def Constrains_def)

lemma passes_all_Matches: "Matches U (WithoutFacets r) d \<and> passes_all U r d \<longleftrightarrow> Matches U r d"
  unfolding Matches_base passes_all_def Matches_parts [of U r d] by blast

lemma set_found_docs:
  assumes "d \<in> set (found_docs U q r s)"
  shows "\<exists>i. fmlookup (st_docs s) i = Some d" "visible U q d" "Matches U r d"
proof -
  have "d \<in> set (visible_docs U q s)" and "Matches U (WithoutFacets r) d" and "passes_all U r d"
    using assms by (auto simp: found_docs_def walked_docs_def matching_docs_def dest: in_set_takeD)
  then show "\<exists>i. fmlookup (st_docs s) i = Some d" "visible U q d" "Matches U r d"
    using passes_all_Matches [of U r d] by (simp_all add: set_visible_docs)
qed

lemma found_docs_all:
  assumes "int (length (matching_docs U q r s)) \<le> MaxMatches"
  shows "found_docs U q r s = filter (Matches U r) (visible_docs U q s)"
proof -
  have "walked_docs U q r s = matching_docs U q r s"
    using assms by (simp add: walked_docs_def MaxMatches_def)
  moreover have "(Matches U (WithoutFacets r) d \<and> passes_all U r d) = Matches U r d" for d
    using passes_all_Matches [of U r d] by blast
  ultimately show ?thesis by (simp add: found_docs_def matching_docs_def)
qed

lemma start_walk_simps [simp]:
  "wk_seen (start_walk r) = []" "wk_matched (start_walk r) = 0" "wk_counts (start_walk r) = newDrill r"
  "wk_walked (start_walk r) = 0" "wk_truncated (start_walk r) = False"
  by (simp_all add: start_walk_def)

definition mem_pool :: "unicode \<Rightarrow> principal \<Rightarrow> request \<Rightarrow> selection \<Rightarrow> memstore \<Rightarrow> pool" where
  "mem_pool U q r sel s =
     \<lparr>po_cands = if 0 < sel_Limit sel then map (\<lambda>d. candidateOf U d (rq_Terms r)) (found_docs U q r s) else [],
      po_total = int (length (found_docs U q r s)),
      po_truncated = (MaxMatches < int (length (matching_docs U q r s))),
      po_facets = drill_facets (add_all U (newDrill r) (walked_docs U q r s)),
      po_approximate = (MaxMatches < int (length (matching_docs U q r s))), po_corpus = zero_corpus\<rparr>"

lemma collect_mem:
  "collect H U (mem_env U ctx sts clock order) at se p r sel =
     (case ctx of Some e \<Rightarrow> Inl e | None \<Rightarrow>
       (case p of None \<Rightarrow> Inl ErrNoPrincipal | Some q \<Rightarrow>
         if st_closed (sts at) then Inl ErrClosed else Inr (mem_pool U q r sel (sts at))), se)"
proof (cases ctx)
  case None
  show ?thesis
  proof (cases p)
    case (Some q)
    have walk: "snd (yield_all (\<lambda>d w. if \<not> Matches U (WithoutFacets r) d then (True, w) else take_doc U r sel d w)
        (visible_docs U q (sts at)) (start_walk r)) =
      snd (yield_all (take_doc U r sel) (matching_docs U q r (sts at)) (start_walk r))"
      by (simp only: yield_all_filter matching_docs_def)
    have more: "length (take (nat MaxMatches) ds) < length ds \<longleftrightarrow> MaxMatches < int (length ds)" for ds :: "document list"
      by (auto simp: MaxMatches_def)
    note taken = take_doc_walk [of "start_walk r" r U sel "matching_docs U q r (sts at)"]
    show ?thesis
    proof (cases "st_closed (sts at)")
      case False
      then show ?thesis
        using None Some taken
        by (simp add: collect_def Scan_visible walk mem_pool_def newDrill_ok more Let_def
            found_docs_def walked_docs_def) (auto simp: MaxMatches_def)
    qed (simp add: collect_def Scan_def None Some)
  qed (simp add: collect_def Scan_def None)
qed (simp add: collect_def Scan_def)

section \<open>Facet counts\<close>

text \<open>How many of \<open>ds\<close> pass every facet constraint but the field's own and show the value.\<close>

definition drilled :: "unicode \<Rightarrow> request \<Rightarrow> document list \<Rightarrow> string \<Rightarrow> string \<Rightarrow> int" where
  "drilled U r ds f v = int (length (filter
     (\<lambda>d. (\<forall>g \<in> set FacetFields - {f}. Passes U r g d) \<and> valueOf f d = v) ds))"

definition counts_positive :: "drill \<Rightarrow> bool" where
  "counts_positive dr \<longleftrightarrow>
     (\<forall>f m v n. fmlookup (dr_counts dr) f = Some m \<longrightarrow> fmlookup m v = Some n \<longrightarrow> 0 < n)"

lemma count_field_positive: "counts_positive dr \<Longrightarrow> drill_ok dr \<Longrightarrow> f \<in> set FacetFields \<Longrightarrow>
    counts_positive (count_field d dr f)"
  using drill_ok_lookup [of dr f]
  by (fastforce simp: counts_positive_def count_field_def bump_def split: if_splits option.splits)

lemma count_fields_positive: "counts_positive dr \<Longrightarrow> drill_ok dr \<Longrightarrow> set fs \<subseteq> set FacetFields \<Longrightarrow>
    counts_positive (foldl (count_field d) dr fs)"
  by (induction fs arbitrary: dr) (simp_all add: count_field_positive count_field_ok)

lemma drill_add_positive:
  assumes "counts_positive dr" "drill_ok dr"
  shows "counts_positive (snd (drill_add U dr d))"
  using assms drill_missing_field [of U "dr_r dr" d]
  by (auto simp: drill_add_def count_field_positive count_fields_positive split: option.split)

lemma add_all_counts:
  assumes "drill_ok dr" "counts_positive dr"
  shows "drill_ok (add_all U dr ds) \<and> counts_positive (add_all U dr ds) \<and> dr_r (add_all U dr ds) = dr_r dr \<and>
    (\<forall>f \<in> set FacetFields. \<forall>v. field_count (add_all U dr ds) f v =
       field_count dr f v + drilled U (dr_r dr) ds f v)"
  using assms
proof (induction ds arbitrary: dr)
  case Nil
  then show ?case by (simp add: add_all_def drilled_def)
next
  case (Cons d ds)
  obtain hit dr' where add: "drill_add U dr d = (hit, dr')" by fastforce
  note step = drill_add_count [OF Cons.prems(1) add]
  have "counts_positive dr'"
    using drill_add_positive [OF Cons.prems(2,1), of U d] by (simp add: add)
  from Cons.IH [OF step(1) this] show ?case
    using step(2,4) by (simp add: add_all_def add drilled_def)
qed

lemma newDrill_positive: "counts_positive (newDrill r)"
  by (auto simp: counts_positive_def newDrill_def FacetFields_def split: if_splits)

lemma mem_pool_facets:
  assumes "f \<in> set FacetFields"
  obtains m where "fmlookup (po_facets (mem_pool U q r sel s)) f = Some (sortedFacets m)"
    "\<And>v n. fmlookup m v = Some n \<longleftrightarrow> n = drilled U r (walked_docs U q r s) f v \<and> 0 < n"
proof -
  let ?dr = "add_all U (newDrill r) (walked_docs U q r s)"
  note all = add_all_counts [OF newDrill_ok(1) newDrill_positive, of U r "walked_docs U q r s"]
  obtain m where m: "fmlookup (dr_counts ?dr) f = Some m"
    using all drill_ok_lookup assms by blast
  have count: "(case fmlookup m v of None \<Rightarrow> 0 | Some n \<Rightarrow> n) = drilled U r (walked_docs U q r s) f v" for v
  proof -
    have "field_count ?dr f v = drilled U r (walked_docs U q r s) f v"
      using all assms by (simp add: newDrill_ok)
    then show ?thesis by (simp add: field_count_def m)
  qed
  have pos: "fmlookup m v = Some n \<Longrightarrow> 0 < n" for v n
    using all m by (simp add: counts_positive_def)
  show ?thesis
  proof (rule that)
    show "fmlookup (po_facets (mem_pool U q r sel s)) f = Some (sortedFacets m)"
      using m by (simp add: mem_pool_def drill_facets_def)
    show "fmlookup m v = Some n \<longleftrightarrow> n = drilled U r (walked_docs U q r s) f v \<and> 0 < n" for v n
      using count [of v] pos [of v] by (cases "fmlookup m v") auto
  qed
qed

lemma drilled_Without:
  assumes "f \<in> set FacetFields" "int (length (matching_docs U q r s)) \<le> MaxMatches"
  shows "drilled U r (walked_docs U q r s) f v =
    int (length (filter (\<lambda>d. Matches U (Without r f) d \<and> valueOf f d = v) (visible_docs U q s)))"
proof -
  have "walked_docs U q r s = matching_docs U q r s"
    using assms(2) by (simp add: walked_docs_def MaxMatches_def)
  moreover have "(Matches U (WithoutFacets r) d \<and> (\<forall>g \<in> set FacetFields - {f}. Passes U r g d) \<and> valueOf f d = v) =
      (Matches U (Without r f) d \<and> valueOf f d = v)" for d
  proof -
    have "(\<forall>g \<in> set FacetFields. Passes U (Without r f) g d) \<longleftrightarrow> (\<forall>g \<in> set FacetFields - {f}. Passes U r g d)"
      by (auto simp: Passes_Without [OF assms(1)])
    then show ?thesis
      using Matches_parts [of U "Without r f" d] Matches_base [of U r d] by auto
  qed
  ultimately show ?thesis by (simp add: drilled_def matching_docs_def)
qed

section \<open>The fetch\<close>

lemma lookup_get_loop:
  "fmlookup (get_loop e p out ids) i =
     (if i \<in> set ids then (case dr_get (en_store e (ToGet i)) p i of Inl _ \<Rightarrow> fmlookup out i | Inr d \<Rightarrow> Some d)
      else fmlookup out i)"
  by (induction e p out ids rule: get_loop.induct) (auto split: sum.splits)

text \<open>A document as the store hands it out when the search asks for it.\<close>

definition handed_out ::
  "unicode \<Rightarrow> ctx \<Rightarrow> (call \<Rightarrow> memstore) \<Rightarrow> principal option \<Rightarrow> string \<Rightarrow> document option" where
  "handed_out U ctx sts p i = (case Get U ctx p i (sts (ToGet i)) of Inl _ \<Rightarrow> None | Inr d \<Rightarrow> Some d)"

lemma handed_out_Some:
  "handed_out U ctx sts p i = Some d \<longleftrightarrow>
     (\<exists>q. ctx = None \<and> p = Some q \<and> \<not> st_closed (sts (ToGet i)) \<and>
       fmlookup (st_docs (sts (ToGet i))) i = Some d \<and> visible U q d)"
  by (auto simp: handed_out_def Get_def split: option.splits if_splits sum.splits)

lemma fetch_mem:
  assumes "se_cache se = None"
  obtains bodies where "fetch (mem_env U ctx sts clock order) se p window = (Inr bodies, se)"
    "\<And>r. r \<in> set window \<Longrightarrow> fmlookup bodies (cd_ID (sc_cand r)) = handed_out U ctx sts p (cd_ID (sc_cand r))"
proof (cases "length window = 0")
  case True
  then show ?thesis by (intro that [of fmempty]) (simp_all add: fetch_def)
next
  case False
  let ?e = "mem_env U ctx sts clock order" and ?ids = "map (\<lambda>r. cd_ID (sc_cand r)) window"
  show ?thesis
  proof (rule that)
    show "fetch ?e se p window = (Inr (get_loop ?e p fmempty ?ids), se)"
      using False assms by (simp add: fetch_def read_def)
    show "fmlookup (get_loop ?e p fmempty ?ids) (cd_ID (sc_cand r)) = handed_out U ctx sts p (cd_ID (sc_cand r))"
      if "r \<in> set window" for r
      using that by (auto simp: lookup_get_loop handed_out_def split: sum.split)
  qed
qed

lemma hits_loop_map_filter:
  "hits_loop U terms bodies window = List.map_filter
     (\<lambda>r. map_option (\<lambda>d. result_of U terms d (sc_score r)) (fmlookup bodies (cd_ID (sc_cand r)))) window"
  by (induction window) (auto simp: map_filter_simps split: option.split)

lemma recent_loop_map_filter:
  "recent_loop bodies window = List.map_filter (\<lambda>r. fmlookup bodies (cd_ID (sc_cand r))) window"
  by (induction window) (auto simp: map_filter_simps split: option.split)

lemma map_filter_cong:
  "(\<And>x. x \<in> set xs \<Longrightarrow> f x = g x) \<Longrightarrow> List.map_filter f xs = List.map_filter g xs"
  by (induction xs) (auto simp: map_filter_simps split: option.split)

text \<open>The hits of a window, read off the store.\<close>

definition mem_hits ::
  "unicode \<Rightarrow> ctx \<Rightarrow> (call \<Rightarrow> memstore) \<Rightarrow> principal option \<Rightarrow> string list \<Rightarrow> 'f scored_cand list \<Rightarrow>
    'f search_result list" where
  "mem_hits U ctx sts p terms window = List.map_filter
     (\<lambda>r. map_option (\<lambda>d. result_of U terms d (sc_score r)) (handed_out U ctx sts p (cd_ID (sc_cand r)))) window"

lemma hits_loop_mem:
  assumes "\<And>r. r \<in> set window \<Longrightarrow> fmlookup bodies (cd_ID (sc_cand r)) = handed_out U ctx sts p (cd_ID (sc_cand r))"
  shows "hits_loop U terms bodies window = mem_hits U ctx sts p terms window"
  unfolding hits_loop_map_filter mem_hits_def by (rule map_filter_cong) (simp add: assms)

lemma set_map_filter_iff: "y \<in> set (List.map_filter f xs) \<longleftrightarrow> (\<exists>x \<in> set xs. f x = Some y)"
  by (force simp: List.map_filter_def)

lemma sorted_map_filter:
  assumes "sorted_wrt P xs" "\<And>x y a b. x \<in> set xs \<Longrightarrow> y \<in> set xs \<Longrightarrow> f x = Some a \<Longrightarrow> f y = Some b \<Longrightarrow>
    P x y \<Longrightarrow> Q a b"
  shows "sorted_wrt Q (List.map_filter f xs)"
  unfolding List.map_filter_def sorted_wrt_map
  by (rule sorted_wrt_mono_rel [OF _ sorted_wrt_filter [OF assms(1)]]) (auto intro: assms(2))

section \<open>A search over the memory store\<close>

definition search_selection :: "query \<Rightarrow> selection" where
  "search_selection q = \<lparr>sel_Limit = CandidatePool (q_Offset q) (page_limit (q_Limit q)),
     sel_Recent = (q_Sort q = ByRecent), sel_Counts = True, sel_Facets = FacetPool\<rparr>"

text \<open>Every document the search found, in its order.\<close>

definition mem_ranking ::
  "'f::linorder floats \<Rightarrow> duration \<Rightarrow> unicode \<Rightarrow> gtime \<Rightarrow> memstore \<Rightarrow> principal \<Rightarrow> query \<Rightarrow> corpus \<Rightarrow>
    'f scored_cand list" where
  "mem_ranking F halfLife U now s pr q corpus =
     ranking F halfLife now (q_Sort q) (rq_Terms (Request U q)) corpus
       (map (\<lambda>d. candidateOf U d (rq_Terms (Request U q))) (found_docs U pr (Request U q) s))"

lemma search_limit_pos: "0 < sel_Limit (search_selection q)"
  using CandidatePool_bounds(1) [of "q_Offset q" "page_limit (q_Limit q)"]
  by (simp add: search_selection_def CandidateFloor_def)

lemma statistics_mem:
  "se_cache se = None \<Longrightarrow> statistics (mem_env U ctx sts clock order) se p terms pool =
     (Statistics U ctx p terms (sts ToStatistics), se)"
  by (simp add: statistics_def)

lemma Search_mem:
  assumes "Search F H U (mem_env U ctx sts clock order) se p q = (Inr res, se')" "se_cache se = None"
  obtains pr corpus where "p = Some pr" "ctx = None" "\<not> st_closed (sts ToCollect)"
    "Statistics U None (Some pr) (rq_Terms (Request U q)) (sts ToStatistics) = Inr corpus"
    "rs_Total res = int (length (found_docs U pr (Request U q) (sts ToCollect)))"
    "rs_Truncated res = (MaxMatches < int (length (matching_docs U pr (Request U q) (sts ToCollect))))"
    "rs_Facets res = po_facets (mem_pool U pr (Request U q) (search_selection q) (sts ToCollect))"
    "rs_Hits res = mem_hits U None sts (Some pr) (rq_Terms (Request U q))
       (page (mem_ranking F (se_halfLife se) U (clock Scoring) (sts ToCollect) pr q corpus) (q_Offset q)
          (page_limit (q_Limit q)))"
    "found_docs U pr (Request U q) (sts ToCollect) = [] \<Longrightarrow>
       fst (correct_query H U (mem_env U None sts clock order) se (Some pr) q (rq_Terms (Request U q)) corpus) =
         Inr (rs_Correction res)"
    "found_docs U pr (Request U q) (sts ToCollect) \<noteq> [] \<Longrightarrow> rs_Correction res = ''''"
    "rs_Answer res = (if found_docs U pr (Request U q) (sts ToCollect) \<noteq> [] \<and> q_Offset q = 0 \<and> q_Sort q \<noteq> ByRecent
       then answer U (rs_Hits res) (rq_Terms (Request U q)) else \<lparr>sa_Quotes = []\<rparr>)"
proof -
  let ?e = "mem_env U ctx sts clock order" and ?r = "Request U q" and ?sel = "search_selection q"
  have run: "Search F H U ?e se p q =
    (case collect H U ?e ToCollect se p ?r ?sel of
        (Inl err, s) \<Rightarrow> (Inl err, s)
      | (Inr found, s) \<Rightarrow>
          (case statistics ?e s p (rq_Terms ?r) found of
             (Inl err, s) \<Rightarrow> (Inl err, s)
           | (Inr corpus, s) \<Rightarrow>
               let res = \<lparr>rs_Hits = [], rs_Total = po_total found, rs_Truncated = po_truncated found,
                     rs_Facets = po_facets found, rs_Approximate = po_approximate found,
                     rs_Candidates = int (length (po_cands found)), rs_Answer = \<lparr>sa_Quotes = []\<rparr>,
                     rs_Correction = '''', rs_Took = 0\<rparr>
               in if length (po_cands found) = 0 then
                    (case correct_query H U ?e s p q (rq_Terms ?r) corpus of
                       (Inl err, s) \<Rightarrow> (Inl err, s)
                     | (Inr correction, s) \<Rightarrow>
                         (Inr (res\<lparr>rs_Correction := correction,
                                   rs_Took := Time_Sub (clock Finish) (clock Begin)\<rparr>), s))
                  else
                    let window = page (ranking F (se_halfLife s) (clock Scoring) (q_Sort q)
                          (rq_Terms ?r) corpus (po_cands found)) (q_Offset q) (page_limit (q_Limit q))
                    in (case fetch ?e s p window of
                          (Inl err, s) \<Rightarrow> (Inl err, s)
                        | (Inr bodies, s) \<Rightarrow>
                            let res = res\<lparr>rs_Hits := hits_loop U (rq_Terms ?r) bodies window\<rparr>;
                                res = (if q_Offset q = 0 \<and> q_Sort q \<noteq> ByRecent
                                       then res\<lparr>rs_Answer := answer U (rs_Hits res) (rq_Terms ?r)\<rparr>
                                       else res)
                            in (Inr (res\<lparr>rs_Took := Time_Sub (clock Finish) (clock Begin)\<rparr>), s))))"
    by (simp only: Search_def search_selection_def Let_def mem_env_simps)
  obtain pr where pr: "p = Some pr" "ctx = None" "\<not> st_closed (sts ToCollect)"
    using assms(1) unfolding run collect_mem by (auto split: option.splits if_splits)
  let ?pool = "mem_pool U pr ?r ?sel (sts ToCollect)" and ?found = "found_docs U pr ?r (sts ToCollect)"
  have cands: "po_cands ?pool = map (\<lambda>d. candidateOf U d (rq_Terms ?r)) ?found"
    by (simp add: mem_pool_def search_limit_pos)
  obtain corpus where corpus: "Statistics U None (Some pr) (rq_Terms ?r) (sts ToStatistics) = Inr corpus"
    using assms pr unfolding run collect_mem by (auto simp: statistics_mem split: sum.splits)
  show ?thesis
  proof (cases "?found = []")
    case True
    let ?c = "correct_query H U ?e se p q (rq_Terms ?r) corpus"
    obtain correction s where c: "?c = (Inr correction, s)"
      using assms pr corpus True cands unfolding run collect_mem
      by (cases ?c) (auto simp: statistics_mem Let_def split: sum.splits)
    have "page (mem_ranking F (se_halfLife se) U (clock Scoring) (sts ToCollect) pr q corpus) (q_Offset q)
          (page_limit (q_Limit q)) = []"
      using True by (simp add: mem_ranking_def ranking_def byRecent_def page_def)
    with assms pr corpus True cands c show ?thesis
      unfolding run collect_mem
      by (intro that [of pr corpus])
        (auto simp: statistics_mem Let_def mem_pool_def mem_hits_def map_filter_simps)
  next
    case False
    define window where "window = page (mem_ranking F (se_halfLife se) U (clock Scoring) (sts ToCollect) pr q corpus)
      (q_Offset q) (page_limit (q_Limit q))"
    obtain bodies where bodies: "fetch ?e se p window = (Inr bodies, se)"
      "hits_loop U (rq_Terms ?r) bodies window = mem_hits U ctx sts p (rq_Terms ?r) window"
      using fetch_mem [OF assms(2)] hits_loop_mem by metis
    have window: "page (ranking F (se_halfLife se) (clock Scoring) (q_Sort q) (rq_Terms ?r) corpus
        (po_cands ?pool)) (q_Offset q) (page_limit (q_Limit q)) = window"
      by (simp add: window_def mem_ranking_def cands)
    have "length (po_cands ?pool) \<noteq> 0" using False cands by simp
    with assms pr corpus bodies show ?thesis
      unfolding run collect_mem
      by (intro that [of pr corpus])
        (auto simp: statistics_mem Let_def window window_def [symmetric] False split: if_splits, simp_all add: mem_pool_def window_def)
  qed
qed

end
