(* ===== verification/Index_Search_Answers.thy ===== *)
theory Index_Search_Answers
  imports Index_Search_Facts Memstore_Invariants
begin

text \<open>
  What a search over the memory store promises: every hit is readable, the numbers beside the
  results are exact, the order, the pages, the correction and the recent documents, and what a
  search may depend on.
\<close>

lemma correct_query_mem:
  assumes "fst (correct_query H U (mem_env U None sts clock order) se (Some pr) q terms corpus) = Inr c"
    "c \<noteq> ''''"
  shows "found_docs U pr (Request U (q\<lparr>q_Text := c\<rparr>)) (sts ToConfirm) \<noteq> []"
proof -
  let ?e = "mem_env U None sts clock order"
  obtain swap where swap: "swap_loop ?e (Some pr) corpus fmempty terms = Inr swap"
    using assms by (auto simp: correct_query_def split: if_splits sum.splits)
  define new where "new = replaceTerms U (q_Text q) swap"
  obtain found where found: "c = new"
    "fst (collect H U ?e ToConfirm se (Some pr) (Request U (q\<lparr>q_Text := new\<rparr>))
       \<lparr>sel_Limit = 1, sel_Recent = False, sel_Counts = False, sel_Facets = 0\<rparr>) = Inr found"
    "po_cands found \<noteq> []"
    using assms swap
    by (auto simp: correct_query_def Let_def new_def [symmetric] split: if_splits sum.splits prod.splits)
  then show ?thesis
    unfolding collect_mem by (auto simp: mem_pool_def split: if_splits)
qed

section \<open>What a search answers\<close>

lemma ranking_candidates:
  "r \<in> set (ranking F h now srt terms corpus cands) \<Longrightarrow> sc_cand r \<in> set cands"
  by (auto simp: ranking_def Let_def byRecent_def split: if_splits)

lemma mem_hits_member:
  assumes "hit \<in> set (mem_hits U ctx sts p terms window)"
  obtains r where "r \<in> set window" "re_Score hit = sc_score r"
    "hit = result_of U terms (re_Document hit) (sc_score r)"
    "handed_out U ctx sts p (cd_ID (sc_cand r)) = Some (re_Document hit)"
proof -
  obtain r d where r: "r \<in> set window" "handed_out U ctx sts p (cd_ID (sc_cand r)) = Some d"
    "hit = result_of U terms d (sc_score r)"
    using assms by (auto simp: mem_hits_def set_map_filter_iff)
  moreover have "re_Document hit = d" "re_Score hit = sc_score r"
    unfolding r(3) by (simp_all add: result_of_def split: prod.split)
  ultimately show ?thesis using that by simp
qed



section \<open>The order\<close>

lemma distinct_visible_docs:
  assumes "docs_ok s"
  shows "distinct (map doc_ID (visible_docs U q s))"
proof -
  have "map doc_ID (map (\<lambda>i. the (fmlookup (st_docs s) i)) (map_keys (st_docs s))) = map_keys (st_docs s)"
    using assms by (auto simp: docs_ok_def doc_ok_def intro!: map_idI simp del: set_keys dest!: keys_lookup)
  then show ?thesis
    unfolding visible_docs_def by (metis distinct_map_filter sorted_keys(2))
qed

lemma distinct_found_docs:
  assumes "docs_ok s"
  shows "distinct (map doc_ID (found_docs U q r s))"
  unfolding found_docs_def walked_docs_def matching_docs_def
  by (intro distinct_map_filter) (simp add: take_map [symmetric] distinct_map_filter
      distinct_visible_docs [OF assms])

lemma mset_ranking:
  "mset (map sc_cand (ranking F h now srt terms corpus cands)) = mset cands"
  by (simp add: ranking_def Let_def byRecent_def image_mset.compositionality comp_def)

lemma ranking_rows [simp]:
  "length (ranking F h now srt terms corpus cands) = length cands"
  "sc_cand ` set (ranking F h now srt terms corpus cands) = set cands"
  using arg_cong [OF mset_ranking [of F h now srt terms corpus cands], of size]
    arg_cong [OF mset_ranking [of F h now srt terms corpus cands], of set_mset] by simp_all

lemma distinct_ranking:
  assumes "distinct (map cd_ID cands)"
  shows "distinct (map (\<lambda>r. cd_ID (sc_cand r)) (ranking F h now srt terms corpus cands))"
proof -
  have "mset (map (\<lambda>r. cd_ID (sc_cand r)) (ranking F h now srt terms corpus cands)) = mset (map cd_ID cands)"
    using mset_ranking [of F h now srt terms corpus cands]
    by (metis (no_types, lifting) comp_def map_map map_eq_conv mset_map)
  with assms show ?thesis by (metis mset_eq_imp_distinct_iff)
qed

lemma cd_ID_candidateOf [simp]: "cd_ID (candidateOf U d terms) = doc_ID d"
  "cd_ModifiedAt (candidateOf U d terms) = doc_ModifiedAt d"
  by (simp_all add: candidateOf_def Let_def)

lemma distinct_mem_ranking:
  assumes "docs_ok s"
  shows "distinct (map (\<lambda>r. cd_ID (sc_cand r)) (mem_ranking F h U now s pr q corpus))"
  unfolding mem_ranking_def
  by (rule distinct_ranking) (use distinct_found_docs [OF assms] in \<open>simp add: comp_def\<close>)

lemma sorted_mem_ranking:
  "q_Sort q \<noteq> ByRecent \<Longrightarrow> sorted_wrt (\<lambda>x y. \<not> score_less y x) (mem_ranking F h U now s pr q corpus)"
  "q_Sort q = ByRecent \<Longrightarrow> sorted_wrt (\<lambda>x y. \<not> recent_less y x) (mem_ranking F h U now s pr q corpus)"
  by (simp_all add: mem_ranking_def ranking_def Let_def byRecent_def score_order.in_order_sort_by
      recent_order.in_order_sort_by)

lemma page_sublist:
  "sorted_wrt P all \<Longrightarrow> sorted_wrt P (page all offset limit)"
  "distinct (map f all) \<Longrightarrow> distinct (map f (page all offset limit))"
  by (auto simp: page_def sorted_wrt_drop sorted_wrt_take drop_map [symmetric] take_map [symmetric])

lemma distinct_if_differ: "sorted_wrt (\<lambda>x y. f x \<noteq> f y) xs \<Longrightarrow> distinct (map f xs)"
  by (induction xs) auto

lemma result_of_simps [simp]: "re_Document (result_of U terms d x) = d" "re_Score (result_of U terms d x) = x"
  by (simp_all add: result_of_def split: prod.split)

lemma sorted_wrt_distinct:
  "sorted_wrt P xs \<Longrightarrow> distinct (map f xs) \<Longrightarrow> sorted_wrt (\<lambda>x y. P x y \<and> f x \<noteq> f y) xs"
  by (induction xs) (auto simp: image_iff)

text \<open>
  A page of results by relevance is in the order of falling score, equal scores in the order
  of the ids, no document comes twice, and the page has no more than the limit asked for and
  \<open>MaxLimit\<close>.
\<close>

theorem Search_order:
  assumes "Search F H U (mem_env U ctx sts clock order) se p q = (Inr res, se')" "se_cache se = None"
    "q_Sort q \<noteq> ByRecent" "docs_ok (sts ToCollect)" "\<forall>i. docs_ok (sts (ToGet i))"
  shows "sorted_wrt (\<lambda>a b. re_Score b < re_Score a \<or> re_Score a = re_Score b \<and>
      doc_ID (re_Document a) < doc_ID (re_Document b)) (rs_Hits res) \<and>
    distinct (map (\<lambda>hit. doc_ID (re_Document hit)) (rs_Hits res)) \<and>
    int (length (rs_Hits res)) \<le> page_limit (q_Limit q) \<and> page_limit (q_Limit q) \<le> MaxLimit"
proof -
  obtain pr corpus where pr: "rs_Hits res = mem_hits U None sts (Some pr) (rq_Terms (Request U q))
       (page (mem_ranking F (se_halfLife se) U (clock Scoring) (sts ToCollect) pr q corpus) (q_Offset q)
          (page_limit (q_Limit q)))"
    using Search_mem [OF assms(1,2)] by metis
  define rows where "rows = page (mem_ranking F (se_halfLife se) U (clock Scoring) (sts ToCollect) pr q corpus)
    (q_Offset q) (page_limit (q_Limit q))"
  let ?hit = "\<lambda>r. map_option (\<lambda>d. result_of U (rq_Terms (Request U q)) d (sc_score r))
    (handed_out U None sts (Some pr) (cd_ID (sc_cand r)))"
  have rows: "sorted_wrt (\<lambda>x y. \<not> score_less y x \<and> cd_ID (sc_cand x) \<noteq> cd_ID (sc_cand y)) rows"
    unfolding rows_def using assms(3,4)
    by (intro sorted_wrt_distinct page_sublist sorted_mem_ranking distinct_mem_ranking)
  have hit: "doc_ID d = i" if "handed_out U None sts (Some pr) i = Some d" for i d
    using that assms(5) by (auto simp: handed_out_Some docs_ok_def doc_ok_def)
  have sorted: "sorted_wrt (\<lambda>a b. (re_Score b < re_Score a \<or> re_Score a = re_Score b \<and>
      doc_ID (re_Document a) < doc_ID (re_Document b)) \<and> doc_ID (re_Document a) \<noteq> doc_ID (re_Document b)) (rs_Hits res)"
    unfolding pr rows_def [symmetric] mem_hits_def
    by (rule sorted_map_filter [OF rows]) (auto dest!: hit simp: score_less_def split: if_splits)
  from sorted have "sorted_wrt (\<lambda>a b. re_Score b < re_Score a \<or> re_Score a = re_Score b \<and>
      doc_ID (re_Document a) < doc_ID (re_Document b)) (rs_Hits res)"
    by (rule sorted_wrt_mono_rel [rotated]) blast
  moreover from sorted have "distinct (map (\<lambda>hit. doc_ID (re_Document hit)) (rs_Hits res))"
    by (intro distinct_if_differ) (erule sorted_wrt_mono_rel [rotated], blast)
  moreover have "length (rs_Hits res) \<le> length rows"
    unfolding pr rows_def [symmetric] mem_hits_def List.map_filter_def by (simp add: length_filter_le)
  moreover have "int (length rows) \<le> page_limit (q_Limit q)"
    using pages_concat page_limit_bounds(1) unfolding rows_def by blast
  ultimately show ?thesis
    using page_limit_bounds(2) [of "q_Limit q"] by simp
qed

section \<open>What a search may depend on\<close>

lemma swap_loop_mem_cong:
  assumes "\<And>t. Near U ctx p t 1 (sts (ToNear t)) = Near U ctx p t 1 (sts' (ToNear t))"
  shows "swap_loop (mem_env U ctx sts clock order) p corpus swap terms =
    swap_loop (mem_env U ctx sts' clock order) p corpus swap terms"
  by (induction terms arbitrary: swap) (simp_all add: assms split: sum.split)

lemma read_mem_cong:
  assumes "\<And>i. Get U ctx p i (sts (ToGet i)) = Get U ctx p i (sts' (ToGet i))"
  shows "read (mem_env U ctx sts clock order) p ids = read (mem_env U ctx sts' clock order) p ids"
proof -
  have "get_loop (mem_env U ctx sts clock order) p out ids = get_loop (mem_env U ctx sts' clock order) p out ids"
    for out by (induction ids arbitrary: out) (simp_all add: assms split: sum.split)
  then show ?thesis by (simp add: read_def)
qed

lemma fetch_mem_cong:
  assumes "\<And>i. Get U ctx p i (sts (ToGet i)) = Get U ctx p i (sts' (ToGet i))"
  shows "fetch (mem_env U ctx sts clock order) se p window = fetch (mem_env U ctx sts' clock order) se p window"
  unfolding fetch_def mem_env_simps read_mem_cong [of U ctx p sts sts' clock order, OF assms] by (rule refl)

lemma statistics_mem_cong:
  assumes "\<And>terms. Statistics U ctx p terms (sts ToStatistics) = Statistics U ctx p terms (sts' ToStatistics)"
  shows "statistics (mem_env U ctx sts clock order) se p terms pool =
    statistics (mem_env U ctx sts' clock order) se p terms pool"
  unfolding statistics_def mem_env_simps by (simp add: assms)

lemma collect_mem_cong:
  assumes "view U q (sts at) = view U q (sts' at)"
  shows "collect H U (mem_env U ctx sts clock order) at se (Some q) r sel =
    collect H U (mem_env U ctx sts' clock order) at se (Some q) r sel"
proof -
  have "Scan U ctx (Some q) fn (w :: walk) (sts at) = Scan U ctx (Some q) fn w (sts' at)" for fn w
    by (rule scan.same_view) (rule assms)
  then show ?thesis by (simp add: collect_def)
qed

lemma correct_query_mem_cong:
  assumes "\<And>t. Near U ctx (Some q) t 1 (sts (ToNear t)) = Near U ctx (Some q) t 1 (sts' (ToNear t))"
    and "view U q (sts ToConfirm) = view U q (sts' ToConfirm)"
  shows "correct_query H U (mem_env U ctx sts clock order) se (Some q) qu terms corpus =
    correct_query H U (mem_env U ctx sts' clock order) se (Some q) qu terms corpus"
  unfolding correct_query_def mem_env_simps
    collect_mem_cong [of U q sts ToConfirm sts' H ctx clock order, OF assms(2)]
    swap_loop_mem_cong [of U ctx "Some q" sts sts' clock order, OF assms(1)] by simp


section \<open>A search answers\<close>

lemma swap_loop_mem_answers:
  assumes "\<And>t. \<not> st_closed (sts (ToNear t))"
  shows "\<exists>swap'. swap_loop (mem_env U None sts clock order) (Some pr) corpus swap terms = Inr swap'"
  by (induction terms arbitrary: swap) (simp_all add: assms Near_def Let_def)

text \<open>
  A search of somebody signed in over an open memory store never fails, with or without a
  cache layer missing.
\<close>

theorem Search_answers:
  assumes "\<forall>at. \<not> st_closed (sts at)" "se_cache se = None"
  shows "\<exists>res. Search F H U (mem_env U None sts clock order) se (Some pr) q = (Inr res, se)"
proof -
  let ?e = "mem_env U None sts clock order" and ?r = "Request U q" and ?sel = "search_selection q"
  let ?pool = "mem_pool U pr ?r ?sel (sts ToCollect)"
  have found: "collect H U ?e ToCollect se (Some pr) ?r ?sel = (Inr ?pool, se)"
    using assms by (simp add: collect_mem)
  obtain corpus where corpus: "statistics ?e se (Some pr) (rq_Terms ?r) ?pool = (Inr corpus, se)"
    using assms by (simp add: statistics_mem Statistics_def)
  obtain correction where correction:
    "correct_query H U ?e se (Some pr) q (rq_Terms ?r) corpus = (Inr correction, se)"
  proof -
    obtain swap where "swap_loop ?e (Some pr) corpus fmempty (rq_Terms ?r) = Inr swap"
      using swap_loop_mem_answers assms(1) by blast
    then have "\<exists>correction. correct_query H U ?e se (Some pr) q (rq_Terms ?r) corpus = (Inr correction, se)"
      using assms by (simp add: correct_query_def collect_mem Let_def)
    then show ?thesis using that by blast
  qed
  define window where "window = page (ranking F (se_halfLife se) (clock Scoring) (q_Sort q) (rq_Terms ?r)
    corpus (po_cands ?pool)) (q_Offset q) (page_limit (q_Limit q))"
  obtain bodies where "fetch ?e se (Some pr) window = (Inr bodies, se)"
    using fetch_mem [OF assms(2)] by metis
  then show ?thesis
    using found corpus correction
    unfolding Search_def mem_env_simps search_selection_def [symmetric] window_def Let_def
    by simp
qed

section \<open>Pages\<close>

lemma handed_out_visible:
  assumes "docs_ok s" "\<not> st_closed s" "d \<in> set (visible_docs U pr s)"
  shows "handed_out U None (\<lambda>_. s) (Some pr) (doc_ID d) = Some d"
  using assms by (auto simp: handed_out_Some set_visible_docs docs_ok_def doc_ok_def)

lemma map_filter_all: "(\<And>x. x \<in> set xs \<Longrightarrow> f x = Some (g x)) \<Longrightarrow> List.map_filter f xs = map g xs"
  by (induction xs) (auto simp: map_filter_simps)

lemma map_filter_concat: "List.map_filter f (concat xss) = concat (map (List.map_filter f) xss)"
  by (induction xss) (simp_all add: List.map_filter_def)

lemma mem_hits_documents:
  assumes "docs_ok s" "\<not> st_closed s" "set window \<subseteq> set (mem_ranking F h U now s pr q corpus)"
  shows "map (\<lambda>hit. doc_ID (re_Document hit)) (mem_hits U None (\<lambda>_. s) (Some pr) terms window) =
    map (\<lambda>r. cd_ID (sc_cand r)) window"
    "set (map re_Document (mem_hits U None (\<lambda>_. s) (Some pr) terms window)) \<subseteq>
      set (found_docs U pr (Request U q) s)"
proof -
  have row: "\<exists>d \<in> set (found_docs U pr (Request U q) s). cd_ID (sc_cand r) = doc_ID d \<and>
      handed_out U None (\<lambda>_. s) (Some pr) (cd_ID (sc_cand r)) = Some d" if "r \<in> set window" for r
  proof -
    have "r \<in> set (mem_ranking F h U now s pr q corpus)" using that assms(3) by blast
    then obtain d where d: "d \<in> set (found_docs U pr (Request U q) s)" "cd_ID (sc_cand r) = doc_ID d"
      using ranking_candidates unfolding mem_ranking_def by fastforce
    moreover have "d \<in> set (visible_docs U pr s)"
      using set_found_docs [OF d(1)] by (simp add: set_visible_docs)
    ultimately show ?thesis using handed_out_visible [OF assms(1,2)] by auto
  qed
  let ?doc = "\<lambda>r. the (handed_out U None (\<lambda>_. s) (Some pr) (cd_ID (sc_cand r)))"
  have doc: "\<exists>d. handed_out U None (\<lambda>_. s) (Some pr) (cd_ID (sc_cand r)) = Some d"
    "doc_ID (?doc r) = cd_ID (sc_cand r)" "?doc r \<in> set (found_docs U pr (Request U q) s)"
    if "r \<in> set window" for r
  proof -
    note row_r = row [OF that]
    obtain d where "d \<in> set (found_docs U pr (Request U q) s)" "cd_ID (sc_cand r) = doc_ID d"
      "handed_out U None (\<lambda>_. s) (Some pr) (cd_ID (sc_cand r)) = Some d"
      using row_r by blast
    then show "\<exists>d. handed_out U None (\<lambda>_. s) (Some pr) (cd_ID (sc_cand r)) = Some d"
      "doc_ID (?doc r) = cd_ID (sc_cand r)" "?doc r \<in> set (found_docs U pr (Request U q) s)"
      by simp_all
  qed
  have all: "mem_hits U None (\<lambda>_. s) (Some pr) terms window =
      map (\<lambda>r. result_of U terms (?doc r) (sc_score r)) window"
    unfolding mem_hits_def by (rule map_filter_all) (auto dest!: doc(1))
  then show "map (\<lambda>hit. doc_ID (re_Document hit)) (mem_hits U None (\<lambda>_. s) (Some pr) terms window) =
    map (\<lambda>r. cd_ID (sc_cand r)) window"
    by (simp add: doc(2))
  show "set (map re_Document (mem_hits U None (\<lambda>_. s) (Some pr) terms window)) \<subseteq>
      set (found_docs U pr (Request U q) s)"
    unfolding all using doc(3) by auto
qed

lemma found_docs_ids:
  assumes "docs_ok s" "set ds \<subseteq> set (found_docs U pr r s)"
    "set (map doc_ID ds) = set (map doc_ID (found_docs U pr r s))"
  shows "set ds = set (found_docs U pr r s)"
proof -
  have "inj_on doc_ID (set (found_docs U pr r s))"
    using distinct_found_docs [OF assms(1)] by (simp add: distinct_map)
  then show ?thesis
    using assms(2,3) by (metis inj_on_image_eq_iff order_refl set_map)
qed


section \<open>Corrections\<close>

text \<open>
  A correction is offered only when the query found nothing, and only when the corrected query
  was run as the asker and matched a document that the asker may read: a word of a document they
  may not read is never shown to them.
\<close>

theorem Search_correction_confirmed:
  assumes "Search F H U (mem_env U ctx sts clock order) se p q = (Inr res, se')" "se_cache se = None"
    and "rs_Correction res \<noteq> ''''"
  shows "rs_Total res = 0 \<and> rs_Hits res = [] \<and>
    (\<exists>pr i d. p = Some pr \<and> fmlookup (st_docs (sts ToConfirm)) i = Some d \<and> visible U pr d \<and>
       Matches U (Request U (q\<lparr>q_Text := rs_Correction res\<rparr>)) d)"
proof -
  obtain pr corpus where run: "p = Some pr" "ctx = None"
    "rs_Total res = int (length (found_docs U pr (Request U q) (sts ToCollect)))"
    "rs_Hits res = mem_hits U None sts (Some pr) (rq_Terms (Request U q))
       (page (mem_ranking F (se_halfLife se) U (clock Scoring) (sts ToCollect) pr q corpus) (q_Offset q)
          (page_limit (q_Limit q)))"
    "found_docs U pr (Request U q) (sts ToCollect) = [] \<Longrightarrow>
       fst (correct_query H U (mem_env U None sts clock order) se (Some pr) q (rq_Terms (Request U q)) corpus) =
         Inr (rs_Correction res)"
    "found_docs U pr (Request U q) (sts ToCollect) \<noteq> [] \<Longrightarrow> rs_Correction res = ''''"
    using Search_mem [OF assms(1,2)] by metis
  then have none: "found_docs U pr (Request U q) (sts ToCollect) = []"
    using assms(3) by blast
  have "rs_Total res = 0" "rs_Hits res = []"
    using run(3,4) none by (simp_all add: mem_ranking_def ranking_def byRecent_def page_def mem_hits_def map_filter_simps)
  moreover obtain d where "d \<in> set (found_docs U pr (Request U (q\<lparr>q_Text := rs_Correction res\<rparr>)) (sts ToConfirm))"
    using correct_query_mem [OF run(5) [OF none] assms(3)] by (meson list.set_sel(1))
  ultimately show ?thesis
    using run(1) set_found_docs by metis
qed

section \<open>Recent documents\<close>

lemma map_filter_map_some:
  "(\<And>x. x \<in> set xs \<Longrightarrow> f (g x) = Some x) \<Longrightarrow> List.map_filter f (map g xs) = xs"
  by (induction xs) (auto simp: map_filter_simps)

definition newer :: "document \<Rightarrow> document \<Rightarrow> bool" where
  "newer d e \<longleftrightarrow> (if doc_ModifiedAt d \<noteq> doc_ModifiedAt e then doc_ModifiedAt d > doc_ModifiedAt e
     else doc_ID d < doc_ID e)"

lemma insert_by_map: "insert_by lt (f x) (map f ys) = map f (insert_by (\<lambda>x y. lt (f x) (f y)) x ys)"
  by (induction ys) simp_all

lemma sort_by_map: "sort_by lt (map f xs) = map f (sort_by (\<lambda>x y. lt (f x) (f y)) xs)"
  by (induction xs) (simp_all add: insert_by_map)

lemma found_docs_everything:
  assumes "int (length (visible_docs U pr s)) \<le> MaxMatches"
  shows "found_docs U pr zero_request s = visible_docs U pr s"
proof -
  have lifted: "WithoutFacets zero_request = zero_request"
    by (simp add: WithoutFacets_def FacetFields_def Without_def zero_request_def)
  have "Matches U zero_request d" for d
    by (simp add: unfaceted_def MatchesTerms_def Matches_parts FacetFields_def Passes_def zero_request_def)
  then show ?thesis
    using found_docs_all [of U pr zero_request s] assms by (simp add: matching_docs_def lifted)
qed


section \<open>A small shelf\<close>

text \<open>Two notes of one tenant, one of which the reader may open; arithmetic over the integers.\<close>

definition ex_floats :: "int floats" where
  "ex_floats = \<lparr>fl_int = (\<lambda>n. n), fl_lit = (\<lambda>n _. n), fl_add = (+), fl_sub = (-), fl_mul = (*),
     fl_div = (div), fl_neg = uminus, fl_log = (\<lambda>n. n), fl_exp2 = (\<lambda>n. n)\<rparr>"

definition ex_reader :: principal where
  "ex_reader = ex_principal ''mei'' [''eng'']"

definition ex_note :: "string \<Rightarrow> ref list \<Rightarrow> document" where
  "ex_note i allow = (ex_doc i (ex_acl allow []))\<lparr>doc_Title := ''Hi'', doc_Body := ''Go.''\<rparr>"

definition ex_shelf :: memstore where
  "ex_shelf = put_one (put_one New (ex_note ''d1'' [\<lparr>ref_Source = '''', ref_Value = ''eng''\<rparr>])) (ex_note ''d2'' [])"

abbreviation ex_env :: env where
  "ex_env \<equiv> mem_env ascii_table None (\<lambda>_. ex_shelf) (\<lambda>_. 0) (\<lambda>ks. ks)"

definition ex_searcher :: searcher where
  "ex_searcher = \<lparr>se_cache = None, se_halfLife = 180 * 24 * Hour, se_watching = False\<rparr>"

definition ex_query :: query where
  "ex_query = zero_query\<lparr>q_Text := ''hi''\<rparr>"

lemma ex_shelf_ok: "docs_ok ex_shelf" "\<not> st_closed ex_shelf" "se_cache ex_searcher = None"
  "q_Sort ex_query \<noteq> ByRecent"
  by (auto simp: ex_shelf_def docs_ok_def doc_ok_def put_one_def correct_def New_def ex_note_def ex_doc_def
      ex_searcher_def ex_query_def zero_query_def ByRelevance_def ByRecent_def)

lemma ex_search:
  obtains res where
    "Search ex_floats (\<lambda>s. s) ascii_table ex_env ex_searcher (Some ex_reader) ex_query = (Inr res, ex_searcher)"
    "map (\<lambda>hit. doc_ID (re_Document hit)) (rs_Hits res) = [''d1'']" "\<not> rs_Truncated res"
proof -
  obtain res where res:
    "Search ex_floats (\<lambda>s. s) ascii_table ex_env ex_searcher (Some ex_reader) ex_query = (Inr res, ex_searcher)"
    using Search_answers [of "\<lambda>_. ex_shelf" ex_searcher] ex_shelf_ok by blast
  moreover have "(case fst (Search ex_floats (\<lambda>s. s) ascii_table ex_env ex_searcher (Some ex_reader) ex_query) of
      Inl _ \<Rightarrow> False
    | Inr res \<Rightarrow> map (\<lambda>hit. doc_ID (re_Document hit)) (rs_Hits res) = [''d1''] \<and> \<not> rs_Truncated res)"
    by code_simp
  ultimately show ?thesis using that by simp
qed



theorem Search_order_witness:
  "\<exists>res. Search ex_floats (\<lambda>s. s) ascii_table ex_env ex_searcher (Some ex_reader) ex_query = (Inr res, ex_searcher) \<and>
    rs_Hits res \<noteq> [] \<and> distinct (map (\<lambda>hit. doc_ID (re_Document hit)) (rs_Hits res))"
proof -
  obtain res where res:
    "Search ex_floats (\<lambda>s. s) ascii_table ex_env ex_searcher (Some ex_reader) ex_query = (Inr res, ex_searcher)"
    "map (\<lambda>hit. doc_ID (re_Document hit)) (rs_Hits res) = [''d1'']"
    by (rule ex_search)
  have "\<forall>i :: string. docs_ok ex_shelf" using ex_shelf_ok(1) by simp
  from Search_order [OF res(1) ex_shelf_ok(3,4,1) this] res show ?thesis by (intro exI [of _ res]) auto
qed

lemma ex_visible: "length (visible_docs ascii_table ex_reader ex_shelf) = 1"
  by code_simp

lemma ex_few: "int (length (visible_docs ascii_table ex_reader ex_shelf)) \<le> MaxMatches"
  by (simp add: ex_visible MaxMatches_def)



lemma tenant_view_put_other:
  assumes "doc_Tenant d \<noteq> t" "fmlookup (st_docs s) (doc_ID d) = None"
  shows "tenant_view t (put_one s d) = tenant_view t s"
proof -
  have "doc_Tenant (corrected s d) = doc_Tenant d" by (simp add: corrected_def split: option.split)
  then have "st_docs (tenant_view t (put_one s d)) = st_docs (tenant_view t s)"
    using assms by (intro fmap_ext) (simp add: tenant_view_def put_one_fields corrected_def split: option.split)
  then show ?thesis by (simp add: tenant_view_def put_one_fields)
qed


text \<open>A misspelt query, and the shelf with a note that has the word.\<close>

definition ex_shelf_word :: memstore where
  "ex_shelf_word = put_one New ((ex_note ''d1'' [\<lparr>ref_Source = '''', ref_Value = ''eng''\<rparr>])\<lparr>doc_Title := ''Deploy''\<rparr>)"

lemma ex_correction:
  "case fst (Search ex_floats (\<lambda>s. s) ascii_table (mem_env ascii_table None (\<lambda>_. ex_shelf_word) (\<lambda>_. 0) (\<lambda>ks. ks))
      ex_searcher (Some ex_reader) (zero_query\<lparr>q_Text := ''deplyo''\<rparr>)) of
     Inl _ \<Rightarrow> False | Inr res \<Rightarrow> rs_Correction res = ''deploy''"
  by code_simp

theorem Search_correction_confirmed_witness:
  "\<exists>res. fst (Search ex_floats (\<lambda>s. s) ascii_table (mem_env ascii_table None (\<lambda>_. ex_shelf_word) (\<lambda>_. 0) (\<lambda>ks. ks))
      ex_searcher (Some ex_reader) (zero_query\<lparr>q_Text := ''deplyo''\<rparr>)) = Inr res \<and>
     rs_Correction res = ''deploy'' \<and> rs_Total res = 0"
proof -
  let ?run = "Search ex_floats (\<lambda>s. s) ascii_table (mem_env ascii_table None (\<lambda>_. ex_shelf_word) (\<lambda>_. 0) (\<lambda>ks. ks))
      ex_searcher (Some ex_reader) (zero_query\<lparr>q_Text := ''deplyo''\<rparr>)"
  obtain res se' where res: "?run = (Inr res, se')" "rs_Correction res = ''deploy''"
    using ex_correction by (cases ?run; cases "fst ?run") auto
  then have "rs_Correction res \<noteq> ''''" by simp
  from Search_correction_confirmed [OF res(1) ex_shelf_ok(3) this] res show ?thesis by simp
qed

end
