(* ===== verification/Connector_Aclmap.thy ===== *)
theory Connector_Aclmap
  imports Acl Go_Text
begin

text \<open>
  Package \<open>connector/aclmap\<close>: what a source says about who may read a document, turned into a
  descriptor. The model has a definition per function of \<open>aclmap.go\<close> and the presets of
  \<open>sources.go\<close>; the counters a normaliser keeps are atomic, so one call is one step on them. The
  lemmas say who the descriptor lets in: exactly those a statement that confers reading names,
  less those one refuses; that the order of the statements is irrelevant; and that a document that
  cannot be mapped is read by nobody and counted.
\<close>

section \<open>Statements and rules (aclmap.go)\<close>

type_synonym asubject = "8 word"

definition AUser :: asubject where "AUser = 0"
definition AGroup :: asubject where "AGroup = 1"
definition ADomain :: asubject where "ADomain = 2"
definition Anyone :: asubject where "Anyone = 3"

lemmas asubject_defs = AUser_def AGroup_def ADomain_def Anyone_def

definition Subject_String :: "asubject \<Rightarrow> string" where
  "Subject_String s =
     (if s = AUser then ''user'' else if s = AGroup then ''group'' else if s = ADomain then ''domain''
      else if s = Anyone then ''anyone'' else ''unknown'')"

type_synonym effect = "8 word"

definition EffectAllow :: effect where "EffectAllow = 0"
definition EffectDeny :: effect where "EffectDeny = 1"

record grant =
  ga_Subject :: asubject
  ga_ID :: string
  ga_Effect :: effect
  ga_Role :: string
  ga_Link :: bool
  ga_Owner :: bool

type_synonym link_policy = "8 word"

definition LinkGrantsNothing :: link_policy where "LinkGrantsNothing = 0"
definition LinkGrantsTenant :: link_policy where "LinkGrantsTenant = 1"

record rules =
  ru_Source :: string
  ru_Identity :: string
  ru_ReadRoles :: "string list"
  ru_Domains :: "string list"
  ru_Link :: link_policy

datatype reason = ReasonNone | ReasonForeignDomain | ReasonUnmappableDeny | ReasonMalformed

definition Reason_String :: "reason \<Rightarrow> string" where
  "Reason_String r =
     (case r of ReasonNone \<Rightarrow> ''none'' | ReasonForeignDomain \<Rightarrow> ''foreign domain''
      | ReasonUnmappableDeny \<Rightarrow> ''unmappable deny'' | ReasonMalformed \<Rightarrow> ''malformed grant'')"

record map_error =
  me_Reason :: reason
  me_Detail :: string

definition Error_String :: "map_error \<Rightarrow> string" where
  "Error_String e = ''aclmap: '' @ Reason_String (me_Reason e) @ '': '' @ me_Detail e"

record map_counts =
  mc_Mapped :: "64 word"
  mc_ForeignDomain :: "64 word"
  mc_UnmappableDeny :: "64 word"
  mc_Malformed :: "64 word"
  mc_Ignored :: "64 word"

definition Counts_Quarantined :: "map_counts \<Rightarrow> 64 word" where
  "Counts_Quarantined c = mc_ForeignDomain c + mc_UnmappableDeny c + mc_Malformed c"

record normalizer =
  nz_rules :: rules
  nz_read :: "string set"
  nz_domas :: "string set"
  nz_counts :: map_counts

datatype new_error = EmptySource | EmptyIdentity

definition trim_at :: "string \<Rightarrow> string" where
  "trim_at d = (case CutPrefix d ''@'' of Some rest \<Rightarrow> rest | None \<Rightarrow> d)"

definition NewNormalizer :: "unicode \<Rightarrow> rules \<Rightarrow> new_error + normalizer" where
  "NewNormalizer U r =
     (if ru_Source r = '''' then Inl EmptySource
      else if ru_Identity r = '''' then Inl EmptyIdentity
      else Inr \<lparr>nz_rules = r, nz_read = set (map (ToLower U) (ru_ReadRoles r)),
             nz_domas = set (map (\<lambda>d. ToLower U (trim_at d)) (ru_Domains r)),
             nz_counts = \<lparr>mc_Mapped = 0, mc_ForeignDomain = 0, mc_UnmappableDeny = 0, mc_Malformed = 0,
               mc_Ignored = 0\<rparr>\<rparr>)"

definition Normalizer_Counts :: "normalizer \<Rightarrow> map_counts" where
  "Normalizer_Counts n = nz_counts n"

section \<open>Mapping (aclmap.go)\<close>

definition confers :: "unicode \<Rightarrow> normalizer \<Rightarrow> string \<Rightarrow> bool" where
  "confers U n role = (if role = '''' \<or> nz_read n = {} then True else ToLower U role \<in> nz_read n)"

definition subjectName :: "grant \<Rightarrow> string" where
  "subjectName g =
     (if ga_Subject g = Anyone then ''everybody'' else Subject_String (ga_Subject g) @ '' '' @ ga_ID g)"

definition appendRef :: "ref list \<Rightarrow> ref \<Rightarrow> ref list" where
  "appendRef refs r = (if r \<in> set refs then refs else refs @ [r])"

definition maxSharing :: "sharing \<Rightarrow> sharing \<Rightarrow> sharing" where
  "maxSharing a b = (if a < b then b else a)"

definition widen :: "permissions \<Rightarrow> mode \<Rightarrow> permissions" where
  "widen perm m = (if perm_Mode perm \<noteq> ModePublicToTenant then perm\<lparr>perm_Mode := m\<rparr> else perm)"

definition grant_ref :: "normalizer \<Rightarrow> grant \<Rightarrow> ref" where
  "grant_ref n g = \<lparr>ref_Source = ru_Identity (nz_rules n), ref_Value = ga_ID g\<rparr>"

definition anyone :: "normalizer \<Rightarrow> permissions \<Rightarrow> grant \<Rightarrow> permissions" where
  "anyone n perm g =
     (if ga_Link g then
        let perm = perm\<lparr>perm_Sharing := maxSharing (perm_Sharing perm) SharedByLink\<rparr>
        in if ru_Link (nz_rules n) = LinkGrantsTenant then widen perm ModePublicToTenant else perm
      else widen (perm\<lparr>perm_Sharing := maxSharing (perm_Sharing perm) SharedPublic\<rparr>) ModePublicToTenant)"

definition map_fail :: "reason \<Rightarrow> string \<Rightarrow> map_error" where
  "map_fail r detail = \<lparr>me_Reason = r, me_Detail = detail\<rparr>"

definition apply_deny :: "normalizer \<Rightarrow> permissions \<Rightarrow> grant \<Rightarrow> map_error + permissions" where
  "apply_deny n perm g =
     (if ga_Subject g = AUser then
        Inr (perm\<lparr>perm_DenyUsers := appendRef (perm_DenyUsers perm) (grant_ref n g)\<rparr>)
      else if ga_Subject g = AGroup then
        Inr (perm\<lparr>perm_DenyGroups := appendRef (perm_DenyGroups perm) (grant_ref n g)\<rparr>)
      else if ga_Subject g = ADomain \<or> ga_Subject g = Anyone then
        Inl (map_fail ReasonUnmappableDeny (''a deny aimed at '' @ subjectName g))
      else Inl (map_fail ReasonMalformed ''unknown subject''))"

definition apply_allow ::
  "unicode \<Rightarrow> normalizer \<Rightarrow> permissions \<Rightarrow> grant \<Rightarrow> int \<Rightarrow> map_error + permissions \<times> int" where
  "apply_allow U n perm g owners =
     (if ga_Subject g = AUser then
        let r = grant_ref n g;
            owners = (if ga_Owner g then owners + 1 else owners)
        in if ga_Owner g \<and> ref_Value (perm_Owner perm) = ''''
           then Inr (perm\<lparr>perm_Owner := r\<rparr>, owners)
           else Inr (perm\<lparr>perm_AllowUsers := appendRef (perm_AllowUsers perm) r\<rparr>, owners)
      else if ga_Subject g = AGroup then
        Inr (perm\<lparr>perm_AllowGroups := appendRef (perm_AllowGroups perm) (grant_ref n g)\<rparr>, owners)
      else if ga_Subject g = ADomain then
        (if ToLower U (trim_at (ga_ID g)) \<notin> nz_domas n
         then Inl (map_fail ReasonForeignDomain (''a grant to '' @ ga_ID g))
         else Inr (widen perm ModePublicToTenant, owners))
      else if ga_Subject g = Anyone then Inr (anyone n perm g, owners)
      else Inl (map_fail ReasonMalformed ''unknown subject''))"

text \<open>One statement: the descriptor, the owners seen and the normaliser's counters after it.\<close>

definition apply_grant ::
  "unicode \<Rightarrow> normalizer \<Rightarrow> permissions \<Rightarrow> grant \<Rightarrow> int \<Rightarrow> (map_error + permissions \<times> int) \<times> normalizer"
where
  "apply_grant U n perm g owners =
     (if ga_Subject g \<noteq> Anyone \<and> ga_ID g = '''' then
        (Inl (map_fail ReasonMalformed (Subject_String (ga_Subject g) @ '' grant naming nobody'')), n)
      else if \<not> confers U n (ga_Role g) then
        (Inr (perm, owners), n\<lparr>nz_counts := (nz_counts n)\<lparr>mc_Ignored := mc_Ignored (nz_counts n) + 1\<rparr>\<rparr>)
      else if ga_Effect g = EffectDeny then
        (case apply_deny n perm g of Inl e \<Rightarrow> (Inl e, n) | Inr perm \<Rightarrow> (Inr (perm, owners), n))
      else (apply_allow U n perm g owners, n))"

fun normalize_loop ::
  "unicode \<Rightarrow> normalizer \<Rightarrow> permissions \<Rightarrow> int \<Rightarrow> grant list \<Rightarrow>
    (map_error + permissions \<times> int) \<times> normalizer" where
  "normalize_loop U n perm owners [] = (Inr (perm, owners), n)"
| "normalize_loop U n perm owners (g # gs) =
     (case apply_grant U n perm g owners of
        (Inl e, n) \<Rightarrow> (Inl e, n)
      | (Inr (perm, owners), n) \<Rightarrow> normalize_loop U n perm owners gs)"

definition count_error :: "normalizer \<Rightarrow> map_error \<Rightarrow> normalizer" where
  "count_error n e =
     (let c = nz_counts n in
      n\<lparr>nz_counts := (case me_Reason e of
            ReasonForeignDomain \<Rightarrow> c\<lparr>mc_ForeignDomain := mc_ForeignDomain c + 1\<rparr>
          | ReasonUnmappableDeny \<Rightarrow> c\<lparr>mc_UnmappableDeny := mc_UnmappableDeny c + 1\<rparr>
          | ReasonMalformed \<Rightarrow> c\<lparr>mc_Malformed := mc_Malformed c + 1\<rparr>
          | ReasonNone \<Rightarrow> c\<lparr>mc_Malformed := mc_Malformed c + 1\<rparr>)\<rparr>)"

definition fresh_permissions :: "mode \<Rightarrow> string \<Rightarrow> permissions" where
  "fresh_permissions m source =
     \<lparr>perm_Mode = m, perm_Owner = zero_ref, perm_AllowUsers = [], perm_AllowGroups = [],
      perm_DenyUsers = [], perm_DenyGroups = [], perm_Sharing = SharedNone, perm_Source = source,
      perm_Version = 0, perm_Reason = ''''\<rparr>"

definition unresolved :: "normalizer \<Rightarrow> map_error \<Rightarrow> permissions" where
  "unresolved n e =
     (fresh_permissions ModeUnknown (ru_Source (nz_rules n)))
       \<lparr>perm_Reason := Reason_String (me_Reason e) @ '': '' @ me_Detail e\<rparr>"

definition Normalize ::
  "unicode \<Rightarrow> normalizer \<Rightarrow> grant list \<Rightarrow> (permissions \<times> map_error option) \<times> normalizer" where
  "Normalize U n grants =
     (case normalize_loop U n (fresh_permissions ModeACL (ru_Source (nz_rules n))) 0 grants of
        (Inl e, n) \<Rightarrow> ((unresolved n e, Some e), count_error n e)
      | (Inr (perm, owners), n) \<Rightarrow>
          let perm = (if owners = 1 \<and> length (perm_AllowUsers perm) = 0 \<and>
                length (perm_AllowGroups perm) = 0 \<and> perm_Mode perm = ModeACL
              then perm\<lparr>perm_Mode := ModeOwnerOnly\<rparr> else perm)
          in ((perm, None), n\<lparr>nz_counts := (nz_counts n)\<lparr>mc_Mapped := mc_Mapped (nz_counts n) + 1\<rparr>\<rparr>))"

section \<open>Presets (sources.go)\<close>

definition preset :: "string list \<Rightarrow> string \<Rightarrow> string \<Rightarrow> string list \<Rightarrow> rules" where
  "preset roles source ident domains =
     \<lparr>ru_Source = source, ru_Identity = ident, ru_ReadRoles = roles, ru_Domains = domains,
      ru_Link = LinkGrantsNothing\<rparr>"

definition Files :: "string \<Rightarrow> string \<Rightarrow> string list \<Rightarrow> rules" where
  "Files = preset [''approver'', ''reviewer'', ''owner'']"

definition ObjectStore :: "string \<Rightarrow> string \<Rightarrow> string list \<Rightarrow> rules" where
  "ObjectStore = preset [''read'', ''full_control'']"

definition Drive :: "string \<Rightarrow> string \<Rightarrow> string list \<Rightarrow> rules" where
  "Drive = preset [''owner'', ''organizer'', ''fileorganizer'', ''writer'', ''commenter'', ''reader'']"

definition Chat :: "string \<Rightarrow> string \<Rightarrow> string list \<Rightarrow> rules" where
  "Chat = preset []"

definition Wiki :: "string \<Rightarrow> string \<Rightarrow> string list \<Rightarrow> rules" where
  "Wiki = preset [''view'', ''read'', ''edit'', ''admin'']"

definition Tickets :: "string \<Rightarrow> string \<Rightarrow> string list \<Rightarrow> rules" where
  "Tickets = preset [''browse_projects'', ''administer_projects'']"

section \<open>What the statements say\<close>

text \<open>Why a statement cannot be mapped, if it cannot.\<close>

definition problem :: "unicode \<Rightarrow> normalizer \<Rightarrow> grant \<Rightarrow> reason option" where
  "problem U n g =
     (if ga_Subject g \<noteq> Anyone \<and> ga_ID g = '''' then Some ReasonMalformed
      else if \<not> confers U n (ga_Role g) then None
      else if ga_Subject g \<notin> {AUser, AGroup, ADomain, Anyone} then Some ReasonMalformed
      else if ga_Effect g = EffectDeny
      then (if ga_Subject g \<in> {AUser, AGroup} then None else Some ReasonUnmappableDeny)
      else if ga_Subject g = ADomain \<and> ToLower U (trim_at (ga_ID g)) \<notin> nz_domas n
      then Some ReasonForeignDomain else None)"

definition grants :: "unicode \<Rightarrow> normalizer \<Rightarrow> grant \<Rightarrow> bool" where
  "grants U n g \<longleftrightarrow> confers U n (ga_Role g) \<and> ga_Effect g \<noteq> EffectDeny"

definition refuses :: "unicode \<Rightarrow> normalizer \<Rightarrow> grant \<Rightarrow> bool" where
  "refuses U n g \<longleftrightarrow> confers U n (ga_Role g) \<and> ga_Effect g = EffectDeny"

text \<open>The references of the statements of one kind about one kind of subject.\<close>

definition named_by :: "normalizer \<Rightarrow> (grant \<Rightarrow> bool) \<Rightarrow> asubject \<Rightarrow> grant list \<Rightarrow> ref set" where
  "named_by n P subj gs = grant_ref n ` {g \<in> set gs. P g \<and> ga_Subject g = subj}"

text \<open>A statement about everybody in the deployment.\<close>

definition opens_up :: "unicode \<Rightarrow> normalizer \<Rightarrow> grant \<Rightarrow> bool" where
  "opens_up U n g \<longleftrightarrow> grants U n g \<and> (ga_Subject g = ADomain \<or> ga_Subject g = Anyone \<and>
     (ga_Link g \<longrightarrow> ru_Link (nz_rules n) = LinkGrantsTenant))"

definition owning :: "unicode \<Rightarrow> normalizer \<Rightarrow> grant \<Rightarrow> bool" where
  "owning U n g \<longleftrightarrow> grants U n g \<and> ga_Subject g = AUser \<and> ga_Owner g"

definition shares :: "unicode \<Rightarrow> normalizer \<Rightarrow> grant \<Rightarrow> sharing" where
  "shares U n g = (if grants U n g \<and> ga_Subject g = Anyone
     then (if ga_Link g then SharedByLink else SharedPublic) else SharedNone)"

lemma named_by_snoc [simp]:
  "named_by n P subj (gs @ [g]) =
     (if P g \<and> ga_Subject g = subj then insert (grant_ref n g) (named_by n P subj gs) else named_by n P subj gs)"
  by (auto simp: named_by_def)

lemma set_appendRef [simp]: "set (appendRef refs r) = insert r (set refs)"
  by (auto simp: appendRef_def)

definition user_refs :: "permissions \<Rightarrow> ref set" where
  "user_refs perm = set (perm_AllowUsers perm) \<union> (if ref_Value (perm_Owner perm) = '''' then {} else {perm_Owner perm})"

lemma user_refs_simps [simp]:
  "user_refs (perm\<lparr>perm_DenyUsers := a\<rparr>) = user_refs perm"
  "user_refs (perm\<lparr>perm_DenyGroups := a\<rparr>) = user_refs perm"
  "user_refs (perm\<lparr>perm_AllowGroups := a\<rparr>) = user_refs perm"
  "user_refs (perm\<lparr>perm_Mode := m\<rparr>) = user_refs perm"
  "user_refs (perm\<lparr>perm_Sharing := x\<rparr>) = user_refs perm"
  "user_refs (perm\<lparr>perm_AllowUsers := appendRef (perm_AllowUsers perm) r\<rparr>) = insert r (user_refs perm)"
  "ref_Value (perm_Owner perm) = '''' \<Longrightarrow> ref_Value r \<noteq> '''' \<Longrightarrow>
     user_refs (perm\<lparr>perm_Owner := r\<rparr>) = insert r (user_refs perm)"
  by (simp_all add: user_refs_def)

definition mapped :: "unicode \<Rightarrow> normalizer \<Rightarrow> grant list \<Rightarrow> permissions \<Rightarrow> int \<Rightarrow> bool" where
  "mapped U n gs perm owners \<longleftrightarrow>
     perm_Mode perm = (if \<exists>g \<in> set gs. opens_up U n g then ModePublicToTenant else ModeACL) \<and>
     set (perm_DenyUsers perm) = named_by n (refuses U n) AUser gs \<and>
     set (perm_DenyGroups perm) = named_by n (refuses U n) AGroup gs \<and>
     set (perm_AllowGroups perm) = named_by n (grants U n) AGroup gs \<and>
     user_refs perm = named_by n (grants U n) AUser gs \<and>
     owners = int (length (filter (owning U n) gs)) \<and>
     (ref_Value (perm_Owner perm) = '''' \<longleftrightarrow> filter (owning U n) gs = []) \<and>
     perm_Sharing perm = foldl maxSharing SharedNone (map (shares U n) gs) \<and>
     perm_Source perm = ru_Source (nz_rules n)"

lemma mapped_fresh: "mapped U n [] (fresh_permissions ModeACL (ru_Source (nz_rules n))) 0"
  by (simp add: mapped_def fresh_permissions_def named_by_def zero_ref_def user_refs_def)

lemma maxSharing_None [simp]: "maxSharing s SharedNone = s"
  by (simp add: maxSharing_def SharedNone_def)

lemma confers_counts [simp]: "confers U (n\<lparr>nz_counts := c\<rparr>) role = confers U n role"
  by (simp add: confers_def)

lemma grant_ref_counts [simp]: "grant_ref (n\<lparr>nz_counts := c\<rparr>) = grant_ref n"
  by (simp add: fun_eq_iff grant_ref_def)

lemma counts_irrelevant [simp]:
  "grants U (n\<lparr>nz_counts := c\<rparr>) = grants U n" "refuses U (n\<lparr>nz_counts := c\<rparr>) = refuses U n"
  "problem U (n\<lparr>nz_counts := c\<rparr>) = problem U n" "named_by (n\<lparr>nz_counts := c\<rparr>) = named_by n"
  by (simp_all add: fun_eq_iff grants_def refuses_def problem_def named_by_def)

lemma counts_irrelevant' [simp]:
  "opens_up U (n\<lparr>nz_counts := c\<rparr>) = opens_up U n"
  "owning U (n\<lparr>nz_counts := c\<rparr>) = owning U n" "shares U (n\<lparr>nz_counts := c\<rparr>) = shares U n"
  by (simp_all add: fun_eq_iff opens_up_def owning_def shares_def)

lemma mapped_counts [simp]: "mapped U (n\<lparr>nz_counts := c\<rparr>) = mapped U n"
  by (simp add: fun_eq_iff mapped_def)

lemma apply_grant_Inl:
  assumes "apply_grant U n perm g owners = (Inl e, n')"
  shows "problem U n g = Some (me_Reason e) \<and> n' = n"
  using assms
  by (auto simp: apply_grant_def problem_def apply_deny_def apply_allow_def map_fail_def Let_def
      asubject_defs split: if_splits sum.splits)

lemma mapped_snoc_unread:
  "\<not> confers U n (ga_Role g) \<Longrightarrow> mapped U n (gs @ [g]) perm owners = mapped U n gs perm owners"
  by (simp add: mapped_def grants_def refuses_def opens_up_def owning_def shares_def)

lemma subject_distinct [simp]:
  "AUser \<noteq> AGroup" "AUser \<noteq> ADomain" "AUser \<noteq> Anyone" "AGroup \<noteq> ADomain" "AGroup \<noteq> Anyone" "ADomain \<noteq> Anyone"
  "AGroup \<noteq> AUser" "ADomain \<noteq> AUser" "Anyone \<noteq> AUser" "ADomain \<noteq> AGroup" "Anyone \<noteq> AGroup" "Anyone \<noteq> ADomain"
  by (simp_all add: asubject_defs)

lemma mapped_snoc_deny:
  assumes "mapped U n gs perm owners" "refuses U n g" "apply_deny n perm g = Inr perm'"
  shows "mapped U n (gs @ [g]) perm' owners"
proof -
  have kind: "grants U n g = False" "opens_up U n g = False" "owning U n g = False" "shares U n g = SharedNone"
    using assms(2) by (simp_all add: grants_def refuses_def opens_up_def owning_def shares_def)
  consider (user) "ga_Subject g = AUser" "perm' = perm\<lparr>perm_DenyUsers := appendRef (perm_DenyUsers perm) (grant_ref n g)\<rparr>"
    | (group) "ga_Subject g = AGroup" "perm' = perm\<lparr>perm_DenyGroups := appendRef (perm_DenyGroups perm) (grant_ref n g)\<rparr>"
    using assms(3) by (auto simp: apply_deny_def split: if_splits)
  then show ?thesis
    by cases (use assms(1,2) in \<open>simp_all add: mapped_def kind bex_Un\<close>)
qed

lemma mapped_snoc_allow:
  assumes "mapped U n gs perm owners" "grants U n g" "apply_allow U n perm g owners = Inr (perm', owners')"
    and "ga_Subject g \<noteq> Anyone \<Longrightarrow> ga_ID g \<noteq> ''''"
  shows "mapped U n (gs @ [g]) perm' owners'"
proof -
  have kind: "refuses U n g = False"
    using assms(2) by (simp add: grants_def refuses_def)
  note all = assms(1) [unfolded mapped_def]
  consider "ga_Subject g = AUser" | "ga_Subject g = AGroup" | "ga_Subject g = ADomain" | "ga_Subject g = Anyone"
    using assms(3) by (auto simp: apply_allow_def split: if_splits)
  then show ?thesis
  proof cases
    case 1
    then have "opens_up U n g = False" "owning U n g = ga_Owner g" "shares U n g = SharedNone"
      using assms(2) by (simp_all add: opens_up_def owning_def shares_def)
    note user = this 1 assms(2) kind
    have ref: "ref_Value (grant_ref n g) = ga_ID g" "ga_ID g \<noteq> ''''"
      using 1 assms(4) by (simp_all add: grant_ref_def)
    show ?thesis
    proof (cases "ga_Owner g \<and> ref_Value (perm_Owner perm) = ''''")
      case True
      then have "perm' = perm\<lparr>perm_Owner := grant_ref n g\<rparr>" "owners' = owners + 1"
        using 1 assms(3) by (simp_all add: apply_allow_def)
      with user ref True all show ?thesis by (simp add: mapped_def)
    next
      case False
      then have "perm' = perm\<lparr>perm_AllowUsers := appendRef (perm_AllowUsers perm) (grant_ref n g)\<rparr>"
        "owners' = (if ga_Owner g then owners + 1 else owners)"
        using 1 assms(3) by (auto simp: apply_allow_def Let_def split: if_splits)
      with user ref False all show ?thesis by (simp add: mapped_def)
    qed
  next
    case 2
    then have "opens_up U n g = False" "owning U n g = False" "shares U n g = SharedNone"
      "perm' = perm\<lparr>perm_AllowGroups := appendRef (perm_AllowGroups perm) (grant_ref n g)\<rparr>" "owners' = owners"
      using assms(2,3) by (simp_all add: opens_up_def owning_def shares_def apply_allow_def)
    with 2 assms(2) all show ?thesis by (simp add: mapped_def kind)
  next
    case 3
    then have "opens_up U n g = True" "owning U n g = False" "shares U n g = SharedNone"
      "perm' = widen perm ModePublicToTenant" "owners' = owners"
      using assms(2,3) by (auto simp: opens_up_def owning_def shares_def apply_allow_def split: if_splits)
    with 3 assms(2) all show ?thesis by (simp add: mapped_def kind widen_def)
  next
    case 4
    then have "opens_up U n g \<longleftrightarrow> (ga_Link g \<longrightarrow> ru_Link (nz_rules n) = LinkGrantsTenant)" "owning U n g = False"
      "shares U n g = (if ga_Link g then SharedByLink else SharedPublic)"
      "perm' = anyone n perm g" "owners' = owners"
      using assms(2,3) by (simp_all add: opens_up_def owning_def shares_def apply_allow_def)
    with 4 assms(2) all show ?thesis by (simp add: mapped_def kind widen_def anyone_def Let_def)
  qed
qed

text \<open>Counters that moved in nothing but the statements ignored.\<close>

definition kept :: "map_counts \<Rightarrow> map_counts \<Rightarrow> bool" where
  "kept c c' \<longleftrightarrow> mc_Mapped c' = mc_Mapped c \<and> mc_ForeignDomain c' = mc_ForeignDomain c \<and>
     mc_UnmappableDeny c' = mc_UnmappableDeny c \<and> mc_Malformed c' = mc_Malformed c"

lemma kept_refl [simp]: "kept c c" "kept c (c\<lparr>mc_Ignored := k\<rparr>)"
  by (simp_all add: kept_def)

lemma kept_trans: "kept a b \<Longrightarrow> kept b c \<Longrightarrow> kept a c"
  by (simp add: kept_def)

lemma apply_grant_Inr:
  assumes "mapped U n gs perm owners" "apply_grant U n perm g owners = (Inr (perm', owners'), n')"
  shows "problem U n g = None \<and> mapped U n (gs @ [g]) perm' owners' \<and>
    n' = n\<lparr>nz_counts := nz_counts n'\<rparr> \<and> kept (nz_counts n) (nz_counts n')"
proof -
  have id: "ga_Subject g = Anyone \<or> ga_ID g \<noteq> ''''"
    using assms(2) by (auto simp: apply_grant_def split: if_splits)
  then have id': "ga_Subject g \<noteq> Anyone \<Longrightarrow> ga_ID g \<noteq> ''''" by blast
  consider (unread) "\<not> confers U n (ga_Role g)" "perm' = perm" "owners' = owners"
      "n' = n\<lparr>nz_counts := (nz_counts n)\<lparr>mc_Ignored := mc_Ignored (nz_counts n) + 1\<rparr>\<rparr>"
    | (deny) "refuses U n g" "apply_deny n perm g = Inr perm'" "owners' = owners" "n' = n"
    | (allow) "grants U n g" "apply_allow U n perm g owners = Inr (perm', owners')" "n' = n"
  proof (cases "confers U n (ga_Role g)")
    case False
    then have "perm' = perm \<and> owners' = owners \<and>
        n' = n\<lparr>nz_counts := (nz_counts n)\<lparr>mc_Ignored := mc_Ignored (nz_counts n) + 1\<rparr>\<rparr>"
      using assms(2) id by (simp add: apply_grant_def split: if_splits)
    with False unread show ?thesis by blast
  next
    case conf: True
    show ?thesis
    proof (cases "ga_Effect g = EffectDeny")
      case True
      then have "apply_deny n perm g = Inr perm' \<and> owners' = owners \<and> n' = n"
        using assms(2) id conf by (simp add: apply_grant_def split: if_splits sum.splits)
      with True conf deny show ?thesis by (simp add: refuses_def)
    next
      case False
      have "\<not> (ga_Subject g \<noteq> Anyone \<and> ga_ID g = '''')" using id by blast
      then have "apply_grant U n perm g owners = (apply_allow U n perm g owners, n)"
        using conf False by (simp only: apply_grant_def if_False simp_thms)
      then have "apply_allow U n perm g owners = Inr (perm', owners') \<and> n' = n"
        using assms(2) by simp
      with False conf allow show ?thesis by (simp add: grants_def)
    qed
  qed
  then show ?thesis
  proof cases
    case unread
    then show ?thesis
      using assms(1) id by (simp add: mapped_snoc_unread problem_def)
  next
    case deny
    then have "problem U n g = None"
      using id by (auto simp: problem_def refuses_def apply_deny_def split: if_splits)
    with deny show ?thesis using mapped_snoc_deny [OF assms(1) deny(1,2)] by simp
  next
    case allow
    then have "problem U n g = None"
      using id by (auto simp: problem_def grants_def apply_allow_def split: if_splits)
    with allow show ?thesis using mapped_snoc_allow [OF assms(1) allow(1,2) id'] by simp
  qed
qed

lemma normalize_loop_maps:
  assumes "normalize_loop U n perm owners gs = (res, n')" "mapped U n ds perm owners"
  shows "n' = n\<lparr>nz_counts := nz_counts n'\<rparr> \<and> kept (nz_counts n) (nz_counts n') \<and>
    (case res of
       Inl e \<Rightarrow> \<exists>g \<in> set gs. problem U n g = Some (me_Reason e)
     | Inr (perm', owners') \<Rightarrow> (\<forall>g \<in> set gs. problem U n g = None) \<and> mapped U n (ds @ gs) perm' owners')"
  using assms
proof (induction gs arbitrary: n perm owners ds)
  case Nil
  then show ?case by auto
next
  case (Cons g gs)
  obtain out n1 where step: "apply_grant U n perm g owners = (out, n1)" by fastforce
  show ?case
  proof (cases out)
    case (Inl e)
    then show ?thesis
      using Cons.prems step apply_grant_Inl [of U n perm g owners e n1] by auto
  next
    case (Inr po)
    obtain perm1 owners1 where po: "po = (perm1, owners1)" by fastforce
    note one = apply_grant_Inr [OF Cons.prems(2) step [unfolded Inr po]]
    then obtain c where n1: "n1 = n\<lparr>nz_counts := c\<rparr>" "kept (nz_counts n) c" by metis
    have "normalize_loop U n1 perm1 owners1 gs = (res, n')"
      using Cons.prems(1) step by (simp add: Inr po)
    moreover have "mapped U n1 (ds @ [g]) perm1 owners1"
      using one by (simp add: n1(1))
    ultimately have rest: "n' = n1\<lparr>nz_counts := nz_counts n'\<rparr> \<and> kept (nz_counts n1) (nz_counts n') \<and>
      (case res of
         Inl e \<Rightarrow> \<exists>g \<in> set gs. problem U n1 g = Some (me_Reason e)
       | Inr (perm', owners') \<Rightarrow> (\<forall>g \<in> set gs. problem U n1 g = None) \<and>
           mapped U n1 ((ds @ [g]) @ gs) perm' owners')"
      by (rule Cons.IH)
    then have "n' = n\<lparr>nz_counts := nz_counts n'\<rparr> \<and> kept (nz_counts n) (nz_counts n')"
      using n1 kept_trans [of "nz_counts n" c] by simp
    with rest one show ?thesis
      by (auto simp: n1(1) split: sum.splits prod.splits)
  qed
qed

lemma Normalize_cases:
  obtains (failed) e k where "Normalize U n gs = ((unresolved n e, Some e),
      count_error (n\<lparr>nz_counts := k\<rparr>) e)" "kept (nz_counts n) k"
    "\<exists>g \<in> set gs. problem U n g = Some (me_Reason e)"
  | (fine) perm k where "fst (Normalize U n gs) = (perm, None)" "\<forall>g \<in> set gs. problem U n g = None"
    "snd (Normalize U n gs) = n\<lparr>nz_counts := k\<lparr>mc_Mapped := mc_Mapped k + 1\<rparr>\<rparr>" "kept (nz_counts n) k"
    "\<exists>perm0 owners. mapped U n gs perm0 owners \<and> (perm = perm0 \<or> perm = perm0\<lparr>perm_Mode := ModeOwnerOnly\<rparr> \<and>
       owners = 1 \<and> perm_AllowUsers perm0 = [] \<and> perm_AllowGroups perm0 = [] \<and> perm_Mode perm0 = ModeACL)"
proof -
  let ?p = "fresh_permissions ModeACL (ru_Source (nz_rules n))"
  obtain res n1 where loop: "normalize_loop U n ?p 0 gs = (res, n1)" by fastforce
  note maps = normalize_loop_maps [OF this mapped_fresh]
  then obtain k where n1: "n1 = n\<lparr>nz_counts := k\<rparr>" "kept (nz_counts n) k" by metis
  show ?thesis
  proof (cases res)
    case (Inl e)
    show ?thesis
    proof (rule failed)
      show "Normalize U n gs = ((unresolved n e, Some e),
          count_error (n\<lparr>nz_counts := k\<rparr>) e)"
        using loop by (simp add: Normalize_def Inl n1(1) unresolved_def)
      show "kept (nz_counts n) k" by (rule n1(2))
      show "\<exists>g \<in> set gs. problem U n g = Some (me_Reason e)" using maps by (simp add: Inl)
    qed
  next
    case (Inr po)
    obtain perm0 owners where po: "po = (perm0, owners)" by fastforce
    have m: "mapped U n gs perm0 owners" "\<forall>g \<in> set gs. problem U n g = None"
      using maps by (simp_all add: Inr po)
    show ?thesis
    proof (rule fine)
      show "fst (Normalize U n gs) = (if owners = 1 \<and> length (perm_AllowUsers perm0) = 0 \<and>
                length (perm_AllowGroups perm0) = 0 \<and> perm_Mode perm0 = ModeACL
              then perm0\<lparr>perm_Mode := ModeOwnerOnly\<rparr> else perm0, None)"
        using loop by (simp add: Normalize_def Inr po Let_def)
      show "snd (Normalize U n gs) = n\<lparr>nz_counts := k\<lparr>mc_Mapped := mc_Mapped k + 1\<rparr>\<rparr>"
        using loop by (simp add: Normalize_def Inr po Let_def n1(1))
      show "kept (nz_counts n) k" by (rule n1(2))
      show "\<forall>g \<in> set gs. problem U n g = None" by (rule m(2))
      show "\<exists>perm' owners'. mapped U n gs perm' owners' \<and> ((if owners = 1 \<and> length (perm_AllowUsers perm0) = 0 \<and>
                length (perm_AllowGroups perm0) = 0 \<and> perm_Mode perm0 = ModeACL
              then perm0\<lparr>perm_Mode := ModeOwnerOnly\<rparr> else perm0) = perm' \<or>
            (if owners = 1 \<and> length (perm_AllowUsers perm0) = 0 \<and>
                length (perm_AllowGroups perm0) = 0 \<and> perm_Mode perm0 = ModeACL
              then perm0\<lparr>perm_Mode := ModeOwnerOnly\<rparr> else perm0) = perm'\<lparr>perm_Mode := ModeOwnerOnly\<rparr> \<and>
          owners' = 1 \<and> perm_AllowUsers perm' = [] \<and> perm_AllowGroups perm' = [] \<and> perm_Mode perm' = ModeACL)"
        using m(1) by (intro exI [of _ perm0] exI [of _ owners]) auto
    qed
  qed
qed

section \<open>What the descriptor lets in\<close>

text \<open>A statement names a person when its reference does.\<close>

definition names :: "unicode \<Rightarrow> normalizer \<Rightarrow> principal \<Rightarrow> grant \<Rightarrow> bool" where
  "names U n q g \<longleftrightarrow> ga_Subject g = AUser \<and> named_user U q [grant_ref n g] \<or>
     ga_Subject g = AGroup \<and> named_group q [grant_ref n g]"

lemma names_refs:
  "(\<exists>r \<in> named_by n P AUser gs. named_user U q [r]) \<longleftrightarrow>
     (\<exists>g \<in> set gs. P g \<and> ga_Subject g = AUser \<and> named_user U q [grant_ref n g])"
  "(\<exists>r \<in> named_by n P AGroup gs. named_group q [r]) \<longleftrightarrow>
     (\<exists>g \<in> set gs. P g \<and> ga_Subject g = AGroup \<and> named_group q [grant_ref n g])"
  by (auto simp: named_by_def)

lemma named_set:
  "named_user U q refs \<longleftrightarrow> (\<exists>r \<in> set refs. named_user U q [r])"
  "named_group q refs \<longleftrightarrow> (\<exists>r \<in> set refs. named_group q [r])"
  by (auto simp: named_user_def named_group_def)

lemma mapped_denied:
  assumes "mapped U n gs perm owners"
  shows "denied U perm q \<longleftrightarrow> (\<exists>g \<in> set gs. refuses U n g \<and> names U n q g)"
proof -
  have "denied U perm q \<longleftrightarrow> (\<exists>r \<in> named_by n (refuses U n) AUser gs. named_user U q [r]) \<or>
      (\<exists>r \<in> named_by n (refuses U n) AGroup gs. named_group q [r])"
    using assms unfolding denied_def mapped_def named_set(1) [of U q "perm_DenyUsers perm"]
      named_set(2) [of q "perm_DenyGroups perm"]
    by simp
  then show ?thesis unfolding names_refs by (auto simp: names_def)
qed

lemma mapped_granted:
  assumes "mapped U n gs perm owners"
  shows "granted U perm q \<longleftrightarrow> (\<exists>g \<in> set gs. grants U n g \<and> (names U n q g \<or> opens_up U n g))"
proof -
  have mode: "perm_Mode perm = ModePublicToTenant \<longleftrightarrow> (\<exists>g \<in> set gs. opens_up U n g)"
    "perm_Mode perm = ModeACL \<longleftrightarrow> \<not> (\<exists>g \<in> set gs. opens_up U n g)"
    using assms by (simp_all add: mapped_def mode_defs)
  have users: "(\<exists>r \<in> user_refs perm. named_user U q [r]) \<longleftrightarrow>
      named_user U q (perm_AllowUsers perm) \<or> ref_Value (perm_Owner perm) \<noteq> '''' \<and> named_user U q [perm_Owner perm]"
    by (subst named_set(1)) (auto simp: user_refs_def)
  have groups: "named_group q (perm_AllowGroups perm) \<longleftrightarrow> (\<exists>r \<in> named_by n (grants U n) AGroup gs. named_group q [r])"
    using assms by (subst named_set(2)) (simp add: mapped_def)
  have refs: "user_refs perm = named_by n (grants U n) AUser gs"
    using assms by (simp add: mapped_def)
  show ?thesis
  proof (cases "\<exists>g \<in> set gs. opens_up U n g")
    case True
    then show ?thesis using mode by (auto simp: granted_def opens_up_def)
  next
    case False
    then have "granted U perm q \<longleftrightarrow> (\<exists>r \<in> user_refs perm. named_user U q [r]) \<or> named_group q (perm_AllowGroups perm)"
      using mode users by (auto simp: granted_def)
    then show ?thesis
      using False unfolding refs groups names_refs by (auto simp: names_def)
  qed
qed

lemma owner_only_granted:
  assumes "perm_AllowUsers perm = []" "perm_AllowGroups perm = []" "perm_Mode perm = ModeACL"
  shows "granted U (perm\<lparr>perm_Mode := ModeOwnerOnly\<rparr>) q = granted U perm q"
  using assms by (simp add: granted_def mode_defs named_user_def named_group_def)

lemma Normalize_reads:
  assumes "fst (Normalize U n gs) = (perm, None)"
  shows "Allows U perm (Some q) \<longleftrightarrow>
    (\<forall>g \<in> set gs. \<not> (refuses U n g \<and> names U n q g)) \<and>
    (\<exists>g \<in> set gs. grants U n g \<and> (names U n q g \<or> opens_up U n g))"
proof (cases rule: Normalize_cases [of U n gs])
  case (failed e k)
  with assms show ?thesis by simp
next
  case (fine perm' k)
  then obtain perm0 owners where perm0: "mapped U n gs perm0 owners"
    "perm = perm0 \<or> perm = perm0\<lparr>perm_Mode := ModeOwnerOnly\<rparr> \<and> perm_AllowUsers perm0 = [] \<and>
       perm_AllowGroups perm0 = [] \<and> perm_Mode perm0 = ModeACL"
    using assms by auto
  have "perm_Mode perm0 \<noteq> ModeUnknown" using perm0(1) by (simp add: mapped_def mode_defs)
  then have "perm_Mode perm \<noteq> ModeUnknown" using perm0(2) by (auto simp: mode_defs)
  moreover have "denied U perm q = denied U perm0 q" using perm0(2) by (auto simp: denied_def)
  moreover have "granted U perm q = granted U perm0 q" using perm0(2) owner_only_granted by blast
  ultimately show ?thesis
    unfolding Allows_rule using mapped_denied [OF perm0(1)] mapped_granted [OF perm0(1)] by simp
qed

text \<open>
  C23: a document that maps is read by exactly those its source says: somebody no refusal that is
  about reading names, and whom a grant that confers reading names or lets in with everybody.
\<close>

theorem Normalize_Allows:
  assumes "fst (Normalize U n gs) = (perm, None)"
  shows "Allows U perm (Some q) \<longleftrightarrow>
    (\<forall>g \<in> set gs. \<not> (refuses U n g \<and> names U n q g)) \<and>
    (\<exists>g \<in> set gs. grants U n g \<and> (names U n q g \<or> opens_up U n g))"
  using assms by (rule Normalize_reads)

lemma Normalize_error:
  "snd (fst (Normalize U n gs)) \<noteq> None \<longleftrightarrow> (\<exists>g \<in> set gs. problem U n g \<noteq> None)"
  by (cases rule: Normalize_cases [of U n gs]) auto

text \<open>
  C24: a document maps exactly when every statement does; otherwise the descriptor returned is one
  nobody may read, it names its source, and it says why.
\<close>

theorem Normalize_quarantines:
  "(snd (fst (Normalize U n gs)) \<noteq> None \<longleftrightarrow> (\<exists>g \<in> set gs. problem U n g \<noteq> None)) \<and>
   (case fst (Normalize U n gs) of
      (perm, Some e) \<Rightarrow> \<not> Allows U perm p \<and> perm_Source perm = ru_Source (nz_rules n) \<and>
        perm_Reason perm = Reason_String (me_Reason e) @ '': '' @ me_Detail e \<and>
        (\<exists>g \<in> set gs. problem U n g = Some (me_Reason e))
    | (perm, None) \<Rightarrow> perm_Source perm = ru_Source (nz_rules n))"
proof (cases rule: Normalize_cases [of U n gs])
  case (failed e k)
  then show ?thesis
    using Normalize_error [of U n gs]
    by (simp add: Allows_rule unresolved_def fresh_permissions_def mode_defs)
next
  case (fine perm k)
  then show ?thesis
    using Normalize_error [of U n gs] by (auto simp: mapped_def)
qed

text \<open>
  C25: the order the statements come in, and how often they are repeated, changes neither whether
  the document maps nor who may read it.
\<close>

theorem Normalize_order:
  assumes "set gs = set gs'"
  shows "(snd (fst (Normalize U n gs)) = None \<longleftrightarrow> snd (fst (Normalize U n gs')) = None) \<and>
    Allows U (fst (fst (Normalize U n gs))) p = Allows U (fst (fst (Normalize U n gs'))) p"
proof -
  have same: "snd (fst (Normalize U n gs)) = None \<longleftrightarrow> snd (fst (Normalize U n gs')) = None"
    using Normalize_error [of U n gs] Normalize_error [of U n gs'] assms by auto
  have fail: "\<not> Allows U (fst (fst (Normalize U n hs))) p" if "snd (fst (Normalize U n hs)) \<noteq> None" for hs
    using that by (cases rule: Normalize_cases [of U n hs])
      (auto simp: Allows_rule unresolved_def fresh_permissions_def mode_defs)
  show ?thesis
  proof (cases "snd (fst (Normalize U n gs)) = None")
    case True
    then obtain perm perm' where "fst (Normalize U n gs) = (perm, None)" "fst (Normalize U n gs') = (perm', None)"
      using same by (metis prod.collapse)
    then show ?thesis
      using Normalize_reads [of U n gs perm] Normalize_reads [of U n gs' perm'] assms
      by (cases p) (simp_all add: Allows_rule)
  next
    case False
    then show ?thesis using same fail [of gs] fail [of gs'] by simp
  qed
qed

text \<open>
  The counters account for every document: after any number of calls, the documents mapped
  and the documents quarantined add up to the calls made.
\<close>

theorem Normalize_accounts:
  assumes "NewNormalizer U r = Inr n"
  shows "let c = Normalizer_Counts (foldl (\<lambda>n gs. snd (Normalize U n gs)) n docs)
    in mc_Mapped c + Counts_Quarantined c = of_nat (length docs)"
proof -
  define bal where "bal n = mc_Mapped (nz_counts n) + Counts_Quarantined (nz_counts n)" for n :: normalizer
  have step: "bal (snd (Normalize U n gs)) = bal n + 1" for n gs
  proof (cases rule: Normalize_cases [of U n gs])
    case (failed e k)
    then show ?thesis
      by (cases "me_Reason e") (simp_all add: bal_def count_error_def Counts_Quarantined_def kept_def)
  next
    case (fine perm k)
    then show ?thesis by (simp add: bal_def Counts_Quarantined_def kept_def)
  qed
  have "bal (foldl (\<lambda>n gs. snd (Normalize U n gs)) n docs) = bal n + of_nat (length docs)" for n
    by (induction docs arbitrary: n) (simp_all add: step)
  moreover have "bal n = 0"
    using assms by (auto simp: NewNormalizer_def bal_def Counts_Quarantined_def split: if_splits)
  ultimately show ?thesis by (simp add: bal_def Normalizer_Counts_def)
qed

section \<open>A folder shared with a group, and one person shut out\<close>

definition ex_grant :: "asubject \<Rightarrow> string \<Rightarrow> string \<Rightarrow> grant" where
  "ex_grant subj i role = \<lparr>ga_Subject = subj, ga_ID = i, ga_Effect = EffectAllow, ga_Role = role,
     ga_Link = False, ga_Owner = False\<rparr>"

definition ex_normalizer :: normalizer where
  "ex_normalizer = \<lparr>nz_rules = Drive ''gdrive'' ''google'' [''acme.com''],
     nz_read = set [''owner'', ''organizer'', ''fileorganizer'', ''writer'', ''commenter'', ''reader''],
     nz_domas = set [''acme.com''],
     nz_counts = \<lparr>mc_Mapped = 0, mc_ForeignDomain = 0, mc_UnmappableDeny = 0, mc_Malformed = 0, mc_Ignored = 0\<rparr>\<rparr>"

definition ex_grants :: "grant list" where
  "ex_grants = [ex_grant AGroup ''eng'' ''Writer'', (ex_grant AUser ''bo'' '''')\<lparr>ga_Effect := EffectDeny\<rparr>,
     ex_grant AUser ''cy'' ''labeler'']"

lemma ex_normalized:
  "fst (Normalize ascii_table ex_normalizer ex_grants) =
     ((fresh_permissions ModeACL ''gdrive'')
        \<lparr>perm_AllowGroups := [\<lparr>ref_Source = ''google'', ref_Value = ''eng''\<rparr>],
         perm_DenyUsers := [\<lparr>ref_Source = ''google'', ref_Value = ''bo''\<rparr>]\<rparr>, None)"
  by code_simp

theorem Normalize_Allows_witness:
  "Allows ascii_table (fst (fst (Normalize ascii_table ex_normalizer ex_grants)))
     (Some (ex_principal ''mei'' [''google:eng'']))"
proof -
  have "named_group (ex_principal ''mei'' [''google:eng'']) [grant_ref ex_normalizer (ex_grant AGroup ''eng'' ''Writer'')]"
    by (simp add: named_group_def ex_principal_def grant_ref_def ex_normalizer_def Drive_def preset_def
        ex_grant_def GroupKey_def)
  then have "names ascii_table ex_normalizer (ex_principal ''mei'' [''google:eng'']) (ex_grant AGroup ''eng'' ''Writer'')"
    by (simp add: names_def ex_grant_def)
  moreover have "grants ascii_table ex_normalizer (ex_grant AGroup ''eng'' ''Writer'')"
    by code_simp
  moreover have "\<not> refuses ascii_table ex_normalizer (ex_grant AGroup ''eng'' ''Writer'')"
    "\<not> refuses ascii_table ex_normalizer (ex_grant AUser ''cy'' ''labeler'')"
    "\<not> names ascii_table ex_normalizer (ex_principal ''mei'' [''google:eng'']) ((ex_grant AUser ''bo'' '''')\<lparr>ga_Effect := EffectDeny\<rparr>)"
    by code_simp+
  ultimately show ?thesis
    using Normalize_Allows [OF ex_normalized, of "ex_principal ''mei'' [''google:eng'']"]
    unfolding ex_normalized by (auto simp: ex_grants_def)
qed

theorem Normalize_order_witness:
  "Allows ascii_table (fst (fst (Normalize ascii_table ex_normalizer ex_grants))) (Some (ex_principal ''mei'' [])) =
   Allows ascii_table (fst (fst (Normalize ascii_table ex_normalizer (rev ex_grants)))) (Some (ex_principal ''mei'' []))"
  using Normalize_order [of ex_grants "rev ex_grants" ascii_table ex_normalizer] by simp

theorem Normalize_accounts_witness:
  "case NewNormalizer ascii_table (Drive ''gdrive'' ''google'' [''acme.com'']) of
     Inl _ \<Rightarrow> False
   | Inr n \<Rightarrow> mc_Mapped (Normalizer_Counts (snd (Normalize ascii_table n ex_grants))) +
       Counts_Quarantined (Normalizer_Counts (snd (Normalize ascii_table n ex_grants))) = 1"
proof (cases "NewNormalizer ascii_table (Drive ''gdrive'' ''google'' [''acme.com''])")
  case (Inl e)
  then show ?thesis by (simp add: NewNormalizer_def Drive_def preset_def)
next
  case (Inr n)
  then show ?thesis using Normalize_accounts [OF Inr, of "[ex_grants]"] by (simp add: Let_def)
qed

end
