(* ===== verification/Connector_Checkpoint.thy ===== *)
theory Connector_Checkpoint
  imports Doc_Model
begin

text \<open>
  The contract of package \<open>connector\<close> (\<open>connector.go\<close>): changes, items, counters and cursors,
  and the two stores of resume points (\<open>checkpoint.go\<close>). The file store is modelled over a
  directory that keeps, for every name, what the file holds and whether it has reached the disk:
  a save is its sequence of system calls, each of which can fail, and a crash can happen between
  any two of them. What a file holds is the decoded JSON value, or \<open>None\<close> for bytes that do not
  decode. The lemmas say that a save is atomic against failures and crashes, what a load returns
  after it, and exactly which sources share a file.
\<close>

section \<open>Changes, items and counters (connector.go)\<close>

record cursor =
  cu_Value :: string
  cu_Time :: gtime

definition zero_cursor :: cursor where
  "zero_cursor = \<lparr>cu_Value = '''', cu_Time = 0\<rparr>"

definition Cursor_IsZero :: "cursor \<Rightarrow> bool" where
  "Cursor_IsZero c \<longleftrightarrow> cu_Value c = ''''"

record source_change =
  cg_Document :: document
  cg_Deleted :: bool
  cg_PermissionsOnly :: bool
  cg_Cursor :: cursor

record source_item =
  si_ID :: string
  si_Version :: string

record source_counters =
  sc_Lists :: "64 word"
  sc_Metadata :: "64 word"
  sc_Fetches :: "64 word"
  sc_Bytes :: "64 word"

definition Requests :: "source_counters \<Rightarrow> 64 word" where
  "Requests c = sc_Lists c + sc_Metadata c + sc_Fetches c"

definition Since :: "source_counters \<Rightarrow> source_counters \<Rightarrow> source_counters" where
  "Since c earlier =
     \<lparr>sc_Lists = sc_Lists c - sc_Lists earlier, sc_Metadata = sc_Metadata c - sc_Metadata earlier,
      sc_Fetches = sc_Fetches c - sc_Fetches earlier, sc_Bytes = sc_Bytes c - sc_Bytes earlier\<rparr>"

definition Unresolved :: "string \<Rightarrow> string \<Rightarrow> permissions" where
  "Unresolved source reason =
     \<lparr>perm_Mode = ModeUnknown, perm_Owner = zero_ref, perm_AllowUsers = [], perm_AllowGroups = [],
      perm_DenyUsers = [], perm_DenyGroups = [], perm_Sharing = SharedNone, perm_Source = source,
      perm_Version = 0, perm_Reason = reason\<rparr>"

lemma Requests_Since: "Requests (Since c earlier) = Requests c - Requests earlier"
  by (simp add: Requests_def Since_def)

lemma Unresolved_unreadable: "\<not> Allows U (Unresolved source reason) p"
  by (simp add: Allows_rule Unresolved_def)

section \<open>Resume points in memory (checkpoint.go)\<close>

type_synonym memory_points = "(string, cursor) fmap"

definition NewMemoryCheckpoints :: memory_points where
  "NewMemoryCheckpoints = fmempty"

definition point_key :: "string \<Rightarrow> string \<Rightarrow> string" where
  "point_key tenant source = tenant @ [CHR 0x00] @ source"

definition Memory_Load :: "ctx \<Rightarrow> string \<Rightarrow> string \<Rightarrow> memory_points \<Rightarrow> cursor res" where
  "Memory_Load ctx tenant source m =
     (case ctx of Some e \<Rightarrow> Inl e
      | None \<Rightarrow> Inr (case fmlookup m (point_key tenant source) of None \<Rightarrow> zero_cursor | Some c \<Rightarrow> c))"

definition Memory_Save ::
  "ctx \<Rightarrow> string \<Rightarrow> string \<Rightarrow> cursor \<Rightarrow> memory_points \<Rightarrow> error option \<times> memory_points" where
  "Memory_Save ctx tenant source c m =
     (case ctx of Some e \<Rightarrow> (Some e, m)
      | None \<Rightarrow> (None, fmupd (point_key tenant source) c m))"

lemma point_key_inject:
  assumes "CHR 0x00 \<notin> set tenant" "CHR 0x00 \<notin> set tenant'"
  shows "point_key tenant source = point_key tenant' source' \<longleftrightarrow> tenant = tenant' \<and> source = source'"
proof
  assume eq: "point_key tenant source = point_key tenant' source'"
  have stop: "takeWhile (\<lambda>c. c \<noteq> CHR 0x00) (point_key t s) = t \<and>
      drop (Suc (length t)) (point_key t s) = s" if "CHR 0x00 \<notin> set t" for t s
    using that unfolding point_key_def by (induction t) auto
  show "tenant = tenant' \<and> source = source'"
    using stop [OF assms(1), of source] stop [OF assms(2), of source'] eq by metis
qed simp

lemma Memory_Load_Save:
  assumes "CHR 0x00 \<notin> set tenant" "CHR 0x00 \<notin> set tenant'"
  shows "Memory_Load None tenant' source' (snd (Memory_Save None tenant source c m)) =
    (if tenant' = tenant \<and> source' = source then Inr c else Memory_Load None tenant' source' m)"
  using point_key_inject [OF assms] by (auto simp: Memory_Load_def Memory_Save_def)

section \<open>Resume points in files (checkpoint.go)\<close>

record checkpoint_file =
  cf_Tenant :: string
  cf_Source :: string
  cf_Value :: string
  cf_Time :: gtime

text \<open>
  What encoding and decoding a string and an instant as JSON leaves: a byte that is not UTF-8
  comes back as the replacement character, and an instant outside the years 0 to 9999 is refused.
\<close>

definition json_string :: "string \<Rightarrow> string" where
  "json_string s = concat (map EncodeRune (runes s))"

definition json_time :: "gtime \<Rightarrow> bool" where
  "json_time t \<longleftrightarrow> - (366 * 24 * Hour) \<le> t \<and> t < 3652059 * 24 * Hour"

definition marshal :: "checkpoint_file \<Rightarrow> checkpoint_file res" where
  "marshal cf =
     (if \<not> json_time (cf_Time cf) then Inl (ErrConfig ''connector: encode checkpoint'')
      else Inr \<lparr>cf_Tenant = json_string (cf_Tenant cf), cf_Source = json_string (cf_Source cf),
                cf_Value = json_string (cf_Value cf), cf_Time = cf_Time cf\<rparr>)"

record disk_file =
  df_data :: "checkpoint_file option"
  df_synced :: bool

type_synonym disk = "(string, disk_file) fmap"

definition plain_char :: "char \<Rightarrow> bool" where
  "plain_char c \<longleftrightarrow> CHR ''a'' \<le> c \<and> c \<le> CHR ''z'' \<or> CHR ''A'' \<le> c \<and> c \<le> CHR ''Z'' \<or>
     CHR ''0'' \<le> c \<and> c \<le> CHR ''9'' \<or> c = CHR ''-''"

definition escape :: "string \<Rightarrow> string" where
  "escape s = (if s = '''' then ''-'' else map (\<lambda>c. if plain_char c then c else CHR ''-'') s)"

definition path :: "string \<Rightarrow> string \<Rightarrow> string" where
  "path tenant source = escape tenant @ ''_'' @ escape source @ ''.json''"

definition NewFileCheckpoints :: "string \<Rightarrow> error option \<Rightarrow> error option" where
  "NewFileCheckpoints dir mkdir =
     (if dir = '''' then Some (ErrConfig ''connector: checkpoint directory is empty'') else mkdir)"

text \<open>The read of the file is answered by the disk, or fails with what the system says.\<close>

definition File_Load :: "ctx \<Rightarrow> error option \<Rightarrow> string \<Rightarrow> string \<Rightarrow> disk \<Rightarrow> cursor res" where
  "File_Load ctx fault tenant source d =
     (case ctx of Some e \<Rightarrow> Inl e
      | None \<Rightarrow>
          (case fault of Some e \<Rightarrow> Inl e
           | None \<Rightarrow>
               (case fmlookup d (path tenant source) of
                  None \<Rightarrow> Inr zero_cursor
                | Some f \<Rightarrow>
                    (case df_data f of
                       None \<Rightarrow> Inl (ErrConfig ''connector: parse checkpoint'')
                     | Some cf \<Rightarrow> Inr \<lparr>cu_Value = cf_Value cf, cu_Time = cf_Time cf\<rparr>))))"

datatype syscall = CreateTemp | WriteTemp | SyncTemp | CloseTemp | RenameTemp

text \<open>What one call does to the directory, and what a write that fails leaves behind.\<close>

definition did :: "string \<Rightarrow> string \<Rightarrow> checkpoint_file \<Rightarrow> syscall \<Rightarrow> disk \<Rightarrow> disk" where
  "did tmp final cf call d =
     (case call of
        CreateTemp \<Rightarrow> fmupd tmp \<lparr>df_data = None, df_synced = False\<rparr> d
      | WriteTemp \<Rightarrow> fmupd tmp \<lparr>df_data = Some cf, df_synced = False\<rparr> d
      | SyncTemp \<Rightarrow> (case fmlookup d tmp of None \<Rightarrow> d | Some f \<Rightarrow> fmupd tmp (f\<lparr>df_synced := True\<rparr>) d)
      | CloseTemp \<Rightarrow> d
      | RenameTemp \<Rightarrow> (case fmlookup d tmp of None \<Rightarrow> d | Some f \<Rightarrow> fmupd final f (fmdrop tmp d)))"

definition missed :: "string \<Rightarrow> syscall \<Rightarrow> disk \<Rightarrow> disk" where
  "missed tmp call d =
     (case call of WriteTemp \<Rightarrow> fmupd tmp \<lparr>df_data = None, df_synced = False\<rparr> d | _ \<Rightarrow> d)"

fun save_calls ::
  "(syscall \<Rightarrow> error option) \<Rightarrow> string \<Rightarrow> string \<Rightarrow> checkpoint_file \<Rightarrow> syscall list \<Rightarrow> disk \<Rightarrow>
    error option \<times> disk list"
where
  "save_calls fault tmp final cf [] d = (None, [d])"
| "save_calls fault tmp final cf (call # calls) d =
     (case fault call of
        Some e \<Rightarrow> (Some e, [d, missed tmp call d])
      | None \<Rightarrow>
          (case save_calls fault tmp final cf calls (did tmp final cf call d) of
             (err, ds) \<Rightarrow> (err, d # ds)))"

text \<open>
  A save and the directories it goes through; the last one is what it leaves. \<open>tmp\<close> is the name
  the system chose for the temporary file, which the deferred call removes whatever happened.
\<close>

definition File_Save ::
  "ctx \<Rightarrow> (syscall \<Rightarrow> error option) \<Rightarrow> string \<Rightarrow> string \<Rightarrow> string \<Rightarrow> cursor \<Rightarrow> disk \<Rightarrow>
    error option \<times> disk list"
where
  "File_Save ctx fault tmp tenant source c d =
     (case ctx of Some e \<Rightarrow> (Some e, [d])
      | None \<Rightarrow>
          (case marshal \<lparr>cf_Tenant = tenant, cf_Source = source, cf_Value = cu_Value c, cf_Time = cu_Time c\<rparr> of
             Inl e \<Rightarrow> (Some e, [d])
           | Inr cf \<Rightarrow>
               (case fault CreateTemp of Some e \<Rightarrow> (Some e, [d])
                | None \<Rightarrow>
                    (case save_calls fault tmp (path tenant source) cf
                            [WriteTemp, SyncTemp, CloseTemp, RenameTemp]
                            (did tmp (path tenant source) cf CreateTemp d) of
                       (err, ds) \<Rightarrow> (err, d # ds @ [fmdrop tmp (List.last ds)])))))"

section \<open>A save is atomic\<close>

text \<open>Every file a load could read has reached the disk.\<close>

definition durable :: "disk \<Rightarrow> bool" where
  "durable d \<longleftrightarrow> (\<forall>t s f. fmlookup d (path t s) = Some f \<longrightarrow> df_synced f)"

text \<open>What a crash leaves: files that reached the disk as they were, of the others anything.\<close>

definition survives :: "disk \<Rightarrow> disk \<Rightarrow> bool" where
  "survives d d' \<longleftrightarrow>
     (\<forall>n. (\<forall>f. fmlookup d n = Some f \<and> df_synced f \<longrightarrow> fmlookup d' n = Some f) \<and>
       (fmlookup d n = None \<longrightarrow> fmlookup d' n = None))"

definition saved_cursor :: "cursor \<Rightarrow> cursor" where
  "saved_cursor c = \<lparr>cu_Value = json_string (cu_Value c), cu_Time = cu_Time c\<rparr>"

definition temp_name :: "string \<Rightarrow> bool" where
  "temp_name tmp \<longleftrightarrow> take 1 tmp = ''.''"

lemma escape_plain: "c \<in> set (escape s) \<Longrightarrow> plain_char c"
  by (auto simp: escape_def plain_char_def split: if_splits)

lemma escape_not_Nil [simp]: "escape s \<noteq> []"
  by (simp add: escape_def)

lemma path_not_tmp: "temp_name tmp \<Longrightarrow> tmp \<noteq> path t s"
proof
  assume tmp: "temp_name tmp" "tmp = path t s"
  obtain c cs where c: "escape t = c # cs" using escape_not_Nil [of t] by (cases "escape t") auto
  then have "c = CHR ''.''" using tmp by (simp add: temp_name_def path_def)
  moreover have "plain_char c" using escape_plain [of c t] c by simp
  ultimately show False by (simp add: plain_char_def less_eq_char_def)
qed

lemma path_eq_iff: "path t s = path t' s' \<longleftrightarrow> escape t = escape t' \<and> escape s = escape s'"
proof
  assume eq: "path t s = path t' s'"
  have "CHR ''_'' \<notin> set (escape u)" for u
    using escape_plain [of "CHR ''_''" u] by (auto simp: plain_char_def less_eq_char_def)
  from split_mark [OF this this, of t "escape s @ ''.json''" t' "escape s' @ ''.json''"]
  show "escape t = escape t' \<and> escape s = escape s'"
    using eq by (auto simp: path_def)
qed (simp add: path_def)

text \<open>
  While a save runs the directory is, apart from the temporary file, the one it started from, or
  that one with the new file in place, already on the disk.
\<close>

definition replaced :: "string \<Rightarrow> string \<Rightarrow> checkpoint_file \<Rightarrow> disk \<Rightarrow> disk \<Rightarrow> bool" where
  "replaced tmp final cf d e \<longleftrightarrow>
     (\<forall>n. n \<noteq> tmp \<longrightarrow> fmlookup e n =
       (if n = final then Some \<lparr>df_data = Some cf, df_synced = True\<rparr> else fmlookup d n))"

definition untouched :: "string \<Rightarrow> disk \<Rightarrow> disk \<Rightarrow> bool" where
  "untouched tmp d e \<longleftrightarrow> (\<forall>n. n \<noteq> tmp \<longrightarrow> fmlookup e n = fmlookup d n)"

lemma save_calls_replace:
  assumes "tmp \<noteq> final"
    and "save_calls fault tmp final cf [WriteTemp, SyncTemp, CloseTemp, RenameTemp] (did tmp final cf CreateTemp d) = (err, ds)"
  shows "ds \<noteq> [] \<and> (\<forall>e \<in> set ds. untouched tmp d e \<or> replaced tmp final cf d e) \<and>
    (if err = None then replaced tmp final cf d (List.last ds) else untouched tmp d (List.last ds))"
  using assms
  by (auto simp: did_def missed_def untouched_def replaced_def split: option.splits prod.splits)

lemma File_Save_replace:
  assumes "temp_name tmp" "File_Save ctx fault tmp t s c d = (err, ds)"
  shows "ds \<noteq> [] \<and>
    (\<forall>e \<in> set ds. untouched tmp d e \<or> (\<exists>cf. cf_Value cf = json_string (cu_Value c) \<and> cf_Time cf = cu_Time c \<and>
       replaced tmp (path t s) cf d e)) \<and>
    (if err = None then \<exists>cf. cf_Value cf = json_string (cu_Value c) \<and> cf_Time cf = cu_Time c \<and>
       replaced tmp (path t s) cf d (List.last ds) else untouched tmp d (List.last ds))"
proof -
  have ne: "tmp \<noteq> path t s" using path_not_tmp [OF assms(1)] .
  have refl: "untouched tmp d d" by (simp add: untouched_def)
  let ?cf = "\<lparr>cf_Tenant = t, cf_Source = s, cf_Value = cu_Value c, cf_Time = cu_Time c\<rparr>"
  show ?thesis
  proof (cases "ctx \<noteq> None \<or> (\<exists>e. marshal ?cf = Inl e) \<or> fault CreateTemp \<noteq> None")
    case True
    then have "err \<noteq> None \<and> ds = [d]"
      using assms(2) by (cases ctx; cases "marshal ?cf"; cases "fault CreateTemp") (auto simp: File_Save_def)
    then show ?thesis using refl by auto
  next
    case False
    then obtain cf where cf: "marshal ?cf = Inr cf" by (cases "marshal ?cf") auto
    then have vt: "cf_Value cf = json_string (cu_Value c) \<and> cf_Time cf = cu_Time c"
      by (auto simp: marshal_def split: if_splits)
    obtain es where es: "save_calls fault tmp (path t s) cf [WriteTemp, SyncTemp, CloseTemp, RenameTemp]
        (did tmp (path t s) cf CreateTemp d) = (err, es)" "ds = d # es @ [fmdrop tmp (List.last es)]"
      using False assms(2) cf by (auto simp: File_Save_def split: prod.splits)
    note all = save_calls_replace [OF ne es(1)]
    have drop: "untouched tmp d e \<Longrightarrow> untouched tmp d (fmdrop tmp e)"
      "replaced tmp (path t s) cf d e \<Longrightarrow> replaced tmp (path t s) cf d (fmdrop tmp e)" for e
      by (auto simp: untouched_def replaced_def)
    have "untouched tmp d (List.last es) \<or> replaced tmp (path t s) cf d (List.last es)"
      using all by (auto split: if_splits)
    then have "untouched tmp d (fmdrop tmp (List.last es)) \<or> replaced tmp (path t s) cf d (fmdrop tmp (List.last es))"
      using drop by blast
    then have "\<forall>e \<in> set ds. untouched tmp d e \<or> replaced tmp (path t s) cf d e"
      using all refl unfolding es(2) by auto
    moreover have "if err = None then replaced tmp (path t s) cf d (List.last ds) else untouched tmp d (List.last ds)"
      using all drop [of "List.last es"] unfolding es(2) by (auto split: if_splits)
    ultimately show ?thesis using vt es(2) by (auto split: if_splits)
  qed
qed

lemma Load_untouched:
  assumes "temp_name tmp" "durable d" "untouched tmp d e" "survives e e'"
  shows "File_Load None None t s e' = File_Load None None t s d"
proof -
  have "fmlookup e (path t s) = fmlookup d (path t s)"
    using assms(3) path_not_tmp [OF assms(1), of t s] by (auto simp: untouched_def)
  moreover have "fmlookup e' (path t s) = fmlookup e (path t s)"
  proof (cases "fmlookup e (path t s)")
    case (Some f)
    then have "df_synced f" using assms(2) calculation by (auto simp: durable_def)
    then show ?thesis using assms(4) Some by (auto simp: survives_def)
  qed (use assms(4) in \<open>auto simp: survives_def\<close>)
  ultimately show ?thesis by (simp add: File_Load_def)
qed

lemma Load_replaced:
  assumes "temp_name tmp" "durable d" "replaced tmp (path t s) cf d e" "survives e e'"
  shows "File_Load None None t' s' e' =
    (if path t' s' = path t s then Inr \<lparr>cu_Value = cf_Value cf, cu_Time = cf_Time cf\<rparr>
     else File_Load None None t' s' d)"
proof -
  have eq: "fmlookup e (path t' s') = (if path t' s' = path t s
      then Some \<lparr>df_data = Some cf, df_synced = True\<rparr> else fmlookup d (path t' s'))"
    using assms(3) path_not_tmp [OF assms(1), of t' s'] by (auto simp: replaced_def)
  have "fmlookup e' (path t' s') = fmlookup e (path t' s')"
  proof (cases "fmlookup e (path t' s')")
    case (Some f)
    then have "df_synced f" using assms(2) eq by (auto simp: durable_def split: if_splits)
    then show ?thesis using assms(4) Some by (auto simp: survives_def)
  qed (use assms(4) in \<open>auto simp: survives_def\<close>)
  then show ?thesis using eq by (simp add: File_Load_def)
qed

lemma survives_refl [simp]: "survives d d"
  by (simp add: survives_def)

text \<open>
  C40: wherever a save is interrupted, by a failing call or by a crash between two calls that
  loses everything not yet on the disk, a load afterwards returns what it would have returned
  before the save, or the new resume point, and the latter only for the source saved and those
  that share its file.
\<close>

theorem Save_atomic:
  assumes "temp_name tmp" "durable d" "File_Save ctx fault tmp t s c d = (err, ds)"
    and "e \<in> set ds" "survives e e'"
  shows "File_Load None None t' s' e' = File_Load None None t' s' d \<or>
    path t' s' = path t s \<and> File_Load None None t' s' e' = Inr (saved_cursor c)"
proof -
  from File_Save_replace [OF assms(1,3)] assms(4)
  consider "untouched tmp d e" | cf where "cf_Value cf = json_string (cu_Value c)" "cf_Time cf = cu_Time c"
      "replaced tmp (path t s) cf d e"
    by blast
  then show ?thesis
  proof cases
    case 1
    then show ?thesis using Load_untouched [OF assms(1,2) _ assms(5)] by simp
  next
    case 2
    then show ?thesis
      using Load_replaced [OF assms(1,2) 2(3) assms(5), of t' s'] by (auto simp: saved_cursor_def)
  qed
qed

text \<open>
  A save that returns no error is on the disk: even if the machine stops at once, the next
  load of that source, and of every source that shares its file, returns the resume point saved,
  and loads of all others are as they were; a save that returns an error changed no load.
\<close>

theorem Save_durable:
  assumes "temp_name tmp" "durable d" "File_Save ctx fault tmp t s c d = (err, ds)"
    and "survives (List.last ds) e"
  shows "File_Load None None t' s' e =
    (if err = None \<and> escape t' = escape t \<and> escape s' = escape s then Inr (saved_cursor c)
     else File_Load None None t' s' d)"
proof (cases "err = None")
  case True
  then obtain cf where "cf_Value cf = json_string (cu_Value c)" "cf_Time cf = cu_Time c"
      "replaced tmp (path t s) cf d (List.last ds)"
    using File_Save_replace [OF assms(1,3)] by auto
  then show ?thesis
    using Load_replaced [OF assms(1,2) _ assms(4), of t s cf t' s'] True
    by (auto simp: saved_cursor_def path_eq_iff)
next
  case False
  then show ?thesis
    using File_Save_replace [OF assms(1,3)] Load_untouched [OF assms(1,2) _ assms(4)] by auto
qed

text \<open>
  Two sources of one tenant whose names differ only in characters that are not letters or
  digits share one resume point: what one of them saves, the other starts from, though the file
  records whose it is.
\<close>

theorem File_points_shared:
  "\<exists>d. fst (File_Save None (\<lambda>_. None) ''.checkpoint-1'' ''acme'' ''wiki/eng'' \<lparr>cu_Value = ''42'', cu_Time = 1\<rparr> fmempty) = None \<and>
     d = List.last (snd (File_Save None (\<lambda>_. None) ''.checkpoint-1'' ''acme'' ''wiki/eng'' \<lparr>cu_Value = ''42'', cu_Time = 1\<rparr> fmempty)) \<and>
     File_Load None None ''acme'' ''wiki.eng'' d = Inr \<lparr>cu_Value = ''42'', cu_Time = 1\<rparr>"
  by (rule exI, rule conjI, code_simp, rule conjI, rule refl, code_simp)

section \<open>A save on an empty directory\<close>

definition ex_cursor :: cursor where
  "ex_cursor = \<lparr>cu_Value = ''p7'', cu_Time = 5\<rparr>"

theorem Save_atomic_witness:
  "File_Load None None ''acme'' ''wiki'' fmempty = Inr zero_cursor \<and>
   (File_Load None None ''acme'' ''wiki'' (snd (File_Save None (\<lambda>_. None) ''.checkpoint-1'' ''acme'' ''wiki'' ex_cursor fmempty) ! 2) = Inr zero_cursor \<or>
    File_Load None None ''acme'' ''wiki'' (snd (File_Save None (\<lambda>_. None) ''.checkpoint-1'' ''acme'' ''wiki'' ex_cursor fmempty) ! 2) = Inr (saved_cursor ex_cursor))"
proof -
  let ?r = "File_Save None (\<lambda>_. None) ''.checkpoint-1'' ''acme'' ''wiki'' ex_cursor fmempty"
  have len: "length (snd ?r) = 7" by code_simp
  then have "snd ?r ! 2 \<in> set (snd ?r)" by simp
  from Save_atomic [OF _ _ surjective_pairing this survives_refl, of "''acme''" "''wiki''"]
  have "File_Load None None ''acme'' ''wiki'' (snd ?r ! 2) = File_Load None None ''acme'' ''wiki'' fmempty \<or>
      File_Load None None ''acme'' ''wiki'' (snd ?r ! 2) = Inr (saved_cursor ex_cursor)"
    by (auto simp: temp_name_def durable_def)
  moreover have "File_Load None None ''acme'' ''wiki'' fmempty = Inr zero_cursor" by (simp add: File_Load_def)
  ultimately show ?thesis by simp
qed

theorem Save_durable_witness:
  "File_Load None None ''acme'' ''wiki''
     (List.last (snd (File_Save None (\<lambda>_. None) ''.checkpoint-1'' ''acme'' ''wiki'' ex_cursor fmempty))) = Inr ex_cursor"
proof -
  have "fst (File_Save None (\<lambda>_. None) ''.checkpoint-1'' ''acme'' ''wiki'' ex_cursor fmempty) = None" by code_simp
  moreover have "saved_cursor ex_cursor = ex_cursor" by code_simp
  ultimately show ?thesis
    using Save_durable [where tmp = "''.checkpoint-1''" and d = fmempty and t = "''acme''" and s = "''wiki''"
        and c = ex_cursor and t' = "''acme''" and s' = "''wiki''", OF _ _ surjective_pairing survives_refl]
    by (simp add: temp_name_def durable_def)
qed

end
