(* ===== verification/Ingest.thy ===== *)
theory Ingest
  imports Connector_Checkpoint Store_Request
begin

text \<open>
  Package \<open>ingest\<close>: the pipeline that moves what a connector produces into a store
  (\<open>ingest.go\<close>), and the sweep that compares the two sides and repairs the difference
  (\<open>reconcile.go\<close>). The store and the resume points are whatever the pipeline was built with: a
  record of operations over a state \<open>'w\<close> of the outside world, each of which may fail, with the
  optional capabilities as options. A connector is what its calls answer: a sync is the changes
  it would hand over and how it ends, and it stops at the first error of \<open>emit\<close>, as its contract
  says. The context and the clock are read through an environment that says what the \<open>n\<close>-th look
  at them sees. Log lines are not modelled.
\<close>

section \<open>Stores, resume points and connectors\<close>

record 'w maintenance =
  mt_SetPermissions :: "ctx \<Rightarrow> string \<Rightarrow> (string, permissions) fmap \<Rightarrow> 'w \<Rightarrow> int res \<times> 'w"
  mt_Inventory :: "ctx \<Rightarrow> string \<Rightarrow> string \<Rightarrow> 'w \<Rightarrow> item list \<times> error option"

record 'w checkpoints =
  cp_Load :: "ctx \<Rightarrow> string \<Rightarrow> string \<Rightarrow> 'w \<Rightarrow> cursor res"
  cp_Save :: "ctx \<Rightarrow> string \<Rightarrow> string \<Rightarrow> cursor \<Rightarrow> 'w \<Rightarrow> error option \<times> 'w"

record 'w ingest_store =
  is_Put :: "ctx \<Rightarrow> document list \<Rightarrow> 'w \<Rightarrow> error option \<times> 'w"
  is_Delete :: "ctx \<Rightarrow> string list \<Rightarrow> 'w \<Rightarrow> error option \<times> 'w"
  is_Maintenance :: "'w maintenance option"

datatype fetched = Fetched document | Gone | FetchFailed error

record source_connector =
  cn_Source :: string
  cn_Sync :: "cursor \<Rightarrow> source_change list \<times> cursor res"
  cn_Enumerate :: "(source_item list \<times> error option) option"
  cn_Fetch :: "(string \<Rightarrow> fetched) option"
  cn_Counters :: "(nat \<Rightarrow> source_counters) option"

record ingest_env =
  ie_ctx :: "nat \<Rightarrow> ctx"
  ie_clock :: "nat \<Rightarrow> gtime"

datatype ingest_error =
    NilStore | NilConnector | EmptyTenant | NoMaintenance | NoEnumerator
  | LoadFailed error | SaveFailed error
  | PutFailed error | DeleteFailed error | PermissionsFailed error
  | ContextDone error
  | PermissionsRefused string
  | SourceFailed error
  | EnumerateFailed error | InventoryFailed error | FetchError string error

section \<open>Pipelines (ingest.go)\<close>

definition DefaultBatchSize :: int where
  "DefaultBatchSize = 500"

record 'w pipeline =
  pl_store :: "'w ingest_store"
  pl_checkpoints :: "'w checkpoints option"
  pl_batchSize :: int
  pl_progress :: bool
  pl_maint :: "'w maintenance option"

definition WithBatchSize :: "int \<Rightarrow> 'w pipeline \<Rightarrow> 'w pipeline" where
  "WithBatchSize n p = (if 0 < n then p\<lparr>pl_batchSize := n\<rparr> else p)"

definition WithProgress :: "bool \<Rightarrow> 'w pipeline \<Rightarrow> 'w pipeline" where
  "WithProgress given p = (if given then p\<lparr>pl_progress := True\<rparr> else p)"

definition NewPipeline ::
  "'w ingest_store option \<Rightarrow> 'w checkpoints option \<Rightarrow> ('w pipeline \<Rightarrow> 'w pipeline) list \<Rightarrow>
    ingest_error + 'w pipeline"
where
  "NewPipeline st cp opts =
     (case st of
        None \<Rightarrow> Inl NilStore
      | Some st \<Rightarrow>
          let p = foldl (\<lambda>p opt. opt p)
                \<lparr>pl_store = st, pl_checkpoints = cp, pl_batchSize = DefaultBatchSize,
                 pl_progress = False, pl_maint = None\<rparr> opts
          in Inr (p\<lparr>pl_maint := is_Maintenance st\<rparr>))"

record progress =
  pg_Source :: string
  pg_Tenant :: string
  pg_Done :: int
  pg_Resumed :: bool

record ingest_stats =
  ig_Indexed :: int
  ig_Quarantined :: int
  ig_Deleted :: int
  ig_Repermissioned :: int
  ig_Skipped :: int
  ig_Batches :: int
  ig_Bytes :: "64 word"
  ig_Duration :: duration
  ig_Cursor :: cursor

definition zero_stats :: ingest_stats where
  "zero_stats =
     \<lparr>ig_Indexed = 0, ig_Quarantined = 0, ig_Deleted = 0, ig_Repermissioned = 0, ig_Skipped = 0,
      ig_Batches = 0, ig_Bytes = 0, ig_Duration = 0, ig_Cursor = zero_cursor\<rparr>"

text \<open>
  The state of one run, with the world it writes to, how often it has looked at the context and
  the clock, and what it reported.
\<close>

record 'w run_state =
  ru_tenant :: string
  ru_source :: string
  ru_batch :: "document list"
  ru_deletes :: "string list"
  ru_perms :: "(string, permissions) fmap"
  ru_pending :: cursor
  ru_stats :: ingest_stats
  ru_resumed :: bool
  ru_world :: 'w
  ru_looks :: nat
  ru_reports :: "progress list"

definition new_run :: "string \<Rightarrow> string \<Rightarrow> bool \<Rightarrow> nat \<Rightarrow> 'w \<Rightarrow> 'w run_state" where
  "new_run tenant source resumed looks w =
     \<lparr>ru_tenant = tenant, ru_source = source, ru_batch = [], ru_deletes = [], ru_perms = fmempty,
      ru_pending = zero_cursor, ru_stats = zero_stats, ru_resumed = resumed, ru_world = w,
      ru_looks = looks, ru_reports = []\<rparr>"

definition look_ctx :: "ingest_env \<Rightarrow> 'w run_state \<Rightarrow> ctx \<times> 'w run_state" where
  "look_ctx E r = (ie_ctx E (ru_looks r), r\<lparr>ru_looks := Suc (ru_looks r)\<rparr>)"

definition look_clock :: "ingest_env \<Rightarrow> 'w run_state \<Rightarrow> gtime \<times> 'w run_state" where
  "look_clock E r = (ie_clock E (ru_looks r), r\<lparr>ru_looks := Suc (ru_looks r)\<rparr>)"

definition report_progress :: "'w pipeline \<Rightarrow> 'w run_state \<Rightarrow> 'w run_state" where
  "report_progress p r =
     (if \<not> pl_progress p then r
      else r\<lparr>ru_reports := ru_reports r @
        [\<lparr>pg_Source = ru_source r, pg_Tenant = ru_tenant r,
          pg_Done = ig_Indexed (ru_stats r) + ig_Quarantined (ru_stats r),
          pg_Resumed = ru_resumed r\<rparr>]\<rparr>)"

definition saveCursor ::
  "ingest_env \<Rightarrow> 'w pipeline \<Rightarrow> cursor \<Rightarrow> 'w run_state \<Rightarrow> ingest_error option \<times> 'w run_state" where
  "saveCursor E p c r =
     (case pl_checkpoints p of
        None \<Rightarrow> (None, r)
      | Some cp \<Rightarrow>
          if Cursor_IsZero c then (None, r)
          else
            let (ctx, r) = look_ctx E r;
                (err, w) = cp_Save cp ctx (ru_tenant r) (ru_source r) c (ru_world r)
            in (map_option SaveFailed err, r\<lparr>ru_world := w\<rparr>))"

definition loadCursor ::
  "ctx \<Rightarrow> 'w pipeline \<Rightarrow> string \<Rightarrow> string \<Rightarrow> 'w \<Rightarrow> ingest_error + cursor" where
  "loadCursor ctx p tenant source w =
     (case pl_checkpoints p of
        None \<Rightarrow> Inr zero_cursor
      | Some cp \<Rightarrow>
          (case cp_Load cp ctx tenant source w of Inl e \<Rightarrow> Inl (LoadFailed e) | Inr c \<Rightarrow> Inr c))"

text \<open>The three writes of a batch, each left out when there is nothing of its kind.\<close>

definition flush_puts ::
  "ingest_env \<Rightarrow> 'w pipeline \<Rightarrow> 'w run_state \<Rightarrow> ingest_error option \<times> 'w run_state" where
  "flush_puts E p r =
     (if ru_batch r = [] then (None, r)
      else
        let (ctx, r) = look_ctx E r;
            (err, w) = is_Put (pl_store p) ctx (ru_batch r) (ru_world r)
        in (map_option PutFailed err, r\<lparr>ru_world := w\<rparr>))"

definition flush_deletes ::
  "ingest_env \<Rightarrow> 'w pipeline \<Rightarrow> 'w run_state \<Rightarrow> ingest_error option \<times> 'w run_state" where
  "flush_deletes E p r =
     (if ru_deletes r = [] then (None, r)
      else
        let (ctx, r) = look_ctx E r;
            (err, w) = is_Delete (pl_store p) ctx (ru_deletes r) (ru_world r)
        in (map_option DeleteFailed err, r\<lparr>ru_world := w\<rparr>))"

text \<open>
  There is something in \<open>ru_perms\<close> only when the store has the capability, since \<open>emit\<close> refuses
  the change otherwise; without it the call would be one on a nil interface.
\<close>

definition flush_perms ::
  "ingest_env \<Rightarrow> 'w pipeline \<Rightarrow> 'w run_state \<Rightarrow> ingest_error option \<times> 'w run_state" where
  "flush_perms E p r =
     (if ru_perms r = fmempty then (None, r)
      else
        (case pl_maint p of
           None \<Rightarrow> (None, r)
         | Some m \<Rightarrow>
             let (ctx, r) = look_ctx E r;
                 (answer, w) = mt_SetPermissions m ctx (ru_tenant r) (ru_perms r) (ru_world r);
                 r = r\<lparr>ru_world := w\<rparr>
             in (case answer of
                   Inl e \<Rightarrow> (Some (PermissionsFailed e), r)
                 | Inr n \<Rightarrow>
                     (None, r\<lparr>ru_stats := (ru_stats r)\<lparr>ig_Repermissioned := ig_Repermissioned (ru_stats r) + n\<rparr>\<rparr>))))"

definition flush_run ::
  "ingest_env \<Rightarrow> 'w pipeline \<Rightarrow> 'w run_state \<Rightarrow> ingest_error option \<times> 'w run_state" where
  "flush_run E p r =
     (if ru_batch r = [] \<and> ru_deletes r = [] \<and> ru_perms r = fmempty then (None, r)
      else case flush_puts E p r of (Some e, r) \<Rightarrow> (Some e, r) | (None, r) \<Rightarrow>
        (case flush_deletes E p r of (Some e, r) \<Rightarrow> (Some e, r) | (None, r) \<Rightarrow>
          (case flush_perms E p r of (Some e, r) \<Rightarrow> (Some e, r) | (None, r) \<Rightarrow>
            (let r = r\<lparr>ru_stats := (ru_stats r)\<lparr>ig_Batches := ig_Batches (ru_stats r) + 1\<rparr>\<rparr>;
                 r = report_progress p r;
                 r = r\<lparr>ru_batch := [], ru_deletes := [], ru_perms := fmempty\<rparr>
             in case saveCursor E p (ru_pending r) r of (Some e, r) \<Rightarrow> (Some e, r) | (None, r) \<Rightarrow>
               (None,
                if \<not> Cursor_IsZero (ru_pending r)
                then r\<lparr>ru_stats := (ru_stats r)\<lparr>ig_Cursor := ru_pending r\<rparr>\<rparr> else r)))))"

definition maybeFlush ::
  "ingest_env \<Rightarrow> 'w pipeline \<Rightarrow> 'w run_state \<Rightarrow> ingest_error option \<times> 'w run_state" where
  "maybeFlush E p r =
     (if int (length (ru_batch r)) + int (length (ru_deletes r)) + int (fcard (fmdom (ru_perms r))) <
          pl_batchSize p
      then (None, r) else flush_run E p r)"

text \<open>One change of a connector.\<close>

definition stamp :: "'w run_state \<Rightarrow> document \<Rightarrow> document" where
  "stamp r d = d\<lparr>doc_Tenant := ru_tenant r, doc_Source := ru_source r\<rparr>"

definition emit ::
  "ingest_env \<Rightarrow> 'w pipeline \<Rightarrow> source_change \<Rightarrow> 'w run_state \<Rightarrow> ingest_error option \<times> 'w run_state" where
  "emit E p ch r =
     (case look_ctx E r of
        (Some e, r) \<Rightarrow> (Some (ContextDone e), r)
      | (None, r) \<Rightarrow>
          let d = stamp r (cg_Document ch);
              r = (if \<not> Cursor_IsZero (cg_Cursor ch) then r\<lparr>ru_pending := cg_Cursor ch\<rparr> else r);
              st = ru_stats r
          in if doc_ID d = '''' then
               maybeFlush E p (r\<lparr>ru_stats := st\<lparr>ig_Skipped := ig_Skipped st + 1\<rparr>\<rparr>)
             else if cg_Deleted ch then
               maybeFlush E p (r\<lparr>ru_deletes := ru_deletes r @ [doc_ID d],
                                 ru_stats := st\<lparr>ig_Deleted := ig_Deleted st + 1\<rparr>\<rparr>)
             else if cg_PermissionsOnly ch then
               (if pl_maint p = None then (Some (PermissionsRefused (doc_ID d)), r)
                else maybeFlush E p (r\<lparr>ru_perms := fmupd (doc_ID d) (doc_Permissions d) (ru_perms r)\<rparr>))
             else
               let (now, r) = look_clock E r;
                   d = d\<lparr>doc_IndexedAt := now\<rparr>;
                   st = st\<lparr>ig_Bytes := ig_Bytes st + of_nat (length (doc_Body d))\<rparr>;
                   st = (if Queryable d then st\<lparr>ig_Indexed := ig_Indexed st + 1\<rparr>
                         else st\<lparr>ig_Quarantined := ig_Quarantined st + 1\<rparr>)
               in maybeFlush E p (r\<lparr>ru_batch := ru_batch r @ [d], ru_stats := st\<rparr>))"

fun emit_all ::
  "ingest_env \<Rightarrow> 'w pipeline \<Rightarrow> source_change list \<Rightarrow> 'w run_state \<Rightarrow> ingest_error option \<times> 'w run_state" where
  "emit_all E p [] r = (None, r)"
| "emit_all E p (ch # chs) r =
     (case emit E p ch r of (Some e, r) \<Rightarrow> (Some e, r) | (None, r) \<Rightarrow> emit_all E p chs r)"

text \<open>\<open>Connector.Sync\<close>: the walk stops at the first error of \<open>emit\<close> and returns it.\<close>

definition sync_connector ::
  "ingest_env \<Rightarrow> 'w pipeline \<Rightarrow> source_connector \<Rightarrow> cursor \<Rightarrow> 'w run_state \<Rightarrow>
    (ingest_error + cursor) \<times> 'w run_state"
where
  "sync_connector E p c point r =
     (case cn_Sync c point of
        (changes, ended) \<Rightarrow>
          (case emit_all E p changes r of
             (Some e, r) \<Rightarrow> (Inl e, r)
           | (None, r) \<Rightarrow> (case ended of Inl e \<Rightarrow> (Inl (SourceFailed e), r) | Inr final \<Rightarrow> (Inr final, r))))"

text \<open>
  One run. The second component is what it returned as its error, the third the state it ended
  in, with the statistics it returns; a run that never starts has none.
\<close>

definition Run ::
  "ingest_env \<Rightarrow> 'w pipeline \<Rightarrow> string \<Rightarrow> source_connector option \<Rightarrow> 'w \<Rightarrow>
    ingest_stats \<times> ingest_error option \<times> 'w run_state option \<times> 'w"
where
  "Run E p tenant c w =
     (case c of
        None \<Rightarrow> (zero_stats, Some NilConnector, None, w)
      | Some c \<Rightarrow>
          if tenant = '''' then (zero_stats, Some EmptyTenant, None, w)
          else
            let start = ie_clock E 0 in
            (case loadCursor (ie_ctx E 1) p tenant (cn_Source c) w of
               Inl e \<Rightarrow> (zero_stats, Some e, None, w)
             | Inr point \<Rightarrow>
                 let r = new_run tenant (cn_Source c) (\<not> Cursor_IsZero point) 2 w;
                     r = r\<lparr>ru_stats := zero_stats\<lparr>ig_Cursor := point\<rparr>\<rparr>;
                     r = report_progress p r;
                     (synced, r) = sync_connector E p c point r;
                     (flushErr, r) = flush_run E p r;
                     (stop, r) = look_clock E r;
                     r = r\<lparr>ru_stats := (ru_stats r)\<lparr>ig_Duration := stop - start\<rparr>\<rparr>
                 in (case synced of
                       Inl e \<Rightarrow> (ru_stats r, Some e, Some r, ru_world r)
                     | Inr final \<Rightarrow>
                         (case flushErr of
                            Some e \<Rightarrow> (ru_stats r, Some e, Some r, ru_world r)
                          | None \<Rightarrow>
                              if Cursor_IsZero final then (ru_stats r, None, Some r, ru_world r)
                              else
                                (case saveCursor E p final r of
                                   (Some e, r) \<Rightarrow> (ru_stats r, Some e, Some r, ru_world r)
                                 | (None, r) \<Rightarrow>
                                     let r = r\<lparr>ru_stats := (ru_stats r)\<lparr>ig_Cursor := final\<rparr>\<rparr>
                                     in (ru_stats r, None, Some r, ru_world r))))))"

end
