(* ===== verification/Ingest_Safety.thy ===== *)
theory Ingest_Safety
  imports Ingest
begin

text \<open>
  What a run of the pipeline guarantees about its resume points. The store and the resume points
  are wrapped so that they write down every call that succeeds; a crash can then be placed after
  any prefix of that list. Whatever the store, the checkpoints, the context and the connector
  answer, a resume point is never saved before every change in front of it was carried out, so a
  run that is killed repeats work and never skips any.
\<close>

section \<open>Writing the calls down\<close>

datatype event =
    StoredDocs "document list"
  | Removed "string list"
  | Permitted string "(string, permissions) fmap"
  | SavedPoint string string cursor

definition noting :: "event \<Rightarrow> error option \<times> 'w \<Rightarrow> event list \<Rightarrow> error option \<times> ('w \<times> event list)" where
  "noting ev answer tr =
     (case answer of (None, w) \<Rightarrow> (None, (w, tr @ [ev])) | (Some e, w) \<Rightarrow> (Some e, (w, tr)))"

definition record_maint :: "'w maintenance \<Rightarrow> ('w \<times> event list) maintenance" where
  "record_maint m =
     \<lparr>mt_SetPermissions = (\<lambda>ctx t perms (w, tr).
        (case mt_SetPermissions m ctx t perms w of
           (Inl e, w) \<Rightarrow> (Inl e, (w, tr))
         | (Inr n, w) \<Rightarrow> (Inr n, (w, tr @ [Permitted t perms])))),
      mt_Inventory = (\<lambda>ctx t s (w, tr). mt_Inventory m ctx t s w)\<rparr>"

definition record_store :: "'w ingest_store \<Rightarrow> ('w \<times> event list) ingest_store" where
  "record_store st =
     \<lparr>is_Put = (\<lambda>ctx docs (w, tr). noting (StoredDocs docs) (is_Put st ctx docs w) tr),
      is_Delete = (\<lambda>ctx ids (w, tr). noting (Removed ids) (is_Delete st ctx ids w) tr),
      is_Maintenance = map_option record_maint (is_Maintenance st)\<rparr>"

definition record_points :: "'w checkpoints \<Rightarrow> ('w \<times> event list) checkpoints" where
  "record_points cp =
     \<lparr>cp_Load = (\<lambda>ctx t s (w, tr). cp_Load cp ctx t s w),
      cp_Save = (\<lambda>ctx t s c (w, tr). noting (SavedPoint t s c) (cp_Save cp ctx t s c w) tr)\<rparr>"

definition recorded :: "'w pipeline \<Rightarrow> ('w \<times> event list) pipeline" where
  "recorded p =
     \<lparr>pl_store = record_store (pl_store p), pl_checkpoints = map_option record_points (pl_checkpoints p),
      pl_batchSize = pl_batchSize p, pl_progress = pl_progress p,
      pl_maint = map_option record_maint (pl_maint p)\<rparr>"

lemma recorded_simps [simp]:
  "pl_store (recorded p) = record_store (pl_store p)"
  "pl_checkpoints (recorded p) = map_option record_points (pl_checkpoints p)"
  "pl_batchSize (recorded p) = pl_batchSize p"
  "pl_progress (recorded p) = pl_progress p"
  "pl_maint (recorded p) = map_option record_maint (pl_maint p)"
  by (simp_all add: recorded_def)

abbreviation calls :: "('w \<times> event list) run_state \<Rightarrow> event list" where
  "calls r \<equiv> snd (ru_world r)"

section \<open>What a resume point promises\<close>

text \<open>The change was carried out by one of the calls.\<close>

definition carried_out :: "string \<Rightarrow> string \<Rightarrow> event list \<Rightarrow> source_change \<Rightarrow> bool" where
  "carried_out t s tr ch \<longleftrightarrow>
     (let i = doc_ID (cg_Document ch) in
      if i = '''' then True
      else if cg_Deleted ch then \<exists>ids. Removed ids \<in> set tr \<and> i \<in> set ids
      else if cg_PermissionsOnly ch then \<exists>m. Permitted t m \<in> set tr \<and> i \<in> fmdom' m
      else \<exists>docs at. StoredDocs docs \<in> set tr \<and>
        (cg_Document ch)\<lparr>doc_Tenant := t, doc_Source := s, doc_IndexedAt := at\<rparr> \<in> set docs)"

text \<open>The resume point of the last of some changes that has one.\<close>

fun last_point :: "source_change list \<Rightarrow> cursor" where
  "last_point [] = zero_cursor"
| "last_point (ch # chs) =
     (if \<not> Cursor_IsZero (last_point chs) then last_point chs
      else if \<not> Cursor_IsZero (cg_Cursor ch) then cg_Cursor ch else zero_cursor)"

definition points_covered ::
  "string \<Rightarrow> string \<Rightarrow> source_change list \<Rightarrow> cursor res \<Rightarrow> event list \<Rightarrow> bool" where
  "points_covered t s changes ended tr \<longleftrightarrow>
     (\<forall>xs t' s' c ys. tr = xs @ SavedPoint t' s' c # ys \<longrightarrow>
       t' = t \<and> s' = s \<and>
       (\<exists>k \<le> length changes.
         (c = last_point (take k changes) \<or> k = length changes \<and> ended = Inr c) \<and>
         (\<forall>ch \<in> set (take k changes). carried_out t s xs ch)))"

text \<open>The change waits in the batch.\<close>

definition waiting :: "'w run_state \<Rightarrow> source_change \<Rightarrow> bool" where
  "waiting r ch \<longleftrightarrow>
     (let i = doc_ID (cg_Document ch) in
      if i = '''' then True
      else if cg_Deleted ch then i \<in> set (ru_deletes r)
      else if cg_PermissionsOnly ch then i \<in> fmdom' (ru_perms r)
      else \<exists>at. (stamp r (cg_Document ch))\<lparr>doc_IndexedAt := at\<rparr> \<in> set (ru_batch r))"

lemma last_point_snoc:
  "last_point (chs @ [ch]) = (if \<not> Cursor_IsZero (cg_Cursor ch) then cg_Cursor ch else last_point chs)"
  by (induction chs) (auto simp: zero_cursor_def Cursor_IsZero_def)

lemma carried_out_more: "carried_out t s tr ch \<Longrightarrow> carried_out t s (tr @ zs) ch"
  by (auto simp: carried_out_def Let_def split: if_splits)

lemma points_covered_Nil [simp]: "points_covered t s chs ended []"
  by (simp add: points_covered_def)

lemma points_covered_other:
  assumes "points_covered t s chs ended tr" "\<forall>t' s' c. SavedPoint t' s' c \<notin> set zs"
  shows "points_covered t s chs ended (tr @ zs)"
  unfolding points_covered_def
proof (intro allI impI)
  fix xs t' s' c ys
  assume eq: "tr @ zs = xs @ SavedPoint t' s' c # ys"
  have "length xs < length tr"
  proof (rule ccontr)
    assume "\<not> length xs < length tr"
    then have "SavedPoint t' s' c = zs ! (length xs - length tr)" "length xs - length tr < length zs"
      using arg_cong [OF eq, of "\<lambda>l. l ! length xs"] arg_cong [OF eq, of length] by (auto simp: nth_append)
    then show False using assms(2) nth_mem by metis
  qed
  then have "tr = xs @ SavedPoint t' s' c # take (length tr - Suc (length xs)) ys"
    using arg_cong [OF eq, of "take (length tr)"] by (simp add: take_Cons' Suc_diff_Suc)
  then show "t' = t \<and> s' = s \<and> (\<exists>k \<le> length chs.
      (c = last_point (take k chs) \<or> k = length chs \<and> ended = Inr c) \<and>
      (\<forall>ch \<in> set (take k chs). carried_out t s xs ch))"
    using assms(1) unfolding points_covered_def by blast
qed

lemma points_covered_point:
  assumes "points_covered t s chs ended tr" "k \<le> length chs"
    and "c = last_point (take k chs) \<or> k = length chs \<and> ended = Inr c"
    and "\<forall>ch \<in> set (take k chs). carried_out t s tr ch"
  shows "points_covered t s chs ended (tr @ [SavedPoint t s c])"
  unfolding points_covered_def
proof (intro allI impI)
  fix xs t' s' c' ys
  assume eq: "tr @ [SavedPoint t s c] = xs @ SavedPoint t' s' c' # ys"
  show "t' = t \<and> s' = s \<and> (\<exists>k \<le> length chs.
      (c' = last_point (take k chs) \<or> k = length chs \<and> ended = Inr c') \<and>
      (\<forall>ch \<in> set (take k chs). carried_out t s xs ch))"
  proof (cases ys rule: rev_cases)
    case Nil
    then show ?thesis using eq assms(2-4) by auto
  next
    case (snoc ys' y)
    then have "tr = xs @ SavedPoint t' s' c' # ys'" using eq by simp
    then show ?thesis using assms(1) unfolding points_covered_def by blast
  qed
qed

section \<open>One write of a batch\<close>

text \<open>Only the world, with these calls, and what the run counts of itself moved.\<close>

definition moved :: "('w \<times> event list) run_state \<Rightarrow> ('w \<times> event list) run_state \<Rightarrow> event list \<Rightarrow> bool" where
  "moved r r' zs \<longleftrightarrow>
     calls r' = calls r @ zs \<and> ru_batch r' = ru_batch r \<and> ru_deletes r' = ru_deletes r \<and>
     ru_perms r' = ru_perms r \<and> ru_pending r' = ru_pending r \<and> ru_tenant r' = ru_tenant r \<and>
     ru_source r' = ru_source r"

lemma moved_refl [simp]: "moved r r []"
  by (simp add: moved_def)

lemma moved_trans: "moved r a xs \<Longrightarrow> moved a b ys \<Longrightarrow> moved r b (xs @ ys)"
  by (simp add: moved_def)

lemma flush_puts_recorded:
  "flush_puts E (recorded p) r = (err, r') \<Longrightarrow>
    moved r r' (if err = None \<and> ru_batch r \<noteq> [] then [StoredDocs (ru_batch r)] else [])"
  by (cases "ru_world r")
    (auto simp: flush_puts_def look_ctx_def record_store_def noting_def moved_def Let_def
      split: if_splits prod.splits option.splits)

lemma flush_deletes_recorded:
  "flush_deletes E (recorded p) r = (err, r') \<Longrightarrow>
    moved r r' (if err = None \<and> ru_deletes r \<noteq> [] then [Removed (ru_deletes r)] else [])"
  by (cases "ru_world r")
    (auto simp: flush_deletes_def look_ctx_def record_store_def noting_def moved_def Let_def
      split: if_splits prod.splits option.splits)

lemma flush_perms_recorded:
  "flush_perms E (recorded p) r = (err, r') \<Longrightarrow>
    moved r r' (if err = None \<and> ru_perms r \<noteq> fmempty \<and> pl_maint p \<noteq> None
      then [Permitted (ru_tenant r) (ru_perms r)] else [])"
  by (cases "ru_world r")
    (auto simp: flush_perms_def look_ctx_def record_maint_def moved_def Let_def
      split: if_splits prod.splits option.splits sum.splits)

lemma saveCursor_recorded:
  "saveCursor E (recorded p) c r = (err, r') \<Longrightarrow>
    moved r r' [] \<or> moved r r' [SavedPoint (ru_tenant r) (ru_source r) c] \<and> \<not> Cursor_IsZero c"
  by (cases "ru_world r")
    (auto simp: saveCursor_def look_ctx_def record_points_def noting_def moved_def Let_def
      split: if_splits prod.splits option.splits)

text \<open>
  A flush either leaves the batch as it was, with some of its writes made, or it makes them all,
  empties the batch and saves the resume point it covers.
\<close>

definition batch_calls :: "bool \<Rightarrow> 'w run_state \<Rightarrow> event list" where
  "batch_calls m r =
     (if ru_batch r \<noteq> [] then [StoredDocs (ru_batch r)] else []) @
     (if ru_deletes r \<noteq> [] then [Removed (ru_deletes r)] else []) @
     (if ru_perms r \<noteq> fmempty \<and> m then [Permitted (ru_tenant r) (ru_perms r)] else [])"

definition emptied :: "'w run_state \<Rightarrow> 'w run_state" where
  "emptied r = r\<lparr>ru_batch := [], ru_deletes := [], ru_perms := fmempty\<rparr>"

definition points_of :: "'w run_state \<Rightarrow> event list \<Rightarrow> bool" where
  "points_of r sp \<longleftrightarrow> sp = [] \<or>
     sp = [SavedPoint (ru_tenant r) (ru_source r) (ru_pending r)] \<and> \<not> Cursor_IsZero (ru_pending r)"

lemma batch_calls_moved: "moved r r' zs \<Longrightarrow> batch_calls m r' = batch_calls m r"
  by (simp add: batch_calls_def moved_def)

lemma report_progress_moved:
  "moved r (report_progress p (r\<lparr>ru_stats := st\<rparr>)) []"
  by (simp add: report_progress_def moved_def)

definition nothing_waits :: "'w run_state \<Rightarrow> bool" where
  "nothing_waits r \<longleftrightarrow> ru_batch r = [] \<and> ru_deletes r = [] \<and> ru_perms r = fmempty"

definition no_points :: "event list \<Rightarrow> bool" where
  "no_points zs \<longleftrightarrow> (\<forall>t s c. SavedPoint t s c \<notin> set zs)"

lemma no_points_simps [simp]:
  "no_points []"
  "no_points (xs @ ys) \<longleftrightarrow> no_points xs \<and> no_points ys"
  "no_points [StoredDocs docs]" "no_points [Removed ids]" "no_points [Permitted t m]"
  by (auto simp: no_points_def)

lemma no_points_if [simp]: "no_points (if b then xs else ys) = (if b then no_points xs else no_points ys)"
  by simp

lemma points_of_moved: "moved (emptied r) r' zs \<Longrightarrow> points_of r' sp = points_of r sp"
  by (simp add: points_of_def moved_def emptied_def)

lemma flush_recorded:
  assumes "flush_run E (recorded p) r = (err, r')"
  shows "(\<exists>zs. moved r r' zs \<and> no_points zs \<and> (err = None \<longrightarrow> nothing_waits r)) \<or>
    (\<exists>sp. points_of r sp \<and> moved (emptied r) r' (batch_calls (pl_maint p \<noteq> None) r @ sp))"
proof (cases "nothing_waits r")
  case True
  then have "err = None" "r' = r" using assms by (simp_all add: flush_run_def nothing_waits_def)
  then show ?thesis using True moved_refl no_points_simps(1) by blast
next
  case False
  obtain e1 r1 where 1: "flush_puts E (recorded p) r = (e1, r1)" by fastforce
  obtain e2 r2 where 2: "flush_deletes E (recorded p) r1 = (e2, r2)" by fastforce
  obtain e3 r3 where 3: "flush_perms E (recorded p) r2 = (e3, r3)" by fastforce
  note m1 = flush_puts_recorded [OF 1] and m2 = flush_deletes_recorded [OF 2]
    and m3 = flush_perms_recorded [OF 3]
  let ?st = "(ru_stats r3)\<lparr>ig_Batches := ig_Batches (ru_stats r3) + 1\<rparr>"
  let ?r4 = "emptied (report_progress (recorded p) (r3\<lparr>ru_stats := ?st\<rparr>))"
  obtain e5 r5 where 5: "saveCursor E (recorded p) (ru_pending ?r4) ?r4 = (e5, r5)" by fastforce
  have unfold: "flush_run E (recorded p) r =
      (if e1 \<noteq> None then (e1, r1) else if e2 \<noteq> None then (e2, r2) else if e3 \<noteq> None then (e3, r3)
       else if e5 \<noteq> None then (e5, r5)
       else (None, if \<not> Cursor_IsZero (ru_pending r5)
         then r5\<lparr>ru_stats := (ru_stats r5)\<lparr>ig_Cursor := ru_pending r5\<rparr>\<rparr> else r5))"
    using False 1 2 3 5
    by (auto simp: flush_run_def nothing_waits_def emptied_def Let_def report_progress_def
        split: option.split prod.split)
  show ?thesis
  proof (cases "e1 = None \<and> e2 = None \<and> e3 = None")
    case False
    then consider "e1 \<noteq> None" | "e1 = None" "e2 \<noteq> None" | "e1 = None" "e2 = None" "e3 \<noteq> None" by auto
    then have "err \<noteq> None \<and> (\<exists>zs. moved r r' zs \<and> no_points zs)"
    proof cases
      case 1
      then have "r' = r1" "err \<noteq> None" using assms unfold by simp_all
      moreover have "moved r r1 []" using m1 1 by (cases e1) simp_all
      ultimately show ?thesis using no_points_simps(1) by blast
    next
      case 2
      then have "r' = r2" "err \<noteq> None" using assms unfold by simp_all
      moreover have "moved r1 r2 []" using m2 2 by (cases e2) simp_all
      then have "moved r r2 (if ru_batch r = [] then [] else [StoredDocs (ru_batch r)])"
        using moved_trans [OF m1] 2(1) by (cases "ru_batch r") auto
      ultimately show ?thesis by force
    next
      case 3
      then have "r' = r3" "err \<noteq> None" using assms unfold by simp_all
      moreover have "moved r2 r3 []" using m3 3 by (cases e3) simp_all
      from moved_trans [OF moved_trans [OF m1 m2] this]
      have "\<exists>zs. moved r r3 zs \<and> no_points zs" by (intro exI conjI) (assumption, simp)
      ultimately show ?thesis by simp
    qed
    then show ?thesis by blast
  next
    case True
    have m: "moved r r3 (batch_calls (pl_maint p \<noteq> None) r)"
      using moved_trans [OF moved_trans [OF m1 m2] m3] m1 m2 True
      by (simp add: batch_calls_def moved_def)
    have "moved (emptied r) ?r4 (batch_calls (pl_maint p \<noteq> None) r)"
      using m by (simp add: moved_def emptied_def report_progress_def)
    moreover note points_of_moved [OF this]
    moreover obtain sp where sp: "points_of ?r4 sp" "moved ?r4 r5 sp"
      using saveCursor_recorded [OF 5] by (auto simp: points_of_def)
    moreover have "moved ?r4 r' sp"
      using assms unfold True sp(2) by (auto simp: moved_def split: if_splits)
    ultimately show ?thesis using moved_trans [of "emptied r" ?r4 _ r' sp] by blast
  qed
qed

section \<open>A run keeps its promise\<close>

definition keeps ::
  "bool \<Rightarrow> string \<Rightarrow> string \<Rightarrow> source_change list \<Rightarrow> cursor res \<Rightarrow> nat \<Rightarrow> ('w \<times> event list) run_state \<Rightarrow> bool" where
  "keeps M t s changes ended k r \<longleftrightarrow>
     ru_tenant r = t \<and> ru_source r = s \<and> k \<le> length changes \<and>
     points_covered t s changes ended (calls r) \<and>
     ru_pending r = last_point (take k changes) \<and>
     (\<forall>ch \<in> set (take k changes). carried_out t s (calls r) ch \<or> waiting r ch) \<and>
     (M \<or> ru_perms r = fmempty)"

lemma waiting_carried:
  assumes "waiting r ch" "M \<or> ru_perms r = fmempty"
  shows "carried_out (ru_tenant r) (ru_source r) (batch_calls M r) ch"
proof -
  have drop: "doc_IndexedAt_update (\<lambda>_. at) (stamp r (cg_Document ch)) =
      (cg_Document ch)\<lparr>doc_Tenant := ru_tenant r, doc_Source := ru_source r, doc_IndexedAt := at\<rparr>" for at
    by (simp add: stamp_def)
  show ?thesis
    using assms unfolding waiting_def carried_out_def batch_calls_def Let_def drop
    by (auto split: if_splits)
qed

lemma waiting_moved: "moved r r' zs \<Longrightarrow> waiting r' ch = waiting r ch"
  by (simp add: waiting_def moved_def stamp_def Let_def)

lemma keeps_flush:
  assumes "keeps (pl_maint p \<noteq> None) t s changes ended k r" "flush_run E (recorded p) r = (err, r')"
  shows "keeps (pl_maint p \<noteq> None) t s changes ended k r' \<and> (err = None \<longrightarrow> nothing_waits r')"
proof -
  let ?M = "pl_maint p \<noteq> None"
  note k = assms(1) [unfolded keeps_def]
  from flush_recorded [OF assms(2)] show ?thesis
  proof (elim disjE exE conjE)
    fix zs
    assume zs: "moved r r' zs" "no_points zs" "err = None \<longrightarrow> nothing_waits r"
    have "points_covered t s changes ended (calls r @ zs)"
      using points_covered_other k zs(2) by (simp add: no_points_def)
    then have "keeps ?M t s changes ended k r'"
      using k zs(1) waiting_moved [OF zs(1)] carried_out_more [of t s "calls r" _ zs]
      unfolding keeps_def moved_def by auto
    then show ?thesis using zs by (simp add: nothing_waits_def moved_def)
  next
    fix sp
    assume sp: "points_of r sp" "moved (emptied r) r' (batch_calls ?M r @ sp)"
    let ?tr = "calls r @ batch_calls ?M r"
    have calls: "calls r' = ?tr @ sp" using sp(2) by (simp add: moved_def emptied_def)
    have out: "\<forall>ch \<in> set (take k changes). carried_out t s ?tr ch"
    proof
      fix ch assume "ch \<in> set (take k changes)"
      then consider "carried_out t s (calls r) ch" | "waiting r ch" using k by blast
      then show "carried_out t s ?tr ch"
      proof cases
        case 1
        then show ?thesis by (rule carried_out_more)
      next
        case 2
        then have "carried_out t s (batch_calls ?M r) ch" using waiting_carried [of r ch ?M] k by simp
        then show ?thesis by (auto simp: carried_out_def Let_def split: if_splits)
      qed
    qed
    have "points_covered t s changes ended ?tr"
      by (rule points_covered_other) (use k in \<open>auto simp: batch_calls_def\<close>)
    then have "points_covered t s changes ended (calls r')"
      using sp(1) out points_covered_point [of t s changes ended ?tr k "ru_pending r"] k
      unfolding calls by (auto simp: points_of_def)
    then have "keeps ?M t s changes ended k r'"
      using k out carried_out_more [of t s ?tr _ sp] sp(2) unfolding keeps_def calls
      by (simp add: moved_def emptied_def)
    then show ?thesis using sp(2) by (simp add: moved_def emptied_def nothing_waits_def)
  qed
qed

text \<open>A change is taken up: it waits, with everything that did, and its resume point is noted.\<close>

definition takes ::
  "bool \<Rightarrow> source_change \<Rightarrow> ('w \<times> event list) run_state \<Rightarrow> ('w \<times> event list) run_state \<Rightarrow> bool" where
  "takes M ch r r' \<longleftrightarrow>
     calls r' = calls r \<and> ru_tenant r' = ru_tenant r \<and> ru_source r' = ru_source r \<and>
     ru_pending r' = (if \<not> Cursor_IsZero (cg_Cursor ch) then cg_Cursor ch else ru_pending r) \<and>
     waiting r' ch \<and> (\<forall>c. waiting r c \<longrightarrow> waiting r' c) \<and> (M \<or> ru_perms r' = fmempty)"

lemma keeps_next:
  assumes "keeps M t s changes ended k r" "k < length changes" "takes M (changes ! k) r r'"
  shows "keeps M t s changes ended (Suc k) r'"
proof -
  have take: "take (Suc k) changes = take k changes @ [changes ! k]"
    using assms(2) by (simp add: take_Suc_conv_app_nth)
  show ?thesis
    using assms unfolding keeps_def takes_def take last_point_snoc by (auto simp del: last_point.simps)
qed

lemma keeps_maybeFlush:
  assumes "keeps (pl_maint p \<noteq> None) t s changes ended k r" "maybeFlush E (recorded p) r = (err, r')"
  shows "keeps (pl_maint p \<noteq> None) t s changes ended k r'"
  using assms keeps_flush [OF assms(1)] by (auto simp: maybeFlush_def split: if_splits)

lemma keeps_irrelevant [simp]:
  "keeps M t s chs ended k (r\<lparr>ru_stats := st\<rparr>) = keeps M t s chs ended k r"
  "keeps M t s chs ended k (r\<lparr>ru_looks := n\<rparr>) = keeps M t s chs ended k r"
  "keeps M t s chs ended k (r\<lparr>ru_reports := rep\<rparr>) = keeps M t s chs ended k r"
  by (simp_all add: keeps_def waiting_def stamp_def Let_def)

text \<open>A change the pipeline refuses: permissions alone, for a store that cannot write them.\<close>

definition refused :: "'w pipeline \<Rightarrow> source_change \<Rightarrow> bool" where
  "refused p ch \<longleftrightarrow> pl_maint p = None \<and> cg_PermissionsOnly ch \<and> \<not> cg_Deleted ch \<and> doc_ID (cg_Document ch) \<noteq> ''''"

lemma emit_takes:
  assumes "ie_ctx E (ru_looks r) = None" "\<not> refused p ch" "M = (pl_maint p \<noteq> None)" "M \<or> ru_perms r = fmempty"
  shows "\<exists>r1. emit E (recorded p) ch r = maybeFlush E (recorded p) r1 \<and> takes M ch r r1"
proof -
  let ?d = "cg_Document ch"
  let ?r = "(if \<not> Cursor_IsZero (cg_Cursor ch) then r\<lparr>ru_looks := Suc (ru_looks r), ru_pending := cg_Cursor ch\<rparr>
    else r\<lparr>ru_looks := Suc (ru_looks r)\<rparr>)"
  note [simp] = look_ctx_def look_clock_def waiting_def stamp_def
  consider "doc_ID ?d = ''''" | "doc_ID ?d \<noteq> ''''" "cg_Deleted ch"
    | "doc_ID ?d \<noteq> ''''" "\<not> cg_Deleted ch" "cg_PermissionsOnly ch" "M"
    | "doc_ID ?d \<noteq> ''''" "\<not> cg_Deleted ch" "\<not> cg_PermissionsOnly ch"
    using assms(2,3) by (auto simp: refused_def)
  then show ?thesis
  proof cases
    case 1
    then show ?thesis using assms(1,4)
      by (intro exI [of _ "?r\<lparr>ru_stats := (ru_stats r)\<lparr>ig_Skipped := ig_Skipped (ru_stats r) + 1\<rparr>\<rparr>"])
        (simp add: emit_def takes_def Let_def)
  next
    case 2
    then show ?thesis using assms(1,4)
      by (intro exI [of _ "?r\<lparr>ru_deletes := ru_deletes r @ [doc_ID ?d],
          ru_stats := (ru_stats r)\<lparr>ig_Deleted := ig_Deleted (ru_stats r) + 1\<rparr>\<rparr>"])
        (auto simp: emit_def takes_def Let_def)
  next
    case 3
    then show ?thesis using assms(1,3,4)
      by (intro exI [of _ "?r\<lparr>ru_perms := fmupd (doc_ID ?d) (doc_Permissions ?d) (ru_perms r)\<rparr>"])
        (auto simp: emit_def takes_def Let_def)
  next
    case 4
    define d where "d = (stamp r ?d)\<lparr>doc_IndexedAt := ie_clock E (Suc (ru_looks r))\<rparr>"
    define st where "st = (if Queryable d
      then (ru_stats r)\<lparr>ig_Bytes := ig_Bytes (ru_stats r) + of_nat (length (doc_Body d)), ig_Indexed := ig_Indexed (ru_stats r) + 1\<rparr>
      else (ru_stats r)\<lparr>ig_Bytes := ig_Bytes (ru_stats r) + of_nat (length (doc_Body d)), ig_Quarantined := ig_Quarantined (ru_stats r) + 1\<rparr>)"
    let ?r1 = "?r\<lparr>ru_looks := Suc (Suc (ru_looks r)), ru_batch := ru_batch r @ [d], ru_stats := st\<rparr>"
    have "emit E (recorded p) ch r = maybeFlush E (recorded p) ?r1"
      using 4 assms(1) by (simp add: emit_def d_def st_def Let_def)
    moreover have "takes M ch r ?r1"
      using 4 assms(4) by (auto simp: takes_def d_def Let_def)
    ultimately show ?thesis by blast
  qed
qed

lemma keeps_emit:
  assumes "keeps (pl_maint p \<noteq> None) t s changes ended k r" "k < length changes" "\<not> refused p (changes ! k)"
    and "emit E (recorded p) (changes ! k) r = (err, r')"
  shows "\<exists>k'. keeps (pl_maint p \<noteq> None) t s changes ended k' r' \<and> (err = None \<longrightarrow> k' = Suc k)"
proof (cases "ie_ctx E (ru_looks r)")
  case (Some e)
  then have "err \<noteq> None" "r' = r\<lparr>ru_looks := Suc (ru_looks r)\<rparr>"
    using assms(4) by (auto simp: emit_def look_ctx_def)
  moreover from this have "keeps (pl_maint p \<noteq> None) t s changes ended k r'" using assms(1) by simp
  ultimately show ?thesis by blast
next
  case None
  have "pl_maint p \<noteq> None \<or> ru_perms r = fmempty" using assms(1) by (simp add: keeps_def)
  from emit_takes [OF None assms(3) refl this] obtain r1
    where "maybeFlush E (recorded p) r1 = (err, r')" "takes (pl_maint p \<noteq> None) (changes ! k) r r1"
    using assms(4) by auto
  then show ?thesis using keeps_maybeFlush [OF keeps_next [OF assms(1,2)]] by blast
qed

lemma keeps_emit_all:
  assumes "keeps (pl_maint p \<noteq> None) t s changes ended k r" "list_all (\<lambda>ch. \<not> refused p ch) changes"
    and "emit_all E (recorded p) (drop k changes) r = (err, r')"
  shows "\<exists>k'. keeps (pl_maint p \<noteq> None) t s changes ended k' r' \<and> (err = None \<longrightarrow> k' = length changes)"
  using assms
proof (induction "length changes - k" arbitrary: k r)
  case 0
  then have "drop k changes = []" "k = length changes" by (simp_all add: keeps_def)
  then show ?case using 0(2,4) by (intro exI [of _ k]) simp
next
  case (Suc n)
  then have k: "k < length changes" by simp
  then have drop: "drop k changes = changes ! k # drop (Suc k) changes" by (simp add: Cons_nth_drop_Suc)
  obtain e r1 where emit: "emit E (recorded p) (changes ! k) r = (e, r1)" by fastforce
  have "\<not> refused p (changes ! k)" using Suc.prems(2) k by (simp add: list_all_length)
  from keeps_emit [OF Suc.prems(1) k this emit]
  obtain k' where k': "keeps (pl_maint p \<noteq> None) t s changes ended k' r1" "e = None \<longrightarrow> k' = Suc k" by blast
  show ?case
  proof (cases e)
    case None
    then have "emit_all E (recorded p) (drop (Suc k) changes) r1 = (err, r')"
      using Suc.prems(3) drop emit by simp
    then show ?thesis using Suc.hyps(1) [of "Suc k" r1] Suc.hyps(2) Suc.prems(2) k' None by auto
  next
    case (Some x)
    then show ?thesis using Suc.prems(3) drop emit k'(1) by auto
  qed
qed

lemma keeps_new:
  "keeps M t s chs ended 0 (report_progress p ((new_run t s b n (w, []))\<lparr>ru_stats := st\<rparr>))"
  by (simp add: keeps_def new_run_def report_progress_def)


end
