(* ===== verification/Ingest_Reconcile.thy ===== *)
theory Ingest_Reconcile
  imports Ingest
begin

text \<open>
  The sweep of package \<open>ingest\<close> (\<open>reconcile.go\<close>): what the source lists against what the index
  lists, the four kinds of difference, and the repair that goes through the same run as a sync.
\<close>

section \<open>The report\<close>

definition SampleSize :: nat where
  "SampleSize = 20"

record discrepancies =
  dp_Count :: int
  dp_IDs :: "string list"

definition no_discrepancies :: discrepancies where
  "no_discrepancies = \<lparr>dp_Count = 0, dp_IDs = []\<rparr>"

definition add_discrepancy :: "discrepancies \<Rightarrow> string \<Rightarrow> discrepancies" where
  "add_discrepancy d i =
     (let d = d\<lparr>dp_Count := dp_Count d + 1\<rparr>
      in if length (dp_IDs d) < SampleSize then d\<lparr>dp_IDs := dp_IDs d @ [i]\<rparr> else d)"

record reconciliation =
  rc_Tenant :: string
  rc_Source :: string
  rc_SourceItems :: int
  rc_IndexItems :: int
  rc_Missing :: discrepancies
  rc_Stale :: discrepancies
  rc_Extra :: discrepancies
  rc_Held :: discrepancies
  rc_Repaired :: int
  rc_Released :: int
  rc_Deleted :: int
  rc_Requests :: source_counters
  rc_Duration :: duration

definition zero_counters :: source_counters where
  "zero_counters = \<lparr>sc_Lists = 0, sc_Metadata = 0, sc_Fetches = 0, sc_Bytes = 0\<rparr>"

definition new_reconciliation :: "string \<Rightarrow> string \<Rightarrow> reconciliation" where
  "new_reconciliation tenant source =
     \<lparr>rc_Tenant = tenant, rc_Source = source, rc_SourceItems = 0, rc_IndexItems = 0,
      rc_Missing = no_discrepancies, rc_Stale = no_discrepancies, rc_Extra = no_discrepancies,
      rc_Held = no_discrepancies, rc_Repaired = 0, rc_Released = 0, rc_Deleted = 0,
      rc_Requests = zero_counters, rc_Duration = 0\<rparr>"

definition Drift :: "reconciliation \<Rightarrow> int" where
  "Drift r = dp_Count (rc_Missing r) + dp_Count (rc_Stale r) + dp_Count (rc_Extra r)"

definition countersOf :: "source_connector \<Rightarrow> nat \<Rightarrow> source_counters" where
  "countersOf c n = (case cn_Counters c of None \<Rightarrow> zero_counters | Some f \<Rightarrow> f n)"

section \<open>The comparison\<close>

text \<open>What the source holds: its listing as a map, items without an id left out.\<close>

definition note_item :: "(string, string) fmap \<Rightarrow> source_item \<Rightarrow> (string, string) fmap" where
  "note_item items it = (if si_ID it \<noteq> '''' then fmupd (si_ID it) (si_Version it) items else items)"

text \<open>What is left of the source's listing, and the three kinds found on the way.\<close>

record comparison =
  cm_items :: "(string, string) fmap"
  cm_seen :: int
  cm_stale :: "string list"
  cm_extra :: "string list"
  cm_quaran :: "string list"

definition compare_item :: "comparison \<Rightarrow> item \<Rightarrow> comparison" where
  "compare_item m it =
     (let m = m\<lparr>cm_seen := cm_seen m + 1\<rparr>;
          m = (case fmlookup (cm_items m) (item_ID it) of
                 None \<Rightarrow> m\<lparr>cm_extra := cm_extra m @ [item_ID it]\<rparr>
               | Some version \<Rightarrow>
                   if version \<noteq> '''' \<and> version \<noteq> item_Version it then m\<lparr>cm_stale := cm_stale m @ [item_ID it]\<rparr>
                   else if item_Held it then m\<lparr>cm_quaran := cm_quaran m @ [item_ID it]\<rparr>
                   else m)
      in m\<lparr>cm_items := fmdrop (item_ID it) (cm_items m)\<rparr>)"

section \<open>The repair\<close>

definition docWithID :: "string \<Rightarrow> document" where
  "docWithID i =
     \<lparr>doc_ID = i, doc_Tenant = '''', doc_Source = '''', doc_Kind = '''', doc_Title = '''', doc_Body = '''',
      doc_URL = '''', doc_Author = nobody, doc_Owner = nobody, doc_Container = '''', doc_CreatedAt = 0,
      doc_ModifiedAt = 0, doc_IndexedAt = 0, doc_SourceUpdate = '''', doc_Permissions = Unresolved '''' '''',
      doc_Properties = fmempty, doc_Content = None\<rparr>"

definition deletion :: "string \<Rightarrow> source_change" where
  "deletion i =
     \<lparr>cg_Document = docWithID i, cg_Deleted = True, cg_PermissionsOnly = False, cg_Cursor = zero_cursor\<rparr>"

definition arrival :: "document \<Rightarrow> source_change" where
  "arrival d =
     \<lparr>cg_Document = d, cg_Deleted = False, cg_PermissionsOnly = False, cg_Cursor = zero_cursor\<rparr>"

fun refetch ::
  "ingest_env \<Rightarrow> 'w pipeline \<Rightarrow> (string \<Rightarrow> fetched) \<Rightarrow> string list \<Rightarrow> 'w run_state \<Rightarrow>
    ingest_error option \<times> 'w run_state"
where
  "refetch E p fetch [] r = (None, r)"
| "refetch E p fetch (i # is) r =
     (case fetch i of
        Gone \<Rightarrow>
          (case emit E p (deletion i) r of (Some e, r) \<Rightarrow> (Some e, r) | (None, r) \<Rightarrow> refetch E p fetch is r)
      | FetchFailed e \<Rightarrow> (Some (FetchError i e), r)
      | Fetched d \<Rightarrow>
          (case emit E p (arrival (d\<lparr>doc_ID := i\<rparr>)) r of
             (Some e, r) \<Rightarrow> (Some e, r) | (None, r) \<Rightarrow> refetch E p fetch is r))"

definition repair ::
  "ingest_env \<Rightarrow> 'w pipeline \<Rightarrow> string \<Rightarrow> source_connector \<Rightarrow> reconciliation \<Rightarrow> string list \<Rightarrow> string list \<Rightarrow>
    string list \<Rightarrow> string list \<Rightarrow> nat \<Rightarrow> 'w \<Rightarrow> reconciliation \<times> ingest_error option \<times> 'w run_state"
where
  "repair E p tenant c rec missing stale extra held looks w =
     (case emit_all E p (map deletion extra) (new_run tenant (cn_Source c) False looks w) of
        (Some e, r) \<Rightarrow> (rec, Some e, r)
      | (None, r) \<Rightarrow>
          (case cn_Fetch c of
             None \<Rightarrow>
               (case flush_run E p r of
                  (Some e, r) \<Rightarrow> (rec, Some e, r)
                | (None, r) \<Rightarrow> (rec\<lparr>rc_Deleted := ig_Deleted (ru_stats r)\<rparr>, None, r))
           | Some fetch \<Rightarrow>
               (case refetch E p fetch (missing @ stale) r of
                  (Some e, r) \<Rightarrow> (rec, Some e, r)
                | (None, r) \<Rightarrow>
                    let indexed = ig_Indexed (ru_stats r) in
                    (case refetch E p fetch held r of
                       (Some e, r) \<Rightarrow> (rec, Some e, r)
                     | (None, r) \<Rightarrow>
                         let rec = rec\<lparr>rc_Released := ig_Indexed (ru_stats r) - indexed\<rparr> in
                         (case flush_run E p r of
                            (Some e, r) \<Rightarrow> (rec, Some e, r)
                          | (None, r) \<Rightarrow>
                              (rec\<lparr>rc_Repaired := ig_Indexed (ru_stats r) + ig_Quarantined (ru_stats r),
                                   rc_Deleted := ig_Deleted (ru_stats r)\<rparr>, None, r))))))"

text \<open>
  The sweep: the report, the error, and the world it leaves. The connector's counters are read
  once before the source is listed and once at the end.
\<close>

definition compared :: "reconciliation \<Rightarrow> comparison \<Rightarrow> reconciliation" where
  "compared rec m =
     rec\<lparr>rc_IndexItems := cm_seen m,
         rc_Missing := foldl add_discrepancy (rc_Missing rec) (sort (map_keys (cm_items m))),
         rc_Stale := foldl add_discrepancy (rc_Stale rec) (sort (cm_stale m)),
         rc_Extra := foldl add_discrepancy (rc_Extra rec) (sort (cm_extra m)),
         rc_Held := foldl add_discrepancy (rc_Held rec) (sort (cm_quaran m))\<rparr>"

definition Reconcile ::
  "ingest_env \<Rightarrow> 'w pipeline \<Rightarrow> string \<Rightarrow> source_connector option \<Rightarrow> 'w \<Rightarrow>
    reconciliation \<times> ingest_error option \<times> 'w"
where
  "Reconcile E p tenant c w =
     (case c of
        None \<Rightarrow> (new_reconciliation '''' '''', Some NilConnector, w)
      | Some c \<Rightarrow>
          if tenant = '''' then (new_reconciliation '''' '''', Some EmptyTenant, w)
          else
            let rec = new_reconciliation tenant (cn_Source c) in
            (case pl_maint p of
               None \<Rightarrow> (rec, Some NoMaintenance, w)
             | Some m \<Rightarrow>
                 (case cn_Enumerate c of
                    None \<Rightarrow> (rec, Some NoEnumerator, w)
                  | Some (Pair listed (Some e)) \<Rightarrow> (rec, Some (EnumerateFailed e), w)
                  | Some (Pair listed None) \<Rightarrow>
                      let start = ie_clock E 0;
                          items = foldl note_item fmempty listed;
                          rec = rec\<lparr>rc_SourceItems := int (fcard (fmdom items))\<rparr>;
                          (held_items, err) = mt_Inventory m (ie_ctx E 1) tenant (cn_Source c) w;
                          cmp = foldl compare_item
                            \<lparr>cm_items = items, cm_seen = 0, cm_stale = [], cm_extra = [], cm_quaran = []\<rparr> held_items
                      in (case err of
                            Some e \<Rightarrow> (rec\<lparr>rc_IndexItems := cm_seen cmp\<rparr>, Some (InventoryFailed e), w)
                          | None \<Rightarrow>
                              let rec = compared rec cmp;
                                  (rec, err, r) = repair E p tenant c rec (sort (map_keys (cm_items cmp)))
                                    (sort (cm_stale cmp)) (sort (cm_extra cmp)) (sort (cm_quaran cmp)) 2 w;
                                  (stop, r) = look_clock E r
                              in (rec\<lparr>rc_Duration := stop - start,
                                      rc_Requests := Since (countersOf c 1) (countersOf c 0)\<rparr>,
                                  err, ru_world r)))))"

end
