(* ===== verification/Ingest_Memstore.thy ===== *)
theory Ingest_Memstore
  imports Ingest_Safety Ingest_Reconcile Memstore_Behaviour
begin

text \<open>
  The pipeline over the memory driver and the resume points kept in memory. A batch is written
  as its documents, then its deletions, then its permission changes, whatever order they came
  in; the lemmas say when that is the order of the source, and a run then leaves the store as if
  every change had been applied the moment it arrived. Where it is not, the theorems at the end
  show what the store ends up saying.
\<close>

section \<open>The memory driver as the pipeline sees it\<close>

type_synonym mem_world = "memstore \<times> memory_points"

text \<open>\<open>ord\<close> is the order in which Go happens to walk a map.\<close>

definition mem_maintenance :: "(string list \<Rightarrow> string list) \<Rightarrow> mem_world maintenance" where
  "mem_maintenance ord =
     \<lparr>mt_SetPermissions = (\<lambda>ctx t perms (s, m).
        (case SetPermissions ctx t perms (ord (map_keys perms)) s of (r, _, s) \<Rightarrow> (r, (s, m)))),
      mt_Inventory = (\<lambda>ctx t src (s, m).
        (case Inventory ctx t src (\<lambda>it acc. (True, acc @ [it])) (ord (map_keys (st_docs s))) [] s of
           (err, items) \<Rightarrow> (items, err)))\<rparr>"

definition mem_store :: "(string list \<Rightarrow> string list) \<Rightarrow> mem_world ingest_store" where
  "mem_store ord =
     \<lparr>is_Put = (\<lambda>ctx docs (s, m). (case Put ctx docs s of (err, _, s) \<Rightarrow> (err, (s, m)))),
      is_Delete = (\<lambda>ctx ids (s, m). (case Delete ctx ids s of (err, _, s) \<Rightarrow> (err, (s, m)))),
      is_Maintenance = Some (mem_maintenance ord)\<rparr>"

definition mem_points :: "mem_world checkpoints" where
  "mem_points =
     \<lparr>cp_Load = (\<lambda>ctx t src (s, m). Memory_Load ctx t src m),
      cp_Save = (\<lambda>ctx t src c (s, m). (case Memory_Save ctx t src c m of (err, m) \<Rightarrow> (err, (s, m))))\<rparr>"

definition mem_pipeline :: "(string list \<Rightarrow> string list) \<Rightarrow> int \<Rightarrow> mem_world pipeline" where
  "mem_pipeline ord n =
     \<lparr>pl_store = mem_store ord, pl_checkpoints = Some mem_points, pl_batchSize = n,
      pl_progress = False, pl_maint = Some (mem_maintenance ord)\<rparr>"

lemma mem_pipeline_New:
  "0 < n \<Longrightarrow> NewPipeline (Some (mem_store ord)) (Some mem_points) [WithBatchSize n] = Inr (mem_pipeline ord n)"
  by (simp add: NewPipeline_def WithBatchSize_def mem_pipeline_def mem_store_def Let_def)

definition walks :: "(string list \<Rightarrow> string list) \<Rightarrow> bool" where
  "walks ord \<longleftrightarrow> (\<forall>xs. mset (ord xs) = mset xs)"

lemma walks_simps [simp]:
  assumes "walks ord" shows "set (ord xs) = set xs" "distinct (ord xs) = distinct xs"
proof -
  have "mset (ord xs) = mset xs" using assms by (simp add: walks_def)
  then show "set (ord xs) = set xs" "distinct (ord xs) = distinct xs"
    by (metis set_mset_mset, metis mset_eq_imp_distinct_iff)
qed

section \<open>Writes to different documents commute\<close>

lemma memstore_eqI:
  fixes s s' :: memstore
  assumes "\<And>i. fmlookup (st_docs s) i = fmlookup (st_docs s') i"
    "\<And>i. fmlookup (st_content s) i = fmlookup (st_content s') i"
    "\<And>i. fmlookup (st_verified s) i = fmlookup (st_verified s') i"
    "\<And>i. fmlookup (st_owners s) i = fmlookup (st_owners s') i"
    "\<And>i. fmlookup (st_reports s) i = fmlookup (st_reports s') i"
    and "st_opens s = st_opens s'" "st_answers s = st_answers s'" "st_phrasings s = st_phrasings s'"
    "st_feeds s = st_feeds s'" "st_closed s = st_closed s'"
  shows "s = s'"
  using assms by (intro memstore.equality) (auto intro: fmap_ext)

lemma permit_one_fields:
  "fmlookup (st_docs (permit_one t m s j)) i =
     (if i = j \<and> of_tenant s t i then map_option (\<lambda>d. d\<lparr>doc_Permissions := the (fmlookup m j)\<rparr>) (fmlookup (st_docs s) i)
      else fmlookup (st_docs s) i)"
  "st_content (permit_one t m s j) = st_content s" "st_verified (permit_one t m s j) = st_verified s"
  "st_owners (permit_one t m s j) = st_owners s" "st_reports (permit_one t m s j) = st_reports s"
  "st_opens (permit_one t m s j) = st_opens s" "st_answers (permit_one t m s j) = st_answers s"
  "st_phrasings (permit_one t m s j) = st_phrasings s" "st_feeds (permit_one t m s j) = st_feeds s"
  "st_closed (permit_one t m s j) = st_closed s"
  by (auto simp: permit_one_def of_tenant_def split: option.split)

lemma corrected_permit_one [simp]: "corrected (permit_one t m s j) d = corrected s d"
  by (simp add: corrected_def permit_one_fields)

lemma put_permit:
  assumes "i \<noteq> doc_ID d"
  shows "put_one (permit_one t m s i) d = permit_one t m (put_one s d) i"
proof -
  have "of_tenant (put_one s d) t i = of_tenant s t i" using assms by (simp add: of_tenant_def put_one_fields)
  then show ?thesis using assms
    by (intro memstore_eqI) (auto simp: put_one_fields permit_one_fields)
qed

lemma put_remove:
  assumes "i \<noteq> doc_ID d"
  shows "put_one (remove_one s i) d = remove_one (put_one s d) i"
proof -
  have "corrected (remove_one s i) d = corrected s d" using assms by (simp add: corrected_def remove_one_fields)
  then show ?thesis using assms
    by (intro memstore_eqI) (auto simp: put_one_fields remove_one_fields)
qed

lemma remove_permit: "remove_one (permit_one t m s j) i = permit_one t m (remove_one s i) j"
  by (rule memstore_eqI) (auto simp: remove_one_fields permit_one_fields of_tenant_remove_one)

section \<open>A batch against the changes it holds\<close>

definition batch_apply ::
  "(string list \<Rightarrow> string list) \<Rightarrow> string \<Rightarrow> document list \<Rightarrow> string list \<Rightarrow>
    (string, permissions) fmap \<Rightarrow> memstore \<Rightarrow> memstore"
where
  "batch_apply ord t docs dels m s =
     foldl (permit_one t m) (foldl remove_one (foldl put_one s docs) dels) (ord (map_keys m))"

text \<open>One change, applied the moment it arrives; \<open>at\<close> is what the clock said then.\<close>

definition apply_change :: "string \<Rightarrow> string \<Rightarrow> memstore \<Rightarrow> source_change \<times> gtime \<Rightarrow> memstore" where
  "apply_change t src s = (\<lambda>(ch, at).
     (let d = (cg_Document ch)\<lparr>doc_Tenant := t, doc_Source := src\<rparr>; i = doc_ID d in
      if i = '''' then s
      else if cg_Deleted ch then remove_one s i
      else if cg_PermissionsOnly ch then permit_one t (fmupd i (doc_Permissions d) fmempty) s i
      else put_one s (d\<lparr>doc_IndexedAt := at\<rparr>)))"

lemma permits_fields:
  "st_content (foldl (permit_one t m) s ks) = st_content s"
  "st_verified (foldl (permit_one t m) s ks) = st_verified s"
  "st_owners (foldl (permit_one t m) s ks) = st_owners s"
  "st_reports (foldl (permit_one t m) s ks) = st_reports s"
  "st_opens (foldl (permit_one t m) s ks) = st_opens s"
  "st_answers (foldl (permit_one t m) s ks) = st_answers s"
  "st_phrasings (foldl (permit_one t m) s ks) = st_phrasings s"
  "st_feeds (foldl (permit_one t m) s ks) = st_feeds s"
  "st_closed (foldl (permit_one t m) s ks) = st_closed s"
  by (induction ks arbitrary: s) (simp_all add: permit_one_fields)

lemma put_permits: "doc_ID d \<notin> set ks \<Longrightarrow> put_one (foldl (permit_one t m) s ks) d = foldl (permit_one t m) (put_one s d) ks"
  by (induction ks arbitrary: s) (auto simp: put_permit)

lemma put_removes: "doc_ID d \<notin> set ks \<Longrightarrow> put_one (foldl remove_one s ks) d = foldl remove_one (put_one s d) ks"
  by (induction ks arbitrary: s) (auto simp: put_remove)

lemma remove_permits: "remove_one (foldl (permit_one t m) s ks) i = foldl (permit_one t m) (remove_one s i) ks"
  by (induction ks arbitrary: s) (auto simp: remove_permit)

lemma batch_put:
  assumes "walks ord" "doc_ID d \<notin> set dels" "fmlookup m (doc_ID d) = None"
  shows "batch_apply ord t (docs @ [d]) dels m s = put_one (batch_apply ord t docs dels m s) d"
proof -
  have "doc_ID d \<notin> set (ord (map_keys m))" using assms(1,3) by (simp add: fmdom_notI)
  then show ?thesis using assms(2) by (simp add: batch_apply_def put_permits put_removes)
qed

lemma batch_delete: "batch_apply ord t docs (dels @ [i]) m s = remove_one (batch_apply ord t docs dels m s) i"
  by (simp add: batch_apply_def remove_permits)

lemma permits_docs:
  assumes "walks ord"
  shows "fmlookup (st_docs (foldl (permit_one t m) s (ord (map_keys m)))) i =
    (case fmlookup m i of
       None \<Rightarrow> fmlookup (st_docs s) i
     | Some p \<Rightarrow> if of_tenant s t i then map_option (\<lambda>d. d\<lparr>doc_Permissions := p\<rparr>) (fmlookup (st_docs s) i)
         else fmlookup (st_docs s) i)"
proof -
  have "distinct (ord (map_keys m))" using assms by simp
  moreover have "i \<in> set (ord (map_keys m)) \<longleftrightarrow> fmlookup m i \<noteq> None" using assms by (auto simp: fmdom_notI fmlookup_dom_iff)
  ultimately show ?thesis
    by (auto simp: permit_fold_docs split: option.split)
qed

lemma of_tenant_permits [simp]: "of_tenant (foldl (permit_one t m) s ks) u i = of_tenant s u i"
  by (induction ks arbitrary: s) (auto simp: of_tenant_def permit_one_def split: option.split)

lemma batch_permit:
  assumes "walks ord"
  shows "batch_apply ord t docs dels (fmupd i p m) s = permit_one t (fmupd i p fmempty) (batch_apply ord t docs dels m s) i"
proof -
  let ?s = "foldl remove_one (foldl put_one s docs) dels"
  show ?thesis
    unfolding batch_apply_def
  proof (rule memstore_eqI)
    fix j
    show "fmlookup (st_docs (foldl (permit_one t (fmupd i p m)) ?s (ord (map_keys (fmupd i p m))))) j =
      fmlookup (st_docs (permit_one t (fmupd i p fmempty) (foldl (permit_one t m) ?s (ord (map_keys m))) i)) j"
      by (auto simp: permits_docs [OF assms] permit_one_fields option.map_comp comp_def split: option.split)
  qed (simp_all add: permits_fields permit_one_fields)
qed

text \<open>Changes in the order a batch keeps: a document is never put after one of its others.\<close>

definition in_order :: "source_change list \<Rightarrow> bool" where
  "in_order chs \<longleftrightarrow>
     sorted_wrt (\<lambda>a b. (cg_Deleted a \<or> cg_PermissionsOnly a) \<and> \<not> cg_Deleted b \<and> \<not> cg_PermissionsOnly b \<longrightarrow>
       doc_ID (cg_Document a) \<noteq> doc_ID (cg_Document b)) chs"

section \<open>A run over the memory driver\<close>

lemma Delete_open:
  "\<not> st_closed s \<Longrightarrow> \<exists>chs. Delete None ids s = (None, chs, foldl remove_one s ids)"
  using snd_remove_loop [of s fmempty ids] by (cases "remove_loop s fmempty ids") (simp add: Delete_def remove_def)

lemma closed_foldl [simp]:
  "st_closed (foldl remove_one s ids) = st_closed s"
  by (induction ids arbitrary: s) (simp_all add: remove_one_fields)

definition calm :: "ingest_env \<Rightarrow> bool" where
  "calm E \<longleftrightarrow> (\<forall>n. ie_ctx E n = None)"

text \<open>What the run owes the store: its state once the batch is written.\<close>

definition owed :: "(string list \<Rightarrow> string list) \<Rightarrow> mem_world run_state \<Rightarrow> memstore" where
  "owed ord r = batch_apply ord (ru_tenant r) (ru_batch r) (ru_deletes r) (ru_perms r) (fst (ru_world r))"

definition writable :: "mem_world run_state \<Rightarrow> bool" where
  "writable r \<longleftrightarrow> \<not> st_closed (fst (ru_world r)) \<and> (\<forall>d \<in> set (ru_batch r). doc_ID d \<noteq> '''')"

lemma mem_puts:
  assumes "calm E" "writable r"
  shows "\<exists>n. flush_puts E (mem_pipeline ord bs) r =
    (None, r\<lparr>ru_world := (foldl put_one (fst (ru_world r)) (ru_batch r), snd (ru_world r)), ru_looks := n\<rparr>)"
proof (cases "ru_batch r = []")
  case True
  then show ?thesis by (intro exI [of _ "ru_looks r"]) (simp add: flush_puts_def)
next
  case False
  then show ?thesis
    using assms
    by (intro exI [of _ "Suc (ru_looks r)"]) (cases "ru_world r",
      simp add: flush_puts_def look_ctx_def mem_pipeline_def mem_store_def calm_def writable_def Put_ok Let_def)
qed

lemma mem_deletes:
  assumes "calm E" "\<not> st_closed (fst (ru_world r))"
  shows "\<exists>n. flush_deletes E (mem_pipeline ord bs) r =
    (None, r\<lparr>ru_world := (foldl remove_one (fst (ru_world r)) (ru_deletes r), snd (ru_world r)), ru_looks := n\<rparr>)"
proof (cases "ru_deletes r = []")
  case True
  then show ?thesis by (intro exI [of _ "ru_looks r"]) (simp add: flush_deletes_def)
next
  case False
  obtain s m where w: "ru_world r = (s, m)" by fastforce
  then obtain chs where "Delete None (ru_deletes r) s = (None, chs, foldl remove_one s (ru_deletes r))"
    using Delete_open assms(2) by fastforce
  then show ?thesis
    using False assms(1) w
    by (intro exI [of _ "Suc (ru_looks r)"])
      (simp add: flush_deletes_def look_ctx_def mem_pipeline_def mem_store_def calm_def Let_def)
qed

lemma mem_perms:
  assumes "calm E" "\<not> st_closed (fst (ru_world r))" "walks ord"
  shows "\<exists>n st. flush_perms E (mem_pipeline ord bs) r =
    (None, r\<lparr>ru_world := (foldl (permit_one (ru_tenant r) (ru_perms r)) (fst (ru_world r)) (ord (map_keys (ru_perms r))),
        snd (ru_world r)), ru_looks := n, ru_stats := st\<rparr>)"
proof (cases "ru_perms r = fmempty")
  case True
  have "ord (map_keys (fmempty :: (string, permissions) fmap)) = []"
    using walks_simps(1) [OF assms(3), of "map_keys (fmempty :: (string, permissions) fmap)"] by simp
  then show ?thesis using True
    by (intro exI [of _ "ru_looks r"] exI [of _ "ru_stats r"]) (simp add: flush_perms_def)
next
  case False
  obtain s m where w: "ru_world r = (s, m)" by fastforce
  show ?thesis
    using False assms(1,2) w
    by (intro exI [of _ "Suc (ru_looks r)"] exI [of _ "(ru_stats r)\<lparr>ig_Repermissioned := ig_Repermissioned (ru_stats r) +
          int (length (filter (of_tenant s (ru_tenant r)) (ord (map_keys (ru_perms r)))))\<rparr>"])
      (simp add: flush_perms_def look_ctx_def mem_pipeline_def mem_maintenance_def calm_def SetPermissions_open Let_def)
qed

lemma mem_save:
  assumes "calm E"
  shows "\<exists>n. saveCursor E (mem_pipeline ord bs) c r =
    (None, r\<lparr>ru_world := (fst (ru_world r),
        if Cursor_IsZero c then snd (ru_world r) else fmupd (point_key (ru_tenant r) (ru_source r)) c (snd (ru_world r))),
      ru_looks := n\<rparr>)"
proof (cases "Cursor_IsZero c")
  case True
  then show ?thesis by (intro exI [of _ "ru_looks r"]) (simp add: saveCursor_def mem_pipeline_def)
next
  case False
  obtain s m where "ru_world r = (s, m)" by fastforce
  then show ?thesis
    using False assms by (intro exI [of _ "Suc (ru_looks r)"])
      (simp add: saveCursor_def mem_pipeline_def mem_points_def look_ctx_def Memory_Save_def calm_def Let_def)
qed

lemma report_progress_mem [simp]: "report_progress (mem_pipeline ord bs) r = r"
  by (simp add: report_progress_def mem_pipeline_def)

lemma mem_flush:
  assumes "calm E" "writable r" "walks ord"
  shows "\<exists>r'. flush_run E (mem_pipeline ord bs) r = (None, r') \<and>
    fst (ru_world r') = owed ord r \<and> nothing_waits r' \<and> ru_tenant r' = ru_tenant r \<and> ru_source r' = ru_source r"
proof (cases "nothing_waits r")
  case True
  have "ord (map_keys (fmempty :: (string, permissions) fmap)) = []"
    using walks_simps(1) [OF assms(3), of "map_keys (fmempty :: (string, permissions) fmap)"] by simp
  then have "owed ord r = fst (ru_world r)" using True by (simp add: owed_def batch_apply_def nothing_waits_def)
  then show ?thesis using True by (simp add: flush_run_def nothing_waits_def)
next
  case False
  let ?P = "mem_pipeline ord bs"
  obtain r1 where 1: "flush_puts E ?P r = (None, r1)"
    and r1: "\<exists>n. r1 = r\<lparr>ru_world := (foldl put_one (fst (ru_world r)) (ru_batch r), snd (ru_world r)), ru_looks := n\<rparr>"
    using mem_puts [OF assms(1,2)] by blast
  have o1: "\<not> st_closed (fst (ru_world r1))" using assms(2) r1 by (auto simp: writable_def)
  obtain r2 where 2: "flush_deletes E ?P r1 = (None, r2)"
    and r2: "\<exists>n. r2 = r1\<lparr>ru_world := (foldl remove_one (fst (ru_world r1)) (ru_deletes r1), snd (ru_world r1)), ru_looks := n\<rparr>"
    using mem_deletes [OF assms(1) o1] by blast
  have o2: "\<not> st_closed (fst (ru_world r2))" using o1 r2 by auto
  obtain r3 where 3: "flush_perms E ?P r2 = (None, r3)"
    and r3: "\<exists>n st. r3 = r2\<lparr>ru_world := (foldl (permit_one (ru_tenant r2) (ru_perms r2)) (fst (ru_world r2)) (ord (map_keys (ru_perms r2))),
        snd (ru_world r2)), ru_looks := n, ru_stats := st\<rparr>"
    using mem_perms [OF assms(1) o2 assms(3)] by blast
  have w3: "fst (ru_world r3) = owed ord r" "ru_tenant r3 = ru_tenant r" "ru_source r3 = ru_source r"
    using r1 r2 r3 by (auto simp: owed_def batch_apply_def)
  let ?r4 = "r3\<lparr>ru_stats := (ru_stats r3)\<lparr>ig_Batches := ig_Batches (ru_stats r3) + 1\<rparr>,
    ru_batch := [], ru_deletes := [], ru_perms := fmempty\<rparr>"
  obtain r5 where 5: "saveCursor E ?P (ru_pending r3) ?r4 = (None, r5)" and r5: "\<exists>m n. r5 = ?r4\<lparr>ru_world := (fst (ru_world ?r4), m), ru_looks := n\<rparr>"
    using mem_save [OF assms(1), of ord bs "ru_pending r3" ?r4] by blast
  have w5: "fst (ru_world r5) = owed ord r" "nothing_waits r5" "ru_tenant r5 = ru_tenant r" "ru_source r5 = ru_source r"
    using r5 w3 by (auto simp: nothing_waits_def)
  have "flush_run E ?P r =
      (None, if \<not> Cursor_IsZero (ru_pending r5) then r5\<lparr>ru_stats := (ru_stats r5)\<lparr>ig_Cursor := ru_pending r5\<rparr>\<rparr> else r5)"
    using False by (auto simp: flush_run_def nothing_waits_def Let_def 1 2 3 5)
  then show ?thesis using w5 by (simp add: nothing_waits_def)
qed

definition matches_changes ::
  "(string list \<Rightarrow> string list) \<Rightarrow> string \<Rightarrow> string \<Rightarrow> memstore \<Rightarrow> source_change list \<Rightarrow> mem_world run_state \<Rightarrow> bool" where
  "matches_changes ord t src s chs r \<longleftrightarrow>
     ru_tenant r = t \<and> ru_source r = src \<and> writable r \<and>
     (\<exists>ats. length ats = length chs \<and> owed ord r = foldl (apply_change t src) s (zip chs ats)) \<and>
     (\<forall>i. i \<in> set (ru_deletes r) \<or> fmlookup (ru_perms r) i \<noteq> None \<longrightarrow>
       (\<exists>ch \<in> set chs. (cg_Deleted ch \<or> cg_PermissionsOnly ch) \<and> doc_ID (cg_Document ch) = i))"

lemma closed_owed [simp]: "st_closed (owed ord r) = st_closed (fst (ru_world r))"
  by (simp add: owed_def batch_apply_def permits_fields)

lemma owed_nothing:
  assumes "walks ord" "nothing_waits r"
  shows "owed ord r = fst (ru_world r)"
proof -
  have "ord (map_keys (fmempty :: (string, permissions) fmap)) = []"
    using walks_simps(1) [OF assms(1), of "map_keys (fmempty :: (string, permissions) fmap)"] by simp
  then show ?thesis using assms(2) by (simp add: owed_def batch_apply_def nothing_waits_def)
qed

lemma matches_flush:
  assumes "calm E" "walks ord" "matches_changes ord t src s chs r"
  shows "\<exists>r'. flush_run E (mem_pipeline ord bs) r = (None, r') \<and> matches_changes ord t src s chs r' \<and> nothing_waits r'"
proof -
  have "writable r" using assms(3) by (simp add: matches_changes_def)
  from mem_flush [OF assms(1) this assms(2)] obtain r' where r': "flush_run E (mem_pipeline ord bs) r = (None, r')"
    "fst (ru_world r') = owed ord r" "nothing_waits r'" "ru_tenant r' = ru_tenant r" "ru_source r' = ru_source r"
    by blast
  moreover have "owed ord r' = owed ord r" using owed_nothing [OF assms(2) r'(3)] r'(2) by simp
  ultimately have "matches_changes ord t src s chs r'"
    using assms(3) by (auto simp: matches_changes_def writable_def nothing_waits_def)
  then show ?thesis using r' by blast
qed

lemma matches_maybeFlush:
  assumes "calm E" "walks ord" "matches_changes ord t src s chs r"
  shows "\<exists>r'. maybeFlush E (mem_pipeline ord bs) r = (None, r') \<and> matches_changes ord t src s chs r'"
  using matches_flush [OF assms] assms(3) by (auto simp: maybeFlush_def)

lemma matches_next:
  assumes "matches_changes ord t src s chs r"
    and "ru_tenant r' = t" "ru_source r' = src" "writable r'"
    and "owed ord r' = apply_change t src (owed ord r) (ch, at)"
    and "\<forall>i. i \<in> set (ru_deletes r') \<or> fmlookup (ru_perms r') i \<noteq> None \<longrightarrow>
      i \<in> set (ru_deletes r) \<or> fmlookup (ru_perms r) i \<noteq> None \<or>
      (cg_Deleted ch \<or> cg_PermissionsOnly ch) \<and> doc_ID (cg_Document ch) = i"
  shows "matches_changes ord t src s (chs @ [ch]) r'"
proof -
  obtain ats where ats: "length ats = length chs" "owed ord r = foldl (apply_change t src) s (zip chs ats)"
    using assms(1) by (auto simp: matches_changes_def)
  have "length (ats @ [at]) = length (chs @ [ch]) \<and>
      owed ord r' = foldl (apply_change t src) s (zip (chs @ [ch]) (ats @ [at]))"
    using ats assms(5) by simp
  moreover have "\<exists>c \<in> set (chs @ [ch]). (cg_Deleted c \<or> cg_PermissionsOnly c) \<and> doc_ID (cg_Document c) = i"
    if "i \<in> set (ru_deletes r') \<or> fmlookup (ru_perms r') i \<noteq> None" for i
  proof (cases "i \<in> set (ru_deletes r) \<or> fmlookup (ru_perms r) i \<noteq> None")
    case True
    then show ?thesis using assms(1) unfolding matches_changes_def by fastforce
  next
    case False
    then have "(cg_Deleted ch \<or> cg_PermissionsOnly ch) \<and> doc_ID (cg_Document ch) = i" using assms(6) that by blast
    then show ?thesis by simp
  qed
  ultimately show ?thesis
    unfolding matches_changes_def using assms(2-4) by blast
qed

lemma matches_emit:
  assumes "calm E" "walks ord" "matches_changes ord t src s chs r" "in_order (chs @ [ch])"
  shows "\<exists>r'. emit E (mem_pipeline ord bs) ch r = (None, r') \<and> matches_changes ord t src s (chs @ [ch]) r'"
proof -
  let ?d = "cg_Document ch" and ?i = "doc_ID (cg_Document ch)" and ?P = "mem_pipeline ord bs"
  define r0 where "r0 = (if \<not> Cursor_IsZero (cg_Cursor ch) then r\<lparr>ru_looks := Suc (ru_looks r), ru_pending := cg_Cursor ch\<rparr>
    else r\<lparr>ru_looks := Suc (ru_looks r)\<rparr>)"
  have r0 [simp]: "ru_tenant r0 = t" "ru_source r0 = src" "ru_batch r0 = ru_batch r" "ru_deletes r0 = ru_deletes r"
    "ru_perms r0 = ru_perms r" "ru_world r0 = ru_world r" "ru_stats r0 = ru_stats r" "ru_looks r0 = Suc (ru_looks r)"
    using assms(3) by (simp_all add: r0_def matches_changes_def)
  have t: "ru_tenant r = t" "ru_source r = src" "writable r" using assms(3) by (simp_all add: matches_changes_def)
  have ctx: "ie_ctx E n = None" for n using assms(1) by (simp add: calm_def)
  have taken: "\<exists>r'. emit E ?P ch r = (None, r') \<and> matches_changes ord t src s (chs @ [ch]) r'"
    if "emit E ?P ch r = maybeFlush E ?P r1" "matches_changes ord t src s (chs @ [ch]) r1" for r1
    using matches_maybeFlush [OF assms(1,2) that(2)] that(1) by simp
  consider "?i = ''''" | "?i \<noteq> ''''" "cg_Deleted ch" | "?i \<noteq> ''''" "\<not> cg_Deleted ch" "cg_PermissionsOnly ch"
    | "?i \<noteq> ''''" "\<not> cg_Deleted ch" "\<not> cg_PermissionsOnly ch"
    by blast
  then show ?thesis
  proof cases
    case 1
    let ?r1 = "r0\<lparr>ru_stats := (ru_stats r)\<lparr>ig_Skipped := ig_Skipped (ru_stats r) + 1\<rparr>\<rparr>"
    have "emit E ?P ch r = maybeFlush E ?P ?r1"
      using 1 ctx by (simp add: emit_def look_ctx_def stamp_def Let_def r0_def)
    moreover have "matches_changes ord t src s (chs @ [ch]) ?r1"
      by (rule matches_next [OF assms(3), where at = 0])
        (use 1 t in \<open>simp_all add: writable_def owed_def apply_change_def Let_def\<close>)
    ultimately show ?thesis by (rule taken)
  next
    case 2
    let ?r1 = "r0\<lparr>ru_deletes := ru_deletes r @ [?i], ru_stats := (ru_stats r)\<lparr>ig_Deleted := ig_Deleted (ru_stats r) + 1\<rparr>\<rparr>"
    have "emit E ?P ch r = maybeFlush E ?P ?r1"
      using 2 ctx by (simp add: emit_def look_ctx_def stamp_def Let_def r0_def)
    moreover have "matches_changes ord t src s (chs @ [ch]) ?r1"
      by (rule matches_next [OF assms(3), where at = 0])
        (use 2 t in \<open>auto simp: writable_def owed_def apply_change_def Let_def batch_delete\<close>)
    ultimately show ?thesis by (rule taken)
  next
    case 3
    let ?r1 = "r0\<lparr>ru_perms := fmupd ?i (doc_Permissions ?d) (ru_perms r)\<rparr>"
    have "emit E ?P ch r = maybeFlush E ?P ?r1"
      using 3 ctx by (simp add: emit_def look_ctx_def stamp_def Let_def r0_def mem_pipeline_def)
    moreover have "matches_changes ord t src s (chs @ [ch]) ?r1"
      by (rule matches_next [OF assms(3), where at = 0])
        (use 3 t in \<open>auto simp: writable_def owed_def apply_change_def Let_def batch_permit [OF assms(2)]\<close>)
    ultimately show ?thesis by (rule taken)
  next
    case 4
    let ?at = "ie_clock E (Suc (ru_looks r))"
    define d where "d = (stamp r ?d)\<lparr>doc_IndexedAt := ?at\<rparr>"
    define st where "st = (if Queryable d
      then (ru_stats r)\<lparr>ig_Bytes := ig_Bytes (ru_stats r) + of_nat (length (doc_Body d)), ig_Indexed := ig_Indexed (ru_stats r) + 1\<rparr>
      else (ru_stats r)\<lparr>ig_Bytes := ig_Bytes (ru_stats r) + of_nat (length (doc_Body d)), ig_Quarantined := ig_Quarantined (ru_stats r) + 1\<rparr>)"
    let ?r1 = "r0\<lparr>ru_looks := Suc (Suc (ru_looks r)), ru_batch := ru_batch r @ [d], ru_stats := st\<rparr>"
    have id: "doc_ID d = ?i" by (simp add: d_def stamp_def)
    have free: "?i \<notin> set (ru_deletes r) \<and> fmlookup (ru_perms r) ?i = None"
    proof (rule ccontr)
      assume "\<not> ?thesis"
      then obtain c where "c \<in> set chs" "cg_Deleted c \<or> cg_PermissionsOnly c" "doc_ID (cg_Document c) = ?i"
        using assms(3) unfolding matches_changes_def by blast
      then show False using assms(4) 4 by (auto simp: in_order_def sorted_wrt_append)
    qed
    have "emit E ?P ch r = maybeFlush E ?P ?r1"
      using 4 ctx by (simp add: emit_def look_ctx_def look_clock_def stamp_def d_def st_def Let_def r0_def)
    moreover have "matches_changes ord t src s (chs @ [ch]) ?r1"
      by (rule matches_next [OF assms(3), where at = ?at])
        (use 4 t free id in \<open>auto simp: writable_def owed_def apply_change_def Let_def batch_put [OF assms(2)] d_def stamp_def\<close>)
    ultimately show ?thesis by (rule taken)
  qed
qed

lemma matches_emit_all:
  assumes "calm E" "walks ord" "matches_changes ord t src s prior r" "in_order (prior @ chs)"
  shows "\<exists>r'. emit_all E (mem_pipeline ord bs) chs r = (None, r') \<and> matches_changes ord t src s (prior @ chs) r'"
  using assms(3,4)
proof (induction chs arbitrary: prior r)
  case (Cons ch chs)
  have "in_order (prior @ [ch])" using Cons.prems(2) by (auto simp: in_order_def sorted_wrt_append)
  from matches_emit [OF assms(1,2) Cons.prems(1) this]
  obtain r1 where "emit E (mem_pipeline ord bs) ch r = (None, r1)" "matches_changes ord t src s (prior @ [ch]) r1" by blast
  then show ?case using Cons.IH [of "prior @ [ch]" r1] Cons.prems(2) by simp
qed simp

text \<open>
  C29: over an open memory store, and a context nobody cancels, a run succeeds exactly when the
  source ends its walk without an error, and leaves the store in every case as if each change had
  been applied the moment it was handed over, however the run cut them into batches, provided no
  document is stored again after its own deletion or permission change in the same walk.
\<close>

theorem Run_applies_in_order:
  assumes "calm E" "walks ord" "\<not> st_closed s" "tenant \<noteq> ''''"
    and "Memory_Load None tenant (cn_Source c) m = Inr start" "cn_Sync c start = (changes, ended)"
    and "in_order changes"
    and "Run E (mem_pipeline ord bs) tenant (Some c) (s, m) = (st, err, r, (s', m'))"
  shows "(\<exists>ats. length ats = length changes \<and>
      s' = foldl (apply_change tenant (cn_Source c)) s (zip changes ats)) \<and>
    (err = None \<longleftrightarrow> (\<exists>final. ended = Inr final))"
proof -
  let ?P = "mem_pipeline ord bs" and ?src = "cn_Source c"
  let ?matches = "matches_changes ord tenant ?src s"
  define r0 where "r0 = (new_run tenant ?src (\<not> Cursor_IsZero start) 2 (s, m))\<lparr>ru_stats := zero_stats\<lparr>ig_Cursor := start\<rparr>\<rparr>"
  have load: "loadCursor (ie_ctx E 1) ?P tenant ?src (s, m) = Inr start"
    using assms(1,5) by (simp add: loadCursor_def mem_pipeline_def mem_points_def calm_def)
  have empty: "nothing_waits r0" by (simp add: r0_def new_run_def nothing_waits_def)
  have "owed ord r0 = s" using owed_nothing [OF assms(2) empty] by (simp add: r0_def new_run_def)
  then have "?matches [] r0"
    using assms(3) by (simp add: matches_changes_def r0_def new_run_def writable_def)
  from matches_emit_all [OF assms(1,2) this] assms(7)
  obtain r1 where r1: "emit_all E ?P changes r0 = (None, r1)" "?matches changes r1" by auto
  from matches_flush [OF assms(1,2) r1(2)]
  obtain r2 where r2: "flush_run E ?P r1 = (None, r2)" "?matches changes r2" "nothing_waits r2" by blast
  have "\<exists>ats. length ats = length changes \<and> fst (ru_world r2) = foldl (apply_change tenant ?src) s (zip changes ats)"
    using r2(2) owed_nothing [OF assms(2) r2(3)] by (simp add: matches_changes_def)
  moreover have "s' = fst (ru_world r2) \<and> (err = None \<longleftrightarrow> (\<exists>final. ended = Inr final))"
  proof (cases ended)
    case (Inl e)
    then show ?thesis
      using assms(4,6,8) load r1(1) r2(1)
      by (auto simp: Run_def sync_connector_def look_clock_def Let_def r0_def [symmetric])
  next
    case (Inr final)
    define r3 where "r3 = r2\<lparr>ru_looks := Suc (ru_looks r2),
      ru_stats := (ru_stats r2)\<lparr>ig_Duration := ie_clock E (ru_looks r2) - ie_clock E 0\<rparr>\<rparr>"
    obtain r4 where r4: "saveCursor E ?P final r3 = (None, r4)" "fst (ru_world r4) = fst (ru_world r2)"
      using mem_save [OF assms(1), of ord bs final r3] by (force simp: r3_def)
    have r3w: "fst (ru_world r3) = fst (ru_world r2)" by (simp add: r3_def)
    show ?thesis
      using assms(4,6,8) load r1(1) r2(1) Inr r4 r3w
      by (auto simp: Run_def sync_connector_def look_clock_def Let_def r0_def [symmetric] r3_def [symmetric] split: if_splits)
  qed
  ultimately show ?thesis by simp
qed

section \<open>What a batch can get wrong\<close>

definition ex_env :: ingest_env where
  "ex_env = \<lparr>ie_ctx = (\<lambda>_. None), ie_clock = (\<lambda>n. int n)\<rparr>"

definition ex_put :: "string \<Rightarrow> permissions \<Rightarrow> string \<Rightarrow> source_change" where
  "ex_put i perm at =
     \<lparr>cg_Document = (docWithID i)\<lparr>doc_Permissions := perm\<rparr>, cg_Deleted = False, cg_PermissionsOnly = False,
      cg_Cursor = \<lparr>cu_Value = at, cu_Time = 0\<rparr>\<rparr>"

definition ex_perms :: "string \<Rightarrow> permissions \<Rightarrow> string \<Rightarrow> source_change" where
  "ex_perms i perm at = (ex_put i perm at)\<lparr>cg_PermissionsOnly := True\<rparr>"

definition ex_gone :: "string \<Rightarrow> string \<Rightarrow> source_change" where
  "ex_gone i at = (ex_put i (Unresolved '''' '''') at)\<lparr>cg_Deleted := True\<rparr>"

definition ex_connector :: "source_change list \<Rightarrow> source_connector" where
  "ex_connector changes =
     \<lparr>cn_Source = ''wiki'', cn_Sync = (\<lambda>_. (changes, Inr zero_cursor)), cn_Enumerate = None,
      cn_Fetch = None, cn_Counters = None\<rparr>"

definition ex_open_to_all :: permissions where
  "ex_open_to_all = (ex_acl [] [])\<lparr>perm_Mode := ModePublicToTenant\<rparr>"

definition ex_run :: "mem_world pipeline \<Rightarrow> source_change list \<Rightarrow> ingest_error option \<times> mem_world" where
  "ex_run p changes =
     (case Run ex_env p ''acme'' (Some (ex_connector changes)) (New, NewMemoryCheckpoints) of
        (_, err, _, w) \<Rightarrow> (err, w))"

text \<open>
  A permission change followed, in one batch, by a newer copy of the same document ends with
  the older permissions: the run succeeds and saves its resume point, and somebody the source has
  shut out still reads the document, whom the changes applied in order would have shut out.
\<close>

theorem Run_reorders_permissions:
  "let changes = [ex_perms ''d1'' ex_open_to_all ''1'', ex_put ''d1'' (ex_acl [] []) ''2''];
       ran = ex_run (mem_pipeline id 500) changes;
       mei = Some (ex_principal ''mei'' [])
   in fst ran = None \<and> Memory_Load None ''acme'' ''wiki'' (snd (snd ran)) = Inr \<lparr>cu_Value = ''2'', cu_Time = 0\<rparr> \<and>
      is_ok (Get ascii_table None mei ''d1'' (fst (snd ran))) \<and>
      \<not> is_ok (Get ascii_table None mei ''d1'' (foldl (apply_change ''acme'' ''wiki'') New (zip changes [0, 0])))"
  by code_simp

text \<open>
  A document that was removed and created again within one batch is gone from the store,
  and the resume point saved is behind it, so no later run of the same source brings it back.
\<close>

theorem Run_loses_recreated:
  "let ran = ex_run (mem_pipeline id 500) [ex_gone ''d1'' ''1'', ex_put ''d1'' ex_open_to_all ''2'']
   in fst ran = None \<and> fmlookup (st_docs (fst (snd ran))) ''d1'' = None \<and>
      Memory_Load None ''acme'' ''wiki'' (snd (snd ran)) = Inr \<lparr>cu_Value = ''2'', cu_Time = 0\<rparr>"
  by code_simp

text \<open>
  Over a store that cannot write permissions alone, the run refuses such a change with an
  error, and the flush at its end saves that very change's resume point: the next run starts
  behind a revocation that was never carried out.
\<close>

theorem Run_resumes_past_refused:
  "let p = (mem_pipeline id 500)\<lparr>pl_maint := None\<rparr>;
       ran = ex_run p [ex_put ''d1'' ex_open_to_all ''1'', ex_perms ''d1'' (ex_acl [] []) ''2'']
   in fst ran = Some (PermissionsRefused ''d1'') \<and>
      Memory_Load None ''acme'' ''wiki'' (snd (snd ran)) = Inr \<lparr>cu_Value = ''2'', cu_Time = 0\<rparr> \<and>
      is_ok (Get ascii_table None (Some (ex_principal ''mei'' [])) ''d1'' (fst (snd ran)))"
  by code_simp

section \<open>A small run\<close>

definition ex_changes :: "source_change list" where
  "ex_changes = [ex_put ''d1'' ex_open_to_all ''1'', ex_put ''d2'' (ex_acl [] []) ''2'', ex_gone ''d1'' ''3'']"


theorem Run_applies_in_order_witness:
  "fst (ex_run (mem_pipeline id 2) ex_changes) = None \<and>
   map_keys (st_docs (fst (snd (ex_run (mem_pipeline id 2) ex_changes)))) = [''d2'']"
proof -
  have calm: "calm ex_env" by (simp add: calm_def ex_env_def)
  have walks: "walks id" by (simp add: walks_def)
  have opened: "\<not> st_closed New" by (simp add: New_def)
  have sync: "cn_Sync (ex_connector ex_changes) zero_cursor = (ex_changes, Inr zero_cursor)"
    by (simp add: ex_connector_def)
  have ordered: "in_order ex_changes"
    by (simp add: in_order_def ex_changes_def ex_gone_def ex_put_def)
  obtain st err r s' m' where run: "Run ex_env (mem_pipeline id 2) ''acme'' (Some (ex_connector ex_changes))
      (New, NewMemoryCheckpoints) = (st, err, r, (s', m'))"
    by (metis prod.collapse)
  have "Memory_Load None ''acme'' (cn_Source (ex_connector ex_changes)) NewMemoryCheckpoints = Inr zero_cursor"
    by (simp add: Memory_Load_def NewMemoryCheckpoints_def)
  from Run_applies_in_order [OF calm walks opened _ this sync ordered run]
  obtain ats where ats: "length ats = length ex_changes"
      "s' = foldl (apply_change ''acme'' ''wiki'') New (zip ex_changes ats)" "err = None"
    by (auto simp: ex_connector_def)
  then obtain a b c where "ats = [a, b, c]" by (auto simp: ex_changes_def length_Suc_conv)
  with ats(2) have s': "s' = remove_one (put_one (put_one New
      ((docWithID ''d1'')\<lparr>doc_Permissions := ex_open_to_all, doc_Tenant := ''acme'', doc_Source := ''wiki'', doc_IndexedAt := a\<rparr>))
      ((docWithID ''d2'')\<lparr>doc_Permissions := ex_acl [] [], doc_Tenant := ''acme'', doc_Source := ''wiki'', doc_IndexedAt := b\<rparr>)) ''d1''"
    by (simp add: ex_changes_def ex_put_def ex_gone_def apply_change_def docWithID_def Let_def)
  have "fset (fmdom (st_docs s')) = {''d2''}"
    unfolding s' by (auto simp: fmlookup_dom_iff put_one_fields remove_one_fields docWithID_def New_def split: if_splits)
  then show ?thesis using run ats(3) by (simp add: ex_run_def map_keys_def)
qed

end
