(* ===== verification/Ingest_Repair.thy ===== *)
theory Ingest_Repair
  imports Ingest_Memstore
begin

text \<open>
  What a sweep over the memory driver finds and what it leaves: the four categories of the report
  are exactly the four ways the two listings can differ, a sweep that succeeds leaves the index
  holding what the source listed, and a sweep right after it finds nothing to do.
\<close>

section \<open>The comparison\<close>

definition stale_item :: "(string, string) fmap \<Rightarrow> item \<Rightarrow> bool" where
  "stale_item L it \<longleftrightarrow> (case fmlookup L (item_ID it) of None \<Rightarrow> False | Some v \<Rightarrow> v \<noteq> '''' \<and> v \<noteq> item_Version it)"

definition extra_item :: "(string, string) fmap \<Rightarrow> item \<Rightarrow> bool" where
  "extra_item L it \<longleftrightarrow> fmlookup L (item_ID it) = None"

definition held_item :: "(string, string) fmap \<Rightarrow> item \<Rightarrow> bool" where
  "held_item L it \<longleftrightarrow> \<not> extra_item L it \<and> \<not> stale_item L it \<and> item_Held it"

lemma compare_exact:
  assumes "distinct (map item_ID its)"
  shows "cm_seen (foldl compare_item m its) = cm_seen m + int (length its) \<and>
    cm_stale (foldl compare_item m its) = cm_stale m @ map item_ID (filter (stale_item (cm_items m)) its) \<and>
    cm_extra (foldl compare_item m its) = cm_extra m @ map item_ID (filter (extra_item (cm_items m)) its) \<and>
    cm_quaran (foldl compare_item m its) = cm_quaran m @ map item_ID (filter (held_item (cm_items m)) its) \<and>
    cm_items (foldl compare_item m its) = fmfilter (\<lambda>i. i \<notin> item_ID ` set its) (cm_items m)"
  using assms
proof (induction its arbitrary: m)
  case Nil
  then show ?case by (simp add: fmfilter_true)
next
  case (Cons it its)
  let ?m = "compare_item m it"
  have items: "cm_items ?m = fmdrop (item_ID it) (cm_items m)"
    by (simp add: compare_item_def Let_def split: option.split)
  have same: "stale_item (cm_items ?m) jt = stale_item (cm_items m) jt" "extra_item (cm_items ?m) jt = extra_item (cm_items m) jt"
    "held_item (cm_items ?m) jt = held_item (cm_items m) jt" if "jt \<in> set its" for jt
  proof -
    have "item_ID jt \<in> item_ID ` set its" using that by (rule imageI)
    then have "item_ID jt \<noteq> item_ID it" using Cons.prems by auto
    then have "fmlookup (cm_items ?m) (item_ID jt) = fmlookup (cm_items m) (item_ID jt)"
      unfolding items by simp
    then show "stale_item (cm_items ?m) jt = stale_item (cm_items m) jt" "extra_item (cm_items ?m) jt = extra_item (cm_items m) jt"
      "held_item (cm_items ?m) jt = held_item (cm_items m) jt"
      by (simp_all add: stale_item_def extra_item_def held_item_def)
  qed
  have filters: "filter (stale_item (cm_items ?m)) its = filter (stale_item (cm_items m)) its"
    "filter (extra_item (cm_items ?m)) its = filter (extra_item (cm_items m)) its"
    "filter (held_item (cm_items ?m)) its = filter (held_item (cm_items m)) its"
    using same by (auto intro!: filter_cong)
  have rest: "fmfilter (\<lambda>i. i \<notin> item_ID ` set its) (cm_items ?m) = fmfilter (\<lambda>i. i \<notin> item_ID ` set (it # its)) (cm_items m)"
    unfolding items by (rule fmap_ext) auto
  have step: "cm_seen ?m = cm_seen m + 1"
    "cm_stale ?m = cm_stale m @ map item_ID (filter (stale_item (cm_items m)) [it])"
    "cm_extra ?m = cm_extra m @ map item_ID (filter (extra_item (cm_items m)) [it])"
    "cm_quaran ?m = cm_quaran m @ map item_ID (filter (held_item (cm_items m)) [it])"
    by (auto simp: compare_item_def Let_def stale_item_def extra_item_def held_item_def split: option.splits)
  have "distinct (map item_ID its)" using Cons.prems by simp
  from Cons.IH [OF this, of ?m] show ?case
    unfolding filters rest step by (simp add: algebra_simps)
qed

lemma add_discrepancies:
  "foldl add_discrepancy d is =
     \<lparr>dp_Count = dp_Count d + int (length is), dp_IDs = dp_IDs d @ take (SampleSize - length (dp_IDs d)) is\<rparr>"
proof (induction "is" arbitrary: d)
  case (Cons i "is")
  have step: "add_discrepancy d i =
      \<lparr>dp_Count = dp_Count d + 1, dp_IDs = dp_IDs d @ take (SampleSize - length (dp_IDs d)) [i]\<rparr>" for d
    by (auto simp: add_discrepancy_def Let_def)
  have split: "take (n - k) (i # is) = take (n - k) [i] @ take (n - length (ids @ take (n - k) [i])) is"
    if "length ids = k" for n k and ids :: "string list"
  proof (cases "n - k")
    case (Suc l)
    then have "n - Suc k = l" by simp
    then show ?thesis using Suc that by simp
  qed (use that in simp)
  show ?case using split [OF refl, of SampleSize "dp_IDs d"] by (simp add: Cons.IH step del: take_Cons')
qed simp

section \<open>The two listings\<close>

text \<open>What the index holds for a tenant and a source, and how the memory driver lists it.\<close>

definition indexed :: "string \<Rightarrow> string \<Rightarrow> memstore \<Rightarrow> string \<Rightarrow> document option" where
  "indexed t src s i =
     (case fmlookup (st_docs s) i of
        None \<Rightarrow> None
      | Some d \<Rightarrow> if doc_Tenant d = t \<and> doc_Source d = src then Some d else None)"

definition item_of :: "document \<Rightarrow> item" where
  "item_of d = \<lparr>item_ID = doc_ID d, item_Version = doc_SourceUpdate d, item_Held = (\<not> Queryable d)\<rparr>"

definition inventory :: "(string list \<Rightarrow> string list) \<Rightarrow> string \<Rightarrow> string \<Rightarrow> memstore \<Rightarrow> item list" where
  "inventory ord t src s =
     map (\<lambda>i. item_of (the (fmlookup (st_docs s) i))) (filter (\<lambda>i. indexed t src s i \<noteq> None) (ord (map_keys (st_docs s))))"

lemma Inventory_lists:
  assumes "walks ord" "\<not> st_closed s"
  shows "Inventory None t src (\<lambda>it acc. (True, acc @ [it])) (ord (map_keys (st_docs s))) [] s =
    (None, inventory ord t src s)"
proof -
  have "snd (yield_all (\<lambda>i st. let d = the (fmlookup (st_docs s) i)
      in if doc_Tenant d \<noteq> t \<or> doc_Source d \<noteq> src then (True, st)
         else (True, st @ [\<lparr>item_ID = doc_ID d, item_Version = doc_SourceUpdate d, item_Held = \<not> Queryable d\<rparr>])) ks acc) =
      acc @ map (\<lambda>i. item_of (the (fmlookup (st_docs s) i))) (filter (\<lambda>i. indexed t src s i \<noteq> None) ks)"
    if "set ks \<subseteq> fset (fmdom (st_docs s))" for ks acc
    using that
  proof (induction ks arbitrary: acc)
    case (Cons k ks)
    then obtain d where "fmlookup (st_docs s) k = Some d" by (auto simp: fmlookup_dom_iff)
    then show ?case using Cons by (simp add: Let_def indexed_def item_of_def)
  qed simp
  then show ?thesis using assms by (simp add: Inventory_def inventory_def)
qed

lemma inventory_ids:
  assumes "walks ord" "docs_ok s"
  shows "distinct (map item_ID (inventory ord t src s))"
    and "item_ID ` set (inventory ord t src s) = {i. indexed t src s i \<noteq> None}"
    and "it \<in> set (inventory ord t src s) \<longleftrightarrow> (\<exists>d. indexed t src s (item_ID it) = Some d \<and> it = item_of d)"
proof -
  have id: "fmlookup (st_docs s) i = Some d \<and> doc_ID d = i \<and> i \<in> fset (fmdom (st_docs s))"
    if "indexed t src s i = Some d" for i d
    using that assms(2) by (auto simp: indexed_def docs_ok_def doc_ok_def fmlookup_dom_iff split: option.splits if_splits)
  have the_doc: "item_of (the (fmlookup (st_docs s) i)) = item_of d \<and> item_ID (item_of d) = i"
    if "indexed t src s i = Some d" for i d
    using id [OF that] by (simp add: item_of_def)
  have ids: "map item_ID (inventory ord t src s) = filter (\<lambda>i. indexed t src s i \<noteq> None) (ord (map_keys (st_docs s)))"
    using the_doc by (fastforce simp: inventory_def intro!: map_idI)
  then show "distinct (map item_ID (inventory ord t src s))" using assms(1) by simp
  show "item_ID ` set (inventory ord t src s) = {i. indexed t src s i \<noteq> None}"
    using arg_cong [OF ids, of set] assms(1) id by auto
  have mem: "it \<in> set (inventory ord t src s) \<longleftrightarrow>
      (\<exists>i. indexed t src s i \<noteq> None \<and> i \<in> fset (fmdom (st_docs s)) \<and> it = item_of (the (fmlookup (st_docs s) i)))"
    using assms(1) unfolding inventory_def by auto
  show "it \<in> set (inventory ord t src s) \<longleftrightarrow> (\<exists>d. indexed t src s (item_ID it) = Some d \<and> it = item_of d)"
  proof
    assume "it \<in> set (inventory ord t src s)"
    then obtain i d where "indexed t src s i = Some d" "it = item_of (the (fmlookup (st_docs s) i))"
      unfolding mem by auto
    then show "\<exists>d. indexed t src s (item_ID it) = Some d \<and> it = item_of d" using the_doc [of i d] by simp
  next
    assume "\<exists>d. indexed t src s (item_ID it) = Some d \<and> it = item_of d"
    then obtain d where d: "indexed t src s (item_ID it) = Some d" "it = item_of d" by blast
    show "it \<in> set (inventory ord t src s)"
      unfolding mem using d id [OF d(1)] by (intro exI [of _ "item_ID it"]) simp
  qed
qed

definition listing :: "source_item list \<Rightarrow> (string, string) fmap" where
  "listing listed = foldl note_item fmempty listed"

text \<open>The four ways the listings differ, for one id.\<close>

definition missing_id :: "(string, string) fmap \<Rightarrow> (string \<Rightarrow> document option) \<Rightarrow> string \<Rightarrow> bool" where
  "missing_id L X i \<longleftrightarrow> fmlookup L i \<noteq> None \<and> X i = None"

definition stale_id :: "(string, string) fmap \<Rightarrow> (string \<Rightarrow> document option) \<Rightarrow> string \<Rightarrow> bool" where
  "stale_id L X i \<longleftrightarrow> (\<exists>v d. fmlookup L i = Some v \<and> X i = Some d \<and> v \<noteq> '''' \<and> v \<noteq> doc_SourceUpdate d)"

definition extra_id :: "(string, string) fmap \<Rightarrow> (string \<Rightarrow> document option) \<Rightarrow> string \<Rightarrow> bool" where
  "extra_id L X i \<longleftrightarrow> fmlookup L i = None \<and> X i \<noteq> None"

definition held_id :: "(string, string) fmap \<Rightarrow> (string \<Rightarrow> document option) \<Rightarrow> string \<Rightarrow> bool" where
  "held_id L X i \<longleftrightarrow> fmlookup L i \<noteq> None \<and> \<not> stale_id L X i \<and> (\<exists>d. X i = Some d \<and> \<not> Queryable d)"

definition comparison_of :: "(string list \<Rightarrow> string list) \<Rightarrow> string \<Rightarrow> string \<Rightarrow> source_item list \<Rightarrow> memstore \<Rightarrow> comparison" where
  "comparison_of ord t src listed s =
     foldl compare_item \<lparr>cm_items = listing listed, cm_seen = 0, cm_stale = [], cm_extra = [], cm_quaran = []\<rparr>
       (inventory ord t src s)"

lemma sort_distinct: "distinct xs \<Longrightarrow> sort xs = sorted_list_of_set (set xs)"
  by (simp add: sorted_list_of_set_sort_remdups distinct_remdups_id)

lemma comparison_found:
  fixes t src :: string and listed :: "source_item list"
  assumes "walks ord" "docs_ok s"
  defines "m \<equiv> comparison_of ord t src listed s" and "L \<equiv> listing listed" and "X \<equiv> indexed t src s"
  shows "cm_seen m = int (card {i. X i \<noteq> None})"
    and "sort (map_keys (cm_items m)) = sorted_list_of_set {i. missing_id L X i}"
    and "sort (cm_stale m) = sorted_list_of_set {i. stale_id L X i}"
    and "sort (cm_extra m) = sorted_list_of_set {i. extra_id L X i}"
    and "sort (cm_quaran m) = sorted_list_of_set {i. held_id L X i}"
    and "finite {i. missing_id L X i}" "finite {i. stale_id L X i}" "finite {i. extra_id L X i}" "finite {i. held_id L X i}"
proof -
  let ?its = "inventory ord t src s"
  note ids = inventory_ids [OF assms(1,2), where t = t and src = src]
  note c = compare_exact [OF ids(1), of "\<lparr>cm_items = L, cm_seen = 0, cm_stale = [], cm_extra = [], cm_quaran = []\<rparr>"]
  have "foldl compare_item \<lparr>cm_items = L, cm_seen = 0, cm_stale = [], cm_extra = [], cm_quaran = []\<rparr> ?its = m"
    by (simp add: m_def comparison_of_def L_def)
  note c' = c [unfolded this]
  have m: "cm_seen m = int (length ?its)" "cm_stale m = map item_ID (filter (stale_item L) ?its)"
    "cm_extra m = map item_ID (filter (extra_item L) ?its)" "cm_quaran m = map item_ID (filter (held_item L) ?its)"
    "cm_items m = fmfilter (\<lambda>i. i \<notin> item_ID ` set ?its) L"
    using c' unfolding comparison.select_convs by simp_all
  have "length ?its = card (item_ID ` set ?its)"
    using distinct_card [OF ids(1)] by simp
  then show "cm_seen m = int (card {i. X i \<noteq> None})" unfolding m(1) ids(2) X_def by simp
  have dist: "distinct (map item_ID (filter P ?its))" for P
    using ids(1) by (simp add: distinct_map_filter)
  have pick: "set (map item_ID (filter P ?its)) = {i. \<exists>d. X i = Some d \<and> P (item_of d)}" for P
  proof -
    have "item_ID (item_of d) = i" if "X i = Some d" for i d
      using that assms(2) by (auto simp: X_def indexed_def item_of_def docs_ok_def doc_ok_def split: option.splits if_splits)
    then show ?thesis unfolding set_map set_filter ids(3) X_def [symmetric] by (auto simp: image_iff)
  qed
  have id: "item_ID (item_of d) = i" if "X i = Some d" for i d
    using that assms(2) by (auto simp: X_def indexed_def item_of_def docs_ok_def doc_ok_def split: option.splits if_splits)
  have per: "stale_item L (item_of d) = stale_id L X i" "extra_item L (item_of d) = extra_id L X i"
    "held_item L (item_of d) = held_id L X i" if "X i = Some d" for i d
    using id [OF that] that
    by (auto simp: stale_item_def stale_id_def extra_item_def extra_id_def held_item_def held_id_def item_of_def
        split: option.splits)
  have some: "\<exists>d. X i = Some d" if "stale_id L X i \<or> extra_id L X i \<or> held_id L X i" for i
    using that by (auto simp: stale_id_def extra_id_def held_id_def)
  have "set (cm_stale m) = {i. stale_id L X i}"
    unfolding m(2) pick using per(1) some by blast
  then show "sort (cm_stale m) = sorted_list_of_set {i. stale_id L X i}" "finite {i. stale_id L X i}"
    using sort_distinct [OF dist [of "stale_item L"]] unfolding m(2) by (metis, metis List.finite_set)
  have "set (cm_extra m) = {i. extra_id L X i}"
    unfolding m(3) pick using per(2) some by blast
  then show "sort (cm_extra m) = sorted_list_of_set {i. extra_id L X i}" "finite {i. extra_id L X i}"
    using sort_distinct [OF dist [of "extra_item L"]] unfolding m(3) by (metis, metis List.finite_set)
  have "set (cm_quaran m) = {i. held_id L X i}"
    unfolding m(4) pick using per(3) some by blast
  then show "sort (cm_quaran m) = sorted_list_of_set {i. held_id L X i}" "finite {i. held_id L X i}"
    using sort_distinct [OF dist [of "held_item L"]] unfolding m(4) by (metis, metis List.finite_set)
  have "set (map_keys (cm_items m)) = {i. missing_id L X i}"
    unfolding m(5) ids(2) X_def [symmetric] by (auto simp: missing_id_def fmlookup_dom_iff)
  then show "sort (map_keys (cm_items m)) = sorted_list_of_set {i. missing_id L X i}" "finite {i. missing_id L X i}"
    using sort_distinct [OF sorted_keys(2), of "cm_items m"] by (metis, metis List.finite_set)
qed

section \<open>The report\<close>

definition found :: "string set \<Rightarrow> discrepancies" where
  "found A = \<lparr>dp_Count = int (card A), dp_IDs = take SampleSize (sorted_list_of_set A)\<rparr>"

lemma found_fold: "foldl add_discrepancy no_discrepancies (sorted_list_of_set A) = found A"
  by (simp add: add_discrepancies no_discrepancies_def found_def length_sorted_list_of_set)

lemma repair_report:
  assumes "repair E p t c rec a b d e n w = (rec', err, r)"
  shows "rc_Missing rec' = rc_Missing rec" "rc_Stale rec' = rc_Stale rec" "rc_Extra rec' = rc_Extra rec"
    "rc_Held rec' = rc_Held rec" "rc_SourceItems rec' = rc_SourceItems rec" "rc_IndexItems rec' = rc_IndexItems rec"
  using assms by (auto simp: repair_def Let_def split: prod.splits option.splits)

text \<open>The sweep over the memory driver, with the comparison and the repair named.\<close>

definition swept ::
  "(string list \<Rightarrow> string list) \<Rightarrow> int \<Rightarrow> ingest_env \<Rightarrow> string \<Rightarrow> source_connector \<Rightarrow> source_item list \<Rightarrow> memstore \<Rightarrow>
    memory_points \<Rightarrow> reconciliation \<times> ingest_error option \<times> mem_world run_state"
where
  "swept ord bs E t c listed s m =
     (let L = listing listed; X = indexed t (cn_Source c) s;
          rec = compared ((new_reconciliation t (cn_Source c))\<lparr>rc_SourceItems := int (fcard (fmdom L))\<rparr>)
            (comparison_of ord t (cn_Source c) listed s)
      in repair E (mem_pipeline ord bs) t c rec (sorted_list_of_set {i. missing_id L X i})
           (sorted_list_of_set {i. stale_id L X i}) (sorted_list_of_set {i. extra_id L X i})
           (sorted_list_of_set {i. held_id L X i}) 2 (s, m))"

lemma Reconcile_swept:
  assumes "calm E" "walks ord" "docs_ok s" "\<not> st_closed s" "t \<noteq> ''''"
    and "cn_Enumerate c = Some (listed, None)" "swept ord bs E t c listed s m = (rec, err, r)"
  shows "\<exists>dur req. Reconcile E (mem_pipeline ord bs) t (Some c) (s, m) =
    (rec\<lparr>rc_Duration := dur, rc_Requests := req\<rparr>, err, ru_world r)"
proof -
  have inv: "mt_Inventory (mem_maintenance ord) (ie_ctx E n) t (cn_Source c) (s, m) = (inventory ord t (cn_Source c) s, None)" for n
    using assms(1) Inventory_lists [OF assms(2,4), of t "cn_Source c"] by (simp add: mem_maintenance_def calm_def)
  note found = comparison_found(2-5) [OF assms(2,3), where t = t and src = "cn_Source c" and listed = listed]
  have cmp: "foldl compare_item \<lparr>cm_items = foldl note_item fmempty listed, cm_seen = 0, cm_stale = [], cm_extra = [], cm_quaran = []\<rparr>
      (inventory ord t (cn_Source c) s) = comparison_of ord t (cn_Source c) listed s"
    by (simp add: comparison_of_def listing_def)
  have pl: "pl_maint (mem_pipeline ord bs) = Some (mem_maintenance ord)" by (simp add: mem_pipeline_def)
  show ?thesis
    using assms(5-7)
    by (intro exI [of _ "ie_clock E (ru_looks r) - ie_clock E 0"] exI [of _ "Since (countersOf c 1) (countersOf c 0)"])
      (simp add: Reconcile_def pl Let_def inv cmp swept_def found listing_def look_clock_def)
qed

lemma sweep_report:
  assumes "calm E" "walks ord" "docs_ok s" "\<not> st_closed s" "t \<noteq> ''''"
    and "cn_Enumerate c = Some (listed, None)"
    and "Reconcile E (mem_pipeline ord bs) t (Some c) (s, m) = (rec, err, w)"
    and "L = listing listed" "X = indexed t (cn_Source c) s"
  shows "rc_Missing rec = found {i. missing_id L X i} \<and> rc_Stale rec = found {i. stale_id L X i} \<and>
    rc_Extra rec = found {i. extra_id L X i} \<and> rc_Held rec = found {i. held_id L X i} \<and>
    rc_SourceItems rec = int (fcard (fmdom L)) \<and> rc_IndexItems rec = int (card {i. X i \<noteq> None})"
proof -
  obtain rec' err' r where sw: "swept ord bs E t c listed s m = (rec', err', r)"
    by (cases "swept ord bs E t c listed s m") auto
  from Reconcile_swept [OF assms(1-6) sw] assms(7) obtain dur req
    where rec: "rec = rec'\<lparr>rc_Duration := dur, rc_Requests := req\<rparr>" by auto
  note found = comparison_found [OF assms(2,3), where t = t and src = "cn_Source c" and listed = listed]
  have start: "rc_Missing (new_reconciliation t (cn_Source c)) = no_discrepancies"
    "rc_Stale (new_reconciliation t (cn_Source c)) = no_discrepancies"
    "rc_Extra (new_reconciliation t (cn_Source c)) = no_discrepancies"
    "rc_Held (new_reconciliation t (cn_Source c)) = no_discrepancies"
    by (simp_all add: new_reconciliation_def)
  show ?thesis
    using repair_report [OF sw [unfolded swept_def Let_def]]
    unfolding rec assms(8,9) compared_def found(1-5)
    by (simp add: start found_fold)
qed

text \<open>
  C30: the report of a sweep is exact. Its four categories are the ids the source lists and the
  index has not, those both have at different revisions, those the index has and the source does
  not list, and those held back at the source's own revision; each with its exact number and the
  first twenty in order, whatever became of the repair.
\<close>

theorem Reconcile_finds:
  assumes "calm E" "walks ord" "docs_ok s" "\<not> st_closed s" "t \<noteq> ''''"
    and "cn_Enumerate c = Some (listed, None)"
    and "Reconcile E (mem_pipeline ord bs) t (Some c) (s, m) = (rec, err, w)"
    and "L = listing listed" "X = indexed t (cn_Source c) s"
  shows "rc_Missing rec = found {i. missing_id L X i} \<and> rc_Stale rec = found {i. stale_id L X i} \<and>
    rc_Extra rec = found {i. extra_id L X i} \<and> rc_Held rec = found {i. held_id L X i} \<and>
    rc_SourceItems rec = int (fcard (fmdom L)) \<and> rc_IndexItems rec = int (card {i. X i \<noteq> None})"
  using assms by (rule sweep_report)

section \<open>The repair\<close>

definition refetched :: "(string \<Rightarrow> fetched) \<Rightarrow> string \<Rightarrow> source_change" where
  "refetched fetch i = (case fetch i of Fetched d \<Rightarrow> arrival (d\<lparr>doc_ID := i\<rparr>) | _ \<Rightarrow> deletion i)"

lemma refetched_simps [simp]:
  "doc_ID (cg_Document (deletion i)) = i" "cg_Deleted (deletion i)" "\<not> cg_PermissionsOnly (deletion i)"
  "doc_ID (cg_Document (refetched fetch i)) = i" "\<not> cg_PermissionsOnly (refetched fetch i)"
  "cg_Deleted (refetched fetch i) \<longleftrightarrow> (\<forall>d. fetch i \<noteq> Fetched d)"
  by (auto simp: deletion_def docWithID_def refetched_def arrival_def split: fetched.splits)

lemma refetch_emit:
  assumes "\<forall>i \<in> set is. \<forall>e. fetch i \<noteq> FetchFailed e"
  shows "refetch E p fetch is r = emit_all E p (map (refetched fetch) is) r"
  using assms
proof (induction "is" arbitrary: r)
  case (Cons i "is")
  then show ?case by (cases "fetch i") (auto simp: refetched_def split: option.split prod.split)
qed simp

lemma distinct_in_order:
  assumes "distinct (map (\<lambda>ch. doc_ID (cg_Document ch)) chs)"
  shows "in_order chs"
  using assms unfolding in_order_def
  by (auto simp: sorted_wrt_iff_nth_less distinct_conv_nth nth_map)

lemma apply_other:
  assumes "\<forall>ch \<in> set chs. doc_ID (cg_Document ch) \<noteq> i"
  shows "fmlookup (st_docs (foldl (apply_change t src) s (zip chs ats))) i = fmlookup (st_docs s) i"
  using assms
proof (induction chs arbitrary: s ats)
  case (Cons ch chs)
  show ?case
  proof (cases ats)
    case (Cons at ats')
    have "fmlookup (st_docs (apply_change t src s (ch, at))) i = fmlookup (st_docs s) i"
      using Cons.prems by (auto simp: apply_change_def Let_def remove_one_fields put_one_fields permit_one_fields)
    then show ?thesis using Cons.IH Cons.prems Cons by simp
  qed simp
qed simp

text \<open>A fetched document as it stands in the index.\<close>

definition standing :: "string \<Rightarrow> string \<Rightarrow> string \<Rightarrow> document \<Rightarrow> gtime \<Rightarrow> person \<Rightarrow> document" where
  "standing t src i d at owner =
     d\<lparr>doc_ID := i, doc_Tenant := t, doc_Source := src, doc_IndexedAt := at, doc_Owner := owner, doc_Content := None\<rparr>"

lemma apply_one:
  assumes "i \<noteq> ''''" "doc_ID (cg_Document ch) = i" "\<not> cg_PermissionsOnly ch"
  shows "\<exists>ow. fmlookup (st_docs (apply_change t src s (ch, at))) i =
    (if cg_Deleted ch then None else Some (standing t src i (cg_Document ch) at ow))"
proof (cases "cg_Deleted ch")
  case True
  then show ?thesis using assms by (simp add: apply_change_def Let_def remove_one_fields)
next
  case False
  let ?d = "(cg_Document ch)\<lparr>doc_Tenant := t, doc_Source := src, doc_IndexedAt := at\<rparr>"
  have "fmlookup (st_docs (apply_change t src s (ch, at))) i = Some ((corrected s ?d)\<lparr>doc_Content := None\<rparr>)"
    using False assms by (simp add: apply_change_def Let_def put_one_fields)
  also have "\<dots> = Some (standing t src i (cg_Document ch) at (doc_Owner (corrected s ?d)))"
    using assms(2) by (auto simp: corrected_def standing_def split: option.split)
  finally show ?thesis using False by auto
qed

lemma apply_all:
  assumes "distinct (map (\<lambda>ch. doc_ID (cg_Document ch)) chs)" "length ats = length chs" "ch \<in> set chs"
    and "i \<noteq> ''''" "doc_ID (cg_Document ch) = i" "\<not> cg_PermissionsOnly ch"
  shows "\<exists>at ow. fmlookup (st_docs (foldl (apply_change t src) s (zip chs ats))) i =
    (if cg_Deleted ch then None else Some (standing t src i (cg_Document ch) at ow))"
  using assms(1-3)
proof (induction chs arbitrary: s ats)
  case (Cons c chs)
  then obtain at ats' where ats: "ats = at # ats'" by (cases ats) auto
  show ?case
  proof (cases "c = ch")
    case True
    have "i \<notin> (\<lambda>ch. doc_ID (cg_Document ch)) ` set chs"
      using Cons.prems(1) True assms(5) by simp
    then have "\<forall>ch \<in> set chs. doc_ID (cg_Document ch) \<noteq> i" by blast
    from apply_other [OF this] show ?thesis
      using apply_one [OF assms(4-6)] True unfolding ats by fastforce
  next
    case False
    then show ?thesis using Cons unfolding ats by simp
  qed
qed simp

lemma in_order_prefix: "in_order (as @ bs) \<Longrightarrow> in_order as"
  by (simp add: in_order_def sorted_wrt_append)

definition repairs :: "(string, string) fmap \<Rightarrow> (string \<Rightarrow> document option) \<Rightarrow> (string \<Rightarrow> fetched) \<Rightarrow> source_change list" where
  "repairs L X fetch =
     map deletion (sorted_list_of_set {i. extra_id L X i}) @
     map (refetched fetch) (sorted_list_of_set {i. missing_id L X i} @ sorted_list_of_set {i. stale_id L X i}) @
     map (refetched fetch) (sorted_list_of_set {i. held_id L X i})"

lemma swept_applies:
  assumes "calm E" "walks ord" "docs_ok s" "\<not> st_closed s" "cn_Fetch c = Some fetch"
    and "\<forall>i e. fetch i \<noteq> FetchFailed e" "L = listing listed" "X = indexed t (cn_Source c) s"
  shows "distinct (map (\<lambda>ch. doc_ID (cg_Document ch)) (repairs L X fetch)) \<and>
    (\<exists>rec r ats. swept ord bs E t c listed s m = (rec, None, r) \<and> length ats = length (repairs L X fetch) \<and>
      fst (ru_world r) = foldl (apply_change t (cn_Source c)) s (zip (repairs L X fetch) ats))"
proof -
  let ?src = "cn_Source c" and ?P = "mem_pipeline ord bs"
  let ?e = "sorted_list_of_set {i. extra_id L X i}" and ?m = "sorted_list_of_set {i. missing_id L X i}"
    and ?t = "sorted_list_of_set {i. stale_id L X i}" and ?h = "sorted_list_of_set {i. held_id L X i}"
  note fin = comparison_found(6-9) [OF assms(2,3), where t = t and src = ?src and listed = listed]
  have sets: "set ?e = {i. extra_id L X i}" "set ?m = {i. missing_id L X i}" "set ?t = {i. stale_id L X i}"
      "set ?h = {i. held_id L X i}"
    using fin by (simp_all add: assms(7,8))
  have ids: "map (\<lambda>ch. doc_ID (cg_Document ch)) (repairs L X fetch) = ?e @ (?m @ ?t) @ ?h"
    by (simp add: repairs_def comp_def)
  have disj: "{i. extra_id L X i} \<inter> {i. missing_id L X i} = {}" "{i. extra_id L X i} \<inter> {i. stale_id L X i} = {}"
    "{i. extra_id L X i} \<inter> {i. held_id L X i} = {}" "{i. missing_id L X i} \<inter> {i. stale_id L X i} = {}"
    "{i. missing_id L X i} \<inter> {i. held_id L X i} = {}" "{i. stale_id L X i} \<inter> {i. held_id L X i} = {}"
    by (auto simp: missing_id_def stale_id_def extra_id_def held_id_def)
  have dist: "distinct (map (\<lambda>ch. doc_ID (cg_Document ch)) (repairs L X fetch))"
    unfolding ids using disj by (simp add: sets Int_Un_distrib Int_Un_distrib2)
  have order: "in_order (repairs L X fetch)" by (rule distinct_in_order [OF dist])
  let ?r0 = "new_run t ?src False 2 (s, m)"
  have "owed ord ?r0 = s" using owed_nothing [OF assms(2), of ?r0] by (simp add: new_run_def nothing_waits_def)
  then have m0: "matches_changes ord t ?src s [] ?r0"
    using assms(4) by (simp add: matches_changes_def new_run_def writable_def)
  have o3: "in_order ((map deletion ?e @ map (refetched fetch) (?m @ ?t)) @ map (refetched fetch) ?h)"
    using order by (simp only: repairs_def append_assoc)
  note o2 = in_order_prefix [OF o3]
  have "in_order ([] @ map deletion ?e)" using in_order_prefix [OF o2] by simp
  from matches_emit_all [OF assms(1,2) m0 this] obtain r1
    where r1: "emit_all E ?P (map deletion ?e) ?r0 = (None, r1)" "matches_changes ord t ?src s (map deletion ?e) r1" by auto
  from matches_emit_all [OF assms(1,2) r1(2) o2] obtain r2
    where r2: "emit_all E ?P (map (refetched fetch) (?m @ ?t)) r1 = (None, r2)"
      "matches_changes ord t ?src s (map deletion ?e @ map (refetched fetch) (?m @ ?t)) r2" by blast
  from matches_emit_all [OF assms(1,2) r2(2) o3] obtain r3
    where r3: "emit_all E ?P (map (refetched fetch) ?h) r2 = (None, r3)"
      "matches_changes ord t ?src s (repairs L X fetch) r3"
    by (auto simp: repairs_def)
  from matches_flush [OF assms(1,2) r3(2)] obtain r4
    where r4: "flush_run E ?P r3 = (None, r4)" "matches_changes ord t ?src s (repairs L X fetch) r4" "nothing_waits r4" by blast
  have no_fail: "\<forall>i \<in> set js. \<forall>e. fetch i \<noteq> FetchFailed e" for js using assms(6) by blast
  have "\<exists>rec. swept ord bs E t c listed s m = (rec, None, r4)"
    unfolding swept_def repair_def Let_def assms(7,8) [symmetric]
    by (simp add: assms(5) r1(1) refetch_emit [OF no_fail] r2(1) [simplified] r3(1) r4(1))
  moreover have "\<exists>ats. length ats = length (repairs L X fetch) \<and>
      fst (ru_world r4) = foldl (apply_change t ?src) s (zip (repairs L X fetch) ats)"
    using r4(2) owed_nothing [OF assms(2) r4(3)] by (simp add: matches_changes_def)
  ultimately show ?thesis using dist by blast
qed

lemma listing_no_empty: "fmlookup (listing listed) '''' = None"
proof -
  have "fmlookup (foldl note_item m listed) '''' = fmlookup m ''''" for m
    by (induction listed arbitrary: m) (simp_all add: note_item_def)
  then show ?thesis by (simp add: listing_def)
qed

definition differs :: "(string, string) fmap \<Rightarrow> (string \<Rightarrow> document option) \<Rightarrow> string \<Rightarrow> bool" where
  "differs L X i \<longleftrightarrow> missing_id L X i \<or> stale_id L X i \<or> held_id L X i"

text \<open>What a repaired index holds for one id.\<close>

definition settled ::
  "(string, string) fmap \<Rightarrow> (string \<Rightarrow> document option) \<Rightarrow> (string \<Rightarrow> fetched) \<Rightarrow> string \<Rightarrow> string \<Rightarrow> string \<Rightarrow>
    document option \<Rightarrow> bool"
where
  "settled L X fetch t src i now \<longleftrightarrow>
     (if fmlookup L i = None then now = None
      else if differs L X i
      then (case fetch i of Fetched d \<Rightarrow> \<exists>at ow. now = Some (standing t src i d at ow) | _ \<Rightarrow> now = None)
      else now = X i)"

lemma repairs_settle:
  assumes "docs_ok s" "X = indexed t src s" "L = listing listed"
    and "finite {i. missing_id L X i}" "finite {i. stale_id L X i}" "finite {i. extra_id L X i}" "finite {i. held_id L X i}"
    and "distinct (map (\<lambda>ch. doc_ID (cg_Document ch)) (repairs L X fetch))" "length ats = length (repairs L X fetch)"
    and "s' = foldl (apply_change t src) s (zip (repairs L X fetch) ats)"
  shows "settled L X fetch t src i (indexed t src s' i)"
    and "\<not> differs L X i \<Longrightarrow> \<not> extra_id L X i \<Longrightarrow> fmlookup (st_docs s') i = fmlookup (st_docs s) i"
proof -
  have mem: "ch \<in> set (repairs L X fetch) \<longleftrightarrow>
      (\<exists>j. extra_id L X j \<and> ch = deletion j \<or> differs L X j \<and> ch = refetched fetch j)" for ch
    using assms(4-7) by (auto simp: repairs_def differs_def)
  have unmet: "fmlookup (st_docs s') i = fmlookup (st_docs s) i" if "\<not> differs L X i" "\<not> extra_id L X i"
    unfolding assms(10) by (rule apply_other) (use that mem in auto)
  then show "\<not> differs L X i \<Longrightarrow> \<not> extra_id L X i \<Longrightarrow> fmlookup (st_docs s') i = fmlookup (st_docs s) i" .
  have nonempty: "i \<noteq> ''''" if "differs L X i \<or> extra_id L X i"
  proof
    assume i: "i = ''''"
    then have "fmlookup L i = None" using listing_no_empty assms(3) by simp
    then have "extra_id L X i" using that by (auto simp: differs_def missing_id_def stale_id_def held_id_def)
    then show False using assms(1,2) i
      by (auto simp: extra_id_def indexed_def docs_ok_def doc_ok_def split: option.splits)
  qed
  have met: "\<exists>at ow. fmlookup (st_docs s') i = (if cg_Deleted ch then None else Some (standing t src i (cg_Document ch) at ow))"
    if "ch \<in> set (repairs L X fetch)" "doc_ID (cg_Document ch) = i" "\<not> cg_PermissionsOnly ch" "i \<noteq> ''''" for ch
    unfolding assms(10) by (rule apply_all [OF assms(8,9) that(1,4,2,3)])
  consider "extra_id L X i" | "differs L X i" | "\<not> differs L X i" "\<not> extra_id L X i" by blast
  then show "settled L X fetch t src i (indexed t src s' i)"
  proof cases
    case 1
    then have "deletion i \<in> set (repairs L X fetch)" using mem by blast
    from met [OF this] nonempty 1 have "fmlookup (st_docs s') i = None" by simp
    then show ?thesis using 1 by (simp add: settled_def extra_id_def indexed_def)
  next
    case 2
    then have "refetched fetch i \<in> set (repairs L X fetch)" using mem by blast
    from met [OF this] nonempty 2 obtain at ow where now: "fmlookup (st_docs s') i =
        (if cg_Deleted (refetched fetch i) then None else Some (standing t src i (cg_Document (refetched fetch i)) at ow))"
      by auto
    have L: "fmlookup L i \<noteq> None" using 2 by (auto simp: differs_def missing_id_def stale_id_def held_id_def)
    show ?thesis
    proof (cases "fetch i")
      case (Fetched d)
      then have "fmlookup (st_docs s') i = Some (standing t src i d at ow)"
        using now by (simp add: refetched_def arrival_def standing_def)
      then have "indexed t src s' i = Some (standing t src i d at ow)" by (simp add: indexed_def standing_def)
      then show ?thesis using L 2 Fetched by (auto simp: settled_def)
    qed (use now L 2 in \<open>auto simp: settled_def indexed_def\<close>)
  next
    case 3
    then have "indexed t src s' i = X i" using unmet assms(2) by (simp add: indexed_def)
    then show ?thesis using 3 by (cases "X i") (auto simp: settled_def extra_id_def)
  qed
qed

lemma apply_changes_ok:
  assumes "store_ok U s" "\<not> st_closed s"
  shows "store_ok U (foldl (apply_change t src) s xs) \<and> \<not> st_closed (foldl (apply_change t src) s xs)"
  using assms
proof (induction xs arbitrary: s)
  case (Cons x xs)
  have "store_ok U (apply_change t src s x) \<and> \<not> st_closed (apply_change t src s x)"
    using Cons.prems
    by (cases x) (auto simp: apply_change_def Let_def put_one_ok remove_one_ok permit_one_ok
        put_one_fields remove_one_fields permit_one_fields)
  then show ?case using Cons.IH by simp
qed simp

lemma Reconcile_applied:
  assumes "calm E" "walks ord" "store_ok U s" "\<not> st_closed s" "t \<noteq> ''''"
    and "cn_Enumerate c = Some (listed, None)" "cn_Fetch c = Some fetch" "\<forall>i e. fetch i \<noteq> FetchFailed e"
    and "Reconcile E (mem_pipeline ord bs) t (Some c) (s, m) = (rec, err, (s', m'))"
    and "L = listing listed" "X = indexed t (cn_Source c) s"
  shows "err = None \<and> store_ok U s' \<and> \<not> st_closed s' \<and> settled L X fetch t (cn_Source c) i (indexed t (cn_Source c) s' i) \<and>
    (\<not> differs L X i \<longrightarrow> \<not> extra_id L X i \<longrightarrow> fmlookup (st_docs s') i = fmlookup (st_docs s) i)"
proof -
  have docs: "docs_ok s" using assms(3) by (simp add: store_ok_def)
  from swept_applies [OF assms(1,2) docs assms(4,7,8,10,11)]
  obtain rec' r ats where sw: "swept ord bs E t c listed s m = (rec', None, r)"
    and ats: "length ats = length (repairs L X fetch)" "distinct (map (\<lambda>ch. doc_ID (cg_Document ch)) (repairs L X fetch))"
      "fst (ru_world r) = foldl (apply_change t (cn_Source c)) s (zip (repairs L X fetch) ats)"
    by blast
  from Reconcile_swept [OF assms(1,2) docs assms(4-6) sw] assms(9)
  have "err = None" "ru_world r = (s', m')" by auto
  note fin = comparison_found(6-9) [OF assms(2) docs, where t = t and src = "cn_Source c" and listed = listed,
      folded assms(10,11)]
  have s': "s' = foldl (apply_change t (cn_Source c)) s (zip (repairs L X fetch) ats)"
    using ats(3) \<open>ru_world r = (s', m')\<close> by simp
  note repairs_settle [OF docs assms(11,10) fin(1,2,3,4) ats(2,1) s', of i]
  moreover have "store_ok U s' \<and> \<not> st_closed s'" unfolding s' by (rule apply_changes_ok [OF assms(3,4)])
  ultimately show ?thesis using \<open>err = None\<close> by blast
qed


text \<open>
  Nothing is deleted, and nothing else is written, on the strength of a listing that did not
  finish, of the source or of the index, whatever the store and the source.
\<close>

theorem Reconcile_partial:
  assumes "cn_Enumerate c = Some (listed, Some e) \<or>
    (\<exists>m. pl_maint p = Some m \<and> snd (mt_Inventory m (ie_ctx E 1) t (cn_Source c) w) \<noteq> None)"
  shows "snd (snd (Reconcile E p t (Some c) w)) = w \<and> fst (snd (Reconcile E p t (Some c) w)) \<noteq> None"
  using assms
  by (auto simp: Reconcile_def Let_def split: option.splits prod.splits)

text \<open>
  Repair is complete: when the source answers every fetch with the document at the revision
  it listed, a second sweep over the same listing finds no drift.
\<close>

theorem Reconcile_settles:
  assumes "calm E" "walks ord" "store_ok U s" "\<not> st_closed s" "t \<noteq> ''''"
    and "cn_Enumerate c = Some (listed, None)" "cn_Fetch c = Some fetch"
    and "\<forall>i. \<exists>d. fetch i = Fetched d \<and> fmlookup (listing listed) i \<in> {None, Some '''', Some (doc_SourceUpdate d)}"
    and "Reconcile E (mem_pipeline ord bs) t (Some c) (s, m) = (rec, err, (s', m'))"
    and "calm E'" "Reconcile E' (mem_pipeline ord bs') t (Some c) (s', m') = (rec', err', w)"
  shows "Drift rec' = 0"
proof -
  let ?L = "listing listed" and ?X = "indexed t (cn_Source c) s" and ?Y = "indexed t (cn_Source c) s'"
  have no_fail: "\<forall>i e. fetch i \<noteq> FetchFailed e"
  proof (intro allI)
    fix i e
    obtain d where "fetch i = Fetched d" using assms(8) by blast
    then show "fetch i \<noteq> FetchFailed e" by simp
  qed
  note applied = Reconcile_applied [OF assms(1-7) no_fail assms(9) refl refl]
  have ok: "docs_ok s'" "\<not> st_closed s'" using applied by (simp_all add: store_ok_def)
  have same: "\<not> missing_id ?L ?Y i \<and> \<not> stale_id ?L ?Y i \<and> \<not> extra_id ?L ?Y i" for i
  proof -
    obtain d where d: "fetch i = Fetched d" "fmlookup ?L i \<in> {None, Some '''', Some (doc_SourceUpdate d)}"
      using assms(8) by blast
    have set: "settled ?L ?X fetch t (cn_Source c) i (?Y i)" using applied [of i] by blast
    show ?thesis
    proof (cases "fmlookup ?L i = None")
      case True
      then show ?thesis using set by (auto simp: settled_def missing_id_def stale_id_def extra_id_def)
    next
      case L: False
      show ?thesis
      proof (cases "differs ?L ?X i")
        case True
        then obtain at ow where "?Y i = Some (standing t (cn_Source c) i d at ow)"
          using set L d(1) by (auto simp: settled_def)
        then show ?thesis using d(2) L by (auto simp: missing_id_def stale_id_def extra_id_def standing_def)
      next
        case False
        then have "?Y i = ?X i" using set L by (simp add: settled_def)
        then show ?thesis using False L by (auto simp: differs_def missing_id_def stale_id_def extra_id_def)
      qed
    qed
  qed
  have "found {i. False} = no_discrepancies" by (simp add: found_def no_discrepancies_def)
  then show ?thesis
    using sweep_report [OF assms(10,2) ok assms(5,6,11) refl refl] same
    by (simp add: Drift_def no_discrepancies_def)
qed

section \<open>A sweep with one document of each kind\<close>

definition ex_doc_at :: "string \<Rightarrow> string \<Rightarrow> document" where
  "ex_doc_at i v = (docWithID i)\<lparr>doc_SourceUpdate := v, doc_Permissions := ex_open_to_all, doc_Tenant := ''acme'', doc_Source := ''wiki''\<rparr>"

definition ex_sweep :: source_connector where
  "ex_sweep =
     \<lparr>cn_Source = ''wiki'', cn_Sync = (\<lambda>_. ([], Inr zero_cursor)),
      cn_Enumerate = Some ([\<lparr>si_ID = ''d1'', si_Version = ''2''\<rparr>, \<lparr>si_ID = ''d2'', si_Version = ''2''\<rparr>], None),
      cn_Fetch = Some (\<lambda>i. Fetched (ex_doc_at i ''2'')), cn_Counters = None\<rparr>"

definition ex_index :: memstore where
  "ex_index = put_one (put_one New (ex_doc_at ''d1'' ''1'')) (ex_doc_at ''d3'' ''1'')"

lemma ex_index_ok: "store_ok U ex_index" "\<not> st_closed ex_index"
proof -
  have new: "\<not> st_closed New" by (simp add: New_def)
  have id: "doc_ID (ex_doc_at i v) = i" for i v by (simp add: ex_doc_at_def docWithID_def)
  have "store_ok U (put_one New (ex_doc_at ''d1'' ''1''))"
    by (rule put_one_ok [OF store_ok_New new]) (simp add: id)
  then show "store_ok U ex_index" unfolding ex_index_def
    by (rule put_one_ok) (simp_all add: id put_one_fields new)
  show "\<not> st_closed ex_index" by (simp add: ex_index_def put_one_fields new)
qed

lemma ex_sweep_ran:
  obtains rec err s' m' where "Reconcile ex_env (mem_pipeline id 2) ''acme'' (Some ex_sweep) (ex_index, m) = (rec, err, (s', m'))"
  by (metis prod.collapse)

lemma ex_env_calm: "calm ex_env" by (simp add: calm_def ex_env_def)

lemma walks_id: "walks id" by (simp add: walks_def)

lemma ex_sweep_simps [simp]:
  "cn_Enumerate ex_sweep = Some ([\<lparr>si_ID = ''d1'', si_Version = ''2''\<rparr>, \<lparr>si_ID = ''d2'', si_Version = ''2''\<rparr>], None)"
  "cn_Fetch ex_sweep = Some (\<lambda>i. Fetched (ex_doc_at i ''2''))" "cn_Source ex_sweep = ''wiki''"
  by (simp_all add: ex_sweep_def)

lemma ex_listing: "listing [\<lparr>si_ID = ''d1'', si_Version = ''2''\<rparr>, \<lparr>si_ID = ''d2'', si_Version = ''2''\<rparr>] =
    fmupd ''d2'' ''2'' (fmupd ''d1'' ''2'' fmempty)"
  by (simp add: listing_def note_item_def)

lemma ex_indexed: "indexed ''acme'' ''wiki'' ex_index i =
    (if i = ''d1'' then Some (ex_doc_at ''d1'' ''1'') else if i = ''d3'' then Some (ex_doc_at ''d3'' ''1'') else None)"
  by (simp add: indexed_def ex_index_def put_one_fields ex_doc_at_def docWithID_def corrected_def New_def)

theorem Reconcile_finds_witness:
  "let rec = fst (Reconcile ex_env (mem_pipeline id 2) ''acme'' (Some ex_sweep) (ex_index, fmempty))
   in rc_Extra rec = \<lparr>dp_Count = 1, dp_IDs = [''d3'']\<rparr> \<and> rc_Missing rec = \<lparr>dp_Count = 1, dp_IDs = [''d2'']\<rparr>"
proof -
  obtain rec err s' m' where run: "Reconcile ex_env (mem_pipeline id 2) ''acme'' (Some ex_sweep) (ex_index, fmempty) = (rec, err, (s', m'))"
    by (rule ex_sweep_ran)
  have docs: "docs_ok ex_index" using ex_index_ok(1) by (simp add: store_ok_def)
  note finds = Reconcile_finds [OF ex_env_calm walks_id docs ex_index_ok(2) _ ex_sweep_simps(1) run refl refl]
  have "{i. extra_id (fmupd ''d2'' ''2'' (fmupd ''d1'' ''2'' fmempty)) (indexed ''acme'' ''wiki'' ex_index) i} = {''d3''}"
    "{i. missing_id (fmupd ''d2'' ''2'' (fmupd ''d1'' ''2'' fmempty)) (indexed ''acme'' ''wiki'' ex_index) i} = {''d2''}"
    by (auto simp: extra_id_def missing_id_def ex_indexed split: if_splits)
  then show ?thesis
    using finds unfolding run ex_listing ex_sweep_simps(3) by (simp add: found_def SampleSize_def)
qed


theorem Reconcile_partial_witness:
  "snd (snd (Reconcile ex_env (mem_pipeline id 2) ''acme''
     (Some (ex_sweep\<lparr>cn_Enumerate := Some ([], Some DeadlineExceeded)\<rparr>)) (ex_index, fmempty))) = (ex_index, fmempty)"
  using Reconcile_partial [of "ex_sweep\<lparr>cn_Enumerate := Some ([], Some DeadlineExceeded)\<rparr>" "[]" DeadlineExceeded
      "mem_pipeline id 2" ex_env "''acme''" "(ex_index, fmempty)"]
  by simp

theorem Reconcile_settles_witness:
  "let p = mem_pipeline id 2; w = snd (snd (Reconcile ex_env p ''acme'' (Some ex_sweep) (ex_index, fmempty)))
   in Drift (fst (Reconcile ex_env p ''acme'' (Some ex_sweep) w)) = 0"
proof -
  obtain rec err s' m' where run: "Reconcile ex_env (mem_pipeline id 2) ''acme'' (Some ex_sweep) (ex_index, fmempty) = (rec, err, (s', m'))"
    by (rule ex_sweep_ran)
  obtain rec' err' w where again: "Reconcile ex_env (mem_pipeline id 2) ''acme'' (Some ex_sweep) (s', m') = (rec', err', w)"
    by (metis prod.collapse)
  have answers: "\<forall>i. \<exists>d. Fetched (ex_doc_at i ''2'') = Fetched d \<and>
      fmlookup (listing [\<lparr>si_ID = ''d1'', si_Version = ''2''\<rparr>, \<lparr>si_ID = ''d2'', si_Version = ''2''\<rparr>]) i \<in>
        {None, Some '''', Some (doc_SourceUpdate d)}"
    by (simp add: ex_listing ex_doc_at_def docWithID_def)
  show ?thesis
    using Reconcile_settles [OF ex_env_calm walks_id ex_index_ok _ ex_sweep_simps(1,2) answers run ex_env_calm again]
    by (simp add: run again)
qed

end
