(* ===== verification/Recheck.thy ===== *)
theory Recheck
  imports Cache_LRU_Facts Acl
begin

text \<open>
  Package \<open>recheck\<close>: asking the source whether somebody may still read a document, at the moment
  the answer is about to be shown. A call groups the page by source, answers from its cache what it
  can, asks every other source at once, and takes what comes back before the deadline. What the
  sources answer, in which order the answers arrive and when the deadline or a cancelled context
  ends the wait is the environment of the call; the answers that arrive are a list of sources, and
  the wait ends when it is used up. The clock is read through the environment too.
\<close>

section \<open>Sets of checkers\<close>

definition DefaultTimeout :: duration where "DefaultTimeout = 20 * 1000000"
definition DefaultTTL :: duration where "DefaultTTL = 10 * 1000000000"
definition DefaultCapacity :: int where "DefaultCapacity = 50000"

record page_item =
  pi_ID :: string
  pi_Source :: string

record check_stats =
  ck_Checked :: "64 word"
  ck_Denied :: "64 word"
  ck_Failed :: "64 word"

definition zero_checks :: check_stats where
  "zero_checks = \<lparr>ck_Checked = 0, ck_Denied = 0, ck_Failed = 0\<rparr>"

text \<open>A registered checker is a name for it; what it answers is the environment's.\<close>

record recheck_set =
  re_checkers :: "(string, nat) fmap"
  re_counts :: "(string, check_stats) fmap"
  re_timeout :: duration
  re_answers :: "bool cache"

record recheck_config =
  rf_timeout :: duration
  rf_ttl :: duration
  rf_capacity :: int

definition WithTimeout :: "duration \<Rightarrow> recheck_config \<Rightarrow> recheck_config" where
  "WithTimeout d c = c\<lparr>rf_timeout := d\<rparr>"

definition WithAnswerCache :: "int \<Rightarrow> duration \<Rightarrow> recheck_config \<Rightarrow> recheck_config" where
  "WithAnswerCache capacity ttl c = c\<lparr>rf_capacity := capacity, rf_ttl := ttl\<rparr>"

definition NewSet :: "(recheck_config \<Rightarrow> recheck_config) list \<Rightarrow> recheck_set" where
  "NewSet opts =
     (let c = foldl (\<lambda>c opt. opt c)
            \<lparr>rf_timeout = DefaultTimeout, rf_ttl = DefaultTTL, rf_capacity = DefaultCapacity\<rparr> opts
      in \<lparr>re_checkers = fmempty, re_counts = fmempty, re_timeout = rf_timeout c,
          re_answers = New_cache (rf_capacity c) (rf_ttl c)\<rparr>)"

definition Add :: "string \<Rightarrow> nat option \<Rightarrow> recheck_set \<Rightarrow> recheck_set" where
  "Add source c s =
     (case c of
        None \<Rightarrow> s\<lparr>re_checkers := fmdrop source (re_checkers s)\<rparr>
      | Some c \<Rightarrow>
          let s = s\<lparr>re_checkers := fmupd source c (re_checkers s)\<rparr>
          in (case fmlookup (re_counts s) source of
                Some _ \<Rightarrow> s
              | None \<Rightarrow> s\<lparr>re_counts := fmupd source zero_checks (re_counts s)\<rparr>))"

definition Sources :: "recheck_set \<Rightarrow> string list" where
  "Sources s = map_keys (re_checkers s)"

definition Checks :: "recheck_set \<Rightarrow> (string, check_stats) fmap" where
  "Checks s = re_counts s"

definition AnswerStats :: "recheck_set \<Rightarrow> cache_stats" where
  "AnswerStats s = Cache_Stats (re_answers s)"

definition counter :: "string \<Rightarrow> recheck_set \<Rightarrow> check_stats" where
  "counter source s = (case fmlookup (re_counts s) source of Some c \<Rightarrow> c | None \<Rightarrow> zero_checks)"

definition record_check :: "string \<Rightarrow> bool \<Rightarrow> recheck_set \<Rightarrow> recheck_set" where
  "record_check source allowed s =
     (let c = counter source s;
          c = c\<lparr>ck_Checked := ck_Checked c + 1\<rparr>;
          c = (if \<not> allowed then c\<lparr>ck_Denied := ck_Denied c + 1\<rparr> else c)
      in s\<lparr>re_counts := fmupd source c (re_counts s)\<rparr>)"

definition fail_check :: "string \<Rightarrow> recheck_set \<Rightarrow> recheck_set" where
  "fail_check source s =
     (let c = counter source s
      in s\<lparr>re_counts := fmupd source
            (c\<lparr>ck_Checked := ck_Checked c + 1, ck_Failed := ck_Failed c + 1\<rparr>) (re_counts s)\<rparr>)"

definition answer_key :: "principal option \<Rightarrow> string \<Rightarrow> string \<Rightarrow> string" where
  "answer_key p source i =
     (case p of
        None \<Rightarrow> [CHR 0x00] @ source @ [CHR 0x00] @ i
      | Some q \<Rightarrow> p_Tenant q @ [CHR 0x00] @ p_Subject q @ [CHR 0x00] @ source @ [CHR 0x00] @ i)"

section \<open>One page\<close>

text \<open>
  What one source did with the question: its checker was taken away before it was asked, the check
  failed, or it answered for some of the ids.
\<close>

datatype checked = Withdrawn | Errored | Said "(string, bool) fmap"

record recheck_env =
  rx_answer :: "string \<Rightarrow> checked"
  rx_arrivals :: "string list \<Rightarrow> string list"
  rx_clock :: "nat \<Rightarrow> gtime"

record page =
  pa_out :: "(string, bool) fmap"
  pa_ask :: "(string, string list) fmap"
  pa_set :: recheck_set
  pa_looks :: nat

definition ask_for :: "(string, string list) fmap \<Rightarrow> string \<Rightarrow> string list" where
  "ask_for ask source = (case fmlookup ask source of None \<Rightarrow> [] | Some ids \<Rightarrow> ids)"

definition group_item :: "recheck_env \<Rightarrow> principal option \<Rightarrow> page_item \<Rightarrow> page \<Rightarrow> page" where
  "group_item E p it g =
     (if fmlookup (pa_out g) (pi_ID it) \<noteq> None then g
      else if fmlookup (re_checkers (pa_set g)) (pi_Source it) = None
      then g\<lparr>pa_out := fmupd (pi_ID it) True (pa_out g)\<rparr>
      else
        let (got, c) = Cache_Get (re_answers (pa_set g)) (answer_key p (pi_Source it) (pi_ID it)) (rx_clock E (pa_looks g));
            g = g\<lparr>pa_set := (pa_set g)\<lparr>re_answers := c\<rparr>, pa_looks := Suc (pa_looks g)\<rparr>
        in (case got of
              Some allowed \<Rightarrow>
                g\<lparr>pa_out := fmupd (pi_ID it) allowed (pa_out g),
                  pa_set := record_check (pi_Source it) allowed (pa_set g)\<rparr>
            | None \<Rightarrow>
                g\<lparr>pa_out := fmupd (pi_ID it) False (pa_out g),
                  pa_ask := fmupd (pi_Source it) (ask_for (pa_ask g) (pi_Source it) @ [pi_ID it]) (pa_ask g)\<rparr>))"

text \<open>What an answer says of one id; a withdrawn checker stands for every id, allowed.\<close>

definition said_of :: "checked \<Rightarrow> string list \<Rightarrow> string \<Rightarrow> bool option" where
  "said_of a ids i =
     (case a of
        Withdrawn \<Rightarrow> if i \<in> set ids then Some True else None
      | Errored \<Rightarrow> None
      | Said m \<Rightarrow> fmlookup m i)"

definition take_id :: "recheck_env \<Rightarrow> principal option \<Rightarrow> string \<Rightarrow> page \<Rightarrow> string \<Rightarrow> page" where
  "take_id E p source g i =
     (case said_of (rx_answer E source) (ask_for (pa_ask g) source) i of
        Some allowed \<Rightarrow>
          let g = g\<lparr>pa_out := fmupd i allowed (pa_out g)\<rparr>;
              c = Cache_Put (re_answers (pa_set g)) (answer_key p source i) allowed (rx_clock E (pa_looks g));
              g = g\<lparr>pa_set := (pa_set g)\<lparr>re_answers := c\<rparr>, pa_looks := Suc (pa_looks g)\<rparr>
          in g\<lparr>pa_set := record_check source allowed (pa_set g)\<rparr>
      | None \<Rightarrow>
          let g = g\<lparr>pa_out := fmupd i False (pa_out g)\<rparr>
          in g\<lparr>pa_set := fail_check source (pa_set g)\<rparr>)"

definition take_answer :: "recheck_env \<Rightarrow> principal option \<Rightarrow> string \<Rightarrow> page \<Rightarrow> page" where
  "take_answer E p source g = foldl (take_id E p source) g (ask_for (pa_ask g) source)"

definition expire_id :: "(string, bool) fmap \<Rightarrow> string \<Rightarrow> recheck_set \<Rightarrow> string \<Rightarrow> recheck_set" where
  "expire_id out source s i = (if fmlookup out i \<noteq> Some True then fail_check source s else s)"

definition expire :: "(string, string list) fmap \<Rightarrow> (string, bool) fmap \<Rightarrow> recheck_set \<Rightarrow> recheck_set" where
  "expire ask out s =
     foldl (\<lambda>s source. foldl (expire_id out source) s (ask_for ask source)) s (map_keys ask)"

fun wait_answers :: "recheck_env \<Rightarrow> principal option \<Rightarrow> nat \<Rightarrow> string list \<Rightarrow> page \<Rightarrow> page" where
  "wait_answers E p 0 arrivals g = g"
| "wait_answers E p (Suc n) [] g = g\<lparr>pa_set := expire (pa_ask g) (pa_out g) (pa_set g)\<rparr>"
| "wait_answers E p (Suc n) (source # arrivals) g = wait_answers E p n arrivals (take_answer E p source g)"

definition Allowed ::
  "recheck_env \<Rightarrow> principal option \<Rightarrow> page_item list \<Rightarrow> recheck_set \<Rightarrow> (string, bool) fmap \<times> recheck_set"
where
  "Allowed E p items s =
     (if items = [] then (fmempty, s)
      else
        let g = foldl (\<lambda>g it. group_item E p it g)
              \<lparr>pa_out = fmempty, pa_ask = fmempty, pa_set = s, pa_looks = 0\<rparr> items
        in if pa_ask g = fmempty then (pa_out g, pa_set g)
           else
             let g = wait_answers E p (fcard (fmdom (pa_ask g))) (rx_arrivals E (map_keys (pa_ask g))) g
             in (pa_out g, pa_set g))"

end
