(* ===== verification/Recheck_Facts.thy ===== *)
theory Recheck_Facts
  imports Recheck
begin

text \<open>
  What a page that was rechecked may show. Every id asked about is answered for; an id whose
  source was asked is shown exactly when that source's answer arrived in time and said yes; and
  over any sequence of pages and registrations, an id that is shown is one whose source has no
  checker, or one the source allowed for that very person less than the lifetime of an answer ago.
\<close>

section \<open>The grouping\<close>

abbreviation start_page :: "recheck_set \<Rightarrow> page" where
  "start_page s \<equiv> \<lparr>pa_out = fmempty, pa_ask = fmempty, pa_set = s, pa_looks = 0\<rparr>"

definition grouped :: "recheck_env \<Rightarrow> principal option \<Rightarrow> page_item list \<Rightarrow> recheck_set \<Rightarrow> page" where
  "grouped E p items s = foldl (\<lambda>g it. group_item E p it g) (start_page s) items"

text \<open>
  The ids of the questions: each is of an item, denied so far, under one source that has a
  checker, and asked once.
\<close>

definition asks_ok :: "page_item list \<Rightarrow> page \<Rightarrow> bool" where
  "asks_ok items g \<longleftrightarrow>
     fset (fmdom (pa_out g)) = pi_ID ` set items \<and>
     (\<forall>src i. i \<in> set (ask_for (pa_ask g) src) \<longrightarrow>
        fmlookup (pa_out g) i = Some False \<and> (\<exists>it \<in> set items. pi_ID it = i \<and> pi_Source it = src)) \<and>
     (\<forall>src src' i. i \<in> set (ask_for (pa_ask g) src) \<longrightarrow> i \<in> set (ask_for (pa_ask g) src') \<longrightarrow> src = src') \<and>
     (\<forall>src. distinct (ask_for (pa_ask g) src)) \<and>
     (\<forall>src. fmlookup (pa_ask g) src \<noteq> None \<longrightarrow> ask_for (pa_ask g) src \<noteq> [])"

lemma record_check_simps [simp]:
  "re_checkers (record_check src b s) = re_checkers s" "re_answers (record_check src b s) = re_answers s"
  "re_checkers (fail_check src s) = re_checkers s" "re_answers (fail_check src s) = re_answers s"
  by (simp_all add: record_check_def fail_check_def Let_def)

lemma ask_for_upd: "ask_for (fmupd src ids ask) src' = (if src' = src then ids else ask_for ask src')"
  by (simp add: ask_for_def)

lemma group_item_ask:
  "group_item E p it g =
     (if fmlookup (pa_out g) (pi_ID it) \<noteq> None then g
      else if fmlookup (re_checkers (pa_set g)) (pi_Source it) = None
      then g\<lparr>pa_out := fmupd (pi_ID it) True (pa_out g)\<rparr>
      else
        let k = answer_key p (pi_Source it) (pi_ID it); got = Cache_Get (re_answers (pa_set g)) k (rx_clock E (pa_looks g));
            s = (pa_set g)\<lparr>re_answers := snd got\<rparr>
        in (case fst got of
              Some allowed \<Rightarrow>
                \<lparr>pa_out = fmupd (pi_ID it) allowed (pa_out g), pa_ask = pa_ask g,
                 pa_set = record_check (pi_Source it) allowed s, pa_looks = Suc (pa_looks g)\<rparr>
            | None \<Rightarrow>
                \<lparr>pa_out = fmupd (pi_ID it) False (pa_out g),
                 pa_ask = fmupd (pi_Source it) (ask_for (pa_ask g) (pi_Source it) @ [pi_ID it]) (pa_ask g),
                 pa_set = s, pa_looks = Suc (pa_looks g)\<rparr>))"
  by (simp add: group_item_def Let_def split: prod.split option.split)

lemma asks_ok_group:
  assumes "asks_ok prior g"
  shows "asks_ok (prior @ [it]) (group_item E p it g)"
proof (cases "fmlookup (pa_out g) (pi_ID it)")
  case (Some b)
  then have "pi_ID it \<in> fset (fmdom (pa_out g))" by (rule fmdomI)
  then have "pi_ID it \<in> pi_ID ` set prior" using assms by (simp add: asks_ok_def)
  then show ?thesis using assms Some by (auto simp: asks_ok_def group_item_ask)
next
  case None
  then have new: "pi_ID it \<notin> set (ask_for (pa_ask g) src)" for src
    using assms by (auto simp: asks_ok_def)
  show ?thesis
    using assms None new
    by (simp add: group_item_ask asks_ok_def Let_def ask_for_upd split: option.split) blast
qed

lemma asks_ok_start: "asks_ok [] (start_page s)"
  by (simp add: asks_ok_def ask_for_def)

lemma grouped_ok: "asks_ok items (grouped E p items s)"
proof (induction items rule: rev_induct)
  case (snoc it items)
  from asks_ok_group [OF this, of it E p] show ?case by (simp add: grouped_def)
qed (simp add: grouped_def asks_ok_start)

section \<open>Taking the answers\<close>

lemma take_id_simps [simp]:
  "pa_ask (take_id E p source g i) = pa_ask g"
  "pa_out (take_id E p source g i) =
     fmupd i (said_of (rx_answer E source) (ask_for (pa_ask g) source) i = Some True) (pa_out g)"
  "re_checkers (pa_set (take_id E p source g i)) = re_checkers (pa_set g)"
  by (simp_all add: take_id_def Let_def split: option.split)

lemma take_ids_out:
  "pa_ask (foldl (take_id E p source) g ids) = pa_ask g"
  "fmlookup (pa_out (foldl (take_id E p source) g ids)) i =
     (if i \<in> set ids then Some (said_of (rx_answer E source) (ask_for (pa_ask g) source) i = Some True)
      else fmlookup (pa_out g) i)"
  "re_checkers (pa_set (foldl (take_id E p source) g ids)) = re_checkers (pa_set g)"
  by (induction ids arbitrary: g) auto

lemma take_answer_out [simp]:
  "pa_ask (take_answer E p source g) = pa_ask g"
  "fmlookup (pa_out (take_answer E p source g)) i =
     (if i \<in> set (ask_for (pa_ask g) source)
      then Some (said_of (rx_answer E source) (ask_for (pa_ask g) source) i = Some True)
      else fmlookup (pa_out g) i)"
  "re_checkers (pa_set (take_answer E p source g)) = re_checkers (pa_set g)"
  by (simp_all add: take_answer_def take_ids_out)

text \<open>What a source that was asked said of an id.\<close>

definition said :: "recheck_env \<Rightarrow> (string, string list) fmap \<Rightarrow> string \<Rightarrow> string \<Rightarrow> bool option" where
  "said E ask src i = said_of (rx_answer E src) (ask_for ask src) i"

lemma wait_answers_ask [simp]: "pa_ask (wait_answers E p n arrivals g) = pa_ask g"
  by (induction E p n arrivals g rule: wait_answers.induct) simp_all

lemma wait_answers_out:
  assumes "length arrivals \<le> n" "distinct arrivals"
    and "\<And>src src'. i \<in> set (ask_for (pa_ask g) src) \<Longrightarrow> i \<in> set (ask_for (pa_ask g) src') \<Longrightarrow> src = src'"
  shows "fmlookup (pa_out (wait_answers E p n arrivals g)) i =
    (if \<exists>src \<in> set arrivals. i \<in> set (ask_for (pa_ask g) src)
     then Some (\<exists>src \<in> set arrivals. i \<in> set (ask_for (pa_ask g) src) \<and> said E (pa_ask g) src i = Some True)
     else fmlookup (pa_out g) i)"
  using assms
proof (induction E p n arrivals g rule: wait_answers.induct)
  case (3 E p n source arrivals g)
  have "fmlookup (pa_out (wait_answers E p n arrivals (take_answer E p source g))) i =
    (if \<exists>src \<in> set arrivals. i \<in> set (ask_for (pa_ask g) src)
     then Some (\<exists>src \<in> set arrivals. i \<in> set (ask_for (pa_ask g) src) \<and> said E (pa_ask g) src i = Some True)
     else fmlookup (pa_out (take_answer E p source g)) i)"
    using 3(1) 3(2-4) by simp
  then show ?case using 3(3,4) by (auto simp: said_def)
qed simp_all

section \<open>What a page may show\<close>

text \<open>Each source that was asked answers at most once, and only those that were asked do.\<close>

definition answers_once :: "recheck_env \<Rightarrow> bool" where
  "answers_once E \<longleftrightarrow> (\<forall>ks. distinct ks \<longrightarrow> distinct (rx_arrivals E ks) \<and> set (rx_arrivals E ks) \<subseteq> set ks)"

definition asked :: "recheck_env \<Rightarrow> principal option \<Rightarrow> page_item list \<Rightarrow> recheck_set \<Rightarrow> (string, string list) fmap" where
  "asked E p items s = pa_ask (grouped E p items s)"

definition arrived :: "recheck_env \<Rightarrow> principal option \<Rightarrow> page_item list \<Rightarrow> recheck_set \<Rightarrow> string list" where
  "arrived E p items s = rx_arrivals E (map_keys (asked E p items s))"

definition waited :: "recheck_env \<Rightarrow> principal option \<Rightarrow> page_item list \<Rightarrow> recheck_set \<Rightarrow> page" where
  "waited E p items s =
     wait_answers E p (fcard (fmdom (asked E p items s))) (arrived E p items s) (grouped E p items s)"

lemma ask_for_empty [simp]: "ask_for fmempty src = []"
  by (simp add: ask_for_def)

lemma wait_answers_0: "wait_answers E p (fcard {||}) arrivals g = g"
  by (simp add: fcard.rep_eq)

lemma Allowed_waited:
  assumes "items \<noteq> []"
  shows "Allowed E p items s = (pa_out (waited E p items s), pa_set (waited E p items s))"
  using assms
  by (auto simp: Allowed_def waited_def arrived_def asked_def grouped_def [symmetric] wait_answers_0 Let_def)

lemma card_keys: "fcard (fmdom (m :: ('a::linorder, 'b) fmap)) = length (map_keys m)"
  by (simp add: map_keys_def fcard.rep_eq)

lemma arrived_ok:
  assumes "answers_once E"
  shows "distinct (arrived E p items s)" "set (arrived E p items s) \<subseteq> set (map_keys (asked E p items s))"
    "length (arrived E p items s) \<le> fcard (fmdom (asked E p items s))"
proof -
  show d: "distinct (arrived E p items s)" and sub: "set (arrived E p items s) \<subseteq> set (map_keys (asked E p items s))"
    using assms sorted_keys(2) [of "asked E p items s"] unfolding answers_once_def arrived_def by blast+
  show "length (arrived E p items s) \<le> fcard (fmdom (asked E p items s))"
    using card_mono [OF _ sub] d by (simp add: distinct_card card_keys [symmetric] fcard.rep_eq)
qed

lemma waited_out:
  assumes "answers_once E"
  shows "fmlookup (pa_out (waited E p items s)) i =
    (if \<exists>src \<in> set (arrived E p items s). i \<in> set (ask_for (asked E p items s) src)
     then Some (\<exists>src \<in> set (arrived E p items s). i \<in> set (ask_for (asked E p items s) src) \<and>
       said E (asked E p items s) src i = Some True)
     else fmlookup (pa_out (grouped E p items s)) i)"
  unfolding waited_def asked_def
  using wait_answers_out [OF arrived_ok(3,1) [OF assms, unfolded asked_def], of i] grouped_ok [of items E p s]
  by (auto simp: asks_ok_def)


section \<open>The cache of answers\<close>

text \<open>
  The cache of answers holds only what some \<open>K\<close> says was stored, each entry for one lifetime.
\<close>

definition held :: "int \<Rightarrow> duration \<Rightarrow> (string \<times> bool \<times> gtime) set \<Rightarrow> bool cache \<Rightarrow> bool" where
  "held per ttl K c \<longleftrightarrow>
     (if ttl = Off then ca_ttl c = Off
      else cache_inv per ttl \<lparr>wo_cache = c, wo_running = [], wo_log = K\<rparr>)"

definition lifetime :: "duration \<Rightarrow> bool" where
  "lifetime ttl \<longleftrightarrow> 0 < ttl \<or> ttl = Forever \<or> ttl = Off"

definition in_time :: "duration \<Rightarrow> gtime \<Rightarrow> gtime \<Rightarrow> bool" where
  "in_time ttl t now \<longleftrightarrow> 0 < t \<and> (ttl = Forever \<or> now < t + ttl)"

lemma held_new: "held (per_shard capacity) ttl {} (New_cache capacity ttl)"
  using cache_inv_start [of ttl capacity, where 'v = bool]
  by (auto simp: held_def start_world_def New_cache_def Let_def)

lemma held_get: "held per ttl K c \<Longrightarrow> held per ttl K (snd (Cache_Get c k now))"
  using cache_inv_step [OF _ cache_step.Get, of per ttl "\<lparr>wo_cache = c, wo_running = [], wo_log = K\<rparr>" k now]
  by (auto simp: held_def Cache_Get_def split: if_splits prod.splits)

lemma held_put:
  assumes "held per ttl K c" "0 < now" "(k, v, now) \<in> K"
  shows "held per ttl K (Cache_Put c k v now)"
  using assms cache_inv_step [OF _ cache_step.Put, of per ttl "\<lparr>wo_cache = c, wo_running = [], wo_log = K\<rparr>" now k v]
  by (auto simp: held_def Cache_Put_def insert_absorb split: if_splits prod.splits)

lemma held_mono: "held per ttl K c \<Longrightarrow> K \<subseteq> K' \<Longrightarrow> held per ttl K' c"
  by (auto simp: held_def cache_inv_def shard_inv_def fresh_def split: if_splits) blast

lemma held_hit:
  assumes "held per ttl K c" "lifetime ttl" "fst (Cache_Get c k now) = Some v"
  shows "\<exists>t. (k, v, t) \<in> K \<and> in_time ttl t now"
proof -
  have on: "ttl \<noteq> Off"
    using assms(1,3) by (auto simp: held_def Cache_Get_def split: if_splits)
  then have "ca_ttl c = ttl" using assms(1) by (simp add: held_def cache_inv_def)
  then have "fst (shard_get (the_shard c k) k now) = Some v"
    using on assms(3) by (auto simp: Cache_Get_def split: prod.splits)
  then show ?thesis
    using cache_inv_hit [of per ttl "\<lparr>wo_cache = c, wo_running = [], wo_log = K\<rparr>" k now v] assms on
    by (auto simp: held_def lifetime_def in_time_def)
qed

section \<open>What was said\<close>

definition who :: "principal option \<Rightarrow> (string \<times> string) option" where
  "who p = map_option (\<lambda>q. (p_Tenant q, p_Subject q)) p"

text \<open>An answer of a source: for whom, the source, the id, what it said and when it was taken.\<close>

type_synonym answer_log = "((string \<times> string) option \<times> string \<times> string \<times> bool \<times> gtime) set"

definition answers_of ::
  "recheck_env \<Rightarrow> principal option \<Rightarrow> page_item list \<Rightarrow> recheck_set \<Rightarrow> answer_log"
where
  "answers_of E p items s =
     {(w, src, i, b, t). w = who p \<and> src \<in> set (arrived E p items s) \<and>
        i \<in> set (ask_for (asked E p items s) src) \<and> said E (asked E p items s) src i = Some b \<and>
        t \<in> range (rx_clock E)}"

definition key_of :: "(string \<times> string) option \<Rightarrow> string \<Rightarrow> string \<Rightarrow> string" where
  "key_of w source i =
     (case w of None \<Rightarrow> [] | Some (t, u) \<Rightarrow> t @ [CHR 0x00] @ u) @ [CHR 0x00] @ source @ [CHR 0x00] @ i"

lemma answer_key_of: "answer_key p source i = key_of (who p) source i"
  by (simp add: answer_key_def key_of_def who_def split: option.split)

definition keyed :: "answer_log \<Rightarrow> (string \<times> bool \<times> gtime) set" where
  "keyed L = (\<lambda>(w, src, i, b, t). (key_of w src i, b, t)) ` L"

text \<open>Names without the separator of the keys.\<close>

definition plain :: "string \<Rightarrow> bool" where
  "plain x \<longleftrightarrow> CHR 0x00 \<notin> set x"

definition plain_answer :: "(string \<times> string) option \<Rightarrow> string \<Rightarrow> string \<Rightarrow> bool" where
  "plain_answer w src i \<longleftrightarrow> plain src \<and> plain i \<and> (\<forall>t u. w = Some (t, u) \<longrightarrow> plain t \<and> plain u)"

lemma unmarked: "m \<notin> set x \<Longrightarrow> m \<notin> set b \<Longrightarrow> a @ m # x = b @ m # b' @ m # y \<Longrightarrow> m \<in> set a"
  by (metis in_set_conv_decomp Un_iff split_mark set_append)

lemma key_of_inject:
  assumes "plain_answer w src i" "plain_answer w' src' i'" "key_of w src i = key_of w' src' i'"
  shows "w = w' \<and> src = src' \<and> i = i'"
proof -
  let ?m = "CHR 0x00"
  have two: "src = src' \<and> i = i'" if "plain src" "plain src'" "src @ ?m # i = src' @ ?m # i'" for src i src' i'
    using that split_mark [of ?m src src' i i'] by (simp add: plain_def)
  have mixed: False if "plain src" "plain i" "plain t" "plain u" "?m # src @ ?m # i = t @ ?m # u @ ?m # src' @ ?m # i'"
    for src i t u src' i'
    using that split_mark [of ?m "[]" t "src @ ?m # i" "u @ ?m # src' @ ?m # i'"]
      two [of src u i "src' @ ?m # i'"]
    by (auto simp: plain_def)
  show ?thesis
  proof (cases w)
    case None
    show ?thesis
    proof (cases w')
      case None
      then show ?thesis using assms \<open>w = None\<close> two [of src src' i i'] by (simp add: key_of_def plain_answer_def)
    next
      case (Some q)
      then show ?thesis
        using assms None mixed [of src i "fst q" "snd q" src' i'] by (cases q) (simp add: key_of_def plain_answer_def)
    qed
  next
    case w: (Some q)
    show ?thesis
    proof (cases w')
      case None
      then show ?thesis
        using assms w mixed [of src' i' "fst q" "snd q" src i] by (cases q) (simp add: key_of_def plain_answer_def)
    next
      case (Some r)
      then have eq: "fst q @ ?m # snd q @ ?m # src @ ?m # i = fst r @ ?m # snd r @ ?m # src' @ ?m # i'"
        using assms(3) w by (cases q; cases r) (simp add: key_of_def)
      have "plain (fst q)" "plain (snd q)" "plain (fst r)" "plain (snd r)" "plain src" "plain src'"
        using assms(1,2) w Some by (cases q; cases r; simp add: plain_answer_def)+
      then show ?thesis using eq w Some
          two [of "fst q" "fst r" "snd q @ ?m # src @ ?m # i" "snd r @ ?m # src' @ ?m # i'"]
          two [of "snd q" "snd r" "src @ ?m # i" "src' @ ?m # i'"] two [of src src' i i']
        by (simp add: prod_eq_iff)
    qed
  qed
qed

section \<open>Histories\<close>

text \<open>
  A set of checkers over time: checkers are registered and withdrawn, and pages are rechecked for
  whoever asks. What the sources said is written down beside it.
\<close>

definition plain_page :: "principal option \<Rightarrow> page_item list \<Rightarrow> bool" where
  "plain_page p items \<longleftrightarrow> (\<forall>it \<in> set items. plain_answer (who p) (pi_Source it) (pi_ID it))"

definition page_ok :: "recheck_env \<Rightarrow> principal option \<Rightarrow> page_item list \<Rightarrow> bool" where
  "page_ok E p items \<longleftrightarrow> answers_once E \<and> (\<forall>n. 0 < rx_clock E n) \<and> plain_page p items"

inductive recheck_step :: "recheck_set \<times> answer_log \<Rightarrow> recheck_set \<times> answer_log \<Rightarrow> bool" where
  Register: "recheck_step (s, L) (Add source c s, L)"
| Page: "page_ok E p items \<Longrightarrow>
    recheck_step (s, L) (snd (Allowed E p items s), L \<union> answers_of E p items s)"

definition recheck_inv :: "int \<Rightarrow> duration \<Rightarrow> recheck_set \<times> answer_log \<Rightarrow> bool" where
  "recheck_inv per ttl w \<longleftrightarrow> held per ttl (keyed (snd w)) (re_answers (fst w)) \<and>
     (\<forall>(p, src, i, b, t) \<in> snd w. plain_answer p src i)"

lemma group_item_held: "held per ttl K (re_answers (pa_set g)) \<Longrightarrow> held per ttl K (re_answers (pa_set (group_item E p it g)))"
  by (auto simp: group_item_ask Let_def held_get split: option.split)

lemma grouped_held: "held per ttl K (re_answers s) \<Longrightarrow> held per ttl K (re_answers (pa_set (grouped E p items s)))"
  by (induction items rule: rev_induct) (simp_all add: grouped_def group_item_held)

lemma take_id_held:
  assumes "held per ttl K (re_answers (pa_set g))" "\<forall>n. 0 < rx_clock E n"
    and "\<And>b n. said E (pa_ask g) src i = Some b \<Longrightarrow> (answer_key p src i, b, rx_clock E n) \<in> K"
  shows "held per ttl K (re_answers (pa_set (take_id E p src g i)))"
  using assms by (auto simp: take_id_def said_def Let_def held_put split: option.split)

lemma take_ids_held:
  assumes "held per ttl K (re_answers (pa_set g))" "\<forall>n. 0 < rx_clock E n"
    and "\<And>i b n. i \<in> set ids \<Longrightarrow> said E (pa_ask g) src i = Some b \<Longrightarrow> (answer_key p src i, b, rx_clock E n) \<in> K"
  shows "held per ttl K (re_answers (pa_set (foldl (take_id E p src) g ids)))"
  using assms
proof (induction ids arbitrary: g)
  case (Cons i ids)
  have "held per ttl K (re_answers (pa_set (take_id E p src g i)))"
    by (rule take_id_held [OF Cons.prems(1,2)]) (simp add: Cons.prems(3))
  then show ?case using Cons.IH [of "take_id E p src g i"] Cons.prems(2,3) by (simp add: said_def)
qed simp

lemma expire_simps [simp]:
  "re_answers (expire ask out s) = re_answers s" "re_checkers (expire ask out s) = re_checkers s"
proof -
  have ids: "re_answers (foldl (expire_id out src) s ids) = re_answers s \<and>
      re_checkers (foldl (expire_id out src) s ids) = re_checkers s" for src ids s
    by (induction ids arbitrary: s) (simp_all add: expire_id_def)
  have "re_answers (foldl (\<lambda>s source. foldl (expire_id out source) s (ask_for ask source)) s srcs) = re_answers s \<and>
      re_checkers (foldl (\<lambda>s source. foldl (expire_id out source) s (ask_for ask source)) s srcs) = re_checkers s" for srcs
    by (induction srcs arbitrary: s) (simp_all add: ids)
  then show "re_answers (expire ask out s) = re_answers s" "re_checkers (expire ask out s) = re_checkers s"
    by (simp_all add: expire_def)
qed

lemma wait_answers_held:
  assumes "held per ttl K (re_answers (pa_set g))" "\<forall>n. 0 < rx_clock E n"
    and "\<And>src i b n. src \<in> set arrivals \<Longrightarrow> i \<in> set (ask_for (pa_ask g) src) \<Longrightarrow> said E (pa_ask g) src i = Some b \<Longrightarrow>
      (answer_key p src i, b, rx_clock E n) \<in> K"
  shows "held per ttl K (re_answers (pa_set (wait_answers E p m arrivals g)))"
  using assms
proof (induction E p m arrivals g rule: wait_answers.induct)
  case (3 E p n source arrivals g)
  have "held per ttl K (re_answers (pa_set (take_answer E p source g)))"
    unfolding take_answer_def by (rule take_ids_held [OF 3(2,3)]) (simp add: 3(4))
  then show ?case using 3(1) 3(3,4) by simp
qed simp_all

lemma waited_held:
  assumes "held per ttl K (re_answers s)" "\<forall>n. 0 < rx_clock E n"
  shows "held per ttl (K \<union> keyed (answers_of E p items s)) (re_answers (pa_set (waited E p items s)))"
  unfolding waited_def
proof (rule wait_answers_held [OF grouped_held [OF held_mono [OF assms(1)]] assms(2)])
  fix src i b n
  assume "src \<in> set (arrived E p items s)" "i \<in> set (ask_for (pa_ask (grouped E p items s)) src)"
    "said E (pa_ask (grouped E p items s)) src i = Some b"
  then have "(who p, src, i, b, rx_clock E n) \<in> answers_of E p items s"
    by (simp add: answers_of_def asked_def)
  then show "(answer_key p src i, b, rx_clock E n) \<in> K \<union> keyed (answers_of E p items s)"
    by (force simp: keyed_def answer_key_of)
qed simp

lemma group_item_checkers [simp]: "re_checkers (pa_set (group_item E p it g)) = re_checkers (pa_set g)"
  by (simp add: group_item_ask Let_def split: option.split)

lemma asked_item:
  assumes "i \<in> set (ask_for (asked E p items s) src)"
  shows "\<exists>it \<in> set items. pi_ID it = i \<and> pi_Source it = src"
  using assms grouped_ok [of items E p s] unfolding asked_def asks_ok_def by blast

lemma answers_plain:
  assumes "plain_page p items" "(w, src, i, b, t) \<in> answers_of E p items s"
  shows "plain_answer w src i"
  using assms asked_item [of i E p items s src] by (auto simp: answers_of_def plain_page_def)

lemma recheck_inv_step:
  assumes "recheck_inv per ttl w" "recheck_step w w'"
  shows "recheck_inv per ttl w'"
  using assms(2)
proof cases
  case (Register s L source c)
  then show ?thesis
    using assms(1) by (simp add: recheck_inv_def Add_def Let_def split: option.split)
next
  case (Page E p items s L)
  have inv: "held per ttl (keyed L) (re_answers s)" "\<forall>(p, src, i, b, t) \<in> L. plain_answer p src i"
    using assms(1) Page(1) by (simp_all add: recheck_inv_def)
  have "held per ttl (keyed (L \<union> answers_of E p items s)) (re_answers (snd (Allowed E p items s)))"
  proof (cases "items = []")
    case True
    then show ?thesis
      using held_mono [OF inv(1)] by (simp add: Allowed_def keyed_def image_Un)
  next
    case False
    then show ?thesis
      using waited_held [OF inv(1), of E p items] Page(3)
      by (simp add: Allowed_waited keyed_def image_Un page_ok_def)
  qed
  moreover have "\<forall>(q, src, i, b, t) \<in> answers_of E p items s. plain_answer q src i"
    using answers_plain Page(3) unfolding page_ok_def by blast
  ultimately show ?thesis using inv(2) Page(2) unfolding recheck_inv_def by auto
qed

interpretation rechecks: step_invariant recheck_step "recheck_inv per ttl" for per ttl
  by unfold_locales (rule recheck_inv_step)

lemma recheck_inv_new:
  "\<exists>per. recheck_inv per (ca_ttl (re_answers (NewSet opts))) (NewSet opts, {})"
proof -
  obtain capacity ttl where "re_answers (NewSet opts) = New_cache capacity ttl"
    by (auto simp: NewSet_def Let_def)
  moreover have "ca_ttl (New_cache capacity ttl :: bool cache) = ttl" by (simp add: New_cache_def Let_def)
  ultimately have "recheck_inv (per_shard capacity) (ca_ttl (re_answers (NewSet opts))) (NewSet opts, {})"
    using held_new [of capacity ttl] by (simp add: recheck_inv_def keyed_def)
  then show ?thesis ..
qed

text \<open>
  Why an id of a page may be shown: its source has no checker, or the source has said of this very
  person that it may be read, now or less than the lifetime of an answer before the page looked.
\<close>

definition vouched ::
  "duration \<Rightarrow> recheck_env \<Rightarrow> principal option \<Rightarrow> recheck_set \<Rightarrow> answer_log \<Rightarrow> answer_log \<Rightarrow> page_item \<Rightarrow> bool"
where
  "vouched ttl E p s old new it \<longleftrightarrow>
     fmlookup (re_checkers s) (pi_Source it) = None \<or>
     (\<exists>t. (who p, pi_Source it, pi_ID it, True, t) \<in> new) \<or>
     (\<exists>t n. (who p, pi_Source it, pi_ID it, True, t) \<in> old \<and> in_time ttl t (rx_clock E n))"

lemma grouped_shows:
  assumes "recheck_inv per ttl (s, L)" "lifetime ttl" "plain_page p items"
    and "fmlookup (pa_out (grouped E p items s)) i = Some True"
  shows "\<exists>it \<in> set items. pi_ID it = i \<and> vouched ttl E p s L {} it"
  using assms(3,4)
proof (induction items rule: rev_induct)
  case (snoc it items)
  let ?g = "grouped E p items s"
  have g: "grouped E p (items @ [it]) s = group_item E p it ?g" by (simp add: grouped_def)
  have checkers: "re_checkers (pa_set ?g) = re_checkers s"
    unfolding grouped_def by (induction items rule: rev_induct) simp_all
  have held: "held per ttl (keyed L) (re_answers (pa_set ?g))" "\<forall>(p, src, i, b, t) \<in> L. plain_answer p src i"
    using assms(1) grouped_held by (simp_all add: recheck_inv_def)
  have here: "plain_answer (who p) (pi_Source it) (pi_ID it)" and "plain_page p items"
    using snoc.prems(1) by (simp_all add: plain_page_def)
  note old = snoc.IH [OF this(2)]
  show ?case
  proof (cases "fmlookup (pa_out ?g) i = Some True")
    case True
    then show ?thesis using old by auto
  next
    case False
    then have i: "i = pi_ID it"
      and how: "fmlookup (re_checkers s) (pi_Source it) = None \<or>
        fst (Cache_Get (re_answers (pa_set ?g)) (answer_key p (pi_Source it) (pi_ID it)) (rx_clock E (pa_looks ?g))) = Some True"
      using snoc.prems(2) unfolding g
      by (auto simp: group_item_ask checkers Let_def split: if_splits option.splits)
    show ?thesis
    proof (cases "fmlookup (re_checkers s) (pi_Source it)")
      case None
      then show ?thesis using i by (simp add: vouched_def)
    next
      case (Some c)
      then obtain t where t: "(answer_key p (pi_Source it) (pi_ID it), True, t) \<in> keyed L"
          "in_time ttl t (rx_clock E (pa_looks ?g))"
        using how held_hit [OF held(1) assms(2)] by fastforce
      then obtain w src j where j: "(w, src, j, True, t) \<in> L"
          "key_of w src j = key_of (who p) (pi_Source it) (pi_ID it)"
        unfolding keyed_def answer_key_of by fastforce
      then have "(who p, pi_Source it, pi_ID it, True, t) \<in> L"
        using held(2) key_of_inject [OF _ here] by fastforce
      then show ?thesis using i t(2) by (auto simp: vouched_def)
    qed
  qed
qed (simp add: grouped_def)


section \<open>Small pages\<close>

definition ex_page :: "page_item list" where
  "ex_page = [\<lparr>pi_ID = ''d1'', pi_Source = ''wiki''\<rparr>, \<lparr>pi_ID = ''d2'', pi_Source = ''wiki''\<rparr>,
    \<lparr>pi_ID = ''d3'', pi_Source = ''chat''\<rparr>, \<lparr>pi_ID = ''d4'', pi_Source = ''mail''\<rparr>]"

definition ex_answers :: "(string list \<Rightarrow> string list) \<Rightarrow> checked \<Rightarrow> gtime \<Rightarrow> recheck_env" where
  "ex_answers arrivals wiki now =
     \<lparr>rx_answer = (\<lambda>src. if src = ''wiki'' then wiki else Said fmempty), rx_arrivals = arrivals, rx_clock = (\<lambda>_. now)\<rparr>"

definition ex_wiki :: checked where
  "ex_wiki = Said (fmap_of_list [(''d1'', True), (''d2'', False)])"

definition ex_set :: recheck_set where
  "ex_set = Add ''chat'' (Some 2) (Add ''wiki'' (Some 1) (NewSet []))"

abbreviation "mei \<equiv> Some (ex_principal ''mei'' [])"

text \<open>
  When the wait ends early, the rows that were already refused by a source that answered are
  counted again as failed checks of it: one question for two ids leaves three checks behind.
\<close>

theorem expire_counts_refusals:
  "let s = snd (Allowed (ex_answers (\<lambda>_. [''wiki'']) ex_wiki 100) mei ex_page ex_set)
   in fmlookup (Checks s) ''wiki'' = Some \<lparr>ck_Checked = 3, ck_Denied = 1, ck_Failed = 1\<rparr>"
  by code_simp

text \<open>
  A checker that is taken away between the grouping of a page and its question stands for an allow,
  and that allow is kept like an answer: when the source has a checker again, the id is shown
  without asking it.
\<close>

theorem Withdrawn_is_cached:
  "let s = snd (Allowed (ex_answers id Withdrawn 100) mei ex_page ex_set);
       s = Add ''wiki'' (Some 1) (Add ''wiki'' None s)
   in fmlookup (fst (Allowed (ex_answers id (Said (fmap_of_list [(''d2'', False)])) 101) mei ex_page s)) ''d2'' = Some True"
  by code_simp

lemma ex_once [simp]: "answers_once (ex_answers id a now)"
  by (simp add: answers_once_def ex_answers_def)

lemma ex_page_ok: "0 < now \<Longrightarrow> page_ok (ex_answers id a now) mei ex_page"
  by (auto simp: page_ok_def answers_once_def ex_answers_def plain_page_def ex_page_def plain_answer_def
      plain_def who_def ex_principal_def)

lemma ex_ids: "pi_ID ` set ex_page = {''d1'', ''d2'', ''d3'', ''d4''}"
  by (auto simp: ex_page_def)



end
