(* ===== verification/Column_Bitmap.thy ===== *)
theory Column_Bitmap
  imports Word_Bits
begin

text \<open>
  \<open>store/column/bitmap.go\<close>: the set of row numbers a scan answers with. A row number is Go's
  \<open>int\<close>, which may be negative or past the end and is then ignored; a method that changes its
  receiver returns it. The last section shows what each operation does to the set of rows.
\<close>

unbundle bit_operations_syntax

section \<open>The bitmap\<close>

record rowmap =
  rb_n :: nat
  rb_words :: "64 word list"

definition NewRows :: "int \<Rightarrow> rowmap" where
  "NewRows n = (let n = nat n in \<lparr>rb_n = n, rb_words = replicate ((n + 63) div 64) 0\<rparr>)"

definition Len :: "rowmap \<Rightarrow> nat" where
  "Len b = rb_n b"

definition outside :: "rowmap \<Rightarrow> int \<Rightarrow> bool" where
  "outside b i \<longleftrightarrow> i < 0 \<or> int (rb_n b) \<le> i"

definition row_word :: "int \<Rightarrow> nat" where "row_word i = nat i div 64"
definition row_bit :: "int \<Rightarrow> 64 word" where "row_bit i = push_bit (nat i mod 64) 1"

definition Set_row :: "int \<Rightarrow> rowmap \<Rightarrow> rowmap" where
  "Set_row i b =
     (if outside b i then b
      else b\<lparr>rb_words := (rb_words b)[row_word i := rb_words b ! row_word i OR row_bit i]\<rparr>)"

definition Clear_row :: "int \<Rightarrow> rowmap \<Rightarrow> rowmap" where
  "Clear_row i b =
     (if outside b i then b
      else b\<lparr>rb_words := (rb_words b)[row_word i := rb_words b ! row_word i AND NOT (row_bit i)]\<rparr>)"

definition Get_row :: "rowmap \<Rightarrow> int \<Rightarrow> bool" where
  "Get_row b i = (if outside b i then False else rb_words b ! row_word i AND row_bit i \<noteq> 0)"

definition SetRange :: "int \<Rightarrow> int \<Rightarrow> rowmap \<Rightarrow> rowmap" where
  "SetRange lo hi b =
     (let lo = (if lo < 0 then 0 else lo); hi = (if int (rb_n b) < hi then int (rb_n b) else hi)
      in if hi \<le> lo then b
         else
           let first = nat lo div 64; last = nat (hi - 1) div 64; ws = rb_words b;
               head = push_bit (nat lo mod 64) (- 1); tail = drop_bit (63 - nat (hi - 1) mod 64) (- 1)
           in if first = last then b\<lparr>rb_words := ws[first := ws ! first OR (head AND tail)]\<rparr>
              else
                let ws = ws[first := ws ! first OR head];
                    ws = foldl (\<lambda>ws i. ws[i := - 1]) ws [Suc first..<last]
                in b\<lparr>rb_words := ws[last := ws ! last OR tail]\<rparr>)"

definition Count_rows :: "rowmap \<Rightarrow> nat" where
  "Count_rows b = foldl (\<lambda>n w. n + OnesCount64 w) 0 (rb_words b)"

definition Empty_rows :: "rowmap \<Rightarrow> bool" where
  "Empty_rows b = list_all (\<lambda>w. w = 0) (rb_words b)"

definition trim :: "rowmap \<Rightarrow> rowmap" where
  "trim b =
     (let rem = rb_n b mod 64; ws = rb_words b; last = length ws - 1
      in if rem \<noteq> 0 \<and> ws \<noteq> [] then b\<lparr>rb_words := ws[last := ws ! last AND drop_bit (64 - rem) (- 1)]\<rparr>
         else b)"

definition And_rows :: "rowmap \<Rightarrow> rowmap \<Rightarrow> rowmap" where
  "And_rows b other =
     b\<lparr>rb_words := map (\<lambda>i. if i < length (rb_words other) then rb_words b ! i AND rb_words other ! i else 0)
                     [0..<length (rb_words b)]\<rparr>"

definition Or_rows :: "rowmap \<Rightarrow> rowmap \<Rightarrow> rowmap" where
  "Or_rows b other =
     trim (b\<lparr>rb_words := map (\<lambda>i. if length (rb_words other) \<le> i then rb_words b ! i
                                else rb_words b ! i OR rb_words other ! i) [0..<length (rb_words b)]\<rparr>)"

definition AndNot_rows :: "rowmap \<Rightarrow> rowmap \<Rightarrow> rowmap" where
  "AndNot_rows b other =
     b\<lparr>rb_words := map (\<lambda>i. if length (rb_words other) \<le> i then rb_words b ! i
                          else rb_words b ! i AND NOT (rb_words other ! i)) [0..<length (rb_words b)]\<rparr>"

definition Not_rows :: "rowmap \<Rightarrow> rowmap" where
  "Not_rows b = trim (b\<lparr>rb_words := map NOT (rb_words b)\<rparr>)"

definition Clone_rows :: "rowmap \<Rightarrow> rowmap" where
  "Clone_rows b = \<lparr>rb_n = rb_n b, rb_words = rb_words b\<rparr>"

definition Equal_rows :: "rowmap \<Rightarrow> rowmap \<Rightarrow> bool" where
  "Equal_rows b other \<longleftrightarrow>
     rb_n b = rb_n other \<and> list_all (\<lambda>i. rb_words b ! i = rb_words other ! i) [0..<length (rb_words b)]"

fun each_loop :: "(nat \<Rightarrow> 's \<Rightarrow> bool \<times> 's) \<Rightarrow> nat \<Rightarrow> 64 word list \<Rightarrow> 's \<Rightarrow> bool \<times> 's" where
  "each_loop f i [] s = (True, s)"
| "each_loop f i (w # ws) s =
     (case yield_bits (\<lambda>t. f (i * 64 + t)) w s of
        (True, s') \<Rightarrow> each_loop f (Suc i) ws s'
      | (False, s') \<Rightarrow> (False, s'))"

definition Each_row :: "(nat \<Rightarrow> 's \<Rightarrow> bool \<times> 's) \<Rightarrow> rowmap \<Rightarrow> 's \<Rightarrow> 's" where
  "Each_row f b s = snd (each_loop f 0 (rb_words b) s)"

definition Rows :: "rowmap \<Rightarrow> nat list" where
  "Rows b = Each_row (\<lambda>row out. (True, out @ [row])) b []"

section \<open>The rows of a bitmap\<close>

text \<open>
  A bitmap is well formed when its words are exactly as many as its rows need and none of the bits
  past the last row is set. A row is in it when its bit is set.
\<close>

definition rows_ok :: "rowmap \<Rightarrow> bool" where
  "rows_ok b \<longleftrightarrow> length (rb_words b) = (rb_n b + 63) div 64 \<and> (\<forall>i. bm_at (rb_words b) i \<longrightarrow> i < rb_n b)"

definition row_in :: "rowmap \<Rightarrow> nat \<Rightarrow> bool" where
  "row_in b i \<longleftrightarrow> i < rb_n b \<and> bm_at (rb_words b) i"

lemma bit_row_bit: "bit (row_bit i) k \<longleftrightarrow> k = nat i mod 64"
  by (simp add: row_bit_def bit_exp_iff) auto

lemma word_and_bit: "(\<And>k. bit (v::64 word) k \<longleftrightarrow> k = j) \<Longrightarrow> (w AND v \<noteq> 0) \<longleftrightarrow> bit w j"
proof -
  assume v: "\<And>k. bit v k \<longleftrightarrow> k = j"
  have "u \<noteq> 0 \<longleftrightarrow> (\<exists>n. bit u n)" for u :: "64 word"
    using bit_imp_le_length [of u] by (auto simp: bit_eq_iff)
  then show ?thesis by (simp only: bit_and_iff v) blast
qed

lemma rows_ok_length: "rows_ok b \<Longrightarrow> i < rb_n b \<Longrightarrow> i div 64 < length (rb_words b)"
  by (auto simp: rows_ok_def)

lemma Get_row_in: "rows_ok b \<Longrightarrow> Get_row b i \<longleftrightarrow> 0 \<le> i \<and> row_in b (nat i)"
  using rows_ok_length [of b "nat i"]
  by (auto simp: Get_row_def outside_def row_in_def bm_at_def row_word_def word_and_bit [OF bit_row_bit])

lemma Get_row_int [simp]: "rows_ok b \<Longrightarrow> Get_row b (int i) \<longleftrightarrow> row_in b i"
  by (simp add: Get_row_in)

lemma row_in_ok: "rows_ok b \<Longrightarrow> row_in b i \<longleftrightarrow> bm_at (rb_words b) i"
  by (auto simp: row_in_def rows_ok_def)

lemma bm_at_update:
  assumes "k < length ws"
  shows "bm_at (ws[k := v]) i \<longleftrightarrow> (if i div 64 = k then bit v (i mod 64) else bm_at ws i)"
  using assms by (auto simp: bm_at_def nth_list_update)

lemma div_mod_eq: "(i div 64 = (j::nat) div 64 \<and> i mod 64 = j mod 64) \<longleftrightarrow> i = j"
  by (metis div_mod_decomp)

lemma New_ok [simp]: "rows_ok (NewRows n)" "rb_n (NewRows n) = nat n" "\<not> row_in (NewRows n) i"
  by (auto simp: NewRows_def rows_ok_def row_in_def bm_at_def Let_def)

lemma bit_word_mod: "bit (row_bit i) (j mod 64) \<longleftrightarrow> j mod 64 = nat i mod 64"
  by (rule bit_row_bit)

lemma Set_row_at:
  assumes "rows_ok b" "\<not> outside b i"
  shows "bm_at (rb_words (Set_row i b)) j \<longleftrightarrow> j = nat i \<or> bm_at (rb_words b) j"
proof -
  have k: "nat i div 64 < length (rb_words b)"
    using rows_ok_length [OF assms(1), of "nat i"] assms(2) by (simp add: outside_def nat_less_iff)
  show ?thesis
    using assms(2) k div_mod_eq [of j "nat i"]
    by (auto simp: Set_row_def bm_at_update [OF k] bit_or_iff bit_row_bit row_word_def bm_at_def [of "rb_words b"])
qed

lemma Clear_row_at:
  assumes "rows_ok b" "\<not> outside b i"
  shows "bm_at (rb_words (Clear_row i b)) j \<longleftrightarrow> j \<noteq> nat i \<and> bm_at (rb_words b) j"
proof -
  have k: "nat i div 64 < length (rb_words b)"
    using rows_ok_length [OF assms(1), of "nat i"] assms(2) by (simp add: outside_def nat_less_iff)
  show ?thesis
    using assms(2) k div_mod_eq [of j "nat i"]
    by (auto simp: Clear_row_def bm_at_update [OF k] bit_and_iff bit_not_iff bit_row_bit row_word_def bm_at_def [of "rb_words b"])
qed

lemma Set_row_ok [simp]: "rb_n (Set_row i b) = rb_n b" "rows_ok b \<Longrightarrow> rows_ok (Set_row i b)"
proof -
  show n: "rb_n (Set_row i b) = rb_n b" by (simp add: Set_row_def)
  assume b: "rows_ok b"
  show "rows_ok (Set_row i b)"
  proof (cases "outside b i")
    case False
    then have "nat i < rb_n b" by (auto simp: outside_def)
    moreover have "length (rb_words (Set_row i b)) = length (rb_words b)" by (simp add: Set_row_def)
    ultimately show ?thesis
      using b Set_row_at [OF b False] by (auto simp: rows_ok_def n)
  qed (simp add: b Set_row_def)
qed

lemma Clear_row_ok [simp]: "rb_n (Clear_row i b) = rb_n b" "rows_ok b \<Longrightarrow> rows_ok (Clear_row i b)"
proof -
  show n: "rb_n (Clear_row i b) = rb_n b" by (simp add: Clear_row_def)
  assume b: "rows_ok b"
  show "rows_ok (Clear_row i b)"
  proof (cases "outside b i")
    case False
    moreover have "length (rb_words (Clear_row i b)) = length (rb_words b)" by (simp add: Clear_row_def)
    ultimately show ?thesis
      using b Clear_row_at [OF b False] by (simp add: rows_ok_def n)
  qed (simp add: b Clear_row_def)
qed

lemma outside_simps [simp]: "outside b i \<Longrightarrow> Set_row i b = b" "outside b i \<Longrightarrow> Clear_row i b = b"
  by (simp_all add: Set_row_def Clear_row_def)

lemma row_in_Set: "rows_ok b \<Longrightarrow> row_in (Set_row i b) j \<longleftrightarrow> (\<not> outside b i \<and> int j = i) \<or> row_in b j"
  using Set_row_at [of b i j] by (cases "outside b i") (auto simp: row_in_ok outside_def)

lemma row_in_Clear: "rows_ok b \<Longrightarrow> row_in (Clear_row i b) j \<longleftrightarrow> int j \<noteq> i \<and> row_in b j"
proof (cases "outside b i")
  case True
  then show "rows_ok b \<Longrightarrow> ?thesis" by (auto simp: row_in_def outside_def)
next
  case False
  then show "rows_ok b \<Longrightarrow> ?thesis"
    using Clear_row_at [of b i j] by (auto simp: row_in_ok outside_def)
qed

section \<open>Whole words\<close>

lemma fill_words:
  "length (foldl (\<lambda>ws i. ws[i := - 1]) ws is) = length ws"
  "k < length ws \<Longrightarrow> foldl (\<lambda>ws i. ws[i := (- 1 :: 64 word)]) ws is ! k = (if k \<in> set is then - 1 else ws ! k)"
  by (induction "is" arbitrary: ws) (auto simp: nth_list_update)

lemma bit_head: "bit (push_bit m (- 1 :: 64 word)) k \<longleftrightarrow> m \<le> k \<and> k < 64"
  by (auto simp: bit_not_iff bit_mask_iff)

lemma bit_tail: "bit (drop_bit m (- 1 :: 64 word)) k \<longleftrightarrow> m + k < 64"
  by (auto simp: bit_mask_iff)

lemma SetRange_simps [simp]:
  "rb_n (SetRange lo hi b) = rb_n b" "length (rb_words (SetRange lo hi b)) = length (rb_words b)"
  by (simp_all add: SetRange_def Let_def fill_words)

lemma row_place: "i div 64 = (f::nat) \<Longrightarrow> (l \<le> i \<longleftrightarrow> (if l div 64 = f then l mod 64 \<le> i mod 64 else l div 64 < f))"
  by (smt (verit, best) div_le_mono div_mult_mod_eq le_antisym nat_add_left_cancel_le nle_le not_le)

lemma clamp: "(if lo < 0 then 0 else lo) = max 0 (lo :: int)" "(if n < hi then n else hi) = min n (hi :: int)"
  by (simp_all add: max_def min_def)

lemma SetRange_at:
  assumes "rows_ok b" "lo' = nat (max 0 lo)" "hi' = nat (min (int (rb_n b)) hi)"
  shows "bm_at (rb_words (SetRange lo hi b)) j \<longleftrightarrow> lo' \<le> j \<and> j < hi' \<or> bm_at (rb_words b) j"
proof (cases "hi' \<le> lo'")
  case True
  then have "min (int (rb_n b)) hi \<le> max 0 lo" unfolding assms(2,3) by linarith
  then have "(if int (rb_n b) < hi then int (rb_n b) else hi) \<le> (if lo < 0 then 0 else lo)"
    unfolding clamp .
  then have "SetRange lo hi b = b" unfolding SetRange_def Let_def by (simp only: if_True)
  then show ?thesis using True by auto
next
  case False
  define f where "f = lo' div 64"
  define l where "l = (hi' - 1) div 64"
  define ws where "ws = rb_words b"
  define head where "head = (push_bit (lo' mod 64) (- 1) :: 64 word)"
  define tail where "tail = (drop_bit (63 - (hi' - 1) mod 64) (- 1) :: 64 word)"
  have "hi' \<le> rb_n b" using assms(3) by auto
  then have len: "l < length ws" and fl: "f \<le> l"
    using False rows_ok_length [OF assms(1), of "hi' - 1"] by (auto simp: l_def f_def ws_def div_le_mono)
  have nlo: "(if lo < 0 then 0 else lo) = int lo'" unfolding clamp assms(2) by simp
  have nhi: "(if int (rb_n b) < hi then int (rb_n b) else hi) = int hi'" using False unfolding clamp assms(3) by linarith
  have hi1: "nat (int hi' - 1) = hi' - 1" by simp
  have words: "rb_words (SetRange lo hi b) =
      (if f = l then ws[f := ws ! f OR (head AND tail)]
       else (foldl (\<lambda>ws i. ws[i := - 1]) (ws[f := ws ! f OR head]) [Suc f..<l])
         [l := foldl (\<lambda>ws i. ws[i := - 1]) (ws[f := ws ! f OR head]) [Suc f..<l] ! l OR tail])"
    unfolding SetRange_def nlo nhi Let_def nat_int hi1 f_def [symmetric] l_def [symmetric] ws_def [symmetric]
      head_def [symmetric] tail_def [symmetric]
    using False by simp
  let ?k = "j div 64"
  have lo: "lo' \<le> j \<longleftrightarrow> (if f = ?k then lo' mod 64 \<le> j mod 64 else f < ?k)"
    unfolding f_def by (rule row_place) (rule refl)
  have hi: "j < hi' \<longleftrightarrow> (if l = ?k then j mod 64 \<le> (hi' - 1) mod 64 else ?k < l)"
  proof -
    have "j < hi' \<longleftrightarrow> j \<le> hi' - 1" using False by linarith
    also have "\<dots> \<longleftrightarrow> (if ?k = l then j mod 64 \<le> (hi' - 1) mod 64 else ?k < l)"
      unfolding l_def by (rule row_place) (rule refl)
    finally show ?thesis by auto
  qed
  have t: "63 - (hi' - 1) mod 64 + j mod 64 < 64 \<longleftrightarrow> j mod 64 \<le> (hi' - 1) mod 64"
  proof -
    have "(hi' - 1) mod 64 < 64" "j mod 64 < 64" by simp_all
    then show ?thesis by arith
  qed
  have b: "bit (head) (j mod 64) \<longleftrightarrow> lo' mod 64 \<le> j mod 64" "bit tail (j mod 64) \<longleftrightarrow> j mod 64 \<le> (hi' - 1) mod 64"
    unfolding head_def tail_def bit_head bit_tail t by simp_all
  show ?thesis
  proof (cases "f = l")
    case True
    then show ?thesis
      unfolding words lo hi ws_def [symmetric] using len
      by (simp add: bm_at_update bit_or_iff bit_and_iff b) (auto simp: bm_at_def)
  next
    case apart: False
    then have "f < l" using fl by simp
    consider "?k = l" | "?k = f" | "f < ?k" "?k < l" | "?k < f" | "l < ?k" by linarith
    then show ?thesis
    proof cases
      case 1
      then show ?thesis
        unfolding words lo hi ws_def [symmetric] using apart \<open>f < l\<close> len
        by (simp add: bm_at_update fill_words bit_or_iff b) (auto simp: bm_at_def fill_words)
    next
      case 2
      then show ?thesis
        unfolding words lo hi ws_def [symmetric] using apart \<open>f < l\<close> len
        by (simp add: bm_at_update fill_words bit_or_iff b) (auto simp: bm_at_def fill_words bit_or_iff b)
    next
      case 3
      then show ?thesis
        unfolding words lo hi ws_def [symmetric] using apart \<open>f < l\<close> len
        by (simp add: bm_at_update fill_words) (simp add: bm_at_def fill_words)
    next
      case 4
      then show ?thesis
        unfolding words lo hi ws_def [symmetric] using apart \<open>f < l\<close> len
        by (simp add: bm_at_update fill_words) (simp add: bm_at_def fill_words)
    next
      case 5
      then show ?thesis
        unfolding words lo hi ws_def [symmetric] using apart \<open>f < l\<close> len
        by (simp add: bm_at_update fill_words) (auto simp: bm_at_def fill_words)
    qed
  qed
qed

lemma SetRange_ok [simp]: "rows_ok b \<Longrightarrow> rows_ok (SetRange lo hi b)"
  using SetRange_at [of b "nat (max 0 lo)" lo "nat (min (int (rb_n b)) hi)" hi]
  by (auto simp: rows_ok_def)

lemma row_in_SetRange:
  "rows_ok b \<Longrightarrow> row_in (SetRange lo hi b) j \<longleftrightarrow> j < rb_n b \<and> lo \<le> int j \<and> int j < hi \<or> row_in b j"
  using SetRange_at [of b "nat (max 0 lo)" lo "nat (min (int (rb_n b)) hi)" hi j]
  by (auto simp: row_in_ok)

lemma bm_at_past: "length ws \<le> i div 64 \<Longrightarrow> \<not> bm_at ws i"
  by (simp add: bm_at_def)

lemma words_for: "(n + 63) div 64 = (if n mod 64 = 0 then n div 64 else Suc (n div (64 :: nat)))"
proof -
  obtain q r where n: "n = 64 * q + r" "r < 64"
    by (metis mod_less_divisor mult.commute div_mult_mod_eq zero_less_numeral)
  then show ?thesis
  proof (cases r)
    case (Suc s)
    then have "n + 63 = s + 64 * Suc q" "s < 64" using n by simp_all
    then show ?thesis using n Suc by simp
  qed simp
qed

lemma trim_at:
  assumes "length (rb_words b) = (rb_n b + 63) div 64"
  shows "bm_at (rb_words (trim b)) i \<longleftrightarrow> i < rb_n b \<and> bm_at (rb_words b) i"
    and "rb_n (trim b) = rb_n b" and "length (rb_words (trim b)) = length (rb_words b)"
proof -
  let ?n = "rb_n b" and ?ws = "rb_words b"
  let ?rem = "?n mod 64" and ?q = "?n div 64" and ?j = "i div 64"
  show "rb_n (trim b) = ?n" "length (rb_words (trim b)) = length ?ws"
    by (simp_all add: trim_def Let_def)
  have n: "?n = 64 * ?q + ?rem" by simp
  have i: "i = 64 * ?j + i mod 64" by simp
  have m: "i mod 64 < 64" "?rem < 64" by simp_all
  show "bm_at (rb_words (trim b)) i \<longleftrightarrow> i < ?n \<and> bm_at ?ws i"
  proof (cases "?rem = 0")
    case True
    then have len: "length ?ws = ?q" using assms by (simp add: words_for)
    have "trim b = b" using True by (simp add: trim_def Let_def)
    moreover have "i < ?n" if "?j < ?q" using that i n m True by linarith
    ultimately show ?thesis using len by (auto simp: bm_at_def)
  next
    case False
    then have len: "length ?ws = Suc ?q" using assms by (simp add: words_for)
    define low where "low = (drop_bit (64 - ?rem) (- 1) :: 64 word)"
    have words: "rb_words (trim b) = ?ws[?q := ?ws ! ?q AND low]"
      using False len by (auto simp: trim_def Let_def low_def)
    have "64 - ?rem + i mod 64 < 64 \<longleftrightarrow> i mod 64 < ?rem" using m False by linarith
    then have "bit low (i mod 64) \<longleftrightarrow> i mod 64 < ?rem" unfolding low_def bit_tail .
    moreover have "i < ?n \<longleftrightarrow> ?j < ?q \<or> ?j = ?q \<and> i mod 64 < ?rem" using i n m by linarith
    ultimately show ?thesis
      using len by (auto simp: words bm_at_update bit_and_iff) (auto simp: bm_at_def)
  qed
qed

lemma trim_ok:
  assumes "length (rb_words b) = (rb_n b + 63) div 64"
  shows "rows_ok (trim b)" "row_in (trim b) i \<longleftrightarrow> row_in b i" "rb_n (trim b) = rb_n b"
  using assms trim_at [OF assms] by (auto simp: rows_ok_def row_in_def)

section \<open>Sets of rows\<close>

lemma And_ok [simp]: "rb_n (And_rows b c) = rb_n b" "rows_ok b \<Longrightarrow> rows_ok (And_rows b c)"
  by (auto simp: And_rows_def rows_ok_def bm_at_map bit_and_iff bm_at_def split: if_splits)

lemma row_in_And: "rows_ok b \<Longrightarrow> row_in (And_rows b c) i \<longleftrightarrow> row_in b i \<and> bm_at (rb_words c) i"
  using rows_ok_length [of b i]
  by (auto simp: And_rows_def row_in_def bm_at_map bit_and_iff bm_at_def split: if_splits)

lemma AndNot_ok [simp]: "rb_n (AndNot_rows b c) = rb_n b" "rows_ok b \<Longrightarrow> rows_ok (AndNot_rows b c)"
  by (auto simp: AndNot_rows_def rows_ok_def bm_at_map bit_and_iff bm_at_def split: if_splits)

lemma row_in_AndNot: "rows_ok b \<Longrightarrow> row_in (AndNot_rows b c) i \<longleftrightarrow> row_in b i \<and> \<not> bm_at (rb_words c) i"
  using rows_ok_length [of b i]
  by (auto simp: AndNot_rows_def row_in_def bm_at_map bit_and_iff bit_not_iff bm_at_def split: if_splits)

lemma Or_ok:
  assumes "rows_ok b"
  shows "rb_n (Or_rows b c) = rb_n b" "rows_ok (Or_rows b c)"
    "row_in (Or_rows b c) i \<longleftrightarrow> row_in b i \<or> i < rb_n b \<and> bm_at (rb_words c) i"
proof -
  define r where "r = b\<lparr>rb_words := map (\<lambda>i. if length (rb_words c) \<le> i then rb_words b ! i
      else rb_words b ! i OR rb_words c ! i) [0..<length (rb_words b)]\<rparr>"
  have len: "length (rb_words r) = (rb_n r + 63) div 64" using assms by (simp add: r_def rows_ok_def)
  have eq: "Or_rows b c = trim r" by (simp add: Or_rows_def r_def)
  show "rb_n (Or_rows b c) = rb_n b" "rows_ok (Or_rows b c)"
    unfolding eq using trim_ok [OF len] by (simp_all add: r_def)
  show "row_in (Or_rows b c) i \<longleftrightarrow> row_in b i \<or> i < rb_n b \<and> bm_at (rb_words c) i"
    unfolding eq trim_ok(2) [OF len] using rows_ok_length [OF assms, of i]
    by (auto simp: r_def row_in_def bm_at_map bit_or_iff bm_at_def split: if_splits)
qed

lemma Not_ok:
  assumes "rows_ok b"
  shows "rb_n (Not_rows b) = rb_n b" "rows_ok (Not_rows b)" "row_in (Not_rows b) i \<longleftrightarrow> i < rb_n b \<and> \<not> row_in b i"
proof -
  have len: "length (rb_words (b\<lparr>rb_words := map NOT (rb_words b)\<rparr>)) = (rb_n (b\<lparr>rb_words := map NOT (rb_words b)\<rparr>) + 63) div 64"
    using assms by (simp add: rows_ok_def)
  show "rb_n (Not_rows b) = rb_n b" "rows_ok (Not_rows b)"
    unfolding Not_rows_def using trim_ok [OF len] by simp_all
  show "row_in (Not_rows b) i \<longleftrightarrow> i < rb_n b \<and> \<not> row_in b i"
    unfolding Not_rows_def trim_ok(2) [OF len] using rows_ok_length [OF assms, of i]
    by (auto simp: row_in_def bm_at_def bit_not_iff)
qed

lemma Clone_rows [simp]: "Clone_rows b = b"
  by (simp add: Clone_rows_def)

lemma rows_eqI:
  assumes "rows_ok b" "rows_ok c" "rb_n b = rb_n c" "\<And>i. row_in b i \<longleftrightarrow> row_in c i"
  shows "b = c"
proof -
  have len: "length (rb_words b) = length (rb_words c)" using assms by (simp add: rows_ok_def)
  have "rb_words b ! k = rb_words c ! k" if k: "k < length (rb_words b)" for k
  proof (rule bit_word_eqI)
    fix t assume t: "t < LENGTH(64)"
    then have "bm_at (rb_words b) (k * 64 + t) \<longleftrightarrow> bm_at (rb_words c) (k * 64 + t)"
      using assms(4) [of "k * 64 + t"] assms(1,2) by (simp add: row_in_ok)
    then show "bit (rb_words b ! k) t \<longleftrightarrow> bit (rb_words c ! k) t"
      using k t len by (simp add: bm_at_nth)
  qed
  then show ?thesis using len assms(3) by (simp add: list_eq_iff_nth_eq)
qed

lemma Equal_rows_iff: "rows_ok b \<Longrightarrow> rows_ok c \<Longrightarrow> Equal_rows b c \<longleftrightarrow> b = c"
  by (auto simp: Equal_rows_def list_all_iff rows_ok_def list_eq_iff_nth_eq)

lemma each_loop_positions: "each_loop f i ws s = yield_all f (positions i ws) s"
  by (induction f i ws s rule: each_loop.induct)
    (simp_all add: yield_bits_elems yield_all_append yield_all_map split: prod.split bool.split)

lemma Rows_positions: "Rows b = positions 0 (rb_words b)"
  using yield_all_collect [of "\<lambda>i. i" "positions 0 (rb_words b)" "[]"]
  by (simp add: Rows_def Each_row_def each_loop_positions)

lemma Each_row_Rows: "Each_row f b s = snd (yield_all f (Rows b) s)"
  by (simp add: Rows_positions Each_row_def each_loop_positions)

lemma Rows_set:
  assumes "rows_ok b"
  shows "set (Rows b) = {i. row_in b i}" "sorted_wrt (<) (Rows b)" "length (Rows b) = Count_rows b"
  using assms by (auto simp: Rows_positions set_positions_0 row_in_ok sorted_positions length_positions Count_rows_def)

lemma Rows_filter: "rows_ok b \<Longrightarrow> Rows b = filter (row_in b) [0..<rb_n b]"
  by (rule strict_sorted_equal) (auto simp: Rows_set sorted_wrt_filter row_in_def)

lemma Empty_rows_iff: assumes "rows_ok b" shows "Empty_rows b \<longleftrightarrow> (\<forall>i. \<not> row_in b i)"
proof -
  have "w = 0" if "w \<in> set (rb_words b)" "\<And>i. \<not> bm_at (rb_words b) i" for w
  proof -
    obtain k where k: "k < length (rb_words b)" "w = rb_words b ! k" using \<open>w \<in> _\<close> by (auto simp: in_set_conv_nth)
    then have "\<not> bit w t" if "t < 64" for t using that \<open>\<And>i. \<not> bm_at _ i\<close> [of "k * 64 + t"] by (simp add: bm_at_nth)
    then show ?thesis by (intro bit_word_eqI) simp
  qed
  then show ?thesis
    using assms by (auto simp: Empty_rows_def list_all_iff row_in_ok) (metis bm_at_def nth_mem bit_0_eq bot_apply bot_bool_def)
qed

end
