(* ===== verification/Go_Binary.thy ===== *)
theory Go_Binary
  imports Go_Strings Word_Bits
begin

text \<open>
  What the on disk formats use of Go's \<open>encoding/binary\<close>: unsigned integers in little endian
  order and the variable length integers of \<open>AppendUvarint\<close> and \<open>Uvarint\<close>. A \<open>[]byte\<close> is a
  \<open>string\<close>, a list of 8 bit characters. No file of the repository is modelled here.
\<close>

unbundle bit_operations_syntax

section \<open>Little endian\<close>

definition le_bytes :: "nat \<Rightarrow> nat \<Rightarrow> string" where
  "le_bytes k v = map (\<lambda>i. of_byte (v div 256 ^ i mod 256)) [0..<k]"

fun le_value :: "string \<Rightarrow> nat" where
  "le_value [] = 0"
| "le_value (c # cs) = byte_of c + 256 * le_value cs"

definition Uint_at :: "nat \<Rightarrow> string \<Rightarrow> nat \<Rightarrow> nat" where
  "Uint_at k b off = le_value (take k (drop off b))"

abbreviation "Uint16_at \<equiv> Uint_at 2"
abbreviation "Uint32_at \<equiv> Uint_at 4"
abbreviation "Uint64_at \<equiv> Uint_at 8"

text \<open>Writing over the bytes from an offset on.\<close>

definition put_at :: "string \<Rightarrow> nat \<Rightarrow> string \<Rightarrow> string" where
  "put_at b off v = take off b @ v @ drop (off + length v) b"

lemma le_bytes_simps [simp]: "length (le_bytes k v) = k" "le_bytes 0 v = []"
  by (simp_all add: le_bytes_def)

lemma le_bytes_Suc: "le_bytes (Suc k) v = of_byte (v mod 256) # le_bytes k (v div 256)"
  by (simp add: le_bytes_def upt_conv_Cons map_Suc_upt [symmetric] div_mult2_eq del: upt_Suc)

lemma le_value_bytes: "le_value (le_bytes k v) = v mod 256 ^ k"
proof (induction k arbitrary: v)
  case (Suc k)
  have "v mod 256 ^ Suc k = v mod 256 + 256 * (v div 256 mod 256 ^ k)"
    by (simp add: mod_mult2_eq)
  then show ?case by (simp add: le_bytes_Suc Suc)
qed simp

lemma le_value_less: "le_value b < 256 ^ length b"
proof (induction b)
  case (Cons c b)
  have "le_value (c # b) < 256 * (le_value b + 1)" by simp
  also have "\<dots> \<le> 256 ^ length (c # b)" using Cons by simp
  finally show ?case .
qed simp

lemma le_value_small: "v < 256 ^ k \<Longrightarrow> le_value (le_bytes k v) = v"
  by (simp add: le_value_bytes)

lemma Uint_at_less: "Uint_at k b off < 256 ^ k"
proof -
  have "le_value (take k (drop off b)) < 256 ^ length (take k (drop off b))" by (rule le_value_less)
  also have "\<dots> \<le> 256 ^ k" by (rule power_increasing) simp_all
  finally show ?thesis by (simp add: Uint_at_def)
qed

lemma Uint_at_append: "length a = off \<Longrightarrow> Uint_at k (a @ b) (off + n) = Uint_at k b n"
  by (simp add: Uint_at_def)

lemma Uint_at_skip: "off + k \<le> length a \<Longrightarrow> Uint_at k (a @ b) off = Uint_at k a off"
  by (simp add: Uint_at_def)

lemma Uint_at_bytes: "v < 256 ^ k \<Longrightarrow> Uint_at k (le_bytes k v @ b) 0 = v"
  by (simp add: Uint_at_def le_value_small)

lemma bit_le_value:
  "bit (le_value b) m \<longleftrightarrow> m div 8 < length b \<and> bit (byte_of (b ! (m div 8))) (m mod 8)"
proof (induction b arbitrary: m)
  case (Cons c b)
  show ?case
  proof (cases "m < 8")
    case True
    then obtain d where d: "8 = m + Suc d" by (metis less_iff_Suc_add add_Suc_right)
    then have "(2::nat) ^ 8 = 2 ^ (m + Suc d)" by simp
    then have "(256::nat) = 2 ^ m * (2 * 2 ^ d)" by (simp add: power_add)
    then have "byte_of c + 256 * le_value b = byte_of c + 2 ^ m * (2 * 2 ^ d * le_value b)" by simp
    then have "(byte_of c + 256 * le_value b) div 2 ^ m = byte_of c div 2 ^ m + 2 * 2 ^ d * le_value b"
      by (simp only: div_mult_self2 power_not_zero) simp
    then show ?thesis using True by (simp add: bit_iff_odd)
  next
    case False
    then obtain d where d: "m = 8 + d" by (metis le_iff_add not_less)
    have "byte_of c < 256" by simp
    then have "(byte_of c + 256 * le_value b) div 2 ^ m = le_value b div 2 ^ d"
      by (simp add: d power_add div_mult2_eq)
    then have "bit (le_value (c # b)) m = bit (le_value b) d" by (simp add: bit_iff_odd)
    then show ?thesis using Cons [of d] by (simp add: d)
  qed
qed simp

section \<open>Variable length integers\<close>

fun uvarint :: "nat \<Rightarrow> string" where
  "uvarint v = (if v < 128 then [of_byte v] else of_byte (v mod 128 + 128) # uvarint (v div 128))"

declare uvarint.simps [simp del]

definition MaxVarintLen64 :: nat where "MaxVarintLen64 = 10"

text \<open>
  \<open>Uvarint\<close> returns the value and how many bytes it took: zero when the buffer is too short, and a
  negative count when the value does not fit 64 bits.
\<close>

fun uvarint_loop :: "nat \<Rightarrow> nat \<Rightarrow> string \<Rightarrow> nat \<times> int" where
  "uvarint_loop i x [] = (0, 0)"
| "uvarint_loop i x (c # cs) =
     (if i = MaxVarintLen64 then (0, - int (i + 1))
      else if byte_of c < 128
      then if i = MaxVarintLen64 - 1 \<and> 1 < byte_of c then (0, - int (i + 1))
           else (x + byte_of c * 2 ^ (7 * i), int (i + 1))
      else uvarint_loop (Suc i) (x + (byte_of c mod 128) * 2 ^ (7 * i)) cs)"

definition Uvarint :: "string \<Rightarrow> nat \<times> int" where
  "Uvarint b = uvarint_loop 0 0 b"

lemma uvarint_not_Nil [simp]: "uvarint v \<noteq> []"
  by (subst uvarint.simps) simp

lemma uvarint_loop_uvarint:
  assumes "v * 2 ^ (7 * i) < 2 ^ 64" "i < 10"
  shows "uvarint_loop i x (uvarint v @ rest) = (x + v * 2 ^ (7 * i), int (i + length (uvarint v)))"
  using assms
proof (induction v arbitrary: i x rule: uvarint.induct)
  case (1 v)
  show ?case
  proof (cases "v < 128")
    case True
    have "\<not> (i = 9 \<and> 1 < v)" using 1(2) by auto
    then show ?thesis using True 1(3) by (subst uvarint.simps) (simp add: MaxVarintLen64_def uvarint.simps [of v])
  next
    case False
    have le: "v div 128 * 2 ^ (7 * Suc i) \<le> v * 2 ^ (7 * i)"
      by (simp add: power_add mult.assoc [symmetric])
    then have fits: "v div 128 * 2 ^ (7 * Suc i) < 2 ^ 64" using 1(2) by (rule le_less_trans)
    have "1 \<le> v div 128" using False by simp
    then have "(2::nat) ^ (7 * Suc i) \<le> v div 128 * 2 ^ (7 * Suc i)" by simp
    then have "(2::nat) ^ (7 * Suc i) < 2 ^ 64" using fits by (rule le_less_trans)
    then have "7 * Suc i < 64" by (rule power_less_imp_less_exp [rotated]) simp
    then have small: "Suc i < 10" by simp
    have whole: "x + v mod 128 * 2 ^ (7 * i) + v div 128 * 2 ^ (7 * Suc i) = x + v * 2 ^ (7 * i)"
    proof -
      have v: "v = v mod 128 + 128 * (v div 128)" by simp
      have "v * 2 ^ (7 * i) = v mod 128 * 2 ^ (7 * i) + 128 * (v div 128) * 2 ^ (7 * i)"
        by (subst v) (rule distrib_right)
      also have "128 * (v div 128) * 2 ^ (7 * i) = v div 128 * 2 ^ (7 * Suc i)" by (simp add: power_add)
      finally show ?thesis by simp
    qed
    have "v mod 128 < 128" by simp
    then have m: "v mod 128 + 128 < 256" "(v mod 128 + 128) mod 128 = v mod 128" by simp_all
    have "uvarint_loop i x (uvarint v @ rest) =
        uvarint_loop (Suc i) (x + v mod 128 * 2 ^ (7 * i)) (uvarint (v div 128) @ rest)"
      using False small m by (subst uvarint.simps) (simp add: MaxVarintLen64_def)
    also have "\<dots> = (x + v * 2 ^ (7 * i), int (Suc i + length (uvarint (v div 128))))"
      using 1(1) [OF False fits small] whole by simp
    also have "Suc i + length (uvarint (v div 128)) = i + length (uvarint v)"
      using False by (subst (2) uvarint.simps) simp
    finally show ?thesis .
  qed
qed

theorem Uvarint_uvarint: "v < 2 ^ 64 \<Longrightarrow> Uvarint (uvarint v @ rest) = (v, int (length (uvarint v)))"
  using uvarint_loop_uvarint [of v 0 0 rest] by (simp add: Uvarint_def)

text \<open>A value that was read took at least one of the bytes there are, and fits 64 bits.\<close>

lemma uvarint_loop_ok:
  assumes "uvarint_loop i x b = (v, n)" "0 < n" "x < 2 ^ (7 * i)" "i < 10"
  shows "i < nat n \<and> nat n \<le> i + length b \<and> v < 2 ^ 64"
  using assms
proof (induction i x b rule: uvarint_loop.induct)
  case (2 i x c cs)
  have less: "x + y * 2 ^ (7 * i) < 2 ^ (7 * i) * 2 ^ k" if "y < 2 ^ k" for y k
  proof -
    have "x + y * 2 ^ (7 * i) < (y + 1) * 2 ^ (7 * i)" using 2(4) by simp
    also have "\<dots> \<le> 2 ^ k * 2 ^ (7 * i)" using that by (intro mult_le_mono1) simp
    finally show ?thesis by (simp add: mult.commute)
  qed
  show ?case
  proof (cases "byte_of c < 128")
    case True
    then have v: "v = x + byte_of c * 2 ^ (7 * i)" "n = int (i + 1)" and last: "i = 9 \<Longrightarrow> byte_of c < 2 ^ 1"
      using 2(2,3,5) by (auto simp: MaxVarintLen64_def split: if_splits)
    have "v < 2 ^ 64"
    proof (cases "i = 9")
      case True
      then show ?thesis using less [OF last] v(1) by simp
    next
      case False
      have "x + byte_of c * 2 ^ (7 * i) < 2 ^ (7 * i) * 2 ^ 7" using True by (intro less) simp
      also have "\<dots> = (2::nat) ^ (7 * i + 7)" by (simp add: power_add)
      also have "\<dots> \<le> 2 ^ 63" using 2(5) False by (intro power_increasing) simp_all
      finally show ?thesis using v(1) by simp
    qed
    then show ?thesis using v(2) by (simp add: nat_add_distrib)
  next
    case False
    have go: "uvarint_loop (Suc i) (x + byte_of c mod 128 * 2 ^ (7 * i)) cs = (v, n)"
      using 2(2,5) False by (simp add: MaxVarintLen64_def)
    then have "i \<noteq> 9" using 2(3) by (cases cs) (auto simp: MaxVarintLen64_def)
    have "x + byte_of c mod 128 * 2 ^ (7 * i) < 2 ^ (7 * i) * 2 ^ 7" by (intro less) simp
    also have "\<dots> = 2 ^ (7 * Suc i)" by (simp add: power_add)
    finally have "Suc i < nat n \<and> nat n \<le> Suc i + length cs \<and> v < 2 ^ 64"
      using 2(1) [OF _ False go 2(3)] 2(5) \<open>i \<noteq> 9\<close> by (simp add: MaxVarintLen64_def)
    then show ?thesis by simp
  qed
qed simp

lemma Uvarint_ok:
  assumes "Uvarint b = (v, n)" "0 < n"
  shows "0 < nat n" "nat n \<le> length b" "v < 2 ^ 64"
  using uvarint_loop_ok [of 0 0 b v n] assms by (simp_all add: Uvarint_def)

end
