(* ===== verification/Column.thy ===== *)
theory Column
  imports Column_Bitmap Go_Binary
begin

text \<open>
  \<open>store/column/column.go\<close> and \<open>build.go\<close>: one field across every row of a segment, collected
  by a builder and encoded. A \<open>uint64\<close> code and an \<open>int64\<close> value are 64 bit words, read with
  \<open>unat\<close> and \<open>sint\<close>; a \<open>Type\<close> and an \<open>Encoding\<close> are the byte they are. \<open>Build\<close> can panic (an
  index past a slice's end); its result is then \<open>None\<close>.
\<close>

unbundle bit_operations_syntax

section \<open>The format\<close>

definition Version :: nat where "Version = 1"

definition TypeString :: nat where "TypeString = 1"
definition TypeInt :: nat where "TypeInt = 2"
definition TypeTime :: nat where "TypeTime = 3"
definition TypeBool :: nat where "TypeBool = 4"

definition known :: "nat \<Rightarrow> bool" where
  "known t \<longleftrightarrow> t = TypeString \<or> t = TypeInt \<or> t = TypeTime \<or> t = TypeBool"

definition EncodingPlain :: nat where "EncodingPlain = 1"
definition EncodingRuns :: nat where "EncodingRuns = 2"

datatype column_error = ErrVersion | ErrFormat | ErrType | ErrRows

definition headerSize :: nat where "headerSize = 24"
definition offVersion :: nat where "offVersion = 0"
definition offType :: nat where "offType = 1"
definition offEncoding :: nat where "offEncoding = 2"
definition offBits :: nat where "offBits = 3"
definition offRows :: nat where "offRows = 4"
definition offEntries :: nat where "offEntries = 8"
definition offFlags :: nat where "offFlags = 12"
definition offReserved :: nat where "offReserved = 13"
definition offBase :: nat where "offBase = 16"

lemmas column_offsets = offVersion_def offType_def offEncoding_def offBits_def offRows_def offEntries_def
  offFlags_def offReserved_def offBase_def

definition flagNulls :: nat where "flagNulls = 1"
definition maxRows :: nat where "maxRows = 2 ^ 32 - 1"
definition maxPackedBits :: nat where "maxPackedBits = 57"

function width_loop :: "64 word \<Rightarrow> nat \<Rightarrow> nat" where
  "width_loop largest bits = (if largest = 0 then bits else width_loop (drop_bit 1 largest) (Suc bits))"
  by pat_completeness auto
termination
  by (relation "measure (\<lambda>(w, n). unat w)")
    (auto simp: drop_bit_eq_div unat_div word_unat_eq_iff)

declare width_loop.simps [simp del]

definition width :: "64 word \<Rightarrow> nat \<times> 64 word" where
  "width largest =
     (let bits = width_loop largest 0; bits = (if maxPackedBits < bits then 64 else bits)
      in if 64 \<le> bits then (64, - 1) else (bits, push_bit bits 1 - 1))"

definition codeBytes :: "nat \<Rightarrow> nat \<Rightarrow> nat" where
  "codeBytes rows bits = (if bits = 0 then 0 else (rows * bits + 7) div 8 + 8)"

section \<open>The builder\<close>

record builder =
  bu_typ :: nat
  bu_err :: "column_error option"
  bu_rows :: nat
  bu_codes :: "64 word list"
  bu_present :: "rowmap option"
  bu_nulls :: bool
  bu_terms :: "string list"
  bu_ids :: "(string, nat) fmap"

definition NewBuilder :: "nat \<Rightarrow> builder" where
  "NewBuilder t =
     \<lparr>bu_typ = t, bu_err = (if \<not> known t then Some ErrType else None), bu_rows = 0, bu_codes = [],
      bu_present = None, bu_nulls = False, bu_terms = [], bu_ids = fmempty\<rparr>"

definition check :: "nat \<Rightarrow> builder \<Rightarrow> bool \<times> builder" where
  "check want b =
     (if bu_err b \<noteq> None then (False, b)
      else if bu_typ b \<noteq> want then (False, b\<lparr>bu_err := Some ErrType\<rparr>)
      else (True, b))"

definition growPresence :: "nat \<Rightarrow> rowmap \<Rightarrow> rowmap" where
  "growPresence rows present =
     (if rows \<le> Len present then present
      else
        let fresh = NewRows (int (max rows (2 * Len present)));
            fresh = fresh\<lparr>rb_words := rb_words present @ drop (length (rb_words present)) (rb_words fresh)\<rparr>
        in foldl (\<lambda>p i. Set_row (int i) p) fresh [Len present..<rows - 1])"

definition push :: "64 word \<Rightarrow> builder \<Rightarrow> builder" where
  "push code b =
     (if maxRows \<le> bu_rows b then b\<lparr>bu_err := Some ErrRows\<rparr>
      else
        let rows = bu_rows b + 1; b = b\<lparr>bu_codes := bu_codes b @ [code], bu_rows := rows\<rparr>
        in (case bu_present b of
              None \<Rightarrow> b
            | Some p \<Rightarrow> b\<lparr>bu_present := Some (Set_row (int rows - 1) (growPresence rows p))\<rparr>))"

definition AppendString :: "string \<Rightarrow> builder \<Rightarrow> builder" where
  "AppendString s b =
     (case check TypeString b of
        (False, b) \<Rightarrow> b
      | (True, b) \<Rightarrow>
          (case fmlookup (bu_ids b) s of
             Some i \<Rightarrow> push (word_of_nat i) b
           | None \<Rightarrow>
               let i = length (bu_terms b)
               in push (word_of_nat i) (b\<lparr>bu_ids := fmupd s i (bu_ids b), bu_terms := bu_terms b @ [s]\<rparr>)))"

definition AppendInt :: "64 word \<Rightarrow> builder \<Rightarrow> builder" where
  "AppendInt v b = (case check TypeInt b of (False, b) \<Rightarrow> b | (True, b) \<Rightarrow> push v b)"

text \<open>\<open>Time.UnixMilli\<close> and \<open>time.UnixMilli\<close>: milliseconds since 1970, in an \<open>int64\<close>.\<close>

definition unix_epoch :: gtime where "unix_epoch = 62135596800 * 1000000000"

definition UnixMilli :: "gtime \<Rightarrow> 64 word" where
  "UnixMilli t = word_of_int ((t - unix_epoch) div 1000000)"

definition milli_time :: "64 word \<Rightarrow> gtime" where
  "milli_time ms = unix_epoch + sint ms * 1000000"

definition AppendTime :: "gtime \<Rightarrow> builder \<Rightarrow> builder" where
  "AppendTime t b = (case check TypeTime b of (False, b) \<Rightarrow> b | (True, b) \<Rightarrow> push (UnixMilli t) b)"

definition AppendBool :: "bool \<Rightarrow> builder \<Rightarrow> builder" where
  "AppendBool v b =
     (case check TypeBool b of (False, b) \<Rightarrow> b | (True, b) \<Rightarrow> if v then push 1 b else push 0 b)"

definition AppendNull :: "builder \<Rightarrow> builder" where
  "AppendNull b =
     (if bu_err b \<noteq> None then b
      else
        let b = (if bu_present b = None then b\<lparr>bu_present := Some (NewRows 0)\<rparr> else b);
            b = push 0 (b\<lparr>bu_nulls := True\<rparr>)
        in b\<lparr>bu_present := map_option (Clear_row (int (bu_rows b) - 1)) (bu_present b)\<rparr>)"

section \<open>Encoding\<close>

definition present_at :: "builder \<Rightarrow> nat \<Rightarrow> bool" where
  "present_at b i = (case bu_present b of None \<Rightarrow> True | Some p \<Rightarrow> Get_row p (int i))"

definition min_step :: "builder \<Rightarrow> bool \<times> 64 word \<Rightarrow> nat \<times> 64 word \<Rightarrow> bool \<times> 64 word" where
  "min_step b = (\<lambda>(first, lo) (i, v).
     if bu_nulls b \<and> \<not> present_at b i then (first, lo)
     else if first \<or> sint v < sint lo then (False, v) else (first, lo))"

text \<open>The dictionary's bytes: the cumulative offsets, then the text.\<close>

definition offset_step :: "string \<times> nat \<Rightarrow> string \<Rightarrow> string \<times> nat" where
  "offset_step = (\<lambda>(dict, at) s. (dict @ le_bytes 4 at, (at + length s) mod 2 ^ 32))"

definition dict_bytes :: "string list \<Rightarrow> string" where
  "dict_bytes terms =
     (let (dict, at) = foldl offset_step ([], 0) terms in dict @ le_bytes 4 at @ concat terms)"

record encoded =
  ec_codes :: "64 word list"
  ec_base :: "64 word"
  ec_entries :: nat
  ec_dict :: string

definition rank_table :: "builder \<Rightarrow> string list \<Rightarrow> nat list" where
  "rank_table b terms =
     foldl (\<lambda>rank (i, s). rank[the (fmlookup (bu_ids b) s) := i]) (replicate (length (bu_terms b)) 0)
       (enumerate 0 terms)"

definition encodeStrings :: "builder \<Rightarrow> encoded option" where
  "encodeStrings b =
     (let terms = sort (bu_terms b); rank = rank_table b terms
      in if list_all (\<lambda>c. unat c < length rank) (bu_codes b)
         then Some \<lparr>ec_codes = map (\<lambda>c. word_of_nat (rank ! unat c)) (bu_codes b), ec_base = 0,
                    ec_entries = length terms, ec_dict = dict_bytes terms\<rparr>
         else None)"

definition encode :: "builder \<Rightarrow> encoded option" where
  "encode b =
     (if bu_typ b = TypeString then encodeStrings b
      else if bu_typ b = TypeBool \<or> bu_rows b = 0
      then Some \<lparr>ec_codes = bu_codes b, ec_base = 0, ec_entries = 0, ec_dict = []\<rparr>
      else
        let (first, lo) = foldl (min_step b) (True, 0) (enumerate 0 (bu_codes b))
        in if first then Some \<lparr>ec_codes = bu_codes b, ec_base = 0, ec_entries = 0, ec_dict = []\<rparr>
           else Some \<lparr>ec_codes = map (\<lambda>(i, c). if bu_nulls b \<and> \<not> present_at b i then 0 else c - lo)
                                (enumerate 0 (bu_codes b)),
                      ec_base = lo, ec_entries = 0, ec_dict = []\<rparr>)"

record run =
  rn_code :: "64 word"
  rn_length :: nat

definition run_step :: "run list \<Rightarrow> 64 word \<Rightarrow> run list" where
  "run_step out c =
     (if rn_code (last out) = c then butlast out @ [(last out)\<lparr>rn_length := rn_length (last out) + 1\<rparr>]
      else out @ [\<lparr>rn_code = c, rn_length = 1\<rparr>])"

fun uvarintLen :: "nat \<Rightarrow> nat" where
  "uvarintLen v = (if v < 128 then 1 else Suc (uvarintLen (v div 128)))"

declare uvarintLen.simps [simp del]

definition runs_of :: "64 word list \<Rightarrow> run list \<times> nat" where
  "runs_of codes =
     (case codes of
        [] \<Rightarrow> ([], 4)
      | c # cs \<Rightarrow>
          let out = foldl run_step [\<lparr>rn_code = c, rn_length = 1\<rparr>] cs
          in (out, foldl (\<lambda>n r. n + (uvarintLen (unat (rn_code r)) + uvarintLen (rn_length r))) 4 out))"

definition pack_step :: "nat \<Rightarrow> nat \<Rightarrow> string \<Rightarrow> nat \<times> 64 word \<Rightarrow> string" where
  "pack_step at bits out = (\<lambda>(i, c).
     let p = i * bits; j = at + p div 8
     in put_at out j (le_bytes 8 (unat (word_of_nat (Uint64_at out j) OR push_bit (p mod 8) c :: 64 word))))"

definition appendPacked :: "string \<Rightarrow> 64 word list \<Rightarrow> nat \<Rightarrow> string" where
  "appendPacked out codes bits =
     (if bits = 0 then out
      else foldl (pack_step (length out) bits) (out @ replicate (codeBytes (length codes) bits) (of_byte 0))
             (enumerate 0 codes))"

definition append_runs :: "run list \<Rightarrow> string" where
  "append_runs runs =
     le_bytes 4 (length runs) @ concat (map (\<lambda>r. uvarint (unat (rn_code r)) @ uvarint (rn_length r)) runs)"

definition header_bytes :: "builder \<Rightarrow> nat \<Rightarrow> nat \<Rightarrow> encoded \<Rightarrow> string" where
  "header_bytes b encoding bits e =
     (let out = replicate headerSize (of_byte 0);
          out = put_at out offVersion [of_byte Version];
          out = put_at out offType [of_byte (bu_typ b)];
          out = put_at out offEncoding [of_byte encoding];
          out = put_at out offBits [of_byte bits];
          out = put_at out offRows (le_bytes 4 (bu_rows b));
          out = put_at out offEntries (le_bytes 4 (ec_entries e));
          out = (if bu_nulls b then put_at out offFlags [of_byte flagNulls] else out)
      in put_at out offBase (le_bytes 8 (unat (ec_base e))))"

definition presence_bytes :: "builder \<Rightarrow> string" where
  "presence_bytes b =
     (if bu_nulls b
      then concat (map (\<lambda>i. le_bytes 8 (unat (rb_words (the (bu_present b)) ! i))) [0..<(bu_rows b + 63) div 64])
      else [])"

definition Build :: "builder \<Rightarrow> (column_error + string) option" where
  "Build b =
     (case bu_err b of
        Some e \<Rightarrow> Some (Inl e)
      | None \<Rightarrow>
          (case encode b of
             None \<Rightarrow> None
           | Some e \<Rightarrow>
               let bits = fst (width (foldl max 0 (ec_codes e)));
                   (runs, runBytes) = runs_of (ec_codes e);
                   encoding = (if runBytes \<le> codeBytes (bu_rows b) bits then EncodingRuns else EncodingPlain);
                   out = header_bytes b encoding bits e @ presence_bytes b;
                   out = (if encoding = EncodingRuns then out @ append_runs runs
                          else appendPacked out (ec_codes e) bits)
               in Some (Inr (out @ ec_dict e))))"

end
