(* ===== verification/Go_Search.thy ===== *)
theory Go_Search
  imports Main
begin

text \<open>\<open>sort.Search\<close>: the binary search for the first index at which a predicate holds.\<close>

function Search_loop :: "(nat \<Rightarrow> bool) \<Rightarrow> nat \<Rightarrow> nat \<Rightarrow> nat" where
  "Search_loop f i j =
     (if i < j then
        let h = (i + j) div 2
        in if \<not> f h then Search_loop f (h + 1) j else Search_loop f i h
      else i)"
  by pat_completeness auto
termination
  by (relation "measure (\<lambda>(f, i, j). j - i)") auto

declare Search_loop.simps [simp del]

definition Search :: "nat \<Rightarrow> (nat \<Rightarrow> bool) \<Rightarrow> nat" where
  "Search n f = Search_loop f 0 n"

lemma Search_loop_first:
  assumes "i \<le> j" and "\<And>a b. a \<le> b \<Longrightarrow> b < j \<Longrightarrow> f a \<Longrightarrow> f b" and "\<And>a. a < i \<Longrightarrow> \<not> f a"
  shows "i \<le> Search_loop f i j \<and> Search_loop f i j \<le> j \<and>
    (\<forall>a < Search_loop f i j. \<not> f a) \<and> (\<forall>a. Search_loop f i j \<le> a \<longrightarrow> a < j \<longrightarrow> f a)"
  using assms
proof (induction f i j rule: Search_loop.induct)
  case (1 f i j)
  show ?case
  proof (cases "i < j")
    case True
    let ?h = "(i + j) div 2"
    have h: "i \<le> ?h" "?h < j" using True by linarith+
    have eq: "Search_loop f i j = (if f ?h then Search_loop f i ?h else Search_loop f (?h + 1) j)"
      using True by (subst Search_loop.simps) (simp add: Let_def)
    show ?thesis
    proof (cases "f ?h")
      case False
      have below: "\<not> f a" if "a < ?h + 1" for a using that False 1(4) [of a ?h] h by auto
      have "?h + 1 \<le> Search_loop f (?h + 1) j \<and> Search_loop f (?h + 1) j \<le> j \<and>
          (\<forall>a < Search_loop f (?h + 1) j. \<not> f a) \<and> (\<forall>a. Search_loop f (?h + 1) j \<le> a \<longrightarrow> a < j \<longrightarrow> f a)"
        by (rule 1(1) [OF True refl False]) (use h below 1(4) in auto)
      then show ?thesis using h False by (simp add: eq)
    next
      case f: True
      have above: "f a" if "?h \<le> a" "a < j" for a using that f 1(4) by blast
      have "i \<le> Search_loop f i ?h \<and> Search_loop f i ?h \<le> ?h \<and>
          (\<forall>a < Search_loop f i ?h. \<not> f a) \<and> (\<forall>a. Search_loop f i ?h \<le> a \<longrightarrow> a < ?h \<longrightarrow> f a)"
        by (rule 1(2) [OF True refl]) (use f h 1(4,5) in auto)
      then show ?thesis using h f above by (auto simp: eq)
    qed
  next
    case False
    then show ?thesis using 1(3,5) by (subst (1 2 3 4) Search_loop.simps) simp
  qed
qed

text \<open>A predicate that once true stays true over the range.\<close>

definition ascending :: "nat \<Rightarrow> (nat \<Rightarrow> bool) \<Rightarrow> bool" where
  "ascending n f \<longleftrightarrow> (\<forall>a b. a \<le> b \<longrightarrow> b < n \<longrightarrow> f a \<longrightarrow> f b)"

lemma Search_first:
  assumes "ascending n f"
  shows "Search n f \<le> n" "a < Search n f \<Longrightarrow> \<not> f a" "Search n f \<le> a \<Longrightarrow> a < n \<Longrightarrow> f a"
proof -
  have "f b" if "a \<le> b" "b < n" "f a" for a b using assms that unfolding ascending_def by blast
  then have "0 \<le> Search_loop f 0 n \<and> Search_loop f 0 n \<le> n \<and>
    (\<forall>a < Search_loop f 0 n. \<not> f a) \<and> (\<forall>a. Search_loop f 0 n \<le> a \<longrightarrow> a < n \<longrightarrow> f a)"
    by (intro Search_loop_first) auto
  then show "Search n f \<le> n" "a < Search n f \<Longrightarrow> \<not> f a" "Search n f \<le> a \<Longrightarrow> a < n \<Longrightarrow> f a"
    by (simp_all add: Search_def)
qed

lemma Search_less: "ascending n f \<Longrightarrow> i < n \<Longrightarrow> f i \<Longrightarrow> Search n f < n \<and> f (Search n f)"
  using Search_first [of n f] by (metis leI le_less_trans order_refl)

text \<open>Whatever the predicate, the index is within the range.\<close>

lemma Search_loop_le: "i \<le> j \<Longrightarrow> Search_loop f i j \<le> j"
proof (induction f i j rule: Search_loop.induct)
  case (1 f i j)
  show ?case
  proof (cases "i < j")
    case True
    have h: "i \<le> (i + j) div 2" "(i + j) div 2 < j" using True by linarith+
    show ?thesis
    proof (cases "f ((i + j) div 2)")
      case f: True
      have "Search_loop f i ((i + j) div 2) \<le> (i + j) div 2" using 1(2) [OF True refl] f h by simp
      then show ?thesis using True f h by (subst Search_loop.simps) (simp add: Let_def)
    next
      case False
      then show ?thesis using 1(1) [OF True refl] h True by (subst Search_loop.simps) (simp add: Let_def)
    qed
  next
    case False
    then show ?thesis using 1(3) by (subst Search_loop.simps) simp
  qed
qed

lemma Search_le: "Search n f \<le> n"
  by (simp add: Search_def Search_loop_le)

end
