(* ===== verification/Column_Read.thy ===== *)
theory Column_Read
  imports Column Go_Search
begin

text \<open>
  \<open>store/column/read.go\<close>: a column opened over bytes that may be anything, and the scans over it.
  A slice of the file is the list of its bytes.
\<close>

unbundle bit_operations_syntax

record column =
  co_typ :: nat
  co_encoding :: nat
  co_bits :: nat
  co_mask :: "64 word"
  co_rows :: nat
  co_entries :: nat
  co_base :: "64 word"
  co_size :: nat
  co_present :: "rowmap option"
  co_codes :: string
  co_runs :: "run list"
  co_ends :: "nat list"
  co_offsets :: string
  co_blob :: string

section \<open>Opening\<close>

definition byte_at :: "string \<Rightarrow> nat \<Rightarrow> nat" where
  "byte_at b i = byte_of (b ! i)"

text \<open>The loop over the runs: how many are left to read, the rows covered so far, and what was read.\<close>

fun read_runs ::
  "nat \<Rightarrow> nat \<Rightarrow> string \<Rightarrow> nat \<Rightarrow> run list \<Rightarrow> nat list \<Rightarrow> column_error + string \<times> nat \<times> run list \<times> nat list"
where
  "read_runs 0 rows rest covered runs ends = Inr (rest, covered, runs, ends)"
| "read_runs (Suc left) rows rest covered runs ends =
     (let (value, n) = Uvarint rest
      in if n \<le> 0 then Inl ErrFormat
         else
           let rest = drop (nat n) rest; (length, n) = Uvarint rest
           in if n \<le> 0 then Inl ErrFormat
              else
                let rest = drop (nat n) rest
                in if length = 0 \<or> rows - covered < length then Inl ErrFormat
                   else
                     let covered = covered + length
                     in read_runs left rows rest covered (runs @ [\<lparr>rn_code = word_of_nat value, rn_length = length\<rparr>])
                          (ends @ [covered]))"

definition readCodes :: "column \<Rightarrow> string \<Rightarrow> column_error + string \<times> column" where
  "readCodes c rest =
     (if co_encoding c = EncodingPlain then
        let n = codeBytes (co_rows c) (co_bits c)
        in if length rest < n then Inl ErrFormat
           else Inr (drop n rest, c\<lparr>co_codes := take n rest\<rparr>)
      else if length rest < 4 then Inl ErrFormat
      else
        let runs = Uint32_at rest 0; rest = drop 4 rest
        in (case read_runs runs (co_rows c) rest 0 [] [] of
              Inl e \<Rightarrow> Inl e
            | Inr (rest, covered, runs, ends) \<Rightarrow>
                let c = c\<lparr>co_runs := runs, co_ends := ends\<rparr>
                in if covered \<noteq> co_rows c then Inl ErrFormat else Inr (rest, c)))"

fun offsets_ascend :: "string \<Rightarrow> nat \<Rightarrow> nat list \<Rightarrow> bool" where
  "offsets_ascend offsets prev [] = True"
| "offsets_ascend offsets prev (i # is) =
     (let at = Uint32_at offsets (4 * i) in if at < prev then False else offsets_ascend offsets at is)"

definition readDict :: "column \<Rightarrow> string \<Rightarrow> column_error + string \<times> column" where
  "readDict c rest =
     (if co_typ c \<noteq> TypeString then Inr (rest, c)
      else
        let n = 4 * (co_entries c + 1)
        in if length rest < n then Inl ErrFormat
           else
             let c = c\<lparr>co_offsets := take n rest\<rparr>; rest = drop n rest;
                 blob = Uint32_at (co_offsets c) (n - 4)
             in if length rest < blob then Inl ErrFormat
                else
                  let c = c\<lparr>co_blob := take blob rest\<rparr>
                  in if \<not> offsets_ascend (co_offsets c) 0 [1..<co_entries c + 1] then Inl ErrFormat
                     else if 0 < co_entries c \<and> Uint32_at (co_offsets c) 0 \<noteq> 0 then Inl ErrFormat
                     else Inr (drop blob rest, c))"

definition read_header :: "string \<Rightarrow> column" where
  "read_header b =
     (let bits = byte_at b offBits
      in \<lparr>co_typ = byte_at b offType, co_encoding = byte_at b offEncoding, co_bits = bits,
          co_mask = (if bits < 64 then push_bit bits 1 - 1 else - 1),
          co_rows = Uint32_at b offRows, co_entries = Uint32_at b offEntries,
          co_base = word_of_nat (Uint64_at b offBase), co_size = length b, co_present = None,
          co_codes = [], co_runs = [], co_ends = [], co_offsets = [], co_blob = []\<rparr>)"

definition header_damaged :: "string \<Rightarrow> column \<Rightarrow> bool" where
  "header_damaged b c \<longleftrightarrow>
     \<not> known (co_typ c) \<or>
     co_encoding c \<noteq> EncodingPlain \<and> co_encoding c \<noteq> EncodingRuns \<or>
     maxPackedBits < co_bits c \<and> co_bits c \<noteq> 64 \<or>
     drop_bit 1 (byte_at b offFlags) \<noteq> 0 \<or>
     byte_at b offReserved \<noteq> 0 \<or> byte_at b (offReserved + 1) \<noteq> 0 \<or> byte_at b (offReserved + 2) \<noteq> 0 \<or>
     co_typ c \<noteq> TypeString \<and> co_entries c \<noteq> 0"

definition read_presence :: "string \<Rightarrow> column \<Rightarrow> string \<Rightarrow> column_error + string \<times> column" where
  "read_presence b c rest =
     (if byte_at b offFlags AND flagNulls = 0 then Inr (rest, c)
      else
        let words = (co_rows c + 63) div 64
        in if length rest < words * 8 then Inl ErrFormat
           else
             let p = NewRows (int (co_rows c));
                 p = p\<lparr>rb_words := map (\<lambda>i. word_of_nat (Uint64_at rest (i * 8))) [0..<words]\<rparr>
             in Inr (drop (words * 8) rest, c\<lparr>co_present := Some (trim p)\<rparr>))"

definition Open :: "string \<Rightarrow> column_error + column" where
  "Open b =
     (if length b < headerSize then Inl ErrFormat
      else if byte_at b offVersion \<noteq> Version then Inl ErrVersion
      else
        let c = read_header b
        in if header_damaged b c then Inl ErrFormat
           else
             (case read_presence b c (drop headerSize b) of
                Inl e \<Rightarrow> Inl e
              | Inr (rest, c) \<Rightarrow>
                  (case readCodes c rest of
                     Inl e \<Rightarrow> Inl e
                   | Inr (rest, c) \<Rightarrow>
                       (case readDict c rest of
                          Inl e \<Rightarrow> Inl e
                        | Inr (rest, c) \<Rightarrow> if rest \<noteq> [] then Inl ErrFormat else Inr c))))"

section \<open>Reading rows\<close>

definition dict_term :: "column \<Rightarrow> nat \<Rightarrow> string" where
  "dict_term c i =
     (let lo = Uint32_at (co_offsets c) (4 * i); hi = Uint32_at (co_offsets c) (4 * (i + 1))
      in take (hi - lo) (drop lo (co_blob c)))"

definition Dict :: "column \<Rightarrow> string list" where
  "Dict c = map (dict_term c) [0..<co_entries c]"

definition code :: "column \<Rightarrow> nat \<Rightarrow> 64 word" where
  "code c row =
     (if co_encoding c = EncodingRuns then
        let i = Search (length (co_ends c)) (\<lambda>i. row < co_ends c ! i)
        in if i = length (co_ends c) then 0 else rn_code (co_runs c ! i)
      else if co_bits c = 0 then 0
      else
        let p = row * co_bits c
        in drop_bit (p mod 8) (word_of_nat (Uint64_at (co_codes c) (p div 8))) AND co_mask c)"

definition CodeAt :: "column \<Rightarrow> int \<Rightarrow> 64 word \<times> bool" where
  "CodeAt c row =
     (if row < 0 \<or> int (co_rows c) \<le> row then (0, False)
      else case co_present c of
             None \<Rightarrow> (code c (nat row), True)
           | Some p \<Rightarrow> if \<not> Get_row p row then (0, False) else (code c (nat row), True))"

definition StringAt :: "column \<Rightarrow> int \<Rightarrow> string \<times> bool" where
  "StringAt c row =
     (let (got, present) = CodeAt c row
      in if \<not> present \<or> co_typ c \<noteq> TypeString \<or> co_entries c \<le> unat got then ([], False)
         else (dict_term c (unat got), True))"

definition IntAt :: "column \<Rightarrow> int \<Rightarrow> 64 word \<times> bool" where
  "IntAt c row =
     (let (got, present) = CodeAt c row
      in if \<not> present \<or> co_typ c \<noteq> TypeInt then (0, False) else (got + co_base c, True))"

definition TimeAt :: "column \<Rightarrow> int \<Rightarrow> gtime \<times> bool" where
  "TimeAt c row =
     (let (got, present) = CodeAt c row
      in if \<not> present \<or> co_typ c \<noteq> TypeTime then (0, False) else (milli_time (got + co_base c), True))"

definition BoolAt :: "column \<Rightarrow> int \<Rightarrow> bool \<times> bool" where
  "BoolAt c row =
     (let (got, present) = CodeAt c row
      in if \<not> present \<or> co_typ c \<noteq> TypeBool then (False, False) else (got = 1, True))"

definition Present :: "column \<Rightarrow> rowmap" where
  "Present c =
     (case co_present c of
        None \<Rightarrow> SetRange 0 (int (co_rows c)) (NewRows (int (co_rows c)))
      | Some p \<Rightarrow> Clone_rows p)"

definition Nulls :: "column \<Rightarrow> rowmap" where
  "Nulls c = Not_rows (Present c)"

section \<open>Scans\<close>

record filter_codes =
  fi_lo :: "64 word"
  fi_hi :: "64 word"
  fi_set :: "rowmap option"
  fi_empty :: bool

definition no_filter :: filter_codes where
  "no_filter = \<lparr>fi_lo = 0, fi_hi = 0, fi_set = None, fi_empty = False\<rparr>"

definition has_code :: "filter_codes \<Rightarrow> 64 word \<Rightarrow> bool" where
  "has_code f x =
     (case fi_set f of
        Some s \<Rightarrow> unat x < Len s \<and> Get_row s (int (unat x))
      | None \<Rightarrow> fi_lo f \<le> x \<and> x \<le> fi_hi f)"

definition scan_run :: "filter_codes \<Rightarrow> nat \<times> rowmap \<Rightarrow> run \<Rightarrow> nat \<times> rowmap" where
  "scan_run f = (\<lambda>(at, out) r.
     (at + rn_length r,
      if has_code f (rn_code r) then SetRange (int at) (int (at + rn_length r)) out else out))"

definition scan_row :: "column \<Rightarrow> filter_codes \<Rightarrow> rowmap \<Rightarrow> nat \<Rightarrow> rowmap" where
  "scan_row c f out i =
     (case fi_set f of
        Some s \<Rightarrow> if unat (code c i) < Len s \<and> Get_row s (int (unat (code c i))) then Set_row (int i) out else out
      | None \<Rightarrow> if fi_lo f \<le> code c i \<and> code c i \<le> fi_hi f then Set_row (int i) out else out)"

definition scan :: "column \<Rightarrow> filter_codes \<Rightarrow> rowmap" where
  "scan c f =
     (let out = NewRows (int (co_rows c))
      in if fi_empty f then out
         else
           let out =
             (if co_encoding c = EncodingRuns then snd (foldl (scan_run f) (0, out) (co_runs c))
              else if co_bits c = 0 then
                if has_code f 0 then SetRange 0 (int (co_rows c)) out else out
              else foldl (scan_row c f) out [0..<co_rows c])
           in (case co_present c of None \<Rightarrow> out | Some p \<Rightarrow> And_rows out p))"

definition dict_search :: "column \<Rightarrow> string \<Rightarrow> nat" where
  "dict_search c v = Search (co_entries c) (\<lambda>i. v \<le> dict_term c i)"

definition rank :: "column \<Rightarrow> string \<Rightarrow> nat option" where
  "rank c v =
     (let i = dict_search c v in if i < co_entries c \<and> dict_term c i = v then Some i else None)"

fun upper_loop :: "string \<Rightarrow> nat \<Rightarrow> string option" where
  "upper_loop out 0 = None"
| "upper_loop out (Suc i) =
     (if byte_of (out ! i) \<noteq> 255 then Some (take i out @ [of_byte (byte_of (out ! i) + 1)])
      else upper_loop out i)"

definition upper :: "string \<Rightarrow> string option" where
  "upper p = upper_loop p (length p)"

definition MatchStrings :: "column \<Rightarrow> string list \<Rightarrow> column_error + rowmap" where
  "MatchStrings c vs =
     (if co_typ c \<noteq> TypeString then Inl ErrType
      else
        let s = foldl (\<lambda>s v. case rank c v of Some i \<Rightarrow> Set_row (int i) s | None \<Rightarrow> s)
                  (NewRows (int (co_entries c))) vs
        in Inr (scan c (no_filter\<lparr>fi_set := Some s, fi_empty := Empty_rows s\<rparr>)))"

definition MatchPrefix :: "column \<Rightarrow> string \<Rightarrow> column_error + rowmap" where
  "MatchPrefix c prefix =
     (if co_typ c \<noteq> TypeString then Inl ErrType
      else
        let lo = dict_search c prefix;
            hi = (case upper prefix of Some up \<Rightarrow> dict_search c up | None \<Rightarrow> co_entries c)
        in if hi \<le> lo then Inr (scan c (no_filter\<lparr>fi_empty := True\<rparr>))
           else Inr (scan c (no_filter\<lparr>fi_lo := word_of_nat lo, fi_hi := word_of_nat (hi - 1)\<rparr>)))"

definition rangeOf :: "column \<Rightarrow> 64 word \<Rightarrow> 64 word \<Rightarrow> filter_codes" where
  "rangeOf c lo hi =
     (if sint hi < sint lo \<or> sint hi < sint (co_base c) then no_filter\<lparr>fi_empty := True\<rparr>
      else
        let f = no_filter\<lparr>fi_hi := hi - co_base c\<rparr>
        in if sint (co_base c) < sint lo then f\<lparr>fi_lo := lo - co_base c\<rparr> else f)"

definition MatchInts :: "column \<Rightarrow> 64 word \<Rightarrow> 64 word \<Rightarrow> column_error + rowmap" where
  "MatchInts c lo hi = (if co_typ c \<noteq> TypeInt then Inl ErrType else Inr (scan c (rangeOf c lo hi)))"

definition MatchTimes :: "column \<Rightarrow> gtime \<Rightarrow> gtime \<Rightarrow> column_error + rowmap" where
  "MatchTimes c lo hi =
     (if co_typ c \<noteq> TypeTime then Inl ErrType else Inr (scan c (rangeOf c (UnixMilli lo) (UnixMilli hi))))"

definition MatchBool :: "column \<Rightarrow> bool \<Rightarrow> column_error + rowmap" where
  "MatchBool c v =
     (if co_typ c \<noteq> TypeBool then Inl ErrType
      else
        let want = (if v then 1 else 0)
        in Inr (scan c (no_filter\<lparr>fi_lo := want, fi_hi := want\<rparr>)))"

end
