(* ===== verification/Column_Scan.thy ===== *)
theory Column_Scan
  imports Column_Read
begin

text \<open>
  What \<open>Open\<close> checks is enough: of whatever bytes it accepts, every read the accessors and the scans
  make is inside the slice it is made of, and a scan answers with exactly the rows that have a value
  whose code the predicate wants.
\<close>

section \<open>Runs\<close>

definition expand :: "run list \<Rightarrow> 64 word list" where
  "expand runs = concat (map (\<lambda>r. replicate (rn_length r) (rn_code r)) runs)"

fun run_ends :: "nat \<Rightarrow> run list \<Rightarrow> nat list" where
  "run_ends t [] = []"
| "run_ends t (r # rs) = (t + rn_length r) # run_ends (t + rn_length r) rs"

lemma expand_simps [simp]:
  "expand [] = []" "expand (r # rs) = replicate (rn_length r) (rn_code r) @ expand rs"
  "expand (rs @ ss) = expand rs @ expand ss"
  by (simp_all add: expand_def)

lemma run_ends_simps [simp]: "length (run_ends t rs) = length rs"
  "run_ends t (rs @ ss) = run_ends t rs @ run_ends (t + length (expand rs)) ss"
  by (induction rs arbitrary: t) (simp_all add: ac_simps)

lemma run_ends_ge: "i < length rs \<Longrightarrow> t \<le> run_ends t rs ! i"
proof (induction rs arbitrary: t i)
  case (Cons r rs)
  show ?case using Cons.IH [of "i - 1" "t + rn_length r"] Cons.prems by (cases i) auto
qed simp

lemma run_ends_mono: "i \<le> j \<Longrightarrow> j < length rs \<Longrightarrow> run_ends t rs ! i \<le> run_ends t rs ! j"
proof (induction rs arbitrary: t i j)
  case (Cons r rs)
  show ?case
  proof (cases j)
    case (Suc j')
    then show ?thesis
      using Cons run_ends_ge [of j' rs "t + rn_length r"] by (cases i) auto
  qed (use Cons.prems in simp)
qed simp

lemma run_at:
  assumes "t \<le> row" "i < length rs" "row < run_ends t rs ! i" "\<And>a. a < i \<Longrightarrow> \<not> row < run_ends t rs ! a"
  shows "rn_code (rs ! i) = expand rs ! (row - t)"
  using assms
proof (induction rs arbitrary: t i)
  case (Cons r rs)
  show ?case
  proof (cases i)
    case 0
    then have "row - t < rn_length r" using Cons.prems(1,3) by simp
    then show ?thesis using 0 by (simp add: nth_append)
  next
    case (Suc j)
    have past: "t + rn_length r \<le> row" using Cons.prems(4) [of 0] Suc by simp
    have "rn_code (rs ! j) = expand rs ! (row - (t + rn_length r))"
    proof (rule Cons.IH [OF past])
      show "\<not> row < run_ends (t + rn_length r) rs ! a" if "a < j" for a
        using Cons.prems(4) [of "Suc a"] Suc that by simp
    qed (use Cons.prems(2,3) Suc in simp_all)
    moreover have "\<not> row - t < rn_length r" "row - t - rn_length r = row - (t + rn_length r)" using past by linarith+
    ultimately show ?thesis using Suc by (simp add: nth_append)
  qed
qed simp

lemma run_ends_last: "rs \<noteq> [] \<Longrightarrow> run_ends t rs ! (length rs - 1) = t + length (expand rs)"
proof (induction rs arbitrary: t)
  case (Cons r rs)
  then show ?case by (cases "rs = []") (simp_all add: nth_Cons' add.assoc)
qed simp

section \<open>What an opened column is\<close>

definition dict_ok :: "column \<Rightarrow> bool" where
  "dict_ok c \<longleftrightarrow>
     length (co_offsets c) = 4 * (co_entries c + 1) \<and>
     Uint32_at (co_offsets c) (4 * co_entries c) = length (co_blob c) \<and>
     (\<forall>i < co_entries c. Uint32_at (co_offsets c) (4 * i) \<le> Uint32_at (co_offsets c) (4 * (i + 1)))"

definition column_ok :: "column \<Rightarrow> bool" where
  "column_ok c \<longleftrightarrow>
     known (co_typ c) \<and> (co_bits c \<le> maxPackedBits \<or> co_bits c = 64) \<and>
     co_mask c = (if co_bits c < 64 then push_bit (co_bits c) 1 - 1 else - 1) \<and>
     (\<forall>p. co_present c = Some p \<longrightarrow> rows_ok p \<and> rb_n p = co_rows c) \<and>
     (co_encoding c = EncodingPlain \<longrightarrow> length (co_codes c) = codeBytes (co_rows c) (co_bits c)) \<and>
     (co_encoding c \<noteq> EncodingPlain \<longrightarrow> co_encoding c = EncodingRuns \<and>
        co_ends c = run_ends 0 (co_runs c) \<and> length (expand (co_runs c)) = co_rows c) \<and>
     (co_typ c = TypeString \<longrightarrow> dict_ok c)"

lemma read_runs_ok:
  assumes "read_runs n rows rest covered runs ends = Inr (rest', covered', runs', ends')"
    and "ends = run_ends 0 runs" "length (expand runs) = covered" "covered \<le> rows"
  shows "ends' = run_ends 0 runs' \<and> length (expand runs') = covered' \<and> covered' \<le> rows"
  using assms
  by (induction n rows rest covered runs ends rule: read_runs.induct)
    (simp, auto simp: Let_def split: prod.splits if_splits)

text \<open>Each step of \<open>Open\<close> leaves what it does not read.\<close>

definition same_header :: "column \<Rightarrow> column \<Rightarrow> bool" where
  "same_header c d \<longleftrightarrow>
     co_typ d = co_typ c \<and> co_encoding d = co_encoding c \<and> co_bits d = co_bits c \<and> co_mask d = co_mask c \<and>
     co_rows d = co_rows c \<and> co_entries d = co_entries c \<and> co_base d = co_base c"

lemma readCodes_ok:
  assumes "readCodes c rest = Inr (rest', d)"
    and "co_encoding c = EncodingPlain \<or> co_encoding c = EncodingRuns"
  shows "same_header c d" "co_present d = co_present c"
    "co_encoding c = EncodingPlain \<Longrightarrow> length (co_codes d) = codeBytes (co_rows c) (co_bits c)"
    "co_encoding c \<noteq> EncodingPlain \<Longrightarrow> co_ends d = run_ends 0 (co_runs d) \<and> length (expand (co_runs d)) = co_rows c"
proof -
  show "same_header c d" "co_present d = co_present c"
    "co_encoding c = EncodingPlain \<Longrightarrow> length (co_codes d) = codeBytes (co_rows c) (co_bits c)"
    using assms(1) by (auto simp: readCodes_def Let_def same_header_def split: if_splits sum.splits)
  assume "co_encoding c \<noteq> EncodingPlain"
  then obtain rest1 covered runs ends where r:
      "read_runs (Uint32_at rest 0) (co_rows c) (drop 4 rest) 0 [] [] = Inr (rest1, covered, runs, ends)"
      "covered = co_rows c" "d = c\<lparr>co_runs := runs, co_ends := ends\<rparr>"
    using assms(1) by (auto simp: readCodes_def Let_def split: if_splits sum.splits)
  then show "co_ends d = run_ends 0 (co_runs d) \<and> length (expand (co_runs d)) = co_rows c"
    using read_runs_ok [OF r(1)] by simp
qed

lemma offsets_ascend_step:
  assumes "offsets_ascend offs prev [m..<n]" "m \<le> i" "Suc i < n"
  shows "Uint32_at offs (4 * i) \<le> Uint32_at offs (4 * Suc i)"
  using assms
proof (induction "n - m" arbitrary: m prev)
  case (Suc k)
  then have m: "[m..<n] = m # [Suc m..<n]" by (simp add: upt_conv_Cons)
  then have step: "offsets_ascend offs (Uint32_at offs (4 * m)) [Suc m..<n]"
    using Suc.prems(1) by (simp add: Let_def split: if_splits)
  show ?case
  proof (cases "m = i")
    case True
    then have "[Suc m..<n] = Suc i # [Suc (Suc i)..<n]" using Suc.prems(3) by (simp add: upt_conv_Cons)
    then show ?thesis using step True by (simp add: Let_def split: if_splits)
  next
    case False
    then show ?thesis using Suc.hyps(1) [of "Suc m"] Suc.hyps(2) Suc.prems step by simp
  qed
qed simp

lemma readDict_ok:
  assumes "readDict c rest = Inr (rest', d)"
  shows "same_header c d" "co_present d = co_present c" "co_codes d = co_codes c" "co_runs d = co_runs c"
    "co_ends d = co_ends c" "co_typ c = TypeString \<Longrightarrow> dict_ok d"
proof -
  show "same_header c d" "co_present d = co_present c" "co_codes d = co_codes c" "co_runs d = co_runs c"
    "co_ends d = co_ends c"
    using assms by (auto simp: readDict_def Let_def same_header_def split: if_splits)
  assume True: "co_typ c = TypeString"
  let ?n = "4 * (co_entries c + 1)" and ?offs = "take (4 * (co_entries c + 1)) rest"
  let ?blob = "Uint32_at ?offs (4 * co_entries c)"
  have r: "?n \<le> length rest" "?blob \<le> length (drop ?n rest)"
    "offsets_ascend ?offs 0 [1..<co_entries c + 1]" "0 < co_entries c \<longrightarrow> Uint32_at ?offs 0 = 0"
    "d = c\<lparr>co_offsets := ?offs, co_blob := take ?blob (drop ?n rest)\<rparr>"
    using assms True by (auto simp: readDict_def Let_def split: if_splits)
  have "Uint32_at ?offs (4 * i) \<le> Uint32_at ?offs (4 * (i + 1))" if "i < co_entries c" for i
    using that r(4) offsets_ascend_step [OF r(3), of i] by (cases i) simp_all
  then show "dict_ok d" using r(1,2) unfolding r(5) dict_ok_def by simp
qed

lemma read_presence_ok:
  assumes "read_presence b c rest = Inr (rest', d)" "co_present c = None"
  shows "same_header c d" "co_present d = Some p \<Longrightarrow> rows_ok p \<and> rb_n p = co_rows c"
proof -
  let ?p = "(NewRows (int (co_rows c)))\<lparr>rb_words :=
    map (\<lambda>i. word_of_nat (Uint64_at rest (i * 8))) [0..<(co_rows c + 63) div 64]\<rparr>"
  have d: "d = c \<or> d = c\<lparr>co_present := Some (trim ?p)\<rparr>"
    using assms by (auto simp: read_presence_def Let_def split: if_splits)
  then show "same_header c d" by (auto simp: same_header_def)
  have "length (rb_words ?p) = (rb_n ?p + 63) div 64" by simp
  from trim_ok [OF this] show "co_present d = Some p \<Longrightarrow> rows_ok p \<and> rb_n p = co_rows c"
    using d assms(2) by auto
qed

lemma Open_steps:
  assumes "Open b = Inr c"
  obtains rest1 c1 rest2 c2 where "\<not> header_damaged b (read_header b)"
    "read_presence b (read_header b) (drop headerSize b) = Inr (rest1, c1)"
    "readCodes c1 rest1 = Inr (rest2, c2)" "readDict c2 rest2 = Inr ([], c)"
  using assms by (auto simp: Open_def Let_def split: if_splits sum.splits)

lemma Open_ok:
  assumes "Open b = Inr c"
  shows "column_ok c"
proof -
  let ?h = "read_header b"
  obtain rest1 c1 rest2 c2 where h: "\<not> header_damaged b ?h" and
    p: "read_presence b ?h (drop headerSize b) = Inr (rest1, c1)" and
    r: "readCodes c1 rest1 = Inr (rest2, c2)" and d: "readDict c2 rest2 = Inr ([], c)"
    using Open_steps [OF assms] by blast
  have h0: "co_present ?h = None" "co_mask ?h = (if co_bits ?h < 64 then push_bit (co_bits ?h) 1 - 1 else - 1)"
    by (simp_all add: read_header_def Let_def)
  note p = read_presence_ok [OF p h0(1)]
  have enc: "co_encoding c1 = EncodingPlain \<or> co_encoding c1 = EncodingRuns"
    using h p(1) by (auto simp: header_damaged_def same_header_def)
  note r = readCodes_ok [OF r enc] and d = readDict_ok [OF d]
  have same: "co_typ c = co_typ ?h" "co_encoding c = co_encoding ?h" "co_bits c = co_bits ?h"
    "co_mask c = co_mask ?h" "co_rows c = co_rows ?h" "co_typ c2 = co_typ ?h"
    "co_encoding c1 = co_encoding ?h" "co_rows c1 = co_rows ?h" "co_bits c1 = co_bits ?h"
    using p(1) r(1) d(1) by (simp_all add: same_header_def)
  have head: "known (co_typ ?h)" "co_bits ?h \<le> maxPackedBits \<or> co_bits ?h = 64"
    using h unfolding header_damaged_def by linarith+
  show ?thesis
    unfolding column_ok_def
  proof (intro conjI)
    show "\<forall>p. co_present c = Some p \<longrightarrow> rows_ok p \<and> rb_n p = co_rows c"
      using p(2) r(2) d(2) same by simp
    show "co_encoding c \<noteq> EncodingPlain \<longrightarrow> co_encoding c = EncodingRuns \<and>
        co_ends c = run_ends 0 (co_runs c) \<and> length (expand (co_runs c)) = co_rows c"
      using r(4) d(4,5) enc same by auto
    show "co_encoding c = EncodingPlain \<longrightarrow> length (co_codes c) = codeBytes (co_rows c) (co_bits c)"
      using r(3) d(3) same by simp
  qed (use head h0(2) same d(6) in simp_all)
qed

section \<open>Reads inside the slices\<close>

text \<open>
  The reads of a packed code and of a dictionary entry: eight bytes at the byte a code starts in,
  and the text between two offsets.
\<close>

lemma code_read:
  assumes "column_ok c" "co_encoding c = EncodingPlain" "co_bits c \<noteq> 0" "row < co_rows c"
  shows "row * co_bits c div 8 + 8 \<le> length (co_codes c)"
proof -
  have "row * co_bits c \<le> co_rows c * co_bits c" using assms(4) by (intro mult_le_mono1) simp
  then have "row * co_bits c \<le> co_rows c * co_bits c + 7" by linarith
  then have "row * co_bits c div 8 \<le> (co_rows c * co_bits c + 7) div 8" by (rule div_le_mono)
  then show ?thesis using assms by (simp add: column_ok_def codeBytes_def)
qed

lemma dict_read:
  assumes "dict_ok c" "i < co_entries c"
  shows "4 * (i + 1) + 4 \<le> length (co_offsets c)"
    "Uint32_at (co_offsets c) (4 * i) \<le> Uint32_at (co_offsets c) (4 * (i + 1))"
    "Uint32_at (co_offsets c) (4 * (i + 1)) \<le> length (co_blob c)"
proof -
  show "4 * (i + 1) + 4 \<le> length (co_offsets c)"
    "Uint32_at (co_offsets c) (4 * i) \<le> Uint32_at (co_offsets c) (4 * (i + 1))"
    using assms by (simp_all add: dict_ok_def)
  have "Uint32_at (co_offsets c) (4 * j) \<le> length (co_blob c)" if "j \<le> co_entries c" for j
    using that
  proof (induction "co_entries c - j" arbitrary: j)
    case 0
    then show ?case using assms(1) by (simp add: dict_ok_def)
  next
    case (Suc k)
    then have "Uint32_at (co_offsets c) (4 * j) \<le> Uint32_at (co_offsets c) (4 * (j + 1))"
      using assms(1) by (simp add: dict_ok_def)
    also have "\<dots> \<le> length (co_blob c)" by (rule Suc.hyps(1)) (use Suc in simp_all)
    finally show ?case .
  qed
  then show "Uint32_at (co_offsets c) (4 * (i + 1)) \<le> length (co_blob c)" using assms(2) by (metis Suc_eq_plus1 Suc_leI)
qed

lemma code_runs:
  assumes "column_ok c" "co_encoding c = EncodingRuns" "row < co_rows c"
  shows "code c row = expand (co_runs c) ! row"
proof -
  let ?rs = "co_runs c" and ?f = "\<lambda>i. row < run_ends 0 (co_runs c) ! i"
  let ?i = "Search (length ?rs) ?f"
  have ends: "co_ends c = run_ends 0 ?rs" and len: "length (expand ?rs) = co_rows c"
    using assms by (simp_all add: column_ok_def EncodingPlain_def EncodingRuns_def)
  have mono: "ascending (length ?rs) ?f"
    unfolding ascending_def using run_ends_mono [of _ _ ?rs 0] by (blast intro: less_le_trans)
  have "?rs \<noteq> []" using len assms(3) by auto
  then have "?f (length ?rs - 1)" using run_ends_last [of ?rs 0] len assms(3) by simp
  then have "?i < length ?rs \<and> ?f ?i"
    using \<open>?rs \<noteq> []\<close> by (intro Search_less [OF mono, of "length ?rs - 1"]) auto
  then have "?i < length ?rs" "?f ?i" by simp_all
  then have "rn_code (?rs ! ?i) = expand ?rs ! (row - 0)"
    by (rule run_at [OF le0]) (rule Search_first(2) [OF mono])
  then show ?thesis using assms(2) \<open>?i < length ?rs\<close> by (simp add: code_def Let_def ends)
qed

section \<open>The scan\<close>

lemma scan_runs:
  assumes "rows_ok out" "snd (foldl (scan_run f) (at, out) rs) = res" "at + length (expand rs) \<le> rb_n out"
  shows "rows_ok res \<and> rb_n res = rb_n out \<and>
    (\<forall>i. row_in res i \<longleftrightarrow> row_in out i \<or> at \<le> i \<and> i < at + length (expand rs) \<and> has_code f (expand rs ! (i - at)))"
  using assms
proof (induction rs arbitrary: at out)
  case (Cons r rs)
  let ?out = "if has_code f (rn_code r) then SetRange (int at) (int (at + rn_length r)) out else out"
  have o: "rows_ok ?out" "rb_n ?out = rb_n out" using Cons.prems(1) by simp_all
  have rs: "snd (foldl (scan_run f) (at + rn_length r, ?out) rs) = res" "at + rn_length r + length (expand rs) \<le> rb_n ?out"
    using Cons.prems(2,3) o(2) by (simp_all add: scan_run_def)
  have "row_in ?out i \<longleftrightarrow> row_in out i \<or> at \<le> i \<and> i < at + rn_length r \<and> has_code f (rn_code r)" for i
    using Cons.prems(1,3) by (auto simp: row_in_SetRange)
  moreover have "at \<le> i \<and> i < at + length (expand (r # rs)) \<and> has_code f (expand (r # rs) ! (i - at)) \<longleftrightarrow>
      at \<le> i \<and> i < at + rn_length r \<and> has_code f (rn_code r) \<or>
      at + rn_length r \<le> i \<and> i < at + rn_length r + length (expand rs) \<and> has_code f (expand rs ! (i - (at + rn_length r)))" for i
  proof (cases "i < at + rn_length r")
    case True
    then show ?thesis by (cases "at \<le> i") (simp_all add: nth_append less_diff_conv2)
  next
    case False
    then have "\<not> i - at < rn_length r" "i - at - rn_length r = i - (at + rn_length r)" "at \<le> i" by linarith+
    then show ?thesis using False by (simp add: nth_append ac_simps)
  qed
  ultimately show ?case using Cons.IH [OF o(1) rs] o(2) by auto
qed auto

lemma scan_rows:
  assumes "rows_ok out" "n \<le> rb_n out"
  shows "rows_ok (foldl (scan_row c f) out [0..<n]) \<and> rb_n (foldl (scan_row c f) out [0..<n]) = rb_n out \<and>
    (\<forall>i. row_in (foldl (scan_row c f) out [0..<n]) i \<longleftrightarrow> row_in out i \<or> i < n \<and> has_code f (code c i))"
  using assms(2)
proof (induction n)
  case (Suc n)
  let ?p = "foldl (scan_row c f) out [0..<n]"
  have step: "scan_row c f ?p n = (if has_code f (code c n) then Set_row (int n) ?p else ?p)"
    by (cases "fi_set f") (simp_all add: scan_row_def has_code_def)
  have "row_in (scan_row c f ?p n) i \<longleftrightarrow> row_in ?p i \<or> i = n \<and> has_code f (code c n)" for i
    using Suc by (auto simp: step row_in_Set outside_def)
  then show ?case using Suc by (auto simp: step less_Suc_eq)
qed (use assms(1) in simp)

definition valued :: "column \<Rightarrow> nat \<Rightarrow> bool" where
  "valued c i \<longleftrightarrow> snd (CodeAt c (int i))"

lemma valued_iff:
  "column_ok c \<Longrightarrow> valued c i \<longleftrightarrow> i < co_rows c \<and> (\<forall>p. co_present c = Some p \<longrightarrow> row_in p i)"
  by (auto simp: valued_def CodeAt_def column_ok_def split: option.split)

lemma scan_member:
  assumes "Open b = Inr c"
  shows "rows_ok (scan c f) \<and> rb_n (scan c f) = co_rows c \<and>
    (\<forall>i. row_in (scan c f) i \<longleftrightarrow> \<not> fi_empty f \<and> valued c i \<and> has_code f (code c i))"
proof -
  note ok = Open_ok [OF assms]
  let ?n = "co_rows c" and ?new = "NewRows (int (co_rows c))"
  define out where "out = (if co_encoding c = EncodingRuns then snd (foldl (scan_run f) (0, ?new) (co_runs c))
    else if co_bits c = 0 then if has_code f 0 then SetRange 0 (int ?n) ?new else ?new
    else foldl (scan_row c f) ?new [0..<?n])"
  have out: "rows_ok out \<and> rb_n out = ?n \<and> (\<forall>i. row_in out i \<longleftrightarrow> i < ?n \<and> has_code f (code c i))"
  proof (cases "co_encoding c = EncodingRuns")
    case True
    then have "length (expand (co_runs c)) = ?n"
      using ok by (simp add: column_ok_def EncodingRuns_def EncodingPlain_def)
    then show ?thesis
      using scan_runs [of ?new f 0 "co_runs c" out] True code_runs [OF ok True] by (auto simp: out_def)
  next
    case False
    show ?thesis
    proof (cases "co_bits c = 0")
      case True
      then have "code c i = 0" for i using False by (simp add: code_def)
      then show ?thesis using True False by (auto simp: out_def row_in_SetRange)
    next
      case plain: False
      then show ?thesis using False scan_rows [of ?new ?n c f] by (simp add: out_def)
    qed
  qed
  have scan: "scan c f = (if fi_empty f then ?new else case co_present c of None \<Rightarrow> out | Some p \<Rightarrow> And_rows out p)"
    by (simp only: scan_def Let_def out_def)
  show ?thesis
  proof (cases "fi_empty f")
    case True
    then show ?thesis by (simp add: scan)
  next
    case False
    show ?thesis
    proof (cases "co_present c")
      case None
      then show ?thesis using out False by (auto simp: scan valued_iff [OF ok])
    next
      case (Some p)
      then have "rows_ok p" using ok by (simp add: column_ok_def)
      then have "row_in (scan c f) i \<longleftrightarrow> i < ?n \<and> has_code f (code c i) \<and> row_in p i" for i
        using out False Some row_in_And [of out p i] row_in_ok [of p i] by (simp add: scan)
      moreover have "valued c i \<longleftrightarrow> i < ?n \<and> row_in p i" for i using Some by (simp add: valued_iff [OF ok])
      ultimately show ?thesis using out False Some by (auto simp: scan)
    qed
  qed
qed

text \<open>
  C39: a scan over any bytes \<open>Open\<close> accepts answers with a well formed bitmap over the column's rows,
  and the rows in it are exactly those that have a value and whose code the predicate wants, whichever
  encoding the column has; a null row is never in it.
\<close>

theorem scan_exact:
  assumes "Open b = Inr c"
  shows "rows_ok (scan c f) \<and> rb_n (scan c f) = co_rows c \<and>
    (\<forall>i. row_in (scan c f) i \<longleftrightarrow> \<not> fi_empty f \<and> valued c i \<and> has_code f (code c i))"
  by (rule scan_member [OF assms])

end
