(* ===== verification/Column_Builder.thy ===== *)
theory Column_Builder
  imports Column
begin

text \<open>
  The builder as a list of cells: after any appends of the column's own type it holds one code for
  each, the distinct strings in the order they arrived, and, once there was a null, which rows have a
  value. The second half shows what \<open>encode\<close> makes of it.
\<close>

section \<open>Cells\<close>

datatype cell = Null | VString string | VInt "64 word" | VTime gtime | VBool bool

fun append_cell :: "cell \<Rightarrow> builder \<Rightarrow> builder" where
  "append_cell Null b = AppendNull b"
| "append_cell (VString s) b = AppendString s b"
| "append_cell (VInt v) b = AppendInt v b"
| "append_cell (VTime t) b = AppendTime t b"
| "append_cell (VBool v) b = AppendBool v b"

fun of_type :: "nat \<Rightarrow> cell \<Rightarrow> bool" where
  "of_type t Null \<longleftrightarrow> True"
| "of_type t (VString s) \<longleftrightarrow> t = TypeString"
| "of_type t (VInt v) \<longleftrightarrow> t = TypeInt"
| "of_type t (VTime v) \<longleftrightarrow> t = TypeTime"
| "of_type t (VBool v) \<longleftrightarrow> t = TypeBool"

definition collect :: "nat \<Rightarrow> cell list \<Rightarrow> builder" where
  "collect t cells = foldl (\<lambda>b c. append_cell c b) (NewBuilder t) cells"

lemma collect_snoc [simp]: "collect t [] = NewBuilder t" "collect t (cs @ [c]) = append_cell c (collect t cs)"
  by (simp_all add: collect_def)

definition strings_of :: "cell list \<Rightarrow> string list" where
  "strings_of cells = concat (map (\<lambda>c. case c of VString s \<Rightarrow> [s] | _ \<Rightarrow> []) cells)"

lemma strings_of_simps [simp]:
  "strings_of [] = []" "strings_of (cs @ [c]) = strings_of cs @ (case c of VString s \<Rightarrow> [s] | _ \<Rightarrow> [])"
  by (simp_all add: strings_of_def)

lemma set_strings_of: "s \<in> set (strings_of cells) \<longleftrightarrow> VString s \<in> set cells"
  by (force simp: strings_of_def split: cell.splits)

text \<open>The code a cell is pushed as; a string's is its place among the terms.\<close>

fun raw_code :: "(string, nat) fmap \<Rightarrow> cell \<Rightarrow> 64 word" where
  "raw_code ids Null = 0"
| "raw_code ids (VString s) = word_of_nat (the (fmlookup ids s))"
| "raw_code ids (VInt v) = v"
| "raw_code ids (VTime t) = UnixMilli t"
| "raw_code ids (VBool v) = (if v then 1 else 0)"

section \<open>The presence bitmap\<close>

lemma grow_ok:
  assumes "rows_ok p" "Len p < rows"
  shows "rows_ok (growPresence rows p)" "rows \<le> rb_n (growPresence rows p)"
    "row_in (growPresence rows p) i \<longleftrightarrow> row_in p i \<or> Len p \<le> i \<and> i < rows - 1"
proof -
  let ?n = "max rows (2 * Len p)"
  define q where "q = (NewRows (int ?n))\<lparr>rb_words := rb_words p @
    drop (length (rb_words p)) (rb_words (NewRows (int ?n)))\<rparr>"
  have words: "rb_words q = rb_words p @ replicate ((?n + 63) div 64 - length (rb_words p)) 0" "rb_n q = ?n"
    by (simp_all add: q_def NewRows_def Let_def)
  have "length (rb_words p) \<le> (?n + 63) div 64"
    using assms by (auto simp: rows_ok_def Len_def intro!: div_le_mono)
  then have q: "rows_ok q" "row_in q i \<longleftrightarrow> row_in p i" for i
    using assms by (auto simp: rows_ok_def row_in_def words Len_def)
  have fold: "rows_ok (foldl (\<lambda>p i. Set_row (int i) p) q is) \<and> rb_n (foldl (\<lambda>p i. Set_row (int i) p) q is) = ?n \<and>
      (row_in (foldl (\<lambda>p i. Set_row (int i) p) q is) i \<longleftrightarrow> row_in p i \<or> i \<in> set is)" if "\<forall>i \<in> set is. i < ?n" for "is" i
    using that by (induction "is" rule: rev_induct) (auto simp: q words(2) row_in_Set outside_def)
  have inr: "\<forall>i \<in> set [Len p..<rows - 1]. i < ?n" by auto
  have "growPresence rows p = foldl (\<lambda>p i. Set_row (int i) p) q [Len p..<rows - 1]"
    using assms(2) by (simp add: growPresence_def Let_def q_def)
  then show "rows_ok (growPresence rows p)" "rows \<le> rb_n (growPresence rows p)"
    "row_in (growPresence rows p) i \<longleftrightarrow> row_in p i \<or> Len p \<le> i \<and> i < rows - 1"
    using fold [of "[Len p..<rows - 1]"] inr by simp_all
qed

lemma grow_none: "rows \<le> Len p \<Longrightarrow> growPresence rows p = p"
  by (simp add: growPresence_def)

definition presence_ok :: "builder \<Rightarrow> (nat \<Rightarrow> bool) \<Rightarrow> bool" where
  "presence_ok b P \<longleftrightarrow>
     (case bu_present b of
        None \<Rightarrow> \<not> bu_nulls b \<and> (\<forall>i < bu_rows b. P i)
      | Some p \<Rightarrow> bu_nulls b \<and> rows_ok p \<and> bu_rows b \<le> rb_n p \<and>
          (\<forall>i. row_in p i \<longleftrightarrow> i < bu_rows b \<and> P i))"

lemma push_simps:
  assumes "bu_rows b < maxRows"
  shows "bu_err (push c b) = bu_err b" "bu_typ (push c b) = bu_typ b" "bu_rows (push c b) = bu_rows b + 1"
    "bu_codes (push c b) = bu_codes b @ [c]" "bu_nulls (push c b) = bu_nulls b"
    "bu_terms (push c b) = bu_terms b" "bu_ids (push c b) = bu_ids b"
    "bu_present (push c b) = map_option (\<lambda>p. Set_row (int (bu_rows b)) (growPresence (bu_rows b + 1) p)) (bu_present b)"
  using assms by (simp_all add: push_def Let_def split: option.split)

lemma presence_push:
  assumes "presence_ok b P" "bu_rows b < maxRows"
  shows "presence_ok (push c b) (P(bu_rows b := True))"
proof (cases "bu_present b")
  case None
  then show ?thesis using assms by (simp add: presence_ok_def push_simps)
next
  case (Some p)
  let ?r = "bu_rows b" and ?g = "growPresence (bu_rows b + 1) p"
  have p: "rows_ok p" "?r \<le> rb_n p" "row_in p i \<longleftrightarrow> i < ?r \<and> P i" for i
    using assms(1) Some by (simp_all add: presence_ok_def)
  have g: "rows_ok ?g" "?r + 1 \<le> rb_n ?g" "row_in ?g i \<longleftrightarrow> i < ?r \<and> P i" for i
  proof (atomize (full), cases "Len p < ?r + 1")
    case True
    then have "Len p = ?r" using p(2) by (simp add: Len_def)
    then have "row_in ?g i \<longleftrightarrow> i < ?r \<and> P i" using grow_ok(3) [OF p(1) True, of i] p(3) [of i] by simp linarith
    then show "rows_ok ?g \<and> ?r + 1 \<le> rb_n ?g \<and> (row_in ?g i \<longleftrightarrow> i < ?r \<and> P i)"
      using grow_ok(1,2) [OF p(1) True] by blast
  next
    case False
    then have "growPresence (?r + 1) p = p" by (intro grow_none) simp
    then show "rows_ok ?g \<and> ?r + 1 \<le> rb_n ?g \<and> (row_in ?g i \<longleftrightarrow> i < ?r \<and> P i)"
      using False p(1) p(3) [of i] by (simp add: Len_def)
  qed
  have s: "rows_ok (Set_row (int ?r) ?g)" "row_in (Set_row (int ?r) ?g) i \<longleftrightarrow> i < ?r + 1 \<and> (P(?r := True)) i" for i
    using g by (simp, auto simp: row_in_Set outside_def less_Suc_eq)
  have "bu_present (push c b) = Some (Set_row (int ?r) ?g)" "bu_nulls (push c b)" "bu_rows (push c b) = ?r + 1"
    using assms Some by (simp_all add: push_simps presence_ok_def)
  then show ?thesis using g s unfolding presence_ok_def by simp
qed

lemma presence_null:
  assumes "presence_ok b P" "bu_rows b < maxRows" "bu_err b = None"
  shows "presence_ok (AppendNull b) (P(bu_rows b := False))" "bu_err (AppendNull b) = None"
    "bu_typ (AppendNull b) = bu_typ b" "bu_rows (AppendNull b) = bu_rows b + 1"
    "bu_codes (AppendNull b) = bu_codes b @ [0]" "bu_nulls (AppendNull b)"
    "bu_terms (AppendNull b) = bu_terms b" "bu_ids (AppendNull b) = bu_ids b"
proof -
  let ?b = "(if bu_present b = None then b\<lparr>bu_present := Some (NewRows 0)\<rparr> else b)\<lparr>bu_nulls := True\<rparr>"
  let ?r = "bu_rows b"
  have rows: "bu_rows ?b < maxRows" using assms(2) by simp
  have eq: "AppendNull b = (push 0 ?b)\<lparr>bu_present := map_option (Clear_row (int (bu_rows (push 0 ?b)) - 1)) (bu_present (push 0 ?b))\<rparr>"
    using assms(3) by (simp add: AppendNull_def Let_def)
  note simps = push_simps [OF rows, of 0]
  show "bu_err (AppendNull b) = None" "bu_typ (AppendNull b) = bu_typ b" "bu_rows (AppendNull b) = bu_rows b + 1"
    "bu_codes (AppendNull b) = bu_codes b @ [0]" "bu_nulls (AppendNull b)"
    "bu_terms (AppendNull b) = bu_terms b" "bu_ids (AppendNull b) = bu_ids b"
    unfolding eq using assms(3) simps by (simp_all split: if_splits)
  obtain q where q: "bu_present (push 0 ?b) = Some q" "rows_ok q" "?r + 1 \<le> rb_n q"
    "\<And>i. row_in q i \<longleftrightarrow> i < ?r \<and> P i \<or> i = ?r"
  proof (cases "bu_present b")
    case None
    let ?g = "growPresence (?r + 1) (NewRows 0)"
    have "Len (NewRows 0) < ?r + 1" by (simp add: Len_def)
    note g = grow_ok [OF New_ok(1) this]
    have "bu_present (push 0 ?b) = Some (Set_row (int ?r) ?g)" using None simps(8) by simp
    moreover have "P i" if "i < ?r" for i using assms(1) None that by (simp add: presence_ok_def)
    ultimately show ?thesis
      using that [of "Set_row (int ?r) ?g"] g by (auto simp: row_in_Set outside_def Len_def)
  next
    case (Some p)
    then have b: "presence_ok (b\<lparr>bu_nulls := True\<rparr>) P" using assms(1) by (simp add: presence_ok_def)
    have "push 0 ?b = push 0 (b\<lparr>bu_nulls := True\<rparr>)" using Some by simp
    with presence_push [OF b, of 0] assms(2) Some show ?thesis
      using that by (simp add: presence_ok_def push_simps less_Suc_eq)
  qed
  have n: "bu_rows (push 0 ?b) = ?r + 1" "bu_nulls (push 0 ?b)" using simps by simp_all
  show "presence_ok (AppendNull b) (P(?r := False))"
    using q n unfolding eq presence_ok_def by (auto simp: row_in_Clear less_Suc_eq)
qed

section \<open>What was appended\<close>

definition ids_ok :: "builder \<Rightarrow> bool" where
  "ids_ok b \<longleftrightarrow> distinct (bu_terms b) \<and>
     (\<forall>s i. fmlookup (bu_ids b) s = Some i \<longleftrightarrow> i < length (bu_terms b) \<and> bu_terms b ! i = s)"

definition collected :: "nat \<Rightarrow> cell list \<Rightarrow> builder \<Rightarrow> bool" where
  "collected t cells b \<longleftrightarrow>
     bu_err b = None \<and> bu_typ b = t \<and> bu_rows b = length cells \<and>
     (bu_nulls b \<longleftrightarrow> Null \<in> set cells) \<and>
     presence_ok b (\<lambda>i. cells ! i \<noteq> Null) \<and>
     bu_codes b = map (raw_code (bu_ids b)) cells \<and>
     ids_ok b \<and> set (bu_terms b) = set (strings_of cells) \<and> length (bu_terms b) \<le> length cells"

lemma presence_cong:
  assumes "presence_ok b P" "bu_present b' = bu_present b" "bu_nulls b' = bu_nulls b" "bu_rows b' = bu_rows b"
    and "\<And>i. i < bu_rows b \<Longrightarrow> P i = Q i"
  shows "presence_ok b' Q"
  using assms by (auto simp: presence_ok_def split: option.splits)

lemma ids_new:
  assumes "ids_ok b" "fmlookup (bu_ids b) s = None"
  shows "ids_ok (b\<lparr>bu_ids := fmupd s (length (bu_terms b)) (bu_ids b), bu_terms := bu_terms b @ [s]\<rparr>)"
proof -
  have "s \<notin> set (bu_terms b)"
    using assms unfolding ids_ok_def in_set_conv_nth by (metis option.distinct(1))
  then show ?thesis
    using assms unfolding ids_ok_def by (auto simp: nth_append less_Suc_eq in_set_conv_nth)
qed

lemma ids_lookup: "ids_ok b \<Longrightarrow> s \<in> set (bu_terms b) \<Longrightarrow> \<exists>i. fmlookup (bu_ids b) s = Some i"
  by (auto simp: ids_ok_def in_set_conv_nth)

lemma collected_push:
  assumes "collected t cells b" "length cells < maxRows" "of_type t c" "c \<noteq> Null"
    and "bu_ids b' = bu_ids b \<or> bu_ids b' = fmupd s i (bu_ids b) \<and> fmlookup (bu_ids b) s = None"
    and "bu_err b' = None" "bu_typ b' = t" "bu_rows b' = bu_rows b" "bu_nulls b' = bu_nulls b"
    "bu_present b' = bu_present b" "bu_codes b' = bu_codes b" "ids_ok b'"
    "set (bu_terms b') = set (strings_of (cells @ [c]))" "length (bu_terms b') \<le> length cells + 1"
  shows "collected t (cells @ [c]) (push (raw_code (bu_ids b') c) b')"
proof -
  have rows: "bu_rows b' < maxRows" "bu_rows b' = length cells" using assms by (simp_all add: collected_def)
  have "presence_ok b (\<lambda>i. cells ! i \<noteq> Null)" using assms(1) by (simp add: collected_def)
  then have "presence_ok b' (\<lambda>i. cells ! i \<noteq> Null)" by (rule presence_cong) (use assms in simp_all)
  from presence_push [OF this rows(1), of "raw_code (bu_ids b') c"]
  have "presence_ok (push (raw_code (bu_ids b') c) b') (\<lambda>i. (cells @ [c]) ! i \<noteq> Null)"
    by (rule presence_cong) (use assms(4) rows in \<open>auto simp: push_simps nth_append\<close>)
  moreover have "raw_code (bu_ids b) x = raw_code (bu_ids b') x" if "x \<in> set cells" for x
  proof (cases x)
    case (VString u)
    then have "u \<in> set (bu_terms b)" "ids_ok b" using that assms(1) by (simp_all add: collected_def set_strings_of)
    then obtain j where "fmlookup (bu_ids b) u = Some j" using ids_lookup by blast
    then show ?thesis using VString assms(5) by auto
  qed simp_all
  ultimately show ?thesis
    using assms rows by (auto simp: collected_def push_simps ids_ok_def)
qed

lemma AppendString_eq:
  assumes "bu_err b = None" "bu_typ b = TypeString"
  shows "AppendString s b =
    (case fmlookup (bu_ids b) s of
       Some i \<Rightarrow> push (word_of_nat i) b
     | None \<Rightarrow> push (word_of_nat (length (bu_terms b)))
         (b\<lparr>bu_ids := fmupd s (length (bu_terms b)) (bu_ids b), bu_terms := bu_terms b @ [s]\<rparr>))"
  using assms by (simp add: AppendString_def check_def Let_def split: option.split)

lemma collected_append:
  assumes "collected t cells b" "length cells < maxRows" "of_type t c"
  shows "collected t (cells @ [c]) (append_cell c b)"
proof -
  have b: "bu_err b = None" "bu_typ b = t" "bu_rows b = length cells" "ids_ok b"
    "set (bu_terms b) = set (strings_of cells)" "length (bu_terms b) \<le> length cells"
    using assms(1) by (simp_all add: collected_def)
  show ?thesis
  proof (cases c)
    case Null
    have "presence_ok b (\<lambda>i. cells ! i \<noteq> Null)" "bu_rows b < maxRows"
      using assms by (simp_all add: collected_def)
    note n = presence_null [OF this b(1)]
    have "presence_ok (AppendNull b) (\<lambda>i. (cells @ [c]) ! i \<noteq> Null)"
      by (rule presence_cong [OF n(1)]) (use Null b(3) n(4) in \<open>auto simp: nth_append\<close>)
    moreover have "bu_codes b = map (raw_code (bu_ids b)) cells" using assms(1) by (simp add: collected_def)
    ultimately show ?thesis
      using n(2-) Null b by (simp add: collected_def ids_ok_def)
  next
    case (VString s)
    then have t: "t = TypeString" using assms(3) by simp
    show ?thesis
    proof (cases "fmlookup (bu_ids b) s")
      case (Some i)
      then have "s \<in> set (bu_terms b)" using b(4) unfolding ids_ok_def by (metis nth_mem)
      moreover have "AppendString s b = push (raw_code (bu_ids b) c) b"
        using AppendString_eq [of b s] b t Some VString by simp
      ultimately show ?thesis
        using collected_push [OF assms, of b s i] b VString by auto
    next
      case None
      let ?b = "b\<lparr>bu_ids := fmupd s (length (bu_terms b)) (bu_ids b), bu_terms := bu_terms b @ [s]\<rparr>"
      have "AppendString s b = push (raw_code (bu_ids ?b) c) ?b"
        using AppendString_eq [of b s] b t None VString by simp
      then show ?thesis
        using collected_push [OF assms, of ?b s "length (bu_terms b)"] b VString None ids_new [OF b(4) None]
        by simp
    qed
  next
    case (VInt v)
    have "append_cell c b = push (raw_code (bu_ids b) c) b"
      using VInt assms(3) b by (simp add: AppendInt_def check_def)
    then show ?thesis using collected_push [OF assms, of b] b VInt by simp
  next
    case (VTime v)
    have "append_cell c b = push (raw_code (bu_ids b) c) b"
      using VTime assms(3) b by (simp add: AppendTime_def check_def)
    then show ?thesis using collected_push [OF assms, of b] b VTime by simp
  next
    case (VBool v)
    have "append_cell c b = push (raw_code (bu_ids b) c) b"
      using VBool assms(3) b by (simp add: AppendBool_def check_def)
    then show ?thesis using collected_push [OF assms, of b] b VBool by simp
  qed
qed

lemma collect_ok:
  assumes "known t" "list_all (of_type t) cells" "length cells \<le> maxRows"
  shows "collected t cells (collect t cells)"
  using assms(2,3)
proof (induction cells rule: rev_induct)
  case Nil
  then show ?case
    using assms(1) by (simp add: collected_def NewBuilder_def presence_ok_def ids_ok_def)
next
  case (snoc c cells)
  then show ?case by (simp add: collected_append)
qed

section \<open>The codes\<close>

lemma skipped_iff:
  assumes "collected t cells b" "i < length cells"
  shows "bu_nulls b \<and> \<not> present_at b i \<longleftrightarrow> cells ! i = Null"
  using assms by (auto simp: collected_def presence_ok_def present_at_def split: option.splits)

lemma enumerate_snoc: "enumerate n (xs @ [x]) = enumerate n xs @ [(n + length xs, x)]"
  by (simp add: enumerate_append_eq)

lemma min_fold:
  assumes "foldl (min_step b) (True, 0) (enumerate 0 codes) = (first, lo)"
  shows "if first then \<forall>i < length codes. bu_nulls b \<and> \<not> present_at b i
    else (\<forall>i < length codes. \<not> (bu_nulls b \<and> \<not> present_at b i) \<longrightarrow> sint lo \<le> sint (codes ! i))"
  using assms
proof (induction codes arbitrary: first lo rule: rev_induct)
  case (snoc v codes)
  obtain first' lo' where f: "foldl (min_step b) (True, 0) (enumerate 0 codes) = (first', lo')" by fastforce
  have "min_step b (first', lo') (length codes, v) = (first, lo)"
    using snoc.prems by (simp add: enumerate_snoc f)
  then have step: "(first, lo) = (if bu_nulls b \<and> \<not> present_at b (length codes) then (first', lo')
      else if first' \<or> sint v < sint lo' then (False, v) else (first', lo'))"
    by (simp add: min_step_def split: if_splits)
  show ?case
  proof (cases "bu_nulls b \<and> \<not> present_at b (length codes)")
    case True
    then show ?thesis using snoc.IH [OF f] step by (auto simp: nth_append less_Suc_eq)
  next
    case False
    then show ?thesis using snoc.IH [OF f] step by (auto simp: nth_append less_Suc_eq split: if_splits)
  qed
qed simp

lemma rank_table_at:
  assumes "ids_ok b" "distinct sorts" "set sorts \<subseteq> set (bu_terms b)"
  shows "length (rank_table b sorts) = length (bu_terms b)"
    and "r < length sorts \<Longrightarrow> rank_table b sorts ! the (fmlookup (bu_ids b) (sorts ! r)) = r"
proof -
  let ?f = "\<lambda>rank (i, s). rank[the (fmlookup (bu_ids b) s) := i]" and ?z = "replicate (length (bu_terms b)) (0 :: nat)"
  have len: "length (foldl ?f ?z (enumerate 0 ss)) = length (bu_terms b)" for ss
    by (induction ss rule: rev_induct) (simp_all add: enumerate_snoc)
  show "length (rank_table b sorts) = length (bu_terms b)" by (simp add: rank_table_def len)
  have lookup: "\<exists>i. fmlookup (bu_ids b) s = Some i \<and> i < length (bu_terms b) \<and> bu_terms b ! i = s" if "s \<in> set (bu_terms b)" for s
    using ids_lookup [OF assms(1) that] assms(1) unfolding ids_ok_def by blast
  have "r < length ss \<longrightarrow> foldl ?f ?z (enumerate 0 ss) ! the (fmlookup (bu_ids b) (ss ! r)) = r"
    if "distinct ss" "set ss \<subseteq> set (bu_terms b)" for ss r
    using that
  proof (induction ss arbitrary: r rule: rev_induct)
    case (snoc s ss)
    obtain j where j: "fmlookup (bu_ids b) s = Some j" "j < length (bu_terms b)" "bu_terms b ! j = s"
      using lookup [of s] snoc.prems(2) by auto
    show ?case
    proof (cases "r = length ss")
      case True
      then show ?thesis using j(1,2) by (simp add: enumerate_snoc len)
    next
      case False
      have "the (fmlookup (bu_ids b) (ss ! r)) \<noteq> j" if r: "r < length ss"
      proof -
        have "ss ! r \<in> set ss" using r by simp
        then obtain i where i: "fmlookup (bu_ids b) (ss ! r) = Some i" "bu_terms b ! i = ss ! r"
          using lookup [of "ss ! r"] snoc.prems(2) by auto
        moreover have "ss ! r \<noteq> s" using r snoc.prems(1) by auto
        ultimately show ?thesis using j(3) by auto
      qed
      then show ?thesis using False snoc j(1) by (auto simp: enumerate_snoc nth_append less_Suc_eq)
    qed
  qed simp
  then show "r < length sorts \<Longrightarrow> rank_table b sorts ! the (fmlookup (bu_ids b) (sorts ! r)) = r"
    using assms(2,3) by (simp add: rank_table_def)
qed

text \<open>
  What the encoded codes are: of a string its rank among the distinct strings, of a number its
  distance from the smallest one, of a boolean itself.
\<close>

definition encodes :: "nat \<Rightarrow> cell list \<Rightarrow> string list \<Rightarrow> encoded \<Rightarrow> bool" where
  "encodes t cells sorts e \<longleftrightarrow>
     length (ec_codes e) = length cells \<and>
     (\<forall>i < length cells.
        (\<forall>s. cells ! i = VString s \<longrightarrow> unat (ec_codes e ! i) < length sorts \<and> sorts ! unat (ec_codes e ! i) = s) \<and>
        (\<forall>v. cells ! i = VInt v \<longrightarrow> sint v = sint (ec_base e) + int (unat (ec_codes e ! i))) \<and>
        (\<forall>v. cells ! i = VTime v \<longrightarrow> sint (UnixMilli v) = sint (ec_base e) + int (unat (ec_codes e ! i))) \<and>
        (\<forall>v. cells ! i = VBool v \<longrightarrow> ec_codes e ! i = (if v then 1 else 0))) \<and>
     (if t = TypeString then ec_entries e = length sorts \<and> ec_dict e = dict_bytes sorts
      else ec_entries e = 0 \<and> ec_dict e = [])"

lemma unat_diff_sint:
  assumes "sint lo \<le> sint (v :: 64 word)"
  shows "sint v = sint lo + int (unat (v - lo))"
proof -
  have "sint v \<in> {- (2 ^ 63)..<2 ^ 63}" "sint lo \<in> {- (2 ^ 63)..<2 ^ 63}"
    using sint_range_size [of v] sint_range_size [of lo] by (auto simp: word_size)
  then have r: "0 \<le> sint v - sint lo" "sint v - sint lo < 2 ^ 64" using assms by auto
  have "v - lo = word_of_int (sint v) - word_of_int (sint lo)" by simp
  also have "\<dots> = word_of_int (sint v - sint lo)" by (simp only: wi_hom_sub)
  finally have "v - lo = word_of_int (sint v - sint lo)" .
  then have "uint (v - lo) = sint v - sint lo"
    using take_bit_int_eq_self [of "sint v - sint lo" 64] r by (simp only: uint_word_of_int_eq) simp
  then show ?thesis by (simp flip: uint_nat)
qed

lemma length_sort_terms: "set sorts = set xs \<Longrightarrow> distinct sorts \<Longrightarrow> distinct xs \<Longrightarrow> length sorts = length xs"
  by (metis distinct_card)

lemma encode_strings:
  assumes "collected TypeString cells b" "list_all (of_type TypeString) cells"
    and "cells = [] \<or> strings_of cells \<noteq> []" "length cells \<le> maxRows"
  shows "\<exists>e. encode b = Some e \<and> encodes TypeString cells (sort (bu_terms b)) e"
proof -
  let ?sorts = "sort (bu_terms b)" and ?rank = "rank_table b (sort (bu_terms b))"
  have b: "ids_ok b" "bu_codes b = map (raw_code (bu_ids b)) cells" "bu_typ b = TypeString"
    "set (bu_terms b) = set (strings_of cells)" "length (bu_terms b) \<le> length cells"
    using assms(1) by (simp_all add: collected_def)
  have dist: "distinct ?sorts" "set ?sorts \<subseteq> set (bu_terms b)" using b(1) by (simp_all add: ids_ok_def)
  note rank = rank_table_at [OF b(1) dist]
  have small: "length (bu_terms b) < 2 ^ 64" using b(5) assms(4) by (simp add: maxRows_def)
  have unat_small: "unat (word_of_nat i :: 64 word) = i" if "i \<le> length (bu_terms b)" for i
    using that small by (simp add: unat_of_nat)
  have place: "\<exists>i r. fmlookup (bu_ids b) s = Some i \<and> i < length (bu_terms b) \<and> ?rank ! i = r \<and> r < length ?sorts \<and> ?sorts ! r = s"
    if "VString s \<in> set cells" for s
  proof -
    have s: "s \<in> set (bu_terms b)" using that by (simp add: b(4) set_strings_of)
    then obtain i where i: "fmlookup (bu_ids b) s = Some i" using ids_lookup [OF b(1)] by blast
    have "s \<in> set ?sorts" using s by simp
    then obtain r where r: "r < length ?sorts" "?sorts ! r = s" by (metis in_set_conv_nth)
    moreover have "i < length (bu_terms b)" using b(1) i by (simp add: ids_ok_def)
    ultimately show ?thesis using i rank(2) [OF r(1)] by auto
  qed
  have codes: "unat (raw_code (bu_ids b) c) < length ?rank" if c: "c \<in> set cells" for c
  proof (cases c)
    case (VString s)
    then obtain i where "fmlookup (bu_ids b) s = Some i" "i < length (bu_terms b)" using place c by blast
    then show ?thesis using VString rank(1) by (simp add: unat_small)
  next
    case Null
    have "strings_of cells \<noteq> []" using assms(3) c by auto
    then have "bu_terms b \<noteq> []" using b(4) by auto
    then show ?thesis using Null rank(1) by simp
  qed (use assms(2) c in \<open>auto simp: list_all_iff TypeString_def TypeInt_def TypeTime_def TypeBool_def\<close>)
  define e where "e = \<lparr>ec_codes = map (\<lambda>c. word_of_nat (?rank ! unat c)) (bu_codes b), ec_base = 0,
      ec_entries = length ?sorts, ec_dict = dict_bytes ?sorts\<rparr>"
  have "encode b = Some e"
    using codes b(2,3) by (simp add: encode_def encodeStrings_def e_def Let_def list_all_iff)
  moreover have "encodes TypeString cells ?sorts e"
    unfolding encodes_def
  proof (intro conjI allI impI)
    fix i s assume i: "i < length cells" "cells ! i = VString s"
    then have "VString s \<in> set cells" by (metis nth_mem)
    then obtain j r where j: "fmlookup (bu_ids b) s = Some j" "j < length (bu_terms b)" "?rank ! j = r"
      "r < length ?sorts" "?sorts ! r = s" using place by blast
    have "ec_codes e ! i = word_of_nat r" using i j b(2) by (simp add: e_def unat_small)
    then have "unat (ec_codes e ! i) = r" using j(4) unat_small [of r] by simp
    then show "unat (ec_codes e ! i) < length ?sorts" "?sorts ! unat (ec_codes e ! i) = s" using j by simp_all
  next
    fix i assume i: "i < length cells"
    have t: "of_type TypeString (cells ! i)" using assms(2) i by (simp add: list_all_length)
    show "sint v = sint (ec_base e) + int (unat (ec_codes e ! i))" if "cells ! i = VInt v" for v
      using t that by (simp add: TypeString_def TypeInt_def)
    show "sint (UnixMilli v) = sint (ec_base e) + int (unat (ec_codes e ! i))" if "cells ! i = VTime v" for v
      using t that by (simp add: TypeString_def TypeTime_def)
    show "ec_codes e ! i = (if v then 1 else 0)" if "cells ! i = VBool v" for v
      using t that by (simp add: TypeString_def TypeBool_def)
  qed (simp_all add: e_def b(2))
  ultimately show ?thesis by blast
qed

lemma encode_numbers:
  assumes "collected t cells b" "list_all (of_type t) cells" "t \<noteq> TypeString"
  shows "\<exists>e. encode b = Some e \<and> encodes t cells [] e"
proof -
  have b: "bu_codes b = map (raw_code (bu_ids b)) cells" "bu_typ b = t" "bu_rows b = length cells"
    using assms(1) by (simp_all add: collected_def)
  have typed: "of_type t (cells ! i)" if "i < length cells" for i using that assms(2) by (simp add: list_all_length)
  have kind: "cells ! i \<noteq> VString s" "cells ! i = VInt v \<Longrightarrow> t = TypeInt" "cells ! i = VTime x \<Longrightarrow> t = TypeTime"
    "cells ! i = VBool y \<Longrightarrow> t = TypeBool" if "i < length cells" for i s v x y
    using typed [OF that] assms(3) by auto
  show ?thesis
  proof (cases "t = TypeBool \<or> cells = []")
    case True
    define e where "e = \<lparr>ec_codes = bu_codes b, ec_base = 0, ec_entries = 0, ec_dict = []\<rparr>"
    have "encode b = Some e" using True b assms(3) by (auto simp: encode_def e_def)
    moreover have "encodes t cells [] e"
      using kind True assms(3) unfolding encodes_def e_def
      by (fastforce simp: b(1) TypeBool_def TypeInt_def TypeTime_def)
    ultimately show ?thesis by blast
  next
    case False
    obtain first lo where f: "foldl (min_step b) (True, 0) (enumerate 0 (bu_codes b)) = (first, lo)" by fastforce
    define codes where "codes = (if first then bu_codes b
      else map (\<lambda>(i, c). if bu_nulls b \<and> \<not> present_at b i then 0 else c - lo) (enumerate 0 (bu_codes b)))"
    define e where "e = \<lparr>ec_codes = codes, ec_base = (if first then 0 else lo), ec_entries = 0, ec_dict = []\<rparr>"
    have enc: "encode b = Some e" using False b assms(3) f by (simp add: encode_def e_def codes_def)
    have "sint (bu_codes b ! i) = sint (ec_base e) + int (unat (ec_codes e ! i))"
      if i: "i < length cells" "cells ! i \<noteq> Null" for i
    proof -
      have live: "\<not> (bu_nulls b \<and> \<not> present_at b i)" using skipped_iff [OF assms(1) i(1)] i(2) by simp
      then have "\<not> first" and "sint lo \<le> sint (bu_codes b ! i)"
        using min_fold [OF f] i(1) b(1) by (auto split: if_splits)
      moreover have "ec_codes e ! i = bu_codes b ! i - lo"
        using live \<open>\<not> first\<close> i(1) b(1) by (auto simp: e_def codes_def nth_enumerate_eq)
      ultimately show ?thesis using unat_diff_sint by (simp add: e_def)
    qed
    moreover have len: "length (ec_codes e) = length cells" "ec_entries e = 0" "ec_dict e = []"
      by (simp_all add: e_def codes_def b(1))
    ultimately have "encodes t cells [] e"
      using kind False assms(3) b(1) len unfolding encodes_def by fastforce
    then show ?thesis using enc by blast
  qed
qed

end
