(* ===== verification/Column_Layout.thy ===== *)
theory Column_Layout
  imports Column_Scan Column_Builder
begin

text \<open>
  Each section \<open>Build\<close> writes, read back: the packed codes as one stream of bits, the runs, the
  dictionary and the header.
\<close>

unbundle bit_operations_syntax

section \<open>Packed codes\<close>

lemma bit_Uint_at: "bit (Uint_at k s j) m \<longleftrightarrow> m < 8 * k \<and> bit (le_value s) (8 * j + m)"
proof -
  have "m < 8 * k \<longleftrightarrow> m div 8 < k" by linarith
  then show ?thesis by (auto simp: Uint_at_def bit_le_value)
qed

lemma bit_le_bytes: "bit (le_value (le_bytes 8 (unat (w :: 64 word)))) m \<longleftrightarrow> bit w m"
proof -
  have "unat w < 2 ^ LENGTH(64)" by (rule unsigned_less)
  then have "unat w < 256 ^ 8" by simp
  then show ?thesis by (simp add: le_value_small bit_unat_word)
qed

lemma bit_put_at:
  assumes "j + length v \<le> length s"
  shows "bit (le_value (put_at s j v)) k \<longleftrightarrow>
    (if 8 * j \<le> k \<and> k < 8 * (j + length v) then bit (le_value v) (k - 8 * j) else bit (le_value s) k)"
proof -
  have d: "8 * j \<le> k \<longleftrightarrow> j \<le> k div 8" "k < 8 * (j + length v) \<longleftrightarrow> k div 8 < j + length v"
    by (simp_all add: less_eq_div_iff_mult_less_eq div_less_iff_less_mult mult.commute)
  have m: "8 * j \<le> k \<Longrightarrow> (k - 8 * j) div 8 = k div 8 - j \<and> (k - 8 * j) mod 8 = k mod 8"
    by (metis add_diff_cancel_left' div_mult_self4 le_Suc_ex mod_mult_self4 numeral_eq_iff zero_neq_numeral)
  have len: "length (put_at s j v) = length s" using assms by (simp add: put_at_def)
  consider "k div 8 < j" | "j \<le> k div 8" "k div 8 < j + length v" | "j + length v \<le> k div 8" by linarith
  then show ?thesis
  proof cases
    case 1
    then have "put_at s j v ! (k div 8) = s ! (k div 8)" using assms by (simp add: put_at_def nth_append)
    then show ?thesis using 1 by (simp add: bit_le_value len d)
  next
    case 2
    then have "put_at s j v ! (k div 8) = v ! (k div 8 - j)" using assms by (auto simp: put_at_def nth_append)
    moreover have "k div 8 - j < length v" using 2 by linarith
    ultimately show ?thesis using 2 assms m d by (auto simp: bit_le_value len)
  next
    case 3
    then have "k div 8 < length s \<Longrightarrow> put_at s j v ! (k div 8) = s ! (k div 8)"
      using assms by (auto simp: put_at_def nth_append)
    then show ?thesis using 3 by (auto simp: bit_le_value len d)
  qed
qed

lemma put_at_append: "put_at (a @ s) (length a + j) v = a @ put_at s j v"
  by (simp add: put_at_def)

lemma pack_step_append: "pack_step (length a) bits (a @ s) x = a @ pack_step 0 bits s x"
  by (cases x) (simp add: pack_step_def Let_def put_at_append Uint_at_def)

lemma pack_fold_append:
  "foldl (pack_step (length a) bits) (a @ s) xs = a @ foldl (pack_step 0 bits) s xs"
  by (induction xs arbitrary: s) (simp_all add: pack_step_append)

lemma bit_of_nat_word: "bit (word_of_nat n :: 64 word) m \<longleftrightarrow> m < 64 \<and> bit n m"
  by (simp add: bit_of_nat_iff)

text \<open>A width the codes fit and the eight byte window can hold wherever they start.\<close>

definition fits :: "nat \<Rightarrow> 64 word list \<Rightarrow> bool" where
  "fits bits codes \<longleftrightarrow> 0 < bits \<and> (bits \<le> maxPackedBits \<or> bits = 64) \<and>
     (\<forall>c \<in> set codes. \<forall>k. bit c k \<longrightarrow> k < bits)"

lemma window: "bits \<le> maxPackedBits \<or> bits = 64 \<Longrightarrow> (i * bits) mod 8 + bits \<le> (64 :: nat)"
proof -
  assume "bits \<le> maxPackedBits \<or> bits = 64"
  moreover have "(i * bits) mod 8 < 8" by simp
  moreover have "(i * 64) mod 8 = (0 :: nat)" by presburger
  ultimately show ?thesis unfolding maxPackedBits_def by (elim disjE) (linarith, simp)
qed

lemma codeBytes_room: "0 < bits \<Longrightarrow> i < n \<Longrightarrow> i * bits div 8 + 8 \<le> codeBytes n bits"
proof -
  assume "0 < bits" "i < n"
  then have "i * bits \<le> n * bits + 7" by (metis less_imp_le mult_le_mono1 trans_le_add1)
  then have "i * bits div 8 \<le> (n * bits + 7) div 8" by (rule div_le_mono)
  then show ?thesis using \<open>0 < bits\<close> by (simp add: codeBytes_def)
qed

lemma pack_stream:
  assumes "fits bits codes" "n \<le> length codes" "length s = codeBytes (length codes) bits"
    and "\<And>k. \<not> bit (le_value s) k"
  shows "length (foldl (pack_step 0 bits) s (enumerate 0 (take n codes))) = length s \<and>
    (\<forall>k. bit (le_value (foldl (pack_step 0 bits) s (enumerate 0 (take n codes)))) k \<longleftrightarrow>
       (\<exists>i < n. i * bits \<le> k \<and> bit (codes ! i) (k - i * bits)))"
  using assms(2)
proof (induction n)
  case 0
  then show ?case using assms(4) by simp
next
  case (Suc n)
  let ?s = "foldl (pack_step 0 bits) s (enumerate 0 (take n codes))" and ?p = "n * bits" and ?c = "codes ! n"
  let ?w = "word_of_nat (Uint64_at ?s (?p div 8)) OR push_bit (?p mod 8) ?c :: 64 word"
  have IH: "length ?s = length s" "\<And>k. bit (le_value ?s) k \<longleftrightarrow> (\<exists>i < n. i * bits \<le> k \<and> bit (codes ! i) (k - i * bits))"
    using Suc by simp_all
  have "take (Suc n) codes = take n codes @ [?c]" using Suc.prems by (simp add: take_Suc_conv_app_nth)
  then have step: "foldl (pack_step 0 bits) s (enumerate 0 (take (Suc n) codes)) =
      put_at ?s (?p div 8) (le_bytes 8 (unat ?w))"
    using Suc.prems by (simp add: enumerate_snoc pack_step_def Let_def min_def)
  have room: "?p div 8 + length (le_bytes 8 (unat ?w)) \<le> length ?s"
    using codeBytes_room [of bits n "length codes"] assms(1,3) Suc.prems IH(1) by (simp add: fits_def)
  have small: "bit ?c m \<Longrightarrow> m < bits" for m using assms(1) Suc.prems by (auto simp: fits_def)
  have win: "?p mod 8 + bits \<le> 64" using assms(1) by (intro window) (simp add: fits_def)
  have p: "8 * (?p div 8) + ?p mod 8 = ?p" by simp
  have "bit (le_value (put_at ?s (?p div 8) (le_bytes 8 (unat ?w)))) k \<longleftrightarrow>
      bit (le_value ?s) k \<or> ?p \<le> k \<and> bit ?c (k - ?p)" for k
  proof (cases "8 * (?p div 8) \<le> k \<and> k < 8 * (?p div 8 + 8)")
    case True
    define m where "m = k - 8 * (?p div 8)"
    have k: "k = 8 * (?p div 8) + m" "m < 64" using True unfolding m_def by (simp, simp add: less_diff_conv2)
    have w: "bit (le_value (put_at ?s (?p div 8) (le_bytes 8 (unat ?w)))) k \<longleftrightarrow> bit ?w m"
      unfolding bit_put_at [OF room] using True by (simp add: bit_le_bytes m_def)
    have "bit ?w m \<longleftrightarrow> bit (le_value ?s) k \<or> ?p mod 8 \<le> m \<and> bit ?c (m - ?p mod 8)"
      using k by (simp add: bit_or_iff bit_of_nat_word bit_Uint_at bit_push_bit_iff)
    moreover have "?p mod 8 \<le> m \<longleftrightarrow> ?p \<le> k" "m - ?p mod 8 = k - ?p" using k(1) p by linarith+
    ultimately show ?thesis using w by simp
  next
    case False
    have "\<not> (?p \<le> k \<and> bit ?c (k - ?p))"
    proof
      assume k: "?p \<le> k \<and> bit ?c (k - ?p)"
      then have "k < ?p + bits" using small [of "k - ?p"] by linarith
      moreover obtain q r where "?p div 8 = q" "?p mod 8 = r" by blast
      ultimately show False using k False win p by simp
    qed
    moreover have out: "\<not> (8 * (?p div 8) \<le> k \<and> k < 8 * (?p div 8 + length (le_bytes 8 (unat ?w))))"
      using False by simp
    ultimately show ?thesis unfolding bit_put_at [OF room] if_not_P [OF out] by blast
  qed
  then show ?case
    unfolding step using IH room by (simp add: put_at_def less_Suc_eq) blast
qed

lemma pack_read:
  assumes "fits bits codes" "i < length codes"
  defines "packed \<equiv> foldl (pack_step 0 bits) (replicate (codeBytes (length codes) bits) (of_byte 0)) (enumerate 0 codes)"
  shows "length packed = codeBytes (length codes) bits"
    and "drop_bit (i * bits mod 8) (word_of_nat (Uint64_at packed (i * bits div 8))) AND
      (if bits < 64 then push_bit bits 1 - 1 else - 1) = codes ! i"
proof -
  have zero: "\<not> bit (le_value (replicate n (of_byte 0))) k" for n k by (simp add: bit_le_value)
  note s = pack_stream [OF assms(1) order_refl length_replicate zero, unfolded take_all [OF order_refl], folded packed_def]
  show "length packed = codeBytes (length codes) bits" using s by simp
  let ?p = "i * bits" and ?mask = "if bits < 64 then push_bit bits 1 - 1 else - 1 :: 64 word"
  have p: "8 * (?p div 8) + ?p mod 8 = ?p" by simp
  have win: "?p mod 8 + bits \<le> 64" using assms(1) by (intro window) (simp add: fits_def)
  have mask: "bit ?mask m \<longleftrightarrow> m < bits \<and> m < 64" for m
    by (auto simp: push_bit_eq_mult bit_mask_iff simp flip: mask_eq_exp_minus_1)
  have only: "j = i" if "j * bits \<le> ?p + m" "bit (codes ! j) (?p + m - j * bits)" "m < bits" "j < length codes" for j m
  proof -
    have "?p + m - j * bits < bits" using that assms(1) by (auto simp: fits_def)
    then have "?p + m < (j + 1) * bits" "?p < (j + 1) * bits" "j * bits < (i + 1) * bits" using that(1,3) by simp_all
    then have "i < j + 1" "j < i + 1" by (simp_all only: mult_less_cancel2)
    then show ?thesis by simp
  qed
  show "drop_bit (?p mod 8) (word_of_nat (Uint64_at packed (?p div 8))) AND ?mask = codes ! i"
  proof (rule bit_word_eqI)
    fix m assume m: "m < LENGTH(64)"
    have "bit (drop_bit (?p mod 8) (word_of_nat (Uint64_at packed (?p div 8))) AND ?mask) m \<longleftrightarrow>
        m < bits \<and> ?p mod 8 + m < 64 \<and> bit (le_value packed) (?p + m)"
      using m p by (auto simp: bit_and_iff bit_drop_bit_eq bit_of_nat_word bit_Uint_at mask add.assoc [symmetric])
    also have "\<dots> \<longleftrightarrow> m < bits \<and> (\<exists>j < length codes. j * bits \<le> ?p + m \<and> bit (codes ! j) (?p + m - j * bits))"
      using s win by auto
    also have "\<dots> \<longleftrightarrow> bit (codes ! i) m"
    proof
      assume "m < bits \<and> (\<exists>j < length codes. j * bits \<le> ?p + m \<and> bit (codes ! j) (?p + m - j * bits))"
      then show "bit (codes ! i) m" using only by fastforce
    next
      assume b: "bit (codes ! i) m"
      then have "m < bits" using assms(1,2) by (auto simp: fits_def)
      then show "m < bits \<and> (\<exists>j < length codes. j * bits \<le> ?p + m \<and> bit (codes ! j) (?p + m - j * bits))"
        using b assms(2) by (auto intro!: exI [of _ i])
    qed
    finally show "bit (drop_bit (?p mod 8) (word_of_nat (Uint64_at packed (?p div 8))) AND ?mask) m \<longleftrightarrow> bit (codes ! i) m" .
  qed
qed

section \<open>The width\<close>

lemma width_loop_le: "n \<le> width_loop w n"
proof (induction w n rule: width_loop.induct)
  case (1 w n)
  then show ?case by (subst width_loop.simps) (auto intro: Suc_leD)
qed

lemma width_loop_bits: "unat w < 2 ^ (width_loop w n - n)"
proof (induction w n rule: width_loop.induct)
  case (1 w n)
  show ?case
  proof (cases "w = 0")
    case False
    let ?d = "drop_bit 1 w"
    have "unat ?d < 2 ^ (width_loop ?d (Suc n) - Suc n)" by (rule 1 [OF False])
    moreover have "unat ?d = unat w div 2" by (simp add: drop_bit_eq_div unat_div)
    ultimately have "unat w div 2 < 2 ^ (width_loop ?d (Suc n) - Suc n)" by simp
    then have "unat w < 2 ^ Suc (width_loop ?d (Suc n) - Suc n)" by (simp add: div_less_iff_less_mult)
    moreover have "Suc (width_loop ?d (Suc n) - Suc n) = width_loop w n - n"
      using False width_loop_le [of "Suc n" ?d] by (subst (2) width_loop.simps) simp
    ultimately show ?thesis by (simp only:)
  qed simp
qed

lemma width_ok:
  fixes c w :: "64 word"
  assumes "unat c \<le> unat w"
  shows "fst (width w) \<le> maxPackedBits \<or> fst (width w) = 64" "bit c k \<Longrightarrow> k < fst (width w)"
proof -
  have "fst (width w) = (if maxPackedBits < width_loop w 0 then 64 else width_loop w 0)"
    by (simp add: width_def Let_def maxPackedBits_def)
  then show "fst (width w) \<le> maxPackedBits \<or> fst (width w) = 64" "bit c k \<Longrightarrow> k < fst (width w)"
  proof (simp_all split: if_splits)
    assume b: "bit c k"
    show "k < 64" using bit_imp_le_length [OF b] by simp
    have "unat c < 2 ^ width_loop w 0" using assms width_loop_bits [of w 0] by simp
    then have "take_bit (width_loop w 0) (unat c) = unat c" by (simp add: take_bit_nat_eq_self)
    then show "k < width_loop w 0" using b by (metis bit_take_bit_iff bit_unat_word)
  qed
qed

lemma max_fold_start: "(m :: 64 word) \<le> foldl max m codes"
proof (induction codes arbitrary: m)
  case (Cons x codes)
  have "m \<le> max m x" by simp
  also have "\<dots> \<le> foldl max (max m x) codes" by (rule Cons.IH)
  finally show ?case by simp
qed simp

lemma max_fold: "c \<in> set codes \<Longrightarrow> c \<le> foldl max (m :: 64 word) codes"
proof (induction codes arbitrary: m)
  case (Cons x codes)
  have "x \<le> max m x" by simp
  also have "\<dots> \<le> foldl max (max m x) codes" by (rule max_fold_start)
  finally show ?case using Cons by auto
qed simp

section \<open>Runs\<close>

lemma run_step_expand:
  assumes "out \<noteq> []"
  shows "expand (run_step out c) = expand out @ [c]" "run_step out c \<noteq> []"
proof -
  have "expand out = expand (butlast out) @ replicate (rn_length (last out)) (rn_code (last out))"
    using assms by (metis append_butlast_last_id append.right_neutral expand_simps)
  then show "expand (run_step out c) = expand out @ [c]"
    by (simp add: run_step_def replicate_append_same)
qed (simp add: run_step_def)

lemma runs_of_expand:
  "expand (fst (runs_of codes)) = codes" "r \<in> set (fst (runs_of codes)) \<Longrightarrow> 0 < rn_length r"
proof -
  have "expand (foldl run_step out cs) = expand out @ cs \<and>
      ((\<forall>r \<in> set out. 0 < rn_length r) \<longrightarrow> (\<forall>r \<in> set (foldl run_step out cs). 0 < rn_length r))" if "out \<noteq> []" for out cs
    using that
  proof (induction cs arbitrary: out)
    case (Cons c cs)
    have pos: "\<forall>r \<in> set (run_step out c). 0 < rn_length r" if "\<forall>r \<in> set out. 0 < rn_length r"
      using that Cons.prems by (auto simp: run_step_def dest: in_set_butlastD)
    show ?case
      using Cons.IH [OF run_step_expand(2) [OF Cons.prems, of c]] run_step_expand(1) [OF Cons.prems, of c] pos by auto
  qed simp
  note fold = this
  show "expand (fst (runs_of codes)) = codes" "r \<in> set (fst (runs_of codes)) \<Longrightarrow> 0 < rn_length r"
    using fold [of "[\<lparr>rn_code = hd codes, rn_length = 1\<rparr>]" "tl codes"]
    by (auto simp: runs_of_def Let_def split: list.splits)
qed

lemma runs_le: "\<forall>r \<in> set rs. 0 < rn_length r \<Longrightarrow> length rs \<le> length (expand rs)"
  by (induction rs) auto

definition run_bytes :: "run list \<Rightarrow> string" where
  "run_bytes rs = concat (map (\<lambda>r. uvarint (unat (rn_code r)) @ uvarint (rn_length r)) rs)"

lemma read_run_bytes:
  assumes "covered + length (expand rs) \<le> rows" "rows < 2 ^ 64" "\<forall>r \<in> set rs. 0 < rn_length r"
  shows "read_runs (length rs) rows (run_bytes rs @ rest) covered runs ends =
    Inr (rest, covered + length (expand rs), runs @ rs, ends @ run_ends covered rs)"
  using assms(1,3)
proof (induction rs arbitrary: covered runs ends)
  case (Cons r rs)
  have "unat (rn_code r) < 2 ^ LENGTH(64)" by (rule unsigned_less)
  then have code: "Uvarint (uvarint (unat (rn_code r)) @ s) = (unat (rn_code r), int (length (uvarint (unat (rn_code r)))))" for s
    by (intro Uvarint_uvarint) simp
  have len: "Uvarint (uvarint (rn_length r) @ s) = (rn_length r, int (length (uvarint (rn_length r))))" for s
    using Cons.prems(1) assms(2) by (intro Uvarint_uvarint) simp
  have ok: "\<not> (rn_length r = 0 \<or> rows - covered < rn_length r)" using Cons.prems by auto
  have rec: "read_runs (length rs) rows (run_bytes rs @ rest) (covered + rn_length r) (runs @ [r]) (ends @ [covered + rn_length r]) =
      Inr (rest, covered + rn_length r + length (expand rs), (runs @ [r]) @ rs,
        (ends @ [covered + rn_length r]) @ run_ends (covered + rn_length r) rs)"
    by (rule Cons.IH) (use Cons.prems in auto)
  have eta: "\<lparr>rn_code = rn_code r, rn_length = rn_length r\<rparr> = r" by (cases r) simp
  show ?case
    using ok rec by (simp add: code len run_bytes_def Let_def add.assoc eta)
qed (simp add: run_bytes_def)

end
