(* ===== verification/Column_Roundtrip.thy ===== *)
theory Column_Roundtrip
  imports Column_Layout
begin

text \<open>
  What \<open>Build\<close> writes, \<open>Open\<close> reads back: every row has the value that was appended, and the
  predicates answer with exactly the rows whose value they ask for.
\<close>

unbundle bit_operations_syntax

section \<open>The dictionary\<close>

definition text_size :: "string list \<Rightarrow> nat" where
  "text_size ss = length (concat ss)"

lemma text_size_simps [simp]:
  "text_size [] = 0" "text_size (s # ss) = length s + text_size ss" "text_size (ss @ ts) = text_size ss + text_size ts"
  by (simp_all add: text_size_def)

definition offset_table :: "string list \<Rightarrow> string" where
  "offset_table ss = concat (map (\<lambda>i. le_bytes 4 (text_size (take i ss))) [0..<length ss])"

lemma offset_fold:
  assumes "text_size ss < 2 ^ 32"
  shows "foldl offset_step ([], 0) ss = (offset_table ss, text_size ss)"
  using assms
proof (induction ss rule: rev_induct)
  case (snoc s ss)
  have "map (\<lambda>i. le_bytes 4 (text_size (take i (ss @ [s])))) [0..<length ss] =
      map (\<lambda>i. le_bytes 4 (text_size (take i ss))) [0..<length ss]"
    by (rule map_cong) simp_all
  then have "offset_table (ss @ [s]) = offset_table ss @ le_bytes 4 (text_size ss)"
    unfolding offset_table_def by (simp del: text_size_simps take_append map_eq_conv) simp
  then show ?case using snoc by (simp add: offset_step_def)
qed (simp add: offset_table_def)

lemma dict_bytes_eq:
  "text_size ss < 2 ^ 32 \<Longrightarrow> dict_bytes ss = offset_table ss @ le_bytes 4 (text_size ss) @ concat ss"
  by (simp add: dict_bytes_def offset_fold)

lemma Uint_at_concat:
  assumes "i < length vs" "\<forall>v \<in> set vs. v < 256 ^ k"
  shows "Uint_at k (concat (map (le_bytes k) vs) @ rest) (k * i) = vs ! i"
  using assms
proof (induction vs arbitrary: i)
  case (Cons v vs)
  show ?case
  proof (cases i)
    case 0
    then show ?thesis using Cons.prems(2) by (simp add: Uint_at_bytes)
  next
    case (Suc j)
    then have "Uint_at k (le_bytes k v @ (concat (map (le_bytes k) vs) @ rest)) (k + k * j) =
        Uint_at k (concat (map (le_bytes k) vs) @ rest) (k * j)"
      by (intro Uint_at_append) simp
    then show ?thesis using Suc Cons by simp
  qed
qed simp

lemma length_concat_bytes [simp]: "length (concat (map (le_bytes k) vs)) = k * length vs"
  by (induction vs) simp_all

definition offsets_of :: "string list \<Rightarrow> nat list" where
  "offsets_of ss = map (\<lambda>i. text_size (take i ss)) [0..<length ss + 1]"

lemma length_offsets_of [simp]: "length (offsets_of ss) = length ss + 1"
  by (simp add: offsets_of_def)

lemma offsets_of_nth: "i \<le> length ss \<Longrightarrow> offsets_of ss ! i = text_size (take i ss)"
  unfolding offsets_of_def by (subst nth_map) (auto simp del: upt_Suc)

lemma dict_offsets:
  assumes "text_size ss < 2 ^ 32"
  shows "dict_bytes ss = concat (map (le_bytes 4) (offsets_of ss)) @ concat ss"
  by (simp add: dict_bytes_eq [OF assms] offset_table_def offsets_of_def comp_def)

lemma text_size_take: "i \<le> j \<Longrightarrow> text_size (take i ss) \<le> text_size (take j ss)"
proof -
  assume "i \<le> j"
  then have "take j ss = take i ss @ take (j - i) (drop i ss)" by (metis le_add_diff_inverse take_add)
  then show ?thesis by simp
qed

lemma text_size_take_le: "text_size (take i ss) \<le> text_size ss"
  using text_size_take [of i "max i (length ss)" ss] by simp

lemma offset_at:
  assumes "text_size ss < 2 ^ 32" "i \<le> length ss"
  shows "Uint32_at (take (4 * (length ss + 1)) (dict_bytes ss @ rest)) (4 * i) = text_size (take i ss)"
proof -
  have len: "length (concat (map (le_bytes 4) (offsets_of ss))) = 4 * (length ss + 1)" by simp
  have less: "\<forall>v \<in> set (offsets_of ss). v < 256 ^ 4"
    using assms(1) text_size_take_le [of _ ss] by (auto simp: offsets_of_def intro: le_less_trans)
  have "take (4 * (length ss + 1)) (dict_bytes ss @ rest) = concat (map (le_bytes 4) (offsets_of ss)) @ []"
    using len by (simp add: dict_offsets [OF assms(1)])
  then show ?thesis
    using Uint_at_concat [of i "offsets_of ss" 4 "[]", OF _ less] assms(2) by (simp add: offsets_of_nth)
qed

lemma offsets_ascend_sizes:
  assumes "\<forall>i < n. Uint32_at offs (4 * i) \<le> Uint32_at offs (4 * (i + 1))" "prev \<le> Uint32_at offs (4 * m)"
  shows "offsets_ascend offs prev [m..<n + 1]"
  using assms(2)
proof (induction "n + 1 - m" arbitrary: m prev)
  case (Suc k)
  then have "m < n + 1" by simp
  then have m: "[m..<n + 1] = m # [Suc m..<n + 1]" by (rule upt_conv_Cons)
  show ?case
  proof (cases "m = n")
    case True
    then show ?thesis using m Suc.prems by (simp add: Let_def)
  next
    case False
    then have "Uint32_at offs (4 * m) \<le> Uint32_at offs (4 * Suc m)" using assms(1) Suc.hyps(2) by simp
    then have "offsets_ascend offs (Uint32_at offs (4 * m)) [Suc m..<n + 1]" using Suc.hyps by simp
    then show ?thesis unfolding m using Suc.prems by (simp add: Let_def)
  qed
qed simp

lemma text_slice: "i < length ss \<Longrightarrow>
    take (text_size (take (i + 1) ss) - text_size (take i ss)) (drop (text_size (take i ss)) (concat ss)) = ss ! i"
proof (induction ss arbitrary: i)
  case (Cons s ss)
  show ?case
  proof (cases i)
    case 0
    then show ?thesis by simp
  next
    case (Suc j)
    then show ?thesis using Cons.IH [of j] Cons.prems by simp
  qed
qed simp

lemma readDict_step:
  assumes "co_typ c = TypeString" "n = 4 * (co_entries c + 1)" "n \<le> length rest"
    and "blob = Uint32_at (take n rest) (n - 4)" "blob \<le> length (drop n rest)"
    and "offsets_ascend (take n rest) 0 [1..<co_entries c + 1]" "0 < co_entries c \<longrightarrow> Uint32_at (take n rest) 0 = 0"
  shows "readDict c rest = Inr (drop blob (drop n rest), c\<lparr>co_offsets := take n rest, co_blob := take blob (drop n rest)\<rparr>)"
  using assms(1,3,5,6,7) unfolding readDict_def Let_def assms(2) [symmetric] assms(4) by auto

lemma readDict_bytes:
  assumes "text_size ss < 2 ^ 32" "co_typ c = TypeString" "co_entries c = length ss"
  shows "\<exists>d. readDict c (dict_bytes ss) = Inr ([], d) \<and> Dict d = ss \<and>
    same_header c d \<and> co_present d = co_present c \<and> co_codes d = co_codes c \<and> co_runs d = co_runs c \<and> co_ends d = co_ends c"
proof -
  let ?n = "4 * (length ss + 1)"
  let ?offs = "take ?n (dict_bytes ss)"
  have at: "Uint32_at ?offs (4 * i) = text_size (take i ss)" if "i \<le> length ss" for i
    using offset_at [OF assms(1) that, of "[]"] by simp
  have len: "length (concat (map (le_bytes 4) (offsets_of ss))) = ?n" by simp
  have blob: "Uint32_at ?offs (?n - 4) = text_size ss" "drop ?n (dict_bytes ss) = concat ss" "?n \<le> length (dict_bytes ss)"
    using at [of "length ss"] len by (simp_all add: dict_offsets [OF assms(1)])
  have asc: "offsets_ascend ?offs 0 [1..<length ss + 1]"
  proof (rule offsets_ascend_sizes)
    show "\<forall>i < length ss. Uint32_at ?offs (4 * i) \<le> Uint32_at ?offs (4 * (i + 1))"
    proof (intro allI impI)
      fix i assume i: "i < length ss"
      then show "Uint32_at ?offs (4 * i) \<le> Uint32_at ?offs (4 * (i + 1))"
        using at [of i] at [of "i + 1"] text_size_take [of i "i + 1" ss] by simp
    qed
  qed simp
  define d where "d = c\<lparr>co_offsets := ?offs, co_blob := concat ss\<rparr>"
  have at0: "Uint32_at ?offs 0 = 0" using at [of 0] by simp
  have sizes: "text_size ss \<le> length (concat ss)" "take (text_size ss) (concat ss) = concat ss" "drop (text_size ss) (concat ss) = []"
    by (simp_all add: text_size_def)
  have "readDict c (dict_bytes ss) = Inr (drop (text_size ss) (drop ?n (dict_bytes ss)),
      c\<lparr>co_offsets := ?offs, co_blob := take (text_size ss) (drop ?n (dict_bytes ss))\<rparr>)"
  proof (rule readDict_step [OF assms(2) _ blob(3)])
    show "?n = 4 * (co_entries c + 1)" using assms(3) by simp
    show "text_size ss = Uint32_at ?offs (?n - 4)" by (rule blob(1) [symmetric])
    show "text_size ss \<le> length (drop ?n (dict_bytes ss))" unfolding blob(2) by (rule sizes(1))
    show "offsets_ascend ?offs 0 [1..<co_entries c + 1]" unfolding assms(3) by (rule asc)
    show "0 < co_entries c \<longrightarrow> Uint32_at ?offs 0 = 0" using at0 by simp
  qed
  then have "readDict c (dict_bytes ss) = Inr ([], d)" unfolding blob(2) sizes d_def .
  moreover have nth: "dict_term d i = ss ! i" if "i < length ss" for i
  proof -
    have "co_offsets d = ?offs" "co_blob d = concat ss" by (simp_all add: d_def)
    then show ?thesis
      using that at [of i] at [of "i + 1"] text_slice [OF that] unfolding dict_term_def Let_def by simp
  qed
  have "co_entries d = length ss" using assms(3) by (simp add: d_def)
  then have "Dict d = ss"
    unfolding Dict_def by (intro nth_equalityI) (simp_all add: nth)
  moreover have "same_header c d \<and> co_present d = co_present c \<and> co_codes d = co_codes c \<and> co_runs d = co_runs c \<and> co_ends d = co_ends c"
    by (simp add: d_def same_header_def)
  ultimately show ?thesis by blast
qed

section \<open>The header\<close>

lemma four: "length xs = 4 \<Longrightarrow> \<exists>a b c d. xs = [a, b, c, d]"
  by (auto simp: length_Suc_conv eval_nat_numeral)

lemma header_eq:
  "header_bytes b encoding bits e =
     [of_byte Version, of_byte (bu_typ b), of_byte encoding, of_byte bits] @ le_bytes 4 (bu_rows b) @
     le_bytes 4 (ec_entries e) @ [of_byte (if bu_nulls b then flagNulls else 0), of_byte 0, of_byte 0, of_byte 0] @
     le_bytes 8 (unat (ec_base e))"
proof -
  obtain r0 r1 r2 r3 where r: "le_bytes 4 (bu_rows b) = [r0, r1, r2, r3]" using four [OF le_bytes_simps(1)] by blast
  obtain n0 n1 n2 n3 where n: "le_bytes 4 (ec_entries e) = [n0, n1, n2, n3]" using four [OF le_bytes_simps(1)] by blast
  have z: "replicate headerSize (of_byte 0) = replicate 16 (of_byte 0) @ replicate 8 (of_byte 0)"
    by (simp add: headerSize_def replicate_add [symmetric])
  have z16: "replicate 16 (of_byte 0) = [of_byte 0, of_byte 0, of_byte 0, of_byte 0, of_byte 0, of_byte 0,
      of_byte 0, of_byte 0, of_byte 0, of_byte 0, of_byte 0, of_byte 0, of_byte 0, of_byte 0, of_byte 0, of_byte 0]"
    by (simp add: eval_nat_numeral)
  show ?thesis
    unfolding header_bytes_def Let_def z z16 r n column_offsets
    by (simp add: put_at_def)
qed

lemma length_header [simp]: "length (header_bytes b encoding bits e) = 24"
  by (simp add: header_eq)

lemma byte_of_zero [simp]: "byte_of (of_byte 0) = 0" by simp

lemma read_header_bytes:
  fixes b e encoding bits rest
  defines "B \<equiv> header_bytes b encoding bits e @ rest"
  assumes "bu_typ b < 256" "encoding < 256" "bits < 256" "bu_rows b < 2 ^ 32" "ec_entries e < 2 ^ 32"
  shows "byte_at B offVersion = Version" "byte_at B offFlags = (if bu_nulls b then 1 else 0)"
    "byte_at B offReserved = 0" "byte_at B (offReserved + 1) = 0" "byte_at B (offReserved + 2) = 0"
    "byte_at B offType = bu_typ b" "byte_at B offEncoding = encoding" "byte_at B offBits = bits"
    "Uint32_at B offRows = bu_rows b" "Uint32_at B offEntries = ec_entries e"
    "word_of_nat (Uint64_at B offBase) = ec_base e"
proof -
  obtain r0 r1 r2 r3 where r: "le_bytes 4 (bu_rows b) = [r0, r1, r2, r3]" using four [OF le_bytes_simps(1)] by blast
  obtain n0 n1 n2 n3 where n: "le_bytes 4 (ec_entries e) = [n0, n1, n2, n3]" using four [OF le_bytes_simps(1)] by blast
  have B: "B = [of_byte Version, of_byte (bu_typ b), of_byte encoding, of_byte bits] @ le_bytes 4 (bu_rows b) @
     le_bytes 4 (ec_entries e) @ [of_byte (if bu_nulls b then flagNulls else 0), of_byte 0, of_byte 0, of_byte 0] @
     le_bytes 8 (unat (ec_base e)) @ rest"
    by (simp add: B_def header_eq)
  show "byte_at B offVersion = Version" "byte_at B offFlags = (if bu_nulls b then 1 else 0)"
    "byte_at B offReserved = 0" "byte_at B (offReserved + 1) = 0" "byte_at B (offReserved + 2) = 0"
    "byte_at B offType = bu_typ b" "byte_at B offEncoding = encoding" "byte_at B offBits = bits"
    unfolding B r n column_offsets using assms(2-4) by (simp_all add: byte_at_def Version_def flagNulls_def)
  show "Uint32_at B offRows = bu_rows b"
    unfolding B offRows_def using assms(5) Uint_at_append [of "[of_byte Version, of_byte (bu_typ b), of_byte encoding, of_byte bits]" 4 4 _ 0]
    by (simp add: Uint_at_bytes)
  show "Uint32_at B offEntries = ec_entries e"
    unfolding B offEntries_def r using assms(6)
    Uint_at_append [of "[of_byte Version, of_byte (bu_typ b), of_byte encoding, of_byte bits, r0, r1, r2, r3]" 8 4 _ 0]
    by (simp add: Uint_at_bytes)
  have "unat (ec_base e) < 2 ^ LENGTH(64)" by (rule unsigned_less)
  then have "Uint64_at B offBase = unat (ec_base e)"
    unfolding B offBase_def r n
    using Uint_at_append [of "[of_byte Version, of_byte (bu_typ b), of_byte encoding, of_byte bits, r0, r1, r2, r3, n0, n1, n2, n3,
      of_byte (if bu_nulls b then flagNulls else 0), of_byte 0, of_byte 0, of_byte 0]" 16 8 _ 0]
    by (simp add: Uint_at_bytes)
  then show "word_of_nat (Uint64_at B offBase) = ec_base e" by simp
qed

section \<open>Presence and codes\<close>

lemma presence_bytes_eq:
  "bu_nulls b \<Longrightarrow> presence_bytes b =
     concat (map (le_bytes 8) (map (\<lambda>i. unat (rb_words (the (bu_present b)) ! i)) [0..<(bu_rows b + 63) div 64]))"
  by (simp add: presence_bytes_def comp_def)

lemma read_presence_bytes:
  assumes "presence_ok b P" "byte_at B offFlags = (if bu_nulls b then 1 else 0)" "co_rows c = bu_rows b" "co_present c = None"
  shows "\<exists>p. read_presence B c (presence_bytes b @ rest) = Inr (rest, c\<lparr>co_present := p\<rparr>) \<and>
    (\<forall>i < bu_rows b. P i \<longleftrightarrow> (\<forall>q. p = Some q \<longrightarrow> row_in q i))"
proof (cases "bu_nulls b")
  case False
  then have "\<forall>i < bu_rows b. P i" using assms(1) by (auto simp: presence_ok_def split: option.splits)
  moreover have "read_presence B c (presence_bytes b @ rest) = Inr (rest, c\<lparr>co_present := None\<rparr>)"
    using False assms(2,4) by (simp add: read_presence_def presence_bytes_def)
  ultimately show ?thesis by blast
next
  case True
  let ?m = "(bu_rows b + 63) div 64"
  obtain pb where pb: "bu_present b = Some pb" "rows_ok pb" "bu_rows b \<le> rb_n pb" "\<And>i. row_in pb i \<longleftrightarrow> i < bu_rows b \<and> P i"
    using assms(1) True by (auto simp: presence_ok_def split: option.splits)
  let ?vs = "map (\<lambda>i. unat (rb_words pb ! i)) [0..<?m]"
  have bytes: "presence_bytes b = concat (map (le_bytes 8) ?vs)"
    using presence_bytes_eq [OF True] pb(1) by simp
  have less: "\<forall>v \<in> set ?vs. v < 256 ^ 8"
  proof
    fix v assume "v \<in> set ?vs"
    then obtain w :: "64 word" where "v = unat w" by auto
    moreover have "unat w < 2 ^ LENGTH(64)" by (rule unsigned_less)
    ultimately show "v < 256 ^ 8" by simp
  qed
  have word: "word_of_nat (Uint64_at (presence_bytes b @ rest) (i * 8)) = rb_words pb ! i" if "i < ?m" for i
    using Uint_at_concat [of i ?vs 8 rest, OF _ less] that by (simp add: bytes mult.commute)
  define p where "p = (NewRows (int (bu_rows b)))\<lparr>rb_words := map (\<lambda>i. rb_words pb ! i) [0..<?m]\<rparr>"
  have p: "length (rb_words p) = (rb_n p + 63) div 64" by (simp add: p_def)
  have "?m \<le> length (rb_words pb)" using pb(2,3) by (auto simp: rows_ok_def intro: div_le_mono)
  then have "row_in p i \<longleftrightarrow> row_in pb i" if "i < bu_rows b" for i
    using that pb(3) rows_ok_length [OF pb(2), of i] by (auto simp: p_def row_in_def bm_at_map) (auto simp: bm_at_def)
  then have rows: "\<forall>i < bu_rows b. P i \<longleftrightarrow> row_in (trim p) i" using pb(4) trim_ok(2) [OF p] by simp
  have len: "length (presence_bytes b) = ?m * 8" unfolding bytes length_concat_bytes by simp
  have eq: "map (\<lambda>i. word_of_nat (Uint64_at (presence_bytes b @ rest) (i * 8))) [0..<?m] = map (\<lambda>i. rb_words pb ! i) [0..<?m]"
    using word by (intro map_cong) auto
  have "read_presence B c (presence_bytes b @ rest) = Inr (rest, c\<lparr>co_present := Some (trim
      ((NewRows (int (bu_rows b)))\<lparr>rb_words :=
        map (\<lambda>i. word_of_nat (Uint64_at (presence_bytes b @ rest) (i * 8))) [0..<?m]\<rparr>))\<rparr>)"
    using True assms(2,3) len by (simp add: read_presence_def flagNulls_def Let_def)
  then have "read_presence B c (presence_bytes b @ rest) = Inr (rest, c\<lparr>co_present := Some (trim p)\<rparr>)"
    unfolding eq p_def .
  then show ?thesis using rows by blast
qed

lemma appendPacked_eq:
  "bits \<noteq> 0 \<Longrightarrow> appendPacked out codes bits =
     out @ foldl (pack_step 0 bits) (replicate (codeBytes (length codes) bits) (of_byte 0)) (enumerate 0 codes)"
  by (simp add: appendPacked_def pack_fold_append)

lemma append_runs_eq: "append_runs rs = le_bytes 4 (length rs) @ run_bytes rs"
  by (simp add: append_runs_def run_bytes_def)

lemma read_runs_bytes:
  assumes "co_encoding c = EncodingRuns" "co_rows c = length codes" "length codes \<le> maxRows"
  shows "\<exists>d. readCodes c (append_runs (fst (runs_of codes)) @ rest) = Inr (rest, d) \<and> same_header c d \<and>
    co_present d = co_present c \<and> expand (co_runs d) = codes"
proof -
  let ?rs = "fst (runs_of codes)"
  have pos: "\<forall>r \<in> set ?rs. 0 < rn_length r" using runs_of_expand(2) by blast
  have len: "length (expand ?rs) = length codes" by (simp add: runs_of_expand)
  have "length ?rs < 256 ^ 4" using runs_le [OF pos] len assms(3) by (simp add: maxRows_def)
  then have n: "Uint32_at (append_runs ?rs @ rest) 0 = length ?rs" by (simp add: append_runs_eq Uint_at_bytes)
  have "read_runs (length ?rs) (co_rows c) (run_bytes ?rs @ rest) 0 [] [] = Inr (rest, 0 + length (expand ?rs), [] @ ?rs, [] @ run_ends 0 ?rs)"
    using assms(2,3) len by (intro read_run_bytes pos) (simp_all add: maxRows_def)
  then have "readCodes c (append_runs ?rs @ rest) = Inr (rest, c\<lparr>co_runs := ?rs, co_ends := run_ends 0 ?rs\<rparr>)"
    using assms(1,2) n len by (simp add: readCodes_def EncodingRuns_def EncodingPlain_def append_runs_eq Let_def)
  then show ?thesis by (auto simp: same_header_def runs_of_expand)
qed

lemma read_plain_bytes:
  assumes "co_encoding c = EncodingPlain" "co_rows c = length codes" "co_bits c = fst (width (foldl max 0 codes))"
    and "co_mask c = (if co_bits c < 64 then push_bit (co_bits c) 1 - 1 else - 1)"
  shows "\<exists>d body. appendPacked out codes (co_bits c) = out @ body \<and> readCodes c (body @ rest) = Inr (rest, d) \<and> same_header c d \<and>
    co_present d = co_present c \<and> (\<forall>i < length codes. code d i = codes ! i)"
proof -
  let ?w = "foldl max 0 codes"
  have le: "unat x \<le> unat ?w" if "x \<in> set codes" for x
    using max_fold [OF that, of 0] by (simp add: word_le_nat_alt)
  have bits: "bit x k \<Longrightarrow> k < co_bits c" if "x \<in> set codes" for x k
    using width_ok(2) [OF le [OF that]] assms(3) by simp
  show ?thesis
  proof (cases "co_bits c = 0")
    case True
    then have "codes ! i = 0" if "i < length codes" for i
      using bits [of "codes ! i"] that by (intro bit_word_eqI) auto
    then show ?thesis
      using True assms(1) by (simp add: appendPacked_def readCodes_def codeBytes_def same_header_def code_def EncodingPlain_def EncodingRuns_def)
  next
    case False
    define body where "body = foldl (pack_step 0 (co_bits c)) (replicate (codeBytes (length codes) (co_bits c)) (of_byte 0)) (enumerate 0 codes)"
    have "co_bits c \<le> maxPackedBits \<or> co_bits c = 64" using width_ok(1) [of ?w ?w] assms(3) by simp
    then have fits: "fits (co_bits c) codes" using False bits by (auto simp: fits_def)
    have len: "length body = codeBytes (length codes) (co_bits c)"
    proof (cases codes)
      case Nil
      then show ?thesis by (simp add: body_def)
    next
      case (Cons x xs)
      then show ?thesis using pack_read(1) [OF fits, of 0] by (simp add: body_def)
    qed
    define d where "d = c\<lparr>co_codes := body\<rparr>"
    have "readCodes c (body @ rest) = Inr (rest, d)"
      using assms(1,2) len by (simp add: readCodes_def d_def)
    moreover have "code d i = codes ! i" if "i < length codes" for i
      using pack_read(2) [OF fits that] False assms(1,4)
      by (simp add: code_def d_def body_def EncodingPlain_def EncodingRuns_def)
    moreover have "same_header c d" "co_present d = co_present c" by (simp_all add: d_def same_header_def)
    ultimately show ?thesis using appendPacked_eq [OF False] body_def by blast
  qed
qed

section \<open>Opening what was built\<close>

definition coded :: "64 word list \<Rightarrow> column \<Rightarrow> bool" where
  "coded codes c \<longleftrightarrow>
     (if co_encoding c = EncodingRuns then expand (co_runs c) = codes
      else \<forall>i < length codes. code c i = codes ! i)"

lemma built_codes:
  assumes "co_encoding c = EncodingRuns \<or> co_encoding c = EncodingPlain" "co_rows c = length codes" "length codes \<le> maxRows"
    and "co_bits c = fst (width (foldl max 0 codes))"
    and "co_mask c = (if co_bits c < 64 then push_bit (co_bits c) 1 - 1 else - 1)"
  shows "\<exists>body d. (if co_encoding c = EncodingRuns then out @ append_runs (fst (runs_of codes))
        else appendPacked out codes (co_bits c)) = out @ body \<and>
      readCodes c (body @ rest) = Inr (rest, d) \<and> same_header c d \<and> co_present d = co_present c \<and> coded codes d"
proof (cases "co_encoding c = EncodingRuns")
  case True
  obtain d where "readCodes c (append_runs (fst (runs_of codes)) @ rest) = Inr (rest, d)" "same_header c d"
    "co_present d = co_present c" "expand (co_runs d) = codes"
    using read_runs_bytes [OF True assms(2,3)] by blast
  then show ?thesis using True by (auto simp: coded_def same_header_def)
next
  case False
  then have "co_encoding c = EncodingPlain" using assms(1) by blast
  from read_plain_bytes [OF this assms(2,4,5)]
  obtain d body where "appendPacked out codes (co_bits c) = out @ body" "readCodes c (body @ rest) = Inr (rest, d)"
    "same_header c d" "co_present d = co_present c" "\<forall>i < length codes. code d i = codes ! i" by blast
  then show ?thesis using False by (auto simp: coded_def same_header_def)
qed

lemma coded_code:
  assumes "column_ok c" "coded codes c" "co_rows c = length codes" "i < length codes"
  shows "code c i = codes ! i"
  using assms code_runs [OF assms(1)] by (auto simp: coded_def split: if_splits)

lemma coded_same:
  "coded codes c \<Longrightarrow> same_header c d \<Longrightarrow> co_codes d = co_codes c \<Longrightarrow> co_runs d = co_runs c \<Longrightarrow> co_ends d = co_ends c \<Longrightarrow>
    coded codes d"
  by (auto simp: coded_def same_header_def code_def split: if_splits)

lemma known_byte: "known t \<Longrightarrow> t < 256"
  by (auto simp: known_def TypeString_def TypeInt_def TypeTime_def TypeBool_def)

definition build_encoding :: "builder \<Rightarrow> encoded \<Rightarrow> nat" where
  "build_encoding b e =
     (if snd (runs_of (ec_codes e)) \<le> codeBytes (bu_rows b) (fst (width (foldl max 0 (ec_codes e))))
      then EncodingRuns else EncodingPlain)"

lemma Build_eq:
  assumes "bu_err b = None" "encode b = Some e"
  defines "bits \<equiv> fst (width (foldl max 0 (ec_codes e)))"
  defines "out \<equiv> header_bytes b (build_encoding b e) bits e @ presence_bytes b"
  shows "Build b = Some (Inr ((if build_encoding b e = EncodingRuns then out @ append_runs (fst (runs_of (ec_codes e)))
     else appendPacked out (ec_codes e) bits) @ ec_dict e))"
  using assms(1,2) unfolding Build_def out_def bits_def build_encoding_def by (simp add: Let_def split: prod.splits)

definition opened_from :: "nat \<Rightarrow> cell list \<Rightarrow> string list \<Rightarrow> encoded \<Rightarrow> column \<Rightarrow> bool" where
  "opened_from t cells sorts e c \<longleftrightarrow>
     co_typ c = t \<and> co_rows c = length cells \<and> co_base c = ec_base e \<and> co_entries c = ec_entries e \<and>
     (t = TypeString \<longrightarrow> Dict c = sorts) \<and>
     (\<forall>i < length cells. code c i = ec_codes e ! i \<and> (valued c i \<longleftrightarrow> cells ! i \<noteq> Null))"

lemma Build_opens:
  assumes b: "collected t cells b" and "known t" "length cells \<le> maxRows" "encode b = Some e"
    and e: "encodes t cells sorts e" "t = TypeString \<Longrightarrow> text_size sorts < 2 ^ 32" "length sorts \<le> length cells"
  shows "\<exists>bytes c. Build b = Some (Inr bytes) \<and> Open bytes = Inr c \<and> opened_from t cells sorts e c"
proof -
  have facts: "bu_err b = None" "bu_typ b = t" "bu_rows b = length cells" "presence_ok b (\<lambda>i. cells ! i \<noteq> Null)"
    using b by (simp_all add: collected_def)
  have len: "length (ec_codes e) = length cells" "ec_entries e \<le> length cells" using e(1,3) unfolding encodes_def by (simp, cases "t = TypeString") simp_all
  define bits enc where "bits = fst (width (foldl max 0 (ec_codes e)))" and "enc = build_encoding b e"
  define head where "head = header_bytes b enc bits e"
  define body where "body = (if enc = EncodingRuns then (head @ presence_bytes b) @ append_runs (fst (runs_of (ec_codes e)))
     else appendPacked (head @ presence_bytes b) (ec_codes e) bits)"
  have build: "Build b = Some (Inr (body @ ec_dict e))"
    using Build_eq [OF facts(1) assms(4)] by (simp add: body_def head_def enc_def bits_def)
  have wid: "bits \<le> maxPackedBits \<or> bits = 64" using width_ok(1) [of _ "foldl max 0 (ec_codes e)"] by (auto simp: bits_def)
  have small: "bu_typ b < 256" "enc < 256" "bits < 256" "bu_rows b < 2 ^ 32" "ec_entries e < 2 ^ 32"
    using known_byte [OF assms(2)] wid assms(3) len facts
    by (auto simp: enc_def build_encoding_def EncodingRuns_def EncodingPlain_def maxPackedBits_def maxRows_def)
  note rd = read_header_bytes [OF small]
  define c0 where "c0 rest = read_header (head @ rest)" for rest
  have c0: "co_typ (c0 r) = t" "co_encoding (c0 r) = enc" "co_bits (c0 r) = bits" "co_rows (c0 r) = length cells"
    "co_entries (c0 r) = ec_entries e" "co_base (c0 r) = ec_base e" "co_present (c0 r) = None"
    "co_mask (c0 r) = (if bits < 64 then push_bit bits 1 - 1 else - 1)" for r
    using rd facts by (simp_all add: c0_def head_def read_header_def Let_def)
  have encs: "enc = EncodingRuns \<or> enc = EncodingPlain" by (simp add: enc_def build_encoding_def)
  obtain rest where rest: "body @ ec_dict e = head @ rest" "rest = presence_bytes b @ drop (length (head @ presence_bytes b)) body @ ec_dict e"
  proof -
    obtain body' where "body = (head @ presence_bytes b) @ body'"
      using built_codes [of "c0 []" "ec_codes e" "head @ presence_bytes b"] c0 [of "[]"] encs len assms(3) bits_def
      unfolding body_def by metis
    then show ?thesis using that by simp
  qed
  have flags: "byte_at (head @ rest) offFlags = (if bu_nulls b then 1 else 0)" using rd(2) by (simp add: head_def)
  have rows0: "co_rows (c0 rest) = bu_rows b" using c0(4) facts(3) by simp
  from read_presence_bytes [OF facts(4) flags rows0 c0(7)] obtain p where
    p': "read_presence (head @ rest) (c0 rest) (presence_bytes b @ drop (length (head @ presence_bytes b)) body @ ec_dict e) =
      Inr (drop (length (head @ presence_bytes b)) body @ ec_dict e, (c0 rest)\<lparr>co_present := p\<rparr>) \<and>
    (\<forall>i < bu_rows b. cells ! i \<noteq> Null \<longleftrightarrow> (\<forall>q. p = Some q \<longrightarrow> row_in q i))" ..
  note p = conjunct1 [OF p'] conjunct2 [OF p']
  define c1 where "c1 = (c0 rest)\<lparr>co_present := p\<rparr>"
  have c1: "co_typ c1 = t" "co_encoding c1 = enc" "co_bits c1 = bits" "co_rows c1 = length cells"
    "co_entries c1 = ec_entries e" "co_base c1 = ec_base e" "co_present c1 = p"
    "co_mask c1 = (if bits < 64 then push_bit bits 1 - 1 else - 1)"
    by (simp_all add: c1_def c0)
  obtain body' d where d: "body = (head @ presence_bytes b) @ body'" "readCodes c1 (body' @ ec_dict e) = Inr (ec_dict e, d)"
    "same_header c1 d" "co_present d = p" "coded (ec_codes e) d"
    using built_codes [of c1 "ec_codes e" "head @ presence_bytes b" "ec_dict e"] c1 encs len assms(3) bits_def
    unfolding body_def by metis
  have dd: "co_typ d = t" "co_entries d = ec_entries e" "co_rows d = length cells" "co_base d = ec_base e"
    using d(3) c1 by (simp_all add: same_header_def)
  obtain c where c: "readDict d (ec_dict e) = Inr ([], c)" "t = TypeString \<longrightarrow> Dict c = sorts" "same_header d c"
    "co_present c = p" "coded (ec_codes e) c"
  proof (cases "t = TypeString")
    case True
    then have ent: "ec_entries e = length sorts" "ec_dict e = dict_bytes sorts" using e(1) by (simp_all add: encodes_def)
    show ?thesis
      using readDict_bytes [OF e(2) [OF True], of d] dd ent True d(4,5) that coded_same by metis
  next
    case False
    then have "ec_dict e = []" using e(1) by (simp add: encodes_def)
    then have "readDict d (ec_dict e) = Inr ([], d)" using False dd by (simp add: readDict_def)
    then show ?thesis using that [of d] False d(4,5) by (simp add: same_header_def)
  qed
  have sound: "\<not> header_damaged (head @ rest) (c0 rest)"
  proof -
    have "drop_bit 1 (byte_at (head @ rest) offFlags) = 0" using flags by simp
    moreover have "byte_at (head @ rest) offReserved = 0 \<and> byte_at (head @ rest) (offReserved + 1) = 0 \<and>
        byte_at (head @ rest) (offReserved + 2) = 0"
      using rd(3-5) unfolding head_def by blast
    moreover have "t \<noteq> TypeString \<Longrightarrow> ec_entries e = 0" using e(1) by (simp add: encodes_def)
    ultimately show ?thesis using assms(2) wid encs unfolding header_damaged_def c0 by (metis leD)
  qed
  have rest': "rest = presence_bytes b @ body' @ ec_dict e" using rest(2) d(1) by simp
  have hd: "headerSize = length head" "\<not> length (head @ rest) < headerSize" by (simp_all add: head_def headerSize_def)
  have ver: "byte_at (head @ rest) offVersion = Version" using rd(1) by (simp add: head_def)
  have "Open (head @ rest) = Inr c"
  proof -
    have "read_presence (head @ rest) (read_header (head @ rest)) (drop headerSize (head @ rest)) = Inr (body' @ ec_dict e, c1)"
      using p(1) d(1) rest' hd(1) by (simp add: c0_def c1_def)
    then show ?thesis
      using hd ver sound d(2) c(1) unfolding Open_def by (simp add: Let_def c0_def)
  qed
  moreover from Open_ok [OF this] have ok: "column_ok c" .
  moreover have rows: "co_rows c = length cells" using c(3) dd by (simp add: same_header_def)
  ultimately have "Open (body @ ec_dict e) = Inr c \<and> opened_from t cells sorts e c"
    using c dd p(2) coded_code [OF ok c(5)] len facts(3) rest(1)
    by (auto simp: opened_from_def same_header_def valued_iff)
  then show ?thesis using build by blast
qed

section \<open>Every row comes back\<close>

text \<open>A time is kept to the millisecond it falls in.\<close>

fun kept :: "cell \<Rightarrow> cell" where
  "kept (VTime t) = VTime (milli_time (UnixMilli t))"
| "kept c = c"

definition cell_at :: "column \<Rightarrow> nat \<Rightarrow> cell" where
  "cell_at c i =
     (if co_typ c = TypeString then case StringAt c (int i) of (s, present) \<Rightarrow> if present then VString s else Null
      else if co_typ c = TypeInt then case IntAt c (int i) of (v, present) \<Rightarrow> if present then VInt v else Null
      else if co_typ c = TypeTime then case TimeAt c (int i) of (t, present) \<Rightarrow> if present then VTime t else Null
      else case BoolAt c (int i) of (v, present) \<Rightarrow> if present then VBool v else Null)"

text \<open>
  What a segment's writer may hand a builder: cells of the column's type, no more than the format can
  count, and of a string column at least one string and less than 4 GiB of distinct text.
\<close>

definition buildable :: "nat \<Rightarrow> cell list \<Rightarrow> bool" where
  "buildable t cells \<longleftrightarrow>
     known t \<and> list_all (of_type t) cells \<and> length cells \<le> maxRows \<and>
     (t = TypeString \<longrightarrow> (cells = [] \<or> strings_of cells \<noteq> []) \<and> text_size (remdups (strings_of cells)) < 2 ^ 32)"

definition built :: "nat \<Rightarrow> cell list \<Rightarrow> string list \<Rightarrow> encoded \<Rightarrow> column \<Rightarrow> bool" where
  "built t cells sorts e c \<longleftrightarrow>
     opened_from t cells sorts e c \<and> encodes t cells sorts e \<and> column_ok c \<and> list_all (of_type t) cells \<and>
     sorted sorts \<and> distinct sorts \<and> (t = TypeString \<longrightarrow> set sorts = set (strings_of cells)) \<and>
     length sorts \<le> length cells \<and> length cells \<le> maxRows"

lemma text_size_set: "distinct ss \<Longrightarrow> text_size ss = (\<Sum>s \<in> set ss. length s)"
  by (simp add: text_size_def length_concat sum_list_distinct_conv_sum_set)

lemma buildable_built:
  assumes "buildable t cells"
  obtains bytes c sorts e where "Build (collect t cells) = Some (Inr bytes)" "Open bytes = Inr c" "built t cells sorts e c"
proof -
  let ?b = "collect t cells"
  have ok: "known t" "list_all (of_type t) cells" "length cells \<le> maxRows" using assms by (simp_all add: buildable_def)
  note b = collect_ok [OF ok]
  define sorts where "sorts = (if t = TypeString then sort (bu_terms ?b) else [])"
  have terms: "distinct (bu_terms ?b)" "set (bu_terms ?b) = set (strings_of cells)" "length (bu_terms ?b) \<le> length cells"
    using b by (simp_all add: collected_def ids_ok_def)
  have sorts: "sorted sorts \<and> distinct sorts \<and> (t = TypeString \<longrightarrow> set sorts = set (strings_of cells))"
    using terms by (auto simp: sorts_def)
  have "text_size (sort (bu_terms ?b)) = text_size (remdups (strings_of cells))"
    using terms by (simp add: text_size_set)
  then have size: "t = TypeString \<Longrightarrow> text_size sorts < 2 ^ 32" using assms by (simp add: buildable_def sorts_def)
  have "\<exists>e. encode ?b = Some e \<and> encodes t cells sorts e"
  proof (cases "t = TypeString")
    case True
    then show ?thesis using encode_strings [of cells ?b] b ok assms by (simp add: sorts_def buildable_def)
  next
    case False
    then show ?thesis using encode_numbers [OF b ok(2)] by (simp add: sorts_def)
  qed
  then obtain e where e: "encode ?b = Some e" "encodes t cells sorts e" by blast
  have few: "length sorts \<le> length cells" using terms(3) by (auto simp: sorts_def)
  from Build_opens [OF b ok(1,3) e size this] obtain bytes c where
    c: "Build ?b = Some (Inr bytes)" "Open bytes = Inr c" "opened_from t cells sorts e c" by blast
  moreover have "built t cells sorts e c"
    using c(3) e(2) Open_ok [OF c(2)] ok(2,3) sorts few unfolding built_def by blast
  ultimately show ?thesis using that by blast
qed

lemma built_facts:
  assumes "built t cells sorts e c"
  shows "co_typ c = t" "co_rows c = length cells" "t = TypeString \<Longrightarrow> Dict c = sorts"
    "t = TypeString \<Longrightarrow> co_entries c = length sorts" "column_ok c" "known t"
    "i < length cells \<Longrightarrow> valued c i \<longleftrightarrow> cells ! i \<noteq> Null" "\<not> i < length cells \<Longrightarrow> \<not> valued c i"
    "i < length cells \<Longrightarrow> of_type t (cells ! i)"
    "i < length cells \<Longrightarrow> cells ! i = VString s \<Longrightarrow> unat (code c i) < length sorts \<and> sorts ! unat (code c i) = s"
    "i < length cells \<Longrightarrow> cells ! i = VInt v \<Longrightarrow> sint v = sint (co_base c) + int (unat (code c i))"
    "i < length cells \<Longrightarrow> cells ! i = VTime x \<Longrightarrow> sint (UnixMilli x) = sint (co_base c) + int (unat (code c i))"
    "i < length cells \<Longrightarrow> cells ! i = VBool y \<Longrightarrow> code c i = (if y then 1 else 0)"
proof -
  have o: "opened_from t cells sorts e c" "encodes t cells sorts e" "column_ok c" "list_all (of_type t) cells"
    using assms by (simp_all add: built_def)
  show rows: "co_typ c = t" "co_rows c = length cells" "t = TypeString \<Longrightarrow> Dict c = sorts" "column_ok c"
    "t = TypeString \<Longrightarrow> co_entries c = length sorts"
    using o by (simp_all add: opened_from_def encodes_def)
  then show "known t" by (simp add: column_ok_def)
  show "i < length cells \<Longrightarrow> valued c i \<longleftrightarrow> cells ! i \<noteq> Null" using o(1) by (simp add: opened_from_def)
  show "\<not> i < length cells \<Longrightarrow> \<not> valued c i" using valued_iff [OF rows(4)] rows(2) by simp
  show "i < length cells \<Longrightarrow> of_type t (cells ! i)" using o(4) by (simp add: list_all_length)
  assume i: "i < length cells"
  then have code: "code c i = ec_codes e ! i" "co_base c = ec_base e" using o(1) by (simp_all add: opened_from_def)
  show "cells ! i = VString s \<Longrightarrow> unat (code c i) < length sorts \<and> sorts ! unat (code c i) = s"
    "cells ! i = VInt v \<Longrightarrow> sint v = sint (co_base c) + int (unat (code c i))"
    "cells ! i = VTime x \<Longrightarrow> sint (UnixMilli x) = sint (co_base c) + int (unat (code c i))"
    "cells ! i = VBool y \<Longrightarrow> code c i = (if y then 1 else 0)"
    using o(2) i unfolding code encodes_def by blast+
qed

lemma base_plus_code: "sint v = sint base + int (unat x) \<Longrightarrow> x + base = (v :: 64 word)"
proof -
  assume v: "sint v = sint base + int (unat x)"
  have "v = word_of_int (sint v)" by simp
  also have "\<dots> = word_of_int (sint base) + word_of_int (int (unat x))" by (simp only: v wi_hom_add)
  finally show ?thesis by (simp add: add.commute)
qed

lemma CodeAt_built:
  assumes "built t cells sorts e c" "i < length cells"
  shows "CodeAt c (int i) = (if cells ! i = Null then 0 else code c i, cells ! i \<noteq> Null)"
  using built_facts(7) [OF assms] built_facts(2) [OF assms(1)] assms(2)
  by (auto simp: valued_def CodeAt_def split: option.splits)

lemma cell_at_built:
  assumes "built t cells sorts e c" "i < length cells"
  shows "cell_at c i = kept (cells ! i)"
proof -
  note b = built_facts [OF assms(1)]
  note types = TypeString_def TypeInt_def TypeTime_def TypeBool_def
  show ?thesis
  proof (cases "cells ! i")
    case Null
    then show ?thesis using CodeAt_built [OF assms] by (simp add: cell_at_def StringAt_def IntAt_def TimeAt_def BoolAt_def)
  next
    case (VString s)
    then have t: "t = TypeString" using b(9) [OF assms(2)] by simp
    then have "dict_term c (unat (code c i)) = s"
      using b(3,4) b(10) [OF assms(2) VString] unfolding Dict_def by (metis add_0 diff_zero length_map length_upt nth_map nth_upt)
    then show ?thesis
      using t b(1,4) b(10) [OF assms(2) VString] CodeAt_built [OF assms] VString by (simp add: cell_at_def StringAt_def)
  next
    case (VInt v)
    then show ?thesis
      using b(1) b(9) [OF assms(2)] base_plus_code [OF b(11) [OF assms(2) VInt]] CodeAt_built [OF assms]
      by (simp add: cell_at_def IntAt_def types)
  next
    case (VTime x)
    then show ?thesis
      using b(1) b(9) [OF assms(2)] base_plus_code [OF b(12) [OF assms(2) VTime]] CodeAt_built [OF assms]
      by (simp add: cell_at_def TimeAt_def types)
  next
    case (VBool y)
    then show ?thesis
      using b(1) b(9) [OF assms(2)] b(13) [OF assms(2) VBool] CodeAt_built [OF assms]
      by (simp add: cell_at_def BoolAt_def types)
  qed
qed


definition some_cells :: "cell list" where
  "some_cells = [VString ''pear'', Null, VString ''apple'', VString ''pear'']"


end
