(* ===== verification/Column_Match.thy ===== *)
theory Column_Match
  imports Column_Roundtrip Go_Text
begin

text \<open>
  The predicates of a built column: each answers with exactly the rows whose value it asks for.
\<close>

section \<open>The end of a prefix\<close>

lemma upper_loop_Cons:
  "upper_loop (c # p) (Suc i) =
     (case upper_loop p i of Some u \<Rightarrow> Some (c # u) | None \<Rightarrow> upper_loop (c # p) (Suc 0))"
  by (induction i) simp_all

lemma upper_simps [simp]:
  "upper [] = None"
  "upper (c # p) = (case upper p of Some u \<Rightarrow> Some (c # u)
     | None \<Rightarrow> if byte_of c \<noteq> 255 then Some [of_byte (byte_of c + 1)] else None)"
proof -
  have "upper (c # p) = upper_loop (c # p) (Suc (length p))" by (simp add: upper_def del: upper_loop.simps)
  then show "upper (c # p) = (case upper p of Some u \<Rightarrow> Some (c # u)
      | None \<Rightarrow> if byte_of c \<noteq> 255 then Some [of_byte (byte_of c + 1)] else None)"
    using upper_loop_Cons [of c p "length p"] by (simp add: upper_def del: upper_loop.simps(2)) (simp split: option.split)
qed (simp add: upper_def)

lemma less_byte: "c < d \<longleftrightarrow> byte_of c < byte_of d"
  by (simp add: less_char_def byte_of_def)

lemma next_byte: "byte_of c \<noteq> 255 \<Longrightarrow> d < of_byte (byte_of c + 1) \<longleftrightarrow> d \<le> c"
proof -
  assume "byte_of c \<noteq> 255"
  then have "byte_of c + 1 < 256" using byte_of_lt [of c] by linarith
  then have "byte_of (of_byte (byte_of c + 1)) = byte_of c + 1" by (rule byte_of_of_byte)
  then show ?thesis by (auto simp: less_byte le_less less_Suc_eq)
qed

lemma top_byte: "byte_of c = 255 \<Longrightarrow> \<not> c < d"
proof -
  assume "byte_of c = 255"
  moreover have "byte_of d < 256" by simp
  ultimately show ?thesis unfolding less_byte by linarith
qed

lemma upper_prefix:
  "HasPrefix s p \<longleftrightarrow> p \<le> s \<and> (\<forall>u. upper p = Some u \<longrightarrow> s < u)"
proof (induction p arbitrary: s)
  case (Cons c p)
  show ?case
  proof (cases s)
    case (Cons d s')
    show ?thesis
    proof (cases "upper p")
      case None
      then show ?thesis
        using Cons.IH [of s'] Cons next_byte [of c d] top_byte [of c d] by (auto simp: HasPrefix_def)
    next
      case (Some u)
      then show ?thesis using Cons.IH [of s'] Cons by (auto simp: HasPrefix_def)
    qed
  qed (simp add: HasPrefix_def)
qed (simp add: HasPrefix_def)

section \<open>The dictionary\<close>

lemma built_dict:
  assumes "built TypeString cells sorts e c" "i < length sorts"
  shows "dict_term c i = sorts ! i"
  using built_facts(3,4) [OF assms(1)] assms(2) unfolding Dict_def
  by (metis add_0 diff_zero length_upt nth_map nth_upt)

lemma dict_search_built:
  assumes "built TypeString cells sorts e c"
  shows "dict_search c v \<le> length sorts" "i < length sorts \<Longrightarrow> dict_search c v \<le> i \<longleftrightarrow> v \<le> sorts ! i"
proof -
  have n: "co_entries c = length sorts" "sorted sorts" using built_facts(4) [OF assms] assms by (simp_all add: built_def)
  have asc: "ascending (length sorts) (\<lambda>i. v \<le> dict_term c i)"
    unfolding ascending_def
  proof (intro allI impI)
    fix a b assume ab: "a \<le> b" "b < length sorts" "v \<le> dict_term c a"
    then have "sorts ! a \<le> sorts ! b" using n(2) by (intro sorted_nth_mono)
    then show "v \<le> dict_term c b" using ab built_dict [OF assms, of a] built_dict [OF assms, of b] by simp
  qed
  note s = Search_first [OF asc, folded n(1), folded dict_search_def]
  show "dict_search c v \<le> length sorts" using s(1) n(1) by simp
  show "i < length sorts \<Longrightarrow> dict_search c v \<le> i \<longleftrightarrow> v \<le> sorts ! i"
    using s(2,3) [of i] n(1) built_dict [OF assms, of i] by (metis not_le)
qed

lemma rank_built:
  assumes "built TypeString cells sorts e c"
  shows "rank c v = Some i \<longleftrightarrow> i < length sorts \<and> sorts ! i = v"
proof -
  let ?i = "dict_search c v"
  have n: "co_entries c = length sorts" "distinct sorts" using built_facts(4) [OF assms] assms by (simp_all add: built_def)
  note s = dict_search_built [OF assms, where v = v]
  have hit: "rank c v = (if ?i < length sorts \<and> sorts ! ?i = v then Some ?i else None)"
    using built_dict [OF assms, of ?i] by (auto simp: rank_def Let_def n(1))
  have "?i = i" if i: "i < length sorts" "sorts ! i = v"
  proof -
    have le: "?i \<le> i" using s(2) [OF i(1)] i(2) by simp
    then have "v \<le> sorts ! ?i" using s(2) [of ?i] i(1) by simp
    moreover have "sorts ! ?i \<le> sorts ! i" using assms le i(1) by (intro sorted_nth_mono) (simp_all add: built_def)
    ultimately have "sorts ! ?i = sorts ! i" using i(2) by simp
    then show ?thesis using n(2) le i(1) by (simp add: nth_eq_iff_index_eq)
  qed
  then show ?thesis using hit by auto
qed

lemma wanted_set:
  assumes "built TypeString cells sorts e c"
  defines "s \<equiv> foldl (\<lambda>s v. case rank c v of Some i \<Rightarrow> Set_row (int i) s | None \<Rightarrow> s) (NewRows (int (co_entries c)))"
  shows "rows_ok (s vs) \<and> rb_n (s vs) = length sorts \<and> (\<forall>i. row_in (s vs) i \<longleftrightarrow> i < length sorts \<and> sorts ! i \<in> set vs)"
proof (induction vs rule: rev_induct)
  case Nil
  then show ?case using built_facts(4) [OF assms(1)] by (simp add: s_def)
next
  case (snoc v vs)
  have step: "s (vs @ [v]) = (case rank c v of Some i \<Rightarrow> Set_row (int i) (s vs) | None \<Rightarrow> s vs)"
    by (cases "rank c v") (simp_all add: s_def)
  show ?case
  proof (cases "rank c v")
    case None
    then have "sorts ! i \<noteq> v" if "i < length sorts" for i using rank_built [OF assms(1), of v i] that by simp
    then show ?thesis using snoc None step by auto
  next
    case (Some j)
    then have j: "j < length sorts" "sorts ! j = v" using rank_built [OF assms(1)] by simp_all
    moreover have "sorts ! i = v \<longleftrightarrow> i = j" if "i < length sorts" for i
      using that j assms(1) by (auto simp: built_def nth_eq_iff_index_eq)
    ultimately show ?thesis using snoc Some step by (auto simp: row_in_Set outside_def)
  qed
qed

section \<open>Exact answers\<close>

datatype asked =
  AskStrings "string list" | AskPrefix string | AskInts "64 word" "64 word" | AskTimes gtime gtime | AskBool bool

fun answer :: "column \<Rightarrow> asked \<Rightarrow> column_error + rowmap" where
  "answer c (AskStrings vs) = MatchStrings c vs"
| "answer c (AskPrefix p) = MatchPrefix c p"
| "answer c (AskInts lo hi) = MatchInts c lo hi"
| "answer c (AskTimes lo hi) = MatchTimes c lo hi"
| "answer c (AskBool v) = MatchBool c v"

fun about :: "asked \<Rightarrow> nat" where
  "about (AskStrings vs) = TypeString"
| "about (AskPrefix p) = TypeString"
| "about (AskInts lo hi) = TypeInt"
| "about (AskTimes lo hi) = TypeTime"
| "about (AskBool v) = TypeBool"

text \<open>Which values a predicate asks for; a null never.\<close>

fun asks :: "asked \<Rightarrow> cell \<Rightarrow> bool" where
  "asks (AskStrings vs) (VString s) \<longleftrightarrow> s \<in> set vs"
| "asks (AskPrefix p) (VString s) \<longleftrightarrow> HasPrefix s p"
| "asks (AskInts lo hi) (VInt v) \<longleftrightarrow> sint lo \<le> sint v \<and> sint v \<le> sint hi"
| "asks (AskTimes lo hi) (VTime t) \<longleftrightarrow>
     sint (UnixMilli lo) \<le> sint (UnixMilli t) \<and> sint (UnixMilli t) \<le> sint (UnixMilli hi)"
| "asks (AskBool v) (VBool w) \<longleftrightarrow> v = w"
| "asks q c \<longleftrightarrow> False"

text \<open>The filter each predicate is reduced to.\<close>

definition filter_of :: "column \<Rightarrow> asked \<Rightarrow> filter_codes" where
  "filter_of c q =
     (case q of
        AskStrings vs \<Rightarrow>
          let s = foldl (\<lambda>s v. case rank c v of Some i \<Rightarrow> Set_row (int i) s | None \<Rightarrow> s) (NewRows (int (co_entries c))) vs
          in no_filter\<lparr>fi_set := Some s, fi_empty := Empty_rows s\<rparr>
      | AskPrefix p \<Rightarrow>
          let lo = dict_search c p; hi = (case upper p of Some up \<Rightarrow> dict_search c up | None \<Rightarrow> co_entries c)
          in if hi \<le> lo then no_filter\<lparr>fi_empty := True\<rparr>
             else no_filter\<lparr>fi_lo := word_of_nat lo, fi_hi := word_of_nat (hi - 1)\<rparr>
      | AskInts lo hi \<Rightarrow> rangeOf c lo hi
      | AskTimes lo hi \<Rightarrow> rangeOf c (UnixMilli lo) (UnixMilli hi)
      | AskBool v \<Rightarrow> no_filter\<lparr>fi_lo := if v then 1 else 0, fi_hi := if v then 1 else 0\<rparr>)"

lemma answer_scan:
  "answer c q = (if co_typ c = about q then Inr (scan c (filter_of c q)) else Inl ErrType)"
  by (cases q) (simp_all add: filter_of_def MatchStrings_def MatchPrefix_def MatchInts_def MatchTimes_def
      MatchBool_def Let_def)

definition picks :: "filter_codes \<Rightarrow> 64 word \<Rightarrow> bool" where
  "picks f x \<longleftrightarrow> \<not> fi_empty f \<and> has_code f x"

lemma picks_range:
  assumes "sint v = sint (co_base c) + int (unat x)"
  shows "picks (rangeOf c lo hi) x \<longleftrightarrow> sint lo \<le> sint v \<and> sint v \<le> sint hi"
proof -
  have hi: "x \<le> hi - co_base c \<longleftrightarrow> sint v \<le> sint hi" if "sint (co_base c) \<le> sint hi"
    using unat_diff_sint [OF that] assms by (simp add: word_le_def)
  have lo: "lo - co_base c \<le> x \<longleftrightarrow> sint lo \<le> sint v" if "sint (co_base c) < sint lo"
    using unat_diff_sint [of "co_base c" lo] that assms by (simp add: word_le_def)
  have base: "sint (co_base c) \<le> sint v" using assms by simp
  show ?thesis
    using hi lo base by (auto simp: picks_def rangeOf_def no_filter_def has_code_def Let_def)
qed

lemma picks_strings:
  assumes "built TypeString cells sorts e c" "unat x < length sorts"
  shows "picks (filter_of c (AskStrings vs)) x \<longleftrightarrow> sorts ! unat x \<in> set vs"
proof -
  let ?s = "foldl (\<lambda>s v. case rank c v of Some i \<Rightarrow> Set_row (int i) s | None \<Rightarrow> s) (NewRows (int (co_entries c))) vs"
  have "rows_ok ?s" "rb_n ?s = length sorts" "row_in ?s i \<longleftrightarrow> i < length sorts \<and> sorts ! i \<in> set vs" for i
    using wanted_set [OF assms(1), of vs] by blast+
  note s = this
  have "picks (filter_of c (AskStrings vs)) x \<longleftrightarrow> \<not> Empty_rows ?s \<and> unat x < Len ?s \<and> row_in ?s (unat x)"
    using Get_row_int [OF s(1), of "unat x"] by (simp add: filter_of_def Let_def picks_def has_code_def no_filter_def)
  also have "\<dots> \<longleftrightarrow> row_in ?s (unat x)"
    using Empty_rows_iff [OF s(1)] row_in_def [of ?s "unat x"] unfolding Len_def by blast
  finally show ?thesis using s(3) assms(2) by blast
qed

lemma word_of_nat_le:
  assumes "n < 2 ^ 64"
  shows "word_of_nat n \<le> (x :: 64 word) \<longleftrightarrow> n \<le> unat x" "(x :: 64 word) \<le> word_of_nat n \<longleftrightarrow> unat x \<le> n"
  using assms by (simp_all add: word_le_nat_alt unat_of_nat)

lemma picks_prefix:
  assumes "built TypeString cells sorts e c" "unat x < length sorts"
  shows "picks (filter_of c (AskPrefix p)) x \<longleftrightarrow> HasPrefix (sorts ! unat x) p"
proof -
  let ?i = "unat x" and ?lo = "dict_search c p"
  let ?hi = "case upper p of Some up \<Rightarrow> dict_search c up | None \<Rightarrow> co_entries c"
  have n: "co_entries c = length sorts" "length sorts < 2 ^ 64"
    using built_facts(4) [OF assms(1)] assms(1) by (simp_all add: built_def maxRows_def)
  have lo: "?lo \<le> ?i \<longleftrightarrow> p \<le> sorts ! ?i" and lo_le: "?lo \<le> length sorts"
    using dict_search_built [OF assms(1)] assms(2) by blast+
  have hi: "?i < ?hi \<longleftrightarrow> (\<forall>u. upper p = Some u \<longrightarrow> sorts ! ?i < u)" and hi_le: "?hi \<le> length sorts"
    using dict_search_built [OF assms(1)] assms(2) n(1) by (auto split: option.split simp flip: not_le)
  have "picks (filter_of c (AskPrefix p)) x \<longleftrightarrow> ?lo \<le> ?i \<and> ?i < ?hi"
  proof (cases ?hi)
    case 0
    then show ?thesis by (simp add: filter_of_def Let_def picks_def has_code_def no_filter_def)
  next
    case (Suc k)
    have "word_of_nat ?lo \<le> x \<longleftrightarrow> ?lo \<le> ?i" "x \<le> word_of_nat k \<longleftrightarrow> ?i \<le> k"
      using lo_le hi_le n(2) unfolding Suc by (intro word_of_nat_le; linarith)+
    then show ?thesis by (auto simp: filter_of_def Let_def picks_def has_code_def no_filter_def Suc less_Suc_eq_le)
  qed
  then show ?thesis using lo hi upper_prefix by blast
qed

lemma picks_asks:
  assumes "built t cells sorts e c" "i < length cells" "t = about q" "cells ! i \<noteq> Null"
  shows "picks (filter_of c q) (code c i) \<longleftrightarrow> asks q (cells ! i)"
proof -
  note b = built_facts [OF assms(1)]
  note types = TypeString_def TypeInt_def TypeTime_def TypeBool_def
  have of: "of_type t (cells ! i)" by (rule b(9) [OF assms(2)])
  show ?thesis
  proof (cases q)
    case (AskStrings vs)
    then have t: "t = TypeString" using assms(3) by simp
    then obtain s where s: "cells ! i = VString s" using of assms(4) by (cases "cells ! i") (simp_all add: types)
    then show ?thesis
      using picks_strings [of cells sorts e c "code c i" vs] assms(1) b(10) [OF assms(2) s] t AskStrings by simp
  next
    case (AskPrefix p)
    then have t: "t = TypeString" using assms(3) by simp
    then obtain s where s: "cells ! i = VString s" using of assms(4) by (cases "cells ! i") (simp_all add: types)
    then show ?thesis
      using picks_prefix [of cells sorts e c "code c i" p] assms(1) b(10) [OF assms(2) s] t AskPrefix by simp
  next
    case (AskInts lo hi)
    then obtain v where v: "cells ! i = VInt v" using of assms(3,4) by (cases "cells ! i") (simp_all add: types)
    then show ?thesis using picks_range [OF b(11) [OF assms(2) v], of lo hi] AskInts by (simp add: filter_of_def)
  next
    case (AskTimes lo hi)
    then obtain v where v: "cells ! i = VTime v" using of assms(3,4) by (cases "cells ! i") (simp_all add: types)
    then show ?thesis
      using picks_range [OF b(12) [OF assms(2) v], of "UnixMilli lo" "UnixMilli hi"] AskTimes by (simp add: filter_of_def)
  next
    case (AskBool w)
    then obtain v where v: "cells ! i = VBool v" using of assms(3,4) by (cases "cells ! i") (simp_all add: types)
    have "picks (filter_of c q) x \<longleftrightarrow> x = (if w then 1 else 0)" for x
      using AskBool by (auto simp: filter_of_def picks_def has_code_def no_filter_def)
    then show ?thesis using b(13) [OF assms(2) v] v AskBool by simp
  qed
qed

lemma Match_member:
  assumes "buildable t cells" "Build (collect t cells) = Some (Inr bytes)" "Open bytes = Inr c" "about q = t"
  shows "\<exists>m. answer c q = Inr m \<and> rows_ok m \<and> rb_n m = length cells \<and>
    (\<forall>i. row_in m i \<longleftrightarrow> i < length cells \<and> asks q (cells ! i))"
proof -
  obtain sorts e where b: "built t cells sorts e c"
    using buildable_built [OF assms(1)] assms(2,3) by (metis Inr_inject option.inject)
  note f = built_facts [OF b]
  have "row_in (scan c (filter_of c q)) i \<longleftrightarrow> valued c i \<and> picks (filter_of c q) (code c i)" for i
    using scan_member [OF assms(3), of "filter_of c q"] unfolding picks_def by blast
  moreover have "valued c i \<and> picks (filter_of c q) (code c i) \<longleftrightarrow> i < length cells \<and> asks q (cells ! i)" for i
  proof (cases "i < length cells \<and> cells ! i \<noteq> Null")
    case True
    then show ?thesis using f(7) picks_asks [OF b _ assms(4) [symmetric]] by blast
  next
    case False
    then have "\<not> valued c i" using f(7,8) by blast
    moreover have "\<not> asks q Null" by (cases q) simp_all
    ultimately show ?thesis using False by auto
  qed
  moreover have "answer c q = Inr (scan c (filter_of c q))" using assms(4) f(1) by (simp add: answer_scan)
  ultimately show ?thesis using scan_member [OF assms(3), of "filter_of c q"] f(2) by simp
qed

text \<open>
  C38: on a built column that was opened again, a predicate of the column's own type answers with
  exactly the rows whose value it asks for: the named strings, the strings with a prefix (all of them,
  also where the prefix ends in the last byte), the numbers and times of a range with both ends
  included, the booleans of a value; a null row is in none of them.
\<close>

theorem Match_exact:
  assumes "buildable t cells" "Build (collect t cells) = Some (Inr bytes)" "Open bytes = Inr c" "about q = t"
  shows "\<exists>m. answer c q = Inr m \<and> rows_ok m \<and> rb_n m = length cells \<and>
    (\<forall>i. row_in m i \<longleftrightarrow> i < length cells \<and> asks q (cells ! i))"
  by (rule Match_member [OF assms])

lemma Match_exact_witness:
  "\<exists>bytes c m. Build (collect TypeString some_cells) = Some (Inr bytes) \<and> Open bytes = Inr c \<and>
    answer c (AskPrefix ''pe'') = Inr m \<and> row_in m 0 \<and> \<not> row_in m 1 \<and> \<not> row_in m 2 \<and> row_in m 3"
proof -
  have b: "buildable TypeString some_cells"
    by (simp add: buildable_def known_def some_cells_def TypeString_def maxRows_def strings_of_def)
  obtain bytes c where c: "Build (collect TypeString some_cells) = Some (Inr bytes)" "Open bytes = Inr c"
    using buildable_built [OF b] by blast
  obtain m where m: "answer c (AskPrefix ''pe'') = Inr m"
    "\<forall>i. row_in m i \<longleftrightarrow> i < length some_cells \<and> asks (AskPrefix ''pe'') (some_cells ! i)"
    using Match_exact [OF b c, of "AskPrefix ''pe''"] by auto
  have "row_in m 0" "\<not> row_in m 1" "\<not> row_in m 2" "row_in m 3"
    using m(2) by (simp_all add: some_cells_def HasPrefix_def)
  then show ?thesis using c m(1) by blast
qed

lemma scan_exact_witness:
  "\<exists>bytes c. Build (collect TypeString some_cells) = Some (Inr bytes) \<and> Open bytes = Inr c \<and>
    \<not> row_in (scan c (no_filter\<lparr>fi_hi := 9\<rparr>)) 1"
proof -
  have b: "buildable TypeString some_cells"
    by (simp add: buildable_def known_def some_cells_def TypeString_def maxRows_def strings_of_def)
  obtain bytes c sorts e where c: "Build (collect TypeString some_cells) = Some (Inr bytes)" "Open bytes = Inr c"
    "built TypeString some_cells sorts e c" using buildable_built [OF b] .
  have "\<not> valued c 1" using built_facts(7) [OF c(3), of 1] by (simp add: some_cells_def)
  then show ?thesis using scan_exact [OF c(2), of "no_filter\<lparr>fi_hi := 9\<rparr>"] c by blast
qed

section \<open>What is refused\<close>

lemma err_sticky: "bu_err b = Some x \<Longrightarrow> append_cell c b = b"
  by (cases c) (simp_all add: AppendNull_def AppendString_def AppendInt_def AppendTime_def AppendBool_def check_def)

lemma collect_sticky:
  assumes "bu_err (collect t cells) = Some x"
  shows "bu_err (collect t (cells @ post)) = Some x"
proof (induction post rule: rev_induct)
  case (snoc c post)
  have "collect t (cells @ post @ [c]) = append_cell c (collect t (cells @ post))"
    using collect_snoc(2) [of t "cells @ post" c] by simp
  then show ?case using snoc err_sticky [OF snoc] by simp
qed (use assms in simp)

lemma refused_cell:
  assumes "collected t pre b" "\<not> of_type t c \<or> length pre = maxRows"
  shows "bu_err (append_cell c b) = Some (if of_type t c then ErrRows else ErrType)"
proof -
  have b: "bu_err b = None" "bu_typ b = t" "bu_rows b = length pre" using assms(1) by (simp_all add: collected_def)
  have full: "bu_err (push x d) = Some ErrRows" if "bu_rows d = bu_rows b" "of_type t c" for x d
    using that b(3) assms(2) by (simp add: push_def)
  show ?thesis
  proof (cases c)
    case Null
    then show ?thesis using full b(1) by (simp add: AppendNull_def Let_def)
  next
    case (VString s)
    then show ?thesis
      using full b by (simp add: AppendString_def check_def Let_def split: option.split)
  qed (use full b in \<open>simp_all add: AppendInt_def AppendTime_def AppendBool_def check_def\<close>)
qed

text \<open>
  The first cell of another type, or past the last row the format can count, decides the build:
  whatever is appended after it, \<open>Build\<close> answers with that error and writes nothing.
\<close>

theorem Build_refuses:
  assumes "known t" "list_all (of_type t) pre" "length pre \<le> maxRows" "\<not> of_type t c \<or> length pre = maxRows"
  shows "Build (collect t (pre @ c # post)) = Some (Inl (if of_type t c then ErrRows else ErrType))"
proof -
  have "bu_err (collect t (pre @ [c])) = Some (if of_type t c then ErrRows else ErrType)"
    using refused_cell [OF collect_ok [OF assms(1-3)] assms(4)] by simp
  from collect_sticky [OF this, of post] show ?thesis by (simp add: Build_def)
qed

lemma Build_refuses_witness:
  "Build (collect TypeInt [VInt 3, VString ''x'', VInt 4]) = Some (Inl ErrType)"
  using Build_refuses [of TypeInt "[VInt 3]" "VString ''x''" "[VInt 4]"]
  by (simp add: known_def TypeInt_def TypeString_def maxRows_def)

text \<open>A string column whose every row is null has no term to rank, and \<open>Build\<close> panics on it.\<close>

lemma Build_all_null:
  assumes "0 < n" "n \<le> maxRows"
  shows "Build (collect TypeString (replicate n Null)) = None"
proof -
  let ?b = "collect TypeString (replicate n Null)"
  have b: "collected TypeString (replicate n Null) ?b"
    by (rule collect_ok) (use assms in \<open>simp_all add: known_def list_all_iff\<close>)
  have "bu_terms ?b = []" using b by (auto simp: collected_def strings_of_def)
  moreover have "bu_codes ?b = replicate n 0" "bu_typ ?b = TypeString" "bu_err ?b = None"
    using b by (simp_all add: collected_def)
  ultimately have "encode ?b = None"
    using assms(1) by (simp add: encode_def encodeStrings_def rank_table_def Let_def list_all_iff)
  then show ?thesis using \<open>bu_err ?b = None\<close> by (simp add: Build_def)
qed

end
