(* ===== verification/Graph_Postings.thy ===== *)
theory Graph_Postings
  imports Column_Match Go_Sort
begin

text \<open>
  \<open>store/graph/postings.go\<close>: one list of ascending document rows for each entity or edge, as gaps.
  A document row is a Go \<open>int\<close>, read into a \<open>uint64\<close> whose sums wrap around.
\<close>

section \<open>Errors\<close>

text \<open>The errors of \<open>graph.go\<close>; one of a column is passed on.\<close>

datatype graph_error =
  GraphVersion | GraphFormat | ErrEntity | ErrRow | ErrMention | ErrDepth | ErrLimit | OfColumn column_error

section \<open>Writing\<close>

definition gap_step :: "string \<times> int \<Rightarrow> int \<Rightarrow> string \<times> int" where
  "gap_step = (\<lambda>(out, prev) row. (out @ uvarint (nat ((row - prev) mod 2 ^ 64)), row))"

definition list_step :: "nat \<Rightarrow> string \<Rightarrow> nat \<times> int list \<Rightarrow> string" where
  "list_step header out = (\<lambda>(i, l).
     let out = fst (foldl gap_step (out, 0) l)
     in put_at out (4 + (i + 1) * 4) (le_bytes 4 (length out - header)))"

definition encodePostings :: "int list list \<Rightarrow> string" where
  "encodePostings ls =
     (let header = 4 + (length ls + 1) * 4;
          out = replicate header (of_byte 0);
          out = put_at out 0 (le_bytes 4 (length ls));
          out = put_at out 4 (le_bytes 4 0)
      in foldl (list_step header) out (enumerate 0 ls))"

section \<open>Reading\<close>

record postings =
  po_offsets :: string
  po_data :: string
  po_lists :: nat

definition maxRow :: nat where "maxRow = 2 ^ 32 - 1"

definition openPostings :: "string \<Rightarrow> nat \<Rightarrow> graph_error + postings" where
  "openPostings b want =
     (if length b < 4 then Inl GraphFormat
      else
        let ls = Uint32_at b 0
        in if ls \<noteq> want then Inl GraphFormat
           else
             let stop = 4 + (ls + 1) * 4
             in if length b < stop then Inl GraphFormat
                else
                  let p = \<lparr>po_offsets = take (stop - 4) (drop 4 b), po_data = drop stop b, po_lists = ls\<rparr>
                  in if \<not> offsets_ascend (po_offsets p) 0 [0..<ls + 1] then Inl GraphFormat
                     else if Uint32_at (po_offsets p) (4 * ls) \<noteq> length (po_data p) then Inl GraphFormat
                     else Inr p)"

definition list_at :: "postings \<Rightarrow> int \<Rightarrow> string" where
  "list_at p i =
     (if i < 0 \<or> int (po_lists p) \<le> i then []
      else
        let lo = Uint32_at (po_offsets p) (4 * nat i); hi = Uint32_at (po_offsets p) (4 * (nat i + 1))
        in take (hi - lo) (drop lo (po_data p)))"

function visible_loop :: "rowmap \<Rightarrow> nat \<Rightarrow> string \<Rightarrow> bool" where
  "visible_loop allow row b =
     (if b = [] then False
      else
        let (gap, n) = Uvarint b
        in if n \<le> 0 then False
           else
             let row = (row + gap) mod 2 ^ 64
             in if maxRow < row then False
                else if Get_row allow (int row) then True
                else visible_loop allow row (drop (nat n) b))"
  by pat_completeness auto
termination
  by (relation "measure (\<lambda>(allow, row, b). length b)") auto

declare visible_loop.simps [simp del]

definition list_visible :: "postings \<Rightarrow> int \<Rightarrow> rowmap option \<Rightarrow> bool" where
  "list_visible p i allow =
     (let b = list_at p i
      in case allow of None \<Rightarrow> 0 < length b | Some m \<Rightarrow> visible_loop m 0 b)"

function rows_loop :: "nat \<Rightarrow> int list \<Rightarrow> string \<Rightarrow> int list" where
  "rows_loop row out b =
     (if b = [] then out
      else
        let (gap, n) = Uvarint b
        in if n \<le> 0 \<or> gap = 0 \<and> 0 < length out then out
           else
             let row = (row + gap) mod 2 ^ 64
             in if maxRow < row then out
                else rows_loop row (out @ [int row]) (drop (nat n) b))"
  by pat_completeness auto
termination
  by (relation "measure (\<lambda>(row, out, b). length b)") auto

declare rows_loop.simps [simp del]

definition list_rows :: "postings \<Rightarrow> int \<Rightarrow> int list" where
  "list_rows p i = (let b = list_at p i in if b = [] then [] else rows_loop 0 [] b)"

section \<open>A list there and back\<close>

text \<open>What a builder hands over: distinct rows in order, none past the last row a list can name.\<close>

definition row_list :: "int list \<Rightarrow> bool" where
  "row_list l \<longleftrightarrow> sorted_wrt (<) l \<and> (\<forall>r \<in> set l. 0 \<le> r \<and> r \<le> int maxRow)"

fun list_bytes :: "int \<Rightarrow> int list \<Rightarrow> string" where
  "list_bytes prev [] = []"
| "list_bytes prev (r # l) = uvarint (nat ((r - prev) mod 2 ^ 64)) @ list_bytes r l"

lemma gap_fold: "fst (foldl gap_step (out, prev) l) = out @ list_bytes prev l"
  by (induction l arbitrary: out prev) (simp_all add: gap_step_def)

lemma row_list_Cons:
  "row_list (r # l) \<longleftrightarrow> 0 \<le> r \<and> r \<le> int maxRow \<and> row_list l \<and> (\<forall>s \<in> set l. r < s)"
  by (auto simp: row_list_def)

lemma list_bytes_nonempty [simp]: "list_bytes prev l = [] \<longleftrightarrow> l = []"
  by (cases l) simp_all

lemma gap_read:
  assumes "0 \<le> prev" "prev \<le> r" "r \<le> int maxRow"
  shows "Uvarint (uvarint (nat ((r - prev) mod 2 ^ 64)) @ b) =
      (nat (r - prev), int (length (uvarint (nat ((r - prev) mod 2 ^ 64)))))"
    and "(nat prev + nat (r - prev)) mod 2 ^ 64 = nat r" "\<not> maxRow < nat r"
proof -
  have small: "r - prev < 2 ^ 64" using assms by (simp add: maxRow_def)
  then have m: "(r - prev) mod 2 ^ 64 = r - prev" using assms(2) by simp
  have "nat (r - prev) < 2 ^ 64" using small assms(2) by (simp add: nat_less_iff)
  from Uvarint_uvarint [OF this] show "Uvarint (uvarint (nat ((r - prev) mod 2 ^ 64)) @ b) =
      (nat (r - prev), int (length (uvarint (nat ((r - prev) mod 2 ^ 64)))))"
    unfolding m .
  have sum: "nat prev + nat (r - prev) = nat r" using assms by simp
  have "nat r < 2 ^ 64" using assms by (simp add: maxRow_def)
  then show "(nat prev + nat (r - prev)) mod 2 ^ 64 = nat r" unfolding sum by simp
  show "\<not> maxRow < nat r" using assms(3) by linarith
qed

lemma visible_bytes:
  assumes "row_list l" "0 \<le> prev" "\<forall>r \<in> set l. prev \<le> r"
  shows "visible_loop m (nat prev) (list_bytes prev l) \<longleftrightarrow> (\<exists>r \<in> set l. Get_row m r)"
  using assms
proof (induction l arbitrary: prev)
  case (Cons r l)
  then have r: "prev \<le> r" "r \<le> int maxRow" "0 \<le> r" "row_list l" "\<forall>s \<in> set l. r \<le> s"
    by (auto simp: row_list_Cons intro: less_imp_le)
  note read = gap_read [OF Cons.prems(2) r(1,2)]
  have "visible_loop m (nat prev) (list_bytes prev (r # l)) \<longleftrightarrow>
      Get_row m (int (nat r)) \<or> visible_loop m (nat r) (list_bytes r l)"
    using read by (subst visible_loop.simps) simp
  then show ?case using Cons.IH [OF r(4,3,5)] r(3) by simp
qed (simp add: visible_loop.simps)

lemma rows_bytes:
  assumes "row_list l" "0 \<le> prev" "\<forall>r \<in> set l. prev \<le> r" "out \<noteq> [] \<longrightarrow> (\<forall>r \<in> set l. prev < r)"
  shows "rows_loop (nat prev) out (list_bytes prev l) = out @ l"
  using assms
proof (induction l arbitrary: prev out)
  case (Cons r l)
  then have r: "prev \<le> r" "r \<le> int maxRow" "0 \<le> r" "row_list l" "\<forall>s \<in> set l. r \<le> s" "\<forall>s \<in> set l. r < s"
    by (auto simp: row_list_Cons intro: less_imp_le)
  note read = gap_read [OF Cons.prems(2) r(1,2)]
  have go: "r \<le> prev \<Longrightarrow> out = []" using Cons.prems(4) by auto
  have "rows_loop (nat prev) out (list_bytes prev (r # l)) =
      rows_loop (nat r) (out @ [int (nat r)]) (list_bytes r l)"
    using read go by (subst rows_loop.simps) auto
  then show ?case using Cons.IH [OF r(4,3,5), of "out @ [r]"] r(3,6) by simp
qed (simp add: rows_loop.simps)

section \<open>A part there and back\<close>

text \<open>A table of four byte numbers, written in place.\<close>

abbreviation table :: "nat list \<Rightarrow> string" where
  "table vs \<equiv> concat (map (le_bytes 4) vs)"

lemma put_table:
  "i < length vs \<Longrightarrow> put_at (table vs @ rest) (4 * i) (le_bytes 4 v) = table (vs[i := v]) @ rest"
proof (induction vs arbitrary: i)
  case (Cons w vs)
  show ?case
  proof (cases i)
    case 0
    then show ?thesis by (simp add: put_at_def)
  next
    case (Suc j)
    have "put_at (table (w # vs) @ rest) (4 * i) (le_bytes 4 v) = le_bytes 4 w @ put_at (table vs @ rest) (4 * j) (le_bytes 4 v)"
      using put_at_append [of "le_bytes 4 w" "table vs @ rest" "4 * j"] Suc by simp
    then show ?thesis using Suc Cons by simp
  qed
qed simp

lemma table_zero: "replicate (4 * n) (of_byte 0) = table (replicate n 0)"
proof (induction n)
  case (Suc n)
  have z: "le_bytes 4 0 = replicate 4 (of_byte 0)" by (rule nth_equalityI) (simp_all add: le_bytes_def)
  have "replicate (4 * Suc n) (of_byte 0) = replicate 4 (of_byte 0) @ replicate (4 * n) (of_byte 0)"
    by (simp only: replicate_add [symmetric] mult_Suc_right)
  also have "\<dots> = le_bytes 4 0 @ table (replicate n 0)" unfolding Suc z ..
  finally show ?case by simp
qed simp

lemma read_table:
  assumes "i < length vs" "\<forall>v \<in> set vs. v < 2 ^ 32"
  shows "Uint32_at (table vs @ rest) (4 * i) = vs ! i"
proof (rule Uint_at_concat [OF assms(1)])
  show "\<forall>v \<in> set vs. v < 256 ^ 4" using assms(2) by simp
qed

definition list_texts :: "int list list \<Rightarrow> string list" where
  "list_texts ls = map (list_bytes 0) ls"

lemma length_list_texts [simp]: "length (list_texts ls) = length ls"
  by (simp add: list_texts_def)

lemma encode_fold:
  assumes "text_size (list_texts ls) < 2 ^ 32" "k \<le> length ls"
  shows "foldl (list_step (4 + (length ls + 1) * 4)) (table (length ls # replicate (length ls + 1) 0))
      (enumerate 0 (take k ls)) =
    table (length ls # map (\<lambda>j. if j \<le> k then text_size (take j (list_texts ls)) else 0) [0..<length ls + 1]) @
      concat (take k (list_texts ls))"
  using assms(2)
proof (induction k)
  case 0
  have "map (\<lambda>j. if j \<le> 0 then text_size (take j (list_texts ls)) else 0) [0..<length ls + 1] = replicate (length ls + 1) 0"
    by (rule nth_equalityI) (simp_all del: upt_Suc)
  then show ?case by (simp del: upt_Suc)
next
  case (Suc k)
  let ?ss = "list_texts ls" and ?h = "4 + (length ls + 1) * 4"
  let ?row = "\<lambda>k. map (\<lambda>j. if j \<le> k then text_size (take j (list_texts ls)) else 0) [0..<length ls + 1]"
  have k: "k < length ls" using Suc.prems by simp
  have texts: "take (Suc k) ?ss = take k ?ss @ [list_bytes 0 (ls ! k)]"
    using k by (simp add: take_Suc_conv_app_nth list_texts_def)
  have hd: "length (table (length ls # ?row k)) = ?h" unfolding length_concat_bytes by (simp del: upt_Suc)
  have sz: "length (concat (take k ?ss) @ list_bytes 0 (ls ! k)) = text_size (take (Suc k) ?ss)"
    unfolding texts by (simp add: text_size_def)
  have "take (Suc k) ls = take k ls @ [ls ! k]" using k by (simp add: take_Suc_conv_app_nth)
  then have "foldl (list_step ?h) (table (length ls # replicate (length ls + 1) 0)) (enumerate 0 (take (Suc k) ls)) =
      list_step ?h (table (length ls # ?row k) @ concat (take k ?ss)) (k, ls ! k)"
    using Suc.IH k by (simp add: enumerate_snoc min_def del: upt_Suc)
  also have "\<dots> = put_at (table (length ls # ?row k) @ concat (take k ?ss) @ list_bytes 0 (ls ! k)) (4 * (k + 2))
      (le_bytes 4 (text_size (take (Suc k) ?ss)))"
    unfolding list_step_def gap_fold Let_def prod.case using hd sz by (simp del: upt_Suc concat.simps) (simp add: ac_simps)
  also have "\<dots> = table ((length ls # ?row k)[k + 2 := text_size (take (Suc k) ?ss)]) @ concat (take k ?ss) @ list_bytes 0 (ls ! k)"
    by (rule put_table) (use k in \<open>simp del: upt_Suc\<close>)
  also have "(length ls # ?row k)[k + 2 := text_size (take (Suc k) ?ss)] = length ls # ?row (Suc k)"
  proof -
    have "(?row k)[Suc k := text_size (take (Suc k) ?ss)] = ?row (Suc k)"
      using k by (intro nth_equalityI) (auto simp: nth_list_update le_Suc_eq simp del: upt_Suc)
    then show ?thesis by simp
  qed
  finally show ?case unfolding texts by simp
qed

lemma encodePostings_eq:
  assumes "text_size (list_texts ls) < 2 ^ 32"
  shows "encodePostings ls = le_bytes 4 (length ls) @ dict_bytes (list_texts ls)"
proof -
  let ?h = "4 + (length ls + 1) * 4"
  have "replicate ?h (of_byte 0) = table (replicate (length ls + 2) 0) @ []"
    using table_zero [of "length ls + 2"] by (simp add: ac_simps)
  then have "put_at (replicate ?h (of_byte 0)) 0 (le_bytes 4 (length ls)) = table (length ls # replicate (length ls + 1) 0) @ []"
    using put_table [of 0 "replicate (length ls + 2) 0" "[]" "length ls"] by (simp del: append_Nil2)
  moreover have "put_at (table (length ls # replicate (length ls + 1) 0) @ []) 4 (le_bytes 4 0) =
      table (length ls # replicate (length ls + 1) 0)"
    using put_table [of 1 "length ls # replicate (length ls + 1) 0" "[]" 0] by simp
  ultimately have "encodePostings ls = foldl (list_step ?h) (table (length ls # replicate (length ls + 1) 0)) (enumerate 0 (take (length ls) ls))"
    by (simp add: encodePostings_def Let_def del: append_Nil2)
  also have "\<dots> = table (length ls # map (\<lambda>j. if j \<le> length ls then text_size (take j (list_texts ls)) else 0) [0..<length ls + 1]) @
      concat (take (length ls) (list_texts ls))"
    by (rule encode_fold [OF assms order_refl])
  also have "map (\<lambda>j. if j \<le> length ls then text_size (take j (list_texts ls)) else 0) [0..<length ls + 1] = offsets_of (list_texts ls)"
    unfolding offsets_of_def by (rule map_cong) (simp_all del: upt_Suc)
  finally show ?thesis by (simp add: dict_offsets [OF assms])
qed

lemma openPostings_encode:
  assumes "text_size (list_texts ls) < 2 ^ 32" "length ls < 2 ^ 32"
  shows "\<exists>p. openPostings (encodePostings ls) (length ls) = Inr p \<and> po_lists p = length ls \<and>
    (\<forall>i < length ls. list_at p (int i) = list_bytes 0 (ls ! i))"
proof -
  let ?ss = "list_texts ls" and ?n = "4 * (length ls + 1)"
  let ?b = "encodePostings ls" and ?offs = "take (4 * (length ls + 1)) (dict_bytes (list_texts ls))"
  have b: "?b = le_bytes 4 (length ls) @ dict_bytes ?ss" by (rule encodePostings_eq [OF assms(1)])
  have at: "Uint32_at ?offs (4 * i) = text_size (take i ?ss)" if "i \<le> length ls" for i
    using offset_at [of ?ss i "[]"] assms(1) that by simp
  have len: "length (table (offsets_of ?ss)) = ?n" by simp
  have data: "drop ?n (dict_bytes ?ss) = concat ?ss" "?n \<le> length (dict_bytes ?ss)"
    using len by (simp_all add: dict_offsets [OF assms(1)])
  have asc: "offsets_ascend ?offs 0 [0..<length ls + 1]"
  proof (rule offsets_ascend_sizes)
    show "\<forall>i < length ls. Uint32_at ?offs (4 * i) \<le> Uint32_at ?offs (4 * (i + 1))"
    proof (intro allI impI)
      fix i assume i: "i < length ls"
      then show "Uint32_at ?offs (4 * i) \<le> Uint32_at ?offs (4 * (i + 1))"
        using at [of i] at [of "i + 1"] text_size_take [of i "i + 1" ?ss] by simp
    qed
  qed simp
  define p where "p = \<lparr>po_offsets = ?offs, po_data = concat ?ss, po_lists = length ls\<rparr>"
  have count: "Uint32_at ?b 0 = length ls" unfolding b using assms(2) by (intro Uint_at_bytes) simp
  have stop: "4 + (length ls + 1) * 4 = 4 + ?n" "\<not> length ?b < 4" "\<not> length ?b < 4 + ?n" using b data by simp_all
  have cut: "take (4 + ?n - 4) (drop 4 ?b) = ?offs" "drop (4 + ?n) ?b = concat ?ss" using b data by simp_all
  have last: "Uint32_at ?offs (4 * length ls) = length (concat ?ss)"
    using at [of "length ls"] by (simp add: text_size_def)
  have "openPostings ?b (length ls) = Inr p"
    unfolding openPostings_def Let_def count stop(1) cut using stop asc last by (simp add: p_def del: upt_Suc)
  moreover have "list_at p (int i) = list_bytes 0 (ls ! i)" if i: "i < length ls" for i
  proof -
    have "list_at p (int i) = take (text_size (take (i + 1) ?ss) - text_size (take i ?ss)) (drop (text_size (take i ?ss)) (concat ?ss))"
      using i at [of i] at [of "i + 1"] by (simp add: list_at_def p_def Let_def)
    also have "\<dots> = ?ss ! i" by (rule text_slice) (use i in simp)
    finally show ?thesis using i by (simp add: list_texts_def)
  qed
  ultimately show ?thesis unfolding p_def by force
qed

lemma list_read:
  assumes "row_list l" "list_at p (int i) = list_bytes 0 l"
  shows "list_rows p (int i) = l \<and> list_visible p (int i) None = (l \<noteq> []) \<and>
    (\<forall>m. list_visible p (int i) (Some m) \<longleftrightarrow> (\<exists>r \<in> set l. Get_row m r))"
proof -
  have "\<forall>r \<in> set l. 0 \<le> r" using assms(1) by (simp add: row_list_def)
  then show ?thesis
    using visible_bytes [OF assms(1) order_refl] rows_bytes [OF assms(1) order_refl, of "[]"] assms(2)
    by (auto simp: list_rows_def list_visible_def Let_def)
qed

text \<open>
  Posting lists survive their encoding: what \<open>encodePostings\<close> writes opens, gives each list back
  row for row, and calls a list visible to a reader exactly when the reader may see one of its rows.
\<close>

theorem postings_there_and_back:
  assumes "\<forall>l \<in> set ls. row_list l" "text_size (list_texts ls) < 2 ^ 32" "length ls < 2 ^ 32"
  shows "\<exists>p. openPostings (encodePostings ls) (length ls) = Inr p \<and> po_lists p = length ls \<and>
    (\<forall>i < length ls. list_rows p (int i) = ls ! i \<and>
      list_visible p (int i) None = (ls ! i \<noteq> []) \<and>
      (\<forall>m. list_visible p (int i) (Some m) \<longleftrightarrow> (\<exists>r \<in> set (ls ! i). Get_row m r)))"
proof -
  obtain p where p: "openPostings (encodePostings ls) (length ls) = Inr p" "po_lists p = length ls"
    "\<forall>i < length ls. list_at p (int i) = list_bytes 0 (ls ! i)"
    using openPostings_encode [OF assms(2,3)] by blast
  have "list_rows p (int i) = ls ! i \<and> list_visible p (int i) None = (ls ! i \<noteq> []) \<and>
      (\<forall>m. list_visible p (int i) (Some m) \<longleftrightarrow> (\<exists>r \<in> set (ls ! i). Get_row m r))" if i: "i < length ls" for i
    by (rule list_read) (use assms(1) i p(3) in simp_all)
  then show ?thesis using p by blast
qed

lemma postings_there_and_back_witness:
  "\<exists>p. openPostings (encodePostings [[2, 5], [], [0]]) 3 = Inr p \<and> list_rows p 0 = [2, 5] \<and> list_rows p 1 = []"
proof -
  have "\<exists>p. openPostings (encodePostings [[2, 5], [], [0]]) (length [[2, 5], [], [0 :: int]]) = Inr p \<and>
      po_lists p = length [[2, 5], [], [0 :: int]] \<and>
      (\<forall>i < length [[2, 5], [], [0 :: int]]. list_rows p (int i) = [[2, 5], [], [0]] ! i \<and>
        list_visible p (int i) None = ([[2, 5], [], [0 :: int]] ! i \<noteq> []) \<and>
        (\<forall>m. list_visible p (int i) (Some m) \<longleftrightarrow> (\<exists>r \<in> set ([[2, 5], [], [0]] ! i). Get_row m r)))"
  proof (rule postings_there_and_back)
    have "uvarint 2 = [of_byte 2]" "uvarint 3 = [of_byte 3]" "uvarint 0 = [of_byte 0]" by (simp_all add: uvarint.simps)
    then show "text_size (list_texts [[2, 5], [], [0]]) < 2 ^ 32" by (simp add: list_texts_def)
  qed (simp_all add: row_list_def maxRow_def)
  then obtain p where p: "openPostings (encodePostings [[2, 5], [], [0]]) 3 = Inr p"
    "\<forall>i < 3. list_rows p (int i) = [[2, 5], [], [0]] ! i" by (auto simp: eval_nat_numeral)
  have "list_rows p 0 = [2, 5]" "list_rows p 1 = []" using p(2) [rule_format, of 0] p(2) [rule_format, of 1] by simp_all
  then show ?thesis using p(1) by blast
qed

section \<open>Whatever the bytes are\<close>

text \<open>A list that is called visible to a reader holds a row the reader may see, also in damaged bytes.\<close>

lemma visible_sound: "visible_loop m row b \<Longrightarrow> \<exists>r. Get_row m r"
proof (induction m row b rule: visible_loop.induct)
  case (1 m row b)
  obtain gap n where u: "Uvarint b = (gap, n)" by fastforce
  show ?case
  proof (cases "Get_row m (int ((row + gap) mod 2 ^ 64))")
    case False
    have eq: "visible_loop m row b \<longleftrightarrow> b \<noteq> [] \<and> \<not> n \<le> 0 \<and> \<not> maxRow < (row + gap) mod 2 ^ 64 \<and>
        visible_loop m ((row + gap) mod 2 ^ 64) (drop (nat n) b)"
      using False by (subst visible_loop.simps) (simp add: u Let_def)
    then show ?thesis using 1(1) [OF _ u [symmetric] refl _ refl] 1(2) False by blast
  qed blast
qed

end
