(* ===== verification/Graph.thy ===== *)
theory Graph
  imports Graph_Postings
begin

text \<open>
  \<open>store/graph/graph.go\<close>, \<open>build.go\<close> and \<open>read.go\<close>: the entities and relationships of a segment,
  collected, encoded and opened again. A document row, a handle and an edge index are Go \<open>int\<close>s
  where the caller gives them.
\<close>

section \<open>The format\<close>

definition GraphVersionByte :: nat where "GraphVersionByte = 1"
definition MaxEntities :: nat where "MaxEntities = 2 ^ 26"
definition MaxEdges :: nat where "MaxEdges = 2 ^ 28"
definition MaxDepth :: int where "MaxDepth = 6"

definition gHeaderSize :: nat where "gHeaderSize = 16"
definition gOffVersion :: nat where "gOffVersion = 0"
definition gOffFlags :: nat where "gOffFlags = 1"
definition gOffReserved :: nat where "gOffReserved = 2"
definition gOffEntities :: nat where "gOffEntities = 4"
definition gOffEdges :: nat where "gOffEdges = 8"
definition gOffRows :: nat where "gOffRows = 12"

lemmas graph_offsets = gHeaderSize_def gOffVersion_def gOffFlags_def gOffReserved_def gOffEntities_def gOffEdges_def gOffRows_def

definition partCount :: nat where "partCount = 7"
definition entrySize :: nat where "entrySize = 8"
definition dirSize :: nat where "dirSize = partCount * entrySize"

section \<open>Collecting\<close>

record entity =
  en_key :: string
  en_typ :: string
  en_mentions :: "int list"

record edge =
  ed_src :: nat
  ed_dst :: nat
  ed_kind :: string
  ed_evidence :: "int list"

record graph_builder =
  gb_rows :: int
  gb_keys :: "(string, nat) fmap"
  gb_entities :: "entity list"
  gb_edges :: "edge list"

definition NewGraphBuilder :: "int \<Rightarrow> graph_builder" where
  "NewGraphBuilder rows = \<lparr>gb_rows = rows, gb_keys = fmempty, gb_entities = [], gb_edges = []\<rparr>"

definition postings_of :: "graph_builder \<Rightarrow> int list \<Rightarrow> graph_error + int list" where
  "postings_of b rows =
     (let out = remdups_adj (sort rows)
      in if list_all (\<lambda>row. \<not> (row < 0 \<or> gb_rows b \<le> row)) out then Inr out else Inl ErrRow)"

definition Entity :: "string \<Rightarrow> string \<Rightarrow> int list \<Rightarrow> graph_builder \<Rightarrow> (graph_error + nat) \<times> graph_builder" where
  "Entity key typ mentions b =
     (if key = [] then (Inl ErrEntity, b)
      else case fmlookup (gb_keys b) key of
        Some at \<Rightarrow> (Inl ErrEntity, b)
      | None \<Rightarrow>
          (case postings_of b mentions of
             Inl e \<Rightarrow> (Inl e, b)
           | Inr rows \<Rightarrow>
               if length rows = 0 then (Inl ErrMention, b)
               else
                 let at = length (gb_entities b)
                 in if MaxEntities \<le> at then (Inl ErrEntity, b)
                    else (Inr at, b\<lparr>gb_keys := fmupd key at (gb_keys b),
                                    gb_entities := gb_entities b @ [\<lparr>en_key = key, en_typ = typ, en_mentions = rows\<rparr>]\<rparr>)))"

definition LookupEntity :: "graph_builder \<Rightarrow> string \<Rightarrow> nat option" where
  "LookupEntity b key = fmlookup (gb_keys b) key"

definition Edge :: "int \<Rightarrow> int \<Rightarrow> string \<Rightarrow> int list \<Rightarrow> graph_builder \<Rightarrow> graph_error option \<times> graph_builder" where
  "Edge src dst kind evidence b =
     (if src < 0 \<or> int (length (gb_entities b)) \<le> src then (Some ErrEntity, b)
      else if dst < 0 \<or> int (length (gb_entities b)) \<le> dst then (Some ErrEntity, b)
      else case postings_of b evidence of
        Inl e \<Rightarrow> (Some e, b)
      | Inr rows \<Rightarrow>
          if length rows = 0 then (Some ErrMention, b)
          else if MaxEdges \<le> length (gb_edges b) then (Some ErrEntity, b)
          else (None, b\<lparr>gb_edges := gb_edges b @
                  [\<lparr>ed_src = nat src, ed_dst = nat dst, ed_kind = kind, ed_evidence = rows\<rparr>]\<rparr>))"

section \<open>Building\<close>

definition key_less :: "graph_builder \<Rightarrow> nat \<Rightarrow> nat \<Rightarrow> bool" where
  "key_less b x y \<longleftrightarrow> en_key (gb_entities b ! x) < en_key (gb_entities b ! y)"

definition entity_order :: "graph_builder \<Rightarrow> nat list" where
  "entity_order b = sort_by (key_less b) [0..<length (gb_entities b)]"

definition row_table :: "graph_builder \<Rightarrow> nat list" where
  "row_table b =
     foldl (\<lambda>row (at, i). row[i := at]) (replicate (length (gb_entities b)) 0) (enumerate 0 (entity_order b))"

definition edge_less :: "edge \<Rightarrow> edge \<Rightarrow> bool" where
  "edge_less x y \<longleftrightarrow>
     (if ed_src x \<noteq> ed_src y then ed_src x < ed_src y
      else if ed_kind x \<noteq> ed_kind y then ed_kind x < ed_kind y
      else ed_dst x < ed_dst y)"

definition placed_edges :: "graph_builder \<Rightarrow> edge list" where
  "placed_edges b =
     sort_by edge_less
       (map (\<lambda>e. e\<lparr>ed_src := row_table b ! ed_src e, ed_dst := row_table b ! ed_dst e\<rparr>) (gb_edges b))"

text \<open>\<open>for ; at <= e.src; at++\<close>: the adjacency slots from \<open>at\<close> on, up to and with the source's.\<close>

definition fill_slots :: "nat \<Rightarrow> nat \<Rightarrow> nat \<Rightarrow> string \<Rightarrow> string" where
  "fill_slots at hi v adjacency = foldl (\<lambda>a k. put_at a (4 * k) (le_bytes 4 v)) adjacency [at..<hi]"

definition edge_step :: "string \<times> string \<times> nat \<Rightarrow> nat \<times> edge \<Rightarrow> string \<times> string \<times> nat" where
  "edge_step = (\<lambda>(targets, adjacency, at) (i, e).
     (put_at targets (i * 4) (le_bytes 4 (ed_dst e)), fill_slots at (ed_src e + 1) i adjacency,
      max at (ed_src e + 1)))"

definition edge_tables :: "nat \<Rightarrow> edge list \<Rightarrow> string \<times> string" where
  "edge_tables n edges =
     (let (targets, adjacency, at) =
        foldl edge_step (replicate (4 * length edges) (of_byte 0), replicate (4 * (n + 1)) (of_byte 0), 0) (enumerate 0 edges)
      in (targets, fill_slots at (n + 1) (length edges) adjacency))"

definition string_column :: "string list \<Rightarrow> builder" where
  "string_column ss = foldl (\<lambda>b s. AppendString s b) (NewBuilder TypeString) ss"

definition add_part :: "string \<Rightarrow> nat \<times> string \<Rightarrow> string" where
  "add_part out = (\<lambda>(i, p).
     let out = put_at out (gHeaderSize + i * entrySize) (le_bytes 4 (length out));
         out = put_at out (gHeaderSize + i * entrySize + 4) (le_bytes 4 (length p))
     in out @ p)"

definition section_bytes :: "nat \<Rightarrow> nat \<Rightarrow> int \<Rightarrow> string list \<Rightarrow> string" where
  "section_bytes entities edges rows parts =
     (let out = replicate (gHeaderSize + dirSize) (of_byte 0);
          out = put_at out gOffVersion [of_byte GraphVersionByte];
          out = put_at out gOffFlags [of_byte 0];
          out = put_at out gOffReserved (le_bytes 2 0);
          out = put_at out gOffEntities (le_bytes 4 entities);
          out = put_at out gOffEdges (le_bytes 4 edges);
          out = put_at out gOffRows (le_bytes 4 (nat (rows mod 2 ^ 32)))
      in foldl add_part out (enumerate 0 parts))"

definition GraphBuild :: "graph_builder \<Rightarrow> (graph_error + string) option" where
  "GraphBuild b =
     (let order = entity_order b; edges = placed_edges b; ents = map (\<lambda>i. gb_entities b ! i) order;
          (targets, adjacency) = edge_tables (length (gb_entities b)) edges
      in case Build (string_column (map en_key ents)) of
           None \<Rightarrow> None
         | Some (Inl e) \<Rightarrow> Some (Inl (OfColumn e))
         | Some (Inr keys) \<Rightarrow>
             (case Build (string_column (map en_typ ents)) of
                None \<Rightarrow> None
              | Some (Inl e) \<Rightarrow> Some (Inl (OfColumn e))
              | Some (Inr types) \<Rightarrow>
                  (case Build (string_column (map ed_kind edges)) of
                     None \<Rightarrow> None
                   | Some (Inl e) \<Rightarrow> Some (Inl (OfColumn e))
                   | Some (Inr kinds) \<Rightarrow>
                       Some (Inr (section_bytes (length (gb_entities b)) (length edges) (gb_rows b)
                         [keys, types, encodePostings (map en_mentions ents), adjacency, kinds, targets,
                          encodePostings (map ed_evidence edges)])))))"

section \<open>Opening\<close>

record graph =
  gg_size :: nat
  gg_rows :: nat
  gg_keys :: column
  gg_types :: column
  gg_kinds :: column
  gg_mentions :: postings
  gg_evidence :: postings
  gg_adjacency :: string
  gg_targets :: string
  gg_entities :: nat
  gg_edges :: nat

fun read_parts :: "string \<Rightarrow> nat list \<Rightarrow> nat \<Rightarrow> graph_error + string list \<times> nat" where
  "read_parts b [] stop = Inr ([], stop)"
| "read_parts b (i # is) stop =
     (let at = Uint32_at b (gHeaderSize + i * entrySize); length = Uint32_at b (gHeaderSize + i * entrySize + 4)
      in if at \<noteq> stop then Inl GraphFormat
         else if List.length b < at + length then Inl GraphFormat
         else case read_parts b is (at + length) of
                Inl e \<Rightarrow> Inl e
              | Inr (ps, stop) \<Rightarrow> Inr (take length (drop at b) # ps, stop))"

definition open_column :: "string \<Rightarrow> nat \<Rightarrow> graph_error + column" where
  "open_column b want =
     (case Open b of
        Inl e \<Rightarrow> Inl (OfColumn e)
      | Inr c \<Rightarrow> if co_rows c \<noteq> want then Inl GraphFormat else Inr c)"

definition open_parts :: "graph \<Rightarrow> string list \<Rightarrow> graph_error + graph" where
  "open_parts g parts =
     (case open_column (parts ! 0) (gg_entities g) of Inl e \<Rightarrow> Inl e | Inr keys \<Rightarrow>
      case open_column (parts ! 1) (gg_entities g) of Inl e \<Rightarrow> Inl e | Inr types \<Rightarrow>
      case open_column (parts ! 4) (gg_edges g) of Inl e \<Rightarrow> Inl e | Inr kinds \<Rightarrow>
      case openPostings (parts ! 2) (gg_entities g) of Inl e \<Rightarrow> Inl e | Inr mentions \<Rightarrow>
      case openPostings (parts ! 6) (gg_edges g) of Inl e \<Rightarrow> Inl e | Inr evidence \<Rightarrow>
        if length (parts ! 3) \<noteq> (gg_entities g + 1) * 4 then Inl GraphFormat
        else if length (parts ! 5) \<noteq> gg_edges g * 4 then Inl GraphFormat
        else if \<not> offsets_ascend (parts ! 3) 0 [0..<gg_entities g + 1] then Inl GraphFormat
        else if Uint32_at (parts ! 3) (4 * gg_entities g) \<noteq> gg_edges g then Inl GraphFormat
        else if \<not> list_all (\<lambda>i. Uint32_at (parts ! 5) (4 * i) < gg_entities g) [0..<gg_edges g] then Inl GraphFormat
        else Inr (g\<lparr>gg_keys := keys, gg_types := types, gg_kinds := kinds, gg_mentions := mentions,
                    gg_evidence := evidence, gg_adjacency := parts ! 3, gg_targets := parts ! 5\<rparr>))"

definition unread :: column where
  "unread = \<lparr>co_typ = 0, co_encoding = 0, co_bits = 0, co_mask = 0, co_rows = 0, co_entries = 0, co_base = 0, co_size = 0,
     co_present = None, co_codes = [], co_runs = [], co_ends = [], co_offsets = [], co_blob = []\<rparr>"

definition no_postings :: postings where
  "no_postings = \<lparr>po_offsets = [], po_data = [], po_lists = 0\<rparr>"

definition OpenGraph :: "string \<Rightarrow> graph_error + graph" where
  "OpenGraph b =
     (if length b < gHeaderSize + dirSize then Inl GraphFormat
      else if byte_at b gOffVersion \<noteq> GraphVersionByte then Inl GraphVersion
      else if byte_at b gOffFlags \<noteq> 0 then Inl GraphVersion
      else if Uint16_at b gOffReserved \<noteq> 0 then Inl GraphFormat
      else
        let entities = Uint32_at b gOffEntities; edges = Uint32_at b gOffEdges
        in if MaxEntities < entities then Inl GraphFormat
           else if MaxEdges < edges then Inl GraphFormat
           else
             (case read_parts b [0..<partCount] (gHeaderSize + dirSize) of
                Inl e \<Rightarrow> Inl e
              | Inr (parts, stop) \<Rightarrow>
                  if stop \<noteq> length b then Inl GraphFormat
                  else open_parts
                         \<lparr>gg_size = length b, gg_rows = Uint32_at b gOffRows, gg_keys = unread, gg_types = unread,
                          gg_kinds = unread, gg_mentions = no_postings, gg_evidence = no_postings,
                          gg_adjacency = [], gg_targets = [], gg_entities = entities, gg_edges = edges\<rparr> parts))"

section \<open>Asking\<close>

definition Key :: "graph \<Rightarrow> int \<Rightarrow> string \<times> bool" where "Key g entity = StringAt (gg_keys g) entity"
definition EntityType :: "graph \<Rightarrow> int \<Rightarrow> string \<times> bool" where "EntityType g entity = StringAt (gg_types g) entity"
definition EdgeKind :: "graph \<Rightarrow> int \<Rightarrow> string \<times> bool" where "EdgeKind g edge = StringAt (gg_kinds g) edge"
definition Kinds :: "graph \<Rightarrow> string list" where "Kinds g = Dict (gg_kinds g)"
definition Types :: "graph \<Rightarrow> string list" where "Types g = Dict (gg_types g)"

definition Find :: "graph \<Rightarrow> string \<Rightarrow> nat option" where
  "Find g key =
     (let at = Search (gg_entities g) (\<lambda>i. key \<le> fst (StringAt (gg_keys g) (int i)))
      in if at = gg_entities g then None
         else
           let (k, ok) = StringAt (gg_keys g) (int at)
           in if \<not> ok \<or> k \<noteq> key then None else Some at)"

definition Mentions :: "graph \<Rightarrow> int \<Rightarrow> int list" where "Mentions g entity = list_rows (gg_mentions g) entity"
definition Evidence :: "graph \<Rightarrow> int \<Rightarrow> int list" where "Evidence g edge = list_rows (gg_evidence g) edge"

definition VisibleEntity :: "graph \<Rightarrow> int \<Rightarrow> rowmap option \<Rightarrow> bool" where
  "VisibleEntity g entity allow = list_visible (gg_mentions g) entity allow"

definition EdgeVisible :: "graph \<Rightarrow> int \<Rightarrow> rowmap option \<Rightarrow> bool" where
  "EdgeVisible g edge allow = list_visible (gg_evidence g) edge allow"

definition Out :: "graph \<Rightarrow> int \<Rightarrow> nat \<times> nat" where
  "Out g entity =
     (if entity < 0 \<or> int (gg_entities g) \<le> entity then (0, 0)
      else (Uint32_at (gg_adjacency g) (4 * nat entity), Uint32_at (gg_adjacency g) (4 * (nat entity + 1))))"

definition Target :: "graph \<Rightarrow> nat \<Rightarrow> nat" where
  "Target g edge = Uint32_at (gg_targets g) (4 * edge)"

end
