(* ===== verification/Graph_Layout.thy ===== *)
theory Graph_Layout
  imports Graph
begin

text \<open>
  The bytes of a section: the header and the directory as a table of numbers with the parts behind it,
  the adjacency and the targets of the edges, and the three columns of strings.
\<close>

section \<open>The directory\<close>

lemma pairs_nth:
  "length (concat (map (\<lambda>i. [a i, b i]) [0..<n])) = 2 * n"
  "i < n \<Longrightarrow> concat (map (\<lambda>i. [a i, b i]) [0..<n]) ! (2 * i) = a i"
  "i < n \<Longrightarrow> concat (map (\<lambda>i. [a i, b i]) [0..<n]) ! (2 * i + 1) = b i"
proof -
  show len: "length (concat (map (\<lambda>i. [a i, b i]) [0..<n])) = 2 * n" for n by (induction n) simp_all
  show "i < n \<Longrightarrow> concat (map (\<lambda>i. [a i, b i]) [0..<n]) ! (2 * i) = a i"
    "i < n \<Longrightarrow> concat (map (\<lambda>i. [a i, b i]) [0..<n]) ! (2 * i + 1) = b i"
  proof (induction n)
    case (Suc n)
    have e: "concat (map (\<lambda>i. [a i, b i]) [0..<Suc n]) = concat (map (\<lambda>i. [a i, b i]) [0..<n]) @ [a n, b n]" by simp
    case 1
    then show ?case unfolding e using len [of n] Suc.IH(1) by (cases "i = n") (simp_all add: nth_append)
    case 2
    then show ?case unfolding e using len [of n] Suc.IH(2) by (cases "i = n") (simp_all add: nth_append)
  qed simp_all
qed

definition dir_entries :: "nat \<Rightarrow> string list \<Rightarrow> nat list" where
  "dir_entries k parts =
     concat (map (\<lambda>i. [if i < k then 72 + text_size (take i parts) else 0, if i < k then length (parts ! i) else 0]) [0..<7])"

lemma dir_entries_length [simp]: "length (dir_entries k parts) = 14"
  unfolding dir_entries_def pairs_nth(1) by simp

lemma dir_entries_nth:
  assumes "i < 7"
  shows "dir_entries k parts ! (2 * i) = (if i < k then 72 + text_size (take i parts) else 0)"
    "dir_entries k parts ! (2 * i + 1) = (if i < k then length (parts ! i) else 0)"
  unfolding dir_entries_def pairs_nth(2,3) [OF assms] by simp_all

lemma dir_entries_step:
  assumes "k < 7"
  shows "(dir_entries k parts)[2 * k := 72 + text_size (take k parts), 2 * k + 1 := length (parts ! k)] = dir_entries (Suc k) parts"
proof (rule nth_equalityI)
  fix j assume "j < length ((dir_entries k parts)[2 * k := 72 + text_size (take k parts), 2 * k + 1 := length (parts ! k)])"
  then have j: "j < 14" by simp
  obtain i r where i: "j = 2 * i + r" "r < 2" by (metis mod_less_divisor mult.commute div_mult_mod_eq zero_less_numeral)
  then have "i < 7" using j by simp
  note e = dir_entries_nth [OF this, where parts = parts]
  have "r = 0 \<or> r = 1" using i(2) by auto
  then show "(dir_entries k parts)[2 * k := 72 + text_size (take k parts), 2 * k + 1 := length (parts ! k)] ! j = dir_entries (Suc k) parts ! j"
  proof
    assume "r = 0"
    then have "j = 2 * i" "2 * i \<noteq> 2 * k + 1" using i by (simp, presburger)
    then show ?thesis using e(1) j assms by (auto simp: nth_list_update)
  next
    assume "r = 1"
    then have "j = 2 * i + 1" "2 * i + 1 \<noteq> 2 * k" using i by (simp, presburger)
    then show ?thesis using e(2) j assms by (auto simp: nth_list_update)
  qed
qed simp

text \<open>The header and the directory are eighteen numbers.\<close>

definition section_head :: "nat \<Rightarrow> nat \<Rightarrow> int \<Rightarrow> nat \<Rightarrow> string list \<Rightarrow> nat list" where
  "section_head entities edges rows k parts = [1, entities, edges, nat (rows mod 2 ^ 32)] @ dir_entries k parts"

lemma section_head_length [simp]: "length (section_head entities edges rows k parts) = 18"
  by (simp add: section_head_def)

lemma word_one: "le_bytes 4 1 = [of_byte 1, of_byte 0, of_byte 0, of_byte 0]"
  by (simp add: le_bytes_def upt_rec)

lemma head_start:
  "put_at (put_at (put_at (put_at (put_at (put_at (replicate (gHeaderSize + dirSize) (of_byte 0))
      gOffVersion [of_byte GraphVersionByte]) gOffFlags [of_byte 0]) gOffReserved (le_bytes 2 0))
      gOffEntities (le_bytes 4 n)) gOffEdges (le_bytes 4 m)) gOffRows (le_bytes 4 r) =
    table ([1, n, m, r] @ replicate 14 0)"
proof -
  have "replicate (gHeaderSize + dirSize) (of_byte 0) = table (replicate 18 0)"
    using table_zero [of 18] by (simp add: gHeaderSize_def dirSize_def partCount_def entrySize_def)
  also have "\<dots> = [of_byte 0, of_byte 0, of_byte 0, of_byte 0] @ table (replicate 17 0)"
  proof -
    have "le_bytes 4 0 = [of_byte 0, of_byte 0, of_byte 0, of_byte 0]" by (simp add: le_bytes_def upt_rec)
    moreover have "replicate 18 0 = 0 # replicate 17 (0 :: nat)" by (simp add: replicate_Suc [symmetric])
    ultimately show ?thesis by simp
  qed
  finally have z: "replicate (gHeaderSize + dirSize) (of_byte 0) = [of_byte 0, of_byte 0, of_byte 0, of_byte 0] @ table (replicate 17 0)" .
  have two: "le_bytes 2 0 = [of_byte 0, of_byte 0]" by (simp add: le_bytes_def upt_rec)
  have first: "put_at (put_at (put_at (replicate (gHeaderSize + dirSize) (of_byte 0))
      gOffVersion [of_byte GraphVersionByte]) gOffFlags [of_byte 0]) gOffReserved (le_bytes 2 0) = table (1 # replicate 17 0)"
    unfolding z two by (simp add: graph_offsets put_at_def word_one [simplified] GraphVersionByte_def)
  have "replicate 17 0 = [0, 0, 0] @ replicate 14 (0 :: nat)" by (simp add: replicate_Suc [symmetric])
  then have row: "table (1 # replicate 17 0) = table ([1, 0, 0, 0] @ replicate 14 0) @ []" by simp
  have "put_at (put_at (put_at (table ([1, 0, 0, 0] @ replicate 14 0) @ []) (4 * 1) (le_bytes 4 n)) (4 * 2) (le_bytes 4 m)) (4 * 3) (le_bytes 4 r) =
      table ([1, n, m, r] @ replicate 14 0) @ []"
    by (subst put_table, simp, subst put_table, simp, subst put_table, simp, simp)
  then show ?thesis unfolding first row by (simp add: graph_offsets)
qed

lemma parts_fold:
  assumes "length parts = 7" "k \<le> 7"
  shows "foldl add_part (table ([1, n, m, nat (rows mod 2 ^ 32)] @ replicate 14 0)) (enumerate 0 (take k parts)) =
    table (section_head n m rows k parts) @ concat (take k parts)"
  using assms(2)
proof (induction k)
  case 0
  have "dir_entries 0 parts = concat (map (\<lambda>i. replicate 2 0) [0..<7])" by (simp add: dir_entries_def eval_nat_numeral)
  also have "\<dots> = replicate 14 0" by (simp add: upt_rec replicate_add [symmetric])
  finally have "dir_entries 0 parts = replicate 14 0" .
  then show ?case by (simp add: section_head_def)
next
  case (Suc k)
  let ?h = "section_head n m rows k parts" and ?out = "table (section_head n m rows k parts) @ concat (take k parts)"
  have k: "k < 7" "k < length parts" using Suc.prems assms(1) by simp_all
  then have "take (Suc k) parts = take k parts @ [parts ! k]" by (simp add: take_Suc_conv_app_nth)
  then have step: "foldl add_part (table ([1, n, m, nat (rows mod 2 ^ 32)] @ replicate 14 0)) (enumerate 0 (take (Suc k) parts)) =
      add_part ?out (k, parts ! k)"
    using Suc.IH k by (simp add: enumerate_snoc min_def)
  have len: "length ?out = 72 + text_size (take k parts)" unfolding length_append length_concat_bytes by (simp add: text_size_def)
  have at: "gHeaderSize + k * entrySize = 4 * (4 + 2 * k)" "4 * (4 + 2 * k) + 4 = 4 * (4 + 2 * k + 1)"
    by (simp_all add: gHeaderSize_def entrySize_def)
  have "add_part ?out (k, parts ! k) =
      put_at (put_at ?out (4 * (4 + 2 * k)) (le_bytes 4 (length ?out))) (4 * (4 + 2 * k + 1)) (le_bytes 4 (length (parts ! k))) @ parts ! k"
    by (simp only: add_part_def Let_def prod.case at)
  also have "\<dots> = (table (?h[4 + 2 * k := length ?out, 4 + 2 * k + 1 := length (parts ! k)]) @ concat (take k parts)) @ parts ! k"
  proof -
    have i: "4 + 2 * k < length ?h" "4 + 2 * k + 1 < length (?h[4 + 2 * k := length ?out])" using k(1) by simp_all
    show ?thesis unfolding put_table [OF i(1)] put_table [OF i(2)] ..
  qed
  also have "?h[4 + 2 * k := length ?out, 4 + 2 * k + 1 := length (parts ! k)] = section_head n m rows (Suc k) parts"
    unfolding len unfolding section_head_def using dir_entries_step [OF k(1), of parts] by (simp add: list_update_append)
  finally show ?case unfolding step using k by (simp add: take_Suc_conv_app_nth)
qed

lemma section_bytes_eq:
  assumes "length parts = 7"
  shows "section_bytes n m rows parts = table (section_head n m rows 7 parts) @ concat parts"
  using parts_fold [OF assms order_refl, of n m rows] assms
  unfolding section_bytes_def Let_def head_start by simp

section \<open>Reading the parts\<close>

lemma section_word:
  assumes "length parts = 7" "n < 2 ^ 32" "m < 2 ^ 32" "72 + text_size parts < 2 ^ 32" "i < 18"
  shows "Uint32_at (section_bytes n m rows parts) (4 * i) = section_head n m rows 7 parts ! i"
proof -
  have dir: "v < 2 ^ 32" if v: "v \<in> set (dir_entries 7 parts)" for v
  proof -
    obtain j where j: "j < 14" "v = dir_entries 7 parts ! j" using v by (auto simp: in_set_conv_nth)
    obtain q r where q: "j = 2 * q + r" "r < 2" by (metis mod_less_divisor mult.commute div_mult_mod_eq zero_less_numeral)
    then have q7: "q < 7" using j(1) by simp
    note e = dir_entries_nth [OF q7, of 7 parts]
    have "parts = take q parts @ parts ! q # drop (Suc q) parts" using q7 assms(1) by (simp add: id_take_nth_drop)
    then have "text_size parts = text_size (take q parts) + (length (parts ! q) + text_size (drop (Suc q) parts))"
      by (metis text_size_simps(2,3))
    moreover have "v = 72 + text_size (take q parts) \<or> v = length (parts ! q)"
    proof -
      have "r = 0 \<or> r = 1" using q(2) by auto
      then show ?thesis using e q7 unfolding j(2) q(1) by auto
    qed
    ultimately show ?thesis using assms(4) by linarith
  qed
  have "nat (rows mod 2 ^ 32) < 2 ^ 32" by (simp add: nat_less_iff)
  then have "\<forall>v \<in> set (section_head n m rows 7 parts). v < 2 ^ 32" using assms(2,3) dir by (auto simp: section_head_def)
  then show ?thesis unfolding section_bytes_eq [OF assms(1)] by (intro read_table) (use assms(5) in simp_all)
qed

lemma read_parts_from:
  assumes "length parts = 7" "k \<le> 7"
    and "\<And>i. i < 7 \<Longrightarrow> Uint32_at b (gHeaderSize + i * entrySize) = 72 + text_size (take i parts)"
    and "\<And>i. i < 7 \<Longrightarrow> Uint32_at b (gHeaderSize + i * entrySize + 4) = length (parts ! i)"
    and "b = h @ concat parts" "length h = 72"
  shows "read_parts b [k..<7] (72 + text_size (take k parts)) = Inr (drop k parts, 72 + text_size parts)"
  using assms(2)
proof (induction "7 - k" arbitrary: k)
  case 0
  then show ?case using assms(1) by simp
next
  case (Suc d)
  then have k: "k < 7" "k < length parts" using assms(1) by simp_all
  have split: "parts = take k parts @ parts ! k # drop (Suc k) parts" using k by (simp add: id_take_nth_drop)
  have next_at: "72 + text_size (take k parts) + length (parts ! k) = 72 + text_size (take (Suc k) parts)"
    using k(2) by (simp add: take_Suc_conv_app_nth)
  have IH: "read_parts b [Suc k..<7] (72 + text_size (take (Suc k) parts)) = Inr (drop (Suc k) parts, 72 + text_size parts)"
    by (rule Suc.hyps(1)) (use Suc.hyps(2) in simp_all)
  have cut: "drop (72 + text_size (take k parts)) b = concat (drop k parts)"
  proof -
    have "concat parts = concat (take k parts) @ concat (drop k parts)" by (metis append_take_drop_id concat_append)
    then show ?thesis using assms(5,6) by (simp add: text_size_def)
  qed
  have drop_k: "drop k parts = parts ! k # drop (Suc k) parts" using k(2) by (simp add: Cons_nth_drop_Suc)
  have "text_size (take (Suc k) parts) \<le> text_size parts" by (rule text_size_take_le)
  then have fits: "\<not> length b < 72 + text_size (take k parts) + length (parts ! k)"
    unfolding next_at using assms(5,6) by (simp add: text_size_def)
  have "[k..<7] = k # [Suc k..<7]" using k(1) by (rule upt_conv_Cons)
  then show ?case
    using assms(3,4) [OF k(1)] fits IH cut drop_k unfolding next_at by (simp add: Let_def next_at)
qed

lemma OpenGraph_section:
  assumes "length parts = 7" "n \<le> MaxEntities" "m \<le> MaxEdges" "72 + text_size parts < 2 ^ 32" "0 \<le> rows" "rows < 2 ^ 32"
  defines "b \<equiv> section_bytes n m rows parts"
  shows "OpenGraph b = open_parts
    \<lparr>gg_size = length b, gg_rows = nat rows, gg_keys = unread, gg_types = unread, gg_kinds = unread, gg_mentions = no_postings,
     gg_evidence = no_postings, gg_adjacency = [], gg_targets = [], gg_entities = n, gg_edges = m\<rparr> parts"
proof -
  have small: "n < 2 ^ 32" "m < 2 ^ 32" using assms(2,3) by (simp_all add: MaxEntities_def MaxEdges_def)
  note word = section_word [OF assms(1) small assms(4), of _ rows, folded b_def]
  have b: "b = table (section_head n m rows 7 parts) @ concat parts" unfolding b_def by (rule section_bytes_eq [OF assms(1)])
  have hd: "length (table (section_head n m rows 7 parts)) = 72" by simp
  have len: "length b = 72 + text_size parts" unfolding b length_append hd by (simp add: text_size_def)
  have size: "gHeaderSize + dirSize = 72" by (simp add: gHeaderSize_def dirSize_def partCount_def entrySize_def)
  have "\<exists>rest. b = [of_byte 1, of_byte 0, of_byte 0, of_byte 0] @ rest"
    unfolding b section_head_def using word_one by simp
  then obtain rest where first: "b = [of_byte 1, of_byte 0, of_byte 0, of_byte 0] @ rest" ..
  have bytes: "byte_at b gOffVersion = GraphVersionByte" "byte_at b gOffFlags = 0" "Uint16_at b gOffReserved = 0"
    unfolding first by (simp_all add: byte_at_def graph_offsets GraphVersionByte_def Uint_at_def numeral_2_eq_2)
  have counts: "Uint32_at b gOffEntities = n" "Uint32_at b gOffEdges = m" "Uint32_at b gOffRows = nat rows"
    using word [of 1] word [of 2] word [of 3] assms(5,6) by (simp_all add: graph_offsets section_head_def)
  have entry: "Uint32_at b (gHeaderSize + i * entrySize) = 72 + text_size (take i parts)"
    "Uint32_at b (gHeaderSize + i * entrySize + 4) = length (parts ! i)" if "i < 7" for i
  proof -
    have at: "gHeaderSize + i * entrySize = 4 * (4 + 2 * i)" "4 * (4 + 2 * i) + 4 = 4 * (4 + (2 * i + 1))"
      by (simp_all add: gHeaderSize_def entrySize_def)
    have nth: "section_head n m rows 7 parts ! (4 + j) = dir_entries 7 parts ! j" for j by (simp add: section_head_def)
    have less: "4 + 2 * i < 18" "4 + (2 * i + 1) < 18" using that by simp_all
    show "Uint32_at b (gHeaderSize + i * entrySize) = 72 + text_size (take i parts)"
      unfolding at(1) word [OF less(1)] nth dir_entries_nth(1) [OF that] using that by simp
    show "Uint32_at b (gHeaderSize + i * entrySize + 4) = length (parts ! i)"
      unfolding at word [OF less(2)] nth dir_entries_nth(2) [OF that] using that by simp
  qed
  have parts: "read_parts b [0..<partCount] 72 = Inr (parts, length b)"
    using read_parts_from [OF assms(1) _ entry b hd, of 0] len by (simp add: partCount_def)
  show ?thesis
    unfolding OpenGraph_def size Let_def counts parts using bytes len assms(2,3) by simp
qed

section \<open>The adjacency and the targets\<close>

definition count_below :: "edge list \<Rightarrow> nat \<Rightarrow> nat" where
  "count_below edges k = length (filter (\<lambda>e. ed_src e < k) edges)"

lemma count_below_iff:
  "sorted (map ed_src edges) \<Longrightarrow> j < count_below edges k \<longleftrightarrow> j < length edges \<and> ed_src (edges ! j) < k"
proof (induction edges arbitrary: j)
  case (Cons e edges)
  show ?case
  proof (cases "ed_src e < k")
    case True
    then show ?thesis using Cons by (cases j) (simp_all add: count_below_def)
  next
    case False
    then have "filter (\<lambda>e. ed_src e < k) edges = []" using Cons.prems by (auto simp: filter_empty_conv)
    moreover have "\<not> ed_src ((e # edges) ! j) < k" if "j < length (e # edges)"
    proof (cases j)
      case (Suc i)
      then have "edges ! i \<in> set edges" using that by simp
      then have "ed_src e \<le> ed_src (edges ! i)" using Cons.prems by simp
      then show ?thesis using Suc False by simp
    qed (use False in simp)
    ultimately show ?thesis using False by (auto simp: count_below_def)
  qed
qed (simp add: count_below_def)

lemma fill_slots_table:
  assumes "hi \<le> length vs"
  shows "fill_slots at hi v (table vs) = table (map (\<lambda>k. if at \<le> k \<and> k < hi then v else vs ! k) [0..<length vs])"
proof -
  have "foldl (\<lambda>a k. put_at a (4 * k) (le_bytes 4 v)) (table vs) ks = table (foldl (\<lambda>vs k. vs[k := v]) vs ks)"
    if "\<forall>k \<in> set ks. k < length vs" for ks vs
    using that put_table [of _ _ "[]" v] by (induction ks arbitrary: vs) simp_all
  moreover have "foldl (\<lambda>vs k. vs[k := v]) vs ks = map (\<lambda>k. if k \<in> set ks then v else vs ! k) [0..<length vs]" for ks
  proof (induction ks rule: rev_induct)
    case Nil
    show ?case by (simp add: map_nth)
  next
    case (snoc k ks)
    show ?case unfolding foldl_append snoc foldl.simps
    proof (rule nth_equalityI)
      fix i assume "i < length ((map (\<lambda>k. if k \<in> set ks then v else vs ! k) [0..<length vs])[k := v])"
      then show "(map (\<lambda>k. if k \<in> set ks then v else vs ! k) [0..<length vs])[k := v] ! i =
          map (\<lambda>i. if i \<in> set (ks @ [k]) then v else vs ! i) [0..<length vs] ! i"
        by (cases "i = k") simp_all
    qed simp
  qed
  moreover have "\<forall>k \<in> set [at..<hi]. k < length vs" using assms by simp
  ultimately show ?thesis unfolding fill_slots_def by simp
qed

definition slots :: "edge list \<Rightarrow> nat \<Rightarrow> nat \<Rightarrow> nat list" where
  "slots edges n at = map (\<lambda>k. if k < at then count_below edges k else 0) [0..<n + 1]"

lemma slots_length [simp]: "length (slots edges n at) = n + 1"
  by (simp add: slots_def)

lemma slots_nth: "k \<le> n \<Longrightarrow> slots edges n at ! k = (if k < at then count_below edges k else 0)"
  unfolding slots_def by (subst nth_map) (auto simp del: upt_Suc)

lemma fill_slots_count:
  assumes "at \<le> hi" "hi \<le> n + 1" "\<And>k. at \<le> k \<Longrightarrow> k < hi \<Longrightarrow> count_below edges k = v"
  shows "fill_slots at hi v (table (slots edges n at)) = table (slots edges n hi)"
proof -
  have "map (\<lambda>k. if at \<le> k \<and> k < hi then v else slots edges n at ! k) [0..<n + 1] = slots edges n hi"
    using assms by (intro nth_equalityI) (auto simp: slots_nth simp del: upt_Suc)
  then show ?thesis using fill_slots_table [of hi "slots edges n at" at v] assms(2) by (simp del: upt_Suc)
qed

definition reached_slot :: "edge list \<Rightarrow> nat \<Rightarrow> nat" where
  "reached_slot edges i = (if i = 0 then 0 else ed_src (edges ! (i - 1)) + 1)"

lemma edge_fold:
  assumes "sorted (map ed_src edges)" "\<forall>e \<in> set edges. ed_src e < n" "i \<le> length edges"
  shows "foldl edge_step (table (replicate (length edges) 0), table (slots edges n 0), 0) (enumerate 0 (take i edges)) =
    (table (map ed_dst (take i edges) @ replicate (length edges - i) 0), table (slots edges n (reached_slot edges i)), reached_slot edges i)"
  using assms(3)
proof (induction i)
  case 0
  then show ?case by (simp add: reached_slot_def)
next
  case (Suc i)
  let ?e = "edges ! i"
  have i: "i < length edges" using Suc.prems by simp
  have src: "ed_src ?e < n" using assms(2) i by simp
  have le: "reached_slot edges i \<le> ed_src ?e + 1"
    using assms(1) i sorted_nth_mono [of "map ed_src edges" "i - 1" i] by (simp add: reached_slot_def)
  have cnt: "count_below edges k = i" if "reached_slot edges i \<le> k" "k < ed_src ?e + 1" for k
  proof -
    have "i - 1 < count_below edges k" if "0 < i"
      using \<open>reached_slot edges i \<le> k\<close> that i count_below_iff [OF assms(1), of "i - 1" k] by (simp add: reached_slot_def)
    moreover have "\<not> i < count_below edges k" using that(2) count_below_iff [OF assms(1), of i k] by simp
    ultimately show ?thesis by linarith
  qed
  have t: "take (Suc i) edges = take i edges @ [?e]" using i by (simp add: take_Suc_conv_app_nth)
  have slot: "reached_slot edges (Suc i) = ed_src ?e + 1" by (simp add: reached_slot_def)
  have fill: "fill_slots (reached_slot edges i) (ed_src ?e + 1) i (table (slots edges n (reached_slot edges i))) =
      table (slots edges n (ed_src ?e + 1))"
    by (rule fill_slots_count [OF le]) (use src cnt in auto)
  have "replicate (length edges - i) 0 = 0 # replicate (length edges - Suc i) (0 :: nat)"
    using i by (metis Suc_diff_Suc replicate_Suc)
  then have upd: "(map ed_dst (take i edges) @ replicate (length edges - i) 0)[i := ed_dst ?e] =
      map ed_dst (take (Suc i) edges) @ replicate (length edges - Suc i) 0"
    using i unfolding t by (simp add: list_update_append)
  have "i < length (map ed_dst (take i edges) @ replicate (length edges - i) 0)" using i by simp
  from put_table [OF this, of "[]" "ed_dst ?e"]
  have targets: "put_at (table (map ed_dst (take i edges) @ replicate (length edges - i) 0)) (i * 4) (le_bytes 4 (ed_dst ?e)) =
      table (map ed_dst (take (Suc i) edges) @ replicate (length edges - Suc i) 0)"
    unfolding upd by (simp only: append_Nil2 mult.commute)
  have "enumerate 0 (take (Suc i) edges) = enumerate 0 (take i edges) @ [(i, ?e)]"
    unfolding t enumerate_snoc using i by (simp add: min_def)
  then have "foldl edge_step (table (replicate (length edges) 0), table (slots edges n 0), 0) (enumerate 0 (take (Suc i) edges)) =
      edge_step (table (map ed_dst (take i edges) @ replicate (length edges - i) 0), table (slots edges n (reached_slot edges i)), reached_slot edges i) (i, ?e)"
    using Suc.IH i by simp
  also have "\<dots> = (table (map ed_dst (take (Suc i) edges) @ replicate (length edges - Suc i) 0),
      table (slots edges n (ed_src ?e + 1)), max (reached_slot edges i) (ed_src ?e + 1))"
    unfolding edge_step_def prod.case targets fill ..
  also have "max (reached_slot edges i) (ed_src ?e + 1) = ed_src ?e + 1" using le by simp
  finally show ?case unfolding slot .
qed

lemma edge_tables_eq:
  assumes "sorted (map ed_src edges)" "\<forall>e \<in> set edges. ed_src e < n"
  shows "edge_tables n edges = (table (map ed_dst edges), table (slots edges n (n + 1)))"
proof -
  have zero: "slots edges n 0 = replicate (n + 1) 0" by (rule nth_equalityI) (simp_all add: slots_nth del: replicate.simps)
  have start: "replicate (4 * (n + 1)) (of_byte 0) = table (slots edges n 0)"
    "replicate (4 * length edges) (of_byte 0) = table (replicate (length edges) 0)"
    unfolding zero by (rule table_zero)+
  let ?at = "reached_slot edges (length edges)"
  have at: "?at \<le> n + 1"
  proof (cases "edges = []")
    case False
    then have "edges ! (length edges - 1) \<in> set edges" by simp
    then show ?thesis using assms(2) by (auto simp: reached_slot_def less_Suc_eq_le intro: less_imp_le)
  qed (simp add: reached_slot_def)
  have rest: "count_below edges k = length edges" if "?at \<le> k" for k
  proof (cases "edges = []")
    case False
    then have "ed_src (edges ! (length edges - 1)) < k" using that by (simp add: reached_slot_def)
    then have "length edges - 1 < count_below edges k" using count_below_iff [OF assms(1), of "length edges - 1" k] False by simp
    moreover have "count_below edges k \<le> length edges" by (simp add: count_below_def)
    ultimately show ?thesis by linarith
  qed (simp add: count_below_def)
  have fill: "fill_slots ?at (n + 1) (length edges) (table (slots edges n ?at)) = table (slots edges n (n + 1))"
    by (rule fill_slots_count [OF at]) (use rest in auto)
  have "foldl edge_step (table (replicate (length edges) 0), table (slots edges n 0), 0) (enumerate 0 edges) =
      (table (map ed_dst edges), table (slots edges n ?at), ?at)"
    using edge_fold [OF assms order_refl] by simp
  then show ?thesis unfolding edge_tables_def start Let_def using fill by simp
qed

lemma slots_ascend:
  assumes "length edges < 2 ^ 32"
  shows "i \<le> n \<Longrightarrow> Uint32_at (table (slots edges n (n + 1))) (4 * i) = count_below edges i"
    and "offsets_ascend (table (slots edges n (n + 1))) 0 [0..<n + 1]"
proof -
  have le: "count_below edges k \<le> length edges" for k by (simp add: count_below_def)
  have less: "\<forall>v \<in> set (slots edges n (n + 1)). v < 2 ^ 32"
    using le assms by (auto simp: slots_def intro: le_less_trans)
  have at: "Uint32_at (table (slots edges n (n + 1))) (4 * i) = count_below edges i" if "i \<le> n" for i
    using read_table [OF _ less, of i "[]"] that by (simp add: slots_nth)
  then show "i \<le> n \<Longrightarrow> Uint32_at (table (slots edges n (n + 1))) (4 * i) = count_below edges i" .
  have mono: "count_below edges i \<le> count_below edges (i + 1)" for i
  proof -
    have "filter (\<lambda>e. ed_src e < i) edges = filter (\<lambda>e. ed_src e < i) (filter (\<lambda>e. ed_src e < i + 1) edges)"
      by (simp add: filter_filter) (metis less_SucI)
    then show ?thesis unfolding count_below_def by (metis length_filter_le)
  qed
  show "offsets_ascend (table (slots edges n (n + 1))) 0 [0..<n + 1]"
  proof (rule offsets_ascend_sizes)
    show "\<forall>i < n. Uint32_at (table (slots edges n (n + 1))) (4 * i) \<le> Uint32_at (table (slots edges n (n + 1))) (4 * (i + 1))"
    proof (intro allI impI)
      fix i assume "i < n"
      then show "Uint32_at (table (slots edges n (n + 1))) (4 * i) \<le> Uint32_at (table (slots edges n (n + 1))) (4 * (i + 1))"
        using at [of i] at [of "i + 1"] mono [of i] by simp
    qed
  qed simp
qed

end
