(* ===== verification/Graph_Traverse.thy ===== *)
theory Graph_Traverse
  imports Graph
begin

text \<open>
  \<open>store/graph/traverse.go\<close>: the walk from a set of entities over what a reader may see.
\<close>

record traversal =
  tr_From :: "string list"
  tr_Kinds :: "string list"
  tr_Depth :: int
  tr_Limit :: int

record hop =
  ho_From :: nat
  ho_Edge :: nat
  ho_To :: nat

record walked =
  wa_Entities :: "(nat \<times> nat) list"
  wa_Edges :: "hop list"
  wa_Truncated :: bool

section \<open>The kinds to follow\<close>

record kind_filter =
  kf_codes :: "64 word list"
  kf_all :: bool

definition wanted :: "kind_filter \<Rightarrow> graph \<Rightarrow> nat \<Rightarrow> bool" where
  "wanted f g e =
     (if kf_all f then True
      else let (x, ok) = CodeAt (gg_kinds g) (int e) in if \<not> ok then False else x \<in> set (kf_codes f))"

definition learn_code :: "graph \<Rightarrow> nat \<Rightarrow> nat \<Rightarrow> 64 word list \<Rightarrow> bool \<times> 64 word list" where
  "learn_code g n e codes =
     (let (x, ok) = CodeAt (gg_kinds g) (int e);
          codes = (if ok \<and> x \<notin> set codes then codes @ [x] else codes)
      in (length codes < n, codes))"

definition follow :: "graph \<Rightarrow> string list \<Rightarrow> graph_error + kind_filter" where
  "follow g kinds =
     (if kinds = [] then Inr \<lparr>kf_codes = [], kf_all = True\<rparr>
      else case MatchStrings (gg_kinds g) kinds of
        Inl e \<Rightarrow> Inl (OfColumn e)
      | Inr m \<Rightarrow> Inr \<lparr>kf_codes = Each_row (learn_code g (length kinds)) m [], kf_all = False\<rparr>)"

section \<open>The walk\<close>

text \<open>
  The variables of the loops: what was seen, the result, the next level, and whether the limit has
  returned from the function.
\<close>

record walk_state =
  ws_seen :: rowmap
  ws_out :: walked
  ws_next :: "nat list"
  ws_stop :: bool

definition seed_step :: "graph \<Rightarrow> rowmap option \<Rightarrow> rowmap \<times> nat list \<Rightarrow> string \<Rightarrow> rowmap \<times> nat list" where
  "seed_step g allow = (\<lambda>(seen, frontier) key.
     case Find g key of
       None \<Rightarrow> (seen, frontier)
     | Some at \<Rightarrow>
         if Get_row seen (int at) \<or> \<not> VisibleEntity g (int at) allow then (seen, frontier)
         else (Set_row (int at) seen, frontier @ [at]))"

definition stopped :: "walk_state \<Rightarrow> walk_state" where
  "stopped w = w\<lparr>ws_out := (ws_out w)\<lparr>wa_Truncated := True\<rparr>, ws_stop := True\<rparr>"

definition seed_out :: "nat \<Rightarrow> walk_state \<Rightarrow> nat \<Rightarrow> walk_state" where
  "seed_out limit w at =
     (if ws_stop w then w
      else if limit \<le> length (wa_Entities (ws_out w)) then stopped w
      else w\<lparr>ws_out := (ws_out w)\<lparr>wa_Entities := wa_Entities (ws_out w) @ [(at, 0)]\<rparr>\<rparr>)"

definition cross :: "graph \<Rightarrow> kind_filter \<Rightarrow> rowmap option \<Rightarrow> nat \<Rightarrow> nat \<Rightarrow> nat \<Rightarrow> walk_state \<Rightarrow> nat \<Rightarrow> walk_state" where
  "cross g kinds allow limit depth u w e =
     (if ws_stop w then w
      else if \<not> wanted kinds g e then w
      else
        let v = Target g e
        in if Get_row (ws_seen w) (int v) then w
           else if \<not> EdgeVisible g (int e) allow \<or> \<not> VisibleEntity g (int v) allow then w
           else if limit \<le> length (wa_Entities (ws_out w)) then stopped w
           else w\<lparr>ws_seen := Set_row (int v) (ws_seen w),
                  ws_out := (ws_out w)\<lparr>wa_Edges := wa_Edges (ws_out w) @ [\<lparr>ho_From = u, ho_Edge = e, ho_To = v\<rparr>],
                                       wa_Entities := wa_Entities (ws_out w) @ [(v, depth)]\<rparr>,
                  ws_next := ws_next w @ [v]\<rparr>)"

definition expand_entity :: "graph \<Rightarrow> kind_filter \<Rightarrow> rowmap option \<Rightarrow> nat \<Rightarrow> nat \<Rightarrow> walk_state \<Rightarrow> nat \<Rightarrow> walk_state" where
  "expand_entity g kinds allow limit depth w u =
     (let (lo, hi) = Out g (int u) in foldl (cross g kinds allow limit depth u) w [lo..<hi])"

text \<open>The levels still to be taken, the depth of the next one and the entities it starts from.\<close>

fun levels :: "graph \<Rightarrow> kind_filter \<Rightarrow> rowmap option \<Rightarrow> nat \<Rightarrow> nat \<Rightarrow> nat \<Rightarrow> nat list \<Rightarrow> walk_state \<Rightarrow> walk_state" where
  "levels g kinds allow limit 0 depth frontier w = w"
| "levels g kinds allow limit (Suc hops) depth frontier w =
     (if frontier = [] then w
      else
        let w = foldl (expand_entity g kinds allow limit depth) (w\<lparr>ws_next := []\<rparr>) frontier
        in if ws_stop w then w
           else levels g kinds allow limit hops (Suc depth) (sort (ws_next w)) w)"

definition Traverse :: "graph \<Rightarrow> traversal option \<Rightarrow> rowmap option \<Rightarrow> graph_error + walked" where
  "Traverse g t allow =
     (case t of
        None \<Rightarrow> Inl GraphFormat
      | Some t \<Rightarrow>
          if tr_Depth t < 0 \<or> MaxDepth < tr_Depth t then Inl ErrDepth
          else if tr_Limit t < 0 then Inl ErrLimit
          else
            (case follow g (tr_Kinds t) of
               Inl e \<Rightarrow> Inl e
             | Inr kinds \<Rightarrow>
                 let limit = nat (tr_Limit t);
                     limit = (if limit = 0 \<or> gg_entities g < limit then gg_entities g else limit);
                     out = \<lparr>wa_Entities = [], wa_Edges = [], wa_Truncated = False\<rparr>
                 in if limit = 0 then Inr out
                    else
                      let (seen, frontier) = foldl (seed_step g allow) (NewRows (int (gg_entities g)), []) (tr_From t);
                          frontier = sort frontier;
                          w = foldl (seed_out limit)
                                \<lparr>ws_seen = seen, ws_out = out, ws_next = [], ws_stop = False\<rparr> frontier
                      in if ws_stop w then Inr (ws_out w)
                         else Inr (ws_out (levels g kinds allow limit (nat (tr_Depth t)) 1 frontier w))))"

end
