(* ===== verification/Graph_Walk.thy ===== *)
theory Graph_Walk
  imports Graph_Traverse
begin

text \<open>
  What a traversal answers, over any section that opens: the entities within so many hops of the seeds,
  each edge and each entity of the way visible to the reader, and nothing else.
\<close>

section \<open>What Open has checked\<close>

definition graph_ok :: "graph \<Rightarrow> bool" where
  "graph_ok g \<longleftrightarrow>
     length (gg_adjacency g) = (gg_entities g + 1) * 4 \<and> length (gg_targets g) = gg_edges g * 4 \<and>
     (\<forall>i < gg_entities g. Uint32_at (gg_adjacency g) (4 * i) \<le> Uint32_at (gg_adjacency g) (4 * (i + 1))) \<and>
     Uint32_at (gg_adjacency g) (4 * gg_entities g) = gg_edges g \<and>
     (\<forall>e < gg_edges g. Target g e < gg_entities g) \<and>
     gg_entities g \<le> MaxEntities \<and> gg_edges g \<le> MaxEdges \<and>
     column_ok (gg_keys g) \<and> column_ok (gg_types g) \<and> column_ok (gg_kinds g) \<and>
     co_rows (gg_keys g) = gg_entities g \<and> co_rows (gg_types g) = gg_entities g \<and> co_rows (gg_kinds g) = gg_edges g"

lemma open_column_ok: "open_column b n = Inr c \<Longrightarrow> column_ok c \<and> co_rows c = n"
  using Open_ok [of b] by (auto simp: open_column_def split: sum.splits if_splits)

lemma OpenGraph_ok:
  assumes "OpenGraph b = Inr g"
  shows "graph_ok g"
proof -
  obtain g0 parts where o: "open_parts g0 parts = Inr g" "gg_entities g0 \<le> MaxEntities" "gg_edges g0 \<le> MaxEdges"
    using assms by (auto simp: OpenGraph_def Let_def split: if_splits sum.splits)
  obtain keys types kinds mentions evidence where c:
    "open_column (parts ! 0) (gg_entities g0) = Inr keys" "open_column (parts ! 1) (gg_entities g0) = Inr types"
    "open_column (parts ! 4) (gg_edges g0) = Inr kinds"
    "length (parts ! 3) = (gg_entities g0 + 1) * 4" "length (parts ! 5) = gg_edges g0 * 4"
    "offsets_ascend (parts ! 3) 0 [0..<gg_entities g0 + 1]" "Uint32_at (parts ! 3) (4 * gg_entities g0) = gg_edges g0"
    "list_all (\<lambda>i. Uint32_at (parts ! 5) (4 * i) < gg_entities g0) [0..<gg_edges g0]"
    "g = g0\<lparr>gg_keys := keys, gg_types := types, gg_kinds := kinds, gg_mentions := mentions,
       gg_evidence := evidence, gg_adjacency := parts ! 3, gg_targets := parts ! 5\<rparr>"
    using o(1) by (auto simp: open_parts_def simp del: upt_Suc split: sum.splits if_splits)
  have "Uint32_at (parts ! 3) (4 * i) \<le> Uint32_at (parts ! 3) (4 * (i + 1))" if "i < gg_entities g0" for i
    using offsets_ascend_step [OF c(6), of i] that by simp
  moreover have "\<forall>e < gg_edges g0. Uint32_at (parts ! 5) (4 * e) < gg_entities g0"
    using c(8) by (simp add: list_all_iff)
  ultimately show ?thesis
    using o(2,3) c(4,5,7) open_column_ok [OF c(1)] open_column_ok [OF c(2)] open_column_ok [OF c(3)]
    unfolding graph_ok_def by (simp add: c(9) Target_def)
qed

lemma Out_within:
  assumes "graph_ok g" "Out g (int u) = (lo, hi)" "e \<in> {lo..<hi}"
  shows "e < gg_edges g"
proof -
  have u: "u < gg_entities g" "hi = Uint32_at (gg_adjacency g) (4 * (u + 1))"
    using assms(2,3) by (auto simp: Out_def split: if_splits)
  have mono: "k \<le> gg_entities g \<Longrightarrow> Uint32_at (gg_adjacency g) (4 * k) \<le> gg_edges g" for k
  proof (induction "gg_entities g - k" arbitrary: k)
    case 0
    then show ?case using assms(1) by (simp add: graph_ok_def)
  next
    case (Suc n)
    then have "Uint32_at (gg_adjacency g) (4 * k) \<le> Uint32_at (gg_adjacency g) (4 * (k + 1))"
      using assms(1) by (simp add: graph_ok_def)
    also have "\<dots> \<le> gg_edges g" by (rule Suc.hyps(1)) (use Suc in simp_all)
    finally show ?case .
  qed
  then show ?thesis using mono [of "u + 1"] u assms(3) by auto
qed

lemma Find_within: "Find g key = Some at \<Longrightarrow> at < gg_entities g"
  using Search_le [of "gg_entities g" "\<lambda>i. key \<le> fst (StringAt (gg_keys g) (int i))"]
  by (auto simp: Find_def Let_def split: if_splits prod.splits)

section \<open>The subgraph of a reader\<close>

text \<open>An edge a traversal may cross: of a kind it follows, stated and leading to an entity the reader may know of.\<close>

definition crossable :: "graph \<Rightarrow> kind_filter \<Rightarrow> rowmap option \<Rightarrow> nat \<Rightarrow> bool" where
  "crossable g kinds allow e \<longleftrightarrow>
     wanted kinds g e \<and> EdgeVisible g (int e) allow \<and> VisibleEntity g (int (Target g e)) allow"

definition out_edges :: "graph \<Rightarrow> nat \<Rightarrow> nat set" where
  "out_edges g u = {fst (Out g (int u))..<snd (Out g (int u))}"

definition nexts :: "graph \<Rightarrow> kind_filter \<Rightarrow> rowmap option \<Rightarrow> nat \<Rightarrow> nat set" where
  "nexts g kinds allow u = Target g ` {e \<in> out_edges g u. crossable g kinds allow e}"

definition seeds :: "graph \<Rightarrow> rowmap option \<Rightarrow> string list \<Rightarrow> nat set" where
  "seeds g allow keys = {at. VisibleEntity g (int at) allow \<and> (\<exists>key \<in> set keys. Find g key = Some at)}"

text \<open>The entities within so many hops of the seeds.\<close>

primrec ball :: "graph \<Rightarrow> kind_filter \<Rightarrow> rowmap option \<Rightarrow> string list \<Rightarrow> nat \<Rightarrow> nat set" where
  "ball g kinds allow keys 0 = seeds g allow keys"
| "ball g kinds allow keys (Suc k) =
     ball g kinds allow keys k \<union> (\<Union>u \<in> ball g kinds allow keys k. nexts g kinds allow u)"

lemma ball_mono: "j \<le> k \<Longrightarrow> ball g kinds allow keys j \<subseteq> ball g kinds allow keys k"
  by (induction k) (auto simp: le_Suc_eq)

lemma out_edges_within: "graph_ok g \<Longrightarrow> e \<in> out_edges g u \<Longrightarrow> e < gg_edges g"
  using Out_within [of g u "fst (Out g (int u))" "snd (Out g (int u))" e] by (simp add: out_edges_def)

lemma nexts_within: "graph_ok g \<Longrightarrow> v \<in> nexts g kinds allow u \<Longrightarrow> v < gg_entities g"
proof -
  assume g: "graph_ok g" and "v \<in> nexts g kinds allow u"
  then obtain e where e: "e \<in> out_edges g u" "v = Target g e" by (auto simp: nexts_def)
  from out_edges_within [OF g e(1)] show ?thesis using g e(2) by (simp add: graph_ok_def)
qed

lemma ball_within: "graph_ok g \<Longrightarrow> v \<in> ball g kinds allow keys k \<Longrightarrow> v < gg_entities g"
proof (induction k arbitrary: v)
  case (Suc k)
  then show ?case using nexts_within by auto
qed (auto simp: seeds_def Find_within)

lemma ball_visible: "v \<in> ball g kinds allow keys k \<Longrightarrow> VisibleEntity g (int v) allow"
  by (induction k arbitrary: v) (auto simp: seeds_def nexts_def crossable_def)

section \<open>The seeds\<close>

lemma seed_fold:
  assumes "rows_ok seen" "rb_n seen = gg_entities g" "\<forall>i. row_in seen i \<longleftrightarrow> i \<in> set frontier" "distinct frontier"
    and "foldl (seed_step g allow) (seen, frontier) keys = (seen', frontier')"
  shows "rows_ok seen' \<and> rb_n seen' = gg_entities g \<and> (\<forall>i. row_in seen' i \<longleftrightarrow> i \<in> set frontier') \<and>
    distinct frontier' \<and> set frontier' = set frontier \<union> seeds g allow keys"
  using assms
proof (induction keys arbitrary: seen frontier)
  case (Cons key keys)
  obtain seen1 frontier1 where s: "seed_step g allow (seen, frontier) key = (seen1, frontier1)" by fastforce
  have f: "foldl (seed_step g allow) (seen1, frontier1) keys = (seen', frontier')" using Cons.prems(5) s by simp
  have one: "rows_ok seen1 \<and> rb_n seen1 = gg_entities g \<and> (\<forall>i. row_in seen1 i \<longleftrightarrow> i \<in> set frontier1) \<and> distinct frontier1 \<and>
      set frontier1 = set frontier \<union> {at. VisibleEntity g (int at) allow \<and> Find g key = Some at}"
  proof (cases "Find g key")
    case None
    then show ?thesis using s Cons.prems by (auto simp: seed_step_def)
  next
    case (Some at)
    then have at: "at < gg_entities g" by (rule Find_within)
    have seen: "Get_row seen (int at) \<longleftrightarrow> at \<in> set frontier" using Cons.prems(1,3) by simp
    show ?thesis
    proof (cases "at \<in> set frontier \<or> \<not> VisibleEntity g (int at) allow")
      case True
      then have "seen1 = seen" "frontier1 = frontier" using s Some seen by (auto simp: seed_step_def)
      then show ?thesis using True Some Cons.prems by auto
    next
      case False
      then have new: "seen1 = Set_row (int at) seen" "frontier1 = frontier @ [at]" using s Some seen by (auto simp: seed_step_def)
      have "row_in seen1 i \<longleftrightarrow> i \<in> set frontier1" for i
        using new Cons.prems(1-3) at by (auto simp: row_in_Set outside_def)
      moreover have "set frontier1 = set frontier \<union> {at. VisibleEntity g (int at) allow \<and> Find g key = Some at}"
        using new(2) Some False by auto
      ultimately show ?thesis using new Cons.prems(1,2,4) False Some by auto
    qed
  qed
  have "seeds g allow (key # keys) = {at. VisibleEntity g (int at) allow \<and> Find g key = Some at} \<union> seeds g allow keys"
    by (auto simp: seeds_def)
  then show ?case using Cons.IH [OF _ _ _ _ f] one by auto
qed (simp add: seeds_def)

section \<open>One level\<close>

text \<open>
  A level expands a frontier from what was found before it. The invariant ties the result to the
  entities that were to be found so far: none is missing unless the limit returned.
\<close>

definition found :: "walk_state \<Rightarrow> nat list" where
  "found w = map fst (wa_Entities (ws_out w))"

definition level_inv :: "graph \<Rightarrow> nat \<Rightarrow> nat \<Rightarrow> (nat \<times> nat) list \<Rightarrow> nat set \<Rightarrow> walk_state \<Rightarrow> bool" where
  "level_inv g limit depth ents R w \<longleftrightarrow>
     wa_Entities (ws_out w) = ents @ map (\<lambda>v. (v, depth)) (ws_next w) \<and>
     distinct (found w) \<and> set (ws_next w) \<subseteq> R \<and> length (wa_Entities (ws_out w)) \<le> limit \<and>
     (wa_Truncated (ws_out w) \<longleftrightarrow> ws_stop w) \<and>
     (if ws_stop w then length (wa_Entities (ws_out w)) = limit \<and> (\<exists>v \<in> R. v \<notin> set (found w))
      else rows_ok (ws_seen w) \<and> rb_n (ws_seen w) = gg_entities g \<and>
        (\<forall>i. row_in (ws_seen w) i \<longleftrightarrow> i \<in> set (found w)) \<and> R \<subseteq> set (found w))"

lemma level_inv_stop: "level_inv g limit depth ents R w \<Longrightarrow> ws_stop w \<Longrightarrow> R \<subseteq> S \<Longrightarrow> level_inv g limit depth ents S w"
  by (auto simp: level_inv_def)

lemma stopped_simps:
  "found (stopped w) = found w" "ws_stop (stopped w)" "wa_Truncated (ws_out (stopped w))" "ws_next (stopped w) = ws_next w"
  "wa_Entities (ws_out (stopped w)) = wa_Entities (ws_out w)" "wa_Edges (ws_out (stopped w)) = wa_Edges (ws_out w)"
  by (simp_all add: stopped_def found_def)

lemma cross_eq:
  "cross g kinds allow limit depth u w e =
     (if ws_stop w \<or> \<not> crossable g kinds allow e \<or> Get_row (ws_seen w) (int (Target g e)) then w
      else if limit \<le> length (wa_Entities (ws_out w)) then stopped w
      else w\<lparr>ws_seen := Set_row (int (Target g e)) (ws_seen w),
             ws_out := (ws_out w)\<lparr>wa_Edges := wa_Edges (ws_out w) @ [\<lparr>ho_From = u, ho_Edge = e, ho_To = Target g e\<rparr>],
                                  wa_Entities := wa_Entities (ws_out w) @ [(Target g e, depth)]\<rparr>,
             ws_next := ws_next w @ [Target g e]\<rparr>)"
  by (simp add: cross_def crossable_def Let_def)

lemma level_cross:
  assumes "level_inv g limit depth ents R w" "graph_ok g" "e < gg_edges g"
  shows "level_inv g limit depth ents (R \<union> (if crossable g kinds allow e then {Target g e} else {}))
    (cross g kinds allow limit depth u w e)"
proof -
  let ?v = "Target g e" and ?S = "R \<union> (if crossable g kinds allow e then {Target g e} else {})"
  have v: "?v < gg_entities g" using assms(2,3) by (simp add: graph_ok_def)
  consider (stop) "ws_stop w" | (blocked) "\<not> ws_stop w" "\<not> crossable g kinds allow e"
    | (old) "\<not> ws_stop w" "crossable g kinds allow e" "?v \<in> set (found w)"
    | (full) "\<not> ws_stop w" "crossable g kinds allow e" "?v \<notin> set (found w)" "limit \<le> length (wa_Entities (ws_out w))"
    | (new) "\<not> ws_stop w" "crossable g kinds allow e" "?v \<notin> set (found w)" "\<not> limit \<le> length (wa_Entities (ws_out w))"
    by blast
  then show ?thesis
  proof cases
    case stop
    then show ?thesis using level_inv_stop [OF assms(1) stop, of ?S] by (simp add: cross_eq)
  next
    case blocked
    then show ?thesis using assms(1) by (simp add: cross_eq)
  next
    case old
    then have "Get_row (ws_seen w) (int ?v)" "level_inv g limit depth ents ?S w"
      using assms(1) by (auto simp: level_inv_def)
    then show ?thesis by (simp add: cross_eq)
  next
    case full
    then have eq: "cross g kinds allow limit depth u w e = stopped w"
      using assms(1) by (auto simp: cross_eq level_inv_def)
    have "length (wa_Entities (ws_out w)) \<le> limit" using assms(1) unfolding level_inv_def by blast
    then have "length (wa_Entities (ws_out w)) = limit" using full(4) by linarith
    then show ?thesis
      using assms(1) full unfolding eq by (auto simp: level_inv_def stopped_simps)
  next
    case new
    then have eq: "cross g kinds allow limit depth u w e =
        w\<lparr>ws_seen := Set_row (int ?v) (ws_seen w),
          ws_out := (ws_out w)\<lparr>wa_Edges := wa_Edges (ws_out w) @ [\<lparr>ho_From = u, ho_Edge = e, ho_To = ?v\<rparr>],
                               wa_Entities := wa_Entities (ws_out w) @ [(?v, depth)]\<rparr>,
          ws_next := ws_next w @ [?v]\<rparr>"
      using assms(1) by (auto simp: cross_eq level_inv_def)
    let ?w = "cross g kinds allow limit depth u w e"
    have fields: "found ?w = found w @ [?v]" "ws_seen ?w = Set_row (int ?v) (ws_seen w)" "ws_next ?w = ws_next w @ [?v]"
      "wa_Entities (ws_out ?w) = wa_Entities (ws_out w) @ [(?v, depth)]" "wa_Truncated (ws_out ?w) = wa_Truncated (ws_out w)"
      "ws_stop ?w = ws_stop w"
      by (simp_all add: eq found_def)
    show ?thesis
      using assms(1) new v unfolding level_inv_def fields by (auto simp: row_in_Set outside_def)
  qed
qed

lemma level_edges:
  assumes "level_inv g limit depth ents R w" "graph_ok g" "set es \<subseteq> {..<gg_edges g}"
  shows "level_inv g limit depth ents (R \<union> Target g ` {e \<in> set es. crossable g kinds allow e})
    (foldl (cross g kinds allow limit depth u) w es)"
  using assms(1,3)
proof (induction es arbitrary: R w)
  case (Cons e es)
  have "level_inv g limit depth ents (R \<union> (if crossable g kinds allow e then {Target g e} else {}))
      (cross g kinds allow limit depth u w e)"
    using level_cross [OF Cons.prems(1) assms(2)] Cons.prems(2) by simp
  from Cons.IH [OF this] Cons.prems(2)
  have "level_inv g limit depth ents (R \<union> (if crossable g kinds allow e then {Target g e} else {}) \<union>
      Target g ` {e \<in> set es. crossable g kinds allow e}) (foldl (cross g kinds allow limit depth u) w (e # es))" by simp
  moreover have "R \<union> (if crossable g kinds allow e then {Target g e} else {}) \<union> Target g ` {e \<in> set es. crossable g kinds allow e} =
      R \<union> Target g ` {x \<in> set (e # es). crossable g kinds allow x}" by auto
  ultimately show ?case by (simp only:)
qed simp

lemma level_frontier:
  assumes "level_inv g limit depth ents R w" "graph_ok g"
  shows "level_inv g limit depth ents (R \<union> (\<Union>u \<in> set us. nexts g kinds allow u))
    (foldl (expand_entity g kinds allow limit depth) w us)"
  using assms(1)
proof (induction us arbitrary: R w)
  case (Cons u us)
  obtain lo hi where o: "Out g (int u) = (lo, hi)" by fastforce
  then have es: "set [lo..<hi] = out_edges g u" by (simp add: out_edges_def)
  moreover have "set [lo..<hi] \<subseteq> {..<gg_edges g}" unfolding es using out_edges_within [OF assms(2)] by auto
  note level_edges [OF Cons.prems assms(2) this, of kinds allow u, unfolded es, folded nexts_def]
  then have "level_inv g limit depth ents (R \<union> nexts g kinds allow u) (expand_entity g kinds allow limit depth w u)"
    by (simp add: expand_entity_def o)
  from Cons.IH [OF this] show ?case by (simp add: Un_assoc)
qed simp

section \<open>The levels\<close>

text \<open>The entities first met after so many hops, and what the result has to say of each.\<close>

definition sphere :: "graph \<Rightarrow> kind_filter \<Rightarrow> rowmap option \<Rightarrow> string list \<Rightarrow> nat \<Rightarrow> nat set" where
  "sphere g kinds allow keys k =
     ball g kinds allow keys k - (if k = 0 then {} else ball g kinds allow keys (k - 1))"

definition right_depths :: "graph \<Rightarrow> kind_filter \<Rightarrow> rowmap option \<Rightarrow> string list \<Rightarrow> (nat \<times> nat) list \<Rightarrow> bool" where
  "right_depths g kinds allow keys ents \<longleftrightarrow> (\<forall>(v, k) \<in> set ents. v \<in> sphere g kinds allow keys k) \<and> sorted (map snd ents)"

lemma ball_step:
  "ball g kinds allow keys (Suc k) = ball g kinds allow keys k \<union> (\<Union>u \<in> sphere g kinds allow keys k. nexts g kinds allow u)"
proof (cases k)
  case (Suc j)
  have "(\<Union>u \<in> ball g kinds allow keys j. nexts g kinds allow u) \<subseteq> ball g kinds allow keys k" using Suc by auto
  moreover have "ball g kinds allow keys k = ball g kinds allow keys j \<union> sphere g kinds allow keys k"
    using Suc ball_mono [of j k g kinds allow keys] by (auto simp: sphere_def)
  ultimately show ?thesis by auto
qed (simp add: sphere_def)

text \<open>What a walk that took its levels up to a depth has found.\<close>

definition walk_ok :: "graph \<Rightarrow> kind_filter \<Rightarrow> rowmap option \<Rightarrow> string list \<Rightarrow> nat \<Rightarrow> nat \<Rightarrow> walked \<Rightarrow> bool" where
  "walk_ok g kinds allow keys limit k r \<longleftrightarrow>
     distinct (map fst (wa_Entities r)) \<and> right_depths g kinds allow keys (wa_Entities r) \<and>
     fst ` set (wa_Entities r) \<subseteq> ball g kinds allow keys k \<and> length (wa_Entities r) \<le> limit \<and>
     (if wa_Truncated r
      then length (wa_Entities r) = limit \<and> (\<exists>v \<in> ball g kinds allow keys k. v \<notin> fst ` set (wa_Entities r))
      else fst ` set (wa_Entities r) = ball g kinds allow keys k)"

lemma walk_ok_found:
  "walk_ok g kinds allow keys limit k (ws_out w) \<longleftrightarrow>
     distinct (found w) \<and> right_depths g kinds allow keys (wa_Entities (ws_out w)) \<and>
     set (found w) \<subseteq> ball g kinds allow keys k \<and> length (wa_Entities (ws_out w)) \<le> limit \<and>
     (if wa_Truncated (ws_out w)
      then length (wa_Entities (ws_out w)) = limit \<and> (\<exists>v \<in> ball g kinds allow keys k. v \<notin> set (found w))
      else set (found w) = ball g kinds allow keys k)"
  by (simp add: walk_ok_def found_def)

lemma right_depths_append:
  assumes "right_depths g kinds allow keys ents" "set vs \<subseteq> sphere g kinds allow keys k" "\<forall>(v, j) \<in> set ents. j \<le> k"
  shows "right_depths g kinds allow keys (ents @ map (\<lambda>v. (v, k)) vs)"
proof -
  have "sorted (map (\<lambda>v. k) vs)" by (induction vs) auto
  then show ?thesis using assms by (auto simp: right_depths_def sorted_append comp_def)
qed

lemma walk_ok_mono:
  assumes "walk_ok g kinds allow keys limit k r" "k \<le> n" "wa_Truncated r"
  shows "walk_ok g kinds allow keys limit n r"
  using assms ball_mono [OF assms(2), of g kinds allow keys] unfolding walk_ok_def by auto

text \<open>A walk between two levels.\<close>

definition at_level :: "graph \<Rightarrow> kind_filter \<Rightarrow> rowmap option \<Rightarrow> string list \<Rightarrow> nat \<Rightarrow> nat \<Rightarrow> nat list \<Rightarrow> walk_state \<Rightarrow> bool" where
  "at_level g kinds allow keys limit k frontier w \<longleftrightarrow>
     walk_ok g kinds allow keys limit k (ws_out w) \<and> \<not> wa_Truncated (ws_out w) \<and> \<not> ws_stop w \<and>
     (\<forall>(v, j) \<in> set (wa_Entities (ws_out w)). j \<le> k) \<and>
     rows_ok (ws_seen w) \<and> rb_n (ws_seen w) = gg_entities g \<and>
     (\<forall>i. row_in (ws_seen w) i \<longleftrightarrow> i \<in> set (found w)) \<and> set frontier = sphere g kinds allow keys k"

lemma take_level:
  assumes "at_level g kinds allow keys limit k frontier w" "graph_ok g"
  defines "w' \<equiv> foldl (expand_entity g kinds allow limit (Suc k)) (w\<lparr>ws_next := []\<rparr>) frontier"
  shows "if ws_stop w' then wa_Truncated (ws_out w') \<and> walk_ok g kinds allow keys limit (Suc k) (ws_out w')
    else at_level g kinds allow keys limit (Suc k) (sort (ws_next w')) w'"
proof -
  let ?B = "ball g kinds allow keys k" and ?ents = "wa_Entities (ws_out w)"
  let ?R = "?B \<union> (\<Union>u \<in> set frontier. nexts g kinds allow u)"
  have w: "walk_ok g kinds allow keys limit k (ws_out w)" "\<not> wa_Truncated (ws_out w)" "\<not> ws_stop w"
    "\<forall>(v, j) \<in> set ?ents. j \<le> k" "rows_ok (ws_seen w)" "rb_n (ws_seen w) = gg_entities g"
    "\<And>i. row_in (ws_seen w) i \<longleftrightarrow> i \<in> set (found w)" "set frontier = sphere g kinds allow keys k"
    using assms(1) by (simp_all add: at_level_def)
  have found: "set (found w) = ?B" "distinct (found w)" "right_depths g kinds allow keys ?ents" "length ?ents \<le> limit"
    using w(1,2) by (simp_all add: walk_ok_def found_def)
  have R: "?R = ball g kinds allow keys (Suc k)" unfolding w(8) by (rule ball_step [symmetric])
  have "found (w\<lparr>ws_next := []\<rparr>) = found w" by (simp add: found_def)
  then have "level_inv g limit (Suc k) ?ents ?B (w\<lparr>ws_next := []\<rparr>)"
    unfolding level_inv_def using w(2,3,5-7) found by simp
  from level_frontier [OF this assms(2), of kinds allow frontier]
  have inv: "level_inv g limit (Suc k) ?ents (ball g kinds allow keys (Suc k)) w'" unfolding w'_def R .
  have ents: "wa_Entities (ws_out w') = ?ents @ map (\<lambda>v. (v, Suc k)) (ws_next w')" "distinct (found w')"
    "set (ws_next w') \<subseteq> ball g kinds allow keys (Suc k)" "length (wa_Entities (ws_out w')) \<le> limit"
    "wa_Truncated (ws_out w') \<longleftrightarrow> ws_stop w'"
    using inv unfolding level_inv_def by blast+
  have split: "found w' = found w @ ws_next w'" by (simp add: found_def ents(1) comp_def)
  have fresh: "set (ws_next w') \<subseteq> sphere g kinds allow keys (Suc k)"
    using ents(2,3) found(1) unfolding split by (auto simp: sphere_def)
  have depths: "right_depths g kinds allow keys (wa_Entities (ws_out w'))"
    unfolding ents(1) by (rule right_depths_append [OF found(3) fresh]) (use w(4) in auto)
  have sub: "set (found w') \<subseteq> ball g kinds allow keys (Suc k)" using split found(1) ents(3) by auto
  show ?thesis
  proof (cases "ws_stop w'")
    case True
    then have "length (wa_Entities (ws_out w')) = limit \<and> (\<exists>v \<in> ball g kinds allow keys (Suc k). v \<notin> set (found w'))"
      using inv [unfolded level_inv_def if_P [OF True]] by blast
    then show ?thesis
      using True ents(2,4,5) depths sub unfolding walk_ok_found by metis
  next
    case False
    then have seen: "rows_ok (ws_seen w')" "rb_n (ws_seen w') = gg_entities g"
      "\<forall>i. row_in (ws_seen w') i \<longleftrightarrow> i \<in> set (found w')" "ball g kinds allow keys (Suc k) \<subseteq> set (found w')"
      using inv [unfolded level_inv_def if_not_P [OF False]] by blast+
    have all: "set (found w') = ball g kinds allow keys (Suc k)" using seen(4) sub by blast
    have "walk_ok g kinds allow keys limit (Suc k) (ws_out w')"
      using False ents(2,4,5) depths all unfolding walk_ok_found by (metis order_refl)
    moreover have "set (ws_next w') = sphere g kinds allow keys (Suc k)"
      using all split found(1) ents(2) by (auto simp: sphere_def simp del: ball.simps)
    moreover have "\<forall>(v, j) \<in> set (wa_Entities (ws_out w')). j \<le> Suc k" using w(4) ents(1) by auto
    ultimately show ?thesis
      using False seen(1-3) ents(5) unfolding at_level_def by (simp del: ball.simps)
  qed
qed

lemma walk_ok_empty:
  assumes "walk_ok g kinds allow keys limit k r" "sphere g kinds allow keys k = {}" "\<not> wa_Truncated r" "k \<le> n"
  shows "walk_ok g kinds allow keys limit n r"
proof -
  have "ball g kinds allow keys (k + j) = ball g kinds allow keys k" for j
  proof (induction j)
    case (Suc j)
    have "sphere g kinds allow keys (k + j) = {}" using Suc assms(2) ball_mono [of k "k + j - 1" g kinds allow keys]
      by (cases j) (auto simp: sphere_def simp del: ball.simps)
    then show ?case using Suc ball_step [of g kinds allow keys "k + j"] by simp
  qed simp
  from this [of "n - k"] show ?thesis using assms by (simp add: walk_ok_def)
qed

lemma take_levels:
  assumes "at_level g kinds allow keys limit k frontier w" "graph_ok g"
  shows "walk_ok g kinds allow keys limit (k + hops) (ws_out (levels g kinds allow limit hops (Suc k) frontier w))"
  using assms(1)
proof (induction hops arbitrary: k frontier w)
  case 0
  then show ?case by (simp add: at_level_def)
next
  case (Suc hops)
  let ?w = "foldl (expand_entity g kinds allow limit (Suc k)) (w\<lparr>ws_next := []\<rparr>) frontier"
  show ?case
  proof (cases "frontier = []")
    case True
    then have "walk_ok g kinds allow keys limit k (ws_out w)" "sphere g kinds allow keys k = {}" "\<not> wa_Truncated (ws_out w)"
      using Suc.prems by (simp_all add: at_level_def)
    from walk_ok_empty [OF this, of "k + Suc hops"] show ?thesis using True by simp
  next
    case False
    show ?thesis
    proof (cases "ws_stop ?w")
      case True
      then have "walk_ok g kinds allow keys limit (Suc k) (ws_out ?w)" "wa_Truncated (ws_out ?w)"
        using take_level [OF Suc.prems assms(2)] by (simp_all only: if_True)
      from walk_ok_mono [OF this(1) _ this(2), of "k + Suc hops"] show ?thesis using True False by (simp add: Let_def)
    next
      case go: False
      then have "at_level g kinds allow keys limit (Suc k) (sort (ws_next ?w)) ?w"
        using take_level [OF Suc.prems assms(2)] by (simp only: if_False)
      from Suc.IH [OF this] show ?thesis using go False by (simp add: Let_def)
    qed
  qed
qed

section \<open>The traversal\<close>

lemma seed_out_fold:
  assumes "\<not> ws_stop w" "\<not> wa_Truncated (ws_out w)" "wa_Entities (ws_out w) = map (\<lambda>v. (v, 0)) pre" "length pre \<le> limit"
  shows "wa_Entities (ws_out (foldl (seed_out limit) w us)) = map (\<lambda>v. (v, 0)) (take limit (pre @ us)) \<and>
    ws_seen (foldl (seed_out limit) w us) = ws_seen w \<and>
    (wa_Truncated (ws_out (foldl (seed_out limit) w us)) \<longleftrightarrow> ws_stop (foldl (seed_out limit) w us)) \<and>
    (ws_stop (foldl (seed_out limit) w us) \<longleftrightarrow> limit < length (pre @ us))"
  using assms
proof (induction us arbitrary: w pre)
  case (Cons u us)
  show ?case
  proof (cases "limit \<le> length pre")
    case True
    then have len: "length pre = limit" using Cons.prems(4) by simp
    have still: "ws_stop v \<Longrightarrow> foldl (seed_out limit) v xs = v" for v xs
      by (induction xs) (simp_all add: seed_out_def)
    have "seed_out limit w u = stopped w" using Cons.prems(1,3) True by (simp add: seed_out_def)
    moreover have "foldl (seed_out limit) (stopped w) us = stopped w" by (rule still) (simp add: stopped_def)
    ultimately show ?thesis using Cons.prems(3) len by (simp add: stopped_def)
  next
    case False
    let ?v = "w\<lparr>ws_out := (ws_out w)\<lparr>wa_Entities := wa_Entities (ws_out w) @ [(u, 0)]\<rparr>\<rparr>"
    have "seed_out limit w u = ?v" using Cons.prems(1,3) False by (simp add: seed_out_def)
    then show ?thesis using Cons.IH [of ?v "pre @ [u]"] Cons.prems False by simp
  qed
qed simp

definition walk_limit :: "graph \<Rightarrow> traversal \<Rightarrow> nat" where
  "walk_limit g t = (if nat (tr_Limit t) = 0 \<or> gg_entities g < nat (tr_Limit t) then gg_entities g else nat (tr_Limit t))"

lemma walk_ok_seeds:
  assumes "set us = seeds g allow keys" "distinct us"
    and "wa_Entities r = map (\<lambda>v. (v, 0)) (take limit us)" "wa_Truncated r \<longleftrightarrow> limit < length us"
  shows "walk_ok g kinds allow keys limit 0 r"
proof -
  have r: "map fst (wa_Entities r) = take limit us" "fst ` set (wa_Entities r) = set (take limit us)"
    using assms(3) by (simp_all add: comp_def image_image)
  have "sorted (map (\<lambda>v. 0 :: nat) xs)" for xs :: "nat list" by (induction xs) simp_all
  then have "sorted (map snd (wa_Entities r))" unfolding assms(3) by (simp add: comp_def)
  moreover have "\<forall>(v, k) \<in> set (wa_Entities r). v \<in> sphere g kinds allow keys k"
    using assms(1,3) by (auto simp: sphere_def dest: in_set_takeD)
  moreover have "\<exists>v \<in> set us. v \<notin> set (take limit us)" if "limit < length us"
    using that assms(2) by (metis distinct_append append_take_drop_id disjoint_iff drop_eq_Nil2 in_set_dropD list.set_sel(1) not_le)
  ultimately show ?thesis
    using assms r by (auto simp: walk_ok_def right_depths_def dest: in_set_takeD)
qed

lemma walk_ok_none: "graph_ok g \<Longrightarrow> gg_entities g = 0 \<Longrightarrow>
    walk_ok g kinds allow keys 0 k \<lparr>wa_Entities = [], wa_Edges = [], wa_Truncated = False\<rparr>"
  using ball_within [of g _ kinds allow keys k] by (auto simp: walk_ok_def right_depths_def)

lemma Traverse_walk:
  assumes "graph_ok g" "Traverse g (Some t) allow = Inr r" "follow g (tr_Kinds t) = Inr kinds"
  shows "walk_ok g kinds allow (tr_From t) (walk_limit g t) (nat (tr_Depth t)) r"
proof -
  let ?limit = "walk_limit g t" and ?keys = "tr_From t" and ?none = "\<lparr>wa_Entities = [], wa_Edges = [], wa_Truncated = False\<rparr>"
  obtain seen frontier where s: "foldl (seed_step g allow) (NewRows (int (gg_entities g)), []) ?keys = (seen, frontier)" by fastforce
  define w where "w = foldl (seed_out ?limit) \<lparr>ws_seen = seen, ws_out = ?none, ws_next = [], ws_stop = False\<rparr> (sort frontier)"
  have r: "r = (if ?limit = 0 then ?none else if ws_stop w then ws_out w
      else ws_out (levels g kinds allow ?limit (nat (tr_Depth t)) 1 (sort frontier) w))"
    using assms(2) unfolding Traverse_def option.case assms(3) sum.case Let_def s prod.case walk_limit_def [symmetric] w_def [symmetric]
    by (simp split: if_splits)
  show ?thesis
  proof (cases "?limit = 0")
    case True
    then have "gg_entities g = 0" by (auto simp: walk_limit_def split: if_splits)
    then show ?thesis using walk_ok_none [OF assms(1)] r True by simp
  next
    case False
    have seen: "rows_ok seen" "rb_n seen = gg_entities g" "\<And>i. row_in seen i \<longleftrightarrow> i \<in> set frontier"
      "distinct frontier" "set frontier = seeds g allow ?keys"
      using seed_fold [OF _ _ _ _ s] by simp_all
    have w: "wa_Entities (ws_out w) = map (\<lambda>v. (v, 0)) (take ?limit (sort frontier))" "ws_seen w = seen"
      "wa_Truncated (ws_out w) \<longleftrightarrow> ws_stop w" "ws_stop w \<longleftrightarrow> ?limit < length (sort frontier)"
      using seed_out_fold [of "\<lparr>ws_seen = seen, ws_out = ?none, ws_next = [], ws_stop = False\<rparr>" "[]" ?limit "sort frontier"]
      by (simp_all add: w_def)
    have ok: "walk_ok g kinds allow ?keys ?limit 0 (ws_out w)"
      by (rule walk_ok_seeds [OF _ _ w(1)]) (use seen w in simp_all)
    show ?thesis
    proof (cases "ws_stop w")
      case True
      then show ?thesis using walk_ok_mono [OF ok] w(3) r False by simp
    next
      case go: False
      then have "found w = sort frontier" using w(1,4) by (simp add: found_def comp_def)
      moreover have "sphere g kinds allow ?keys 0 = seeds g allow ?keys" by (simp add: sphere_def)
      moreover have "\<forall>(v, j) \<in> set (wa_Entities (ws_out w)). j \<le> 0" using w(1) by auto
      ultimately have "at_level g kinds allow ?keys ?limit 0 (sort frontier) w"
        unfolding at_level_def using ok go w(2,3) seen by simp
      from take_levels [OF this assms(1), of "nat (tr_Depth t)"] show ?thesis using r False go by simp
    qed
  qed
qed

text \<open>
  C34: a traversal of any section that opens answers with the entities within the asked number of hops of
  the seeds over what the reader may see, each once, each with the length of its shortest way, nearest
  first; only a result as long as the limit leaves any of them out, and it is marked as truncated exactly
  then.
\<close>

theorem Traverse_exact:
  assumes "OpenGraph b = Inr g" "follow g (tr_Kinds t) = Inr kinds" "Traverse g (Some t) allow = Inr r"
  shows "distinct (map fst (wa_Entities r)) \<and> sorted (map snd (wa_Entities r)) \<and>
    (\<forall>(v, k) \<in> set (wa_Entities r). v \<in> sphere g kinds allow (tr_From t) k \<and> VisibleEntity g (int v) allow) \<and>
    fst ` set (wa_Entities r) \<subseteq> ball g kinds allow (tr_From t) (nat (tr_Depth t)) \<and>
    (if wa_Truncated r then length (wa_Entities r) = walk_limit g t \<and>
       (\<exists>v \<in> ball g kinds allow (tr_From t) (nat (tr_Depth t)). v \<notin> fst ` set (wa_Entities r))
     else fst ` set (wa_Entities r) = ball g kinds allow (tr_From t) (nat (tr_Depth t)))"
proof -
  have w: "walk_ok g kinds allow (tr_From t) (walk_limit g t) (nat (tr_Depth t)) r"
    by (rule Traverse_walk [OF OpenGraph_ok [OF assms(1)] assms(3,2)])
  then have "VisibleEntity g (int v) allow" if "(v, k) \<in> set (wa_Entities r)" for v k
    using that ball_visible [of v g kinds allow "tr_From t" "nat (tr_Depth t)"] by (force simp: walk_ok_def)
  then show ?thesis using w unfolding walk_ok_def right_depths_def by blast
qed

section \<open>The hops of the answer\<close>

text \<open>
  One hop leads to each entity past the seeds, in the order of the answer, from an entity one level
  before it and over an edge the reader may cross.
\<close>

definition hop_ok :: "graph \<Rightarrow> kind_filter \<Rightarrow> rowmap option \<Rightarrow> (nat \<times> nat) list \<Rightarrow> hop \<Rightarrow> bool" where
  "hop_ok g kinds allow ents h \<longleftrightarrow>
     ho_Edge h \<in> out_edges g (ho_From h) \<and> crossable g kinds allow (ho_Edge h) \<and> ho_To h = Target g (ho_Edge h) \<and>
     (\<exists>k. (ho_From h, k) \<in> set ents \<and> (ho_To h, Suc k) \<in> set ents)"

definition hops_ok :: "graph \<Rightarrow> kind_filter \<Rightarrow> rowmap option \<Rightarrow> walked \<Rightarrow> bool" where
  "hops_ok g kinds allow r \<longleftrightarrow>
     map ho_To (wa_Edges r) = map fst (filter (\<lambda>(v, k). 0 < k) (wa_Entities r)) \<and>
     (\<forall>h \<in> set (wa_Edges r). hop_ok g kinds allow (wa_Entities r) h)"

definition hops_at :: "graph \<Rightarrow> kind_filter \<Rightarrow> rowmap option \<Rightarrow> nat \<Rightarrow> walk_state \<Rightarrow> bool" where
  "hops_at g kinds allow depth w \<longleftrightarrow>
     hops_ok g kinds allow (ws_out w) \<and> (\<forall>v \<in> set (ws_next w). (v, depth) \<in> set (wa_Entities (ws_out w)))"

lemma hop_ok_more: "hop_ok g kinds allow ents h \<Longrightarrow> hop_ok g kinds allow (ents @ new) h"
  by (auto simp: hop_ok_def)

lemma hops_cross:
  assumes "hops_at g kinds allow (Suc k) w" "(u, k) \<in> set (wa_Entities (ws_out w))" "e \<in> out_edges g u"
  shows "hops_at g kinds allow (Suc k) (cross g kinds allow limit (Suc k) u w e) \<and>
    set (wa_Entities (ws_out w)) \<subseteq> set (wa_Entities (ws_out (cross g kinds allow limit (Suc k) u w e)))"
proof -
  let ?h = "\<lparr>ho_From = u, ho_Edge = e, ho_To = Target g e\<rparr>"
  have "hop_ok g kinds allow (wa_Entities (ws_out w) @ [(Target g e, Suc k)]) ?h" if "crossable g kinds allow e"
    using that assms(2,3) by (auto simp: hop_ok_def)
  then show ?thesis
    using assms(1) hop_ok_more unfolding cross_eq
    by (auto simp: hops_at_def hops_ok_def stopped_def)
qed

lemma hops_expand:
  assumes "hops_at g kinds allow (Suc k) w" "(u, k) \<in> set (wa_Entities (ws_out w))"
  shows "hops_at g kinds allow (Suc k) (expand_entity g kinds allow limit (Suc k) w u) \<and>
    set (wa_Entities (ws_out w)) \<subseteq> set (wa_Entities (ws_out (expand_entity g kinds allow limit (Suc k) w u)))"
proof -
  have "hops_at g kinds allow (Suc k) (foldl (cross g kinds allow limit (Suc k) u) w es) \<and>
      set (wa_Entities (ws_out w)) \<subseteq> set (wa_Entities (ws_out (foldl (cross g kinds allow limit (Suc k) u) w es)))"
    if "set es \<subseteq> out_edges g u" for es
    using that assms
  proof (induction es arbitrary: w)
    case (Cons e es)
    have "e \<in> out_edges g u" using Cons.prems(1) by simp
    note step = hops_cross [OF Cons.prems(2,3) this, of limit]
    then have "(u, k) \<in> set (wa_Entities (ws_out (cross g kinds allow limit (Suc k) u w e)))" using Cons.prems(3) by blast
    from Cons.IH [OF _ _ this] show ?case using Cons.prems(1) step by auto
  qed simp
  then show ?thesis by (simp add: expand_entity_def out_edges_def split: prod.splits)
qed

lemma hops_level:
  assumes "hops_at g kinds allow (Suc k) w" "\<forall>u \<in> set us. (u, k) \<in> set (wa_Entities (ws_out w))"
  shows "hops_at g kinds allow (Suc k) (foldl (expand_entity g kinds allow limit (Suc k)) w us)"
  using assms
proof (induction us arbitrary: w)
  case (Cons u us)
  have "(u, k) \<in> set (wa_Entities (ws_out w))" using Cons.prems(2) by simp
  note step = hops_expand [OF Cons.prems(1) this, of limit]
  then have "\<forall>x \<in> set us. (x, k) \<in> set (wa_Entities (ws_out (expand_entity g kinds allow limit (Suc k) w u)))"
    using Cons.prems(2) by auto
  then show ?case using Cons.IH [of "expand_entity g kinds allow limit (Suc k) w u"] step by simp
qed simp

lemma hops_levels:
  assumes "hops_ok g kinds allow (ws_out w)" "\<forall>u \<in> set frontier. (u, k) \<in> set (wa_Entities (ws_out w))"
  shows "hops_ok g kinds allow (ws_out (levels g kinds allow limit hops (Suc k) frontier w))"
  using assms
proof (induction hops arbitrary: k frontier w)
  case (Suc hops)
  let ?w = "foldl (expand_entity g kinds allow limit (Suc k)) (w\<lparr>ws_next := []\<rparr>) frontier"
  have "hops_at g kinds allow (Suc k) (w\<lparr>ws_next := []\<rparr>)" using Suc.prems(1) by (simp add: hops_at_def)
  from hops_level [OF this, of frontier limit] have "hops_at g kinds allow (Suc k) ?w" using Suc.prems(2) by simp
  then have "hops_ok g kinds allow (ws_out ?w)" "\<forall>u \<in> set (sort (ws_next ?w)). (u, Suc k) \<in> set (wa_Entities (ws_out ?w))"
    by (simp_all add: hops_at_def)
  then show ?case using Suc.IH [of ?w "sort (ws_next ?w)" "Suc k"] Suc.prems(1) by (simp add: Let_def)
qed simp

text \<open>
  C35: the hops of an answer explain it: there is one hop for each entity past
  the seeds, in the same order, from an entity of the level before it, over an edge that leaves that
  entity, is of a followed kind and whose evidence the reader may see, to an entity the reader may know of.
\<close>

theorem Traverse_explained:
  assumes "Traverse g (Some t) allow = Inr r" "follow g (tr_Kinds t) = Inr kinds"
  shows "map ho_To (wa_Edges r) = map fst (filter (\<lambda>(v, k). 0 < k) (wa_Entities r)) \<and>
    (\<forall>h \<in> set (wa_Edges r). ho_Edge h \<in> out_edges g (ho_From h) \<and> ho_To h = Target g (ho_Edge h) \<and>
       wanted kinds g (ho_Edge h) \<and> EdgeVisible g (int (ho_Edge h)) allow \<and> VisibleEntity g (int (ho_To h)) allow \<and>
       (\<exists>k. (ho_From h, k) \<in> set (wa_Entities r) \<and> (ho_To h, Suc k) \<in> set (wa_Entities r)))"
proof -
  let ?limit = "walk_limit g t" and ?none = "\<lparr>wa_Entities = [], wa_Edges = [], wa_Truncated = False\<rparr>"
  obtain seen frontier where s: "foldl (seed_step g allow) (NewRows (int (gg_entities g)), []) (tr_From t) = (seen, frontier)" by fastforce
  define w where "w = foldl (seed_out ?limit) \<lparr>ws_seen = seen, ws_out = ?none, ws_next = [], ws_stop = False\<rparr> (sort frontier)"
  have r: "r = (if ?limit = 0 then ?none else if ws_stop w then ws_out w
      else ws_out (levels g kinds allow ?limit (nat (tr_Depth t)) 1 (sort frontier) w))"
    using assms(1) unfolding Traverse_def option.case assms(2) sum.case Let_def s prod.case walk_limit_def [symmetric] w_def [symmetric]
    by (simp split: if_splits)
  have w: "wa_Entities (ws_out w) = map (\<lambda>v. (v, 0)) (take ?limit (sort frontier))" "ws_stop w \<longleftrightarrow> ?limit < length (sort frontier)"
    using seed_out_fold [of "\<lparr>ws_seen = seen, ws_out = ?none, ws_next = [], ws_stop = False\<rparr>" "[]" ?limit "sort frontier"]
    by (simp_all add: w_def)
  have "wa_Edges (ws_out (foldl (seed_out l) v us)) = wa_Edges (ws_out v)" for l v us
    by (induction us arbitrary: v) (simp_all add: seed_out_def stopped_def)
  then have "wa_Edges (ws_out w) = []" by (simp add: w_def)
  then have start: "hops_ok g kinds allow (ws_out w)" using w(1) by (simp add: hops_ok_def filter_map comp_def)
  have "hops_ok g kinds allow r"
  proof (cases "ws_stop w \<or> ?limit = 0")
    case True
    then show ?thesis using r start by (simp add: hops_ok_def split: if_splits)
  next
    case False
    then have "\<forall>u \<in> set (sort frontier). (u, 0) \<in> set (wa_Entities (ws_out w))" using w by simp
    from hops_levels [OF start this] show ?thesis using r False by simp
  qed
  then show ?thesis by (fastforce simp: hops_ok_def hop_ok_def crossable_def)
qed

end
