(* ===== verification/Graph_Roundtrip.thy ===== *)
theory Graph_Roundtrip
  imports Graph_Layout Graph_Walk
begin

text \<open>
  What a builder was told, an opened section says: every entity under its key with its type and its
  mentions, every relationship with its kind and its evidence, and a traversal follows what the
  documents a reader may see state.
\<close>

section \<open>Columns of strings\<close>

lemma string_column_collect: "string_column ss = collect TypeString (map VString ss)"
  by (simp add: string_column_def collect_def foldl_map)

lemma strings_of_map [simp]: "strings_of (map VString ss) = ss"
  by (induction ss) (simp_all add: strings_of_def)

definition column_of :: "string list \<Rightarrow> string \<Rightarrow> column \<Rightarrow> bool" where
  "column_of ss bytes c \<longleftrightarrow>
     Build (string_column ss) = Some (Inr bytes) \<and> Open bytes = Inr c \<and> co_rows c = length ss \<and>
     (\<exists>sorts e. built TypeString (map VString ss) sorts e c)"

lemma buildable_strings:
  "length ss \<le> maxRows \<Longrightarrow> text_size (remdups ss) < 2 ^ 32 \<Longrightarrow> buildable TypeString (map VString ss)"
  by (auto simp: buildable_def known_def list_all_iff)

lemma column_of_strings:
  assumes "length ss \<le> maxRows" "text_size (remdups ss) < 2 ^ 32"
  shows "\<exists>bytes c. column_of ss bytes c"
proof -
  obtain bytes c sorts e where c: "Build (collect TypeString (map VString ss)) = Some (Inr bytes)" "Open bytes = Inr c"
    "built TypeString (map VString ss) sorts e c" using buildable_built [OF buildable_strings [OF assms]] .
  then have "column_of ss bytes c" using built_facts(2) [OF c(3)] by (auto simp: column_of_def string_column_collect)
  then show ?thesis by blast
qed

lemma built_strings:
  assumes "built TypeString (map VString ss) sorts e c" "i < length ss"
  shows "CodeAt c (int i) = (code c i, True)" "unat (code c i) < length sorts" "sorts ! unat (code c i) = ss ! i"
    "StringAt c (int i) = (ss ! i, True)"
proof -
  have i: "i < length (map VString ss)" "map VString ss ! i = VString (ss ! i)" using assms(2) by simp_all
  note b = built_facts [OF assms(1)]
  show at: "CodeAt c (int i) = (code c i, True)" using CodeAt_built [OF assms(1) i(1)] i(2) by simp
  show u: "unat (code c i) < length sorts" "sorts ! unat (code c i) = ss ! i" using b(10) [OF i] by simp_all
  have "dict_term c (unat (code c i)) = ss ! i" using built_dict [OF assms(1) u(1)] u(2) by simp
  then show "StringAt c (int i) = (ss ! i, True)" using at u(1) b(1,4) by (simp add: StringAt_def)
qed

lemma column_of_at: "column_of ss bytes c \<Longrightarrow> i < length ss \<Longrightarrow> StringAt c (int i) = (ss ! i, True)"
  using built_strings(4) by (auto simp: column_of_def)

section \<open>The kinds that are followed\<close>

lemma learn_codes:
  assumes "yield_all (learn_code g n) es codes = (all, codes')" "distinct codes"
    and "\<forall>e \<in> set es. CodeAt (gg_kinds g) (int e) = (x e, True)"
  shows "distinct codes' \<and> set codes \<subseteq> set codes' \<and> set codes' \<subseteq> set codes \<union> x ` set es \<and>
    (if all then x ` set es \<subseteq> set codes' else n \<le> length codes')"
  using assms
proof (induction es arbitrary: codes)
  case (Cons e es)
  let ?c = "if x e \<notin> set codes then codes @ [x e] else codes"
  have step: "learn_code g n e codes = (length ?c < n, ?c)" using Cons.prems(3) by (simp add: learn_code_def Let_def)
  have dist: "distinct ?c" "set ?c = insert (x e) (set codes)" using Cons.prems(2) by auto
  show ?case
  proof (cases "length ?c < n")
    case True
    then have "yield_all (learn_code g n) es ?c = (all, codes')" using Cons.prems(1) step by simp
    from Cons.IH [OF this dist(1)] Cons.prems(3) show ?thesis using dist(2) by auto
  next
    case False
    then have "codes' = ?c" "\<not> all" using Cons.prems(1) step by auto
    then show ?thesis using False dist by auto
  qed
qed simp

lemma follow_kinds:
  assumes "column_of ss bytes (gg_kinds g)"
  shows "\<exists>f. follow g ks = Inr f \<and> (\<forall>e < length ss. wanted f g e \<longleftrightarrow> ks = [] \<or> ss ! e \<in> set ks)"
proof (cases "ks = []")
  case True
  then show ?thesis by (simp add: follow_def wanted_def)
next
  case False
  let ?c = "gg_kinds g"
  obtain sorts enc where b: "Build (collect TypeString (map VString ss)) = Some (Inr bytes)" "Open bytes = Inr ?c"
    "built TypeString (map VString ss) sorts enc ?c"
    using assms by (auto simp: column_of_def string_column_collect)
  note at = built_strings [OF b(3)]
  have "length ss \<le> maxRows" "distinct sorts" using b(3) by (simp_all add: built_def)
  have is_str: "co_typ ?c = TypeString" using built_facts(1) [OF b(3)] .
  let ?m = "scan ?c (filter_of ?c (AskStrings ks))"
  have m: "MatchStrings ?c ks = Inr ?m" using answer_scan [of ?c "AskStrings ks"] is_str by simp
  have ok: "rows_ok ?m" using scan_member [OF b(2)] by blast
  have rows: "row_in ?m e \<longleftrightarrow> e < length ss \<and> ss ! e \<in> set ks" for e
  proof -
    have "row_in ?m e \<longleftrightarrow> valued ?c e \<and> picks (filter_of ?c (AskStrings ks)) (code ?c e)"
      using scan_member [OF b(2)] unfolding picks_def by blast
    moreover have "valued ?c e \<longleftrightarrow> e < length ss" using built_facts(7,8) [OF b(3), of e] by auto
    moreover have "picks (filter_of ?c (AskStrings ks)) (code ?c e) \<longleftrightarrow> ss ! e \<in> set ks" if "e < length ss"
      using picks_asks [OF b(3), of e "AskStrings ks"] that by simp
    ultimately show ?thesis by blast
  qed
  obtain all codes where y: "yield_all (learn_code g (length ks)) (Rows ?m) [] = (all, codes)" by fastforce
  have set_rows: "set (Rows ?m) = {e. e < length ss \<and> ss ! e \<in> set ks}" using Rows_set(1) [OF ok] rows by simp
  then have read: "\<forall>e \<in> set (Rows ?m). CodeAt ?c (int e) = (code ?c e, True)" using at(1) by simp
  note learnt = learn_codes [OF y _ read]
  have l: "distinct codes" "set codes \<subseteq> code ?c ` set (Rows ?m)"
    "if all then code ?c ` set (Rows ?m) \<subseteq> set codes else length ks \<le> length codes"
    using learnt by simp_all
  have term_of: "sorts ! unat y \<in> set ks \<and> unat y < length sorts" if "y \<in> set codes" for y
    using that l(2) at(2,3) set_rows by auto
  have same: "y = z" if "y \<in> set codes" "unat z < length sorts" "sorts ! unat y = sorts ! unat z" for y z
    using that term_of [OF that(1)] \<open>distinct sorts\<close> by (simp add: nth_eq_iff_index_eq word_unat_eq_iff)
  have all_known: "code ?c e \<in> set codes" if e: "e < length ss" "ss ! e \<in> set ks" for e
  proof (cases all)
    case True
    then show ?thesis using l(3) e set_rows by auto
  next
    case stopped: False
    have inj: "inj_on (\<lambda>y. sorts ! unat y) (set codes)"
      using same term_of by (intro inj_onI) blast
    have "(\<lambda>y. sorts ! unat y) ` set codes = set ks"
    proof (rule card_subset_eq)
      show "(\<lambda>y. sorts ! unat y) ` set codes \<subseteq> set ks" using term_of by blast
      have "card ((\<lambda>y. sorts ! unat y) ` set codes) = length codes"
        using card_image [OF inj] distinct_card [OF l(1)] by simp
      then have "card (set ks) \<le> card ((\<lambda>y. sorts ! unat y) ` set codes)"
        using l(3) stopped card_length [of ks] by simp
      moreover have "card ((\<lambda>y. sorts ! unat y) ` set codes) \<le> card (set ks)"
        using term_of by (intro card_mono) auto
      ultimately show "card ((\<lambda>y. sorts ! unat y) ` set codes) = card (set ks)" by simp
    qed simp
    then obtain y where y: "y \<in> set codes" "sorts ! unat y = ss ! e" using e(2) by (metis imageE)
    then have "y = code ?c e" using same [OF y(1), of "code ?c e"] at(2,3) [OF e(1)] by simp
    then show ?thesis using y(1) by simp
  qed
  define f where "f = \<lparr>kf_codes = codes, kf_all = False\<rparr>"
  have "follow g ks = Inr f" using False y by (simp add: follow_def m Each_row_Rows f_def)
  moreover have "wanted f g e \<longleftrightarrow> ss ! e \<in> set ks" if e: "e < length ss" for e
  proof -
    have "wanted f g e \<longleftrightarrow> code ?c e \<in> set codes" using at(1) [OF e] by (simp add: wanted_def f_def)
    also have "\<dots> \<longleftrightarrow> ss ! e \<in> set ks" using all_known [OF e] term_of [of "code ?c e"] at(3) [OF e] by auto
    finally show ?thesis .
  qed
  ultimately show ?thesis using False by blast
qed

section \<open>What a builder was told\<close>

datatype told = DeclareEntity string string "int list" | DeclareEdge int int string "int list"

fun declare_one :: "graph_builder \<Rightarrow> told \<Rightarrow> graph_builder" where
  "declare_one b (DeclareEntity key typ mentions) = snd (Entity key typ mentions b)"
| "declare_one b (DeclareEdge src dst kind evidence) = snd (Edge src dst kind evidence b)"

definition declare_all :: "int \<Rightarrow> told list \<Rightarrow> graph_builder" where
  "declare_all rows ds = foldl declare_one (NewGraphBuilder rows) ds"

definition evidence_ok :: "graph_builder \<Rightarrow> int list \<Rightarrow> bool" where
  "evidence_ok b l \<longleftrightarrow> row_list l \<and> l \<noteq> []"

definition builder_ok :: "graph_builder \<Rightarrow> bool" where
  "builder_ok b \<longleftrightarrow>
     gb_rows b \<le> 2 ^ 32 \<and> distinct (map en_key (gb_entities b)) \<and>
     (\<forall>key i. fmlookup (gb_keys b) key = Some i \<longleftrightarrow> i < length (gb_entities b) \<and> en_key (gb_entities b ! i) = key) \<and>
     (\<forall>x \<in> set (gb_entities b). evidence_ok b (en_mentions x)) \<and>
     (\<forall>e \<in> set (gb_edges b). ed_src e < length (gb_entities b) \<and> ed_dst e < length (gb_entities b) \<and> evidence_ok b (ed_evidence e)) \<and>
     length (gb_entities b) \<le> MaxEntities \<and> length (gb_edges b) \<le> MaxEdges"

lemma strict_remdups_adj: "sorted xs \<Longrightarrow> sorted_wrt (<) (remdups_adj (xs :: int list))"
  by (metis distinct_remdups_adj_sorted remdups_adj_set sorted_remdups_adj strict_sorted_iff) 

lemma postings_of_ok:
  assumes "postings_of b rows = Inr l" "gb_rows b \<le> 2 ^ 32"
  shows "row_list l" "set l = set rows"
proof -
  have l: "l = remdups_adj (sort rows)" "\<forall>r \<in> set l. 0 \<le> r \<and> r < gb_rows b"
    using assms(1) by (auto simp: postings_of_def Let_def list_all_iff not_le not_less split: if_splits)
  then have "\<forall>r \<in> set l. 0 \<le> r \<and> r \<le> int maxRow" using assms(2) by (auto simp: maxRow_def)
  moreover have "sorted_wrt (<) l" unfolding l(1) by (rule strict_remdups_adj) simp
  ultimately show "row_list l" by (simp add: row_list_def)
  show "set l = set rows" by (simp add: l(1))
qed

lemma Entity_ok: "builder_ok b \<Longrightarrow> builder_ok (snd (Entity key typ mentions b))"
proof -
  assume b: "builder_ok b"
  show ?thesis
  proof (cases "snd (Entity key typ mentions b) = b")
    case False
    then obtain l where e: "fmlookup (gb_keys b) key = None" "postings_of b mentions = Inr l" "l \<noteq> []"
      "\<not> MaxEntities \<le> length (gb_entities b)"
      "snd (Entity key typ mentions b) = b\<lparr>gb_keys := fmupd key (length (gb_entities b)) (gb_keys b),
         gb_entities := gb_entities b @ [\<lparr>en_key = key, en_typ = typ, en_mentions = l\<rparr>]\<rparr>"
      by (auto simp: Entity_def Let_def split: if_splits option.splits sum.splits)
    have rows: "gb_rows b \<le> 2 ^ 32" using b by (simp add: builder_ok_def)
    have l: "row_list l" by (rule postings_of_ok [OF e(2) rows])
    have new: "key \<notin> en_key ` set (gb_entities b)"
    proof
      assume "key \<in> en_key ` set (gb_entities b)"
      then obtain i where "i < length (gb_entities b)" "en_key (gb_entities b ! i) = key" by (auto simp: in_set_conv_nth)
      then have "fmlookup (gb_keys b) key = Some i" using b by (simp add: builder_ok_def)
      then show False using e(1) by simp
    qed
    have look: "fmlookup (gb_keys b) k = Some i \<longleftrightarrow> i < length (gb_entities b) \<and> en_key (gb_entities b ! i) = k" for k i
      using b by (simp add: builder_ok_def)
    show ?thesis
      unfolding e(5) builder_ok_def
      using b e(3,4) l new by (auto simp: builder_ok_def evidence_ok_def nth_append less_Suc_eq)
  qed (simp add: b)
qed

lemma Edge_ok: "builder_ok b \<Longrightarrow> builder_ok (snd (Edge src dst kind evidence b))"
proof -
  assume b: "builder_ok b"
  show ?thesis
  proof (cases "snd (Edge src dst kind evidence b) = b")
    case False
    then obtain l where e: "0 \<le> src" "nat src < length (gb_entities b)" "0 \<le> dst" "nat dst < length (gb_entities b)"
      "postings_of b evidence = Inr l" "l \<noteq> []" "\<not> MaxEdges \<le> length (gb_edges b)"
      "snd (Edge src dst kind evidence b) = b\<lparr>gb_edges := gb_edges b @
         [\<lparr>ed_src = nat src, ed_dst = nat dst, ed_kind = kind, ed_evidence = l\<rparr>]\<rparr>"
      by (auto simp: Edge_def not_le not_less nat_less_iff split: if_splits sum.splits)
    have rows: "gb_rows b \<le> 2 ^ 32" using b by (simp add: builder_ok_def)
    have l: "row_list l" by (rule postings_of_ok [OF e(5) rows])
    show ?thesis
      unfolding e(8) builder_ok_def
      using b e l by (auto simp: builder_ok_def evidence_ok_def)
  qed (simp add: b)
qed

lemma declare_rows: "gb_rows (declare_all rows ds) = rows"
proof (induction ds rule: rev_induct)
  case (snoc d ds)
  have "gb_rows (declare_one b d) = gb_rows b" for b
    by (cases d) (auto simp: Entity_def Edge_def Let_def split: option.splits sum.splits)
  then show ?case using snoc by (simp add: declare_all_def)
qed (simp add: declare_all_def NewGraphBuilder_def)

lemma declare_ok: "rows \<le> 2 ^ 32 \<Longrightarrow> builder_ok (declare_all rows ds)"
proof (induction ds rule: rev_induct)
  case Nil
  then show ?case by (simp add: declare_all_def NewGraphBuilder_def builder_ok_def)
next
  case (snoc d ds)
  then show ?case using Entity_ok Edge_ok by (cases d) (simp_all add: declare_all_def)
qed

section \<open>Rows and edges in their places\<close>

interpretation by_key: comparator "key_less b" for b
  by unfold_locales (auto simp: key_less_def)

interpretation by_place: comparator edge_less
  by unfold_locales (auto simp: edge_less_def split: if_splits)

definition placed_entities :: "graph_builder \<Rightarrow> entity list" where
  "placed_entities b = map (\<lambda>i. gb_entities b ! i) (entity_order b)"

lemma entity_order_perm:
  "distinct (entity_order b)" "set (entity_order b) = {..<length (gb_entities b)}" "length (entity_order b) = length (gb_entities b)"
  by (auto simp: entity_order_def)

lemma placed_length [simp]: "length (placed_entities b) = length (gb_entities b)"
  by (simp add: placed_entities_def entity_order_perm)

lemma placed_set: "set (placed_entities b) = set (gb_entities b)"
  unfolding placed_entities_def set_map entity_order_perm by (auto simp: in_set_conv_nth)

lemma placed_keys:
  assumes "builder_ok b"
  shows "sorted_wrt (<) (map en_key (placed_entities b))"
proof -
  have "sorted_wrt (\<lambda>i j. \<not> key_less b j i) (entity_order b)"
    unfolding entity_order_def by (rule by_key.in_order_sort_by)
  then have "sorted (map en_key (placed_entities b))"
    unfolding placed_entities_def sorted_map map_map by (rule sorted_wrt_mono_rel [rotated]) (simp add: key_less_def)
  moreover have "distinct (map en_key (placed_entities b))"
  proof -
    have "inj_on (\<lambda>i. en_key (gb_entities b ! i)) {..<length (gb_entities b)}"
      using assms by (auto simp: builder_ok_def distinct_conv_nth intro!: inj_onI)
    then show ?thesis
      unfolding placed_entities_def map_map comp_def distinct_map entity_order_perm using entity_order_perm(1) by blast
  qed
  ultimately show ?thesis by (simp add: strict_sorted_iff)
qed

lemma row_table_at:
  shows "length (row_table b) = length (gb_entities b)"
    and "r < length (gb_entities b) \<Longrightarrow> row_table b ! (entity_order b ! r) = r"
proof -
  let ?f = "\<lambda>row (at, i). row[i := at]" and ?z = "replicate (length (gb_entities b)) (0 :: nat)"
  have len: "length (foldl ?f ?z (enumerate 0 ss)) = length (gb_entities b)" for ss
    by (induction ss rule: rev_induct) (simp_all add: enumerate_snoc)
  then show "length (row_table b) = length (gb_entities b)" by (simp add: row_table_def)
  have "r < length ss \<longrightarrow> foldl ?f ?z (enumerate 0 ss) ! (ss ! r) = r"
    if "distinct ss" "set ss \<subseteq> {..<length (gb_entities b)}" for ss r
    using that
  proof (induction ss arbitrary: r rule: rev_induct)
    case (snoc s ss)
    have s: "s < length (gb_entities b)" using snoc.prems(2) by simp
    show ?case
    proof (cases "r = length ss")
      case True
      then show ?thesis using s by (simp add: enumerate_snoc len)
    next
      case False
      have "ss ! r \<noteq> s" if "r < length ss" using that snoc.prems(1) by auto
      then show ?thesis using False snoc by (auto simp: enumerate_snoc nth_append)
    qed
  qed simp
  then show "r < length (gb_entities b) \<Longrightarrow> row_table b ! (entity_order b ! r) = r"
    using entity_order_perm [of b] by (simp add: row_table_def)
qed

lemma row_of_entity:
  assumes "i < length (gb_entities b)"
  shows "row_table b ! i < length (gb_entities b)" "placed_entities b ! (row_table b ! i) = gb_entities b ! i"
proof -
  have "i \<in> set (entity_order b)" using assms entity_order_perm(2) by simp
  then obtain r where r: "r < length (gb_entities b)" "entity_order b ! r = i"
    using entity_order_perm(3) by (metis in_set_conv_nth)
  then have "row_table b ! i = r" using row_table_at(2) [OF r(1)] by simp
  then show "row_table b ! i < length (gb_entities b)" "placed_entities b ! (row_table b ! i) = gb_entities b ! i"
    using r entity_order_perm(3) by (simp_all add: placed_entities_def)
qed

definition placed :: "graph_builder \<Rightarrow> edge \<Rightarrow> edge" where
  "placed b e = e\<lparr>ed_src := row_table b ! ed_src e, ed_dst := row_table b ! ed_dst e\<rparr>"

lemma placed_edges_facts:
  assumes "builder_ok b"
  shows "set (placed_edges b) = placed b ` set (gb_edges b)" "length (placed_edges b) = length (gb_edges b)"
    "sorted (map ed_src (placed_edges b))"
    "\<forall>e \<in> set (placed_edges b). ed_src e < length (gb_entities b) \<and> ed_dst e < length (gb_entities b) \<and> evidence_ok b (ed_evidence e)"
proof -
  have eq: "placed_edges b = sort_by edge_less (map (placed b) (gb_edges b))"
    by (simp add: placed_edges_def placed_def [abs_def])
  show set: "set (placed_edges b) = placed b ` set (gb_edges b)" "length (placed_edges b) = length (gb_edges b)"
    by (simp_all add: eq)
  have "sorted_wrt (\<lambda>x y. \<not> edge_less y x) (placed_edges b)" unfolding eq by (rule by_place.in_order_sort_by)
  then show "sorted (map ed_src (placed_edges b))"
    unfolding sorted_map by (rule sorted_wrt_mono_rel [rotated]) (auto simp: edge_less_def split: if_splits)
  show "\<forall>e \<in> set (placed_edges b). ed_src e < length (gb_entities b) \<and> ed_dst e < length (gb_entities b) \<and> evidence_ok b (ed_evidence e)"
    unfolding set using assms row_of_entity(1) by (auto simp: builder_ok_def placed_def)
qed

section \<open>The size of the parts\<close>

lemma length_put_at: "off + length v \<le> length b \<Longrightarrow> length (put_at b off v) = length b"
  by (simp add: put_at_def)

lemma encodePostings_length: "length (encodePostings ls) = 4 + (length ls + 1) * 4 + text_size (list_texts ls)"
proof -
  let ?h = "4 + (length ls + 1) * 4"
  define start where "start = put_at (put_at (replicate ?h (of_byte 0)) 0 (le_bytes 4 (length ls))) 4 (le_bytes 4 0)"
  have s: "length start = ?h" by (simp add: start_def length_put_at)
  have "k \<le> length ls \<Longrightarrow> length (foldl (list_step ?h) start (enumerate 0 (take k ls))) = ?h + text_size (list_texts (take k ls))" for k
  proof (induction k)
    case (Suc k)
    then have k: "k < length ls" by simp
    define out where "out = foldl (list_step ?h) start (enumerate 0 (take k ls))"
    have IH: "length out = ?h + text_size (list_texts (take k ls))" using Suc by (simp add: out_def)
    have t: "take (Suc k) ls = take k ls @ [ls ! k]" using k by (simp add: take_Suc_conv_app_nth)
    have "enumerate 0 (take (Suc k) ls) = enumerate 0 (take k ls) @ [(k, ls ! k)]"
      unfolding t enumerate_snoc using k by (simp add: min_def)
    then have e: "foldl (list_step ?h) start (enumerate 0 (take (Suc k) ls)) = list_step ?h out (k, ls ! k)"
      by (simp add: out_def)
    have "length (list_step ?h out (k, ls ! k)) = length (out @ list_bytes 0 (ls ! k))"
      unfolding list_step_def Let_def prod.case gap_fold
      by (rule length_put_at) (use k IH in simp)
    then have "length (foldl (list_step ?h) start (enumerate 0 (take (Suc k) ls))) = length (out @ list_bytes 0 (ls ! k))"
      unfolding e .
    then show ?case unfolding t using IH by (simp add: list_texts_def)
  qed (simp add: s list_texts_def)
  from this [of "length ls"] show ?thesis by (simp add: encodePostings_def Let_def start_def)
qed

lemma dict_bytes_length: "length (dict_bytes ss) = 4 * (length ss + 1) + text_size ss"
proof -
  have "length (fst (foldl offset_step x ss)) = length (fst x) + 4 * length ss" for x
    by (induction ss arbitrary: x) (simp_all add: offset_step_def split: prod.splits)
  from this [of "([], 0)"] have d: "length (fst (foldl offset_step ([], 0) ss)) = 4 * length ss" by simp
  obtain dict at where f: "foldl offset_step ([], 0) ss = (dict, at)" by fastforce
  then show ?thesis using d by (simp add: dict_bytes_def text_size_def)
qed

lemma column_size:
  assumes "length ss \<le> maxRows"
  shows "\<exists>bytes. Build (string_column ss) = Some (Inr bytes) \<and> text_size (remdups ss) \<le> length bytes"
proof -
  let ?cells = "map VString ss" and ?b = "collect TypeString (map VString ss)"
  have typed: "list_all (of_type TypeString) ?cells" "length ?cells \<le> maxRows" "known TypeString"
    using assms by (simp_all add: list_all_iff known_def)
  note b = collect_ok [OF typed(3,1,2)]
  have "?cells = [] \<or> strings_of ?cells \<noteq> []" by simp
  from encode_strings [OF b typed(1) this typed(2)] obtain e where
    e: "encode ?b = Some e" "encodes TypeString ?cells (sort (bu_terms ?b)) e" by blast
  have "bu_err ?b = None" using b by (simp add: collected_def)
  from Build_eq [OF this e(1)] obtain front where build: "Build ?b = Some (Inr (front @ ec_dict e))" by blast
  have terms: "distinct (bu_terms ?b)" "set (bu_terms ?b) = set ss" using b by (simp_all add: collected_def ids_ok_def)
  have "text_size (sort (bu_terms ?b)) = text_size (remdups ss)" using terms by (simp add: text_size_set)
  then have "text_size (remdups ss) \<le> length (front @ ec_dict e)"
    using e(2) by (simp add: encodes_def dict_bytes_length)
  then show ?thesis using build string_column_collect by metis
qed

lemma column_of_built:
  assumes "length ss \<le> maxRows" "Build (string_column ss) = Some (Inr bytes)" "length bytes < 2 ^ 32"
  shows "\<exists>c. column_of ss bytes c"
proof -
  have "text_size (remdups ss) < 2 ^ 32" using column_size [OF assms(1)] assms(2,3) by auto
  from column_of_strings [OF assms(1) this] obtain bytes' c where c: "column_of ss bytes' c" by blast
  moreover have "bytes' = bytes" using c assms(2) by (simp add: column_of_def)
  ultimately show ?thesis by blast
qed

section \<open>The opened section\<close>

definition lists_of :: "int list list \<Rightarrow> postings \<Rightarrow> bool" where
  "lists_of ls p \<longleftrightarrow>
     (\<forall>i < length ls. list_rows p (int i) = ls ! i \<and> list_visible p (int i) None = (ls ! i \<noteq> []) \<and>
        (\<forall>m. list_visible p (int i) (Some m) \<longleftrightarrow> (\<exists>r \<in> set (ls ! i). Get_row m r)))"

lemma postings_opened:
  assumes "\<forall>l \<in> set ls. row_list l" "length (encodePostings ls) < 2 ^ 32"
  shows "\<exists>p. openPostings (encodePostings ls) (length ls) = Inr p \<and> lists_of ls p"
proof -
  have size: "text_size (list_texts ls) < 2 ^ 32" "length ls < 2 ^ 32"
    using assms(2) unfolding encodePostings_length by simp_all
  obtain p where p: "openPostings (encodePostings ls) (length ls) = Inr p"
    "\<forall>i < length ls. list_at p (int i) = list_bytes 0 (ls ! i)"
    using openPostings_encode [OF size] by blast
  have "list_rows p (int i) = ls ! i \<and> list_visible p (int i) None = (ls ! i \<noteq> []) \<and>
      (\<forall>m. list_visible p (int i) (Some m) \<longleftrightarrow> (\<exists>r \<in> set (ls ! i). Get_row m r))" if i: "i < length ls" for i
    by (rule list_read) (use assms(1) i p(2) in simp_all)
  then show ?thesis using p(1) unfolding lists_of_def by blast
qed

definition graph_of :: "graph_builder \<Rightarrow> graph \<Rightarrow> bool" where
  "graph_of b g \<longleftrightarrow>
     gg_entities g = length (gb_entities b) \<and> gg_edges g = length (gb_edges b) \<and> gg_rows g = nat (gb_rows b) \<and>
     (\<exists>bytes. column_of (map en_key (placed_entities b)) bytes (gg_keys g)) \<and>
     (\<exists>bytes. column_of (map en_typ (placed_entities b)) bytes (gg_types g)) \<and>
     (\<exists>bytes. column_of (map ed_kind (placed_edges b)) bytes (gg_kinds g)) \<and>
     lists_of (map en_mentions (placed_entities b)) (gg_mentions g) \<and>
     lists_of (map ed_evidence (placed_edges b)) (gg_evidence g) \<and>
     gg_adjacency g = table (slots (placed_edges b) (length (gb_entities b)) (length (gb_entities b) + 1)) \<and>
     gg_targets g = table (map ed_dst (placed_edges b))"

lemma open_column_of: "column_of ss bytes c \<Longrightarrow> open_column bytes (length ss) = Inr c"
  by (simp add: column_of_def open_column_def)

lemma GraphBuild_parts:
  assumes "GraphBuild b = Some (Inr bytes)" "builder_ok b"
  obtains keys types kinds where
    "Build (string_column (map en_key (placed_entities b))) = Some (Inr keys)"
    "Build (string_column (map en_typ (placed_entities b))) = Some (Inr types)"
    "Build (string_column (map ed_kind (placed_edges b))) = Some (Inr kinds)"
    "bytes = section_bytes (length (gb_entities b)) (length (gb_edges b)) (gb_rows b)
       [keys, types, encodePostings (map en_mentions (placed_entities b)),
        table (slots (placed_edges b) (length (gb_entities b)) (length (gb_entities b) + 1)), kinds,
        table (map ed_dst (placed_edges b)), encodePostings (map ed_evidence (placed_edges b))]"
proof -
  note e = placed_edges_facts [OF assms(2)]
  have t: "edge_tables (length (gb_entities b)) (placed_edges b) =
      (table (map ed_dst (placed_edges b)), table (slots (placed_edges b) (length (gb_entities b)) (length (gb_entities b) + 1)))"
    by (rule edge_tables_eq [OF e(3)]) (use e(4) in blast)
  show ?thesis
    using assms(1) that unfolding GraphBuild_def Let_def placed_entities_def [symmetric] t prod.case e(2)
    by (auto split: option.splits sum.splits)
qed

lemma targets_at:
  assumes "builder_ok b" "i < length (placed_edges b)"
  shows "Uint32_at (table (map ed_dst (placed_edges b))) (4 * i) = ed_dst (placed_edges b ! i)"
proof -
  have "length (gb_entities b) < 2 ^ 32" using assms(1) by (simp add: builder_ok_def MaxEntities_def)
  then have "\<forall>v \<in> set (map ed_dst (placed_edges b)). v < 2 ^ 32"
    using placed_edges_facts(4) [OF assms(1)] by (auto intro: less_trans)
  from read_table [OF _ this, of i "[]"] show ?thesis unfolding append_Nil2 using assms(2) by simp
qed

lemma section_opens:
  assumes "GraphBuild b = Some (Inr bytes)" "builder_ok b" "0 \<le> gb_rows b" "gb_rows b < 2 ^ 32" "length bytes < 2 ^ 32"
  shows "\<exists>g. OpenGraph bytes = Inr g \<and> graph_of b g"
proof -
  let ?n = "length (gb_entities b)" and ?m = "length (gb_edges b)"
  let ?adj = "table (slots (placed_edges b) ?n (?n + 1))" and ?dst = "table (map ed_dst (placed_edges b))"
  let ?men = "encodePostings (map en_mentions (placed_entities b))" and ?ev = "encodePostings (map ed_evidence (placed_edges b))"
  obtain keys types kinds where k: "Build (string_column (map en_key (placed_entities b))) = Some (Inr keys)"
    "Build (string_column (map en_typ (placed_entities b))) = Some (Inr types)"
    "Build (string_column (map ed_kind (placed_edges b))) = Some (Inr kinds)"
    "bytes = section_bytes ?n ?m (gb_rows b) [keys, types, ?men, ?adj, kinds, ?dst, ?ev]"
    by (rule GraphBuild_parts [OF assms(1,2)])
  let ?parts = "[keys, types, ?men, ?adj, kinds, ?dst, ?ev]"
  have seven: "length ?parts = 7" by simp
  have bound: "?n \<le> MaxEntities" "?m \<le> MaxEdges" using assms(2) by (simp_all add: builder_ok_def)
  have fit: "72 + text_size ?parts < 2 ^ 32"
    using assms(5) unfolding k(4) section_bytes_eq [OF seven] length_append length_concat_bytes section_head_length
    by (simp add: text_size_def)
  then have part: "length keys < 2 ^ 32" "length types < 2 ^ 32" "length kinds < 2 ^ 32" "length ?men < 2 ^ 32" "length ?ev < 2 ^ 32"
    unfolding text_size_simps by linarith+
  note e = placed_edges_facts [OF assms(2)]
  have rows: "?n \<le> maxRows" "?m \<le> maxRows" using bound by (simp_all add: MaxEntities_def MaxEdges_def maxRows_def)
  obtain ck where ck: "column_of (map en_key (placed_entities b)) keys ck"
    using column_of_built [OF _ k(1) part(1)] rows by auto
  obtain ct where ct: "column_of (map en_typ (placed_entities b)) types ct"
    using column_of_built [OF _ k(2) part(2)] rows by auto
  obtain cd where cd: "column_of (map ed_kind (placed_edges b)) kinds cd"
    using column_of_built [OF _ k(3) part(3)] rows e(2) by auto
  have "\<forall>l \<in> set (map en_mentions (placed_entities b)). row_list l"
    using assms(2) placed_set [of b] by (auto simp: builder_ok_def evidence_ok_def)
  from postings_opened [OF this part(4)] obtain pm where
    pm: "openPostings ?men ?n = Inr pm" "lists_of (map en_mentions (placed_entities b)) pm" by auto
  have "\<forall>l \<in> set (map ed_evidence (placed_edges b)). row_list l" using e(4) by (auto simp: evidence_ok_def)
  from postings_opened [OF this part(5)] obtain pe where
    pe: "openPostings ?ev ?m = Inr pe" "lists_of (map ed_evidence (placed_edges b)) pe" using e(2) by auto
  have small: "length (placed_edges b) < 2 ^ 32" using bound(2) e(2) by (simp add: MaxEdges_def)
  note asc = slots_ascend(1) [OF small, of _ ?n] slots_ascend(2) [OF small, of ?n]
  have "count_below (placed_edges b) ?n = ?m"
    using e(4) unfolding count_below_def e(2) [symmetric] by (simp add: filter_id_conv)
  then have last: "Uint32_at ?adj (4 * ?n) = ?m" using asc(1) [of ?n] by simp
  have target: "Uint32_at ?dst (4 * i) < ?n" if "i < ?m" for i
    using that e(2,4) targets_at [OF assms(2), of i] by simp
  note cols = open_column_of [OF ck] open_column_of [OF ct] open_column_of [OF cd]
  have lens: "length ?adj = (?n + 1) * 4" "length ?dst = ?m * 4" using e(2) unfolding length_concat_bytes by simp_all
  define g0 where "g0 = \<lparr>gg_size = length bytes, gg_rows = nat (gb_rows b), gg_keys = unread, gg_types = unread, gg_kinds = unread,
    gg_mentions = no_postings, gg_evidence = no_postings, gg_adjacency = [], gg_targets = [], gg_entities = ?n, gg_edges = ?m\<rparr>"
  have "OpenGraph bytes = open_parts g0 ?parts"
    using OpenGraph_section [OF seven bound fit assms(3,4)] unfolding g0_def k(4) .
  also have "\<dots> = Inr (g0\<lparr>gg_keys := ck, gg_types := ct, gg_kinds := cd, gg_mentions := pm,
      gg_evidence := pe, gg_adjacency := ?adj, gg_targets := ?dst\<rparr>)"
    unfolding open_parts_def
    using lens cols pm(1) pe(1) e(2) last asc(2) target by (simp add: g0_def list_all_iff del: upt_Suc map_map)
  finally show ?thesis
    using ck ct cd pm(2) pe(2) unfolding graph_of_def by (auto simp: g0_def)
qed

section \<open>Asking an opened section\<close>

text \<open>What a reader may know by its rows; a caller without a reader sees everything.\<close>

definition readable :: "rowmap option \<Rightarrow> int list \<Rightarrow> bool" where
  "readable allow l \<longleftrightarrow> (case allow of None \<Rightarrow> True | Some m \<Rightarrow> \<exists>r \<in> set l. Get_row m r)"

lemma lists_of_visible:
  "lists_of ls p \<Longrightarrow> i < length ls \<Longrightarrow> ls ! i \<noteq> [] \<Longrightarrow> list_visible p (int i) allow \<longleftrightarrow> readable allow (ls ! i)"
  by (cases allow) (simp_all add: lists_of_def readable_def)

definition section_of :: "graph_builder \<Rightarrow> graph \<Rightarrow> bool" where
  "section_of b g \<longleftrightarrow> builder_ok b \<and> graph_of b g"

lemma section_sizes:
  assumes "section_of b g"
  shows "gg_entities g = length (gb_entities b)" "gg_edges g = length (gb_edges b)" "length (placed_edges b) = length (gb_edges b)"
  using assms placed_edges_facts(2) [of b] by (simp_all add: section_of_def graph_of_def)

lemma section_entity:
  assumes "section_of b g" "i < length (gb_entities b)"
  shows "Key g (int i) = (en_key (placed_entities b ! i), True)" "EntityType g (int i) = (en_typ (placed_entities b ! i), True)"
    "Mentions g (int i) = en_mentions (placed_entities b ! i)"
    "VisibleEntity g (int i) allow \<longleftrightarrow> readable allow (en_mentions (placed_entities b ! i))"
proof -
  have g: "graph_of b g" and b: "builder_ok b" using assms(1) by (simp_all add: section_of_def)
  have i: "i < length (placed_entities b)" using assms(2) by simp
  show "Key g (int i) = (en_key (placed_entities b ! i), True)" "EntityType g (int i) = (en_typ (placed_entities b ! i), True)"
    using g i column_of_at [of "map en_key (placed_entities b)" _ _ i] column_of_at [of "map en_typ (placed_entities b)" _ _ i]
    by (auto simp: graph_of_def Key_def EntityType_def)
  have l: "lists_of (map en_mentions (placed_entities b)) (gg_mentions g)" using g by (simp add: graph_of_def)
  then show "Mentions g (int i) = en_mentions (placed_entities b ! i)" using i by (simp add: lists_of_def Mentions_def)
  have "placed_entities b ! i \<in> set (gb_entities b)" using i placed_set [of b] nth_mem by blast
  then have "en_mentions (placed_entities b ! i) \<noteq> []" using b by (auto simp: builder_ok_def evidence_ok_def)
  then show "VisibleEntity g (int i) allow \<longleftrightarrow> readable allow (en_mentions (placed_entities b ! i))"
    using lists_of_visible [OF l, of i] i by (simp add: VisibleEntity_def)
qed

lemma section_edge:
  assumes "section_of b g" "e < length (gb_edges b)"
  shows "EdgeKind g (int e) = (ed_kind (placed_edges b ! e), True)" "Target g e = ed_dst (placed_edges b ! e)"
    "Evidence g (int e) = ed_evidence (placed_edges b ! e)"
    "EdgeVisible g (int e) allow \<longleftrightarrow> readable allow (ed_evidence (placed_edges b ! e))"
proof -
  have g: "graph_of b g" and b: "builder_ok b" using assms(1) by (simp_all add: section_of_def)
  have e: "e < length (placed_edges b)" using assms(2) section_sizes(3) [OF assms(1)] by simp
  show "EdgeKind g (int e) = (ed_kind (placed_edges b ! e), True)"
    using g e column_of_at [of "map ed_kind (placed_edges b)" _ _ e] by (auto simp: graph_of_def EdgeKind_def)
  show "Target g e = ed_dst (placed_edges b ! e)"
    using g targets_at [OF b e] by (simp add: graph_of_def Target_def)
  have l: "lists_of (map ed_evidence (placed_edges b)) (gg_evidence g)" using g by (simp add: graph_of_def)
  then show "Evidence g (int e) = ed_evidence (placed_edges b ! e)" using e by (simp add: lists_of_def Evidence_def)
  have "ed_evidence (placed_edges b ! e) \<noteq> []"
    using placed_edges_facts(4) [OF b] e by (auto simp: evidence_ok_def)
  then show "EdgeVisible g (int e) allow \<longleftrightarrow> readable allow (ed_evidence (placed_edges b ! e))"
    using lists_of_visible [OF l, of e] e by (simp add: EdgeVisible_def)
qed

lemma section_out:
  assumes "section_of b g" "u < length (gb_entities b)"
  shows "Out g (int u) = (count_below (placed_edges b) u, count_below (placed_edges b) (u + 1))"
    and "e \<in> out_edges g u \<longleftrightarrow> e < length (gb_edges b) \<and> ed_src (placed_edges b ! e) = u"
proof -
  have g: "graph_of b g" and b: "builder_ok b" using assms(1) by (simp_all add: section_of_def)
  have "length (placed_edges b) < 2 ^ 32"
    using b section_sizes(3) [OF assms(1)] by (simp add: builder_ok_def MaxEdges_def)
  note at = slots_ascend(1) [OF this, of _ "length (gb_entities b)"]
  have adj: "gg_adjacency g = table (slots (placed_edges b) (length (gb_entities b)) (length (gb_entities b) + 1))"
    using g by (simp add: graph_of_def)
  show out: "Out g (int u) = (count_below (placed_edges b) u, count_below (placed_edges b) (u + 1))"
    using at [of u] at [of "u + 1"] assms(2) section_sizes(1) [OF assms(1)] unfolding adj [symmetric] by (simp add: Out_def)
  note below = count_below_iff [OF placed_edges_facts(3) [OF b]]
  have "e \<in> out_edges g u \<longleftrightarrow> e < count_below (placed_edges b) (u + 1) \<and> \<not> e < count_below (placed_edges b) u"
    by (auto simp: out_edges_def out)
  then show "e \<in> out_edges g u \<longleftrightarrow> e < length (gb_edges b) \<and> ed_src (placed_edges b ! e) = u"
    unfolding below section_sizes(3) [OF assms(1)] by auto
qed

lemma section_find:
  assumes "section_of b g"
  shows "Find g key = Some at \<longleftrightarrow> at < length (gb_entities b) \<and> en_key (placed_entities b ! at) = key"
proof -
  let ?n = "length (gb_entities b)" and ?k = "\<lambda>i. en_key (placed_entities b ! i)"
  have n: "gg_entities g = ?n" by (rule section_sizes(1) [OF assms])
  have str: "StringAt (gg_keys g) (int i) = (?k i, True)" if "i < ?n" for i
    using section_entity(1) [OF assms that] by (simp add: Key_def)
  have less: "?k i < ?k j" if "i < j" "j < ?n" for i j
    using placed_keys [of b] assms that by (auto simp: section_of_def sorted_wrt_iff_nth_less)
  let ?f = "\<lambda>i. key \<le> fst (StringAt (gg_keys g) (int i))"
  have asc: "ascending ?n ?f"
    unfolding ascending_def
  proof (intro allI impI)
    fix i j assume ij: "i \<le> j" "j < ?n" "?f i"
    then have "?k i \<le> ?k j" using less [of i j] by (cases "i = j") auto
    then show "?f j" using ij str [of i] str [of j] by simp
  qed
  note s = Search_first [OF asc]
  let ?at = "Search ?n ?f"
  have found: "Find g key = Some i \<longleftrightarrow> i = ?at \<and> ?at < ?n \<and> ?k ?at = key" for i
    using s(1) str [of ?at] by (auto simp: Find_def n Let_def)
  show ?thesis
  proof
    assume at: "at < ?n \<and> ?k at = key"
    then have "?at \<le> at" using s(2) [of at] str [of at] by (metis fst_conv not_le order_refl)
    moreover have "\<not> ?at < at"
    proof
      assume "?at < at"
      then have "?k ?at < key" "?at < ?n" using less [of ?at at] at by auto
      then show False using s(3) [of ?at] str [of ?at] by simp
    qed
    ultimately show "Find g key = Some at" using found at by auto
  qed (use found in auto)
qed

section \<open>From what was declared to what is read\<close>

lemma row_bij:
  assumes "builder_ok b"
  shows "bij_betw ((!) (row_table b)) {..<length (gb_entities b)} {..<length (gb_entities b)}"
proof -
  let ?n = "length (gb_entities b)"
  have "distinct (map en_key (gb_entities b))" using assms by (simp add: builder_ok_def)
  then have keys: "en_key (gb_entities b ! i) = en_key (gb_entities b ! j) \<Longrightarrow> i = j" if "i < ?n" "j < ?n" for i j
    using that nth_eq_iff_index_eq [of "map en_key (gb_entities b)" i j] by simp
  have "row_table b ! i = row_table b ! j \<Longrightarrow> i = j" if "i < ?n" "j < ?n" for i j
    using row_of_entity(2) [OF that(1)] row_of_entity(2) [OF that(2)] keys [OF that] by simp
  then have "inj_on ((!) (row_table b)) {..<?n}" by (auto intro: inj_onI)
  moreover have "(!) (row_table b) ` {..<?n} \<subseteq> {..<?n}" using row_of_entity(1) by auto
  ultimately show ?thesis by (simp add: bij_betw_def endo_inj_surj)
qed

lemma row_eq_iff:
  "builder_ok b \<Longrightarrow> i < length (gb_entities b) \<Longrightarrow> j < length (gb_entities b) \<Longrightarrow> row_table b ! i = row_table b ! j \<longleftrightarrow> i = j"
  using row_bij [of b] by (auto simp: bij_betw_def inj_on_def)

lemma find_declared:
  assumes "section_of b g"
  shows "Find g key = map_option ((!) (row_table b)) (fmlookup (gb_keys b) key)"
proof -
  have b: "builder_ok b" using assms by (simp add: section_of_def)
  have look: "fmlookup (gb_keys b) key = Some i \<longleftrightarrow> i < length (gb_entities b) \<and> en_key (gb_entities b ! i) = key" for i
    using b by (simp add: builder_ok_def)
  have "Find g key = Some at \<longleftrightarrow> (\<exists>i. fmlookup (gb_keys b) key = Some i \<and> at = row_table b ! i)" for at
  proof -
    have "at < length (gb_entities b) \<Longrightarrow> \<exists>i < length (gb_entities b). at = row_table b ! i"
      using row_bij [OF b] by (auto simp: bij_betw_def set_eq_iff image_iff)
    then show ?thesis unfolding section_find [OF assms] look using row_of_entity by metis
  qed
  then show ?thesis by (cases "fmlookup (gb_keys b) key"; cases "Find g key") auto
qed

text \<open>The edges out of an entity, as a caller reads them off the section and as the builder was told them.\<close>

definition edges_read :: "graph \<Rightarrow> nat \<Rightarrow> (string \<times> string \<times> int list) list" where
  "edges_read g u =
     (let (lo, hi) = Out g (int u)
      in map (\<lambda>e. (fst (EdgeKind g (int e)), fst (Key g (int (Target g e))), Evidence g (int e))) [lo..<hi])"

definition edges_told :: "graph_builder \<Rightarrow> nat \<Rightarrow> (string \<times> string \<times> int list) list" where
  "edges_told b i =
     map (\<lambda>e. (ed_kind e, en_key (gb_entities b ! ed_dst e), ed_evidence e)) (filter (\<lambda>e. ed_src e = i) (gb_edges b))"

lemma sorted_slice:
  assumes "sorted (map ed_src es)"
  shows "map ((!) es) [count_below es u..<count_below es (u + 1)] = filter (\<lambda>e. ed_src e = u) es"
proof -
  have lens: "count_below es u \<le> length es" "count_below es (u + 1) \<le> length es" by (simp_all add: count_below_def)
  have "map ((!) es) [0..<k] = take k es" if "k \<le> length es" for k
    using that by (intro nth_equalityI) simp_all
  then have "map ((!) es) [count_below es u..<count_below es (u + 1)] = drop (count_below es u) (take (count_below es (u + 1)) es)"
    using lens by (metis drop_map drop_upt add_0)
  also have "take k es = filter (\<lambda>e. ed_src e < v) es" if "k = count_below es v" for k v
    unfolding that using assms
  proof (induction es)
    case (Cons e es)
    show ?case
    proof (cases "ed_src e < v")
      case False
      then have "filter (\<lambda>e. ed_src e < v) es = []" using Cons.prems by (auto simp: filter_empty_conv)
      then show ?thesis using False by (simp add: count_below_def)
    qed (use Cons in \<open>simp add: count_below_def\<close>)
  qed simp
  note this [OF refl, of "u + 1"]
  also have "drop (count_below es u) (filter (\<lambda>e. ed_src e < u + 1) es) = filter (\<lambda>e. ed_src e = u) es"
    using assms
  proof (induction es)
    case (Cons e es)
    show ?case
    proof (cases "ed_src e < u")
      case False
      then have z: "count_below (e # es) u = 0" using Cons.prems by (auto simp: count_below_def filter_empty_conv)
      have "filter (\<lambda>e. ed_src e < u + 1) (e # es) = filter (\<lambda>e. ed_src e = u) (e # es)"
        by (rule filter_cong) (use Cons.prems False in auto)
      then show ?thesis unfolding z by simp
    qed (use Cons in \<open>simp add: count_below_def\<close>)
  qed simp
  finally show ?thesis .
qed

lemma edges_read_told:
  assumes "section_of b g" "i < length (gb_entities b)"
  shows "mset (edges_read g (row_table b ! i)) = mset (edges_told b i)"
proof -
  have b: "builder_ok b" using assms(1) by (simp add: section_of_def)
  note f = placed_edges_facts [OF b] and at = row_of_entity(1) [OF assms(2)]
  let ?u = "row_table b ! i" and ?es = "placed_edges b"
  let ?name = "\<lambda>e. (ed_kind e, en_key (placed_entities b ! ed_dst e), ed_evidence e)"
  have "edges_read g ?u = map (\<lambda>e. ?name (?es ! e)) [count_below ?es ?u..<count_below ?es (?u + 1)]"
  proof -
    have "(fst (EdgeKind g (int e)), fst (Key g (int (Target g e))), Evidence g (int e)) = ?name (?es ! e)"
      if "e \<in> set [count_below ?es ?u..<count_below ?es (?u + 1)]" for e
    proof -
      have e: "e < length (gb_edges b)" using that count_below_iff [OF f(3), of e "?u + 1"] f(2) by simp
      then have "ed_dst (?es ! e) < length (gb_entities b)" using f(2,4) by simp
      then show ?thesis using section_edge [OF assms(1) e] section_entity(1) [OF assms(1)] by simp
    qed
    then show ?thesis by (simp add: edges_read_def section_out(1) [OF assms(1) at] cong: map_cong)
  qed
  also have "\<dots> = map ?name (filter (\<lambda>e. ed_src e = ?u) ?es)"
    using arg_cong [OF sorted_slice [OF f(3)], of "map ?name" ?u] by (simp add: comp_def)
  also have "mset \<dots> = mset (map ?name (filter (\<lambda>e. ed_src e = ?u) (map (placed b) (gb_edges b))))"
    by (simp add: placed_edges_def placed_def [abs_def] mset_filter)
  also have "map ?name (filter (\<lambda>e. ed_src e = ?u) (map (placed b) (gb_edges b))) = edges_told b i"
  proof -
    have "filter ((\<lambda>e. ed_src e = ?u) \<circ> placed b) (gb_edges b) = filter (\<lambda>e. ed_src e = i) (gb_edges b)"
      using b assms(2) by (intro filter_cong) (auto simp: placed_def builder_ok_def row_eq_iff)
    then show ?thesis
      using b row_of_entity(2) by (auto simp: edges_told_def filter_map builder_ok_def placed_def)
  qed
  finally show ?thesis .
qed


section \<open>What a reader reaches\<close>

text \<open>
  The ways of a reader through what was declared: from a named entity the reader may know of, over
  relationships of a followed kind whose evidence the reader may see, to entities the reader may know of.
\<close>

inductive way :: "graph_builder \<Rightarrow> string list \<Rightarrow> rowmap option \<Rightarrow> string list \<Rightarrow> nat \<Rightarrow> nat \<Rightarrow> bool"
  for b ks allow keys where
  start: "LookupEntity b key = Some i \<Longrightarrow> key \<in> set keys \<Longrightarrow> readable allow (en_mentions (gb_entities b ! i)) \<Longrightarrow>
    way b ks allow keys 0 i"
| hop: "way b ks allow keys k (ed_src e) \<Longrightarrow> e \<in> set (gb_edges b) \<Longrightarrow> ks = [] \<or> ed_kind e \<in> set ks \<Longrightarrow>
    readable allow (ed_evidence e) \<Longrightarrow> readable allow (en_mentions (gb_entities b ! ed_dst e)) \<Longrightarrow>
    way b ks allow keys (Suc k) (ed_dst e)"

inductive_cases way_start: "way b ks allow keys 0 i"
inductive_cases way_hop: "way b ks allow keys (Suc k) i"

lemma way_within: "way b ks allow keys k i \<Longrightarrow> builder_ok b \<Longrightarrow> i < length (gb_entities b)"
  by (induction rule: way.induct) (auto simp: LookupEntity_def builder_ok_def)

lemma seeds_declared:
  assumes "section_of b g"
  shows "seeds g allow keys = (!) (row_table b) ` {i. way b ks allow keys 0 i}"
proof -
  have ok: "builder_ok b" using assms by (simp add: section_of_def)
  have vis: "VisibleEntity g (int (row_table b ! i)) allow \<longleftrightarrow> readable allow (en_mentions (gb_entities b ! i))"
    if "LookupEntity b key = Some i" for key i
  proof -
    have "i < length (gb_entities b)" using that ok by (simp add: LookupEntity_def builder_ok_def)
    from section_entity(4) [OF assms row_of_entity(1) [OF this]] row_of_entity(2) [OF this] show ?thesis by simp
  qed
  have "way b ks allow keys 0 i \<longleftrightarrow>
      (\<exists>key \<in> set keys. LookupEntity b key = Some i \<and> readable allow (en_mentions (gb_entities b ! i)))" for i
    by (auto elim: way_start intro: way.start)
  then show ?thesis using vis find_declared [OF assms]
    by (force simp: seeds_def LookupEntity_def)
qed

lemma nexts_declared:
  assumes "section_of b g" "follow g ks = Inr f" "i < length (gb_entities b)"
  shows "nexts g f allow (row_table b ! i) = (\<lambda>e. row_table b ! ed_dst e) `
    {e \<in> set (gb_edges b). ed_src e = i \<and> (ks = [] \<or> ed_kind e \<in> set ks) \<and> readable allow (ed_evidence e) \<and>
       readable allow (en_mentions (gb_entities b ! ed_dst e))}"
proof -
  have b: "builder_ok b" and g: "graph_of b g" using assms(1) by (simp_all add: section_of_def)
  note f = placed_edges_facts [OF b] and at = row_of_entity(1) [OF assms(3)]
  let ?P = "\<lambda>e. (ks = [] \<or> ed_kind e \<in> set ks) \<and> readable allow (ed_evidence e)"
  obtain kb where "column_of (map ed_kind (placed_edges b)) kb (gg_kinds g)" using g by (auto simp: graph_of_def)
  from follow_kinds [OF this, of ks] have wants: "wanted f g e \<longleftrightarrow> ks = [] \<or> ed_kind (placed_edges b ! e) \<in> set ks"
    if "e < length (gb_edges b)" for e using assms(2) that f(2) by auto
  have cross: "crossable g f allow e \<longleftrightarrow> ?P (placed_edges b ! e) \<and>
      readable allow (en_mentions (placed_entities b ! ed_dst (placed_edges b ! e)))" if e: "e < length (gb_edges b)" for e
  proof -
    have "ed_dst (placed_edges b ! e) < length (gb_entities b)" using e f(2,4) by simp
    then show ?thesis
      using wants [OF e] section_edge(2,4) [OF assms(1) e] section_entity(4) [OF assms(1)] by (simp add: crossable_def)
  qed
  have "nexts g f allow (row_table b ! i) = ed_dst ` {e \<in> set (placed_edges b). ed_src e = row_table b ! i \<and> ?P e \<and>
      readable allow (en_mentions (placed_entities b ! ed_dst e))}"
    unfolding nexts_def using section_out(2) [OF assms(1) at] cross section_edge(2) [OF assms(1)] f(2)
    by (fastforce simp: in_set_conv_nth image_iff)
  also have "\<dots> = ed_dst ` placed b ` {e \<in> set (gb_edges b). ed_src e = i \<and> ?P e \<and>
      readable allow (en_mentions (gb_entities b ! ed_dst e))}"
  proof -
    have "ed_src (placed b e) = row_table b ! i \<longleftrightarrow> ed_src e = i"
      "placed_entities b ! ed_dst (placed b e) = gb_entities b ! ed_dst e" if "e \<in> set (gb_edges b)" for e
      using that b assms(3) row_of_entity(2) by (auto simp: placed_def builder_ok_def row_eq_iff)
    moreover have "ed_kind (placed b e) = ed_kind e" "ed_evidence (placed b e) = ed_evidence e" for e
      by (simp_all add: placed_def)
    ultimately show ?thesis unfolding f(1) by (auto simp del: image_image intro!: arg_cong [where f = "image ed_dst"])
  qed
  finally show ?thesis by (simp add: image_image placed_def conj_assoc)
qed

definition nearest :: "graph_builder \<Rightarrow> string list \<Rightarrow> rowmap option \<Rightarrow> string list \<Rightarrow> nat \<Rightarrow> nat \<Rightarrow> bool" where
  "nearest b ks allow keys k i \<longleftrightarrow> way b ks allow keys k i \<and> (\<forall>j < k. \<not> way b ks allow keys j i)"

lemma ball_declared:
  assumes "section_of b g" "follow g ks = Inr f"
  shows "ball g f allow keys k = (!) (row_table b) ` {i. \<exists>j \<le> k. way b ks allow keys j i}"
proof (induction k)
  case 0
  show ?case using seeds_declared [OF assms(1)] by simp
next
  case (Suc k)
  have b: "builder_ok b" using assms(1) by (simp add: section_of_def)
  let ?E = "\<lambda>i. {e \<in> set (gb_edges b). ed_src e = i \<and> (ks = [] \<or> ed_kind e \<in> set ks) \<and> readable allow (ed_evidence e) \<and>
       readable allow (en_mentions (gb_entities b ! ed_dst e))}"
  have next_of: "nexts g f allow (row_table b ! i) = (\<lambda>e. row_table b ! ed_dst e) ` ?E i" if "way b ks allow keys j i" for i j
    by (rule nexts_declared [OF assms way_within [OF that b]])
  have "{i. \<exists>j \<le> Suc k. way b ks allow keys j i} =
      {i. \<exists>j \<le> k. way b ks allow keys j i} \<union> (\<Union>i \<in> {i. \<exists>j \<le> k. way b ks allow keys j i}. ed_dst ` ?E i)"
    (is "?L = ?R")
  proof
    show "?L \<subseteq> ?R"
    proof
      fix i assume "i \<in> ?L"
      then obtain j where j: "j \<le> Suc k" "way b ks allow keys j i" by blast
      then show "i \<in> ?R"
      proof (cases "j \<le> k")
        case False
        then have "way b ks allow keys (Suc k) i" using j by (simp add: le_Suc_eq)
        then show ?thesis by (rule way_hop) blast
      qed blast
    qed
    show "?R \<subseteq> ?L" by (auto intro: way.hop le_SucI)
  qed
  then have "(!) (row_table b) ` {i. \<exists>j \<le> Suc k. way b ks allow keys j i} =
      ball g f allow keys k \<union> (\<Union>i \<in> {i. \<exists>j \<le> k. way b ks allow keys j i}. (\<lambda>e. row_table b ! ed_dst e) ` ?E i)"
    unfolding Suc.IH by (simp only: image_Un image_UN image_image)
  also have "\<dots> = ball g f allow keys (Suc k)" using next_of unfolding ball.simps Suc.IH by (auto 0 4)
  finally show ?case ..
qed

lemma sphere_declared:
  assumes "section_of b g" "follow g ks = Inr f"
  shows "sphere g f allow keys k = (!) (row_table b) ` {i. nearest b ks allow keys k i}"
proof -
  have b: "builder_ok b" using assms(1) by (simp add: section_of_def)
  note ball = ball_declared [OF assms]
  have inj: "inj_on ((!) (row_table b)) {..<length (gb_entities b)}" using row_bij [OF b] by (simp add: bij_betw_def)
  have within: "{i. \<exists>j \<le> n. way b ks allow keys j i} \<subseteq> {..<length (gb_entities b)}" for n
    using way_within b by blast
  show ?thesis
  proof (cases k)
    case 0
    then show ?thesis using seeds_declared [OF assms(1)] by (simp add: sphere_def nearest_def)
  next
    case (Suc n)
    have "sphere g f allow keys k = (!) (row_table b) ` ({i. \<exists>j \<le> Suc n. way b ks allow keys j i} - {i. \<exists>j \<le> n. way b ks allow keys j i})"
      unfolding inj_on_image_set_diff [OF inj subset_trans [OF Diff_subset within] within] by (simp add: Suc sphere_def ball del: ball.simps)
    also have "{i. \<exists>j \<le> Suc n. way b ks allow keys j i} - {i. \<exists>j \<le> n. way b ks allow keys j i} = {i. nearest b ks allow keys k i}"
      by (auto simp: nearest_def Suc le_Suc_eq less_Suc_eq_le)
    finally show ?thesis .
  qed
qed

lemma Traverse_answers:
  assumes "follow g (tr_Kinds t) = Inr kinds" "0 \<le> tr_Depth t" "tr_Depth t \<le> MaxDepth" "0 \<le> tr_Limit t"
  shows "\<exists>r. Traverse g (Some t) allow = Inr r"
  using assms by (auto simp: Traverse_def Let_def split: prod.splits)

lemma walk_unlimited:
  assumes "walk_ok g f allow keys (gg_entities g) k r" "graph_ok g"
  shows "\<not> wa_Truncated r \<and> set (wa_Entities r) = {(v, j). j \<le> k \<and> v \<in> sphere g f allow keys j}"
proof -
  let ?vs = "map fst (wa_Entities r)"
  have w: "distinct ?vs" "right_depths g f allow keys (wa_Entities r)" "set ?vs \<subseteq> ball g f allow keys k"
    using assms(1) by (simp_all add: walk_ok_def)
  have within: "ball g f allow keys k \<subseteq> {..<gg_entities g}" using ball_within [OF assms(2)] by blast
  have full: "\<not> wa_Truncated r"
  proof
    assume "wa_Truncated r"
    then have len: "length ?vs = gg_entities g" and miss: "\<exists>v \<in> ball g f allow keys k. v \<notin> set ?vs"
      using assms(1) by (simp_all add: walk_ok_def)
    have "card (set ?vs) = card {..<gg_entities g}" using distinct_card [OF w(1)] len by simp
    then have "set ?vs = {..<gg_entities g}" using w(3) within by (intro card_subset_eq) auto
    then show False using miss within by blast
  qed
  then have all: "fst ` set (wa_Entities r) = ball g f allow keys k" using assms(1) by (simp add: walk_ok_def)
  have at: "v \<in> sphere g f allow keys j" if "(v, j) \<in> set (wa_Entities r)" for v j
    using that w(2) by (auto simp: right_depths_def)
  have before: "\<not> i < j" if "v \<in> sphere g f allow keys i" "v \<in> sphere g f allow keys j" for v i j
  proof
    assume "i < j"
    then have "ball g f allow keys i \<subseteq> ball g f allow keys (j - 1)" by (intro ball_mono) simp
    then show False using that \<open>i < j\<close> by (auto simp: sphere_def)
  qed
  have one: "i = j" if "v \<in> sphere g f allow keys i" "v \<in> sphere g f allow keys j" for v i j
    using before that by (meson linorder_neqE_nat)
  have ball_at: "\<exists>j \<le> k. v \<in> sphere g f allow keys j" if "v \<in> ball g f allow keys k" for v k
    using that
  proof (induction k)
    case (Suc k)
    show ?case
    proof (cases "v \<in> ball g f allow keys k")
      case True
      then show ?thesis using Suc.IH le_SucI by blast
    next
      case False
      then have "v \<in> sphere g f allow keys (Suc k)" using Suc.prems by (simp add: sphere_def del: ball.simps)
      then show ?thesis by blast
    qed
  qed (auto simp: sphere_def)
  have in_ball: "v \<in> ball g f allow keys j" if "v \<in> sphere g f allow keys j" for v j using that by (simp add: sphere_def)
  have "set (wa_Entities r) = {(v, j). j \<le> k \<and> v \<in> sphere g f allow keys j}"
  proof (intro set_eqI iffI; clarify)
    fix v j assume vj: "(v, j) \<in> set (wa_Entities r)"
    then have "v \<in> ball g f allow keys k" using all by force
    then obtain i where "i \<le> k" "v \<in> sphere g f allow keys i" using ball_at by blast
    then show "j \<le> k \<and> v \<in> sphere g f allow keys j" using at [OF vj] one by blast
  next
    fix v j assume j: "j \<le> k" "v \<in> sphere g f allow keys j"
    then have "v \<in> ball g f allow keys k" using in_ball ball_mono by blast
    then obtain i where i: "(v, i) \<in> set (wa_Entities r)" using all by force
    then have "i = j" using at j one by blast
    then show "(v, j) \<in> set (wa_Entities r)" using i by simp
  qed
  then show ?thesis using full by blast
qed


end
