(* ===== verification/Graph_Size.thy ===== *)
theory Graph_Size
  imports Graph_Roundtrip
begin

text \<open>
  How large a section gets: the bytes of a column and of the posting lists are bounded by what was
  declared, so that a builder never fails and its section opens.
\<close>

section \<open>The bytes of a column\<close>

lemma length_uvarint: "length (uvarint v) = uvarintLen v"
proof (induction v rule: uvarint.induct)
  case (1 v)
  then show ?case by (subst uvarint.simps, subst uvarintLen.simps) simp
qed

lemma uvarintLen_le: "v < 128 ^ k \<Longrightarrow> 0 < k \<Longrightarrow> uvarintLen v \<le> k"
proof (induction k arbitrary: v)
  case (Suc k)
  show ?case
  proof (cases "v < 128")
    case True
    then show ?thesis by (subst uvarintLen.simps) simp
  next
    case False
    then have "0 < k" using Suc.prems(1) by (cases k) simp_all
    moreover have "v div 128 < 128 ^ k" using Suc.prems(1) by (simp add: less_mult_imp_div_less mult.commute)
    ultimately have "uvarintLen (v div 128) \<le> k" using Suc.IH by blast
    then show ?thesis using False by (subst uvarintLen.simps) simp
  qed
qed simp

lemma uvarint_short: "v < 2 ^ 64 \<Longrightarrow> length (uvarint v) \<le> 10"
  unfolding length_uvarint by (rule uvarintLen_le) simp_all

lemma runs_length: "length (append_runs (fst (runs_of codes))) = snd (runs_of codes)"
proof -
  have "foldl (\<lambda>n r. n + (uvarintLen (unat (rn_code r)) + uvarintLen (rn_length r))) n rs =
      n + length (concat (map (\<lambda>r. uvarint (unat (rn_code r)) @ uvarint (rn_length r)) rs))" for n rs
    by (induction rs arbitrary: n) (simp_all add: length_uvarint)
  note sum = this
  show ?thesis by (cases codes) (simp_all add: runs_of_def append_runs_def Let_def sum)
qed

lemma packed_length: "length (appendPacked out codes bits) = length out + codeBytes (length codes) bits"
proof (cases "bits = 0")
  case False
  have step: "length (pack_step 0 bits s (i, c)) = length s" if "i < n" "length s = codeBytes n bits" for s i c n
  proof -
    have "i * bits div 8 + 8 \<le> length s" using codeBytes_room [OF _ that(1), of bits] that(2) False by simp
    then show ?thesis by (simp add: pack_step_def Let_def length_put_at)
  qed
  have "length (foldl (pack_step 0 bits) s (enumerate k cs)) = length s"
    if "k + length cs \<le> n" "length s = codeBytes n bits" for s k cs n
    using that
  proof (induction cs arbitrary: s k)
    case (Cons c cs)
    then show ?case using step [of k n s c] by simp
  qed simp
  from this [of 0 codes "length codes" "replicate (codeBytes (length codes) bits) (of_byte 0)"]
  show ?thesis unfolding appendPacked_eq [OF False] by simp
qed (simp add: appendPacked_def codeBytes_def)

lemma codeBytes_le: "bits \<le> 64 \<Longrightarrow> codeBytes n bits \<le> 8 * n + 8"
proof -
  assume "bits \<le> 64"
  then have "(n * bits + 7) div 8 \<le> (n * 64 + 7) div 8" by (intro div_le_mono) simp
  moreover have "(n * 64 + 7) div 8 = 8 * n" by presburger
  ultimately show ?thesis by (simp add: codeBytes_def)
qed

lemma width_le: "fst (width w) \<le> 64"
  using width_ok(1) [of w w] by (auto simp: maxPackedBits_def)

lemma Build_length:
  assumes "bu_err b = None" "\<not> bu_nulls b" "encode b = Some e" "length (ec_codes e) = bu_rows b"
  shows "\<exists>bytes. Build b = Some (Inr bytes) \<and> length bytes \<le> 32 + 8 * bu_rows b + length (ec_dict e)"
proof -
  let ?bits = "fst (width (foldl max 0 (ec_codes e)))"
  have "codeBytes (bu_rows b) ?bits \<le> 8 * bu_rows b + 8" by (rule codeBytes_le [OF width_le])
  then show ?thesis
    using assms(2,4) unfolding Build_eq [OF assms(1,3)]
    by (auto simp: packed_length runs_length build_encoding_def presence_bytes_def EncodingRuns_def EncodingPlain_def)
qed

lemma column_fits:
  assumes "length ss \<le> maxRows"
  shows "\<exists>bytes. Build (string_column ss) = Some (Inr bytes) \<and> length bytes \<le> 36 + 12 * length ss + text_size ss"
proof -
  let ?cells = "map VString ss" and ?b = "collect TypeString (map VString ss)"
  have typed: "list_all (of_type TypeString) ?cells" "length ?cells \<le> maxRows" "known TypeString"
    using assms by (simp_all add: list_all_iff known_def)
  note b = collect_ok [OF typed(3,1,2)]
  have "?cells = [] \<or> strings_of ?cells \<noteq> []" by simp
  from encode_strings [OF b typed(1) this typed(2)] obtain e where
    e: "encode ?b = Some e" "encodes TypeString ?cells (sort (bu_terms ?b)) e" by blast
  have c: "bu_err ?b = None" "bu_rows ?b = length ss" "\<not> bu_nulls ?b" "distinct (bu_terms ?b)" "set (bu_terms ?b) = set ss"
    "length (bu_terms ?b) \<le> length ss"
    using b by (auto simp: collected_def ids_ok_def)
  have "length (ec_codes e) = bu_rows ?b" using e(2) c(2) by (simp add: encodes_def)
  from Build_length [OF c(1,3) e(1) this] obtain bytes where
    bytes: "Build ?b = Some (Inr bytes)" "length bytes \<le> 32 + 8 * length ss + length (ec_dict e)" using c(2) by auto
  have "text_size (sort (bu_terms ?b)) = text_size (remdups ss)" using c(4,5) by (simp add: text_size_set)
  moreover have "text_size (remdups ss) \<le> text_size ss" by (induction ss) auto
  ultimately have "length (ec_dict e) \<le> 4 + 4 * length ss + text_size ss"
    using e(2) c(6) by (simp add: encodes_def dict_bytes_length)
  then show ?thesis using bytes string_column_collect by auto
qed

section \<open>The bytes of a section\<close>

lemma list_bytes_length: "length (list_bytes prev l) \<le> 10 * length l"
proof (induction l arbitrary: prev)
  case (Cons r l)
  have "nat ((r - prev) mod 2 ^ 64) < 2 ^ 64" by (simp add: nat_less_iff)
  from uvarint_short [OF this] show ?case using Cons [of r] by simp
qed simp

lemma list_texts_size: "text_size (list_texts ls) \<le> 10 * length (concat ls)"
proof (induction ls)
  case (Cons l ls)
  then show ?case using list_bytes_length [of 0 l] by (simp add: list_texts_def)
qed (simp add: list_texts_def)

text \<open>What a section has to hold: the text and the rows of what was declared.\<close>

definition section_bound :: "graph_builder \<Rightarrow> nat" where
  "section_bound b =
     200 + 32 * length (gb_entities b) + 20 * length (gb_edges b) +
     sum_list (map (\<lambda>x. length (en_key x) + length (en_typ x) + 10 * length (en_mentions x)) (gb_entities b)) +
     sum_list (map (\<lambda>e. length (ed_kind e) + 10 * length (ed_evidence e)) (gb_edges b))"

lemma text_size_sum: "text_size (map f xs) = sum_list (map (\<lambda>x. length (f x)) xs)"
  by (induction xs) simp_all

lemma concat_sum: "length (concat (map f xs)) = sum_list (map (\<lambda>x. length (f x)) xs)"
  by (induction xs) simp_all

lemma sum_list_mset: "mset xs = mset ys \<Longrightarrow> sum_list (map f xs) = (sum_list (map f ys) :: nat)"
  by (metis mset_map sum_mset_sum_list)

lemma placed_mset: "mset (placed_entities b) = mset (gb_entities b)"
proof -
  have "mset (entity_order b) = mset [0..<length (gb_entities b)]" by (simp add: entity_order_def)
  then have "mset (placed_entities b) = mset (map ((!) (gb_entities b)) [0..<length (gb_entities b)])"
    unfolding placed_entities_def by (metis mset_map)
  then show ?thesis by (simp add: map_nth)
qed

lemma placed_edges_sum:
  assumes "\<And>e. f (placed b e) = f e"
  shows "sum_list (map f (placed_edges b)) = (sum_list (map f (gb_edges b)) :: nat)"
proof -
  have "mset (placed_edges b) = mset (map (placed b) (gb_edges b))"
    by (simp add: placed_edges_def placed_def [abs_def])
  from sum_list_mset [OF this] show ?thesis using assms by (simp add: comp_def)
qed

lemma section_length: "length parts = 7 \<Longrightarrow> length (section_bytes n m rows parts) = 72 + text_size parts"
  unfolding section_bytes_eq length_append length_concat_bytes section_head_length by (simp add: text_size_def)

lemma Build_section:
  assumes "builder_ok b"
  shows "\<exists>bytes. GraphBuild b = Some (Inr bytes) \<and> length bytes \<le> section_bound b"
proof -
  let ?n = "length (gb_entities b)" and ?m = "length (gb_edges b)" and ?ents = "placed_entities b" and ?edges = "placed_edges b"
  note e = placed_edges_facts [OF assms]
  have rows: "length (map en_key ?ents) \<le> maxRows" "length (map en_typ ?ents) \<le> maxRows" "length (map ed_kind ?edges) \<le> maxRows"
    using assms e(2) by (simp_all add: builder_ok_def MaxEntities_def MaxEdges_def maxRows_def)
  obtain keys where keys: "Build (string_column (map en_key ?ents)) = Some (Inr keys)"
    "length keys \<le> 36 + 12 * ?n + text_size (map en_key ?ents)" using column_fits [OF rows(1)] by auto
  obtain types where types: "Build (string_column (map en_typ ?ents)) = Some (Inr types)"
    "length types \<le> 36 + 12 * ?n + text_size (map en_typ ?ents)" using column_fits [OF rows(2)] by auto
  obtain kinds where kinds: "Build (string_column (map ed_kind ?edges)) = Some (Inr kinds)"
    "length kinds \<le> 36 + 12 * ?m + text_size (map ed_kind ?edges)" using column_fits [OF rows(3)] e(2) by auto
  let ?men = "encodePostings (map en_mentions ?ents)" and ?ev = "encodePostings (map ed_evidence ?edges)"
  have t: "edge_tables ?n ?edges = (table (map ed_dst ?edges), table (slots ?edges ?n (?n + 1)))"
    by (rule edge_tables_eq [OF e(3)]) (use e(4) in blast)
  let ?parts = "[keys, types, ?men, table (slots ?edges ?n (?n + 1)), kinds, table (map ed_dst ?edges), ?ev]"
  have built: "GraphBuild b = Some (Inr (section_bytes ?n ?m (gb_rows b) ?parts))"
    unfolding GraphBuild_def Let_def placed_entities_def [symmetric] t prod.case keys(1) types(1) kinds(1) by (simp add: e(2))
  have men: "length ?men \<le> 8 + 4 * ?n + 10 * length (concat (map en_mentions ?ents))"
    using list_texts_size [of "map en_mentions ?ents"] unfolding encodePostings_length by simp
  have ev: "length ?ev \<le> 8 + 4 * ?m + 10 * length (concat (map ed_evidence ?edges))"
    using list_texts_size [of "map ed_evidence ?edges"] e(2) unfolding encodePostings_length by simp
  have tabs: "length (table (slots ?edges ?n (?n + 1))) = 4 * (?n + 1)" "length (table (map ed_dst ?edges)) = 4 * ?m"
    unfolding length_concat_bytes using e(2) by simp_all
  have "length (section_bytes ?n ?m (gb_rows b) ?parts) = 72 + text_size ?parts"
    by (rule section_length) simp
  moreover have "text_size ?parts \<le> 128 + 32 * ?n + 20 * ?m + (text_size (map en_key ?ents) + text_size (map en_typ ?ents) +
      10 * length (concat (map en_mentions ?ents))) + (text_size (map ed_kind ?edges) + 10 * length (concat (map ed_evidence ?edges)))"
    using keys(2) types(2) kinds(2) men ev unfolding text_size_simps tabs by simp
  moreover have "text_size (map en_key ?ents) + text_size (map en_typ ?ents) + 10 * length (concat (map en_mentions ?ents)) =
      sum_list (map (\<lambda>x. length (en_key x) + length (en_typ x) + 10 * length (en_mentions x)) (gb_entities b))"
    unfolding text_size_sum concat_sum using sum_list_mset [OF placed_mset [of b]]
    by (simp add: sum_list_addf sum_list_const_mult)
  moreover have "text_size (map ed_kind ?edges) + 10 * length (concat (map ed_evidence ?edges)) =
      sum_list (map (\<lambda>e. length (ed_kind e) + 10 * length (ed_evidence e)) (gb_edges b))"
    unfolding text_size_sum concat_sum using placed_edges_sum [of _ b]
    by (simp add: sum_list_addf sum_list_const_mult placed_def)
  ultimately have "length (section_bytes ?n ?m (gb_rows b) ?parts) \<le> section_bound b"
    unfolding section_bound_def by (simp only: add_le_mono1 add_ac numeral_plus_numeral)
  then show ?thesis using built by blast
qed


section \<open>A small section\<close>

definition some_told :: "told list" where
  "some_told = [DeclareEntity ''ada'' ''person'' [0], DeclareEntity ''core'' ''team'' [1, 2], DeclareEdge 0 1 ''in'' [2]]"

lemma some_builder:
  "declare_all 3 some_told = \<lparr>gb_rows = 3, gb_keys = fmupd ''core'' 1 (fmupd ''ada'' 0 fmempty),
     gb_entities = [\<lparr>en_key = ''ada'', en_typ = ''person'', en_mentions = [0]\<rparr>, \<lparr>en_key = ''core'', en_typ = ''team'', en_mentions = [1, 2]\<rparr>],
     gb_edges = [\<lparr>ed_src = 0, ed_dst = 1, ed_kind = ''in'', ed_evidence = [2]\<rparr>]\<rparr>"
  by (simp add: declare_all_def some_told_def NewGraphBuilder_def Entity_def Edge_def postings_of_def MaxEntities_def MaxEdges_def)

lemma some_section:
  obtains bytes g where "GraphBuild (declare_all 3 some_told) = Some (Inr bytes)" "length bytes < 2 ^ 32"
    "OpenGraph bytes = Inr g" "section_of (declare_all 3 some_told) g"
proof -
  have ok: "builder_ok (declare_all 3 some_told)" by (rule declare_ok) simp
  obtain bytes where b: "GraphBuild (declare_all 3 some_told) = Some (Inr bytes)" "length bytes \<le> section_bound (declare_all 3 some_told)"
    using Build_section [OF ok] by blast
  have "section_bound (declare_all 3 some_told) < 2 ^ 32" by (simp add: section_bound_def some_builder)
  with b(2) have "length bytes < 2 ^ 32" by (rule le_less_trans)
  moreover obtain g where "OpenGraph bytes = Inr g" "graph_of (declare_all 3 some_told) g"
    using section_opens [OF b(1) ok _ _ \<open>length bytes < 2 ^ 32\<close>] by (auto simp: declare_rows)
  ultimately show ?thesis using that b(1) ok by (simp add: section_of_def)
qed



text \<open>The only document that states the relationship is row 2: a reader without it does not cross.\<close>

lemma some_way:
  "way (declare_all 3 some_told) [] (Some (Set_row 1 (Set_row 0 (NewRows 3)))) [''ada''] k i \<longleftrightarrow> k = 0 \<and> i = 0"
proof -
  have rows: "Get_row (Set_row 1 (Set_row 0 (NewRows 3))) 0" "\<not> Get_row (Set_row 1 (Set_row 0 (NewRows 3))) 2" by code_simp+
  show ?thesis
  proof
    assume "way (declare_all 3 some_told) [] (Some (Set_row 1 (Set_row 0 (NewRows 3)))) [''ada''] k i"
    then show "k = 0 \<and> i = 0"
      by (induction rule: way.induct) (use rows in \<open>auto simp: some_builder LookupEntity_def readable_def\<close>)
  next
    assume "k = 0 \<and> i = 0"
    then show "way (declare_all 3 some_told) [] (Some (Set_row 1 (Set_row 0 (NewRows 3)))) [''ada''] k i"
      using way.start [of "declare_all 3 some_told" "''ada''" 0] rows by (simp add: some_builder LookupEntity_def readable_def)
  qed
qed


lemma Traverse_exact_witness:
  "\<exists>bytes g kinds r. OpenGraph bytes = Inr g \<and> follow g [] = Inr kinds \<and>
     Traverse g (Some \<lparr>tr_From = [''ada''], tr_Kinds = [], tr_Depth = 2, tr_Limit = 1\<rparr>) None = Inr r \<and>
     distinct (map fst (wa_Entities r)) \<and> fst ` set (wa_Entities r) \<subseteq> ball g kinds None [''ada''] 2"
proof -
  obtain bytes g where o: "OpenGraph bytes = Inr g" by (rule some_section)
  let ?t = "\<lparr>tr_From = [''ada''], tr_Kinds = [], tr_Depth = 2, tr_Limit = 1\<rparr>"
  have f: "follow g [] = Inr \<lparr>kf_codes = [], kf_all = True\<rparr>" by (simp add: follow_def)
  then obtain r where r: "Traverse g (Some ?t) None = Inr r" using Traverse_answers [of g ?t] by (auto simp: MaxDepth_def)
  have "follow g (tr_Kinds ?t) = Inr \<lparr>kf_codes = [], kf_all = True\<rparr>" using f by simp
  from Traverse_exact [OF o this r] show ?thesis using o f r by auto
qed

lemma Traverse_explained_witness:
  "\<exists>bytes g kinds r. OpenGraph bytes = Inr g \<and> follow g [''in''] = Inr kinds \<and>
     Traverse g (Some \<lparr>tr_From = [''ada''], tr_Kinds = [''in''], tr_Depth = 2, tr_Limit = 0\<rparr>) (Some (Set_row 2 (NewRows 3))) = Inr r \<and>
     (\<forall>h \<in> set (wa_Edges r). EdgeVisible g (int (ho_Edge h)) (Some (Set_row 2 (NewRows 3))))"
proof -
  obtain bytes g where o: "OpenGraph bytes = Inr g" "section_of (declare_all 3 some_told) g" by (rule some_section)
  let ?t = "\<lparr>tr_From = [''ada''], tr_Kinds = [''in''], tr_Depth = 2, tr_Limit = 0\<rparr>" and ?m = "Some (Set_row 2 (NewRows 3))"
  obtain kb where "column_of (map ed_kind (placed_edges (declare_all 3 some_told))) kb (gg_kinds g)"
    using o(2) by (auto simp: section_of_def graph_of_def)
  from follow_kinds [OF this] obtain f where f: "follow g (tr_Kinds ?t) = Inr f" by blast
  obtain r where r: "Traverse g (Some ?t) ?m = Inr r" using Traverse_answers [OF f] by (auto simp: MaxDepth_def)
  from Traverse_explained [OF r f] show ?thesis using o(1) f r by auto
qed

end
