(* ===== verification/Spec2Isabelle.thy ===== *)
theory Spec2Isabelle
  imports Acl_Bitmap Memstore_Behaviour Directory_Cached Directory_File Index_Search_Answers Connector_Aclmap Ingest_Repair Recheck_Facts Graph_Size
begin

text \<open>
  A verification library for genba, a permission aware search engine written in Go. The
  development follows the path of a query: who is asking (package \<open>directory\<close>), what they may
  read (package \<open>acl\<close>), what a document is and which terms it has (package \<open>doc\<close>), and where
  the documents and what people say about them are kept (package \<open>store\<close> and its reference
  driver \<open>store/memstore\<close>), with the cache (package \<open>cache\<close>) between the edge and the directory.
\<close>

end
